(* ===== verification/DL_Prelude.thy ===== *)
theory DL_Prelude
  imports Main "HOL-Library.Word"
begin

text \<open>
  Shared vocabulary of the development: machine types of the 64-bit configuration, the result
  type of operations that may abort or not return, and the facts on machine words that all
  components use.

  A \<open>size_t\<close> and every pointer is a 64-bit word (\<open>SIZE_T_SIZE\<close> is 8 and pointers have the
  same width, which \<open>init_mparams\<close> insists on); \<open>binmap_t\<close>, \<open>bindex_t\<close> and \<open>flag_t\<close> are
  32-bit words. Arithmetic on words wraps around, as unsigned arithmetic does in C.
\<close>

unbundle bit_operations_syntax

type_synonym size_t = "64 word"
type_synonym addr = "64 word"
type_synonym u32 = "32 word"

named_theorems dl_consts "values of the compile-time constants"
named_theorems dl_flags "facts on the flag bits of a head word"
named_theorems dl_mem "reads and writes of memory cells and state fields"

section \<open>Results\<close>

text \<open>
  \<open>CORRUPTION_ERROR_ACTION\<close> and \<open>USAGE_ERROR_ACTION\<close> both call \<open>abort()\<close> in the
  default configuration: the two are kept apart as values. \<open>Diverges\<close> is the result of a
  loop that does not end.
\<close>

datatype fault = CorruptionAbort | UsageAbort | InitAbort | Diverges

type_synonym 'a res = "fault + 'a"

definition bindR :: "'a res \<Rightarrow> ('a \<Rightarrow> 'b res) \<Rightarrow> 'b res" where
  "bindR r f = (case r of Inl e \<Rightarrow> Inl e | Inr x \<Rightarrow> f x)"

lemma bindR_simps [simp]:
  "bindR (Inl e) f = Inl e"
  "bindR (Inr x) f = f x"
  by (simp_all add: bindR_def)

lemma bindR_eq_Inr [simp]:
  "bindR r f = Inr y \<longleftrightarrow> (\<exists>x. r = Inr x \<and> f x = Inr y)"
  by (cases r) auto

lemma bindR_assoc: "bindR (bindR r f) g = bindR r (\<lambda>x. bindR (f x) g)"
  by (cases r) auto

text \<open>A loop is a partial function into \<open>option\<close>; \<open>None\<close> is a loop that never returns.\<close>

definition run_loop :: "'a res option \<Rightarrow> 'a res" where
  "run_loop r = (case r of None \<Rightarrow> Inl Diverges | Some x \<Rightarrow> x)"

lemma run_loop_simps [simp]:
  "run_loop None = Inl Diverges"
  "run_loop (Some x) = x"
  by (simp_all add: run_loop_def)

text \<open>
  A part of an operation that may return early: \<open>Return\<close> the result of the operation, or go on
  with the values of the local variables.
\<close>

datatype ('r, 'c) flow = Return 'r | Next 'c

definition andThen :: "('r, 'c) flow res \<Rightarrow> ('c \<Rightarrow> 'r res) \<Rightarrow> 'r res" where
  "andThen m f = bindR m (\<lambda>x. case x of Return r \<Rightarrow> Inr r | Next c \<Rightarrow> f c)"

lemma andThen_simps [simp]:
  "andThen (Inl e) f = Inl e"
  "andThen (Inr (Return r)) f = Inr r"
  "andThen (Inr (Next c)) f = f c"
  by (simp_all add: andThen_def)

section \<open>Words\<close>

lemma unat_and_mask: "unat (x AND mask n :: 'a::len word) = unat x mod 2 ^ n"
proof -
  have "unat (take_bit n x) = take_bit n (unat x)" by (rule unsigned_take_bit_eq)
  then show ?thesis by (simp only: take_bit_eq_mask [of n x] take_bit_eq_mod [of n "unat x"])
qed

lemma low_masks:
  "(15 :: 'a::len word) = mask 4" "(7 :: 'a::len word) = mask 3" "(3 :: 'a::len word) = mask 2"
  by (simp_all add: mask_eq_exp_minus_1)

lemma unat_and_15: "unat (x AND 15 :: 'a::len word) = unat x mod 16"
  by (simp add: low_masks unat_and_mask)

lemma and_15_eq_0: "(x AND 15 :: 'a::len word) = 0 \<longleftrightarrow> 16 dvd unat x"
  by (simp add: unat_and_15 dvd_eq_mod_eq_0 flip: unat_0_iff)

lemma or_disjoint_eq_add: "x AND y = 0 \<Longrightarrow> x OR y = x + (y :: 'a::len word)"
  by (metis add_0 word_plus_and_or)

lemma and_not_eq_minus: "x AND NOT m = x - (x AND m :: 'a::len word)"
proof -
  have "(x AND m) OR (x AND NOT m) = (x AND m) + (x AND NOT m)"
    by (rule or_disjoint_eq_add) (rule bit_word_eqI, simp add: bit_simps)
  moreover have "(x AND m) OR (x AND NOT m) = x" by (simp flip: bit.conj_disj_distrib)
  ultimately show ?thesis by (simp add: algebra_simps)
qed

lemma unat_and_not_mask: "unat (x AND NOT (mask n) :: 'a::len word) = unat x - unat x mod 2 ^ n"
  by (simp add: and_not_eq_minus unat_sub word_and_le1 word_and_le2 unat_and_mask)

lemma unat_and_not_15: "unat (x AND NOT 15 :: 'a::len word) = unat x - unat x mod 16"
  using unat_and_not_mask [of x 4] by (simp add: low_masks)

lemma unat_and_m16: "unat (x AND - 16 :: 'a::len word) = unat x - unat x mod 16"
  using unat_and_not_15 [of x] by simp

lemma unat_mask: "n \<le> LENGTH('a) \<Longrightarrow> unat (mask n :: 'a::len word) = 2 ^ n - 1"
proof -
  assume n: "n \<le> LENGTH('a)"
  have "uint (mask n :: 'a word) = mask n" using n by (simp add: uint_mask_eq min_def)
  then have "int (unat (mask n :: 'a word)) = int (mask n)" by (simp add: of_nat_mask_eq)
  then show ?thesis by (simp only: of_nat_eq_iff mask_eq_exp_minus_1)
qed

lemma unat_exp: "n < LENGTH('a) \<Longrightarrow> unat (2 ^ n :: 'a::len word) = 2 ^ n"
proof -
  assume n: "n < LENGTH('a)"
  have "unat (push_bit n 1 :: 'a word) = take_bit LENGTH('a) (push_bit n (unat (1 :: 'a word)))"
    by (rule unsigned_push_bit_eq)
  with n show ?thesis by (simp add: push_bit_eq_mult take_bit_eq_mod unat_1)
qed

lemma unat_drop: "unat (drop_bit n x :: 'a::len word) = unat x div 2 ^ n"
  by (metis unat_drop_bit_eq drop_bit_eq_div)

lemma unat_push:
  "unat x * 2 ^ n < 2 ^ LENGTH('a) \<Longrightarrow> unat (push_bit n x :: 'a::len word) = unat x * 2 ^ n"
proof -
  assume lt: "unat x * 2 ^ n < 2 ^ LENGTH('a)"
  have "unat (push_bit n x) = take_bit LENGTH('a) (push_bit n (unat x))"
    by (rule unsigned_push_bit_eq)
  with lt show ?thesis by (simp add: push_bit_eq_mult take_bit_eq_mod)
qed

lemma unat_and_1: "unat (x AND 1 :: 'a::len word) = unat x mod 2"
  using unat_and_mask [of x 1] by (simp add: mask_1)

lemma unat_ucast: "unat (ucast (x :: 'a::len word) :: 'b::len word) = unat x mod 2 ^ LENGTH('b)"
  by (metis unsigned_ucast_eq take_bit_eq_mod)

lemma word_bit_exists: "x \<noteq> 0 \<Longrightarrow> \<exists>i < LENGTH('a). bit (x :: 'a::len word) i"
  by (metis bit_word_eqI bit_0_eq bot_apply bot_bool_def)

text \<open>Rounding up to a multiple of \<open>2 ^ n\<close> by adding a mask and clearing the low bits.\<close>

lemma round_up_mod:
  fixes x d :: nat
  assumes "0 < d"
  shows "x \<le> (x + (d - 1)) - (x + (d - 1)) mod d" "(x + (d - 1)) - (x + (d - 1)) mod d < x + d"
    "d dvd (x + (d - 1)) - (x + (d - 1)) mod d"
proof -
  have "(x + (d - 1)) mod d < d" using assms by simp
  then show "x \<le> (x + (d - 1)) - (x + (d - 1)) mod d" by linarith
  show "(x + (d - 1)) - (x + (d - 1)) mod d < x + d" using assms by linarith
  show "d dvd (x + (d - 1)) - (x + (d - 1)) mod d" by (rule dvd_minus_mod)
qed

lemma round_up_least:
  fixes x d y :: nat
  assumes "0 < d" "d dvd y" "x \<le> y"
  shows "(x + (d - 1)) - (x + (d - 1)) mod d \<le> y"
proof -
  let ?r = "(x + (d - 1)) - (x + (d - 1)) mod d"
  obtain a where a: "y = d * a" using assms(2) by (rule dvdE)
  obtain b where b: "?r = d * b" using round_up_mod(3) [OF assms(1), of x] by (rule dvdE)
  have "d * b < d * a + d" using round_up_mod(2) [OF assms(1), of x] assms(3) a b by linarith
  then have "d * b < d * Suc a" by simp
  then have "b < Suc a" using mult_less_cancel1 by blast
  then show ?thesis using a b by simp
qed

lemma unat_round_up:
  fixes x :: "'a::len word"
  assumes "n \<le> LENGTH('a)" "unat x + (2 ^ n - 1) < 2 ^ LENGTH('a)"
  shows "unat ((x + mask n) AND NOT (mask n))
    = unat x + (2 ^ n - 1) - (unat x + (2 ^ n - 1)) mod 2 ^ n"
proof -
  have m: "unat (mask n :: 'a word) = 2 ^ n - 1" using assms(1) by (rule unat_mask)
  have "unat (x + mask n) = unat x + (2 ^ n - 1)"
    using assms by (simp add: unat_word_ariths m)
  then show ?thesis by (simp add: unat_and_not_mask)
qed

end
