(* ===== verification/DL_Sizes.thy ===== *)
theory DL_Sizes
  imports DL_Prelude
begin

text \<open>
  Sizes, alignments and head words: the macros of src/src/dlmalloc.c from
  "size_t and alignment properties" to "Operations on head and foot fields", for
  \<open>sizeof(size_t) = 8\<close>, the default \<open>MALLOC_ALIGNMENT\<close> of 16 and \<open>FOOTERS = 0\<close>.
  The lemmas give the arithmetic of request padding and alignment (no wrap-around below
  \<open>MAX_REQUEST\<close>, least aligned value) and the encoding of size and flags in a head word.
\<close>

section \<open>Constants\<close>

definition SIZE_T_SIZE :: size_t where "SIZE_T_SIZE = 8"
definition SIZE_T_BITSIZE :: nat where "SIZE_T_BITSIZE = 64"
definition MAX_SIZE_T :: size_t where "MAX_SIZE_T = NOT 0"
definition HALF_MAX_SIZE_T :: size_t where "HALF_MAX_SIZE_T = MAX_SIZE_T div 2"
definition TWO_SIZE_T_SIZES :: size_t where "TWO_SIZE_T_SIZES = push_bit 1 SIZE_T_SIZE"
definition FOUR_SIZE_T_SIZES :: size_t where "FOUR_SIZE_T_SIZES = push_bit 2 SIZE_T_SIZE"
definition SIX_SIZE_T_SIZES :: size_t where
  "SIX_SIZE_T_SIZES = FOUR_SIZE_T_SIZES + TWO_SIZE_T_SIZES"
definition MALLOC_ALIGNMENT :: size_t where "MALLOC_ALIGNMENT = 2 * 8"
definition CHUNK_ALIGN_MASK :: size_t where "CHUNK_ALIGN_MASK = MALLOC_ALIGNMENT - 1"

text \<open>\<open>sizeof\<close> of the structs under the LP64 layout.\<close>

definition MCHUNK_SIZE :: size_t where "MCHUNK_SIZE = 32"
definition TCHUNK_SIZE :: size_t where "TCHUNK_SIZE = 64"
definition SEGMENT_SIZE :: size_t where "SEGMENT_SIZE = 32"
definition MSTATE_SIZE :: size_t where "MSTATE_SIZE = 936"

definition CHUNK_OVERHEAD :: size_t where "CHUNK_OVERHEAD = SIZE_T_SIZE"
definition MMAP_CHUNK_OVERHEAD :: size_t where "MMAP_CHUNK_OVERHEAD = TWO_SIZE_T_SIZES"
definition MMAP_FOOT_PAD :: size_t where "MMAP_FOOT_PAD = FOUR_SIZE_T_SIZES"
definition MIN_CHUNK_SIZE :: size_t where
  "MIN_CHUNK_SIZE = (MCHUNK_SIZE + CHUNK_ALIGN_MASK) AND NOT CHUNK_ALIGN_MASK"
definition MAX_REQUEST :: size_t where "MAX_REQUEST = push_bit 2 (- MIN_CHUNK_SIZE)"
definition MIN_REQUEST :: size_t where "MIN_REQUEST = MIN_CHUNK_SIZE - CHUNK_OVERHEAD - 1"

definition PINUSE_BIT :: size_t where "PINUSE_BIT = 1"
definition CINUSE_BIT :: size_t where "CINUSE_BIT = 2"
definition FLAG4_BIT :: size_t where "FLAG4_BIT = 4"
definition INUSE_BITS :: size_t where "INUSE_BITS = PINUSE_BIT OR CINUSE_BIT"
definition FLAG_BITS :: size_t where "FLAG_BITS = PINUSE_BIT OR CINUSE_BIT OR FLAG4_BIT"
definition FENCEPOST_HEAD :: size_t where "FENCEPOST_HEAD = INUSE_BITS OR SIZE_T_SIZE"

text \<open>\<open>MORECORE\<close> and \<open>MMAP\<close> return \<open>MFAIL\<close> on failure.\<close>

definition MFAIL :: addr where "MFAIL = MAX_SIZE_T"

lemmas dl_const_defs =
  SIZE_T_SIZE_def SIZE_T_BITSIZE_def MAX_SIZE_T_def HALF_MAX_SIZE_T_def TWO_SIZE_T_SIZES_def
  FOUR_SIZE_T_SIZES_def SIX_SIZE_T_SIZES_def MALLOC_ALIGNMENT_def CHUNK_ALIGN_MASK_def
  MCHUNK_SIZE_def TCHUNK_SIZE_def SEGMENT_SIZE_def MSTATE_SIZE_def CHUNK_OVERHEAD_def
  MMAP_CHUNK_OVERHEAD_def MMAP_FOOT_PAD_def MIN_CHUNK_SIZE_def MAX_REQUEST_def MIN_REQUEST_def
  PINUSE_BIT_def CINUSE_BIT_def FLAG4_BIT_def INUSE_BITS_def FLAG_BITS_def FENCEPOST_HEAD_def
  MFAIL_def

lemma const_vals [dl_consts]:
  "SIZE_T_SIZE = 8" "SIZE_T_BITSIZE = 64" "MAX_SIZE_T = 0xFFFFFFFFFFFFFFFF"
  "HALF_MAX_SIZE_T = 0x7FFFFFFFFFFFFFFF" "TWO_SIZE_T_SIZES = 16" "FOUR_SIZE_T_SIZES = 32"
  "SIX_SIZE_T_SIZES = 48" "MALLOC_ALIGNMENT = 16" "CHUNK_ALIGN_MASK = 15" "MCHUNK_SIZE = 32"
  "TCHUNK_SIZE = 64" "SEGMENT_SIZE = 32" "MSTATE_SIZE = 936" "CHUNK_OVERHEAD = 8"
  "MMAP_CHUNK_OVERHEAD = 16" "MMAP_FOOT_PAD = 32" "MIN_CHUNK_SIZE = 32"
  "MAX_REQUEST = 0xFFFFFFFFFFFFFF80" "MIN_REQUEST = 23" "PINUSE_BIT = 1" "CINUSE_BIT = 2"
  "FLAG4_BIT = 4" "INUSE_BITS = 3" "FLAG_BITS = 7" "FENCEPOST_HEAD = 11"
  "MFAIL = 0xFFFFFFFFFFFFFFFF"
  by (simp_all add: dl_const_defs)

section \<open>Alignment and padding\<close>

definition is_aligned :: "addr \<Rightarrow> bool" where
  "is_aligned A \<longleftrightarrow> (A AND CHUNK_ALIGN_MASK) = 0"

definition align_offset :: "addr \<Rightarrow> size_t" where
  "align_offset A =
     (if (A AND CHUNK_ALIGN_MASK) = 0 then 0
      else (MALLOC_ALIGNMENT - (A AND CHUNK_ALIGN_MASK)) AND CHUNK_ALIGN_MASK)"

definition chunk2mem :: "addr \<Rightarrow> addr" where "chunk2mem p = p + TWO_SIZE_T_SIZES"
definition mem2chunk :: "addr \<Rightarrow> addr" where "mem2chunk mem = mem - TWO_SIZE_T_SIZES"

definition align_as_chunk :: "addr \<Rightarrow> addr" where
  "align_as_chunk A = A + align_offset (chunk2mem A)"

definition chunk_plus_offset :: "addr \<Rightarrow> size_t \<Rightarrow> addr" where "chunk_plus_offset p s = p + s"
definition chunk_minus_offset :: "addr \<Rightarrow> size_t \<Rightarrow> addr" where "chunk_minus_offset p s = p - s"

definition pad_request :: "size_t \<Rightarrow> size_t" where
  "pad_request req = (req + CHUNK_OVERHEAD + CHUNK_ALIGN_MASK) AND NOT CHUNK_ALIGN_MASK"

definition request2size :: "size_t \<Rightarrow> size_t" where
  "request2size req = (if req < MIN_REQUEST then MIN_CHUNK_SIZE else pad_request req)"

text \<open>Padding at the end of a segment, for a segment record and fenceposts.\<close>

definition TOP_FOOT_SIZE :: size_t where
  "TOP_FOOT_SIZE = align_offset (chunk2mem 0) + pad_request SEGMENT_SIZE + MIN_CHUNK_SIZE"

definition SYS_ALLOC_PADDING :: size_t where
  "SYS_ALLOC_PADDING = TOP_FOOT_SIZE + MALLOC_ALIGNMENT"

lemma TOP_FOOT_SIZE_val [dl_consts]: "TOP_FOOT_SIZE = 80" "SYS_ALLOC_PADDING = 96"
  by (simp_all add: SYS_ALLOC_PADDING_def TOP_FOOT_SIZE_def align_offset_def chunk2mem_def
      pad_request_def dl_consts)

lemma mem2chunk_chunk2mem [simp]: "mem2chunk (chunk2mem p) = p" "chunk2mem (mem2chunk m) = m"
  by (simp_all add: mem2chunk_def chunk2mem_def)

lemma is_aligned_iff: "is_aligned A \<longleftrightarrow> 16 dvd unat A"
  by (simp add: is_aligned_def dl_consts and_15_eq_0)

lemma is_aligned_chunk2mem [simp]: "is_aligned (chunk2mem p) \<longleftrightarrow> is_aligned p"
proof -
  have "unat (p + 16) mod 16 = unat p mod 16"
    by (simp add: unat_word_ariths mod_mod_cancel)
  then show ?thesis by (simp add: is_aligned_iff chunk2mem_def dl_consts dvd_eq_mod_eq_0)
qed

lemma unat_align_offset: "unat (align_offset A) = (16 - unat A mod 16) mod 16"
proof -
  have le: "A AND 15 \<le> 16"
    using mod_less_divisor [of 16 "unat A"] by (simp only: word_le_nat_alt unat_and_15) simp
  have "unat (16 - (A AND 15)) = unat (16 :: size_t) - unat (A AND 15)"
    by (rule unat_sub) (rule le)
  then have d: "unat (16 - (A AND 15)) = 16 - unat A mod 16"
    by (simp only: unat_and_15) simp
  show ?thesis
  proof (cases "A AND 15 = 0")
    case True
    then have "unat A mod 16 = 0" by (metis unat_and_15 unat_0)
    with True show ?thesis by (simp add: align_offset_def dl_consts)
  next
    case False
    then show ?thesis by (simp only: align_offset_def dl_consts if_False unat_and_15 d)
  qed
qed

lemma pad_request_unat:
  assumes "unat req + 23 < 2 ^ 64"
  shows "unat (pad_request req) = unat req + 8 + 15 - (unat req + 8 + 15) mod 16"
proof -
  have "unat (req + 8 + 15) = unat req + 8 + 15"
    using assms by (simp add: unat_word_ariths)
  then show ?thesis by (simp add: pad_request_def dl_consts unat_and_m16 add_ac)
qed

lemma below_MAX_REQUEST: "bytes < MAX_REQUEST \<longleftrightarrow> unat bytes < 2 ^ 64 - 128"
  by (simp add: dl_consts word_less_nat_alt)

lemma below_MIN_REQUEST: "bytes < MIN_REQUEST \<longleftrightarrow> unat bytes < 23"
  by (simp add: dl_consts word_less_nat_alt)

lemma request2size_unat:
  assumes "unat bytes < 2 ^ 64 - 128"
  shows "unat (request2size bytes) =
    (if unat bytes < 23 then 32 else unat bytes + 23 - (unat bytes + 23) mod 16)"
  using assms
  by (simp add: request2size_def below_MIN_REQUEST pad_request_unat add_ac) (simp add: dl_consts)

text \<open>
  C35. For every request below \<open>MAX_REQUEST\<close>, \<open>request2size\<close> does not wrap around and
  returns the least chunk size that is aligned, at least \<open>MIN_CHUNK_SIZE\<close> and has room for
  the request and its one-word overhead; at most \<open>MIN_CHUNK_SIZE\<close> bytes are lost, as the
  documentation of the file promises.
\<close>

theorem request2size_least:
  assumes "bytes < MAX_REQUEST"
  shows "is_aligned (request2size bytes) \<and> MIN_CHUNK_SIZE \<le> request2size bytes
    \<and> unat bytes + unat CHUNK_OVERHEAD \<le> unat (request2size bytes)
    \<and> unat (request2size bytes) \<le> unat bytes + unat MIN_CHUNK_SIZE
    \<and> (\<forall>z. is_aligned z \<and> MIN_CHUNK_SIZE \<le> z \<and> unat bytes + unat CHUNK_OVERHEAD \<le> unat z
          \<longrightarrow> request2size bytes \<le> z)"
proof -
  let ?b = "unat bytes"
  have r: "unat (request2size bytes) = (if ?b < 23 then 32 else ?b + 23 - (?b + 23) mod 16)"
    using assms by (simp add: below_MAX_REQUEST request2size_unat)
  have up: "?b + 8 \<le> ?b + 23 - (?b + 23) mod 16" "?b + 23 - (?b + 23) mod 16 < ?b + 24"
    "16 dvd ?b + 23 - (?b + 23) mod 16"
    using round_up_mod [of 16 "?b + 8"] by simp_all
  have "?b + 23 - (?b + 23) mod 16 \<le> unat z" if "16 dvd unat z" "?b + 8 \<le> unat z" for z :: size_t
    using round_up_least [of 16 "unat z" "?b + 8"] that by (simp add: add.commute)
  then have least: "unat (request2size bytes) \<le> unat z"
    if "16 dvd unat z" "32 \<le> unat z" "?b + 8 \<le> unat z" for z :: size_t
    using that r by (cases "?b < 23") simp_all
  have "32 \<le> ?b + 23 - (?b + 23) mod 16" if "\<not> ?b < 23"
  proof -
    have "16 < ?b + 23 - (?b + 23) mod 16" using up(1) that by linarith
    moreover obtain k where "?b + 23 - (?b + 23) mod 16 = 16 * k" using up(3) by (rule dvdE)
    ultimately show ?thesis by simp
  qed
  then have "16 dvd unat (request2size bytes)" "32 \<le> unat (request2size bytes)"
    "?b + 8 \<le> unat (request2size bytes)" "unat (request2size bytes) \<le> ?b + 32"
    using r up by (cases "?b < 23"; simp)+
  then show ?thesis
    using least unfolding is_aligned_iff word_le_nat_alt dl_consts by simp
qed

theorem request2size_least_witness:
  "request2size 100 = 112 \<and> (100 :: size_t) < MAX_REQUEST
    \<and> unat (100 :: size_t) + unat CHUNK_OVERHEAD \<le> unat (request2size 100)"
proof -
  have "(100 :: size_t) < MAX_REQUEST" by (simp add: dl_consts)
  then show ?thesis using request2size_least [of 100]
    by (simp add: request2size_def pad_request_def dl_consts)
qed

lemma align_up_nat: "n + (16 - n mod 16) mod 16 = n + (16 - 1) - (n + (16 - 1)) mod (16 :: nat)"
proof -
  define k r where "k = n div 16" and "r = n mod 16"
  have n: "n = 16 * k + r" and r: "r < 16" by (simp_all add: k_def r_def)
  have "(16 * k + r + 15) mod 16 = (r + 15) mod 16" by (metis add.assoc mod_mult_self4)
  moreover have "(16 - r) mod 16 + (r + 15) mod 16 = 15"
    using r by (cases "r = 0") (auto simp: mod_if)
  ultimately show ?thesis using r by (simp add: n)
qed

text \<open>
  \<open>align_as_chunk\<close> moves a base address up to the least address whose payload pointer is
  aligned.
\<close>

theorem align_as_chunk_least:
  assumes "unat A + 15 < 2 ^ 64"
  shows "is_aligned (chunk2mem (align_as_chunk A)) \<and> A \<le> align_as_chunk A
    \<and> (\<forall>q. A \<le> q \<and> is_aligned (chunk2mem q) \<longrightarrow> align_as_chunk A \<le> q)"
proof -
  have m: "unat (chunk2mem A) mod 16 = unat A mod 16"
    by (simp add: chunk2mem_def dl_consts unat_word_ariths mod_mod_cancel)
  have "unat (align_as_chunk A) = unat A + (16 - unat A mod 16) mod 16"
  proof -
    have "(16 - unat A mod 16) mod 16 < 16" by simp
    then show ?thesis using assms
      by (simp add: align_as_chunk_def unat_word_ariths unat_align_offset m)
  qed
  then have "unat (align_as_chunk A) = unat A + (16 - 1) - (unat A + (16 - 1)) mod 16"
    by (simp only: align_up_nat)
  then show ?thesis
    unfolding is_aligned_chunk2mem
    unfolding is_aligned_iff word_le_nat_alt
    using round_up_mod [of 16 "unat A"] round_up_least [of 16 _ "unat A"] by simp
qed

theorem align_as_chunk_least_witness:
  "align_as_chunk 0x1001 = 0x1010 \<and> is_aligned (chunk2mem (align_as_chunk 0x1001))"
proof -
  have "unat (0x1001 :: addr) + 15 < 2 ^ 64" by simp
  from align_as_chunk_least [OF this] show ?thesis
    by (simp add: align_as_chunk_def align_offset_def chunk2mem_def dl_consts)
qed

section \<open>Head words\<close>

text \<open>The macros on the head word of a chunk, as functions of the word.\<close>

definition head_size :: "size_t \<Rightarrow> size_t" where "head_size h = h AND NOT FLAG_BITS"
definition head_cinuse :: "size_t \<Rightarrow> bool" where "head_cinuse h \<longleftrightarrow> h AND CINUSE_BIT \<noteq> 0"
definition head_pinuse :: "size_t \<Rightarrow> bool" where "head_pinuse h \<longleftrightarrow> h AND PINUSE_BIT \<noteq> 0"
definition head_inuse :: "size_t \<Rightarrow> bool" where
  "head_inuse h \<longleftrightarrow> h AND INUSE_BITS \<noteq> PINUSE_BIT"
definition head_mmapped :: "size_t \<Rightarrow> bool" where "head_mmapped h \<longleftrightarrow> h AND INUSE_BITS = 0"

lemma aligned_low_bits [dl_flags]:
  assumes "is_aligned z"
  shows "z AND 1 = 0" "z AND 2 = 0" "z AND 3 = 0" "z AND 7 = 0" "z AND 15 = 0"
    "z AND - 8 = z" "z AND - 2 = z"
proof -
  have z: "z AND 15 = 0" using assms by (simp add: is_aligned_def dl_consts)
  have "z AND m = (z AND 15) AND m" if "15 AND m = m" for m
    using that by (simp add: and.assoc)
  from this [of 1] this [of 2] this [of 3] this [of 7] z
  show "z AND 1 = 0" "z AND 2 = 0" "z AND 3 = 0" "z AND 7 = 0" "z AND 15 = 0"
    by simp_all
  then show "z AND - 8 = z" "z AND - 2 = z"
    using and_not_eq_minus [of z 7] and_not_eq_minus [of z 1] by simp_all
qed

lemma or_and_distrib: "(x OR y) AND m = (x AND m) OR (y AND m :: 'a::len word)"
  by (rule bit.conj_disj_distrib2)

lemmas head_defs =
  head_size_def head_cinuse_def head_pinuse_def head_inuse_def head_mmapped_def

text \<open>
  A head word is an encoding of a size and two flags: reading back the size, the in-use
  bit and the previous-in-use bit of a word made from an aligned size gives what was put in;
  a chunk with neither bit is recognised as mmapped, and only a chunk with the
  previous-in-use bit alone counts as free.
\<close>

theorem head_roundtrip:
  assumes "is_aligned z"
  shows "head_size (z OR (if pin then PINUSE_BIT else 0) OR (if cin then CINUSE_BIT else 0)) = z
    \<and> head_pinuse (z OR (if pin then PINUSE_BIT else 0) OR (if cin then CINUSE_BIT else 0)) = pin
    \<and> head_cinuse (z OR (if pin then PINUSE_BIT else 0) OR (if cin then CINUSE_BIT else 0)) = cin
    \<and> head_mmapped (z OR (if pin then PINUSE_BIT else 0) OR (if cin then CINUSE_BIT else 0))
        = (\<not> pin \<and> \<not> cin)
    \<and> head_inuse (z OR (if pin then PINUSE_BIT else 0) OR (if cin then CINUSE_BIT else 0))
        = (\<not> (pin \<and> \<not> cin))"
  using assms by (auto simp: head_defs dl_consts dl_flags or_and_distrib)

theorem head_roundtrip_witness:
  "head_size (48 OR PINUSE_BIT OR CINUSE_BIT) = 48 \<and> head_cinuse (48 OR PINUSE_BIT OR CINUSE_BIT)"
proof -
  have "is_aligned 48" by (simp add: is_aligned_def dl_consts)
  from head_roundtrip [OF this, of True True] show ?thesis by simp
qed

end
