(* ===== verification/DL_Bits.thy ===== *)
theory DL_Bits
  imports DL_Sizes
begin

text \<open>
  Bin indices and bin maps: "Indexing Bins" and "Operations on bin maps" of
  src/src/dlmalloc.c, in the variant for gcc on x86 (with \<open>__builtin_clz\<close> and
  \<open>__builtin_ctz\<close>) and in the portable variant. The lemmas relate the bit tricks to what they
  compute: the range of sizes of a treebin, the least marked bin of a map, the bins after one.
\<close>

section \<open>Compiler builtins\<close>

text \<open>Count of leading and of trailing zeros; gcc leaves both undefined at 0.\<close>

definition builtin_clz :: "u32 \<Rightarrow> nat" where
  "builtin_clz x = length (takeWhile (\<lambda>i. \<not> bit x i) (rev [0..<32]))"

definition builtin_ctz :: "u32 \<Rightarrow> nat" where
  "builtin_ctz x = length (takeWhile (\<lambda>i. \<not> bit x i) [0..<32])"

section \<open>Small bins\<close>

definition NSMALLBINS :: u32 where "NSMALLBINS = 32"
definition NTREEBINS :: u32 where "NTREEBINS = 32"
definition SMALLBIN_SHIFT :: nat where "SMALLBIN_SHIFT = 3"
definition TREEBIN_SHIFT :: nat where "TREEBIN_SHIFT = 8"
definition MIN_LARGE_SIZE :: size_t where "MIN_LARGE_SIZE = push_bit TREEBIN_SHIFT 1"
definition MAX_SMALL_SIZE :: size_t where "MAX_SMALL_SIZE = MIN_LARGE_SIZE - 1"
definition MAX_SMALL_REQUEST :: size_t where
  "MAX_SMALL_REQUEST = MAX_SMALL_SIZE - CHUNK_ALIGN_MASK - CHUNK_OVERHEAD"

lemma bin_consts [dl_consts]:
  "NSMALLBINS = 32" "NTREEBINS = 32" "SMALLBIN_SHIFT = 3" "TREEBIN_SHIFT = 8"
  "MIN_LARGE_SIZE = 256" "MAX_SMALL_SIZE = 255" "MAX_SMALL_REQUEST = 232"
  by (simp_all add: NSMALLBINS_def NTREEBINS_def SMALLBIN_SHIFT_def TREEBIN_SHIFT_def
      MIN_LARGE_SIZE_def MAX_SMALL_SIZE_def MAX_SMALL_REQUEST_def const_vals)

definition is_small :: "size_t \<Rightarrow> bool" where
  "is_small s \<longleftrightarrow> drop_bit SMALLBIN_SHIFT s < ucast NSMALLBINS"

definition small_index :: "size_t \<Rightarrow> u32" where
  "small_index s = ucast (drop_bit SMALLBIN_SHIFT s)"

definition small_index2size :: "u32 \<Rightarrow> size_t" where
  "small_index2size i = ucast (push_bit SMALLBIN_SHIFT i)"

section \<open>Tree bins\<close>

definition compute_tree_index :: "size_t \<Rightarrow> u32" where
  "compute_tree_index S =
     (let X = ucast (drop_bit TREEBIN_SHIFT S) :: u32
      in if X = 0 then 0
         else if 0xFFFF < X then NTREEBINS - 1
         else let K = 4 * 8 - 1 - builtin_clz X
              in push_bit 1 (of_nat K) + ucast (drop_bit (K + (TREEBIN_SHIFT - 1)) S AND 1))"

text \<open>The shift-and-subtract search for the leading bit of a 16-bit value.\<close>

definition portable_leading_bit :: "u32 \<Rightarrow> u32" where
  "portable_leading_bit Y =
     (let N = drop_bit 16 (Y - 0x100) AND 8;
          Y = push_bit (unat N) Y;
          K = drop_bit 16 (Y - 0x1000) AND 4;
          N = N + K;
          Y = push_bit (unat K) Y;
          K = drop_bit 16 (Y - 0x4000) AND 2;
          N = N + K;
          Y = push_bit (unat K) Y
      in 14 - N + drop_bit 15 Y)"

definition compute_tree_index_portable :: "size_t \<Rightarrow> u32" where
  "compute_tree_index_portable S =
     (let X = drop_bit TREEBIN_SHIFT S
      in if X = 0 then 0
         else if 0xFFFF < X then NTREEBINS - 1
         else let K = portable_leading_bit (ucast X)
              in push_bit 1 K + ucast (drop_bit (unat K + (TREEBIN_SHIFT - 1)) S AND 1))"

definition leftshift_for_tree_index :: "u32 \<Rightarrow> nat" where
  "leftshift_for_tree_index i =
     (if i = NTREEBINS - 1 then 0
      else (SIZE_T_BITSIZE - 1) - (unat (drop_bit 1 i) + TREEBIN_SHIFT - 2))"

definition minsize_for_tree_index :: "u32 \<Rightarrow> size_t" where
  "minsize_for_tree_index i =
     push_bit (unat (drop_bit 1 i) + TREEBIN_SHIFT) 1
     OR push_bit (unat (drop_bit 1 i) + TREEBIN_SHIFT - 1) (ucast i AND 1)"

section \<open>Bin maps\<close>

definition idx2bit :: "u32 \<Rightarrow> u32" where "idx2bit i = push_bit (unat i) 1"
definition least_bit :: "u32 \<Rightarrow> u32" where "least_bit x = x AND (- x)"
definition left_bits :: "u32 \<Rightarrow> u32" where "left_bits x = push_bit 1 x OR - push_bit 1 x"
definition same_or_left_bits :: "u32 \<Rightarrow> u32" where "same_or_left_bits x = x OR - x"

definition compute_bit2idx :: "u32 \<Rightarrow> u32" where
  "compute_bit2idx X = (let J = of_nat (builtin_ctz X) in J)"

definition compute_bit2idx_portable :: "u32 \<Rightarrow> u32" where
  "compute_bit2idx_portable X =
     (let Y = X - 1;
          K = drop_bit (16 - 4) Y AND 16; N = K;     Y = drop_bit (unat K) Y;
          K = drop_bit (8 - 3) Y AND 8;   N = N + K; Y = drop_bit (unat K) Y;
          K = drop_bit (4 - 2) Y AND 4;   N = N + K; Y = drop_bit (unat K) Y;
          K = drop_bit (2 - 1) Y AND 2;   N = N + K; Y = drop_bit (unat K) Y;
          K = drop_bit (1 - 0) Y AND 1;   N = N + K; Y = drop_bit (unat K) Y
      in N + Y)"

section \<open>The builtins, by bits and by ranges\<close>

lemma takeWhile_upt_first:
  assumes "i < n" "P i"
  shows "length (takeWhile (\<lambda>i. \<not> P i) [0..<n]) < n
    \<and> P (length (takeWhile (\<lambda>i. \<not> P i) [0..<n]))
    \<and> (\<forall>j < length (takeWhile (\<lambda>i. \<not> P i) [0..<n]). \<not> P j)"
proof -
  let ?k = "length (takeWhile (\<lambda>i. \<not> P i) [0..<n])"
  have k: "?k < n"
  proof (rule ccontr)
    assume "\<not> ?k < n"
    then have "?k = length [0..<n]" using length_takeWhile_le [of "\<lambda>i. \<not> P i" "[0..<n]"] by simp
    then have "takeWhile (\<lambda>i. \<not> P i) [0..<n] = [0..<n]"
      by (metis takeWhile_eq_take take_all order_refl)
    then have "\<forall>x\<in>set [0..<n]. \<not> P x" by (simp only: takeWhile_eq_all_conv)
    with assms show False by simp
  qed
  moreover have "P ([0..<n] ! ?k)" using nth_length_takeWhile [of "\<lambda>i. \<not> P i" "[0..<n]"] k by simp
  moreover have "\<not> P j" if "j < ?k" for j
  proof -
    have "[0..<n] ! j \<in> set (takeWhile (\<lambda>i. \<not> P i) [0..<n])"
      using that by (metis nth_mem takeWhile_nth)
    then have "\<not> P ([0..<n] ! j)" by (auto dest: set_takeWhileD)
    with that k show ?thesis by simp
  qed
  ultimately show ?thesis by simp
qed

lemma ctz_first:
  assumes "x \<noteq> 0"
  shows "builtin_ctz x < 32" "bit x (builtin_ctz x)" "j < builtin_ctz x \<Longrightarrow> \<not> bit x j"
proof -
  obtain i where "i < 32" "bit x i" using word_bit_exists [OF assms] by auto
  from takeWhile_upt_first [of i 32 "bit x", OF this, folded builtin_ctz_def]
  show "builtin_ctz x < 32" "bit x (builtin_ctz x)" "j < builtin_ctz x \<Longrightarrow> \<not> bit x j"
    by auto
qed
lemma takeWhile_rev_upt_last:
  assumes "i < n" "P i"
  defines "k \<equiv> length (takeWhile (\<lambda>i. \<not> P i) (rev [0..<n]))"
  shows "k < n \<and> P (n - 1 - k) \<and> (\<forall>j. n - 1 - k < j \<and> j < n \<longrightarrow> \<not> P j)"
proof -
  have r: "rev [0..<n] = map (\<lambda>j. n - 1 - j) [0..<n]"
    by (rule nth_equalityI) (simp_all add: rev_nth)
  have k': "k = length (takeWhile (\<lambda>j. \<not> P (n - 1 - j)) [0..<n])"
    unfolding k_def r takeWhile_map length_map comp_def by (rule refl)
  have "n - 1 - i < n" "P (n - 1 - (n - 1 - i))" using assms(1,2) by auto
  from takeWhile_upt_first [OF this(1), of "\<lambda>j. P (n - 1 - j)", OF this(2)]
  have 1: "k < n" "P (n - 1 - k)" "\<forall>j<k. \<not> P (n - 1 - j)" by (simp_all add: k')
  moreover have "\<not> P j" if "n - 1 - k < j" "j < n" for j
    using 1(3) [rule_format, of "n - 1 - j"] that by auto
  ultimately show ?thesis by simp
qed

lemma clz_range:
  assumes "x \<noteq> 0"
  shows "builtin_clz x < 32" "2 ^ (31 - builtin_clz x) \<le> unat x" "unat x < 2 ^ (32 - builtin_clz x)"
proof -
  let ?k = "builtin_clz x"
  obtain i where "i < 32" "bit x i" using word_bit_exists [OF assms] by auto
  from takeWhile_rev_upt_last [of i 32 "bit x", OF this, folded builtin_clz_def]
  have k: "?k < 32" "bit x (31 - ?k)" "\<And>j. 31 - ?k < j \<Longrightarrow> j < 32 \<Longrightarrow> \<not> bit x j"
    by simp_all
  show "builtin_clz x < 32" by (rule k(1))
  have "bit (unat x) (31 - ?k)" using k(1,2) by (simp add: bit_unsigned_iff)
  then have "odd (unat x div 2 ^ (31 - ?k))" by (simp add: bit_nat_def bit_iff_odd)
  then have "unat x div 2 ^ (31 - ?k) \<noteq> 0" by (metis even_zero)
  then show "2 ^ (31 - ?k) \<le> unat x" by (metis div_less linorder_not_le)
  have "x = take_bit (32 - ?k) x"
  proof (rule bit_word_eqI)
    fix n assume n: "n < LENGTH(32)"
    show "bit x n = bit (take_bit (32 - ?k) x) n"
      using k(1) k(3) [of n] n by (cases "n < 32 - ?k") (simp_all add: bit_simps)
  qed
  then have "unat x = take_bit (32 - ?k) (unat x)" by (metis unsigned_take_bit_eq)
  then show "unat x < 2 ^ (32 - ?k)" by (metis take_bit_nat_less_exp)
qed



lemma unat_minsize:
  assumes "unat i < 64"
  shows "unat (minsize_for_tree_index i) = (2 + unat i mod 2) * 2 ^ (unat i div 2 + 7)"
proof -
  define k where "k = unat i div 2"
  define y :: size_t where "y = ucast i AND 1"
  have k: "k + 8 < 40" using assms by (simp add: k_def)
  then have k64: "(2::nat) ^ (k + 8) < 2 ^ 64" by (intro power_strict_increasing) auto
  have d: "unat (drop_bit 1 i) = k" by (simp only: unat_drop k_def) simp
  have y: "unat y = unat i mod 2"
    unfolding y_def by (simp only: unat_and_1 unat_ucast) (use assms in simp)
  have "minsize_for_tree_index i = push_bit (k + 8) 1 OR push_bit (k + 7) y"
  proof -
    have "k + 8 - 1 = k + 7" by simp
    then show ?thesis unfolding minsize_for_tree_index_def d y_def dl_consts by (simp only:)
  qed
  also have "\<dots> = push_bit (k + 8) 1 + push_bit (k + 7) y"
    by (rule or_disjoint_eq_add, rule bit_word_eqI) (auto simp: bit_simps y_def)
  finally have m: "minsize_for_tree_index i = push_bit (k + 8) 1 + push_bit (k + 7) y" .
  have y1: "unat y \<le> 1" using y by simp
  have 1: "unat (push_bit (k + 8) 1 :: size_t) = 2 * 2 ^ (k + 7)"
    by (subst unat_push) (use k64 in \<open>simp_all add: unat_1 power_add\<close>)
  have "unat y * 2 ^ (k + 7) \<le> 1 * 2 ^ (k + 7)" using y1 by (rule mult_right_mono) simp
  then have le: "unat y * 2 ^ (k + 7) \<le> 2 ^ (k + 7)" by simp
  have 2: "unat (push_bit (k + 7) y) = unat y * 2 ^ (k + 7)"
  proof (rule unat_push)
    have "(2::nat) ^ (k + 7) < 2 ^ (k + 8)" by simp
    then have "(2::nat) ^ (k + 7) < 2 ^ 64" using k64 by (rule less_trans)
    from le_less_trans [OF le this] show "unat y * 2 ^ (k + 7) < 2 ^ LENGTH(64)" by simp
  qed
  have "(2::nat) ^ (k + 7) \<le> 2 ^ 39" using k by (intro power_increasing) auto
  then have "(2::nat) ^ (k + 7) \<le> 549755813888" by simp
  then have lt: "2 * 2 ^ (k + 7) + unat y * 2 ^ (k + 7) < (18446744073709551616 :: nat)"
    using le by linarith
  have "unat (a + c) = unat a + unat c" if "unat a + unat c < 18446744073709551616" for a c :: size_t
    using that by (simp add: unat_word_ariths)
  then have "unat (minsize_for_tree_index i) = 2 * 2 ^ (k + 7) + unat y * 2 ^ (k + 7)"
    unfolding m using lt by (simp only: 1 2)
  then show ?thesis by (simp add: y k_def add_mult_distrib)
qed

text \<open>The range of sizes of the bin that a leading bit \<open>K\<close> and the bit below it select.\<close>

lemma tree_index_split:
  assumes K: "K < 16" and X: "2 ^ K \<le> unat S div 256" "unat S div 256 < 2 ^ (K + 1)"
  defines "I \<equiv> push_bit 1 (of_nat K) + ucast (drop_bit (K + 7) S AND 1) :: u32"
  shows "unat I = 2 * K + unat S div 2 ^ (K + 7) mod 2" "unat (minsize_for_tree_index I) \<le> unat S"
    "I < 31 \<Longrightarrow> unat S < unat (minsize_for_tree_index (I + 1))" "I < 32"
proof -
  define q b where "q = unat S div 2 ^ (K + 7)" and "b = q mod 2"
  have q: "q div 2 = (unat S div 256) div 2 ^ K"
    by (simp add: q_def div_mult2_eq [symmetric] power_add mult_ac)
  have "(unat S div 256) div 2 ^ K = 1"
    using X by (intro div_nat_eqI) (simp_all add: mult.commute)
  then have q2: "q = 2 + b" using q div_mult_mod_eq [of q 2] by (simp add: b_def)
  have b: "b \<le> 1" by (simp add: b_def)
  have uk: "unat (of_nat K :: u32) = K" using K by (simp add: unat_of_nat)
  have "unat (push_bit 1 (of_nat K) :: u32) = 2 * K"
    by (subst unat_push) (use K in \<open>simp_all add: uk\<close>)
  moreover have "unat (ucast (drop_bit (K + 7) S AND 1) :: u32) = b"
    by (simp only: unat_ucast unat_and_1 unat_drop) (simp add: b_def q_def)
  ultimately have I: "unat I = 2 * K + b"
    unfolding I_def using K b by (subst unat_word_ariths) simp
  then show "unat I = 2 * K + unat S div 2 ^ (K + 7) mod 2" by (simp add: b_def q_def)
  have lo: "unat (minsize_for_tree_index I) = q * 2 ^ (K + 7)"
    using I K b q2 by (simp add: unat_minsize)
  then show "unat (minsize_for_tree_index I) \<le> unat S" by (simp add: q_def)
  have S: "unat S < (q + 1) * 2 ^ (K + 7)"
  proof -
    have "unat S mod 2 ^ (K + 7) < 2 ^ (K + 7)" by simp
    then have "unat S < q * 2 ^ (K + 7) + 2 ^ (K + 7)"
      unfolding q_def using div_mult_mod_eq [of "unat S" "2 ^ (K + 7)"] by linarith
    then show ?thesis by (simp only: add_mult_distrib mult_1)
  qed
  show "I < 32" using I K b by (simp add: word_less_nat_alt)
  assume "I < 31"
  then have "unat (I + 1) = 2 * K + b + 1"
    using I by (subst unat_word_ariths) (simp add: word_less_nat_alt)
  moreover have "b = 0 \<or> b = 1" using b by auto
  ultimately have "unat (minsize_for_tree_index (I + 1)) = (q + 1) * 2 ^ (K + 7)"
    using K q2 by (auto simp: unat_minsize power_add)
  then show "unat S < unat (minsize_for_tree_index (I + 1))" using S by simp
qed


lemma compute_tree_index_small: "unat S < 256 \<Longrightarrow> compute_tree_index S = 0"
proof -
  assume "unat S < 256"
  then have "unat (drop_bit 8 S) = 0" by (simp only: unat_drop) simp
  then have "drop_bit 8 S = 0" by (simp only: unat_0_iff)
  then show ?thesis unfolding compute_tree_index_def dl_consts by (simp add: Let_def)
qed

section \<open>The portable variant\<close>

lemma tree_step:
  fixes Y :: u32
  assumes "unat Y < 2 ^ 16" "unat T \<le> 2 ^ 16" "unat m < 2 ^ 16" "m AND 0xFFFF = m"
  shows "drop_bit 16 (Y - T) AND m = (if unat Y < unat T then m else 0)"
proof (cases "unat Y < unat T")
  case True
  then have "unat (Y - T) = 2 ^ 32 - (unat T - unat Y)"
    by (simp add: unat_sub_if' word_le_nat_alt)
  then have "unat (drop_bit 16 (Y - T)) = (2 ^ 32 - (unat T - unat Y)) div 2 ^ 16"
    by (simp only: unat_drop)
  also have "\<dots> = 0xFFFF" using True assms(2) by (intro div_nat_eqI) simp_all
  finally have "drop_bit 16 (Y - T) = 0xFFFF" by (simp add: word_unat_eq_iff)
  with True show ?thesis using assms(4) by (simp add: and.commute)
next
  case False
  then have "unat (Y - T) = unat Y - unat T" by (simp add: unat_sub word_le_nat_alt)
  then have "unat (drop_bit 16 (Y - T)) = 0" using assms(1) by (simp only: unat_drop) simp
  then have "drop_bit 16 (Y - T) = 0" by (simp only: unat_0_iff)
  with False show ?thesis by simp
qed

lemma tree_shift:
  fixes Y :: u32
  assumes "unat Y < 2 ^ 16" "unat K \<le> 15" "unat Y * 2 ^ unat K < 2 ^ 16"
  shows "unat (push_bit (unat K) Y) = unat Y * 2 ^ unat K"
  using assms(3) by (intro unat_push) simp

lemma tree_step_shift:
  fixes Y :: u32
  assumes Y: "2 ^ (t - unat m) \<le> unat Y" "unat Y < 2 ^ 16" and T: "unat T = 2 ^ t"
    and m: "m = 8 \<or> m = 4 \<or> m = 2" "unat m \<le> t" "t + unat m \<le> 16"
  defines "K \<equiv> drop_bit 16 (Y - T) AND m"
  shows "K = 0 \<or> K = m" "unat (push_bit (unat K) Y) = unat Y * 2 ^ unat K"
    "2 ^ t \<le> unat (push_bit (unat K) Y)" "unat (push_bit (unat K) Y) < 2 ^ 16"
proof -
  have t: "(2::nat) ^ t \<le> 2 ^ 16" using m(3) by (intro power_increasing) auto
  have "unat m < 2 ^ 16" "m AND 0xFFFF = m" using m(1) by auto
  then have K: "K = (if unat Y < 2 ^ t then m else 0)"
    unfolding K_def T [symmetric] using Y(2) t T by (intro tree_step) auto
  then show "K = 0 \<or> K = m" by auto
  have k: "2 ^ t \<le> unat Y * 2 ^ unat K \<and> unat Y * 2 ^ unat K < 2 ^ 16"
  proof (cases "unat Y < 2 ^ t")
    case True
    have "unat Y * 2 ^ unat m < 2 ^ t * 2 ^ unat m" using True by simp
    also have "\<dots> = 2 ^ (t + unat m)" by (simp only: power_add)
    also have "\<dots> \<le> 2 ^ 16" using m(3) by (intro power_increasing) auto
    finally have "unat Y * 2 ^ unat m < 2 ^ 16" .
    moreover have "2 ^ (t - unat m) * 2 ^ unat m \<le> unat Y * 2 ^ unat m" using Y(1) by simp
    moreover have "2 ^ (t - unat m) * 2 ^ unat m = (2::nat) ^ t"
      using m(2) by (simp only: power_add [symmetric] le_add_diff_inverse2)
    ultimately show ?thesis using True K by simp
  next
    case False
    then show ?thesis using K Y(2) by simp
  qed
  then show u: "unat (push_bit (unat K) Y) = unat Y * 2 ^ unat K"
    by (intro unat_push) simp
  show "2 ^ t \<le> unat (push_bit (unat K) Y)" "unat (push_bit (unat K) Y) < 2 ^ 16"
    using k unfolding u by simp_all
qed

lemma portable_leading_bit_range:
  assumes "unat Y \<noteq> 0" "unat Y < 2 ^ 16"
  defines "K \<equiv> portable_leading_bit Y"
  shows "unat K < 16" "2 ^ unat K \<le> unat Y" "unat Y < 2 ^ (unat K + 1)"
proof -
  define N1 where "N1 = drop_bit 16 (Y - 0x100) AND 8"
  define Y1 where "Y1 = push_bit (unat N1) Y"
  define K2 where "K2 = drop_bit 16 (Y1 - 0x1000) AND 4"
  define Y2 where "Y2 = push_bit (unat K2) Y1"
  define K3 where "K3 = drop_bit 16 (Y2 - 0x4000) AND 2"
  define Y3 where "Y3 = push_bit (unat K3) Y2"
  have K: "K = 14 - (N1 + K2 + K3) + drop_bit 15 Y3"
    unfolding K_def portable_leading_bit_def Let_def N1_def Y1_def K2_def Y2_def K3_def Y3_def ..
  note s1 = tree_step_shift [of 8 8 Y "0x100", folded N1_def, folded Y1_def]
  have 1: "N1 = 0 \<or> N1 = 8" "unat Y1 = unat Y * 2 ^ unat N1" "2 ^ 8 \<le> unat Y1" "unat Y1 < 2 ^ 16"
    using s1 assms(1,2) by auto
  note s2 = tree_step_shift [of 12 4 Y1 "0x1000", folded K2_def, folded Y2_def]
  have 2: "K2 = 0 \<or> K2 = 4" "unat Y2 = unat Y1 * 2 ^ unat K2" "2 ^ 12 \<le> unat Y2" "unat Y2 < 2 ^ 16"
    using s2 1(3,4) by auto
  note s3 = tree_step_shift [of 14 2 Y2 "0x4000", folded K3_def, folded Y3_def]
  have 3: "K3 = 0 \<or> K3 = 2" "unat Y3 = unat Y2 * 2 ^ unat K3" "2 ^ 14 \<le> unat Y3" "unat Y3 < 2 ^ 16"
    using s3 2(3,4) by auto
  have d: "unat (drop_bit 15 Y3) = (if unat Y3 < 2 ^ 15 then 0 else 1)"
  proof (cases "unat Y3 < 2 ^ 15")
    case False
    then have "unat Y3 div 2 ^ 15 = 1" using 3(4) by (intro div_nat_eqI) auto
    with False show ?thesis by (simp only: unat_drop if_False)
  qed (simp only: unat_drop, simp)
  then have d': "drop_bit 15 Y3 = (if unat Y3 < 2 ^ 15 then 0 else 1)"
    by (simp add: word_unat_eq_iff)
  show "unat K < 16" "2 ^ unat K \<le> unat Y" "unat Y < 2 ^ (unat K + 1)"
    using 1(1) 2(1) 3(1) 1(2) 2(2) 3(2-4) unfolding K d'
    by (auto split: if_splits)
qed


lemma leading_bit_unique:
  assumes "2 ^ K \<le> x" "x < 2 ^ (K + 1)" "2 ^ K' \<le> x" "x < (2::nat) ^ (K' + 1)"
  shows "K = K'"
proof -
  have "(2::nat) ^ K < 2 ^ (K' + 1)" "(2::nat) ^ K' < 2 ^ (K + 1)" using assms by linarith+
  from power_less_imp_less_exp [OF _ this(1)] power_less_imp_less_exp [OF _ this(2)]
  have "K < K' + 1" "K' < K + 1" by simp_all
  then show ?thesis by simp
qed

lemma compute_tree_index_mid:
  assumes "256 \<le> unat S" "unat S < 2 ^ 24"
  obtains K where "K < 16" "2 ^ K \<le> unat S div 256" "unat S div 256 < 2 ^ (K + 1)"
    "compute_tree_index S = push_bit 1 (of_nat K) + ucast (drop_bit (K + 7) S AND 1)"
proof -
  define X where "X = (ucast (drop_bit 8 S) :: u32)"
  have uX: "unat X = unat S div 256"
    unfolding X_def by (simp only: unat_ucast unat_drop) (use assms in simp)
  then have X0: "X \<noteq> 0" using assms(1) by (auto simp flip: unat_0_iff)
  have le: "unat X < 2 ^ 16" using assms(2) uX by simp
  define K where "K = 31 - builtin_clz X"
  note clz = clz_range [OF X0]
  have K: "2 ^ K \<le> unat X" using clz(2) by (simp only: K_def)
  then have "(2::nat) ^ K < 2 ^ 16" using le by (rule le_less_trans)
  then have "K < 16" by (rule power_less_imp_less_exp [rotated]) simp
  moreover have "unat X < 2 ^ (K + 1)"
  proof -
    have "K + 1 = 32 - builtin_clz X" using clz(1) by (simp add: K_def)
    then show ?thesis using clz(3) by (simp only:)
  qed
  moreover have "compute_tree_index S = push_bit 1 (of_nat K) + ucast (drop_bit (K + 7) S AND 1)"
  proof -
    have "4 * 8 - 1 - builtin_clz X = K" "K + (8 - 1) = K + 7" by (simp_all add: K_def)
    moreover have "\<not> 0xFFFF < X" using le by (simp add: word_less_nat_alt)
    ultimately show ?thesis
      using X0 unfolding compute_tree_index_def Let_def X_def dl_consts by (simp only: if_False)
  qed
  ultimately show ?thesis using that K unfolding uX by blast
qed

lemma compute_tree_index_portable_mid:
  assumes "256 \<le> unat S" "unat S < 2 ^ 24"
  obtains K where "K < 16" "2 ^ K \<le> unat S div 256" "unat S div 256 < 2 ^ (K + 1)"
    "compute_tree_index_portable S = push_bit 1 (of_nat K) + ucast (drop_bit (K + 7) S AND 1)"
proof -
  define X where "X = drop_bit 8 S"
  have uX: "unat X = unat S div 256" unfolding X_def by (simp only: unat_drop) simp
  then have X0: "X \<noteq> 0" using assms(1) by (auto simp flip: unat_0_iff)
  have le: "unat X < 2 ^ 16" using assms(2) uX by simp
  have uY: "unat (ucast X :: u32) = unat S div 256"
    by (simp only: unat_ucast uX) (use assms(2) in simp)
  then have Y: "unat (ucast X :: u32) \<noteq> 0" "unat (ucast X :: u32) < 2 ^ 16" using assms by auto
  define K where "K = unat (portable_leading_bit (ucast X))"
  have "compute_tree_index_portable S = push_bit 1 (of_nat K) + ucast (drop_bit (K + 7) S AND 1)"
  proof -
    have "\<not> 0xFFFF < X" using le by (simp add: word_less_nat_alt)
    moreover have "K + (8 - 1) = K + 7" by simp
    moreover have "portable_leading_bit (ucast X) = of_nat K" by (simp only: K_def of_nat_unat)  simp
    ultimately show ?thesis
      using X0 unfolding compute_tree_index_portable_def Let_def X_def dl_consts K_def
      by (simp only: if_False)
  qed
  then show ?thesis
    using that [of K] portable_leading_bit_range [OF Y, folded K_def, unfolded uY] by blast
qed

lemma tree_index_top:
  assumes "2 ^ 24 \<le> unat S"
  shows "compute_tree_index_portable S = 31" "unat S < 2 ^ 40 \<Longrightarrow> compute_tree_index S = 31"
    "unat (minsize_for_tree_index 31) \<le> unat S"
proof -
  have q: "2 ^ 16 \<le> unat S div 2 ^ 8" using assms by simp
  have 1: "unat (drop_bit 8 S) = unat S div 2 ^ 8" by (rule unat_drop)
  have "0xFFFF < drop_bit 8 S" using q by (simp add: word_less_nat_alt 1)
  moreover from this have "drop_bit 8 S \<noteq> 0" by auto
  ultimately show "compute_tree_index_portable S = 31"
    by (simp add: compute_tree_index_portable_def dl_consts Let_def)
  show "compute_tree_index S = 31" if "unat S < 2 ^ 40"
  proof -
    have "unat (ucast (drop_bit 8 S) :: u32) = unat S div 2 ^ 8"
      by (simp only: unat_ucast 1) (use that in simp)
    then have "0xFFFF < (ucast (drop_bit 8 S) :: u32)" using q by (simp add: word_less_nat_alt)
    moreover from this have "ucast (drop_bit 8 S) \<noteq> (0 :: u32)" by auto
    ultimately show ?thesis by (simp add: compute_tree_index_def dl_consts Let_def)
  qed
  show "unat (minsize_for_tree_index 31) \<le> unat S" using assms by (simp add: unat_minsize)
qed

section \<open>Maps\<close>

lemma bit_neg_iff:
  fixes x :: "'a::len word"
  assumes "bit x i" "\<And>j. j < i \<Longrightarrow> \<not> bit x j"
  shows "bit (- x) j \<longleftrightarrow> j < LENGTH('a) \<and> i \<le> j \<and> (j = i \<or> \<not> bit x j)"
proof -
  define y where "y = drop_bit i x"
  have y0: "bit y 0" using assms(1) by (simp add: y_def bit_simps)
  have x: "x = push_bit i y"
  proof (rule bit_word_eqI)
    fix n assume "n < LENGTH('a)"
    then show "bit x n = bit (push_bit i y) n"
      using assms(2) [of n] by (cases "n < i") (simp_all add: bit_simps y_def)
  qed
  have "y - 1 = y AND NOT 1"
    using y0 and_not_eq_minus [of y 1] by (simp add: and_one_eq bit_0 mod_2_eq_odd)
  then have "- y = NOT (y AND NOT 1) " by (simp add: not_eq_complement algebra_simps)
  moreover have "- x = push_bit i (- y)" unfolding x by (simp add: push_bit_eq_mult)
  ultimately have "- x = push_bit i (NOT (y AND NOT 1))" by (simp only:)
  then show ?thesis
    using y0 by (auto simp: bit_simps y_def bit_1_iff le_imp_diff_is_add)
qed

lemma least_bit_eq:
  assumes "x \<noteq> 0"
  shows "least_bit x = push_bit (builtin_ctz x) 1"
proof (rule bit_word_eqI)
  fix n assume "n < LENGTH(32)"
  note c = ctz_first [OF assms]
  show "bit (least_bit x) n = bit (push_bit (builtin_ctz x) 1 :: u32) n"
  proof -
    have "bit (push_bit (builtin_ctz x) 1 :: u32) n \<longleftrightarrow> n = builtin_ctz x"
      using c(1) by (auto simp: bit_simps)
    moreover have neg: "bit (- x) n
        \<longleftrightarrow> n < LENGTH(32) \<and> builtin_ctz x \<le> n \<and> (n = builtin_ctz x \<or> \<not> bit x n)"
      by (rule bit_neg_iff) (fact c(2), erule c(3))
    ultimately show ?thesis
      using c(1,2) c(3) [of n] \<open>n < LENGTH(32)\<close>
      unfolding least_bit_def bit_and_iff neg by (auto simp: not_less)
  qed
qed

lemma ctz_push: "i < 32 \<Longrightarrow> builtin_ctz (push_bit i 1) = i"
proof -
  assume i: "i < 32"
  have b: "bit (push_bit i 1 :: u32) j \<longleftrightarrow> j = i" for j using i by (auto simp: bit_simps)
  then have "push_bit i (1 :: u32) \<noteq> 0" by (metis bit_0_eq bot_apply bot_bool_def)
  from ctz_first(2) [OF this] show ?thesis by (simp only: b)
qed

text \<open>One step of the portable binary search, on the mask of the bits below the one sought.\<close>

lemma mask_step:
  assumes "i < 32" "m < 32"
  shows "drop_bit n (mask i :: u32) AND push_bit m 1 = (if n + m < i then push_bit m 1 else 0)"
  by (rule bit_word_eqI) (use assms in \<open>auto simp: bit_simps\<close>)

lemma drop_mask: "i < 32 \<Longrightarrow> drop_bit n (mask i :: u32) = mask (i - n)"
  by (rule bit_word_eqI) (auto simp: bit_simps)

lemma portable_bit2idx: "i < 32 \<Longrightarrow> compute_bit2idx_portable (push_bit i 1) = of_nat i"
proof -
  assume i: "i < 32"
  have m: "push_bit i 1 - 1 = (mask i :: u32)" by (simp add: mask_eq_exp_minus_1)
  have s: "drop_bit 12 (mask j :: u32) AND 16 = (if 16 < j then 16 else 0)"
    "drop_bit 5 (mask j :: u32) AND 8 = (if 8 < j then 8 else 0)"
    "drop_bit 2 (mask j :: u32) AND 4 = (if 4 < j then 4 else 0)"
    "drop_bit 1 (mask j :: u32) AND 2 = (if 2 < j then 2 else 0)"
    "drop_bit 1 (mask j :: u32) AND 1 = (if 1 < j then 1 else 0)" if "j < 32" for j
    using mask_step [OF that, of 4 12] mask_step [OF that, of 3 5] mask_step [OF that, of 2 2]
      mask_step [OF that, of 1 1] mask_step [OF that, of 0 1] by simp_all
  define i1 where "i1 = i - (if 16 < i then 16 else 0)"
  define i2 where "i2 = i1 - (if 8 < i1 then 8 else 0)"
  define i3 where "i3 = i2 - (if 4 < i2 then 4 else 0)"
  define i4 where "i4 = i3 - (if 2 < i3 then 2 else 0)"
  define i5 where "i5 = i4 - (if 1 < i4 then 1 else 0)"
  have l1: "i1 \<le> 16" using i unfolding i1_def by auto
  have l2: "i2 \<le> 8" using l1 unfolding i2_def by auto
  have l3: "i3 \<le> 4" using l2 unfolding i3_def by auto
  have l4: "i4 \<le> 2" using l3 unfolding i4_def by auto
  have l5: "i5 \<le> 1" using l4 unfolding i5_def by auto
  note le = l1 l2 l3 l4 l5
  have d1: "drop_bit (unat (if 16 < i then 16 else (0 :: u32))) (mask i :: u32) = mask i1"
    using i by (simp add: drop_mask i1_def)
  have d2: "drop_bit (unat (if 8 < i1 then 8 else (0 :: u32))) (mask i1 :: u32) = mask i2"
    using le by (simp add: drop_mask i2_def)
  have d3: "drop_bit (unat (if 4 < i2 then 4 else (0 :: u32))) (mask i2 :: u32) = mask i3"
    using le by (simp add: drop_mask i3_def)
  have d4: "drop_bit (unat (if 2 < i3 then 2 else (0 :: u32))) (mask i3 :: u32) = mask i4"
    using le by (simp add: drop_mask i4_def)
  have d5: "drop_bit (unat (if 1 < i4 then 1 else (0 :: u32))) (mask i4 :: u32) = mask i5"
    using le drop_mask [of i4 1] by (simp add: i5_def)
  have n: "16 - 4 = (12::nat)" "8 - 3 = (5::nat)" "4 - 2 = (2::nat)" "2 - 1 = (1::nat)" "1 - 0 = (1::nat)"
    by simp_all
  have e: "compute_bit2idx_portable (push_bit i 1) =
    (if 16 < i then 16 else 0) + (if 8 < i1 then 8 else 0) + (if 4 < i2 then 4 else 0)
    + (if 2 < i3 then 2 else 0) + (if 1 < i4 then 1 else 0) + mask i5"
    unfolding compute_bit2idx_portable_def Let_def n m s(1) [OF i] d1
    using le by (simp only: s(2) [of i1] s(3) [of i2] s(4) [of i3] s(5) [of i4] d2 d3 d4 d5)
  have "mask i5 = (of_nat i5 :: u32)" using le(5) by (cases i5) (auto simp: mask_1)
  moreover have "(of_nat i :: u32) = (if 16 < i then 16 else 0) + of_nat i1"
    by (simp add: i1_def of_nat_diff)
  moreover have "(of_nat i1 :: u32) = (if 8 < i1 then 8 else 0) + of_nat i2"
    by (simp add: i2_def of_nat_diff)
  moreover have "(of_nat i2 :: u32) = (if 4 < i2 then 4 else 0) + of_nat i3"
    by (simp add: i3_def of_nat_diff)
  moreover have "(of_nat i3 :: u32) = (if 2 < i3 then 2 else 0) + of_nat i4"
    by (simp add: i4_def of_nat_diff)
  moreover have "(of_nat i4 :: u32) = (if 1 < i4 then 1 else 0) + of_nat i5"
    by (simp add: i5_def of_nat_diff)
  ultimately show ?thesis unfolding e by (simp only: add.assoc)
qed

lemma left_bits_idx2bit:
  assumes "unat i < 32"
  shows "bit (left_bits (idx2bit i)) j \<longleftrightarrow> unat i < j \<and> j < 32"
proof (cases "unat i = 31")
  case True
  then have "push_bit 1 (push_bit (unat i) 1 :: u32) = 0"
    by (simp only: push_bit_push_bit) simp
  then show ?thesis using True by (simp only: left_bits_def idx2bit_def) simp
next
  case False
  have p: "push_bit 1 (push_bit (unat i) 1 :: u32) = push_bit (unat i + 1) 1"
    by (simp only: push_bit_push_bit add.commute)
  have b0: "bit (push_bit (unat i + 1) 1 :: u32) j \<longleftrightarrow> j = unat i + 1" for j
    using False assms by (auto simp: bit_simps)
  then have b: "bit (- push_bit (unat i + 1) 1 :: u32) j
      \<longleftrightarrow> j < 32 \<and> unat i + 1 \<le> j \<and> (j = unat i + 1 \<or> j \<noteq> unat i + 1)"
    by (subst bit_neg_iff [of _ "unat i + 1"]) simp_all
  show ?thesis
    using False assms unfolding left_bits_def idx2bit_def p bit_or_iff b b0 by auto
qed

text \<open>The bin of a size, in natural numbers.\<close>

text \<open>The first marked bin.\<close>

lemma bit2idx_least:
  assumes "x \<noteq> 0"
  obtains i where "i < 32" "compute_bit2idx (least_bit x) = of_nat i" "bit x i" "\<And>j. j < i \<Longrightarrow> \<not> bit x j"
proof (rule that)
  note c = ctz_first [OF assms]
  show "builtin_ctz x < 32" "bit x (builtin_ctz x)" "\<And>j. j < builtin_ctz x \<Longrightarrow> \<not> bit x j"
    by (rule c | erule c)+
  show "compute_bit2idx (least_bit x) = of_nat (builtin_ctz x)"
    using ctz_push [OF c(1)] by (simp only: compute_bit2idx_def Let_def least_bit_eq [OF assms])
qed

lemma tree_index_range:
  assumes "256 \<le> unat S" "unat S < 2 ^ 40"
  defines "i \<equiv> unat (compute_tree_index S)"
  shows "i < 32" "(2 + i mod 2) * 2 ^ (i div 2 + 7) \<le> unat S"
    "i \<noteq> 31 \<Longrightarrow> unat S < (2 + (i + 1) mod 2) * 2 ^ ((i + 1) div 2 + 7)"
proof -
  have *: "i < 32 \<and> unat (minsize_for_tree_index (compute_tree_index S)) \<le> unat S
    \<and> (i \<noteq> 31 \<longrightarrow> unat S < unat (minsize_for_tree_index (compute_tree_index S + 1)))"
  proof (cases "unat S < 2 ^ 24")
    case True
    from compute_tree_index_mid [OF assms(1) this] obtain K where K: "K < 16"
      "2 ^ K \<le> unat S div 256" "unat S div 256 < 2 ^ (K + 1)"
      "compute_tree_index S = push_bit 1 (of_nat K) + ucast (drop_bit (K + 7) S AND 1)" .
    from tree_index_split [OF K(1-3), folded K(4)]
    show ?thesis by (auto simp: i_def word_less_nat_alt)
  next
    case False
    then show ?thesis using tree_index_top [of S] assms(2) by (simp add: i_def)
  qed
  then show "i < 32" by blast
  with * have m: "unat (minsize_for_tree_index (compute_tree_index S)) = (2 + i mod 2) * 2 ^ (i div 2 + 7)"
    using unat_minsize [of "compute_tree_index S"] by (simp add: i_def)
  then show "(2 + i mod 2) * 2 ^ (i div 2 + 7) \<le> unat S" using * by simp
  assume "i \<noteq> 31"
  then have n: "unat (compute_tree_index S + 1) = i + 1"
    using \<open>i < 32\<close> by (simp add: i_def unat_word_ariths)
  then have "unat (minsize_for_tree_index (compute_tree_index S + 1))
      = (2 + (i + 1) mod 2) * 2 ^ ((i + 1) div 2 + 7)"
    using unat_minsize [of "compute_tree_index S + 1"] \<open>i < 32\<close> by simp
  then show "unat S < (2 + (i + 1) mod 2) * 2 ^ ((i + 1) div 2 + 7)" using * \<open>i \<noteq> 31\<close> by simp
qed

lemma tree_min_mono:
  assumes "i \<le> j"
  shows "(2 + i mod 2) * 2 ^ (i div 2 + 7) \<le> (2 + j mod 2) * (2 :: nat) ^ (j div 2 + 7)"
  using assms
proof (induction rule: dec_induct)
  case (step n)
  have "(2 + n mod 2) * 2 ^ (n div 2 + 7) \<le> (2 + Suc n mod 2) * (2 :: nat) ^ (Suc n div 2 + 7)"
    by (cases "even n") (auto elim!: evenE oddE simp: power_add)
  then show ?case using step.IH by linarith
qed simp

lemma compute_tree_index_mono:
  assumes "256 \<le> unat S" "unat S \<le> unat S'" "unat S' < 2 ^ 40"
  shows "unat (compute_tree_index S) \<le> unat (compute_tree_index S')"
proof (rule ccontr)
  let ?i = "unat (compute_tree_index S)" and ?j = "unat (compute_tree_index S')"
  assume "\<not> ?i \<le> ?j"
  then have "?j + 1 \<le> ?i" by simp
  note S = tree_index_range [OF assms(1)] and S' = tree_index_range [of S']
  have "?j \<noteq> 31" using \<open>?j + 1 \<le> ?i\<close> S(1) assms by simp
  then have "unat S' < (2 + (?j + 1) mod 2) * 2 ^ ((?j + 1) div 2 + 7)"
    using S'(3) assms by simp
  also have "\<dots> \<le> (2 + ?i mod 2) * 2 ^ (?i div 2 + 7)" by (rule tree_min_mono [OF \<open>?j + 1 \<le> ?i\<close>])
  also have "\<dots> \<le> unat S" using S(2) assms by simp
  finally show False using assms(2) by simp
qed

section \<open>Properties\<close>

text \<open>
  C36. For every large chunk size below \<open>2 ^ 40\<close>, the gcc variant of \<open>compute_tree_index\<close>
  selects a bin whose minimum size is at most the size, and the size is below the minimum of the
  next bin (the last bin is unbounded): what \<open>do_check_tree\<close> asserts of every node.
\<close>

theorem compute_tree_index_range:
  assumes "MIN_LARGE_SIZE \<le> S" "unat S < 2 ^ 40"
  shows "compute_tree_index S < NTREEBINS
    \<and> minsize_for_tree_index (compute_tree_index S) \<le> S
    \<and> (compute_tree_index S \<noteq> NTREEBINS - 1
        \<longrightarrow> S < minsize_for_tree_index (compute_tree_index S + 1))"
proof -
  let ?i = "compute_tree_index S"
  have S: "256 \<le> unat S" using assms(1) by (simp add: dl_consts word_le_nat_alt)
  note R = tree_index_range [OF this assms(2)]
  have "unat (minsize_for_tree_index ?i) \<le> unat S" using unat_minsize [of ?i] R by simp
  moreover have "unat S < unat (minsize_for_tree_index (?i + 1))" if "?i \<noteq> 31"
  proof -
    have "unat ?i \<noteq> 31" using that by (auto simp: word_unat_eq_iff)
    moreover have "unat (?i + 1) = unat ?i + 1" using R(1) by (simp add: unat_word_ariths)
    ultimately show ?thesis using unat_minsize [of "?i + 1"] R by simp
  qed
  ultimately show ?thesis using R(1) by (auto simp: dl_consts word_le_nat_alt word_less_nat_alt)
qed

theorem compute_tree_index_range_witness:
  "compute_tree_index 0x5A0 = 4 \<and> minsize_for_tree_index 4 \<le> 0x5A0 \<and> 0x5A0 < minsize_for_tree_index 5"
proof -
  have i: "compute_tree_index 0x5A0 = 4" by code_simp
  have "MIN_LARGE_SIZE \<le> 0x5A0" "unat (0x5A0 :: size_t) < 2 ^ 40" by (simp_all add: dl_consts)
  from compute_tree_index_range [OF this] show ?thesis unfolding i by (simp add: dl_consts)
qed

text \<open>
  C37. Below \<open>2 ^ 40\<close> the portable shift-and-subtract variant of \<open>compute_tree_index\<close> and the
  variant with \<open>__builtin_clz\<close> compute the same index.
\<close>

theorem compute_tree_index_variants_agree:
  assumes "unat S < 2 ^ 40"
  shows "compute_tree_index_portable S = compute_tree_index S"
proof -
  consider "unat S < 256" | "256 \<le> unat S" "unat S < 2 ^ 24" | "2 ^ 24 \<le> unat S" by linarith
  then show ?thesis
  proof cases
    case 1
    then have "unat (drop_bit 8 S) = 0" by (simp only: unat_drop) simp
    then have "drop_bit 8 S = 0" by (simp only: unat_0_iff)
    with 1 show ?thesis
      by (simp add: compute_tree_index_small compute_tree_index_portable_def dl_consts)
  next
    case 2
    from compute_tree_index_mid [OF 2] obtain K where K: "K < 16" "2 ^ K \<le> unat S div 256"
      "unat S div 256 < 2 ^ (K + 1)"
      "compute_tree_index S = push_bit 1 (of_nat K) + ucast (drop_bit (K + 7) S AND 1)" .
    from compute_tree_index_portable_mid [OF 2] obtain K' where K': "K' < 16"
      "2 ^ K' \<le> unat S div 256" "unat S div 256 < 2 ^ (K' + 1)"
      "compute_tree_index_portable S = push_bit 1 (of_nat K') + ucast (drop_bit (K' + 7) S AND 1)" .
    show ?thesis using leading_bit_unique [OF K(2,3) K'(2,3)] K(4) K'(4) by (simp only:)
  next
    case 3
    then show ?thesis using tree_index_top [of S] assms by simp
  qed
qed

theorem compute_tree_index_variants_agree_witness:
  "compute_tree_index_portable 0x12345678 = compute_tree_index 0x12345678"
proof -
  have "unat (0x12345678 :: size_t) < 2 ^ 40" by simp
  then show ?thesis by (rule compute_tree_index_variants_agree)
qed

text \<open>
  C38. The gcc variant keeps only 32 bits of \<open>S >> TREEBIN_SHIFT\<close>: a chunk whose size is a
  multiple of \<open>2 ^ 40\<close> (plus less than 256 bytes) is given bin 0, the bin of the smallest large
  chunks, where the portable variant gives the last bin.
\<close>

theorem compute_tree_index_truncates:
  assumes "2 ^ 40 \<le> unat S" "unat S div 2 ^ 8 mod 2 ^ 32 = 0"
  shows "compute_tree_index S = 0 \<and> compute_tree_index_portable S = NTREEBINS - 1
    \<and> minsize_for_tree_index (compute_tree_index S + 1) \<le> S"
proof -
  have "unat (ucast (drop_bit 8 S) :: u32) = 0"
    by (simp only: unat_ucast unat_drop) (use assms(2) in simp)
  then have "ucast (drop_bit 8 S) = (0 :: u32)" by (simp only: unat_0_iff)
  then have 1: "compute_tree_index S = 0" by (simp add: compute_tree_index_def dl_consts)
  have "unat (minsize_for_tree_index 1) \<le> unat S" using assms(1) by (simp add: unat_minsize)
  then show ?thesis using tree_index_top(1) [of S] assms(1) by (simp add: 1 dl_consts word_le_nat_alt)
qed

theorem compute_tree_index_truncates_witness:
  "compute_tree_index (2 ^ 40) = 0 \<and> compute_tree_index_portable (2 ^ 40) = 31"
proof -
  have "2 ^ 40 \<le> unat (2 ^ 40 :: size_t)" "unat (2 ^ 40 :: size_t) div 2 ^ 8 mod 2 ^ 32 = 0" by simp_all
  from compute_tree_index_truncates [OF this] show ?thesis by (simp add: dl_consts)
qed

text \<open>
  C24. Bin search: of a non-empty map restricted to the bins after \<open>idx\<close>,
  \<open>compute_bit2idx (least_bit x)\<close> is the least marked bin, strictly after \<open>idx\<close>; the portable
  binary search computes the same index.
\<close>

theorem next_marked_bin:
  assumes "idx < NSMALLBINS" "left_bits (idx2bit idx) AND m \<noteq> 0"
  shows "let i = compute_bit2idx (least_bit (left_bits (idx2bit idx) AND m))
    in idx < i \<and> i < NSMALLBINS \<and> bit m (unat i) \<and> (\<forall>j. idx < j \<and> j < i \<longrightarrow> \<not> bit m (unat j))
      \<and> compute_bit2idx_portable (least_bit (left_bits (idx2bit idx) AND m)) = i"
proof -
  define x where "x = left_bits (idx2bit idx) AND m"
  have x0: "x \<noteq> 0" using assms(2) by (simp add: x_def)
  have ui: "unat idx < 32" using assms(1) by (simp add: dl_consts word_less_nat_alt)
  note c = ctz_first [OF x0]
  have bx: "bit x j \<longleftrightarrow> unat idx < j \<and> j < 32 \<and> bit m j" for j
    by (auto simp: x_def bit_and_iff left_bits_idx2bit [OF ui])
  have i: "compute_bit2idx (least_bit x) = of_nat (builtin_ctz x)"
    using ctz_push [OF c(1)] by (simp only: compute_bit2idx_def Let_def least_bit_eq [OF x0])
  have u: "unat (of_nat (builtin_ctz x) :: u32) = builtin_ctz x"
    using c(1) by (simp add: unat_of_nat)
  have p: "compute_bit2idx_portable (least_bit x) = of_nat (builtin_ctz x)"
    using portable_bit2idx [OF c(1)] by (simp only: least_bit_eq [OF x0])
  have "\<not> bit m (unat j)" if "idx < j" "j < of_nat (builtin_ctz x)" for j :: u32
    using that c(1) c(3) [of "unat j"] by (simp add: bx word_less_nat_alt u)
  then show ?thesis
    using c(1,2) unfolding x_def [symmetric] Let_def i p
    by (auto simp: bx dl_consts word_less_nat_alt u)
qed

theorem next_marked_bin_witness:
  "compute_bit2idx (least_bit (left_bits (idx2bit 4) AND 0x8090)) = 7"
proof -
  have m: "left_bits (idx2bit 4) AND 0x8090 = (0x8080 :: u32)" by code_simp
  have "(4 :: u32) < NSMALLBINS" "left_bits (idx2bit 4) AND 0x8090 \<noteq> (0 :: u32)"
    by (simp_all add: dl_consts m)
  from next_marked_bin [OF this]
  have "compute_bit2idx_portable (least_bit (left_bits (idx2bit 4) AND 0x8090))
    = compute_bit2idx (least_bit (left_bits (idx2bit 4) AND 0x8090))"
    by (simp only: Let_def)
  moreover have "compute_bit2idx_portable (least_bit (left_bits (idx2bit 4) AND 0x8090)) = 7"
    by code_simp
  ultimately show ?thesis by simp
qed

end
