(* ===== verification/DL_State.thy ===== *)
theory DL_State
  imports DL_Bits
begin

text \<open>
  The state an operation of src/src/dlmalloc.c works on: memory, the \<open>malloc_state\<close> of the
  space at hand, \<open>malloc_params\<close>, \<open>errno\<close> and the state of the operating system.

  Memory is a function from the byte address of an 8-byte cell to its content. The structs are
  views into memory, as the file describes them: a field is the cell at the offset the LP64
  layout gives it, so that overlaid fields (the foot of a chunk and the payload of the one
  before it, a segment record inside a chunk) really share a cell. All accesses of the code are
  8-byte aligned; a 32-bit field is the low half of its cell (little endian). The scalar fields
  of \<open>malloc_state\<close> are fields of the record; its arrays \<open>smallbins\<close> and \<open>treebins\<close> and its
  embedded segment, which the code addresses by pointers, are memory cells at \<open>maddr\<close>.

  The configuration is the default one on 64-bit Linux (\<open>FOOTERS\<close>, \<open>INSECURE\<close>, \<open>DEBUG\<close>,
  \<open>USE_LOCKS\<close> and \<open>PROCEED_ON_ERROR\<close> are 0, \<open>HAVE_MORECORE\<close>, \<open>HAVE_MMAP\<close> and \<open>HAVE_MREMAP\<close>
  are 1), with \<open>MSPACES\<close> set.
\<close>

type_synonym memory = "addr \<Rightarrow> size_t"

record 'o state =
  mem :: memory
  maddr :: addr
  gm_addr :: addr
  smallmap :: u32
  treemap :: u32
  dvsize :: size_t
  topsize :: size_t
  least_addr :: addr
  dv :: addr
  topp :: addr
  trim_check :: size_t
  release_checks :: size_t
  magic :: size_t
  footprint :: size_t
  max_footprint :: size_t
  footprint_limit :: size_t
  mflags :: u32
  extp :: addr
  exts :: size_t
  mp_magic :: size_t
  page_size :: size_t
  granularity :: size_t
  mmap_threshold :: size_t
  trim_threshold :: size_t
  default_mflags :: u32
  errno :: int
  os :: 'o

text \<open>
  The operating system is a parameter: the calls the code makes, as functions of its state and
  of memory (\<open>mmap\<close> delivers zeroed pages, \<open>mremap\<close> moves them). \<open>munmap\<close> returns 0 on
  success, the other calls an address or \<open>MFAIL\<close>.
\<close>

record 'o os_ops =
  os_morecore :: "size_t \<Rightarrow> 'o \<Rightarrow> memory \<Rightarrow> addr \<times> 'o \<times> memory"
  os_mmap :: "size_t \<Rightarrow> 'o \<Rightarrow> memory \<Rightarrow> addr \<times> 'o \<times> memory"
  os_munmap :: "addr \<Rightarrow> size_t \<Rightarrow> 'o \<Rightarrow> memory \<Rightarrow> int \<times> 'o \<times> memory"
  os_mremap :: "addr \<Rightarrow> size_t \<Rightarrow> size_t \<Rightarrow> int \<Rightarrow> 'o \<Rightarrow> memory \<Rightarrow> addr \<times> 'o \<times> memory"
  os_pagesize :: size_t
  os_time :: "'o \<Rightarrow> size_t"

section \<open>Memory cells\<close>

definition rd :: "'o state \<Rightarrow> addr \<Rightarrow> size_t" where "rd s a = mem s a"
definition wr :: "'o state \<Rightarrow> addr \<Rightarrow> size_t \<Rightarrow> 'o state" where
  "wr s a v = s\<lparr>mem := (mem s)(a := v)\<rparr>"

definition rd32 :: "'o state \<Rightarrow> addr \<Rightarrow> u32" where "rd32 s a = ucast (rd s a)"
definition wr32 :: "'o state \<Rightarrow> addr \<Rightarrow> u32 \<Rightarrow> 'o state" where
  "wr32 s a v = wr s a ((rd s a AND NOT (mask 32)) OR ucast v)"

text \<open>\<open>memset(a, 0, n)\<close> and \<open>memcpy(dst, src, n)\<close>: whole cells, and the low bytes of the last.\<close>

definition memset0 :: "'o state \<Rightarrow> addr \<Rightarrow> size_t \<Rightarrow> 'o state" where
  "memset0 s a n = s\<lparr>mem := (\<lambda>c.
     let off = c - a in
     if off < n \<and> off AND 7 = 0
     then (if 8 \<le> n - off then 0 else mem s c AND NOT (mask (8 * unat (n - off))))
     else mem s c)\<rparr>"

definition memcpy :: "'o state \<Rightarrow> addr \<Rightarrow> addr \<Rightarrow> size_t \<Rightarrow> 'o state" where
  "memcpy s dst src n = s\<lparr>mem := (\<lambda>c.
     let off = c - dst in
     if off < n \<and> off AND 7 = 0
     then (if 8 \<le> n - off then mem s (src + off)
           else (mem s c AND NOT (mask (8 * unat (n - off))))
                OR (mem s (src + off) AND mask (8 * unat (n - off))))
     else mem s c)\<rparr>"

section \<open>malloc\_chunk and malloc\_tree\_chunk\<close>

definition prev_foot :: "'o state \<Rightarrow> addr \<Rightarrow> size_t" where "prev_foot s p = rd s p"
definition head :: "'o state \<Rightarrow> addr \<Rightarrow> size_t" where "head s p = rd s (p + 8)"
definition fd :: "'o state \<Rightarrow> addr \<Rightarrow> addr" where "fd s p = rd s (p + 16)"
definition bk :: "'o state \<Rightarrow> addr \<Rightarrow> addr" where "bk s p = rd s (p + 24)"
definition child_slot :: "addr \<Rightarrow> size_t \<Rightarrow> addr" where "child_slot t i = t + 32 + 8 * i"
definition child :: "'o state \<Rightarrow> addr \<Rightarrow> size_t \<Rightarrow> addr" where
  "child s t i = rd s (child_slot t i)"
definition parent :: "'o state \<Rightarrow> addr \<Rightarrow> addr" where "parent s t = rd s (t + 48)"
definition index :: "'o state \<Rightarrow> addr \<Rightarrow> u32" where "index s t = rd32 s (t + 56)"

definition set_prev_foot :: "'o state \<Rightarrow> addr \<Rightarrow> size_t \<Rightarrow> 'o state" where
  "set_prev_foot s p v = wr s p v"
definition set_head :: "'o state \<Rightarrow> addr \<Rightarrow> size_t \<Rightarrow> 'o state" where
  "set_head s p v = wr s (p + 8) v"
definition set_fd :: "'o state \<Rightarrow> addr \<Rightarrow> addr \<Rightarrow> 'o state" where
  "set_fd s p v = wr s (p + 16) v"
definition set_bk :: "'o state \<Rightarrow> addr \<Rightarrow> addr \<Rightarrow> 'o state" where
  "set_bk s p v = wr s (p + 24) v"
definition set_child :: "'o state \<Rightarrow> addr \<Rightarrow> size_t \<Rightarrow> addr \<Rightarrow> 'o state" where
  "set_child s t i v = wr s (child_slot t i) v"
definition set_parent :: "'o state \<Rightarrow> addr \<Rightarrow> addr \<Rightarrow> 'o state" where
  "set_parent s t v = wr s (t + 48) v"
definition set_index :: "'o state \<Rightarrow> addr \<Rightarrow> u32 \<Rightarrow> 'o state" where
  "set_index s t v = wr32 s (t + 56) v"

section \<open>Head and foot of a chunk\<close>

definition chunksize :: "'o state \<Rightarrow> addr \<Rightarrow> size_t" where "chunksize s p = head_size (head s p)"
definition cinuse :: "'o state \<Rightarrow> addr \<Rightarrow> bool" where "cinuse s p \<longleftrightarrow> head_cinuse (head s p)"
definition pinuse :: "'o state \<Rightarrow> addr \<Rightarrow> bool" where "pinuse s p \<longleftrightarrow> head_pinuse (head s p)"
definition is_inuse :: "'o state \<Rightarrow> addr \<Rightarrow> bool" where "is_inuse s p \<longleftrightarrow> head_inuse (head s p)"
definition is_mmapped :: "'o state \<Rightarrow> addr \<Rightarrow> bool" where
  "is_mmapped s p \<longleftrightarrow> head_mmapped (head s p)"

definition clear_pinuse :: "'o state \<Rightarrow> addr \<Rightarrow> 'o state" where
  "clear_pinuse s p = set_head s p (head s p AND NOT PINUSE_BIT)"

definition next_chunk :: "'o state \<Rightarrow> addr \<Rightarrow> addr" where
  "next_chunk s p = p + (head s p AND NOT FLAG_BITS)"
definition prev_chunk :: "'o state \<Rightarrow> addr \<Rightarrow> addr" where "prev_chunk s p = p - prev_foot s p"
definition next_pinuse :: "'o state \<Rightarrow> addr \<Rightarrow> bool" where
  "next_pinuse s p \<longleftrightarrow> head s (next_chunk s p) AND PINUSE_BIT \<noteq> 0"

definition get_foot :: "'o state \<Rightarrow> addr \<Rightarrow> size_t \<Rightarrow> size_t" where
  "get_foot s p z = prev_foot s (p + z)"
definition set_foot :: "'o state \<Rightarrow> addr \<Rightarrow> size_t \<Rightarrow> 'o state" where
  "set_foot s p z = set_prev_foot s (p + z) z"

definition set_size_and_pinuse_of_free_chunk :: "'o state \<Rightarrow> addr \<Rightarrow> size_t \<Rightarrow> 'o state" where
  "set_size_and_pinuse_of_free_chunk s p z = set_foot (set_head s p (z OR PINUSE_BIT)) p z"

definition set_free_with_pinuse :: "'o state \<Rightarrow> addr \<Rightarrow> size_t \<Rightarrow> addr \<Rightarrow> 'o state" where
  "set_free_with_pinuse s p z n = set_size_and_pinuse_of_free_chunk (clear_pinuse s n) p z"

definition overhead_for :: "'o state \<Rightarrow> addr \<Rightarrow> size_t" where
  "overhead_for s p = (if is_mmapped s p then MMAP_CHUNK_OVERHEAD else CHUNK_OVERHEAD)"

definition calloc_must_clear :: "'o state \<Rightarrow> addr \<Rightarrow> bool" where
  "calloc_must_clear s p \<longleftrightarrow> \<not> is_mmapped s p"

definition set_inuse :: "'o state \<Rightarrow> addr \<Rightarrow> size_t \<Rightarrow> 'o state" where
  "set_inuse s p z =
     (let s = set_head s p (((head s p AND PINUSE_BIT) OR z) OR CINUSE_BIT)
      in set_head s (p + z) (head s (p + z) OR PINUSE_BIT))"

definition set_inuse_and_pinuse :: "'o state \<Rightarrow> addr \<Rightarrow> size_t \<Rightarrow> 'o state" where
  "set_inuse_and_pinuse s p z =
     (let s = set_head s p ((z OR PINUSE_BIT) OR CINUSE_BIT)
      in set_head s (p + z) (head s (p + z) OR PINUSE_BIT))"

definition set_size_and_pinuse_of_inuse_chunk :: "'o state \<Rightarrow> addr \<Rightarrow> size_t \<Rightarrow> 'o state" where
  "set_size_and_pinuse_of_inuse_chunk s p z = set_head s p ((z OR PINUSE_BIT) OR CINUSE_BIT)"

text \<open>Runtime checks: a failing \<open>RTCHECK\<close> leads to an abort.\<close>

definition ok_address :: "'o state \<Rightarrow> addr \<Rightarrow> bool" where "ok_address s a \<longleftrightarrow> least_addr s \<le> a"
definition ok_next :: "addr \<Rightarrow> addr \<Rightarrow> bool" where "ok_next p n \<longleftrightarrow> p < n"
definition ok_inuse :: "'o state \<Rightarrow> addr \<Rightarrow> bool" where "ok_inuse s p \<longleftrightarrow> is_inuse s p"
definition ok_pinuse :: "'o state \<Rightarrow> addr \<Rightarrow> bool" where "ok_pinuse s p \<longleftrightarrow> pinuse s p"

section \<open>malloc\_state and malloc\_segment\<close>

definition smallbin_at :: "'o state \<Rightarrow> u32 \<Rightarrow> addr" where
  "smallbin_at s i = maddr s + 72 + 8 * push_bit 1 (ucast i)"
definition treebin_at :: "'o state \<Rightarrow> u32 \<Rightarrow> addr" where
  "treebin_at s i = maddr s + 600 + 8 * ucast i"
definition seg :: "'o state \<Rightarrow> addr" where "seg s = maddr s + 888"

definition is_global :: "'o state \<Rightarrow> bool" where "is_global s \<longleftrightarrow> maddr s = gm_addr s"
definition is_initialized :: "'o state \<Rightarrow> bool" where "is_initialized s \<longleftrightarrow> topp s \<noteq> 0"

definition smallmap_is_marked :: "'o state \<Rightarrow> u32 \<Rightarrow> bool" where
  "smallmap_is_marked s i \<longleftrightarrow> smallmap s AND idx2bit i \<noteq> 0"
definition mark_smallmap :: "'o state \<Rightarrow> u32 \<Rightarrow> 'o state" where
  "mark_smallmap s i = s\<lparr>smallmap := smallmap s OR idx2bit i\<rparr>"
definition clear_smallmap :: "'o state \<Rightarrow> u32 \<Rightarrow> 'o state" where
  "clear_smallmap s i = s\<lparr>smallmap := smallmap s AND NOT (idx2bit i)\<rparr>"
definition treemap_is_marked :: "'o state \<Rightarrow> u32 \<Rightarrow> bool" where
  "treemap_is_marked s i \<longleftrightarrow> treemap s AND idx2bit i \<noteq> 0"
definition mark_treemap :: "'o state \<Rightarrow> u32 \<Rightarrow> 'o state" where
  "mark_treemap s i = s\<lparr>treemap := treemap s OR idx2bit i\<rparr>"
definition clear_treemap :: "'o state \<Rightarrow> u32 \<Rightarrow> 'o state" where
  "clear_treemap s i = s\<lparr>treemap := treemap s AND NOT (idx2bit i)\<rparr>"

definition sg_base :: "'o state \<Rightarrow> addr \<Rightarrow> addr" where "sg_base s sp = rd s sp"
definition sg_size :: "'o state \<Rightarrow> addr \<Rightarrow> size_t" where "sg_size s sp = rd s (sp + 8)"
definition sg_next :: "'o state \<Rightarrow> addr \<Rightarrow> addr" where "sg_next s sp = rd s (sp + 16)"
definition sg_sflags :: "'o state \<Rightarrow> addr \<Rightarrow> u32" where "sg_sflags s sp = rd32 s (sp + 24)"
definition set_sg_base :: "'o state \<Rightarrow> addr \<Rightarrow> addr \<Rightarrow> 'o state" where
  "set_sg_base s sp v = wr s sp v"
definition set_sg_size :: "'o state \<Rightarrow> addr \<Rightarrow> size_t \<Rightarrow> 'o state" where
  "set_sg_size s sp v = wr s (sp + 8) v"
definition set_sg_next :: "'o state \<Rightarrow> addr \<Rightarrow> addr \<Rightarrow> 'o state" where
  "set_sg_next s sp v = wr s (sp + 16) v"
definition set_sg_sflags :: "'o state \<Rightarrow> addr \<Rightarrow> u32 \<Rightarrow> 'o state" where
  "set_sg_sflags s sp v = wr32 s (sp + 24) v"

definition USE_LOCK_BIT :: u32 where "USE_LOCK_BIT = 0"
definition USE_MMAP_BIT :: u32 where "USE_MMAP_BIT = 1"
definition USE_NONCONTIGUOUS_BIT :: u32 where "USE_NONCONTIGUOUS_BIT = 4"
definition EXTERN_BIT :: u32 where "EXTERN_BIT = 8"

definition use_mmap :: "'o state \<Rightarrow> bool" where "use_mmap s \<longleftrightarrow> mflags s AND USE_MMAP_BIT \<noteq> 0"
definition enable_mmap :: "'o state \<Rightarrow> 'o state" where
  "enable_mmap s = s\<lparr>mflags := mflags s OR USE_MMAP_BIT\<rparr>"
definition disable_mmap :: "'o state \<Rightarrow> 'o state" where
  "disable_mmap s = s\<lparr>mflags := mflags s AND NOT USE_MMAP_BIT\<rparr>"
definition use_noncontiguous :: "'o state \<Rightarrow> bool" where
  "use_noncontiguous s \<longleftrightarrow> mflags s AND USE_NONCONTIGUOUS_BIT \<noteq> 0"
definition disable_contiguous :: "'o state \<Rightarrow> 'o state" where
  "disable_contiguous s = s\<lparr>mflags := mflags s OR USE_NONCONTIGUOUS_BIT\<rparr>"
definition set_lock :: "'o state \<Rightarrow> int \<Rightarrow> 'o state" where
  "set_lock s L = s\<lparr>mflags := (if L \<noteq> 0 then mflags s OR USE_LOCK_BIT
                              else mflags s AND NOT USE_LOCK_BIT)\<rparr>"

definition is_mmapped_segment :: "'o state \<Rightarrow> addr \<Rightarrow> bool" where
  "is_mmapped_segment s sp \<longleftrightarrow> sg_sflags s sp AND USE_MMAP_BIT \<noteq> 0"
definition is_extern_segment :: "'o state \<Rightarrow> addr \<Rightarrow> bool" where
  "is_extern_segment s sp \<longleftrightarrow> sg_sflags s sp AND EXTERN_BIT \<noteq> 0"

text \<open>Sizes rounded to pages and to the allocation granularity.\<close>

definition page_align :: "'o state \<Rightarrow> size_t \<Rightarrow> size_t" where
  "page_align s S = (S + (page_size s - 1)) AND NOT (page_size s - 1)"
definition granularity_align :: "'o state \<Rightarrow> size_t \<Rightarrow> size_t" where
  "granularity_align s S = (S + (granularity s - 1)) AND NOT (granularity s - 1)"
definition mmap_align :: "'o state \<Rightarrow> size_t \<Rightarrow> size_t" where "mmap_align s S = page_align s S"
definition is_page_aligned :: "'o state \<Rightarrow> size_t \<Rightarrow> bool" where
  "is_page_aligned s S \<longleftrightarrow> S AND (page_size s - 1) = 0"
definition is_granularity_aligned :: "'o state \<Rightarrow> size_t \<Rightarrow> bool" where
  "is_granularity_aligned s S \<longleftrightarrow> S AND (granularity s - 1) = 0"

definition segment_holds :: "'o state \<Rightarrow> addr \<Rightarrow> addr \<Rightarrow> bool" where
  "segment_holds s sp A \<longleftrightarrow> sg_base s sp \<le> A \<and> A < sg_base s sp + sg_size s sp"

definition should_trim :: "'o state \<Rightarrow> size_t \<Rightarrow> bool" where
  "should_trim s z \<longleftrightarrow> trim_check s < z"

definition malloc_failure_action :: "'o state \<Rightarrow> 'o state" where
  "malloc_failure_action s = s\<lparr>errno := 12\<rparr>"


text \<open>
  The state at program start: static storage is zero. The witnesses of the properties start
  from it, with the address of \<open>malloc_state\<close> and the state of the operating system given.
\<close>

definition static_state :: "addr \<Rightarrow> 'o \<Rightarrow> 'o state" where
  "static_state m x = \<lparr>mem = (\<lambda>_. 0), maddr = m, gm_addr = m, smallmap = 0, treemap = 0,
     dvsize = 0, topsize = 0, least_addr = 0, dv = 0, topp = 0, trim_check = 0,
     release_checks = 0, magic = 0, footprint = 0, max_footprint = 0, footprint_limit = 0,
     mflags = 0, extp = 0, exts = 0, mp_magic = 0, page_size = 0, granularity = 0,
     mmap_threshold = 0, trim_threshold = 0, default_mflags = 0, errno = 0, os = x\<rparr>"

end
