(* ===== verification/DL_SmallBins.thy ===== *)
theory DL_SmallBins
  imports DL_State
begin

text \<open>
  Small bins of src/src/dlmalloc.c: the macros \<open>insert_small_chunk\<close>, \<open>unlink_small_chunk\<close>,
  \<open>unlink_first_small_chunk\<close> and \<open>replace_dv\<close>. A bin is a circular doubly-linked list through
  its header; the lemmas refine the pointer operations to operations on the list of the
  addresses of its chunks, and show that the runtime checks pass on well-formed bins.
\<close>

definition insert_small_chunk :: "'o state \<Rightarrow> addr \<Rightarrow> size_t \<Rightarrow> 'o state res" where
  "insert_small_chunk s P S =
     (let I = small_index S;
          B = smallbin_at s I;
          r = (if \<not> smallmap_is_marked s I then Inr (mark_smallmap s I, B)
               else if ok_address s (fd s B) then Inr (s, fd s B)
               else Inl CorruptionAbort)
      in bindR r (\<lambda>(s, F).
           let s = set_fd s B P;
               s = set_bk s F P;
               s = set_fd s P F
           in Inr (set_bk s P B)))"

definition unlink_small_chunk :: "'o state \<Rightarrow> addr \<Rightarrow> size_t \<Rightarrow> 'o state res" where
  "unlink_small_chunk s P S =
     (let F = fd s P;
          B = bk s P;
          I = small_index S
      in if F = smallbin_at s I \<or> (ok_address s F \<and> bk s F = P)
         then if B = F then Inr (clear_smallmap s I)
              else if B = smallbin_at s I \<or> (ok_address s B \<and> fd s B = P)
              then Inr (set_fd (set_bk s F B) B F)
              else Inl CorruptionAbort
         else Inl CorruptionAbort)"

definition unlink_first_small_chunk :: "'o state \<Rightarrow> addr \<Rightarrow> addr \<Rightarrow> u32 \<Rightarrow> 'o state res" where
  "unlink_first_small_chunk s B P I =
     (let F = fd s P
      in if B = F then Inr (clear_smallmap s I)
         else if ok_address s F \<and> bk s F = P then Inr (set_fd (set_bk s F B) B F)
         else Inl CorruptionAbort)"

definition replace_dv :: "'o state \<Rightarrow> addr \<Rightarrow> size_t \<Rightarrow> 'o state res" where
  "replace_dv s P S =
     (let DVS = dvsize s
      in bindR (if DVS \<noteq> 0 then let DV = dv s in insert_small_chunk s DV DVS else Inr s)
           (\<lambda>s. Inr (s\<lparr>dvsize := S, dv := P\<rparr>)))"

section \<open>Reads after writes\<close>

lemma rd_wr [dl_mem]: "rd (wr s a v) b = (if b = a then v else rd s b)"
  by (simp add: rd_def wr_def)

lemma offset_eqs:
  "(p :: addr) + 16 = q + 24 \<longleftrightarrow> p = q + 8" "(p :: addr) + 24 = q + 16 \<longleftrightarrow> q = p + 8"
  by (auto simp: algebra_simps)

lemma links_after_writes [dl_mem]:
  "fd (set_fd s p v) q = (if q = p then v else fd s q)"
  "bk (set_bk s p v) q = (if q = p then v else bk s q)"
  "q \<noteq> p + 8 \<Longrightarrow> fd (set_bk s p v) q = fd s q"
  "p \<noteq> q + 8 \<Longrightarrow> bk (set_fd s p v) q = bk s q"
  by (auto simp: fd_def bk_def set_fd_def set_bk_def rd_wr offset_eqs)

lemma wr_fields [dl_mem]:
  "maddr (wr s a v) = maddr s" "smallmap (wr s a v) = smallmap s" "treemap (wr s a v) = treemap s"
  "least_addr (wr s a v) = least_addr s" "dv (wr s a v) = dv s" "dvsize (wr s a v) = dvsize s"
  "topp (wr s a v) = topp s" "topsize (wr s a v) = topsize s"
  by (simp_all add: wr_def)

lemmas link_writes [dl_mem] =
  wr_fields [where s = s and a = "p + 16" for s p, folded set_fd_def]
  wr_fields [where s = s and a = "p + 24" for s p, folded set_bk_def]

lemma smallbin_at_cong: "maddr s' = maddr s \<Longrightarrow> smallbin_at s' i = smallbin_at s i"
  by (simp add: smallbin_at_def)

section \<open>Circular lists\<close>

text \<open>
  \<open>linked s u xs w\<close>: following \<open>fd\<close> from \<open>u\<close> visits \<open>xs\<close> and arrives at \<open>w\<close>, and every
  \<open>bk\<close> points back. A bin with header \<open>b\<close> and chunks \<open>xs\<close> satisfies \<open>linked s b xs b\<close>.
\<close>

fun linked :: "'o state \<Rightarrow> addr \<Rightarrow> addr list \<Rightarrow> addr \<Rightarrow> bool" where
  "linked s u [] w \<longleftrightarrow> fd s u = w \<and> bk s w = u"
| "linked s u (v # vs) w \<longleftrightarrow> fd s u = v \<and> bk s v = u \<and> linked s v vs w"

lemma linked_append:
  "linked s u (xs @ v # ys) w \<longleftrightarrow> linked s u xs v \<and> linked s v ys w"
  by (induction xs arbitrary: u) auto

lemma linked_cong:
  assumes "\<And>q. q \<in> set (u # xs) \<Longrightarrow> fd s' q = fd s q"
    and "\<And>q. q \<in> set (xs @ [w]) \<Longrightarrow> bk s' q = bk s q"
  shows "linked s' u xs w \<longleftrightarrow> linked s u xs w"
  using assms by (induction xs arbitrary: u) auto

lemma linked_fd_first: "linked s u xs w \<Longrightarrow> fd s u = hd (xs @ [w])"
  by (cases xs) auto

lemma linked_bk_last: "linked s u xs w \<Longrightarrow> bk s w = last (u # xs)"
  by (induction xs arbitrary: u) auto

text \<open>Addresses whose link cells do not overlap: none is 8 bytes after another.\<close>

definition apart :: "addr set \<Rightarrow> bool" where
  "apart N \<longleftrightarrow> (\<forall>p\<in>N. p + 8 \<notin> N)"

lemma apartD: "apart N \<Longrightarrow> p \<in> N \<Longrightarrow> q \<in> N \<Longrightarrow> p \<noteq> q + 8"
  by (auto simp: apart_def)

lemma apart_subset: "apart N \<Longrightarrow> M \<subseteq> N \<Longrightarrow> apart M"
  by (auto simp: apart_def)

lemma linked_insert_front:
  assumes l: "xs \<noteq> [] \<Longrightarrow> linked s b xs b" and d: "distinct (b # xs)"
    and P: "P \<notin> set (b # xs)" and a: "apart (set (P # b # xs))" and F: "F = hd (xs @ [b])"
  shows "linked (set_bk (set_fd (set_bk (set_fd s b P) F P) P F) P b) b (P # xs) b"
proof -
  define s' where "s' = set_bk (set_fd (set_bk (set_fd s b P) F P) P F) P b"
  from F have FN: "F \<in> set (P # b # xs)" by (cases xs) auto
  have fd': "fd s' q = (if q = P then F else if q = b then P else fd s q)"
    if "q \<in> set (P # b # xs)" for q
    using apartD [OF a that, of P] apartD [OF a that FN] P unfolding s'_def
    by (auto simp: dl_mem)
  have bk': "bk s' q = (if q = P then b else if q = F then P else bk s q)"
    if "q \<in> set (P # b # xs)" for q
    using apartD [OF a _ that, of P] apartD [OF a _ that, of b] that unfolding s'_def
    by (auto simp: dl_mem)
  have "linked s' P xs b"
  proof (cases xs)
    case Nil
    then show ?thesis using F fd' [of P] bk' [of b] P by simp
  next
    case (Cons x ys)
    have "linked s' x ys b \<longleftrightarrow> linked s x ys b"
      by (rule linked_cong) (use Cons P d F fd' bk' in auto)
    then show ?thesis using Cons l F fd' [of P] bk' [of x] P by auto
  qed
  then show ?thesis using fd' [of b] bk' [of P] P by (simp flip: s'_def) auto
qed

lemma linked_remove:
  assumes l: "linked s u (xs @ P # ys) w" and d: "distinct (xs @ P # ys)"
    and uw: "u \<notin> set (xs @ P # ys)" "w \<notin> set (xs @ P # ys)"
    and a: "apart (set (u # w # xs @ P # ys))"
  shows "linked (set_fd (set_bk s (fd s P) (bk s P)) (bk s P) (fd s P)) u (xs @ ys) w"
proof -
  define F B where "F = fd s P" and "B = bk s P"
  define s' where "s' = set_fd (set_bk s F B) B F"
  have l1: "linked s u xs P" and l2: "linked s P ys w" using l by (simp_all add: linked_append)
  have F: "F = hd (ys @ [w])" using linked_fd_first [OF l2] by (simp add: F_def)
  have B: "B = last (u # xs)" using linked_bk_last [OF l1] by (simp add: B_def)
  let ?N = "set (u # w # xs @ P # ys)"
  have Fin: "F \<in> set (ys @ [w])" unfolding F by (rule hd_in_set) simp
  have Bin: "B \<in> set (u # xs)" unfolding B by (rule last_in_set) simp
  have FN: "F \<in> ?N" and BN: "B \<in> ?N" using Fin Bin by auto
  have fd': "fd s' q = (if q = B then F else fd s q)" if "q \<in> ?N" for q
    using apartD [OF a that FN] unfolding s'_def by (auto simp: dl_mem)
  have bk': "bk s' q = (if q = F then B else bk s q)" if "q \<in> ?N" for q
    using apartD [OF a BN that] unfolding s'_def by (auto simp: dl_mem)
  have tail: "linked s' B ys w" if "linked s P ys w"
  proof (cases ys)
    case Nil
    then show ?thesis using F fd' [OF BN] bk' [OF FN] by simp
  next
    case (Cons y zs)
    have "linked s' y zs w \<longleftrightarrow> linked s y zs w"
    proof (rule linked_cong)
      show "fd s' q = fd s q" if "q \<in> set (y # zs)" for q
        using that Cons d uw Bin fd' [of q] by auto
      have "F = y" using F Cons by simp
      then show "bk s' q = bk s q" if "q \<in> set (zs @ [w])" for q
        using that Cons d uw bk' [of q] by auto
    qed
    then show ?thesis using Cons that F fd' [OF BN] bk' [OF FN] by auto
  qed
  show ?thesis
  proof (cases xs rule: rev_cases)
    case Nil
    then show ?thesis using tail [OF l2] B by (simp add: F_def B_def s'_def)
  next
    case (snoc zs z)
    have "linked s' u zs z \<longleftrightarrow> linked s u zs z"
    proof (rule linked_cong)
      have "B = z" using B snoc by simp
      then show "fd s' q = fd s q" if "q \<in> set (u # zs)" for q
        using that snoc d uw fd' [of q] by auto
      show "bk s' q = bk s q" if "q \<in> set (zs @ [z])" for q
        using that snoc d uw Fin bk' [of q] by auto
    qed
    then show ?thesis using tail [OF l2] l1 snoc B
      by (simp add: linked_append F_def B_def s'_def)
  qed
qed

section \<open>The array of small bins\<close>

text \<open>
  \<open>smallbins_ok s L\<close>: bin \<open>i\<close> holds the chunks \<open>L i\<close>, in the order of \<open>fd\<close> from the header.
  The links of the header of an empty bin are not constrained: the code leaves them dangling
  when it unlinks the last chunk and only clears the bit of the bin.
\<close>

definition small_headers :: "'o state \<Rightarrow> addr set" where
  "small_headers s = (\<lambda>i. smallbin_at s (of_nat i)) ` {..<32}"

definition small_nodes :: "'o state \<Rightarrow> (nat \<Rightarrow> addr list) \<Rightarrow> addr set" where
  "small_nodes s L = small_headers s \<union> (\<Union>i<32. set (L i))"

definition smallbins_ok :: "'o state \<Rightarrow> (nat \<Rightarrow> addr list) \<Rightarrow> bool" where
  "smallbins_ok s L \<longleftrightarrow>
     apart (small_nodes s L)
     \<and> (\<forall>i<32. (bit (smallmap s) i \<longleftrightarrow> L i \<noteq> []) \<and> distinct (L i)
          \<and> set (L i) \<inter> small_headers s = {} \<and> (\<forall>p\<in>set (L i). ok_address s p)
          \<and> (L i \<noteq> [] \<longrightarrow> linked s (smallbin_at s (of_nat i)) (L i) (smallbin_at s (of_nat i))))
     \<and> (\<forall>i<32. \<forall>j<32. i \<noteq> j \<longrightarrow> set (L i) \<inter> set (L j) = {})"

text \<open>The cells of the links of a set of nodes, and what an operation on bins may change.\<close>

definition link_cells :: "addr set \<Rightarrow> addr set" where
  "link_cells N = (\<lambda>p. p + 16) ` N \<union> (\<lambda>p. p + 24) ` N"

definition only_changes_links :: "addr set \<Rightarrow> 'o state \<Rightarrow> 'o state \<Rightarrow> bool" where
  "only_changes_links N s s' \<longleftrightarrow>
     s' = s\<lparr>mem := mem s', smallmap := smallmap s'\<rparr> \<and> (\<forall>a. a \<notin> link_cells N \<longrightarrow> rd s' a = rd s a)"

lemma link_cellsI: "p \<in> N \<Longrightarrow> p + 16 \<in> link_cells N" "p \<in> N \<Longrightarrow> p + 24 \<in> link_cells N"
  by (auto simp: link_cells_def)

lemma smallbin_at_inj:
  assumes "smallbin_at s (of_nat i) = smallbin_at s (of_nat j)" "i < 32" "j < 32"
  shows "i = j"
proof -
  have b: "8 * push_bit 1 (ucast (of_nat k :: u32)) = (of_nat (16 * k) :: addr)" if "k < 32" for k
  proof -
    have u: "ucast (of_nat k :: u32) = (of_nat k :: addr)"
      using that by (simp add: word_unat_eq_iff unat_ucast unat_of_nat)
    show ?thesis unfolding u by (simp add: push_bit_eq_mult)
  qed
  have "(of_nat (16 * i) :: addr) = of_nat (16 * j)"
    using assms(1) b [OF assms(2)] b [OF assms(3)] by (simp add: smallbin_at_def)
  then have "unat (of_nat (16 * i) :: addr) = unat (of_nat (16 * j) :: addr)" by (simp only:)
  then have "16 * i mod 2 ^ LENGTH(64) = 16 * j mod 2 ^ LENGTH(64)" by (simp only: unat_of_nat)
  then show ?thesis using assms(2,3) by simp
qed

lemma idx2bit_of_nat: "i < 32 \<Longrightarrow> idx2bit (of_nat i) = push_bit i 1"
  by (simp add: idx2bit_def unat_of_nat)

lemma marked_iff: "i < 32 \<Longrightarrow> smallmap_is_marked s (of_nat i) \<longleftrightarrow> bit (smallmap s) i"
  by (simp add: smallmap_is_marked_def idx2bit_of_nat and_exp_eq_0_iff_not_bit)

lemma small_index_of_nat: "is_small S \<Longrightarrow> unat S div 8 < 32 \<and> small_index S = of_nat (unat S div 8)"
proof -
  assume "is_small S"
  then have "unat (drop_bit 3 S) < unat (32 :: size_t)"
    by (simp add: is_small_def dl_consts word_less_nat_alt)
  moreover have d: "unat (drop_bit 3 S) = unat S div 8" by (simp only: unat_drop) simp
  ultimately have lt: "unat S div 8 < 32" by simp
  have "unat (small_index S) = unat S div 8 mod 2 ^ 32"
    by (simp only: small_index_def dl_consts unat_ucast d) simp
  then have "unat (small_index S) = unat (of_nat (unat S div 8) :: u32)"
    using lt by (simp add: unat_of_nat)
  with lt show ?thesis by (simp only: word_unat_eq_iff)
qed

lemma smallbins_okD:
  assumes "smallbins_ok s L" "i < 32"
  shows "apart (small_nodes s L)" "bit (smallmap s) i \<longleftrightarrow> L i \<noteq> []" "distinct (L i)"
    "set (L i) \<inter> small_headers s = {}" "p \<in> set (L i) \<Longrightarrow> ok_address s p"
    "L i \<noteq> [] \<Longrightarrow> linked s (smallbin_at s (of_nat i)) (L i) (smallbin_at s (of_nat i))"
    "smallbin_at s (of_nat i) \<notin> set (L i)"
  using assms by (auto simp: smallbins_ok_def small_headers_def)

lemma smallbins_ok_disj:
  "smallbins_ok s L \<Longrightarrow> i < 32 \<Longrightarrow> j < 32 \<Longrightarrow> i \<noteq> j \<Longrightarrow> set (L i) \<inter> set (L j) = {}"
  by (auto simp: smallbins_ok_def)

text \<open>A state that differs in the links of one bin only keeps the other bins.\<close>

lemma smallbins_ok_upd:
  assumes ok: "smallbins_ok s L" and i: "i < 32"
    and s': "s' = s\<lparr>mem := mem s', smallmap := smallmap s'\<rparr>"
    and map: "\<And>j. j < 32 \<Longrightarrow> bit (smallmap s') j \<longleftrightarrow> (if j = i then ys \<noteq> [] else bit (smallmap s) j)"
    and ys: "distinct ys" "set ys \<inter> small_headers s = {}" "\<And>p. p \<in> set ys \<Longrightarrow> ok_address s p"
      "ys \<noteq> [] \<Longrightarrow> linked s' (smallbin_at s (of_nat i)) ys (smallbin_at s (of_nat i))"
      "\<And>j. j < 32 \<Longrightarrow> j \<noteq> i \<Longrightarrow> set ys \<inter> set (L j) = {}"
    and a: "apart (set ys \<union> small_nodes s L)"
    and frame: "\<And>q. q \<in> small_nodes s L \<Longrightarrow> q \<notin> insert (smallbin_at s (of_nat i)) (set (L i))
       \<Longrightarrow> fd s' q = fd s q \<and> bk s' q = bk s q"
  shows "smallbins_ok s' (L(i := ys))"
proof -
  have f: "smallbin_at s' = smallbin_at s" "small_headers s' = small_headers s"
    "ok_address s' = ok_address s"
    using arg_cong [OF s', of maddr] arg_cong [OF s', of least_addr]
    by (simp_all add: smallbin_at_def small_headers_def ok_address_def fun_eq_iff)
  have keep: "linked s' (smallbin_at s (of_nat j)) (L j) (smallbin_at s (of_nat j))"
    if j: "j < 32" "j \<noteq> i" "L j \<noteq> []" for j
  proof -
    have n: "q \<in> small_nodes s L \<and> q \<notin> insert (smallbin_at s (of_nat i)) (set (L i))"
      if q: "q \<in> insert (smallbin_at s (of_nat j)) (set (L j))" for q
    proof -
      have hi: "smallbin_at s (of_nat i) \<in> small_headers s" using i by (simp add: small_headers_def)
      have hj: "smallbin_at s (of_nat j) \<in> small_headers s"
        using j(1) by (simp add: small_headers_def)
      have 1: "q \<in> small_nodes s L"
        using q hj j(1) by (auto simp only: small_nodes_def)
      have 2: "smallbin_at s (of_nat j) \<noteq> smallbin_at s (of_nat i)"
        using smallbin_at_inj [of s j i] i j(1,2) by blast
      have 3: "set (L i) \<inter> set (L j) = {}"
        by (rule smallbins_ok_disj [OF ok i j(1)]) (use j(2) in simp)
      have 4: "smallbin_at s (of_nat j) \<notin> set (L i)"
        using smallbins_okD(4) [OF ok i] hj by blast
      have 5: "smallbin_at s (of_nat i) \<notin> set (L j)"
        using smallbins_okD(4) [OF ok j(1)] hi by blast
      from q show ?thesis
      proof (rule insertE)
        assume "q = smallbin_at s (of_nat j)"
        then show ?thesis using 1 2 4 by simp
      next
        assume "q \<in> set (L j)"
        then show ?thesis using 1 3 5 by (metis disjoint_iff insert_iff)
      qed
    qed
    have "linked s' (smallbin_at s (of_nat j)) (L j) (smallbin_at s (of_nat j))
      \<longleftrightarrow> linked s (smallbin_at s (of_nat j)) (L j) (smallbin_at s (of_nat j))"
    proof (rule linked_cong)
      show "fd s' q = fd s q" if "q \<in> set (smallbin_at s (of_nat j) # L j)" for q
        using n [of q] frame [of q] that unfolding list.set by blast
      show "bk s' q = bk s q" if "q \<in> set (L j @ [smallbin_at s (of_nat j)])" for q
        using n [of q] frame [of q] that unfolding set_append list.set by blast
    qed
    then show ?thesis using smallbins_okD(6) [OF ok j(1,3)] by (simp only:)
  qed
  have "small_nodes s' (L(i := ys)) \<subseteq> set ys \<union> small_nodes s L"
    by (auto simp: small_nodes_def f split: if_splits)
  then have "apart (small_nodes s' (L(i := ys)))" by (rule apart_subset [OF a])
  moreover have "(bit (smallmap s') j \<longleftrightarrow> (L(i := ys)) j \<noteq> []) \<and> distinct ((L(i := ys)) j)
      \<and> set ((L(i := ys)) j) \<inter> small_headers s = {} \<and> (\<forall>p\<in>set ((L(i := ys)) j). ok_address s p)
      \<and> ((L(i := ys)) j \<noteq> [] \<longrightarrow>
          linked s' (smallbin_at s (of_nat j)) ((L(i := ys)) j) (smallbin_at s (of_nat j)))"
    if "j < 32" for j
    using smallbins_okD [OF ok that] map [OF that] ys(1-4) keep [OF that] by (cases "j = i") auto
  moreover have "set ((L(i := ys)) j) \<inter> set ((L(i := ys)) k) = {}"
    if "j < 32" "k < 32" "j \<noteq> k" for j k
    using smallbins_ok_disj [OF ok that] ys(5) [of j] ys(5) [of k] that by auto
  ultimately show ?thesis unfolding smallbins_ok_def f by blast
qed


section \<open>The operations\<close>

lemma map_writes [dl_mem]:
  "fd (mark_smallmap s i) p = fd s p" "bk (mark_smallmap s i) p = bk s p"
  "fd (clear_smallmap s i) p = fd s p" "bk (clear_smallmap s i) p = bk s p"
  "rd (mark_smallmap s i) p = rd s p" "rd (clear_smallmap s i) p = rd s p"
  "maddr (mark_smallmap s i) = maddr s" "maddr (clear_smallmap s i) = maddr s"
  "smallmap (mark_smallmap s i) = smallmap s OR idx2bit i"
  "smallmap (clear_smallmap s i) = smallmap s AND NOT (idx2bit i)"
  by (simp_all add: mark_smallmap_def clear_smallmap_def fd_def bk_def rd_def)

lemma linked_map [dl_mem]:
  "linked (mark_smallmap s i) u xs w = linked s u xs w"
  "linked (clear_smallmap s i) u xs w = linked s u xs w"
  by (induction xs arbitrary: u) (simp_all add: dl_mem)

lemma writes_only_mem:
  "set_fd s p v = s\<lparr>mem := mem (set_fd s p v)\<rparr>" "set_bk s p v = s\<lparr>mem := mem (set_bk s p v)\<rparr>"
  by (simp_all add: set_fd_def set_bk_def wr_def)

lemma only_changes_refl: "only_changes_links N s s"
  by (simp add: only_changes_links_def)

lemma only_changes_links_step:
  assumes "only_changes_links N s s'"
  shows "p \<in> N \<Longrightarrow> only_changes_links N s (set_fd s' p v)"
    "p \<in> N \<Longrightarrow> only_changes_links N s (set_bk s' p v)"
    "only_changes_links N s (mark_smallmap s' i)" "only_changes_links N s (clear_smallmap s' i)"
  using assms link_cellsI [of p N]
  by (cases s, cases s'; auto simp: only_changes_links_def set_fd_def set_bk_def wr_def rd_def
      mark_smallmap_def clear_smallmap_def)+

lemma only_changes_scalars:
  assumes "only_changes_links N s s'"
  shows "maddr s' = maddr s" "least_addr s' = least_addr s" "treemap s' = treemap s"
    "dv s' = dv s" "dvsize s' = dvsize s" "topp s' = topp s" "topsize s' = topsize s"
    "rd s' a = rd s a \<or> a \<in> link_cells N"
proof -
  have s': "s' = s\<lparr>mem := mem s', smallmap := smallmap s'\<rparr>"
    using assms by (simp add: only_changes_links_def)
  show "maddr s' = maddr s" using arg_cong [OF s', of maddr] by simp
  show "least_addr s' = least_addr s" using arg_cong [OF s', of least_addr] by simp
  show "treemap s' = treemap s" using arg_cong [OF s', of treemap] by simp
  show "dv s' = dv s" using arg_cong [OF s', of dv] by simp
  show "dvsize s' = dvsize s" using arg_cong [OF s', of dvsize] by simp
  show "topp s' = topp s" using arg_cong [OF s', of topp] by simp
  show "topsize s' = topsize s" using arg_cong [OF s', of topsize] by simp
  show "rd s' a = rd s a \<or> a \<in> link_cells N" using assms by (auto simp: only_changes_links_def)
qed

lemma bit_mark:
  assumes "i < 32" "j < 32"
  shows "bit (m OR idx2bit (of_nat i)) j \<longleftrightarrow> j = i \<or> bit m j"
    "bit (m AND NOT (idx2bit (of_nat i))) j \<longleftrightarrow> j \<noteq> i \<and> bit m j"
  using assms by (auto simp: idx2bit_of_nat bit_simps)

lemma small_headers_in: "i < 32 \<Longrightarrow> smallbin_at s (of_nat i) \<in> small_nodes s L"
  by (auto simp: small_nodes_def small_headers_def)

lemma small_list_in: "i < 32 \<Longrightarrow> p \<in> set (L i) \<Longrightarrow> p \<in> small_nodes s L"
  by (auto simp: small_nodes_def)


lemma insert_small_chunk_list:
  assumes ok: "smallbins_ok s L" and S: "is_small S" and i: "i = unat S div 8"
    and P: "P \<notin> small_nodes s L" "ok_address s P" and a: "apart (insert P (small_nodes s L))"
  shows "\<exists>s'. insert_small_chunk s P S = Inr s' \<and> smallbins_ok s' (L(i := P # L i))
    \<and> only_changes_links (insert P (small_nodes s L)) s s'"
proof -
  let ?b = "smallbin_at s (of_nat i)" and ?N = "insert P (small_nodes s L)"
  have i32: "i < 32" and I: "small_index S = of_nat i" using small_index_of_nat [OF S] i by auto
  note D = smallbins_okD [OF ok i32]
  define t where "t = (if L i = [] then mark_smallmap s (of_nat i) else s)"
  define F where "F = hd (L i @ [?b])"
  define s' where "s' = set_bk (set_fd (set_bk (set_fd t ?b P) F P) P F) P ?b"
  have bN: "?b \<in> small_nodes s L" by (rule small_headers_in [OF i32])
  have F: "F \<in> insert ?b (set (L i))" by (cases "L i") (auto simp: F_def)
  have LN: "set (L i) \<subseteq> small_nodes s L" using small_list_in [OF i32] by blast
  have FN: "F \<in> small_nodes s L" using F bN LN by blast
  have lt: "linked t ?b (L i) ?b" if "L i \<noteq> []" using D(6) that by (simp add: t_def)
  have run: "insert_small_chunk s P S = Inr s'"
  proof (cases "L i")
    case Nil
    then show ?thesis using D(2) i32
      by (simp add: insert_small_chunk_def I Let_def marked_iff bindR_def s'_def F_def t_def)
  next
    case (Cons x xs)
    then have "fd s ?b = x" "ok_address s x" using lt D(5) by (auto simp: t_def)
    then show ?thesis using D(2) i32 Cons
      by (simp add: insert_small_chunk_def I Let_def marked_iff bindR_def s'_def F_def t_def)
  qed
  have ch: "only_changes_links ?N s s'"
    unfolding s'_def t_def using bN FN
    by (auto intro!: only_changes_links_step only_changes_refl)
  have sm: "smallmap s' = (if L i = [] then smallmap s OR idx2bit (of_nat i) else smallmap s)"
    by (simp add: s'_def t_def dl_mem)
  have "smallbins_ok s' (L(i := P # L i))"
  proof (rule smallbins_ok_upd [OF ok i32])
    show "s' = s\<lparr>mem := mem s', smallmap := smallmap s'\<rparr>"
      using ch by (simp add: only_changes_links_def)
    show "bit (smallmap s') j \<longleftrightarrow> (if j = i then P # L i \<noteq> [] else bit (smallmap s) j)"
      if "j < 32" for j
      using bit_mark(1) [OF i32 that, of "smallmap s"] D(2) by (auto simp: sm)
    show "distinct (P # L i)" using D(3) P(1) LN by auto
    show "set (P # L i) \<inter> small_headers s = {}" using D(4) P(1) by (auto simp: small_nodes_def)
    show "ok_address s p" if "p \<in> set (P # L i)" for p using that D(5) P(2) by auto
    show "set (P # L i) \<inter> set (L j) = {}" if "j < 32" "j \<noteq> i" for j
      using smallbins_ok_disj [OF ok i32 that(1)] that P(1) small_list_in [OF that(1)] by auto
    show "apart (set (P # L i) \<union> small_nodes s L)"
      by (rule apart_subset [OF a]) (use LN in auto)
    show "linked s' ?b (P # L i) ?b" unfolding s'_def
      by (rule linked_insert_front [OF lt]; (rule F_def | rule apart_subset [OF a])?)
        (use D(3,7) P(1) bN LN in auto)
    show "fd s' q = fd s q \<and> bk s' q = bk s q"
      if q: "q \<in> small_nodes s L" "q \<notin> insert ?b (set (L i))" for q
    proof -
      have n: "q \<noteq> P" "q \<noteq> ?b" "q \<noteq> F" using q P(1) F by auto
      have "q \<in> ?N" "?b \<in> ?N" "F \<in> ?N" "P \<in> ?N" using q(1) bN FN by auto
      then have "q \<noteq> P + 8" "q \<noteq> F + 8" "P \<noteq> q + 8" "?b \<noteq> q + 8"
        using apartD [OF a] by blast+
      with n show ?thesis by (simp add: s'_def t_def dl_mem)
    qed
  qed
  with run ch show ?thesis by blast
qed

text \<open>
  Removing a chunk: both neighbours are the header or chunks that point back to it, so no
  check fails; the bit of the bin is cleared when its last chunk goes.
\<close>

lemma unlink_links:
  assumes ok: "smallbins_ok s L" and i32: "i < 32" and L: "L i = xs @ P # ys"
  defines "b \<equiv> smallbin_at s (of_nat i)"
  shows "fd s P = hd (ys @ [b])" "bk s P = last (b # xs)"
    "bk s (fd s P) = P" "fd s (bk s P) = P" "P \<noteq> b"
    "fd s P = b \<or> ok_address s (fd s P)" "bk s P = b \<or> ok_address s (bk s P)"
    "fd s P = bk s P \<longleftrightarrow> L i = [P]"
proof -
  note D = smallbins_okD [OF ok i32]
  have l: "linked s b (xs @ P # ys) b" using D(6) L by (simp add: b_def)
  then have l1: "linked s b xs P" and l2: "linked s P ys b" by (simp_all add: linked_append)
  show f: "fd s P = hd (ys @ [b])" by (rule linked_fd_first [OF l2])
  show k: "bk s P = last (b # xs)" by (rule linked_bk_last [OF l1])
  show "bk s (fd s P) = P" using l2 f by (cases ys) auto
  show "fd s (bk s P) = P" using l1 k by (cases xs rule: rev_cases) (auto simp: linked_append)
  show "P \<noteq> b" using D(7) L by (auto simp: b_def)
  have fi: "fd s P \<in> insert b (set ys)" using f by (cases ys) auto
  have ki: "bk s P \<in> insert b (set xs)" using k by (cases xs rule: rev_cases) auto
  show "fd s P = b \<or> ok_address s (fd s P)" using fi D(5) L by auto
  show "bk s P = b \<or> ok_address s (bk s P)" using ki D(5) L by auto
  have "set xs \<inter> set ys = {}" "b \<notin> set xs" "b \<notin> set ys" using D(3,7) L by (auto simp: b_def)
  then show "fd s P = bk s P \<longleftrightarrow> L i = [P]"
    using f k L by (cases ys; cases xs rule: rev_cases) auto
qed

lemma remove_from_bin:
  assumes ok: "smallbins_ok s L" and i32: "i < 32" and P: "P \<in> set (L i)"
  defines "b \<equiv> smallbin_at s (of_nat i)"
  defines "s' \<equiv> (if fd s P = bk s P then clear_smallmap s (of_nat i)
                 else set_fd (set_bk s (fd s P) (bk s P)) (bk s P) (fd s P))"
  shows "smallbins_ok s' (L(i := remove1 P (L i)))" "only_changes_links (small_nodes s L) s s'"
proof -
  note D = smallbins_okD [OF ok i32]
  obtain xs ys where L: "L i = xs @ P # ys" using P by (meson split_list)
  note U = unlink_links [OF ok i32 L, folded b_def]
  have rem: "remove1 P (L i) = xs @ ys" using D(3) L by (auto simp: remove1_append)
  have bN: "b \<in> small_nodes s L" unfolding b_def by (rule small_headers_in [OF i32])
  have LN: "set (L i) \<subseteq> small_nodes s L" using small_list_in [OF i32] by blast
  have fi: "fd s P \<in> insert b (set (L i))" using U(1) L by (cases ys) auto
  have ki: "bk s P \<in> insert b (set (L i))" using U(2) L by (cases xs rule: rev_cases) auto
  have N: "fd s P \<in> small_nodes s L" "bk s P \<in> small_nodes s L" using fi ki bN LN by auto
  show ch: "only_changes_links (small_nodes s L) s s'"
    unfolding s'_def using N by (auto intro!: only_changes_links_step only_changes_refl)
  have sm: "smallmap s' = (if L i = [P] then smallmap s AND NOT (idx2bit (of_nat i)) else smallmap s)"
    using U(8) by (auto simp: s'_def dl_mem)
  show "smallbins_ok s' (L(i := remove1 P (L i)))"
  proof (rule smallbins_ok_upd [OF ok i32])
    show "s' = s\<lparr>mem := mem s', smallmap := smallmap s'\<rparr>"
      using ch by (simp add: only_changes_links_def)
    show "bit (smallmap s') j \<longleftrightarrow> (if j = i then remove1 P (L i) \<noteq> [] else bit (smallmap s) j)"
      if "j < 32" for j
      using bit_mark(2) [OF i32 that, of "smallmap s"] D(2) L rem
      by (cases xs; cases ys) (auto simp: sm)
    show "distinct (remove1 P (L i))" using D(3) by (rule distinct_remove1)
    show "set (remove1 P (L i)) \<inter> small_headers s = {}"
      using D(4) set_remove1_subset [of P "L i"] by blast
    show "ok_address s p" if "p \<in> set (remove1 P (L i))" for p
      using that D(5) set_remove1_subset [of P "L i"] by blast
    show "set (remove1 P (L i)) \<inter> set (L j) = {}" if "j < 32" "j \<noteq> i" for j
      using smallbins_ok_disj [OF ok i32 that(1)] that(2) set_remove1_subset [of P "L i"] by blast
    show "apart (set (remove1 P (L i)) \<union> small_nodes s L)"
      by (rule apart_subset [OF D(1)]) (use LN set_remove1_subset [of P "L i"] in blast)
    show "linked s' (smallbin_at s (of_nat i)) (remove1 P (L i)) (smallbin_at s (of_nat i))"
      if ne: "remove1 P (L i) \<noteq> []"
    proof -
      have "L i \<noteq> [P]" using ne by auto
      then have s'_eq: "s' = set_fd (set_bk s (fd s P) (bk s P)) (bk s P) (fd s P)"
        using U(8) by (simp add: s'_def)
      have "linked s' b (xs @ ys) b" unfolding s'_eq
      proof (rule linked_remove)
        show "linked s b (xs @ P # ys) b" using D(6) L by (simp add: b_def)
        show "distinct (xs @ P # ys)" using D(3) L by simp
        show "b \<notin> set (xs @ P # ys)" "b \<notin> set (xs @ P # ys)" using D(7) L by (simp_all add: b_def)
        show "apart (set (b # b # xs @ P # ys))"
          by (rule apart_subset [OF D(1)]) (use LN L bN in auto)
      qed
      then show ?thesis by (simp add: rem b_def)
    qed
    show "fd s' q = fd s q \<and> bk s' q = bk s q"
      if q: "q \<in> small_nodes s L" "q \<notin> insert (smallbin_at s (of_nat i)) (set (L i))" for q
    proof -
      have n: "q \<noteq> fd s P" "q \<noteq> bk s P" using q(2) fi ki by (auto simp: b_def)
      have "q \<noteq> fd s P + 8" "bk s P \<noteq> q + 8" using apartD [OF D(1)] N q(1) by blast+
      with n show ?thesis by (simp add: s'_def dl_mem)
    qed
  qed
qed


lemma smallbin_at_nat: "i < 32 \<Longrightarrow> smallbin_at s (of_nat i) = maddr s + (72 + of_nat (16 * i))"
proof -
  assume "i < 32"
  then have "ucast (of_nat i :: u32) = (of_nat i :: addr)"
    by (simp add: word_unat_eq_iff unat_ucast unat_of_nat)
  then show ?thesis by (simp add: smallbin_at_def push_bit_eq_mult)
qed

lemma apart_headers: "apart (small_headers s)"
proof -
  have "smallbin_at s (of_nat i) + 8 \<noteq> smallbin_at s (of_nat j)" if "i < 32" "j < 32" for i j
  proof
    assume "smallbin_at s (of_nat i) + 8 = smallbin_at s (of_nat j)"
    then have "(of_nat (16 * i + 8) :: addr) = of_nat (16 * j)"
      using that by (simp add: smallbin_at_nat algebra_simps)
    then have "unat (of_nat (16 * i + 8) :: addr) = unat (of_nat (16 * j) :: addr)"
      by (simp only:)
    then have "(16 * i + 8) mod 2 ^ LENGTH(64) = 16 * j mod 2 ^ LENGTH(64)"
      by (simp only: unat_of_nat)
    then have "16 * i + 8 = 16 * j" using that by simp
    then show False by presburger
  qed
  then show ?thesis by (auto simp: apart_def small_headers_def)
qed

lemma smallbins_ok_empty: "smallmap s = 0 \<Longrightarrow> smallbins_ok s (\<lambda>_. [])"
  using apart_headers [of s] by (simp add: smallbins_ok_def small_nodes_def)

lemma unlink_small_chunk_list:
  assumes ok: "smallbins_ok s L" and S: "is_small S" and i: "i = unat S div 8"
    and P: "P \<in> set (L i)"
  shows "\<exists>s'. unlink_small_chunk s P S = Inr s' \<and> smallbins_ok s' (L(i := remove1 P (L i)))
    \<and> only_changes_links (small_nodes s L) s s'"
proof -
  have i32: "i < 32" and I: "small_index S = of_nat i" using small_index_of_nat [OF S] i by auto
  obtain xs ys where L: "L i = xs @ P # ys" using P by (meson split_list)
  note U = unlink_links [OF ok i32 L]
  have F: "fd s P = smallbin_at s (of_nat i) \<or> (ok_address s (fd s P) \<and> bk s (fd s P) = P)"
    using U(3,6) by blast
  have B: "bk s P = smallbin_at s (of_nat i) \<or> (ok_address s (bk s P) \<and> fd s (bk s P) = P)"
    using U(4,7) by blast
  have "unlink_small_chunk s P S = Inr (if fd s P = bk s P then clear_smallmap s (of_nat i)
      else set_fd (set_bk s (fd s P) (bk s P)) (bk s P) (fd s P))"
    unfolding unlink_small_chunk_def I Let_def if_P [OF F] if_P [OF B]
    by (simp add: eq_commute [of "bk s P"])
  with remove_from_bin [OF ok i32 P] show ?thesis by blast
qed

lemma unlink_first_list:
  assumes ok: "smallbins_ok s L" and i: "i < 32" and L: "L i = P # ys"
  shows "\<exists>s'. unlink_first_small_chunk s (smallbin_at s (of_nat i)) P (of_nat i) = Inr s'
    \<and> (\<forall>S. small_index S = of_nat i \<longrightarrow> unlink_small_chunk s P S = Inr s')
    \<and> smallbins_ok s' (L(i := ys)) \<and> only_changes_links (small_nodes s L) s s'"
proof -
  have L': "L i = [] @ P # ys" and "P \<in> set (L i)" using L by simp_all
  note R = remove_from_bin [OF ok i \<open>P \<in> set (L i)\<close>] and U = unlink_links [OF ok i L']
  have B: "bk s P = smallbin_at s (of_nat i)" using U(2) by simp
  have F: "ok_address s (fd s P) \<and> bk s (fd s P) = P" if "smallbin_at s (of_nat i) \<noteq> fd s P"
    using U(3,6) that by auto
  let ?s' = "if fd s P = bk s P then clear_smallmap s (of_nat i)
      else set_fd (set_bk s (fd s P) (bk s P)) (bk s P) (fd s P)"
  have "unlink_first_small_chunk s (smallbin_at s (of_nat i)) P (of_nat i) = Inr ?s'"
    using F by (simp add: unlink_first_small_chunk_def Let_def B)
  moreover have "unlink_small_chunk s P S = Inr ?s'" if "small_index S = of_nat i" for S
    using F by (auto simp: unlink_small_chunk_def Let_def B that)
  moreover have "remove1 P (L i) = ys" using L by simp
  ultimately show ?thesis using R by metis
qed

section \<open>Properties\<close>

text \<open>
  On well-formed bins the insertion of a fresh chunk of a small size succeeds, puts it at
  the front of the list of bin \<open>S div 8\<close>, leaves every other bin as it was and writes only
  links of chunks in the bins, of their headers and of the new chunk.
\<close>

theorem insert_small_chunk_refines_cons:
  assumes "smallbins_ok s L" "is_small S" "P \<notin> small_nodes s L" "ok_address s P"
    "apart (insert P (small_nodes s L))"
  shows "\<exists>s'. insert_small_chunk s P S = Inr s'
    \<and> smallbins_ok s' (L(unat S div 8 := P # L (unat S div 8)))
    \<and> only_changes_links (insert P (small_nodes s L)) s s'"
  using assms by (intro insert_small_chunk_list) auto

text \<open>
  Unlinking a chunk that is anywhere in the bin of its size passes both runtime checks and
  removes exactly this chunk from the list of its bin.
\<close>

theorem unlink_small_chunk_refines_remove:
  assumes "smallbins_ok s L" "is_small S" "P \<in> set (L (unat S div 8))"
  shows "\<exists>s'. unlink_small_chunk s P S = Inr s'
    \<and> smallbins_ok s' (L(unat S div 8 := remove1 P (L (unat S div 8))))
    \<and> only_changes_links (small_nodes s L) s s'"
  using assms by (intro unlink_small_chunk_list) auto

text \<open>
  The shorter removal the allocation path uses for the first chunk of a bin does the same
  as the general one, and leaves the tail of the list.
\<close>

theorem unlink_first_small_chunk_refines_tl:
  assumes ok: "smallbins_ok s L" and i: "i < 32" and L: "L i = P # ys"
  shows "\<exists>s'. unlink_first_small_chunk s (smallbin_at s (of_nat i)) P (of_nat i) = Inr s'
    \<and> (\<forall>S. small_index S = of_nat i \<longrightarrow> unlink_small_chunk s P S = Inr s')
    \<and> smallbins_ok s' (L(i := ys)) \<and> only_changes_links (small_nodes s L) s s'"
  using unlink_first_list [OF assms] .

text \<open>Concrete bins: one chunk at \<open>0x2000\<close> put into empty bins, and a second one.\<close>

abbreviation sb0 :: "unit state" where "sb0 \<equiv> static_state 0x1000 ()"

lemma sb0_ok: "smallbins_ok sb0 (\<lambda>_. [])"
  by (rule smallbins_ok_empty) (simp add: static_state_def)

lemma sb0_nodes: "small_nodes sb0 (\<lambda>_. []) = small_headers sb0"
  by (simp add: small_nodes_def)

lemma sb0_fresh: "i < 32 \<Longrightarrow> unat (smallbin_at sb0 (of_nat i)) = 4168 + 16 * i"
proof -
  assume i: "i < 32"
  have "smallbin_at sb0 (of_nat i) = of_nat (4168 + 16 * i)"
    using i by (simp add: smallbin_at_nat static_state_def)
  then show ?thesis using i by (simp only: unat_of_nat) simp
qed

lemma sb0_apart: "0x2000 \<notin> small_headers sb0" "apart (insert 0x2000 (small_headers sb0))"
proof -
  have n: "smallbin_at sb0 (of_nat i) \<noteq> a" if "i < 32" "4664 < unat a" for i a
    using sb0_fresh [OF that(1)] that by auto
  then show "0x2000 \<notin> small_headers sb0" by (auto simp: small_headers_def)
  have "smallbin_at sb0 (of_nat i) \<noteq> 0x2008" "smallbin_at sb0 (of_nat i) + 8 \<noteq> 0x2000"
    if "i < 32" for i
    using n [OF that, of "0x2008"] n [OF that, of "0x1FF8"] by (auto simp: eq_diff_eq [symmetric])
  then show "apart (insert 0x2000 (small_headers sb0))"
    using apart_headers [of sb0] by (auto simp: apart_def small_headers_def)
qed

lemma sb0_facts: "is_small 32" "ok_address sb0 0x2000" "0x2000 \<notin> small_nodes sb0 (\<lambda>_. [])"
  "apart (insert 0x2000 (small_nodes sb0 (\<lambda>_. [])))"
  using sb0_apart unfolding sb0_nodes
  by (simp_all add: is_small_def dl_consts ok_address_def static_state_def [where m = "0x1000"])

definition sb1 :: "unit state" where
  "sb1 = (case insert_small_chunk sb0 0x2000 32 of Inr s \<Rightarrow> s | Inl _ \<Rightarrow> sb0)"

theorem insert_small_chunk_refines_cons_witness:
  "insert_small_chunk sb0 0x2000 32 = Inr sb1 \<and> smallbins_ok sb1 ((\<lambda>_. [])(4 := [0x2000]))"
  using insert_small_chunk_refines_cons [OF sb0_ok sb0_facts(1,3,2,4)] by (auto simp: sb1_def)

lemma sb1_ok: "smallbins_ok sb1 ((\<lambda>_. [])(4 := [0x2000]))"
  using insert_small_chunk_list [OF sb0_ok sb0_facts(1) refl sb0_facts(3,2,4)]
  by (auto simp: sb1_def)

theorem unlink_small_chunk_refines_remove_witness:
  "\<exists>s'. unlink_small_chunk sb1 0x2000 32 = Inr s' \<and> smallbins_ok s' (\<lambda>_. [])"
  using unlink_small_chunk_refines_remove [OF sb1_ok sb0_facts(1), of "0x2000"]
  by (auto simp: fun_upd_idem)

theorem unlink_first_small_chunk_refines_tl_witness:
  "\<exists>s'. unlink_first_small_chunk sb1 (smallbin_at sb1 4) 0x2000 4 = Inr s'
    \<and> smallbins_ok s' (\<lambda>_. [])"
  using unlink_first_small_chunk_refines_tl [OF sb1_ok, of 4 "0x2000" "[]"]
  by (auto simp: fun_upd_idem)

end
