(* ===== verification/DL_TreeBins.thy ===== *)
theory DL_TreeBins
  imports DL_SmallBins
begin

text \<open>
  Tree bins of src/src/dlmalloc.c: \<open>insert_large_chunk\<close>, \<open>unlink_large_chunk\<close>, the relays
  \<open>insert_chunk\<close> and \<open>unlink_chunk\<close>, and the two searches \<open>tmalloc_large\<close> and
  \<open>tmalloc_small\<close>. The local pointers of the code (\<open>H\<close>, \<open>C\<close>, \<open>CP\<close>, \<open>RP\<close> point to fields)
  are addresses of cells. Loops that walk pointers are partial functions; \<open>run_loop\<close> turns a
  loop that does not end into \<open>Inl Diverges\<close>.
\<close>

definition leftmost_child :: "'o state \<Rightarrow> addr \<Rightarrow> addr" where
  "leftmost_child s t = (if child s t 0 \<noteq> 0 then child s t 0 else child s t 1)"

section \<open>Insertion\<close>

text \<open>The \<open>for\<close> loop of \<open>insert_large_chunk\<close>.\<close>

partial_function (option) insert_large_loop ::
  "'o state \<Rightarrow> addr \<Rightarrow> size_t \<Rightarrow> addr \<Rightarrow> size_t \<Rightarrow> 'o state res option"
where
  "insert_large_loop s X S T K =
     (if chunksize s T \<noteq> S
      then (let C = child_slot T (drop_bit 63 K AND 1);
                K = push_bit 1 K
            in if rd s C \<noteq> 0 then insert_large_loop s X S (rd s C) K
               else if ok_address s C
               then Some (Inr (let s = wr s C X;
                                   s = set_parent s X T;
                                   s = set_bk s X X
                               in set_fd s X X))
               else Some (Inl CorruptionAbort))
      else (let F = fd s T
            in if ok_address s T \<and> ok_address s F
               then Some (Inr (let s = set_bk s F X;
                                   s = set_fd s T X;
                                   s = set_fd s X F;
                                   s = set_bk s X T
                               in set_parent s X 0))
               else Some (Inl CorruptionAbort)))"

declare insert_large_loop.simps [code]

definition insert_large_chunk :: "'o state \<Rightarrow> addr \<Rightarrow> size_t \<Rightarrow> 'o state res" where
  "insert_large_chunk s X S =
     (let I = compute_tree_index S;
          H = treebin_at s I;
          s = set_index s X I;
          s = set_child s X 1 0;
          s = set_child s X 0 0
      in if \<not> treemap_is_marked s I
         then Inr (let s = mark_treemap s I;
                       s = wr s H X;
                       s = set_parent s X H;
                       s = set_bk s X X
                   in set_fd s X X)
         else let T = rd s H;
                  K = push_bit (leftshift_for_tree_index I) S
              in run_loop (insert_large_loop s X S T K))"

section \<open>Removal\<close>

text \<open>
  The \<open>while\<close> loop of \<open>unlink_large_chunk\<close>: descend to a leaf, preferring \<open>child[1]\<close>; the
  result is the cell that points to the leaf, and the leaf.
\<close>

partial_function (option) rightmost_leaf_loop ::
  "'o state \<Rightarrow> addr \<Rightarrow> addr \<Rightarrow> (addr \<times> addr) option"
where
  "rightmost_leaf_loop s RP R =
     (if rd s (child_slot R 1) \<noteq> 0
      then rightmost_leaf_loop s (child_slot R 1) (rd s (child_slot R 1))
      else if rd s (child_slot R 0) \<noteq> 0
      then rightmost_leaf_loop s (child_slot R 0) (rd s (child_slot R 0))
      else Some (RP, R))"

declare rightmost_leaf_loop.simps [code]

text \<open>The first half: the node \<open>R\<close> that takes the place of \<open>X\<close>, taken out of its own place.\<close>

definition unlink_large_replacement :: "'o state \<Rightarrow> addr \<Rightarrow> ('o state \<times> addr) res" where
  "unlink_large_replacement s X =
     (if bk s X \<noteq> X
      then (let F = fd s X;
                R = bk s X
            in if ok_address s F \<and> bk s F = X \<and> fd s R = X
               then Inr (set_fd (set_bk s F R) R F, R)
               else Inl CorruptionAbort)
      else (let RP = (if rd s (child_slot X 1) \<noteq> 0 then child_slot X 1 else child_slot X 0);
                R = rd s RP
            in if R \<noteq> 0
               then (case rightmost_leaf_loop s RP R of
                       None \<Rightarrow> Inl Diverges
                     | Some (RP, R) \<Rightarrow>
                         if ok_address s RP then Inr (wr s RP 0, R) else Inl CorruptionAbort)
               else Inr (s, R)))"

text \<open>The second half: relink the parent and the children of \<open>X\<close> to \<open>R\<close>.\<close>

definition unlink_large_relink :: "'o state \<Rightarrow> addr \<Rightarrow> addr \<Rightarrow> addr \<Rightarrow> 'o state res" where
  "unlink_large_relink s X XP R =
     (if XP = 0 then Inr s
      else let H = treebin_at s (index s X)
        in bindR
          (if X = rd s H
           then Inr (let s = wr s H R
                     in if R = 0 then clear_treemap s (index s X) else s)
           else if ok_address s XP
           then Inr (if child s XP 0 = X then set_child s XP 0 R else set_child s XP 1 R)
           else Inl CorruptionAbort)
        (\<lambda>s. if R = 0 then Inr s
          else if \<not> ok_address s R then Inl CorruptionAbort
          else let s = set_parent s R XP;
                   C0 = child s X 0
            in bindR
              (if C0 \<noteq> 0
               then if ok_address s C0
                    then Inr (set_parent (set_child s R 0 C0) C0 R)
                    else Inl CorruptionAbort
               else Inr s)
            (\<lambda>s. let C1 = child s X 1
              in if C1 \<noteq> 0
                 then if ok_address s C1
                      then Inr (set_parent (set_child s R 1 C1) C1 R)
                      else Inl CorruptionAbort
                 else Inr s)))"

definition unlink_large_chunk :: "'o state \<Rightarrow> addr \<Rightarrow> 'o state res" where
  "unlink_large_chunk s X =
     (let XP = parent s X
      in bindR (unlink_large_replacement s X) (\<lambda>(s, R). unlink_large_relink s X XP R))"

definition insert_chunk :: "'o state \<Rightarrow> addr \<Rightarrow> size_t \<Rightarrow> 'o state res" where
  "insert_chunk s P S =
     (if is_small S then insert_small_chunk s P S else insert_large_chunk s P S)"

definition unlink_chunk :: "'o state \<Rightarrow> addr \<Rightarrow> size_t \<Rightarrow> 'o state res" where
  "unlink_chunk s P S =
     (if is_small S then unlink_small_chunk s P S else unlink_large_chunk s P)"

section \<open>Searches\<close>

text \<open>
  The traversal of the bin of the request in \<open>tmalloc_large\<close>: \<open>v\<close> is the best chunk so far,
  \<open>rst\<close> the deepest right subtree not taken. The result is \<open>(t, v, rsize)\<close> at the \<open>break\<close>.
\<close>

partial_function (option) tmalloc_large_bin_loop ::
  "'o state \<Rightarrow> size_t \<Rightarrow> addr \<Rightarrow> size_t \<Rightarrow> addr \<Rightarrow> size_t \<Rightarrow> addr \<Rightarrow> (addr \<times> addr \<times> size_t) option"
where
  "tmalloc_large_bin_loop s nb t sizebits v rsize rst =
     (let trem = chunksize s t - nb
      in if trem < rsize \<and> trem = 0 then Some (t, t, trem)
         else let v = (if trem < rsize then t else v);
                  rsize = (if trem < rsize then trem else rsize);
                  rt = child s t 1;
                  t = child s t (drop_bit 63 sizebits AND 1);
                  rst = (if rt \<noteq> 0 \<and> rt \<noteq> t then rt else rst)
              in if t = 0 then Some (rst, v, rsize)
                 else tmalloc_large_bin_loop s nb t (push_bit 1 sizebits) v rsize rst)"

declare tmalloc_large_bin_loop.simps [code]

text \<open>The loops that "find smallest of tree or subtree".\<close>

partial_function (option) smallest_loop ::
  "'o state \<Rightarrow> size_t \<Rightarrow> addr \<Rightarrow> addr \<Rightarrow> size_t \<Rightarrow> (addr \<times> size_t) option"
where
  "smallest_loop s nb t v rsize =
     (if t = 0 then Some (v, rsize)
      else let trem = chunksize s t - nb
           in smallest_loop s nb (leftmost_child s t)
                (if trem < rsize then t else v) (if trem < rsize then trem else rsize))"

declare smallest_loop.simps [code]

text \<open>Which chunk \<open>tmalloc_large\<close> chooses, and the remainder a split would leave.\<close>

definition tmalloc_large_search :: "'o state \<Rightarrow> size_t \<Rightarrow> (addr \<times> size_t) option" where
  "tmalloc_large_search s nb =
     (let v = 0;
          rsize = - nb;
          idx = compute_tree_index nb;
          t = rd s (treebin_at s idx)
      in Option.bind
          (if t \<noteq> 0
           then tmalloc_large_bin_loop s nb t (push_bit (leftshift_for_tree_index idx) nb)
                  v rsize 0
           else Some (t, v, rsize))
        (\<lambda>(t, v, rsize).
          let t = (if t = 0 \<and> v = 0
                   then let leftbits = left_bits (idx2bit idx) AND treemap s
                        in if leftbits \<noteq> 0
                           then rd s (treebin_at s (compute_bit2idx (least_bit leftbits)))
                           else t
                   else t)
          in smallest_loop s nb t v rsize))"

definition tmalloc_large :: "'o state \<Rightarrow> size_t \<Rightarrow> ('o state \<times> addr) res" where
  "tmalloc_large s nb =
     (case tmalloc_large_search s nb of
        None \<Rightarrow> Inl Diverges
      | Some (v, rsize) \<Rightarrow>
          if v \<noteq> 0 \<and> rsize < dvsize s - nb
          then if ok_address s v
               then let r = chunk_plus_offset v nb
                 in if ok_next v r
                    then bindR (unlink_large_chunk s v) (\<lambda>s.
                        bindR
                          (if rsize < MIN_CHUNK_SIZE
                           then Inr (set_inuse_and_pinuse s v (rsize + nb))
                           else let s = set_size_and_pinuse_of_inuse_chunk s v nb;
                                    s = set_size_and_pinuse_of_free_chunk s r rsize
                                in insert_chunk s r rsize)
                        (\<lambda>s. Inr (s, chunk2mem v)))
                    else Inl CorruptionAbort
               else Inl CorruptionAbort
          else Inr (s, 0))"

definition tmalloc_small_search :: "'o state \<Rightarrow> size_t \<Rightarrow> (addr \<times> size_t) option" where
  "tmalloc_small_search s nb =
     (let i = compute_bit2idx (least_bit (treemap s));
          t = rd s (treebin_at s i)
      in smallest_loop s nb (leftmost_child s t) t (chunksize s t - nb))"

definition tmalloc_small :: "'o state \<Rightarrow> size_t \<Rightarrow> ('o state \<times> addr) res" where
  "tmalloc_small s nb =
     (case tmalloc_small_search s nb of
        None \<Rightarrow> Inl Diverges
      | Some (v, rsize) \<Rightarrow>
          if ok_address s v
          then let r = chunk_plus_offset v nb
            in if ok_next v r
               then bindR (unlink_large_chunk s v) (\<lambda>s.
                   bindR
                     (if rsize < MIN_CHUNK_SIZE
                      then Inr (set_inuse_and_pinuse s v (rsize + nb))
                      else let s = set_size_and_pinuse_of_inuse_chunk s v nb;
                               s = set_size_and_pinuse_of_free_chunk s r rsize
                           in replace_dv s r rsize)
                   (\<lambda>s. Inr (s, chunk2mem v)))
               else Inl CorruptionAbort
          else Inl CorruptionAbort)"

end
