(* ===== verification/DL_TreeRep.thy ===== *)
theory DL_TreeRep
  imports DL_TreeBins
begin

text \<open>
  What the tree bins of src/src/dlmalloc.c represent. A tree bin is a trie: a node holds a
  circular list of chunks of one size, and its children hold sizes that differ at the next bit.
  The predicate \<open>tree_in\<close> says that the cells of memory represent such a tree; the lemmas refine
  \<open>insert_large_chunk\<close> and \<open>unlink_large_chunk\<close> to operations on the tree.
\<close>

section \<open>Trees of chunks\<close>

text \<open>
  A node has its first chunk (the one with parent and children), the rest of the list of chunks
  of its size in the order of \<open>fd\<close>, the size, and \<open>child[0]\<close> and \<open>child[1]\<close>.
\<close>

datatype trie = Tip | Node addr "addr list" size_t trie trie

fun nodes :: "trie \<Rightarrow> addr list" where
  "nodes Tip = []"
| "nodes (Node p ch z l r) = p # ch @ nodes l @ nodes r"

fun sizes :: "trie \<Rightarrow> size_t set" where
  "sizes Tip = {}"
| "sizes (Node p ch z l r) = insert z (sizes l \<union> sizes r)"

section \<open>Cells of tree chunks\<close>

text \<open>The fields of a tree chunk but for \<open>prev_foot\<close>, which belongs to the chunk before.\<close>

definition offs :: "addr set" where "offs = {8, 16, 24, 32, 40, 48, 56}"

definition cells :: "addr \<Rightarrow> addr set" where "cells p = (+) p ` offs"

definition cells_of :: "addr set \<Rightarrow> addr set" where "cells_of N = (\<Union>p\<in>N. cells p)"

definition sep :: "addr set \<Rightarrow> bool" where
  "sep N \<longleftrightarrow> (\<forall>p\<in>N. \<forall>q\<in>N. p \<noteq> q \<longrightarrow> cells p \<inter> cells q = {})"

lemma sep_subset: "sep N \<Longrightarrow> M \<subseteq> N \<Longrightarrow> sep M"
  by (auto simp: sep_def)

lemma sep_offs:
  "sep N \<Longrightarrow> p \<in> N \<Longrightarrow> q \<in> N \<Longrightarrow> a \<in> offs \<Longrightarrow> b \<in> offs \<Longrightarrow> p + a = q + b \<longleftrightarrow> p = q \<and> a = b"
  by (fastforce simp: sep_def cells_def)

lemma cells_in:
  "p + 8 \<in> cells p" "p + 16 \<in> cells p" "p + 24 \<in> cells p" "p + 32 \<in> cells p"
  "p + 40 \<in> cells p" "p + 48 \<in> cells p" "p + 56 \<in> cells p"
  by (auto simp: cells_def offs_def)

lemma child_slots [simp]: "child_slot p 0 = p + 32" "child_slot p 1 = p + 40"
  by (simp_all add: child_slot_def)

lemma cells_ofI: "p \<in> N \<Longrightarrow> a \<in> cells p \<Longrightarrow> a \<in> cells_of N"
  by (auto simp: cells_of_def)

lemma cells_of_Un [simp]: "cells_of (M \<union> N) = cells_of M \<union> cells_of N"
  by (auto simp: cells_of_def)

lemma cells_of_insert [simp]: "cells_of (insert p N) = cells p \<union> cells_of N"
  by (auto simp: cells_of_def)

lemma cells_of_empty [simp]: "cells_of {} = {}"
  by (simp add: cells_of_def)

lemma cells_of_mono: "M \<subseteq> N \<Longrightarrow> cells_of M \<subseteq> cells_of N"
  by (auto simp: cells_of_def)

lemma sep_disjoint:
  "sep N \<Longrightarrow> A \<subseteq> N \<Longrightarrow> B \<subseteq> N \<Longrightarrow> A \<inter> B = {} \<Longrightarrow> cells_of A \<inter> cells_of B = {}"
  by (auto simp: cells_of_def sep_def) (metis disjoint_iff subsetD)

text \<open>
  The links of a tree chunk: its cells without the head. The operations on trees write them only.
\<close>

definition body :: "addr \<Rightarrow> addr set" where "body p = (+) p ` {16, 24, 32, 40, 48, 56}"

definition body_of :: "addr set \<Rightarrow> addr set" where "body_of N = (\<Union>p\<in>N. body p)"

lemma body_in:
  "p + 16 \<in> body p" "p + 24 \<in> body p" "p + 32 \<in> body p" "p + 40 \<in> body p" "p + 48 \<in> body p"
  "p + 56 \<in> body p"
  by (auto simp: body_def)

lemma body_cells: "body p \<subseteq> cells p" "body_of N \<subseteq> cells_of N"
  by (auto simp: body_def body_of_def cells_of_def cells_def offs_def)

lemma not_in_body: "a \<notin> cells p \<Longrightarrow> a \<notin> body p" "a \<notin> cells_of N \<Longrightarrow> a \<notin> body_of N"
  using body_cells by blast+

lemma body_ofI: "p \<in> N \<Longrightarrow> a \<in> body p \<Longrightarrow> a \<in> body_of N"
  by (auto simp: body_of_def)

lemma body_of_simps [simp]:
  "body_of (M \<union> N) = body_of M \<union> body_of N" "body_of (insert p N) = body p \<union> body_of N" "body_of {} = {}"
  by (auto simp: body_of_def)

lemma body_of_mono: "M \<subseteq> N \<Longrightarrow> body_of M \<subseteq> body_of N"
  by (auto simp: body_of_def)

text \<open>States that differ in some memory cells only.\<close>

definition changes_mem :: "addr set \<Rightarrow> 'o state \<Rightarrow> 'o state \<Rightarrow> bool" where
  "changes_mem A s s' \<longleftrightarrow> s' = s\<lparr>mem := mem s'\<rparr> \<and> (\<forall>a. a \<notin> A \<longrightarrow> rd s' a = rd s a)"

lemma changes_mem_refl: "changes_mem A s s"
  by (simp add: changes_mem_def)

lemma changes_mem_wr: "changes_mem A s s' \<Longrightarrow> a \<in> A \<Longrightarrow> changes_mem A s (wr s' a v)"
  by (cases s, cases s') (auto simp: changes_mem_def wr_def rd_def)

lemma changes_mem_mono: "changes_mem A s s' \<Longrightarrow> A \<subseteq> B \<Longrightarrow> changes_mem B s s'"
  by (auto simp: changes_mem_def)

lemma changes_mem_trans: "changes_mem A s s' \<Longrightarrow> changes_mem A s' s'' \<Longrightarrow> changes_mem A s s''"
  by (cases s, cases s', cases s'') (auto simp: changes_mem_def)

lemma changes_memD: "changes_mem A s s' \<Longrightarrow> a \<notin> A \<Longrightarrow> rd s' a = rd s a"
  by (simp add: changes_mem_def)

lemma changes_mem_fields:
  assumes "changes_mem A s s'"
  shows "maddr s' = maddr s" "least_addr s' = least_addr s" "treemap s' = treemap s"
    "smallmap s' = smallmap s"
proof -
  have s': "s' = s\<lparr>mem := mem s'\<rparr>" using assms by (simp add: changes_mem_def)
  show "maddr s' = maddr s" using arg_cong [OF s', of maddr] by simp
  show "least_addr s' = least_addr s" using arg_cong [OF s', of least_addr] by simp
  show "treemap s' = treemap s" using arg_cong [OF s', of treemap] by simp
  show "smallmap s' = smallmap s" using arg_cong [OF s', of smallmap] by simp
qed

section \<open>Trees in memory\<close>

text \<open>What every chunk of a node of size \<open>z\<close> in bin \<open>i\<close> satisfies, and the ones after the first.\<close>

definition tchunk_ok :: "'o state \<Rightarrow> u32 \<Rightarrow> size_t \<Rightarrow> addr \<Rightarrow> bool" where
  "tchunk_ok s i z q \<longleftrightarrow>
     q \<noteq> 0 \<and> q \<le> q + 56 \<and> chunksize s q = z \<and> index s q = i \<and> ok_address s q"

definition chained_ok :: "'o state \<Rightarrow> addr \<Rightarrow> bool" where
  "chained_ok s q \<longleftrightarrow> parent s q = 0 \<and> child s q 0 = 0 \<and> child s q 1 = 0"

definition node_ok ::
  "'o state \<Rightarrow> u32 \<Rightarrow> addr \<Rightarrow> addr \<Rightarrow> addr \<Rightarrow> addr list \<Rightarrow> size_t \<Rightarrow> bool" where
  "node_ok s i par slot p ch z \<longleftrightarrow>
     rd s slot = p \<and> parent s p = par \<and> linked s p ch p
     \<and> (\<forall>q\<in>set (p # ch). tchunk_ok s i z q) \<and> (\<forall>q\<in>set ch. chained_ok s q)"

text \<open>
  \<open>tree_in s i par slot t\<close>: the cell \<open>slot\<close> points to the tree \<open>t\<close> of bin \<open>i\<close>, whose root has
  the parent \<open>par\<close>.
\<close>

fun tree_in :: "'o state \<Rightarrow> u32 \<Rightarrow> addr \<Rightarrow> addr \<Rightarrow> trie \<Rightarrow> bool" where
  "tree_in s i par slot Tip \<longleftrightarrow> rd s slot = 0"
| "tree_in s i par slot (Node p ch z l r) \<longleftrightarrow>
     node_ok s i par slot p ch z \<and> tree_in s i p (p + 32) l \<and> tree_in s i p (p + 40) r"

lemma fields_cong:
  assumes "\<And>a. a \<in> cells q \<Longrightarrow> rd s' a = rd s a"
  shows "fd s' q = fd s q" "bk s' q = bk s q" "parent s' q = parent s q" "child s' q 0 = child s q 0"
    "child s' q 1 = child s q 1" "chunksize s' q = chunksize s q" "index s' q = index s q"
    "rd s' (q + 32) = rd s (q + 32)" "rd s' (q + 40) = rd s (q + 40)"
  using assms cells_in [of q]
  by (simp_all add: fd_def bk_def parent_def child_def chunksize_def head_def index_def rd32_def)

lemma tchunk_ok_cong:
  assumes "\<And>a. a \<in> cells q \<Longrightarrow> rd s' a = rd s a" "least_addr s' = least_addr s"
  shows "tchunk_ok s' i z q = tchunk_ok s i z q" "chained_ok s' q = chained_ok s q"
  using fields_cong [OF assms(1)] assms(2) by (simp_all add: tchunk_ok_def chained_ok_def ok_address_def)

lemma node_fields_cong:
  assumes "\<And>a. a \<in> {8, 16, 24, 48, 56} \<Longrightarrow> rd s' (q + a) = rd s (q + a)"
    "least_addr s' = least_addr s"
  shows "fd s' q = fd s q" "bk s' q = bk s q" "parent s' q = parent s q"
    "tchunk_ok s' i z q = tchunk_ok s i z q"
  using assms
  by (simp_all add: fd_def bk_def parent_def tchunk_ok_def chunksize_def head_def index_def
      rd32_def ok_address_def)

lemma node_ok_cong:
  assumes slot: "rd s' slot = rd s slot" and la: "least_addr s' = least_addr s"
    and p: "\<And>a. a \<in> {8, 16, 24, 48, 56} \<Longrightarrow> rd s' (p + a) = rd s (p + a)"
    and ch: "\<And>a. a \<in> cells_of (set ch) \<Longrightarrow> rd s' a = rd s a"
  shows "node_ok s' i par slot p ch z \<longleftrightarrow> node_ok s i par slot p ch z"
proof -
  have c: "rd s' a = rd s a" if "q \<in> set ch" "a \<in> cells q" for q a
    using ch [of a] that by (auto simp: cells_of_def)
  note P = node_fields_cong [OF p la]
  have C: "fd s' q = fd s q" "bk s' q = bk s q" "tchunk_ok s' i z q = tchunk_ok s i z q"
    "chained_ok s' q = chained_ok s q" if "q \<in> set ch" for q
    using fields_cong [OF c [OF that]] tchunk_ok_cong [OF c [OF that] la] by blast+
  have "linked s' p ch p \<longleftrightarrow> linked s p ch p"
    by (rule linked_cong) (use P C in auto)
  then show ?thesis using slot P C by (simp add: node_ok_def)
qed

lemma tree_in_cong:
  assumes "rd s' slot = rd s slot" "least_addr s' = least_addr s"
    and "\<And>a. a \<in> cells_of (set (nodes t)) \<Longrightarrow> rd s' a = rd s a"
  shows "tree_in s' i par slot t \<longleftrightarrow> tree_in s i par slot t"
  using assms
proof (induction t arbitrary: par slot)
  case Tip
  then show ?case by simp
next
  case (Node p ch z l r)
  have p: "rd s' a = rd s a" if "a \<in> cells p" for a using Node.prems(3) that by simp
  have "node_ok s' i par slot p ch z \<longleftrightarrow> node_ok s i par slot p ch z"
  proof (rule node_ok_cong)
    show "rd s' (p + a) = rd s (p + a)" if "a \<in> {8, 16, 24, 48, 56}" for a
      using p cells_in [of p] that by auto
  qed (use Node.prems in auto)
  moreover have "tree_in s' i p (p + 32) l \<longleftrightarrow> tree_in s i p (p + 32) l"
    by (rule Node.IH(1)) (use p cells_in [of p] Node.prems(2,3) in auto)
  moreover have "tree_in s' i p (p + 40) r \<longleftrightarrow> tree_in s i p (p + 40) r"
    by (rule Node.IH(2)) (use p cells_in [of p] Node.prems(2,3) in auto)
  ultimately show ?case by simp
qed

lemma node_okD:
  assumes "node_ok s i par slot p ch z"
  shows "rd s slot = p" "p \<noteq> 0" "parent s p = par" "linked s p ch p" "chunksize s p = z"
    "index s p = i" "ok_address s p" "p \<le> p + 56"
  using assms by (auto simp: node_ok_def tchunk_ok_def)

lemma tree_in_root: "tree_in s i par slot t \<Longrightarrow> rd s slot = 0 \<longleftrightarrow> t = Tip"
  by (cases t) (auto simp: node_ok_def tchunk_ok_def)

section \<open>Insertion\<close>

fun tinsert :: "addr \<Rightarrow> size_t \<Rightarrow> size_t \<Rightarrow> trie \<Rightarrow> trie" where
  "tinsert X S K Tip = Node X [] S Tip Tip"
| "tinsert X S K (Node p ch z l r) =
     (if z \<noteq> S
      then if bit K 63 then Node p ch z l (tinsert X S (push_bit 1 K) r)
           else Node p ch z (tinsert X S (push_bit 1 K) l) r
      else Node p (X # ch) z l r)"

lemma set_nodes_tinsert: "set (nodes (tinsert X S K t)) = insert X (set (nodes t))"
  by (induction t arbitrary: K) auto

lemma distinct_nodes_tinsert:
  "distinct (nodes t) \<Longrightarrow> X \<notin> set (nodes t) \<Longrightarrow> distinct (nodes (tinsert X S K t))"
  by (induction t arbitrary: K) (auto simp: set_nodes_tinsert)

lemma sizes_tinsert: "sizes (tinsert X S K t) = insert S (sizes t)"
  by (induction t arbitrary: K) auto

lemma child_choice: "child_slot p (drop_bit 63 K AND 1) = (if bit K 63 then p + 40 else p + 32)"
proof -
  have "drop_bit 63 K AND 1 = (if bit K 63 then 1 else 0 :: size_t)"
    by (rule bit_word_eqI) (auto simp: bit_simps intro: gr0I)
  then show ?thesis by simp
qed

lemma sep_apart: "sep N \<Longrightarrow> apart N"
  unfolding apart_def
proof
  fix p
  assume s: "sep N" and p: "p \<in> N"
  show "p + 8 \<notin> N"
  proof
    assume q: "p + 8 \<in> N"
    have "p + 8 + 8 = p + 16" by simp
    then show False using sep_offs [OF s q p, of 8 16] by (simp add: offs_def)
  qed
qed


lemma wr_swap: "a \<noteq> b \<Longrightarrow> wr (wr s a v) b w = wr (wr s b w) a v"
  by (simp add: wr_def fun_upd_twist)

text \<open>A new leaf in an empty slot of \<open>p\<close>.\<close>

lemma insert_at_slot:
  fixes p :: addr
  assumes tip: "rd s C = 0" and X: "tchunk_ok s i S X" "child s X 0 = 0" "child s X 1 = 0"
    and C: "C \<notin> cells X"
  defines "s' \<equiv> set_fd (set_bk (set_parent (wr s C X) X p) X X) X X"
  shows "tree_in s' i p C (Node X [] S Tip Tip)" "changes_mem (insert C (body X)) s s'"
proof -
  have n: "C \<noteq> X + 8" "C \<noteq> X + 16" "C \<noteq> X + 24" "C \<noteq> X + 32" "C \<noteq> X + 40" "C \<noteq> X + 48" "C \<noteq> X + 56"
    using C cells_in [of X] by auto
  have la: "least_addr s' = least_addr s"
    by (simp add: s'_def set_fd_def set_bk_def set_parent_def dl_mem)
  note defs = s'_def set_fd_def set_bk_def set_parent_def rd_wr
  have r: "rd s' C = X" "rd s' (X + 16) = X" "rd s' (X + 24) = X" "rd s' (X + 48) = p"
    "rd s' (X + 8) = rd s (X + 8)" "rd s' (X + 56) = rd s (X + 56)"
    "rd s' (X + 32) = rd s (X + 32)" "rd s' (X + 40) = rd s (X + 40)"
    using n by (simp_all add: defs)
  show "tree_in s' i p C (Node X [] S Tip Tip)"
    using X r la
    by (simp add: node_ok_def tchunk_ok_def fd_def bk_def parent_def chunksize_def head_def
        index_def rd32_def ok_address_def child_def)
  show "changes_mem (insert C (body X)) s s'"
    unfolding s'_def set_fd_def set_bk_def set_parent_def
    using body_in [of X] by (intro changes_mem_wr changes_mem_refl) auto
qed

text \<open>A new chunk of the size of node \<open>p\<close>, just after its first chunk.\<close>

lemma insert_in_chain:
  assumes ok: "node_ok s i par slot p ch z" and X: "tchunk_ok s i z X" "child s X 0 = 0" "child s X 1 = 0"
    and d: "distinct (X # p # ch)" and sep: "sep (set (X # p # ch))"
    and slot: "slot \<notin> cells_of (set (X # p # ch))"
  defines "F \<equiv> fd s p"
  defines "s' \<equiv> set_parent (set_bk (set_fd (set_fd (set_bk s F X) p X) X F) X p) X 0"
  shows "node_ok s' i par slot p (X # ch) z" "F \<in> set (p # ch)"
    "changes_mem ((\<Union>q\<in>set (p # ch). {q + 16, q + 24}) \<union> body X) s s'"
proof -
  let ?N = "set (X # p # ch)"
  have l: "linked s p ch p" using ok by (simp add: node_ok_def)
  have F: "F = hd (ch @ [p])" using linked_fd_first [OF l] by (simp add: F_def)
  then show FN: "F \<in> set (p # ch)" by (cases ch) auto
  note S = sep_offs [OF sep]
  have o: "8 \<in> offs" "16 \<in> offs" "24 \<in> offs" "32 \<in> offs" "40 \<in> offs" "48 \<in> offs" "56 \<in> offs"
    by (simp_all add: offs_def)
  let ?t = "set_bk (set_fd (set_bk (set_fd s p X) F X) X F) X p"
  have "F + 24 \<noteq> p + 16" using S [of F p 24 16] FN o by simp
  then have s't: "s' = set_parent ?t X 0"
    by (simp add: s'_def set_fd_def set_bk_def wr_swap [of "F + 24" "p + 16"])
  have lt: "linked ?t p (X # ch) p"
    by (rule linked_insert_front) (use l d F sep_apart [OF sep] in auto)
  have w: "rd s' a = rd ?t a" if "a \<noteq> X + 48" for a
    using that by (simp add: s't set_parent_def rd_wr)
  have ls: "linked s' p (X # ch) p"
  proof (subst linked_cong)
    show "fd s' q = fd ?t q" if "q \<in> set (p # X # ch)" for q
    proof -
      have "q + 16 \<noteq> X + 48" using S [of q X 16 48] that o by auto
      then show ?thesis unfolding fd_def by (rule w)
    qed
    show "bk s' q = bk ?t q" if "q \<in> set ((X # ch) @ [p])" for q
    proof -
      have "q + 24 \<noteq> X + 48" using S [of q X 24 48] that o by auto
      then show ?thesis unfolding bk_def by (rule w)
    qed
  qed (rule lt)
  show ch: "changes_mem ((\<Union>q\<in>set (p # ch). {q + 16, q + 24}) \<union> body X) s s'"
    unfolding s'_def set_fd_def set_bk_def set_parent_def
    using FN body_in [of X] by (intro changes_mem_wr changes_mem_refl) auto
  have keep: "rd s' (q + a) = rd s (q + a)"
    if "q \<in> ?N" "a \<in> offs" "a \<noteq> 16" "a \<noteq> 24" "q \<noteq> X \<or> a \<noteq> 48" for q a
  proof -
    have "q + a \<noteq> X + 48" "q + a \<noteq> X + 24" "q + a \<noteq> X + 16" "q + a \<noteq> F + 24" "q + a \<noteq> p + 16"
      using S [of q X a 48] S [of q X a 24] S [of q X a 16] S [of q F a 24] S [of q p a 16]
        that o FN by auto
    then show ?thesis by (simp add: s'_def set_fd_def set_bk_def set_parent_def rd_wr)
  qed
  have la: "least_addr s' = least_addr s" using changes_mem_fields [OF ch] by simp
  have K: "chunksize s' q = chunksize s q" "index s' q = index s q" "ok_address s' q = ok_address s q"
    "child s' q 0 = child s q 0" "child s' q 1 = child s q 1" if "q \<in> ?N" for q
    using keep [OF that] o la
    by (simp_all add: chunksize_def head_def index_def rd32_def child_def ok_address_def)
  have par: "parent s' X = 0" by (simp add: s'_def set_parent_def parent_def rd_wr)
  have par': "parent s' q = parent s q" if "q \<in> set (p # ch)" for q
    using keep [of q 48] d that o by (auto simp: parent_def)
  have "rd s' slot = rd s slot"
  proof (rule changes_memD [OF ch])
    show "slot \<notin> (\<Union>q\<in>set (p # ch). {q + 16, q + 24}) \<union> body X"
      using slot cells_in body_cells(1) [of X] by (auto simp: cells_of_def)
  qed
  then show "node_ok s' i par slot p (X # ch) z"
    using ok X K par par' ls by (auto simp: node_ok_def tchunk_ok_def chained_ok_def)
qed


text \<open>A change confined to one subtree (and the cell that points to it).\<close>

lemma tree_in_change_child:
  assumes t: "tree_in s i par slot (Node p ch z l r)" and A: "changes_mem A s s'"
    and slot: "slot \<notin> A" and p: "A \<inter> {p + 8, p + 16, p + 24, p + 48, p + 56} = {}"
    and ch: "A \<inter> cells_of (set ch) = {}"
  shows "tree_in s' i p (p + 40) r' \<Longrightarrow> p + 32 \<notin> A \<Longrightarrow> A \<inter> cells_of (set (nodes l)) = {}
      \<Longrightarrow> tree_in s' i par slot (Node p ch z l r')"
    "tree_in s' i p (p + 32) l' \<Longrightarrow> p + 40 \<notin> A \<Longrightarrow> A \<inter> cells_of (set (nodes r)) = {}
      \<Longrightarrow> tree_in s' i par slot (Node p ch z l' r)"
proof -
  note D = changes_memD [OF A] and la = changes_mem_fields(2) [OF A]
  have n: "node_ok s' i par slot p ch z"
  proof (subst node_ok_cong [OF D [OF slot] la])
    show "rd s' (p + a) = rd s (p + a)" if "a \<in> {8, 16, 24, 48, 56}" for a
      by (rule D) (use that p in auto)
    show "rd s' a = rd s a" if "a \<in> cells_of (set ch)" for a
      by (rule D) (use that ch in auto)
  qed (use t in simp)
  have k: "tree_in s' i p c u \<longleftrightarrow> tree_in s i p c u"
    if "c \<notin> A" "A \<inter> cells_of (set (nodes u)) = {}" for c u
    by (rule tree_in_cong [OF D [OF that(1)] la], rule D) (use that(2) in auto)
  show "tree_in s' i p (p + 40) r' \<Longrightarrow> p + 32 \<notin> A \<Longrightarrow> A \<inter> cells_of (set (nodes l)) = {}
      \<Longrightarrow> tree_in s' i par slot (Node p ch z l r')"
    using n k [of "p + 32" l] t by simp
  show "tree_in s' i p (p + 32) l' \<Longrightarrow> p + 40 \<notin> A \<Longrightarrow> A \<inter> cells_of (set (nodes r)) = {}
      \<Longrightarrow> tree_in s' i par slot (Node p ch z l' r)"
    using n k [of "p + 40" r] t by simp
qed

text \<open>The cells a change below \<open>p\<close> may touch are not the other cells of the tree.\<close>

lemma child_cells:
  assumes sep: "sep (insert p (set ch \<union> M \<union> N))" and C: "C = p + 32 \<or> C = p + 40"
    and d: "p \<notin> set ch \<union> M \<union> N" "set ch \<inter> (M \<union> N) = {}" "M \<inter> N = {}"
  defines "A \<equiv> insert C (cells_of N)"
  shows "A \<inter> {p + 8, p + 16, p + 24, p + 48, p + 56} = {}" "A \<inter> cells_of (set ch) = {}"
    "A \<inter> cells_of M = {}" "A \<subseteq> cells_of (insert p (set ch \<union> M \<union> N))"
    "C = p + 32 \<Longrightarrow> p + 40 \<notin> A" "C = p + 40 \<Longrightarrow> p + 32 \<notin> A" "C \<notin> cells_of N"
proof -
  have Cp: "C \<in> cells p" using C cells_in by auto
  have 1: "cells p \<inter> cells_of N = {}" using sep_disjoint [OF sep, of "{p}" N] d by auto
  have 2: "cells_of (set ch) \<inter> cells_of (insert p N) = {}"
    using sep_disjoint [OF sep, of "set ch" "insert p N"] d by auto
  have 3: "cells_of M \<inter> cells_of (insert p N) = {}"
    using sep_disjoint [OF sep, of M "insert p N"] d by auto
  show "A \<inter> {p + 8, p + 16, p + 24, p + 48, p + 56} = {}"
    using 1 cells_in [of p] C unfolding A_def by auto
  show "A \<inter> cells_of (set ch) = {}" using 2 Cp unfolding A_def by auto
  show "A \<inter> cells_of M = {}" using 3 Cp unfolding A_def by auto
  show "A \<subseteq> cells_of (insert p (set ch \<union> M \<union> N))" using Cp unfolding A_def by auto
  show "C = p + 32 \<Longrightarrow> p + 40 \<notin> A" "C = p + 40 \<Longrightarrow> p + 32 \<notin> A"
    using 1 cells_in [of p] unfolding A_def by auto
  show "C \<notin> cells_of N" using 1 Cp by blast
qed

lemma insert_loop_chain:
  assumes t: "tree_in s i par slot (Node p ch z l r)"
    and X: "tchunk_ok s i z X" "child s X 0 = 0" "child s X 1 = 0"
      "distinct (X # nodes (Node p ch z l r))"
    and sep: "sep (insert X (set (nodes (Node p ch z l r))))"
    and slot: "slot \<notin> cells_of (insert X (set (nodes (Node p ch z l r))))"
  shows "\<exists>s'. insert_large_loop s X z (rd s slot) K = Some (Inr s')
    \<and> tree_in s' i par slot (tinsert X z K (Node p ch z l r))
    \<and> changes_mem (body_of (insert X (set (nodes (Node p ch z l r))))) s s'"
proof -
  let ?U = "insert X (set (nodes (Node p ch z l r)))"
  have nok: "node_ok s i par slot p ch z" using t by simp
  note N = node_okD [OF nok]
  define F where "F = fd s p"
  define s' where "s' = set_parent (set_bk (set_fd (set_fd (set_bk s F X) p X) X F) X p) X 0"
  let ?A = "(\<Union>q\<in>set (p # ch). {q + 16, q + 24}) \<union> body X"
  have "distinct (X # p # ch)" using X(4) by auto
  moreover have "sep (set (X # p # ch))" by (rule sep_subset [OF sep]) auto
  moreover have "slot \<notin> cells_of (set (X # p # ch))" using slot by auto
  ultimately have U: "node_ok s' i par slot p (X # ch) z" "F \<in> set (p # ch)" "changes_mem ?A s s'"
    unfolding s'_def F_def by (rule insert_in_chain [OF nok X(1-3)])+
  have okF: "ok_address s F" using nok U(2) by (auto simp: node_ok_def tchunk_ok_def)
  have run: "insert_large_loop s X z (rd s slot) K = Some (Inr s')"
    using N okF by (subst insert_large_loop.simps) (simp add: Let_def s'_def F_def)
  have subb: "?A \<subseteq> body_of (set (X # p # ch))" using body_in by (auto simp: body_of_def)
  then have sub: "?A \<subseteq> cells_of (set (X # p # ch))" using body_cells(2) by (rule order_trans)
  have cl: "tree_in s' i p (p + a) u \<longleftrightarrow> tree_in s i p (p + a) u"
    if u: "u = l \<or> u = r" and a: "a = 32 \<or> a = 40" for u a
  proof (rule tree_in_cong)
    show "least_addr s' = least_addr s" using changes_mem_fields [OF U(3)] by simp
    have "p + a \<notin> ?A"
    proof
      assume "p + a \<in> ?A"
      then obtain q b where "q \<in> set (X # p # ch)" "b \<in> offs" "p + a = q + b"
        "q = p \<Longrightarrow> b \<in> {16, 24}"
        using X(4) by (auto simp: body_def offs_def)
      then show False using sep_offs [OF sep, of p q a b] a by (auto simp: offs_def)
    qed
    then show "rd s' (p + a) = rd s (p + a)" by (rule changes_memD [OF U(3)])
    have "cells_of (set (nodes u)) \<inter> cells_of (set (X # p # ch)) = {}"
      by (rule sep_disjoint [OF sep]) (use u X(4) in auto)
    then show "rd s' b = rd s b" if "b \<in> cells_of (set (nodes u))" for b
      using that sub by (intro changes_memD [OF U(3)]) blast
  qed
  have "tree_in s' i par slot (tinsert X z K (Node p ch z l r))"
    using U(1) cl [of l 32] cl [of r 40] t by simp
  moreover have "changes_mem (body_of ?U) s s'"
    by (rule changes_mem_mono [OF U(3)]) (use subb in auto)
  ultimately show ?thesis using run by blast
qed

lemma insert_large_loop_tree:
  assumes "tree_in s i par slot t" "t \<noteq> Tip"
    and X: "tchunk_ok s i S X" "child s X 0 = 0" "child s X 1 = 0"
    and "distinct (nodes t)" "X \<notin> set (nodes t)" "sep (insert X (set (nodes t)))"
    and "slot \<notin> cells_of (insert X (set (nodes t)))"
  shows "\<exists>s'. insert_large_loop s X S (rd s slot) K = Some (Inr s')
    \<and> tree_in s' i par slot (tinsert X S K t) \<and> changes_mem (body_of (insert X (set (nodes t)))) s s'"
  using assms
proof (induction t arbitrary: par slot K)
  case Tip
  then show ?case by simp
next
  case (Node p ch z l r)
  note t = Node.prems(1) and sep = Node.prems(8) and slot = Node.prems(9)
  have d: "X \<noteq> p" "X \<notin> set ch" "X \<notin> set (nodes l)" "X \<notin> set (nodes r)" "p \<notin> set ch"
    "p \<notin> set (nodes l)" "p \<notin> set (nodes r)" "set ch \<inter> set (nodes l) = {}"
    "set ch \<inter> set (nodes r) = {}" "set (nodes l) \<inter> set (nodes r) = {}" "distinct ch"
    using Node.prems(6,7) by auto
  have nok: "node_ok s i par slot p ch z" using t by simp
  note N = node_okD [OF nok]
  show ?case
  proof (cases "z = S")
    case True
    have "distinct (X # nodes (Node p ch z l r))" using Node.prems(6,7) by simp
    from insert_loop_chain [OF t _ _ _ this sep slot, of K] X True show ?thesis by simp
  next
    case False
    define C where "C = (if bit K 63 then p + 40 else p + 32)"
    define c where "c = (if bit K 63 then r else l)"
    define u where "u = (if bit K 63 then l else r)"
    let ?A = "insert C (cells_of (insert X (set (nodes c))))"
    let ?B = "insert C (body_of (insert X (set (nodes c))))"
    have tc: "tree_in s i p C c" using t by (simp add: C_def c_def)
    have sepU: "sep (insert p (set ch \<union> set (nodes u) \<union> insert X (set (nodes c))))"
      by (rule sep_subset [OF sep]) (auto simp: u_def c_def)
    have C: "C = p + 32 \<or> C = p + 40" by (simp add: C_def)
    have dd: "p \<notin> set ch \<union> set (nodes u) \<union> insert X (set (nodes c))"
      "set ch \<inter> (set (nodes u) \<union> insert X (set (nodes c))) = {}"
      "set (nodes u) \<inter> insert X (set (nodes c)) = {}"
      using d by (auto simp: u_def c_def)
    note cc = child_cells [OF sepU C dd]
    have okC: "ok_address s C"
      using N(7) word_plus_mono_right2 [OF N(8), of 40] word_plus_mono_right2 [OF N(8), of 32]
      by (auto simp: ok_address_def C_def)
    have step: "insert_large_loop s X S (rd s slot) K
        = (if rd s C \<noteq> 0 then insert_large_loop s X S (rd s C) (push_bit 1 K)
           else Some (Inr (set_fd (set_bk (set_parent (wr s C X) X p) X X) X X)))"
      using N False okC
      by (subst insert_large_loop.simps) (simp add: Let_def child_choice flip: C_def)
    note CnX = cc(7)
    have "\<exists>s'. insert_large_loop s X S (rd s slot) K = Some (Inr s')
      \<and> tree_in s' i p C (tinsert X S (push_bit 1 K) c) \<and> changes_mem ?B s s'"
    proof (cases "c = Tip")
      case True
      define s' where "s' = set_fd (set_bk (set_parent (wr s C X) X p) X X) X X"
      have "rd s C = 0" using tc True by simp
      note I = insert_at_slot [OF this X, of p, folded s'_def]
      have "C \<notin> cells X" using CnX by simp
      note I = I [OF this]
      show ?thesis using step I \<open>rd s C = 0\<close> True by (auto simp: s'_def)
    next
      case nt: False
      have sepc: "sep (insert X (set (nodes c)))" by (rule sep_subset [OF sepU]) auto
      have "\<exists>s'. insert_large_loop s X S (rd s C) (push_bit 1 K) = Some (Inr s')
        \<and> tree_in s' i p C (tinsert X S (push_bit 1 K) c)
        \<and> changes_mem (body_of (insert X (set (nodes c)))) s s'"
      proof (cases "bit K 63")
        case True
        show ?thesis using Node.IH(2) [of p C "push_bit 1 K"] tc nt X CnX Node.prems(6,7)
            sepc True by (simp add: c_def)
      next
        case False
        show ?thesis using Node.IH(1) [of p C "push_bit 1 K"] tc nt X CnX Node.prems(6,7)
            sepc False by (simp add: c_def)
      qed
      then obtain s' where "insert_large_loop s X S (rd s C) (push_bit 1 K) = Some (Inr s')"
        "tree_in s' i p C (tinsert X S (push_bit 1 K) c)"
        "changes_mem (body_of (insert X (set (nodes c)))) s s'" by blast
      moreover have "rd s C \<noteq> 0" using tree_in_root [OF tc] nt by simp
      ultimately show ?thesis using step changes_mem_mono [of _ s s' ?B] by fastforce
    qed
    then obtain s' where run: "insert_large_loop s X S (rd s slot) K = Some (Inr s')"
      and sub: "tree_in s' i p C (tinsert X S (push_bit 1 K) c)" and chB: "changes_mem ?B s s'"
      by blast
    have ch: "changes_mem ?A s s'" by (rule changes_mem_mono [OF chB]) (use body_cells in auto)
    have all: "insert p (set ch \<union> set (nodes u) \<union> insert X (set (nodes c)))
        = insert X (set (nodes (Node p ch z l r)))"
      by (auto simp: u_def c_def)
    have slotA: "slot \<notin> ?A" using cc(4) slot unfolding all by blast
    have "tree_in s' i par slot (tinsert X S K (Node p ch z l r))"
    proof (cases "bit K 63")
      case True
      then show ?thesis
        using tree_in_change_child(1) [OF t ch slotA cc(1,2)] sub cc(3,6) False
        by (simp add: C_def c_def u_def)
    next
      case nb: False
      then show ?thesis
        using tree_in_change_child(2) [OF t ch slotA cc(1,2)] sub cc(3,5) False
        by (simp add: C_def c_def u_def)
    qed
    moreover have "changes_mem (body_of (insert X (set (nodes (Node p ch z l r))))) s s'"
    proof (rule changes_mem_mono [OF chB])
      have "C \<in> body p" using C body_in by auto
      then show "?B \<subseteq> body_of (insert X (set (nodes (Node p ch z l r))))" by (auto simp: c_def)
    qed
    ultimately show ?thesis using run by blast
  qed
qed


section \<open>The array of tree bins\<close>

text \<open>
  The sizes below \<open>child[0]\<close> and \<open>child[1]\<close> differ in the next bit of the key, and a size occurs
  in one node only. The key of a size in bin \<open>i\<close> is the size shifted by
  \<open>leftshift_for_tree_index\<close>, and by one more bit per level.
\<close>

fun shape :: "(size_t \<Rightarrow> size_t) \<Rightarrow> trie \<Rightarrow> bool" where
  "shape k Tip \<longleftrightarrow> True"
| "shape k (Node p ch z l r) \<longleftrightarrow>
     z \<notin> sizes l \<union> sizes r \<and> (\<forall>y\<in>sizes l. \<not> bit (k y) 63) \<and> (\<forall>y\<in>sizes r. bit (k y) 63)
     \<and> shape (\<lambda>y. push_bit 1 (k y)) l \<and> shape (\<lambda>y. push_bit 1 (k y)) r"

lemma shape_tinsert: "shape k t \<Longrightarrow> shape k (tinsert X S (k S) t)"
  by (induction t arbitrary: k) (auto simp: sizes_tinsert)

definition bin_key :: "u32 \<Rightarrow> size_t \<Rightarrow> size_t" where
  "bin_key i z = push_bit (leftshift_for_tree_index i) z"

text \<open>Sizes from 1 TiB on are left out: the index of the gcc variant is wrong for some of them.\<close>

definition bin_ok :: "nat \<Rightarrow> trie \<Rightarrow> bool" where
  "bin_ok i t \<longleftrightarrow> distinct (nodes t) \<and> shape (bin_key (of_nat i)) t
     \<and> (\<forall>z\<in>sizes t. \<not> is_small z \<and> unat z < 2 ^ 40 \<and> compute_tree_index z = of_nat i)"

definition all_nodes :: "(nat \<Rightarrow> trie) \<Rightarrow> addr set" where
  "all_nodes T = (\<Union>i<32. set (nodes (T i)))"

definition tree_headers :: "'o state \<Rightarrow> addr set" where
  "tree_headers s = (\<lambda>i. treebin_at s (of_nat i)) ` {..<32}"

definition treebins_ok :: "'o state \<Rightarrow> (nat \<Rightarrow> trie) \<Rightarrow> bool" where
  "treebins_ok s T \<longleftrightarrow>
     sep (all_nodes T) \<and> tree_headers s \<inter> cells_of (all_nodes T) = {} \<and> 0 \<notin> tree_headers s
     \<and> (\<forall>i<32. \<forall>j<32. i \<noteq> j \<longrightarrow> set (nodes (T i)) \<inter> set (nodes (T j)) = {})
     \<and> (\<forall>i<32. bin_ok i (T i) \<and> (bit (treemap s) i \<longleftrightarrow> T i \<noteq> Tip)
          \<and> tree_in s (of_nat i) (treebin_at s (of_nat i)) (treebin_at s (of_nat i)) (T i))"

lemma treebins_okD:
  assumes "treebins_ok s T"
  shows "sep (all_nodes T)" "tree_headers s \<inter> cells_of (all_nodes T) = {}"
    "i < 32 \<Longrightarrow> j < 32 \<Longrightarrow> i \<noteq> j \<Longrightarrow> set (nodes (T i)) \<inter> set (nodes (T j)) = {}"
    "i < 32 \<Longrightarrow> bin_ok i (T i)" "i < 32 \<Longrightarrow> bit (treemap s) i \<longleftrightarrow> T i \<noteq> Tip"
    "i < 32 \<Longrightarrow> tree_in s (of_nat i) (treebin_at s (of_nat i)) (treebin_at s (of_nat i)) (T i)"
    "0 \<notin> tree_headers s"
  using assms by (simp_all add: treebins_ok_def)

lemma all_nodesI: "i < 32 \<Longrightarrow> p \<in> set (nodes (T i)) \<Longrightarrow> p \<in> all_nodes T"
  by (auto simp: all_nodes_def)

lemma treebin_at_nat: "i < 32 \<Longrightarrow> treebin_at s (of_nat i) = maddr s + (600 + of_nat (8 * i))"
proof -
  assume "i < 32"
  then have "ucast (of_nat i :: u32) = (of_nat i :: addr)"
    by (simp add: word_unat_eq_iff unat_ucast unat_of_nat)
  then show ?thesis by (simp add: treebin_at_def)
qed

lemma treebin_at_inj:
  assumes "treebin_at s (of_nat i) = treebin_at s (of_nat j)" "i < 32" "j < 32"
  shows "i = j"
proof -
  have "(of_nat (8 * i) :: addr) = of_nat (8 * j)" using assms by (simp add: treebin_at_nat)
  then have "unat (of_nat (8 * i) :: addr) = unat (of_nat (8 * j) :: addr)" by (simp only:)
  then have "8 * i mod 2 ^ LENGTH(64) = 8 * j mod 2 ^ LENGTH(64)" by (simp only: unat_of_nat)
  then show ?thesis using assms(2,3) by simp
qed

lemma tree_headersI: "i < 32 \<Longrightarrow> treebin_at s (of_nat i) \<in> tree_headers s"
  by (auto simp: tree_headers_def)

text \<open>A change confined to one bin keeps the others.\<close>

lemma treebins_ok_upd:
  assumes ok: "treebins_ok s T" and i: "i < 32"
    and s': "s' = s\<lparr>mem := mem s', treemap := treemap s'\<rparr>"
    and A: "\<And>a. a \<notin> insert (treebin_at s (of_nat i)) (cells_of (set (nodes (T i)) \<union> N))
      \<Longrightarrow> rd s' a = rd s a"
    and t: "tree_in s' (of_nat i) (treebin_at s (of_nat i)) (treebin_at s (of_nat i)) t'"
    and b: "bin_ok i t'" and n: "set (nodes t') \<subseteq> set (nodes (T i)) \<union> N"
    and N: "N \<inter> all_nodes T = {}" "sep (all_nodes T \<union> N)" "tree_headers s \<inter> cells_of N = {}"
    and m: "\<And>j. j < 32 \<Longrightarrow> bit (treemap s') j \<longleftrightarrow> (if j = i then t' \<noteq> Tip else bit (treemap s) j)"
  shows "treebins_ok s' (T(i := t'))"
proof -
  note D = treebins_okD [OF ok]
  have f: "treebin_at s' = treebin_at s" "tree_headers s' = tree_headers s"
    "least_addr s' = least_addr s"
    using arg_cong [OF s', of maddr] arg_cong [OF s', of least_addr]
    by (simp_all add: treebin_at_def tree_headers_def fun_eq_iff)
  have sub: "set (nodes t') \<subseteq> all_nodes T \<union> N" using n all_nodesI [OF i] by blast
  have all: "all_nodes (T(i := t')) \<subseteq> all_nodes T \<union> N"
  proof
    fix p assume "p \<in> all_nodes (T(i := t'))"
    then show "p \<in> all_nodes T \<union> N" using sub by (auto simp: all_nodes_def split: if_splits)
  qed
  have keep: "tree_in s' (of_nat j) (treebin_at s (of_nat j)) (treebin_at s (of_nat j)) (T j)"
    if j: "j < 32" "j \<noteq> i" for j
  proof (subst tree_in_cong [OF _ f(3)])
    let ?B = "insert (treebin_at s (of_nat i)) (cells_of (set (nodes (T i)) \<union> N))"
    have "treebin_at s (of_nat j) \<noteq> treebin_at s (of_nat i)"
      using treebin_at_inj [of s j i] j i by blast
    moreover have "treebin_at s (of_nat j) \<notin> cells_of (set (nodes (T i)))"
      using D(2) tree_headersI [OF j(1), of s] cells_of_mono [of "set (nodes (T i))" "all_nodes T"]
        all_nodesI [OF i] by blast
    moreover have "treebin_at s (of_nat j) \<notin> cells_of N"
      using N(3) tree_headersI [OF j(1), of s] by blast
    ultimately have "treebin_at s (of_nat j) \<notin> ?B" by simp
    then show "rd s' (treebin_at s (of_nat j)) = rd s (treebin_at s (of_nat j))" by (rule A)
    have Tj: "set (nodes (T j)) \<subseteq> all_nodes T" using all_nodesI [OF j(1)] by blast
    have Ti: "set (nodes (T i)) \<subseteq> all_nodes T" using all_nodesI [OF i] by blast
    have "cells_of (set (nodes (T j))) \<inter> cells_of (set (nodes (T i)) \<union> N) = {}"
      by (rule sep_disjoint [OF N(2)]) (use Tj Ti D(3) [OF j(1) i j(2)] N(1) in blast)+
    moreover have "treebin_at s (of_nat i) \<notin> cells_of (set (nodes (T j)))"
      using D(2) tree_headersI [OF i, of s] cells_of_mono [OF Tj] by blast
    ultimately show "rd s' a = rd s a" if "a \<in> cells_of (set (nodes (T j)))" for a
      using that by (intro A) blast
  qed (rule D(6) [OF j(1)])
  have disj: "set (nodes (T j)) \<inter> set (nodes t') = {}" if "j < 32" "j \<noteq> i" for j
    using D(3) [OF that(1) i that(2)] n N(1) all_nodesI [OF that(1), of _ T] by blast
  show ?thesis
    unfolding treebins_ok_def f
  proof (intro conjI allI impI)
    show "sep (all_nodes (T(i := t')))" by (rule sep_subset [OF N(2) all])
    show "tree_headers s \<inter> cells_of (all_nodes (T(i := t'))) = {}"
      using D(2) N(3) cells_of_mono [OF all] by auto
    show "0 \<notin> tree_headers s" by (rule D(7))
    show "set (nodes ((T(i := t')) j)) \<inter> set (nodes ((T(i := t')) k)) = {}"
      if "j < 32" "k < 32" "j \<noteq> k" for j k
      using disj [OF that(1)] disj [OF that(2)] D(3) [OF that] that(3) by auto
    show "bin_ok j ((T(i := t')) j)" if "j < 32" for j using b D(4) [OF that] by simp
    show "bit (treemap s') j \<longleftrightarrow> (T(i := t')) j \<noteq> Tip" if "j < 32" for j
      using m [OF that] D(5) [OF that] by simp
    show "tree_in s' (of_nat j) (treebin_at s (of_nat j)) (treebin_at s (of_nat j)) ((T(i := t')) j)"
      if "j < 32" for j
      using t keep [OF that] by simp
  qed
qed


definition changes_tree :: "addr set \<Rightarrow> 'o state \<Rightarrow> 'o state \<Rightarrow> bool" where
  "changes_tree A s s' \<longleftrightarrow>
     s' = s\<lparr>mem := mem s', treemap := treemap s'\<rparr> \<and> (\<forall>a. a \<notin> A \<longrightarrow> rd s' a = rd s a)"

lemma changes_treeI: "changes_mem A s s' \<Longrightarrow> changes_tree A s s'"
  by (cases s, cases s') (auto simp: changes_mem_def changes_tree_def)

lemma changes_tree_trans: "changes_tree A s s' \<Longrightarrow> changes_tree A s' s'' \<Longrightarrow> changes_tree A s s''"
  by (cases s, cases s', cases s'') (auto simp: changes_tree_def)

lemma changes_tree_mono: "changes_tree A s s' \<Longrightarrow> A \<subseteq> B \<Longrightarrow> changes_tree B s s'"
  by (auto simp: changes_tree_def)

lemma changes_tree_map:
  "changes_tree A s s' \<Longrightarrow> changes_tree A s (mark_treemap s' i)"
  "changes_tree A s s' \<Longrightarrow> changes_tree A s (clear_treemap s' i)"
  by (cases s, cases s'; auto simp: changes_tree_def mark_treemap_def clear_treemap_def rd_def)+

lemma treemap_marked_iff: "i < 32 \<Longrightarrow> treemap_is_marked s (of_nat i) \<longleftrightarrow> bit (treemap s) i"
  by (simp add: treemap_is_marked_def idx2bit_of_nat and_exp_eq_0_iff_not_bit)

lemma treemap_writes [dl_mem]:
  "treemap (mark_treemap s i) = treemap s OR idx2bit i"
  "treemap (clear_treemap s i) = treemap s AND NOT (idx2bit i)"
  "rd (mark_treemap s i) a = rd s a" "rd (clear_treemap s i) a = rd s a"
  "least_addr (mark_treemap s i) = least_addr s" "least_addr (clear_treemap s i) = least_addr s"
  by (simp_all add: mark_treemap_def clear_treemap_def rd_def)

lemma fields_rd_cong:
  assumes "rd s' = rd s" "least_addr s' = least_addr s"
  shows "tchunk_ok s' i z q = tchunk_ok s i z q" "child s' q c = child s q c"
    "tree_in s' i par slot t = tree_in s i par slot t"
proof -
  show "tchunk_ok s' i z q = tchunk_ok s i z q" by (rule tchunk_ok_cong) (simp_all only: assms)
  show "child s' q c = child s q c" by (simp only: child_def assms)
  show "tree_in s' i par slot t = tree_in s i par slot t" by (rule tree_in_cong) (simp_all only: assms)
qed

lemma rd32_wr32: "rd32 (wr32 s a v) a = v"
proof -
  have "ucast ((x AND NOT (mask 32)) OR ucast v) = v" for x :: size_t and v :: u32
    by (rule bit_word_eqI) (auto simp: bit_simps)
  then show ?thesis by (simp add: rd32_def wr32_def rd_wr)
qed

text \<open>The fields \<open>insert_large_chunk\<close> sets first.\<close>

lemma prepare_tchunk:
  fixes I :: u32
  assumes "X \<noteq> 0" "X \<le> X + 56" "chunksize s X = S" "ok_address s X"
  defines "s1 \<equiv> set_child (set_child (set_index s X I) X 1 0) X 0 0"
  shows "tchunk_ok s1 I S X" "child s1 X 0 = 0" "child s1 X 1 = 0" "changes_mem (body X) s s1"
proof -
  show c: "changes_mem (body X) s s1"
    unfolding s1_def set_child_def set_index_def child_slots wr32_def using body_in [of X]
    by (intro changes_mem_wr changes_mem_refl) auto
  show "child s1 X 0 = 0" "child s1 X 1 = 0"
    unfolding s1_def child_def set_child_def child_slots by (simp_all add: rd_wr)
  have "index s1 X = I"
    unfolding s1_def index_def set_child_def set_index_def child_slots rd32_def rd_wr
    using rd32_wr32 [of s "X + 56" I] by (simp add: rd32_def)
  moreover have "chunksize s1 X = S"
    using assms(3) unfolding s1_def chunksize_def head_def set_child_def set_index_def child_slots
      wr32_def by (simp add: rd_wr)
  moreover have "ok_address s1 X"
    using assms(4) changes_mem_fields(2) [OF c] by (simp add: ok_address_def)
  ultimately show "tchunk_ok s1 I S X" using assms(1,2) by (simp add: tchunk_ok_def)
qed

lemma insert_large_chunk_tree:
  assumes ok: "treebins_ok s T" and S: "\<not> is_small S" "unat S < 2 ^ 40"
    and i: "compute_tree_index S = of_nat i" "i < 32"
    and X: "X \<noteq> 0" "X \<le> X + 56" "chunksize s X = S" "ok_address s X" "X \<notin> all_nodes T"
      "sep (insert X (all_nodes T))" "tree_headers s \<inter> cells X = {}"
  shows "\<exists>s'. insert_large_chunk s X S = Inr s'
    \<and> treebins_ok s' (T(i := tinsert X S (bin_key (of_nat i) S) (T i)))
    \<and> changes_tree (insert (treebin_at s (of_nat i)) (body_of (insert X (set (nodes (T i)))))) s s'"
proof -
  note D = treebins_okD [OF ok]
  let ?I = "of_nat i :: u32" and ?K = "bin_key (of_nat i) S"
  let ?H = "treebin_at s (of_nat i)"
  let ?A = "insert ?H (body_of (insert X (set (nodes (T i)))))"
  define s1 where "s1 = set_child (set_child (set_index s X ?I) X 1 0) X 0 0"
  note P = prepare_tchunk [OF X(1-4), where I = ?I, folded s1_def]
  have f1: "treebin_at s1 = treebin_at s" "least_addr s1 = least_addr s" "treemap s1 = treemap s"
    using changes_mem_fields [OF P(4)] by (simp_all add: treebin_at_def fun_eq_iff)
  have Ti: "set (nodes (T i)) \<subseteq> all_nodes T" using all_nodesI [OF i(2)] by blast
  have sepX: "sep (insert X (set (nodes (T i))))" by (rule sep_subset [OF X(6)]) (use Ti in auto)
  have XTi: "X \<notin> set (nodes (T i))" using X(5) Ti by blast
  have HA: "?H \<notin> cells_of (insert X (set (nodes (T i))))"
    using tree_headersI [OF i(2), of s] X(7) D(2) cells_of_mono [OF Ti] by auto
  have t1: "tree_in s1 ?I ?H ?H (T i)"
  proof (subst tree_in_cong [OF _ f1(2)])
    show "rd s1 ?H = rd s ?H" by (rule changes_memD [OF P(4)]) (use HA body_cells(1) [of X] in auto)
    have "cells_of (set (nodes (T i))) \<inter> cells_of {X} = {}"
      by (rule sep_disjoint [OF sepX]) (use XTi in auto)
    then show "rd s1 a = rd s a" if "a \<in> cells_of (set (nodes (T i)))" for a
      using that body_cells(1) [of X] by (intro changes_memD [OF P(4)]) auto
  qed (rule D(6) [OF i(2)])
  have "\<exists>s'. insert_large_chunk s X S = Inr s' \<and> changes_tree ?A s s'
    \<and> tree_in s' ?I ?H ?H (tinsert X S ?K (T i))
    \<and> treemap s' = (if T i = Tip then treemap s OR idx2bit ?I else treemap s)"
  proof (cases "T i = Tip")
    case True
    define s' where "s' = set_fd (set_bk (set_parent (wr (mark_treemap s1 ?I) ?H X) X ?H) X X) X X"
    have run: "insert_large_chunk s X S = Inr s'"
      using D(5) [OF i(2)] True f1 i
      by (simp add: insert_large_chunk_def Let_def treemap_marked_iff s'_def flip: s1_def)
    have "rd s1 ?H = 0" using t1 True by simp
    then have "tree_in s' ?I ?H ?H (Node X [] S Tip Tip)"
      "changes_mem (insert ?H (body X)) (mark_treemap s1 ?I) s'"
      unfolding s'_def using P(1-3) HA
      by (intro insert_at_slot; simp add: dl_mem fields_rd_cong [of "mark_treemap s1 ?I" s1] fun_eq_iff)+
    moreover have "changes_tree ?A s (mark_treemap s1 ?I)"
      by (intro changes_tree_map changes_treeI changes_mem_mono [OF P(4)]) auto
    moreover have "treemap s' = treemap s OR idx2bit ?I"
      by (simp add: s'_def set_fd_def set_bk_def set_parent_def wr_fields treemap_writes f1)
    ultimately show ?thesis
      using run True changes_tree_trans [of ?A s "mark_treemap s1 ?I" s']
        changes_tree_mono [OF changes_treeI, of "insert ?H (body X)" "mark_treemap s1 ?I" s' ?A]
      by auto
  next
    case False
    have "\<exists>s'. insert_large_loop s1 X S (rd s1 ?H) ?K = Some (Inr s')
      \<and> tree_in s' ?I ?H ?H (tinsert X S ?K (T i))
      \<and> changes_mem (body_of (insert X (set (nodes (T i))))) s1 s'"
      using insert_large_loop_tree [OF t1 False P(1-3) _ XTi sepX HA] D(4) [OF i(2)]
      by (simp add: bin_ok_def)
    then obtain s' where s': "insert_large_loop s1 X S (rd s1 ?H) ?K = Some (Inr s')"
      "tree_in s' ?I ?H ?H (tinsert X S ?K (T i))"
      "changes_mem (body_of (insert X (set (nodes (T i))))) s1 s'" by blast
    have "insert_large_chunk s X S = Inr s'"
      using D(5) [OF i(2)] False f1 i s'(1)
      by (simp add: insert_large_chunk_def Let_def treemap_marked_iff bin_key_def flip: s1_def)
    moreover have "changes_tree ?A s s'"
      by (rule changes_tree_trans [OF changes_treeI [OF changes_mem_mono [OF P(4)]]
            changes_treeI [OF changes_mem_mono [OF s'(3)]]]) auto
    moreover have "treemap s' = treemap s" using changes_mem_fields(3) [OF s'(3)] f1 by simp
    ultimately show ?thesis using s'(2) False by auto
  qed
  then obtain s' where s': "insert_large_chunk s X S = Inr s'" "changes_tree ?A s s'"
    "tree_in s' ?I ?H ?H (tinsert X S ?K (T i))"
    "treemap s' = (if T i = Tip then treemap s OR idx2bit ?I else treemap s)" by blast
  have "treebins_ok s' (T(i := tinsert X S ?K (T i)))"
  proof (rule treebins_ok_upd [OF ok i(2), where N = "{X}"])
    show "s' = s\<lparr>mem := mem s', treemap := treemap s'\<rparr>" using s'(2) by (simp add: changes_tree_def)
    show "rd s' a = rd s a" if "a \<notin> insert ?H (cells_of (set (nodes (T i)) \<union> {X}))" for a
    proof -
      have "a \<notin> ?A" using that body_cells(2) [of "insert X (set (nodes (T i)))"] by auto
      then show ?thesis using s'(2) by (simp add: changes_tree_def)
    qed
    show "bin_ok i (tinsert X S ?K (T i))"
      using D(4) [OF i(2)] S i XTi
      by (auto simp: bin_ok_def sizes_tinsert intro: distinct_nodes_tinsert shape_tinsert)
    show "bit (treemap s') j \<longleftrightarrow> (if j = i then tinsert X S ?K (T i) \<noteq> Tip else bit (treemap s) j)"
      if "j < 32" for j
      using bit_mark(1) [OF i(2) that, of "treemap s"] D(5) [OF i(2)] s'(4) by (cases "T i") auto
  qed (use s'(3) X(5-7) set_nodes_tinsert [of X S ?K "T i"] in auto)
  then show ?thesis using s'(1,2) by blast
qed

end
