(* ===== verification/DL_TreeDel.thy ===== *)
theory DL_TreeDel
  imports DL_TreeRep
begin

text \<open>
  Removal from the tree bins of src/src/dlmalloc.c: \<open>unlink_large_chunk\<close> refined to an operation
  on trees. A position in a tree is a path, \<open>True\<close> for \<open>child[1]\<close>; the code reaches the position
  through parent pointers.
\<close>

section \<open>Positions\<close>

fun subtree :: "trie \<Rightarrow> bool list \<Rightarrow> trie" where
  "subtree t [] = t"
| "subtree Tip (b # bs) = Tip"
| "subtree (Node p ch z l r) (b # bs) = subtree (if b then r else l) bs"

fun replace :: "trie \<Rightarrow> bool list \<Rightarrow> trie \<Rightarrow> trie" where
  "replace t [] u = u"
| "replace Tip (b # bs) u = Tip"
| "replace (Node p ch z l r) (b # bs) u =
     (if b then Node p ch z l (replace r bs u) else Node p ch z (replace l bs u) r)"

text \<open>The cell that points to a position, and the parent of the node there.\<close>

fun slot_at :: "addr \<Rightarrow> trie \<Rightarrow> bool list \<Rightarrow> addr" where
  "slot_at slot t [] = slot"
| "slot_at slot Tip (b # bs) = slot"
| "slot_at slot (Node p ch z l r) (b # bs) =
     slot_at (if b then p + 40 else p + 32) (if b then r else l) bs"

fun par_at :: "addr \<Rightarrow> trie \<Rightarrow> bool list \<Rightarrow> addr" where
  "par_at par t [] = par"
| "par_at par Tip (b # bs) = par"
| "par_at par (Node p ch z l r) (b # bs) = par_at p (if b then r else l) bs"

fun entries :: "trie \<Rightarrow> (addr \<times> size_t) set" where
  "entries Tip = {}"
| "entries (Node p ch z l r) = (\<lambda>q. (q, z)) ` set (p # ch) \<union> entries l \<union> entries r"

lemma entries_nodes: "fst ` entries t = set (nodes t)"
  by (induction t) (auto simp: image_Un image_image)

lemma not_in_entries: "p \<notin> set (nodes t) \<Longrightarrow> (p, z) \<notin> entries t"
  unfolding entries_nodes [symmetric] by force

lemma entries_sizes: "snd ` entries t = sizes t"
  by (induction t) (auto simp: image_Un image_image)

lemma entries_tinsert: "entries (tinsert X S K t) = insert (X, S) (entries t)"
  by (induction t arbitrary: K) auto

lemma find_entry:
  assumes "(X, z) \<in> entries t"
  obtains bs p ch l r where "subtree t bs = Node p ch z l r" "X \<in> set (p # ch)"
  using assms
proof (induction t arbitrary: thesis)
  case (Node p ch y l r)
  consider "X \<in> set (p # ch)" "y = z" | "(X, z) \<in> entries l" | "(X, z) \<in> entries r"
    using Node.prems(2) by auto
  then show ?case
  proof cases
    case 1
    then show ?thesis using Node.prems(1) [of "[]"] by simp
  next
    case 2
    show ?thesis by (rule Node.IH(1) [OF _ 2]) (use Node.prems(1) [of "False # _"] in simp)
  next
    case 3
    show ?thesis by (rule Node.IH(2) [OF _ 3]) (use Node.prems(1) [of "True # _"] in simp)
  qed
qed simp

lemma nodes_subtree: "set (nodes (subtree t bs)) \<subseteq> set (nodes t)"
  by (induction t bs rule: subtree.induct) auto

lemma entries_subtree: "entries (subtree t bs) \<subseteq> entries t"
  by (induction t bs rule: subtree.induct) auto

lemma distinct_subtree: "distinct (nodes t) \<Longrightarrow> distinct (nodes (subtree t bs))"
  by (induction t bs rule: subtree.induct) auto

lemma replace_nodes:
  assumes "distinct (nodes t)" "subtree t bs \<noteq> Tip" "distinct (nodes u)"
    "set (nodes u) \<subseteq> set (nodes (subtree t bs))"
  shows "distinct (nodes (replace t bs u))
    \<and> set (nodes (replace t bs u)) = set (nodes t) - (set (nodes (subtree t bs)) - set (nodes u))"
  using assms
proof (induction t bs rule: subtree.induct)
  case (3 p ch z l r b bs)
  have "set (nodes (subtree l bs)) \<subseteq> set (nodes l)" "set (nodes (subtree r bs)) \<subseteq> set (nodes r)"
    by (rule nodes_subtree)+
  then show ?case using 3 by (cases b) (auto; blast)+
qed auto

lemma entries_disjoint: "set (nodes t) \<inter> set (nodes u) = {} \<Longrightarrow> entries t \<inter> entries u = {}"
  unfolding entries_nodes [symmetric] by auto

lemma replace_entries:
  assumes "distinct (nodes t)" "subtree t bs \<noteq> Tip"
  shows "entries (replace t bs u) = (entries t - entries (subtree t bs)) \<union> entries u"
  using assms
proof (induction t bs rule: subtree.induct)
  case (3 p ch z l r b bs)
  define c d where "c = (if b then r else l)" and "d = (if b then l else r)"
  have cd: "set (p # ch) \<inter> set (nodes c) = {}" "set (nodes d) \<inter> set (nodes c) = {}"
    "distinct (nodes c)"
    using 3(2) by (auto simp: c_def d_def)
  have "(\<lambda>q. (q, z)) ` set (p # ch) \<inter> entries c = {}"
    using cd(1) entries_nodes [of c] by force
  moreover have "entries d \<inter> entries c = {}" by (rule entries_disjoint [OF cd(2)])
  moreover have "entries (subtree c bs) \<subseteq> entries c" by (rule entries_subtree)
  moreover have "entries (replace c bs u) = (entries c - entries (subtree c bs)) \<union> entries u"
    using "3.IH" "3.prems" cd(3) by (simp add: c_def)
  moreover have "entries (replace (Node p ch z l r) (b # bs) u)
      = (\<lambda>q. (q, z)) ` set (p # ch) \<union> entries d \<union> entries (replace c bs u)"
    by (auto simp: c_def d_def)
  moreover have "entries (Node p ch z l r) = (\<lambda>q. (q, z)) ` set (p # ch) \<union> entries d \<union> entries c"
    by (auto simp: c_def d_def)
  moreover have "subtree (Node p ch z l r) (b # bs) = subtree c bs" by (simp add: c_def)
  ultimately show ?case by auto
qed auto

lemma sizes_subtree: "sizes (subtree t bs) \<subseteq> sizes t"
  by (induction t bs rule: subtree.induct) auto

lemma sizes_replace: "sizes u \<subseteq> sizes (subtree t bs) \<Longrightarrow> sizes (replace t bs u) \<subseteq> sizes t"
proof (induction t bs rule: subtree.induct)
  case (3 p ch z l r b bs)
  then show ?case by (cases b) auto
qed auto

lemma shape_replace:
  assumes "shape k t" "sizes u \<subseteq> sizes (subtree t bs)"
    "\<And>k. shape k (subtree t bs) \<Longrightarrow> shape k u"
  shows "shape k (replace t bs u)"
  using assms
proof (induction t bs arbitrary: k rule: subtree.induct)
  case (3 p ch z l r b bs)
  have "sizes (replace (if b then r else l) bs u) \<subseteq> sizes (if b then r else l)"
    by (rule sizes_replace) (use 3(3) in simp)
  then show ?case using 3 by (cases b) auto
qed auto

lemma sizes_replace_leaf:
  assumes "shape k t" "subtree t bs = Node q c z Tip Tip"
  shows "sizes (replace t bs Tip) = sizes t - {z}"
  using assms
proof (induction t bs arbitrary: k rule: subtree.induct)
  case (3 p ch y l r b bs)
  have z: "z \<in> sizes (if b then r else l)"
    using sizes_subtree [of "if b then r else l" bs] 3(3) by (cases b) auto
  then have "z \<noteq> y" "z \<notin> sizes (if b then l else r)" using 3(2) by (cases b; auto)+
  moreover have "sizes (replace (if b then r else l) bs Tip) = sizes (if b then r else l) - {z}"
    using "3.IH" [of "\<lambda>y. push_bit 1 (k y)"] 3(2,3) by (cases b) auto
  ultimately show ?case by (cases b) auto
qed auto

lemma slot_at_in: "slot_at slot t bs \<in> insert slot (cells_of (set (nodes t)))"
proof (induction slot t bs rule: slot_at.induct)
  case (3 slot p ch z l r b bs)
  then show ?case using cells_in [of p] by (cases b) auto
qed auto

section \<open>Trees in memory at a position\<close>

lemma tree_in_subtree:
  "tree_in s i par slot t \<Longrightarrow> subtree t bs \<noteq> Tip
    \<Longrightarrow> tree_in s i (par_at par t bs) (slot_at slot t bs) (subtree t bs)"
proof (induction t bs arbitrary: par slot rule: subtree.induct)
  case (3 p ch z l r b bs)
  then show ?case by (cases b) auto
qed auto

text \<open>A change at a position, in the cell that points to it and the nodes below it.\<close>

lemma tree_in_replace:
  assumes "tree_in s i par slot t" "subtree t bs \<noteq> Tip" "distinct (nodes t)" "sep (set (nodes t))"
    "slot \<notin> cells_of (set (nodes t))"
    and ch: "changes_mem (insert (slot_at slot t bs) (cells_of (set (nodes (subtree t bs))))) s s'"
    and u: "tree_in s' i (par_at par t bs) (slot_at slot t bs) u"
  shows "tree_in s' i par slot (replace t bs u)"
  using assms
proof (induction t bs arbitrary: par slot rule: subtree.induct)
  case (3 p cs z l r b bs)
  define C where "C = (if b then p + 40 else p + 32)"
  define c where "c = (if b then r else l)"
  define d where "d = (if b then l else r)"
  let ?A = "insert C (cells_of (set (nodes c)))"
  have t: "tree_in s i par slot (Node p cs z l r)" by (rule "3.prems"(1))
  have sepU: "sep (insert p (set cs \<union> set (nodes d) \<union> set (nodes c)))"
    by (rule sep_subset [OF "3.prems"(4)]) (auto simp: c_def d_def)
  have C: "C = p + 32 \<or> C = p + 40" by (simp add: C_def)
  have dd: "p \<notin> set cs \<union> set (nodes d) \<union> set (nodes c)"
    "set cs \<inter> (set (nodes d) \<union> set (nodes c)) = {}" "set (nodes d) \<inter> set (nodes c) = {}"
    using "3.prems"(3) by (auto simp: c_def d_def)
  note cc = child_cells [OF sepU C dd]
  have tc: "tree_in s i p C c" using t by (simp add: C_def c_def)
  have sepc: "sep (set (nodes c))" by (rule sep_subset [OF sepU]) auto
  have sl: "slot_at slot (Node p cs z l r) (b # bs) = slot_at C c bs"
    "par_at par (Node p cs z l r) (b # bs) = par_at p c bs" "subtree (Node p cs z l r) (b # bs) = subtree c bs"
    by (simp_all add: C_def c_def)
  note prems = "3.prems"(2,6,7) [unfolded sl]
  have IH: "tree_in s' i p C (replace c bs u)"
    unfolding C_def c_def
    by (rule "3.IH") (use tc prems "3.prems"(3) sepc cc(7) in \<open>auto simp: C_def c_def\<close>)
  have "insert (slot_at C c bs) (cells_of (set (nodes (subtree c bs)))) \<subseteq> ?A"
    using slot_at_in [of C c bs] cells_of_mono [OF nodes_subtree [of c bs]] by blast
  then have chA: "changes_mem ?A s s'" by (rule changes_mem_mono [OF prems(2)])
  have "slot \<notin> ?A"
  proof -
    have "insert p (set cs \<union> set (nodes d) \<union> set (nodes c)) = set (nodes (Node p cs z l r))"
      by (auto simp: c_def d_def)
    then show ?thesis using cc(4) "3.prems"(5) by auto
  qed
  note T = tree_in_change_child [OF t chA this cc(1,2)]
  show ?case
  proof (cases b)
    case True
    then show ?thesis using T(1) IH cc(3,6) by (simp add: C_def c_def d_def)
  next
    case False
    then show ?thesis using T(2) IH cc(3,5) by (simp add: C_def c_def d_def)
  qed
qed auto


text \<open>The leaf the removal takes: always to \<open>child[1]\<close> where there is one.\<close>

fun rightmost :: "trie \<Rightarrow> bool list" where
  "rightmost Tip = []"
| "rightmost (Node p ch z l r) =
     (if r \<noteq> Tip then True # rightmost r else if l \<noteq> Tip then False # rightmost l else [])"

lemma subtree_rightmost:
  assumes "t \<noteq> Tip"
  obtains q ch z where "subtree t (rightmost t) = Node q ch z Tip Tip"
  using assms
proof (induction t arbitrary: thesis)
  case (Node p ch z l r)
  show ?case
    by (cases "r = Tip"; cases "l = Tip"; use Node in auto)
qed simp

lemma rightmost_leaf_loop_tree:
  assumes "tree_in s i par slot t" "t \<noteq> Tip"
  shows "rightmost_leaf_loop s slot (rd s slot)
    = Some (slot_at slot t (rightmost t), rd s (slot_at slot t (rightmost t)))"
  using assms
proof (induction t arbitrary: par slot)
  case (Node p ch z l r)
  have p: "rd s slot = p" using Node.prems(1) by (simp add: node_ok_def)
  have l: "tree_in s i p (p + 32) l" and r: "tree_in s i p (p + 40) r" using Node.prems(1) by auto
  note roots = tree_in_root [OF l] tree_in_root [OF r]
  show ?case
    using Node.IH(1) [OF l] Node.IH(2) [OF r] roots
    by (subst rightmost_leaf_loop.simps) (simp add: p)
qed simp

text \<open>The same tree with another parent of the root, in another slot.\<close>

lemma tree_in_reroot:
  assumes t: "tree_in s i par slot t" and d: "distinct (nodes t)" "sep (set (nodes t))"
    and slot: "rd s' slot' = rd s slot" and la: "least_addr s' = least_addr s"
    and par: "t \<noteq> Tip \<Longrightarrow> parent s' (rd s slot) = par'"
    and keep: "\<And>a. a \<in> cells_of (set (nodes t)) \<Longrightarrow> a \<noteq> rd s slot + 48 \<Longrightarrow> rd s' a = rd s a"
  shows "tree_in s' i par' slot' t"
proof (cases t)
  case Tip
  then show ?thesis using t slot by simp
next
  case (Node p ch z l r)
  have nok: "node_ok s i par slot p ch z" using t Node by simp
  note N = node_okD [OF nok]
  have sepp: "cells p \<inter> cells_of (set ch \<union> set (nodes l) \<union> set (nodes r)) = {}"
    using sep_disjoint [OF d(2), of "{p}" "set ch \<union> set (nodes l) \<union> set (nodes r)"] d(1) Node by auto
  have out: "rd s' a = rd s a" if "a \<in> cells_of (set ch \<union> set (nodes l) \<union> set (nodes r))" for a
    by (rule keep) (use that sepp cells_in [of p] Node N(1) in auto)
  have own: "rd s' (p + a) = rd s (p + a)" if "a \<in> {8, 16, 24, 32, 40, 56}" for a
  proof (rule keep)
    show "p + a \<in> cells_of (set (nodes t))" using that cells_in [of p] Node by auto
    show "p + a \<noteq> rd s slot + 48" using that N(1) by auto
  qed
  have c: "rd s' a = rd s a" if "q \<in> set ch" "a \<in> cells q" for q a
    by (rule out) (use that in \<open>auto simp: cells_of_def\<close>)
  have C: "fd s' q = fd s q" "bk s' q = bk s q" "tchunk_ok s' i z q = tchunk_ok s i z q"
    "chained_ok s' q = chained_ok s q" if "q \<in> set ch" for q
    using fields_cong [OF c [OF that]] tchunk_ok_cong [OF c [OF that] la] by blast+
  have P: "fd s' p = fd s p" "bk s' p = bk s p" "tchunk_ok s' i z p = tchunk_ok s i z p"
    using own la by (simp_all add: fd_def bk_def tchunk_ok_def chunksize_def head_def index_def
        rd32_def ok_address_def)
  have "linked s' p ch p" by (subst linked_cong) (use C P N(4) in auto)
  then have "node_ok s' i par' slot' p ch z"
    using nok C P slot par Node N(1) by (auto simp: node_ok_def)
  moreover have "tree_in s' i p (p + 32) l"
    by (subst tree_in_cong [OF own la out]) (use t Node in auto)
  moreover have "tree_in s' i p (p + 40) r"
    by (subst tree_in_cong [OF own la out]) (use t Node in auto)
  ultimately show ?thesis using Node by simp
qed

section \<open>Relinking\<close>

text \<open>
  \<open>unlink_large_relink\<close> puts a node that is linked nowhere in the place of the node \<open>X\<close>, with
  the subtrees of \<open>X\<close>.
\<close>

definition floating :: "'o state \<Rightarrow> u32 \<Rightarrow> addr \<Rightarrow> addr list \<Rightarrow> size_t \<Rightarrow> bool" where
  "floating s i q ch z \<longleftrightarrow> linked s q ch q \<and> (\<forall>x\<in>set (q # ch). tchunk_ok s i z x)
     \<and> (\<forall>x\<in>set ch. chained_ok s x) \<and> child s q 0 = 0 \<and> child s q 1 = 0"

text \<open>Attaching a subtree to the slot \<open>q + a\<close> when it is not empty.\<close>

definition attach :: "'o state \<Rightarrow> addr \<Rightarrow> size_t \<Rightarrow> addr \<Rightarrow> 'o state" where
  "attach s q c C = (if C \<noteq> 0 then set_parent (set_child s q c C) C q else s)"

lemma attach_tree:
  assumes t: "tree_in s i X slot t" and d: "distinct (nodes t)" "sep (insert q (set (nodes t)))"
    "q \<notin> set (nodes t)" and c: "c = 0 \<and> C = q + 32 \<or> c = 1 \<and> C = q + 40" and z: "rd s C = 0"
    and slot: "slot \<notin> insert C (cells_of (set (nodes t)))"
  defines "s' \<equiv> attach s q c (rd s slot)"
  shows "tree_in s' i q C t" "changes_mem (insert C (body_of (set (nodes t)))) s s'"
    "rd s' slot = rd s slot"
proof -
  have child: "set_child s q c v = wr s C v" for v using c by (auto simp: set_child_def)
  have Cq: "C \<in> cells q" using c cells_in by auto
  have disj: "cells q \<inter> cells_of (set (nodes t)) = {}"
    using sep_disjoint [OF d(2), of "{q}" "set (nodes t)"] d(3) by auto
  have s': "s' = (if rd s slot \<noteq> 0 then wr (wr s C (rd s slot)) (rd s slot + 48) q else s)"
    by (simp add: s'_def attach_def child set_parent_def)
  have root: "rd s slot \<in> set (nodes t)" if "t \<noteq> Tip"
    using that t by (cases t) (auto simp: node_ok_def)
  have R: "rd s slot \<noteq> 0 \<longleftrightarrow> t \<noteq> Tip" using tree_in_root [OF t] by simp
  have in48: "rd s slot + 48 \<in> body_of (set (nodes t))" if "t \<noteq> Tip"
    by (rule body_ofI [OF root [OF that] body_in(5)])
  show ch: "changes_mem (insert C (body_of (set (nodes t)))) s s'"
    unfolding s' using R in48 by (auto intro!: changes_mem_wr changes_mem_refl)
  show "rd s' slot = rd s slot" by (rule changes_memD [OF ch]) (use slot not_in_body in auto)
  have C48: "C \<noteq> rd s slot + 48" if "t \<noteq> Tip" using in48 [OF that] Cq disj body_cells(2) by blast
  show "tree_in s' i q C t"
  proof (rule tree_in_reroot [OF t d(1) sep_subset [OF d(2)]])
    show "rd s' C = rd s slot" using z R C48 by (auto simp: s' rd_wr)
    show "least_addr s' = least_addr s" using changes_mem_fields [OF ch] by simp
    show "parent s' (rd s slot) = q" if "t \<noteq> Tip" using that R by (simp add: s' parent_def rd_wr)
    show "rd s' a = rd s a" if "a \<in> cells_of (set (nodes t))" "a \<noteq> rd s slot + 48" for a
      using that Cq disj by (auto simp: s' rd_wr)
  qed auto
qed


lemma not_cellsD:
  assumes "a \<notin> cells p"
  shows "p + 8 \<noteq> a" "p + 16 \<noteq> a" "p + 24 \<noteq> a" "p + 32 \<noteq> a" "p + 40 \<noteq> a" "p + 48 \<noteq> a" "p + 56 \<noteq> a"
  using assms cells_in [of p] by auto

text \<open>
  The position of \<open>X\<close> as the code finds it: the root of its bin, or one of the children of its
  parent \<open>XP\<close>, and then the one that is not \<open>child[1]\<close> if both could be meant.
\<close>

definition at_slot :: "'o state \<Rightarrow> u32 \<Rightarrow> addr \<Rightarrow> addr \<Rightarrow> addr \<Rightarrow> bool" where
  "at_slot s i X XP slot \<longleftrightarrow> rd s slot = X \<and> XP \<noteq> 0 \<and> index s X = i
     \<and> (slot = treebin_at s i
        \<or> (rd s (treebin_at s i) \<noteq> X \<and> ok_address s XP
           \<and> (slot = XP + 32 \<or> (slot = XP + 40 \<and> rd s (XP + 32) \<noteq> X))))"

text \<open>The first step of the relinking writes the cell that points to \<open>X\<close>.\<close>

lemma relink_slot:
  assumes "at_slot s i X XP slot" "R \<noteq> 0"
  shows "(if X = rd s (treebin_at s (index s X))
          then Inr (let s' = wr s (treebin_at s (index s X)) R
                    in if R = 0 then clear_treemap s' (index s' X) else s')
          else if ok_address s XP
          then Inr (if child s XP 0 = X then set_child s XP 0 R else set_child s XP 1 R)
          else Inl CorruptionAbort) = Inr (wr s slot R)"
  using assms by (auto simp: at_slot_def child_def set_child_def)

lemma relink_run:
  assumes pos: "at_slot s i X XP slot" and q: "q \<noteq> 0" "ok_address s q"
  defines "s2 \<equiv> set_parent (wr s slot q) q XP"
  defines "s3 \<equiv> attach s2 q 0 (rd s2 (X + 32))"
  assumes ok: "rd s2 (X + 32) \<noteq> 0 \<Longrightarrow> ok_address s2 (rd s2 (X + 32))"
    "rd s3 (X + 40) \<noteq> 0 \<Longrightarrow> ok_address s3 (rd s3 (X + 40))"
  shows "unlink_large_relink s X XP q = Inr (attach s3 q 1 (rd s3 (X + 40)))"
proof -
  have 0: "XP \<noteq> 0" using pos by (simp add: at_slot_def)
  have 1: "ok_address (wr s slot q) q" using q(2) by (simp add: ok_address_def wr_fields)
  have 2: "(if child s2 X 0 \<noteq> 0
      then if ok_address s2 (child s2 X 0)
           then Inr (set_parent (set_child s2 q 0 (child s2 X 0)) (child s2 X 0) q)
           else Inl CorruptionAbort
      else Inr s2) = Inr s3"
    using ok(1) by (simp add: child_def s3_def attach_def)
  have 3: "(if child s3 X 1 \<noteq> 0
      then if ok_address s3 (child s3 X 1)
           then Inr (set_parent (set_child s3 q 1 (child s3 X 1)) (child s3 X 1) q)
           else Inl CorruptionAbort
      else Inr s3) = Inr (attach s3 q 1 (rd s3 (X + 40)))"
    using ok(2) unfolding child_def child_slots attach_def by simp
  show ?thesis
    unfolding unlink_large_relink_def Let_def relink_slot [OF pos q(1), unfolded Let_def]
    by (simp only: 0 1 2 3 q(1) bindR_simps if_False not_True_eq_False not_False_eq_True
        s2_def [symmetric])
qed

lemma disj_mem: "a \<in> A \<Longrightarrow> A \<inter> B = {} \<Longrightarrow> a \<notin> B" "a \<in> A \<Longrightarrow> B \<inter> A = {} \<Longrightarrow> a \<notin> B"
  by blast+

lemma disj_neq: "a \<in> A \<Longrightarrow> b \<in> B \<Longrightarrow> A \<inter> B = {} \<Longrightarrow> a \<noteq> b" "a \<in> A \<Longrightarrow> b \<notin> A \<Longrightarrow> a \<noteq> b"
  by blast+

lemma relink_tree:
  assumes pos: "at_slot s i X XP slot"
    and l: "tree_in s i X (X + 32) l" and r: "tree_in s i X (X + 40) r"
    and q: "floating s i q ch z"
    and d: "distinct (X # q # ch @ nodes l @ nodes r)" "sep (set (X # q # ch @ nodes l @ nodes r))"
    and slot: "slot \<notin> cells_of (set (X # q # ch @ nodes l @ nodes r))"
  shows "\<exists>s'. unlink_large_relink s X XP q = Inr s' \<and> tree_in s' i XP slot (Node q ch z l r)
    \<and> changes_mem (insert slot (body_of (insert q (set (nodes l) \<union> set (nodes r))))) s s'"
proof -
  let ?U = "set (X # q # ch @ nodes l @ nodes r)"
  note S = sep_disjoint [OF d(2)]
  have dj: "cells_of ({X}) \<inter> cells_of ({q}) = {}"
    "cells_of ({X}) \<inter> cells_of (set (nodes l)) = {}"
    "cells_of ({X}) \<inter> cells_of (set (nodes r)) = {}"
    "cells_of ({q}) \<inter> cells_of (set ch) = {}"
    "cells_of ({q}) \<inter> cells_of (set (nodes l)) = {}"
    "cells_of ({q}) \<inter> cells_of (set (nodes r)) = {}"
    "cells_of (set (nodes l)) \<inter> cells_of (set (nodes r)) = {}"
    "cells_of (set (nodes l)) \<inter> cells_of (set ch) = {}"
    "cells_of (set (nodes r)) \<inter> cells_of (set ch) = {}"
    by (rule S; use d(1) in auto)+
  note dj = dj [unfolded cells_of_insert cells_of_empty Un_empty_right]
  have sX: "slot \<notin> cells X" "slot \<notin> cells q" "slot \<notin> cells_of (set ch)"
    "slot \<notin> cells_of (set (nodes l))" "slot \<notin> cells_of (set (nodes r))"
    using slot by auto
  define s2 where "s2 = set_parent (wr s slot q) q XP"
  define s3 where "s3 = attach s2 q 0 (rd s2 (X + 32))"
  define s4 where "s4 = attach s3 q 1 (rd s3 (X + 40))"
  have c2: "changes_mem {slot, q + 48} s s2"
    unfolding s2_def set_parent_def by (intro changes_mem_wr changes_mem_refl) auto
  note D2 = changes_memD [OF c2] and L2 = changes_mem_fields(2) [OF c2]
  have q48: "q + 48 \<in> cells q" by (rule cells_in)
  have X32: "X + 32 \<in> cells X" "X + 40 \<in> cells X" by (rule cells_in)+
  have q32: "rd s2 (q + 32) = 0" "rd s2 (q + 40) = 0"
    using q not_cellsD [OF sX(2)] by (simp_all add: D2 floating_def child_def)
  have l2: "tree_in s2 i X (X + 32) l" and r2: "tree_in s2 i X (X + 40) r"
  proof -
    have "X + 32 \<notin> {slot, q + 48}" "X + 40 \<notin> {slot, q + 48}"
      using disj_neq(2) [OF X32(1) sX(1)] disj_neq(2) [OF X32(2) sX(1)]
        disj_neq(1) [OF X32(1) q48 dj(1)] disj_neq(1) [OF X32(2) q48 dj(1)] by simp_all
    note E = D2 [OF this(1)] D2 [OF this(2)]
    have "rd s2 a = rd s a" if "a \<in> cells_of (set (nodes l)) \<union> cells_of (set (nodes r))" for a
    proof (rule D2)
      have "a \<noteq> slot" using that sX(4,5) by auto
      moreover have "a \<noteq> q + 48" using that disj_mem(1) [OF q48 dj(5)] disj_mem(1) [OF q48 dj(6)] by auto
      ultimately show "a \<notin> {slot, q + 48}" by simp
    qed
    then show "tree_in s2 i X (X + 32) l" "tree_in s2 i X (X + 40) r"
      using l r tree_in_cong [OF E(1) L2] tree_in_cong [OF E(2) L2] by blast+
  qed
  have dl: "distinct (nodes l)" "distinct (nodes r)" "q \<notin> set (nodes l)" "q \<notin> set (nodes r)"
    using d(1) by auto
  have sl: "sep (insert q (set (nodes l)))" "sep (insert q (set (nodes r)))"
    by (rule sep_subset [OF d(2)]; auto)+
  have q3: "q + 32 \<in> cells q" "q + 40 \<in> cells q" by (rule cells_in)+
  have n32: "X + 32 \<notin> insert (q + 32) (cells_of (set (nodes l)))"
    using disj_neq(1) [OF X32(1) q3(1) dj(1)] disj_mem(1) [OF X32(1) dj(2)] by simp
  note A3 = attach_tree [OF l2 dl(1) sl(1) dl(3) _ q32(1) n32, where c = 0, simplified, folded s3_def]
  note D3 = changes_memD [OF changes_mem_mono [OF A3(2) insert_mono [OF body_cells(2)]]] and L3 = changes_mem_fields(2) [OF A3(2)]
  have r3: "tree_in s3 i X (X + 40) r"
  proof -
    have "X + 40 \<notin> insert (q + 32) (cells_of (set (nodes l)))"
      using disj_neq(1) [OF X32(2) q3(1) dj(1)] disj_mem(1) [OF X32(2) dj(2)] by simp
    note E = D3 [OF this]
    have "rd s3 a = rd s2 a" if "a \<in> cells_of (set (nodes r))" for a
      by (rule D3) (use disj_mem(2) [OF that dj(7)] disj_mem(2) [OF that dj(6)] q3(1) in auto)
    then show ?thesis using r2 tree_in_cong [OF E L3] by blast
  qed
  have q40: "rd s3 (q + 40) = 0"
  proof -
    have "q + 40 \<notin> cells_of (set (nodes l))" by (rule disj_mem(1) [OF q3(2) dj(5)])
    then show ?thesis using q32(2) by (subst D3) auto
  qed
  have n40: "X + 40 \<notin> insert (q + 40) (cells_of (set (nodes r)))"
    using disj_neq(1) [OF X32(2) q3(2) dj(1)] disj_mem(1) [OF X32(2) dj(3)] by simp
  note A4 = attach_tree [OF r3 dl(2) sl(2) dl(4) _ q40 n40, where c = 1, simplified, folded s4_def]
  note D4 = changes_memD [OF changes_mem_mono [OF A4(2) insert_mono [OF body_cells(2)]]] and L4 = changes_mem_fields(2) [OF A4(2)]
  have sq: "slot \<noteq> q + a" if "a \<in> {8, 16, 24, 32, 40, 48, 56}" for a
    using not_cellsD [OF sX(2)] that by auto
  have "rd s2 slot = q" "parent s2 q = XP"
    using sq [of 48] by (simp_all add: s2_def set_parent_def rd_wr parent_def)
  have slot34: "rd s3 slot = rd s2 slot" "rd s4 slot = rd s3 slot"
    by (rule D3 D4; use sq [of 32] sq [of 40] sX(4,5) in simp)+
  have own: "rd s4 (q + a) = rd s2 (q + a)" if "a \<in> {8, 16, 24, 48, 56}" for a
  proof -
    have "q + a \<in> cells q" using that cells_in [of q] by auto
    then have n: "q + a \<notin> cells_of (set (nodes l))" "q + a \<notin> cells_of (set (nodes r))"
      by (rule disj_mem(1) [OF _ dj(5)], rule disj_mem(1) [OF _ dj(6)])
    show ?thesis using that n by (subst D4, force) (subst D3, force, rule refl)
  qed
  have own2: "rd s2 (q + a) = rd s (q + a)" if "a \<in> {8, 16, 24, 56}" for a
    by (rule D2) (use that sq [of a] in auto)
  have chc: "rd s4 a = rd s a" if "a \<in> cells_of (set ch)" for a
  proof -
    have n: "a \<notin> cells q" "a \<notin> cells_of (set (nodes l))" "a \<notin> cells_of (set (nodes r))" "a \<noteq> slot"
      using disj_mem(2) [OF that dj(4)] disj_mem(2) [OF that dj(8)] disj_mem(2) [OF that dj(9)]
        that sX(3) by auto
    show ?thesis
      using n not_cellsD [OF n(1)] by (subst D4, force) (subst D3, force, subst D2, auto)
  qed
  have L: "least_addr s4 = least_addr s" using L2 L3 L4 by simp
  have "node_ok s4 i XP slot q ch z"
  proof -
    have c: "rd s4 a = rd s a" if "x \<in> set ch" "a \<in> cells x" for x a
      using chc [of a] that by (auto simp: cells_of_def)
    have C: "fd s4 x = fd s x" "bk s4 x = bk s x" "tchunk_ok s4 i z x = tchunk_ok s i z x"
      "chained_ok s4 x = chained_ok s x" if "x \<in> set ch" for x
      using fields_cong [OF c [OF that]] tchunk_ok_cong [OF c [OF that] L] by blast+
    have Q: "fd s4 q = fd s q" "bk s4 q = bk s q" "tchunk_ok s4 i z q = tchunk_ok s i z q"
      using own own2 L by (simp_all add: fd_def bk_def tchunk_ok_def chunksize_def head_def
          index_def rd32_def ok_address_def)
    have "linked s4 q ch q \<longleftrightarrow> linked s q ch q" by (rule linked_cong) (use C Q in auto)
    moreover have "parent s4 q = XP" using own [of 48] \<open>parent s2 q = XP\<close> by (simp add: parent_def)
    ultimately show ?thesis
      using q C Q slot34 \<open>rd s2 slot = q\<close> by (auto simp: node_ok_def floating_def)
  qed
  moreover have "tree_in s4 i q (q + 32) l"
  proof (subst tree_in_cong [OF D4 L4 D4])
    show "a \<notin> insert (q + 40) (cells_of (set (nodes r)))" if "a \<in> cells_of (set (nodes l))" for a
      using disj_mem(1) [OF that dj(7)] disj_mem(2) [OF that dj(5)] q3(2) by auto
  qed (use disj_mem(1) [OF q3(1) dj(6)] A3(1) in auto)
  ultimately have T: "tree_in s4 i XP slot (Node q ch z l r)" using A4(1) by simp
  have ok0: "ok_address s2 (rd s2 (X + 32))" if "rd s2 (X + 32) \<noteq> 0"
    using that l2 by (cases l) (auto simp: node_ok_def tchunk_ok_def)
  have ok1: "ok_address s3 (rd s3 (X + 40))" if "rd s3 (X + 40) \<noteq> 0"
    using that r3 by (cases r) (auto simp: node_ok_def tchunk_ok_def)
  have "q \<noteq> 0" "ok_address s q" using q by (auto simp: floating_def tchunk_ok_def)
  from relink_run [OF pos this, folded s2_def, folded s3_def, folded s4_def, OF ok0 ok1]
  have run: "unlink_large_relink s X XP q = Inr s4" .
  have "changes_mem (insert slot (body_of (insert q (set (nodes l) \<union> set (nodes r))))) s s4"
    by (rule changes_mem_trans [OF changes_mem_mono [OF c2]
          changes_mem_trans [OF changes_mem_mono [OF A3(2)] changes_mem_mono [OF A4(2)]]])
      (use body_in [of q] in auto)
  with run T show ?thesis by blast
qed


section \<open>Removing the first chunk of a node\<close>

fun unlink_root :: "trie \<Rightarrow> trie" where
  "unlink_root Tip = Tip"
| "unlink_root (Node p ch z l r) =
     (if ch \<noteq> [] then Node (last ch) (butlast ch) z l r
      else let t = Node p [] z l r
        in case (subtree t (rightmost t), replace t (rightmost t) Tip) of
             (Node q c zq _ _, Node _ _ _ l' r') \<Rightarrow> Node q c zq l' r'
           | _ \<Rightarrow> Tip)"

lemma unlink_root_leaf:
  fixes p :: addr and z :: size_t
  assumes "l \<noteq> Tip \<or> r \<noteq> Tip"
  defines "t \<equiv> Node p [] z l r"
  obtains q c zq l' r' where "subtree t (rightmost t) = Node q c zq Tip Tip"
    "replace t (rightmost t) Tip = Node p [] z l' r'" "unlink_root t = Node q c zq l' r'"
    "rightmost t = (r \<noteq> Tip) # rightmost (if r \<noteq> Tip then r else l)"
proof -
  have nt: "t \<noteq> Tip" by (simp add: t_def)
  obtain q c zq where sub: "subtree t (rightmost t) = Node q c zq Tip Tip"
    using subtree_rightmost [OF nt] by blast
  obtain l' r' where rep: "replace t (rightmost t) Tip = Node p [] z l' r'"
    using assms(1) unfolding t_def by (cases "r = Tip"; cases "l = Tip"; simp)
  have "unlink_root t = Node q c zq l' r'"
    using sub rep unfolding t_def unlink_root.simps by (simp add: Let_def)
  moreover have "rightmost t = (r \<noteq> Tip) # rightmost (if r \<noteq> Tip then r else l)"
    using assms(1) by (auto simp: t_def)
  ultimately show ?thesis using that sub rep by blast
qed

lemma entries_unlink_root:
  assumes "distinct (nodes (Node p ch z l r))"
  shows "entries (unlink_root (Node p ch z l r)) = entries (Node p ch z l r) - {(p, z)}"
    "distinct (nodes (unlink_root (Node p ch z l r)))"
proof -
  have "entries (unlink_root (Node p ch z l r)) = entries (Node p ch z l r) - {(p, z)}
    \<and> distinct (nodes (unlink_root (Node p ch z l r)))"
  proof (cases "ch = []")
    case False
    then obtain ys q where ch: "ch = ys @ [q]" by (cases ch rule: rev_cases) auto
    have "(p, z) \<notin> entries l" "(p, z) \<notin> entries r" "p \<notin> set ys" "p \<noteq> q"
      using assms ch by (simp_all add: not_in_entries)
    then have "entries (unlink_root (Node p ch z l r)) = entries (Node p ch z l r) - {(p, z)}"
      unfolding ch by auto
    moreover have "distinct (nodes (unlink_root (Node p ch z l r)))" using assms unfolding ch by auto
    ultimately show ?thesis by blast
  next
    case True
    let ?t = "Node p [] z l r"
    show ?thesis
    proof (cases "l = Tip \<and> r = Tip")
      case False
      then have "l \<noteq> Tip \<or> r \<noteq> Tip" by blast
      then obtain q c zq l' r' where U: "subtree ?t (rightmost ?t) = Node q c zq Tip Tip"
        "replace ?t (rightmost ?t) Tip = Node p [] z l' r'" "unlink_root ?t = Node q c zq l' r'"
        by (rule unlink_root_leaf [where p = p and z = z])
      have d: "distinct (nodes ?t)" using assms True by simp
      have E: "entries (Node p [] z l' r') = entries ?t - entries (Node q c zq Tip Tip)"
        using replace_entries [OF d, of "rightmost ?t" Tip] U by simp
      have N: "distinct (nodes (Node p [] z l' r'))"
        "set (nodes (Node p [] z l' r')) = set (nodes ?t) - set (q # c)"
        using replace_nodes [OF d, of "rightmost ?t" Tip] U by simp_all
      have S: "entries (Node q c zq Tip Tip) \<subseteq> entries ?t" "distinct (q # c)"
        using entries_subtree [of ?t "rightmost ?t"] distinct_subtree [OF d, of "rightmost ?t"] U
        by simp_all
      have pq: "p \<notin> set (q # c)" using N by auto
      have "(p, z) \<notin> entries l'" "(p, z) \<notin> entries r'"
        using N(1) by (simp_all add: not_in_entries)
      then have "entries (Node q c zq l' r') = entries ?t - {(p, z)}"
        using E S(1) pq by auto
      moreover have "distinct (nodes (Node q c zq l' r'))" using N S(2) by auto
      ultimately show ?thesis using U(3) True by simp
    qed (use True in \<open>simp add: Let_def\<close>)
  qed
  then show "entries (unlink_root (Node p ch z l r)) = entries (Node p ch z l r) - {(p, z)}"
    "distinct (nodes (unlink_root (Node p ch z l r)))" by blast+
qed

lemma shape_unlink_root:
  assumes "shape k (Node p ch z l r)"
  shows "shape k (unlink_root (Node p ch z l r))"
    "sizes (unlink_root (Node p ch z l r)) \<subseteq> sizes (Node p ch z l r)"
proof -
  have "shape k (unlink_root (Node p ch z l r))
    \<and> sizes (unlink_root (Node p ch z l r)) \<subseteq> sizes (Node p ch z l r)"
  proof (cases "ch = [] \<and> (l \<noteq> Tip \<or> r \<noteq> Tip)")
    case True
    let ?t = "Node p [] z l r"
    obtain q c zq l' r' where U: "subtree ?t (rightmost ?t) = Node q c zq Tip Tip"
      "replace ?t (rightmost ?t) Tip = Node p [] z l' r'" "unlink_root ?t = Node q c zq l' r'"
      "rightmost ?t = (r \<noteq> Tip) # rightmost (if r \<noteq> Tip then r else l)"
      using unlink_root_leaf [of l r p z] True by metis
    have t: "shape k ?t" using assms by simp
    have s: "sizes (Node p [] z l' r') = sizes ?t - {zq}"
      using sizes_replace_leaf [OF t U(1)] U(2) by simp
    have s': "shape k (Node p [] z l' r')"
      using shape_replace [OF t, of Tip "rightmost ?t"] U(2) by simp
    have "zq \<in> sizes ?t" using sizes_subtree [of ?t "rightmost ?t"] U(1) by auto
    moreover have "zq \<noteq> z"
    proof -
      have "zq \<in> sizes (if r \<noteq> Tip then r else l)"
        using sizes_subtree [of "if r \<noteq> Tip then r else l" "rightmost (if r \<noteq> Tip then r else l)"]
          U(1,4) by (auto split: if_splits)
      then show ?thesis using t by (auto split: if_splits)
    qed
    ultimately show ?thesis using U(3) s s' True by auto
  qed (use assms in \<open>auto simp: Let_def\<close>)
  then show "shape k (unlink_root (Node p ch z l r))"
    "sizes (unlink_root (Node p ch z l r)) \<subseteq> sizes (Node p ch z l r)" by blast+
qed

end
