(* ===== verification/DL_TreeUnlink.thy ===== *)
theory DL_TreeUnlink
  imports DL_TreeDel
begin

text \<open>
  The refinement of \<open>unlink_large_chunk\<close> of src/src/dlmalloc.c, case by case, and the two
  operations of the tree bins as operations on a set of pairs (chunk, size).
\<close>

section \<open>Where a node hangs\<close>

lemma inner_position:
  assumes "tree_in s i par slot t" "subtree t bs = Node X ch z l r" "distinct (nodes t)" "bs \<noteq> []"
  shows "par_at par t bs \<in> set (nodes t) - set (nodes (Node X ch z l r))
    \<and> par_at par t bs \<noteq> 0 \<and> ok_address s (par_at par t bs) \<and> rd s slot \<noteq> X
    \<and> (slot_at slot t bs = par_at par t bs + 32
       \<or> slot_at slot t bs = par_at par t bs + 40 \<and> rd s (par_at par t bs + 32) \<noteq> X)
    \<and> par_at par t bs \<le> par_at par t bs + 56"
  using assms
proof (induction t bs arbitrary: par slot rule: subtree.induct)
  case (3 p cs y tl tr b bs)
  define c where "c = (if b then tr else tl)"
  define d where "d = (if b then tl else tr)"
  have sub: "subtree c bs = Node X ch z l r" using "3.prems"(2) by (simp add: c_def)
  have N: "p \<notin> set (nodes c)" "distinct (nodes c)" "set (nodes c) \<inter> set (nodes d) = {}"
    "set (nodes c) \<subseteq> set (nodes (Node p cs y tl tr))"
    using "3.prems"(3) by (auto simp: c_def d_def)
  have Xc: "set (nodes (Node X ch z l r)) \<subseteq> set (nodes c)" using nodes_subtree [of c bs] sub by simp
  have nok: "node_ok s i par slot p cs y" using "3.prems"(1) by simp
  note P = node_okD [OF nok]
  show ?case
  proof (cases "bs = []")
    case True
    have "rd s (p + 32) \<noteq> X" if b
    proof -
      have "tree_in s i p (p + 32) d" using that "3.prems"(1) by (simp add: d_def)
      moreover have "X \<noteq> 0" using "3.prems"(1) sub True that by (auto simp: c_def node_ok_def tchunk_ok_def)
      ultimately show ?thesis using N(3) Xc by (cases d) (auto simp: node_ok_def)
    qed
    then show ?thesis using True P N(1) Xc by auto
  next
    case False
    have "tree_in s i p (if b then p + 40 else p + 32) c" using "3.prems"(1) by (simp add: c_def)
    from "3.IH" [OF this [unfolded c_def]] sub N(2) False
    show ?thesis using N(1,4) Xc P(1) by (auto simp: c_def)
  qed
qed auto

lemma slot_at_body: "slot_at slot t bs \<in> insert slot (body_of (set (nodes t)))"
proof (induction slot t bs rule: slot_at.induct)
  case (3 slot p ch z l r b bs)
  then show ?case using body_in [of p] by (cases b) auto
qed auto

lemma position:
  assumes t: "tree_in s i H H t" "subtree t bs = Node X ch z l r" "distinct (nodes t)"
    "sep (set (nodes t))" and H: "H = treebin_at s i" "H \<notin> cells_of (set (nodes t))" "H \<noteq> 0"
  defines "XP \<equiv> par_at H t bs" and "C \<equiv> slot_at H t bs" and "N \<equiv> set (nodes (Node X ch z l r))"
  shows "at_slot s i X XP C" "tree_in s i XP C (Node X ch z l r)" "C \<notin> cells_of N"
    "treebin_at s i \<notin> cells_of N" "C = treebin_at s i \<or> XP + 32 \<notin> cells_of N" "N \<subseteq> set (nodes t)"
    "parent s X = XP"
    "distinct (nodes (Node X ch z l r))" "sep N" "C \<in> insert H (body_of (set (nodes t)))"
proof -
  show sub: "N \<subseteq> set (nodes t)" using nodes_subtree [of t bs] t(2) by (simp add: N_def)
  show tr: "tree_in s i XP C (Node X ch z l r)"
    using tree_in_subtree [OF t(1), of bs] t(2) by (simp add: XP_def C_def)
  show par: "parent s X = XP" using tr by (simp add: node_ok_def)
  show "distinct (nodes (Node X ch z l r))" using distinct_subtree [OF t(3), of bs] t(2) by simp
  show "sep N" by (rule sep_subset [OF t(4) sub])
  show HN: "treebin_at s i \<notin> cells_of N" using H cells_of_mono [OF sub] by blast
  show "C \<in> insert H (body_of (set (nodes t)))" unfolding C_def by (rule slot_at_body)
  have rdX: "rd s C = X" "index s X = i" using tr by (simp_all add: node_ok_def tchunk_ok_def)
  have "at_slot s i X XP C \<and> C \<notin> cells_of N \<and> (C = treebin_at s i \<or> XP + 32 \<notin> cells_of N)"
  proof (cases "bs = []")
    case True
    then have "C = H" "XP = H" by (simp_all add: C_def XP_def)
    then show ?thesis using H HN rdX by (simp add: at_slot_def)
  next
    case False
    note I = inner_position [OF t(1-3) False, folded XP_def C_def N_def]
    have "cells_of {XP} \<inter> cells_of N = {}" by (rule sep_disjoint [OF t(4)]) (use I sub in auto)
    moreover have "C \<in> cells XP" "XP + 32 \<in> cells XP" using I cells_in [of XP] by auto
    ultimately show ?thesis using I rdX H(1) by (auto simp: at_slot_def)
  qed
  then show "at_slot s i X XP C" "C \<notin> cells_of N" "C = treebin_at s i \<or> XP + 32 \<notin> cells_of N"
    by blast+
qed

text \<open>A change below the node, but for the index of the node, keeps its position.\<close>

lemma at_slot_changes:
  assumes pos: "at_slot s i X XP C" and ch: "changes_mem A s s'"
    and A: "C \<notin> A" "treebin_at s i \<notin> A" "C = treebin_at s i \<or> XP + 32 \<notin> A" "X + 56 \<notin> A"
  shows "at_slot s' i X XP C"
proof -
  note D = changes_memD [OF ch]
  note f = changes_mem_fields [OF ch]
  have H: "treebin_at s' i = treebin_at s i" using f(1) by (simp add: treebin_at_def)
  have "index s' X = index s X" using D [OF A(4)] by (simp add: index_def rd32_def)
  moreover have "ok_address s' XP = ok_address s XP" using f(2) by (simp add: ok_address_def)
  ultimately show ?thesis using pos D [OF A(1)] D [OF A(2)] A(3) D [of "XP + 32"]
    unfolding at_slot_def H by auto
qed

section \<open>Removing a chunk that shares its size\<close>

text \<open>The list of the chunks of one size, seen from a chunk \<open>u\<close> that stays.\<close>

lemma unlink_from_list:
  assumes l: "linked s u (xs @ X # ys) u" and d: "distinct (u # xs @ X # ys)"
    and sep: "sep (set (u # xs @ X # ys))" and ok: "\<forall>q\<in>set (u # xs @ ys). ok_address s q"
  defines "s' \<equiv> set_fd (set_bk s (fd s X) (bk s X)) (bk s X) (fd s X)"
  shows "unlink_large_replacement s X = Inr (s', bk s X)" "linked s' u (xs @ ys) u"
    "changes_mem (\<Union>q\<in>set (u # xs @ ys). {q + 16, q + 24}) s s'" "bk s X = last (u # xs)"
proof -
  have l1: "linked s u xs X" and l2: "linked s X ys u" using l by (simp_all add: linked_append)
  have F: "fd s X = hd (ys @ [u])" by (rule linked_fd_first [OF l2])
  show B: "bk s X = last (u # xs)" by (rule linked_bk_last [OF l1])
  have Fin: "fd s X \<in> set (u # xs @ ys)" unfolding F by (cases ys) auto
  have Bin: "bk s X \<in> set (u # xs @ ys)" unfolding B by (cases xs rule: rev_cases) auto
  have bkF: "bk s (fd s X) = X" using l2 F by (cases ys) auto
  have fdB: "fd s (bk s X) = X" using l1 B by (cases xs rule: rev_cases) (auto simp: linked_append)
  have "bk s X \<noteq> X" using Bin d by auto
  then show "unlink_large_replacement s X = Inr (s', bk s X)"
    using bspec [OF ok Fin] bkF fdB by (simp add: unlink_large_replacement_def Let_def s'_def)
  show "linked s' u (xs @ ys) u"
    unfolding s'_def by (rule linked_remove [OF l]) (use d sep_apart [OF sep] in auto)
  show "changes_mem (\<Union>q\<in>set (u # xs @ ys). {q + 16, q + 24}) s s'"
    unfolding s'_def set_fd_def set_bk_def using Fin Bin
    by (intro changes_mem_wr changes_mem_refl) auto
qed

text \<open>What does not depend on the links.\<close>

lemma links_only:
  assumes ch: "changes_mem (\<Union>q\<in>N. {q + 16, q + 24}) s s'" and sep: "sep M" and N: "N \<subseteq> M"
    and q: "q \<in> M"
  shows "tchunk_ok s' i z q = tchunk_ok s i z q" "chained_ok s' q = chained_ok s q"
    "parent s' q = parent s q" "child s' q 0 = child s q 0" "child s' q 1 = child s q 1"
    "index s' q = index s q" "a \<in> offs \<Longrightarrow> a \<noteq> 16 \<Longrightarrow> a \<noteq> 24 \<Longrightarrow> rd s' (q + a) = rd s (q + a)"
proof -
  have k: "rd s' (q + a) = rd s (q + a)" if "a \<in> offs" "a \<noteq> 16" "a \<noteq> 24" for a
  proof (rule changes_memD [OF ch])
    have "q + a \<noteq> p + b" if "p \<in> N" "b \<in> {16, 24}" for p b
      using sep_offs [OF sep q, of p a b] that N \<open>a \<in> offs\<close> \<open>a \<noteq> 16\<close> \<open>a \<noteq> 24\<close> by (auto simp: offs_def)
    then show "q + a \<notin> (\<Union>p\<in>N. {p + 16, p + 24})" by blast
  qed
  then show "a \<in> offs \<Longrightarrow> a \<noteq> 16 \<Longrightarrow> a \<noteq> 24 \<Longrightarrow> rd s' (q + a) = rd s (q + a)" .
  have la: "least_addr s' = least_addr s" by (rule changes_mem_fields [OF ch])
  show "tchunk_ok s' i z q = tchunk_ok s i z q" "chained_ok s' q = chained_ok s q"
    "parent s' q = parent s q" "child s' q 0 = child s q 0" "child s' q 1 = child s q 1"
    "index s' q = index s q"
    using k la by (simp_all add: tchunk_ok_def chained_ok_def chunksize_def head_def index_def
        rd32_def child_def parent_def ok_address_def offs_def)
qed

lemma union_links_cells: "(\<Union>q\<in>N. {q + 16, q + 24}) \<subseteq> body_of N"
  using body_in by (auto simp: body_of_def)

text \<open>A chunk after the first: only the list changes.\<close>

lemma unlink_chained:
  assumes t: "tree_in s i par slot (Node p ch z l r)" and X: "ch = xs @ X # ys"
    and d: "distinct (nodes (Node p ch z l r))" "sep (set (nodes (Node p ch z l r)))"
    and slot: "slot \<notin> cells_of (set (nodes (Node p ch z l r)))"
  shows "\<exists>s'. unlink_large_chunk s X = Inr s' \<and> tree_in s' i par slot (Node p (xs @ ys) z l r)
    \<and> changes_mem (body_of (set (p # xs @ ys))) s s'"
proof -
  let ?M = "set (p # ch)"
  have nok: "node_ok s i par slot p ch z" using t by simp
  define s' where "s' = set_fd (set_bk s (fd s X) (bk s X)) (bk s X) (fd s X)"
  have sepM: "sep ?M" by (rule sep_subset [OF d(2)]) auto
  have ok: "\<forall>q\<in>set (p # xs @ ys). ok_address s q"
    using nok X by (auto simp: node_ok_def tchunk_ok_def)
  have "linked s p (xs @ X # ys) p" "distinct (p # xs @ X # ys)" "sep (set (p # xs @ X # ys))"
    using nok d(1) sepM X by (auto simp: node_ok_def)
  note U = unlink_from_list [OF this ok, folded s'_def]
  note ch = U(3)
  have sub: "set (p # xs @ ys) \<subseteq> ?M" using X by auto
  note K = links_only [OF ch sepM sub]
  have chB: "changes_mem (body_of (set (p # xs @ ys))) s s'"
    by (rule changes_mem_mono [OF ch union_links_cells])
  note chA = changes_mem_mono [OF chB body_cells(2)]
  have "parent s X = 0" using nok X by (auto simp: node_ok_def chained_ok_def)
  then have run: "unlink_large_chunk s X = Inr s'"
    by (simp add: unlink_large_chunk_def U(1) unlink_large_relink_def)
  have la: "least_addr s' = least_addr s" by (rule changes_mem_fields [OF ch])
  have "rd s' slot = rd s slot"
    by (rule changes_memD [OF chA]) (use slot cells_of_mono [OF sub] in auto)
  then have "node_ok s' i par slot p (xs @ ys) z"
    using nok K U(2) X by (auto simp: node_ok_def)
  moreover have "tree_in s' i p (p + a) u" if u: "tree_in s i p (p + a) u" "u = l \<or> u = r"
    "a = 32 \<or> a = 40" for u a
  proof (subst tree_in_cong [OF _ la])
    show "rd s' (p + a) = rd s (p + a)" by (rule K(7)) (use u(3) in \<open>auto simp: offs_def\<close>)
    have "cells_of (set (nodes u)) \<inter> cells_of (set (p # xs @ ys)) = {}"
      by (rule sep_disjoint [OF d(2)]) (use u(2) d(1) X in auto)
    then show "rd s' b = rd s b" if "b \<in> cells_of (set (nodes u))" for b
      using that by (intro changes_memD [OF chA]) blast
  qed (rule u(1))
  ultimately have "tree_in s' i par slot (Node p (xs @ ys) z l r)" using t by simp
  then show ?thesis using run chB by blast
qed

text \<open>The first chunk, when there are more: the last one takes its place.\<close>

lemma unlink_first_of_list:
  assumes pos: "at_slot s i X XP slot" and t: "tree_in s i XP slot (Node X (ys @ [q]) z l r)"
    and d: "distinct (nodes (Node X (ys @ [q]) z l r))" "sep (set (nodes (Node X (ys @ [q]) z l r)))"
    and slot: "slot \<notin> cells_of (set (nodes (Node X (ys @ [q]) z l r)))"
    and H: "treebin_at s i \<notin> cells_of (set (nodes (Node X (ys @ [q]) z l r)))"
      "slot = treebin_at s i \<or> XP + 32 \<notin> cells_of (set (nodes (Node X (ys @ [q]) z l r)))"
  shows "\<exists>s'. unlink_large_chunk s X = Inr s' \<and> tree_in s' i XP slot (Node q ys z l r)
    \<and> changes_mem (insert slot (body_of (set (nodes (Node X (ys @ [q]) z l r))))) s s'"
proof -
  let ?N = "set (nodes (Node X (ys @ [q]) z l r))"
  have nok: "node_ok s i XP slot X (ys @ [q]) z" using t by simp
  note D = node_okD [OF nok]
  define s1 where "s1 = set_fd (set_bk s (fd s X) (bk s X)) (bk s X) (fd s X)"
  have lk: "linked s q ([] @ X # ys) q" using D(4) by (simp add: linked_append)
  have ok: "\<forall>x\<in>set (q # [] @ ys). ok_address s x"
    using nok by (auto simp: node_ok_def tchunk_ok_def)
  have dq: "distinct (q # [] @ X # ys)" "sep (set (q # [] @ X # ys))"
    using d(1) sep_subset [OF d(2), of "set (q # [] @ X # ys)"] by auto
  note U = unlink_from_list [OF lk dq ok, folded s1_def]
  have bX: "bk s X = q" using U(4) by simp
  have sub: "set (q # [] @ ys) \<subseteq> ?N" by auto
  note K = links_only [OF U(3) d(2) sub]
  have chB: "changes_mem (body_of (set (q # ys))) s s1"
    using changes_mem_mono [OF U(3) union_links_cells] by simp
  note chA = changes_mem_mono [OF chB body_cells(2)]
  have chN: "changes_mem (body_of ?N) s s1"
    by (rule changes_mem_mono [OF chB body_of_mono]) auto
  have XN: "X \<in> ?N" by simp
  have cX: "cells X \<inter> cells_of (set (q # ys)) = {}"
    using sep_disjoint [OF d(2), of "{X}" "set (q # ys)"] d(1) by auto
  have pos1: "at_slot s1 i X XP slot"
    by (rule at_slot_changes [OF pos chA])
      (use slot H cX cells_in(7) [of X] cells_of_mono [of "set (q # ys)" ?N] in auto)
  have la: "least_addr s1 = least_addr s" by (rule changes_mem_fields [OF chA])
  have sub1: "tree_in s1 i X (X + a) u" if u: "tree_in s i X (X + a) u" "u = l \<or> u = r"
    "a = 32 \<or> a = 40" for u a
  proof (subst tree_in_cong [OF _ la])
    show "rd s1 (X + a) = rd s (X + a)" by (rule K(7) [OF XN]) (use u(3) in \<open>auto simp: offs_def\<close>)
    have "cells_of (set (nodes u)) \<inter> cells_of (set (q # ys)) = {}"
      by (rule sep_disjoint [OF d(2)]) (use u(2) d(1) in auto)
    then show "rd s1 b = rd s b" if "b \<in> cells_of (set (nodes u))" for b
      using that by (intro changes_memD [OF chA]) blast
  qed (rule u(1))
  have lr: "tree_in s1 i X (X + 32) l" "tree_in s1 i X (X + 40) r" using t by (auto intro!: sub1)
  have fl: "floating s1 i q ys z"
    using nok K U(2) by (auto simp: floating_def node_ok_def chained_ok_def)
  have "distinct (X # q # ys @ nodes l @ nodes r)" using d(1) by auto
  moreover have N: "set (X # q # ys @ nodes l @ nodes r) = ?N" by auto
  ultimately have "\<exists>s'. unlink_large_relink s1 X XP q = Inr s' \<and> tree_in s' i XP slot (Node q ys z l r)
    \<and> changes_mem (insert slot (body_of (insert q (set (nodes l) \<union> set (nodes r))))) s1 s'"
    using d(2) slot by (intro relink_tree [OF pos1 lr fl]) (simp_all only: N not_False_eq_True)
  then obtain s' where s': "unlink_large_relink s1 X XP q = Inr s'"
    "tree_in s' i XP slot (Node q ys z l r)"
    "changes_mem (insert slot (body_of (insert q (set (nodes l) \<union> set (nodes r))))) s1 s'" by blast
  have "unlink_large_chunk s X = Inr s'"
    using s'(1) U(1) D(3) bX by (simp add: unlink_large_chunk_def)
  moreover have "changes_mem (insert slot (body_of ?N)) s s'"
    by (rule changes_mem_trans [OF changes_mem_mono [OF chN] changes_mem_mono [OF s'(3)]]) auto
  ultimately show ?thesis using s'(2) by blast
qed

section \<open>Removing the only chunk of its size\<close>

text \<open>A leaf: the cell that points to it becomes 0, and an empty bin is unmarked.\<close>

lemma alone_fields:
  assumes "node_ok s i par slot X [] z"
  shows "bk s X = X" "parent s X = par" "index s X = i"
  using assms by (auto simp: node_ok_def tchunk_ok_def)

lemma unlink_leaf:
  assumes pos: "at_slot s i X XP slot" and t: "tree_in s i XP slot (Node X [] z Tip Tip)"
    and slot: "slot \<notin> cells X"
  shows "\<exists>s'. unlink_large_chunk s X = Inr s' \<and> rd s' slot = 0 \<and> changes_tree {slot} s s'
    \<and> treemap s' = (if slot = treebin_at s i then treemap s AND NOT (idx2bit i) else treemap s)"
proof -
  have nok: "node_ok s i XP slot X [] z" using t by simp
  note A = alone_fields [OF nok]
  have "unlink_large_replacement s X = Inr (s, 0)"
    using t A by (simp add: unlink_large_replacement_def)
  then have run: "unlink_large_chunk s X = unlink_large_relink s X XP 0"
    using A by (simp add: unlink_large_chunk_def)
  have wr: "changes_tree {slot} s (wr s slot 0)"
    by (intro changes_treeI changes_mem_wr changes_mem_refl) simp
  show ?thesis
  proof (cases "slot = treebin_at s i")
    case True
    let ?s = "clear_treemap (wr s slot 0) (index (wr s slot 0) X)"
    have "rd s slot = X" "XP \<noteq> 0" using pos by (simp_all add: at_slot_def)
    have "slot \<noteq> X + 56" using slot cells_in [of X] by auto
    then have "index (wr s slot 0) X = i" using A(3) by (simp add: index_def rd32_def rd_wr)
    then show ?thesis
      using run True A(3) \<open>rd s slot = X\<close> \<open>XP \<noteq> 0\<close> changes_tree_map(2) [OF wr, of i]
      by (simp add: unlink_large_relink_def Let_def treemap_writes rd_wr wr_fields)
  next
    case False
    then have "unlink_large_relink s X XP 0 = Inr (wr s slot 0)"
      using pos by (auto simp: unlink_large_relink_def Let_def at_slot_def child_def set_child_def)
    then show ?thesis using run wr False by (simp add: rd_wr wr_fields)
  qed
qed

text \<open>A node with children: the rightmost leaf takes its place.\<close>

lemma replacement_leaf:
  assumes t: "tree_in s i par slot (Node X [] z l r)" and lr: "l \<noteq> Tip \<or> r \<noteq> Tip"
    and U: "rightmost (Node X [] z l r) = (r \<noteq> Tip) # bs"
  defines "C \<equiv> slot_at slot (Node X [] z l r) (rightmost (Node X [] z l r))"
  assumes ok: "ok_address s C"
  shows "unlink_large_replacement s X = Inr (wr s C 0, rd s C)"
proof -
  have nok: "node_ok s i par slot X [] z" using t by simp
  define c where "c = (if r \<noteq> Tip then r else l)"
  define RP where "RP = (if r \<noteq> Tip then X + 40 else X + 32)"
  have tc: "tree_in s i X RP c" using t by (simp add: c_def RP_def)
  have c: "c \<noteq> Tip" using lr by (auto simp: c_def)
  have RP: "(if rd s (child_slot X 1) \<noteq> 0 then child_slot X 1 else child_slot X 0) = RP"
    using t tree_in_root [of s i X "X + 40" r] by (simp add: RP_def)
  have C: "C = slot_at RP c (rightmost c)" using lr by (auto simp: C_def c_def RP_def)
  show ?thesis
    unfolding unlink_large_replacement_def Let_def RP
    using alone_fields(1) [OF nok] tree_in_root [OF tc] c ok
      rightmost_leaf_loop_tree [OF tc c] unfolding C [symmetric]
    by simp
qed

lemma unlink_with_children:
  assumes pos: "at_slot s i X XP slot" and t: "tree_in s i XP slot (Node X [] z l r)"
    and lr: "l \<noteq> Tip \<or> r \<noteq> Tip"
    and d: "distinct (nodes (Node X [] z l r))" "sep (set (nodes (Node X [] z l r)))"
    and slot: "slot \<notin> cells_of (set (nodes (Node X [] z l r)))"
    and H: "treebin_at s i \<notin> cells_of (set (nodes (Node X [] z l r)))"
      "slot = treebin_at s i \<or> XP + 32 \<notin> cells_of (set (nodes (Node X [] z l r)))"
  shows "\<exists>s'. unlink_large_chunk s X = Inr s'
    \<and> tree_in s' i XP slot (unlink_root (Node X [] z l r))
    \<and> changes_mem (insert slot (body_of (set (nodes (Node X [] z l r))))) s s'"
proof -
  let ?t = "Node X [] z l r"
  let ?N = "set (nodes ?t)" and ?bs = "rightmost ?t"
  obtain q c zq l' r' where U: "subtree ?t ?bs = Node q c zq Tip Tip"
    "replace ?t ?bs Tip = Node X [] z l' r'" "unlink_root ?t = Node q c zq l' r'"
    "?bs = (r \<noteq> Tip) # rightmost (if r \<noteq> Tip then r else l)"
    by (rule unlink_root_leaf [OF lr])
  define C where "C = slot_at slot ?t ?bs"
  define P where "P = par_at XP ?t ?bs"
  have nb: "?bs \<noteq> []" using U(4) by simp
  have sq: "tree_in s i P C (Node q c zq Tip Tip)"
    using tree_in_subtree [OF t, of ?bs] U(1) by (simp add: P_def C_def)
  then have nq: "node_ok s i P C q c zq" by simp
  have rdC: "rd s C = q" by (rule node_okD [OF nq])
  note I = inner_position [OF t U(1) d(1) nb, folded P_def C_def]
  have CP: "C = P + 32 \<or> C = P + 40" and PN: "P \<in> ?N - set (q # c)" using I by auto
  have okC: "ok_address s C"
    using I word_plus_mono_right2 [of P 56 32] word_plus_mono_right2 [of P 56 40]
    by (auto simp: ok_address_def)
  have rep: "unlink_large_replacement s X = Inr (wr s C 0, q)"
    using replacement_leaf [OF t lr U(4)] okC rdC by (simp add: C_def)
  let ?s = "wr s C 0"
  have CcP: "C \<in> cells P" using CP cells_in by auto
  have CN: "C \<in> cells_of ?N" by (rule cells_ofI [OF _ CcP]) (use PN in blast)
  have CB: "C \<in> body_of ?N" by (rule body_ofI [of P]) (use PN CP body_in in auto)
  have ch: "changes_mem {C} s ?s" by (intro changes_mem_wr changes_mem_refl) simp
  have t': "tree_in ?s i XP slot (replace ?t ?bs Tip)"
  proof (rule tree_in_replace [OF t _ d slot])
    show "changes_mem (insert (slot_at slot ?t ?bs) (cells_of (set (nodes (subtree ?t ?bs))))) s ?s"
      by (rule changes_mem_mono [OF ch]) (simp add: C_def)
    show "tree_in ?s i (par_at XP ?t ?bs) (slot_at slot ?t ?bs) Tip" by (simp add: C_def rd_wr)
  qed (use U(1) in simp)
  then have lr': "tree_in ?s i X (X + 32) l'" "tree_in ?s i X (X + 40) r'" using U(2) by simp_all
  have "cells_of {P} \<inter> cells_of (set (q # c)) = {}"
    by (rule sep_disjoint [OF d(2)]) (use PN nodes_subtree [of ?t ?bs] U(1) in auto)
  then have Cqc: "C \<notin> cells_of (set (q # c))" using CcP by auto
  have fl: "floating ?s i q c zq"
  proof -
    have k: "rd ?s a = rd s a" if "x \<in> set (q # c)" "a \<in> cells x" for x a
      using that Cqc cells_ofI [OF that] by (auto simp: rd_wr)
    have F: "fd ?s x = fd s x" "bk ?s x = bk s x" "tchunk_ok ?s i zq x = tchunk_ok s i zq x"
      "chained_ok ?s x = chained_ok s x" "child ?s x 0 = child s x 0" "child ?s x 1 = child s x 1"
      if "x \<in> set (q # c)" for x
      using fields_cong [OF k [OF that]] tchunk_ok_cong [OF k [OF that]] by (simp_all add: wr_fields)
    have lk: "linked ?s q c q \<longleftrightarrow> linked s q c q"
      by (rule linked_cong) (use F(1,2) in simp_all)
    have "child ?s q 0 = 0" "child ?s q 1 = 0"
      using F(5,6) [of q] sq by (simp_all add: child_def)
    then show ?thesis
      using nq lk F(3,4) unfolding floating_def node_ok_def by (metis list.set_intros(2))
  qed
  have "X + 56 \<noteq> C" using sep_offs [OF d(2), of X P 56 32] sep_offs [OF d(2), of X P 56 40] PN CP
    by (auto simp: offs_def)
  then have pos': "at_slot ?s i X XP slot"
    by (intro at_slot_changes [OF pos ch]) (use slot H CN in auto)
  have D: "distinct (X # q # c @ nodes l' @ nodes r')" "set (X # q # c @ nodes l' @ nodes r') \<subseteq> ?N"
  proof -
    have R: "distinct (nodes (replace ?t ?bs Tip))"
      "set (nodes (replace ?t ?bs Tip)) = ?N - set (q # c)"
      using replace_nodes [OF d(1), of ?bs Tip] U(1) by simp_all
    have "distinct (q # c)" "set (q # c) \<subseteq> ?N"
      using distinct_subtree [OF d(1), of ?bs] nodes_subtree [of ?t ?bs] U(1) by simp_all
    then show "distinct (X # q # c @ nodes l' @ nodes r')"
      "set (X # q # c @ nodes l' @ nodes r') \<subseteq> ?N"
      using R unfolding U(2) by auto
  qed
  have "slot \<notin> cells_of (set (X # q # c @ nodes l' @ nodes r'))"
    using slot cells_of_mono [OF D(2)] by blast
  note relink_tree [OF pos' lr' fl D(1) sep_subset [OF d(2) D(2)] this]
  then obtain s' where s': "unlink_large_relink ?s X XP q = Inr s'"
    "tree_in s' i XP slot (Node q c zq l' r')"
    "changes_mem (insert slot (body_of (insert q (set (nodes l') \<union> set (nodes r'))))) ?s s'" by blast
  have nok: "node_ok s i XP slot X [] z" using t by simp
  have "unlink_large_chunk s X = Inr s'"
    using s'(1) rep alone_fields(2) [OF nok] by (simp add: unlink_large_chunk_def)
  moreover have "changes_mem (insert slot (body_of ?N)) s s'"
  proof (rule changes_mem_trans [OF changes_mem_mono [OF ch] changes_mem_mono [OF s'(3)]])
    show "{C} \<subseteq> insert slot (body_of ?N)" using CB by simp
    have "insert q (set (nodes l') \<union> set (nodes r')) \<subseteq> ?N" using D(2) by auto
    from body_of_mono [OF this]
    show "insert slot (body_of (insert q (set (nodes l') \<union> set (nodes r'))))
      \<subseteq> insert slot (body_of ?N)" by blast
  qed
  ultimately show ?thesis using s'(2) U(3) by simp
qed

section \<open>Removal from a tree\<close>

lemma replace_Tip: "subtree t bs \<noteq> Tip \<Longrightarrow> replace t bs u = Tip \<longleftrightarrow> bs = [] \<and> u = Tip"
  by (induction t bs rule: subtree.induct) auto

text \<open>
  The result of removing \<open>(X, z)\<close>: the tree \<open>t\<close> without the pair, in the same shape.
\<close>

definition removed :: "addr \<Rightarrow> size_t \<Rightarrow> trie \<Rightarrow> trie \<Rightarrow> bool" where
  "removed X z t t' \<longleftrightarrow> entries t' = entries t - {(X, z)} \<and> distinct (nodes t')
     \<and> (\<forall>k. shape k t \<longrightarrow> shape k t')"

lemma removed_subset:
  assumes "removed X z t t'"
  shows "sizes t' \<subseteq> sizes t" "set (nodes t') \<subseteq> set (nodes t)"
  using assms unfolding removed_def entries_nodes [symmetric] entries_sizes [symmetric] by auto

lemma removed_replace:
  assumes d: "distinct (nodes t)" and n: "subtree t bs \<noteq> Tip"
    and r: "removed X z (subtree t bs) u" and X: "(X, z) \<in> entries (subtree t bs)"
  shows "removed X z t (replace t bs u)"
proof -
  have e: "entries u = entries (subtree t bs) - {(X, z)}" and u: "distinct (nodes u)"
    "\<And>k. shape k (subtree t bs) \<Longrightarrow> shape k u"
    using r by (simp_all add: removed_def)
  have "entries (replace t bs u) = entries t - {(X, z)}"
    using replace_entries [OF d n, of u] entries_subtree [of t bs] X e by auto
  moreover have "distinct (nodes (replace t bs u))"
    using replace_nodes [OF d n u(1) removed_subset(2) [OF r]] by blast
  moreover have "shape k (replace t bs u)" if "shape k t" for k
    by (rule shape_replace [OF that removed_subset(1) [OF r] u(2)])
  ultimately show ?thesis by (simp add: removed_def)
qed

lemma removed_unlink_root:
  assumes "distinct (nodes (Node X ch z l r))"
  shows "removed X z (Node X ch z l r) (unlink_root (Node X ch z l r))"
  unfolding removed_def
  by (intro conjI allI impI entries_unlink_root [OF assms] shape_unlink_root(1))

lemma removed_chained:
  assumes "distinct (nodes (Node p (xs @ X # ys) z l r))"
  shows "removed X z (Node p (xs @ X # ys) z l r) (Node p (xs @ ys) z l r)"
  using assms by (auto simp: removed_def dest: not_in_entries)

text \<open>The three cases at a position, for the tree as a whole.\<close>

lemma unlink_in_tree:
  assumes t: "tree_in s i H H t" "distinct (nodes t)" "sep (set (nodes t))"
    and H: "H = treebin_at s i" "H \<notin> cells_of (set (nodes t))" "H \<noteq> 0"
    and X: "(X, z) \<in> entries t"
  shows "\<exists>s' t'. unlink_large_chunk s X = Inr s' \<and> tree_in s' i H H t' \<and> removed X z t t'
    \<and> changes_tree (insert H (body_of (set (nodes t)))) s s'
    \<and> treemap s' = (if t' = Tip then treemap s AND NOT (idx2bit i) else treemap s)"
proof -
  let ?A = "insert H (body_of (set (nodes t)))"
  obtain bs p ch l r where sub: "subtree t bs = Node p ch z l r" and Xp: "X \<in> set (p # ch)"
    using find_entry [OF X] by blast
  define XP C where "XP = par_at H t bs" and "C = slot_at H t bs"
  note P = position [OF t(1) sub t(2,3) H, folded XP_def C_def]
  let ?N = "set (nodes (Node p ch z l r))"
  have nt: "subtree t bs \<noteq> Tip" using sub by simp
  have Xs: "(X, z) \<in> entries (subtree t bs)" using Xp unfolding sub by auto
  have AN: "insert C (body_of ?N) \<subseteq> ?A" using P(10) body_of_mono [OF P(6)] by blast
  have finish: ?thesis if u: "unlink_large_chunk s X = Inr s'" "tree_in s' i XP C u"
    "changes_mem (insert C (body_of ?N)) s s'" "removed X z (subtree t bs) u" "u \<noteq> Tip" for s' u
  proof -
    have "tree_in s' i H H (replace t bs u)"
      by (rule tree_in_replace [OF t(1) nt t(2,3) H(2)])
        (use u(2) changes_mem_mono [OF u(3) insert_mono [OF body_cells(2)]] sub
          in \<open>simp_all add: XP_def C_def\<close>)
    moreover have "changes_tree ?A s s'" by (rule changes_treeI [OF changes_mem_mono [OF u(3) AN]])
    moreover have "treemap s' = treemap s" by (rule changes_mem_fields [OF u(3)])
    ultimately show ?thesis
      using u(1,5) removed_replace [OF t(2) nt u(4) Xs] replace_Tip [OF nt, of u] by auto
  qed
  show ?thesis
  proof (cases "X = p")
    case True
    have d: "removed X z (subtree t bs) (unlink_root (Node p ch z l r))"
      unfolding sub True by (rule removed_unlink_root [OF P(8)])
    show ?thesis
    proof (cases ch rule: rev_cases)
      case (snoc ys q)
      obtain s' where "unlink_large_chunk s X = Inr s'" "tree_in s' i XP C (Node q ys z l r)"
        "changes_mem (insert C (body_of ?N)) s s'"
        using unlink_first_of_list [of s i p XP C ys q z l r] P(1-5,8,9) unfolding True snoc by blast
      then show ?thesis using d snoc by (intro finish [of s' "Node q ys z l r"]) simp_all
    next
      case Nil
      show ?thesis
      proof (cases "l = Tip \<and> r = Tip")
        case False
        then have lr: "l \<noteq> Tip \<or> r \<noteq> Tip" by blast
        obtain s' where s': "unlink_large_chunk s X = Inr s'"
          "tree_in s' i XP C (unlink_root (Node p ch z l r))"
          "changes_mem (insert C (body_of ?N)) s s'"
          using unlink_with_children [OF _ _ lr, of s i p XP C z] P(1-5,8,9) unfolding True Nil
          by blast
        have "unlink_root (Node p ch z l r) \<noteq> Tip"
          using unlink_root_leaf [OF lr, of p z] unfolding Nil by fastforce
        then show ?thesis using s' d by (intro finish)
      next
        case tips: True
        have pN: "C \<notin> cells p" using P(3) by simp
        obtain s' where s': "unlink_large_chunk s X = Inr s'" "rd s' C = 0" "changes_tree {C} s s'"
          "treemap s' = (if C = H then treemap s AND NOT (idx2bit i) else treemap s)"
          using unlink_leaf [of s i p XP C z] P(1,2) pN tips unfolding True Nil H(1) by blast
        define s'' where "s'' = s'\<lparr>treemap := treemap s\<rparr>"
        have c: "changes_mem {C} s s''"
          using s'(3) by (cases s, cases s') (auto simp: s''_def changes_tree_def changes_mem_def rd_def)
        have rd: "rd s'' = rd s'" "least_addr s'' = least_addr s'" by (simp_all add: s''_def rd_def fun_eq_iff)
        have "tree_in s'' i H H (replace t bs Tip)"
          by (rule tree_in_replace [OF t(1) nt t(2,3) H(2)])
            (use changes_mem_mono [OF c] s'(2) in \<open>auto simp: XP_def C_def rd\<close>)
        then have tr: "tree_in s' i H H (replace t bs Tip)" using fields_rd_cong(3) [OF rd] by blast
        have CH: "C = H \<longleftrightarrow> bs = []"
        proof (cases "bs = []")
          case False
          note I = inner_position [OF t(1) sub t(2) False, folded XP_def C_def]
          have "C \<in> cells_of (set (nodes t))"
            by (rule cells_ofI [of XP]) (use I cells_in [of XP] in auto)
          then show ?thesis using False H(2) by blast
        qed (simp add: C_def)
        have cA: "changes_tree ?A s s'"
          by (rule changes_tree_mono [OF s'(3)]) (use P(10) in simp)
        have u: "unlink_root (Node p ch z l r) = Tip" using Nil tips by (simp add: Let_def)
        have "treemap s' = (if replace t bs Tip = Tip then treemap s AND NOT (idx2bit i) else treemap s)"
          unfolding s'(4) CH replace_Tip [OF nt] by simp
        then show ?thesis
          using s'(1) tr cA removed_replace [OF t(2) nt d Xs] unfolding u by blast
      qed
    qed
  next
    case False
    then obtain xs ys where ch: "ch = xs @ X # ys" using Xp split_list [of X ch] by auto
    from unlink_chained [OF P(2) ch P(8,9,3)] obtain s' where s': "unlink_large_chunk s X = Inr s'"
      "tree_in s' i XP C (Node p (xs @ ys) z l r)" "changes_mem (body_of (set (p # xs @ ys))) s s'"
      by blast
    have c: "changes_mem (insert C (body_of ?N)) s s'"
    proof (rule changes_mem_mono [OF s'(3)])
      have "set (p # xs @ ys) \<subseteq> ?N" using ch by auto
      from body_of_mono [OF this] show "body_of (set (p # xs @ ys)) \<subseteq> insert C (body_of ?N)" by blast
    qed
    have "removed X z (subtree t bs) (Node p (xs @ ys) z l r)"
      unfolding sub ch by (rule removed_chained [OF P(8) [unfolded ch]])
    then show ?thesis by (rule finish [OF s'(1,2) c]) simp
  qed
qed

section \<open>Removal from the array of tree bins\<close>

lemma unlink_large_chunk_tree:
  assumes ok: "treebins_ok s T" and i: "i < 32" and X: "(X, z) \<in> entries (T i)"
  shows "\<exists>s' t'. unlink_large_chunk s X = Inr s' \<and> treebins_ok s' (T(i := t'))
    \<and> entries t' = entries (T i) - {(X, z)}
    \<and> changes_tree (insert (treebin_at s (of_nat i)) (body_of (set (nodes (T i))))) s s'"
proof -
  note D = treebins_okD [OF ok]
  let ?H = "treebin_at s (of_nat i)"
  have H: "?H \<in> tree_headers s" using i by (rule tree_headersI)
  have Ti: "set (nodes (T i)) \<subseteq> all_nodes T" using all_nodesI [OF i] by blast
  have b: "bin_ok i (T i)" using D(4) i by blast
  have "?H \<notin> cells_of (set (nodes (T i)))" using D(2) H cells_of_mono [OF Ti] by blast
  moreover have "?H \<noteq> 0" using D(7) H by metis
  ultimately obtain s' t' where s': "unlink_large_chunk s X = Inr s'" "tree_in s' (of_nat i) ?H ?H t'"
    "removed X z (T i) t'" "changes_tree (insert ?H (body_of (set (nodes (T i))))) s s'"
    "treemap s' = (if t' = Tip then treemap s AND NOT (idx2bit (of_nat i)) else treemap s)"
    using unlink_in_tree [OF D(6) [OF i] _ sep_subset [OF D(1) Ti] refl _ _ X] b
    unfolding bin_ok_def by blast
  note R = removed_subset [OF s'(3)]
  have "treebins_ok s' (T(i := t'))"
  proof (rule treebins_ok_upd [OF ok i, where N = "{}"])
    show "s' = s\<lparr>mem := mem s', treemap := treemap s'\<rparr>" using s'(4) by (simp add: changes_tree_def)
    show "rd s' a = rd s a" if "a \<notin> insert ?H (cells_of (set (nodes (T i)) \<union> {}))" for a
      using s'(4) that not_in_body by (auto simp: changes_tree_def)
    show "bin_ok i t'" using b s'(3) R(1) by (auto simp: bin_ok_def removed_def)
    have "T i \<noteq> Tip" using X by auto
    then show "bit (treemap s') j \<longleftrightarrow> (if j = i then t' \<noteq> Tip else bit (treemap s) j)"
      if "j < 32" for j
      using bit_mark(2) [OF i that, of "treemap s"] D(5) [OF i] s'(5) by auto
  qed (use s'(2) R(2) D(1) in auto)
  then show ?thesis using s'(1,3,4) by (auto simp: removed_def)
qed

end
