(* ===== verification/DL_TreeSearch.thy ===== *)
theory DL_TreeSearch
  imports DL_TreeUnlink
begin

text \<open>
  The searches \<open>tmalloc_small\<close> and \<open>tmalloc_large\<close> of src/src/dlmalloc.c choose a chunk of the
  least size that holds the request. The reason is the order the shape of a tree gives: all sizes
  below \<open>child[0]\<close> are less than all sizes below \<open>child[1]\<close>.
\<close>

section \<open>The order of a tree\<close>

fun ordered :: "trie \<Rightarrow> bool" where
  "ordered Tip \<longleftrightarrow> True"
| "ordered (Node p ch z l r) \<longleftrightarrow>
     (\<forall>x\<in>sizes l. \<forall>y\<in>sizes r. x < y) \<and> ordered l \<and> ordered r"

lemma bit_div: "unat (x :: size_t) div 2 ^ n = 2 * (unat x div 2 ^ Suc n) + of_bool (bit x n)"
proof -
  have "bit x n \<longleftrightarrow> bit (unat x) n" by (auto simp: bit_unsigned_iff dest: bit_imp_le_length)
  then have "bit x n \<longleftrightarrow> odd (unat x div 2 ^ n)" by (simp add: bit_iff_odd)
  moreover have "unat x div 2 ^ Suc n = unat x div 2 ^ n div 2" by (simp only: power_Suc2 div_mult2_eq)
  ultimately show ?thesis by simp
qed

lemma drop_bit_eq_iff: "drop_bit n x = drop_bit n (y :: size_t) \<longleftrightarrow> unat x div 2 ^ n = unat y div 2 ^ n"
  by (simp only: word_unat_eq_iff unat_drop)

lemma less_if_bit:
  assumes "drop_bit (Suc n) x = drop_bit (Suc n) (y :: size_t)" "\<not> bit x n" "bit y n"
  shows "x < y"
proof (rule ccontr)
  assume "\<not> x < y"
  then have "unat y div 2 ^ n \<le> unat x div 2 ^ n" by (simp add: word_less_nat_alt div_le_mono)
  then show False using assms bit_div [of x n] bit_div [of y n] by (simp add: drop_bit_eq_iff)
qed

lemma drop_bit_agree:
  "drop_bit (Suc n) x = drop_bit (Suc n) (y :: size_t) \<Longrightarrow> bit x n = bit y n
    \<Longrightarrow> drop_bit n x = drop_bit n y"
  by (simp only: drop_bit_eq_iff bit_div [of x n] bit_div [of y n])

text \<open>The key at a level where the sizes agree above the bit \<open>n\<close>.\<close>

lemma key_bit: "m + Suc n = 64 \<Longrightarrow> bit (push_bit m y :: size_t) 63 \<longleftrightarrow> bit y n"
proof -
  assume m: "m + Suc n = 64"
  then have "63 - m = n" "m \<le> 63" by simp_all
  then show ?thesis by (simp add: bit_push_bit_iff)
qed

lemma shape_children:
  assumes sh: "shape (push_bit m) (Node p ch z l r)" and m: "m + n = 64"
    and a: "\<And>x y. x \<in> sizes (Node p ch z l r) \<Longrightarrow> y \<in> sizes (Node p ch z l r) \<Longrightarrow> drop_bit n x = drop_bit n y"
  obtains (leaf) "l = Tip" "r = Tip" "n = 0"
  | (inner) k where "n = Suc k" "Suc m + k = 64" "shape (push_bit (Suc m)) l" "shape (push_bit (Suc m)) r"
      "\<And>x. x \<in> sizes l \<Longrightarrow> \<not> bit x k" "\<And>x. x \<in> sizes r \<Longrightarrow> bit x k"
      "\<And>x y. x \<in> sizes l \<Longrightarrow> y \<in> sizes l \<Longrightarrow> drop_bit k x = drop_bit k y"
      "\<And>x y. x \<in> sizes r \<Longrightarrow> y \<in> sizes r \<Longrightarrow> drop_bit k x = drop_bit k y"
      "\<And>x y. x \<in> sizes l \<Longrightarrow> y \<in> sizes r \<Longrightarrow> x < y"
proof (cases n)
  case 0
  have z: "y = z" if "y \<in> sizes l \<union> sizes r" for y using a [of y z] that 0 by simp
  then have "sizes l = {}" "sizes r = {}" using sh by auto
  moreover have "t = Tip" if "sizes t = {}" for t using that by (cases t) auto
  ultimately show ?thesis using leaf 0 by blast
next
  case (Suc k)
  have m': "m + Suc k = 64" using m Suc by simp
  have kl: "\<not> bit x k" if "x \<in> sizes l" for x using sh that key_bit [OF m', of x] by simp
  have kr: "bit x k" if "x \<in> sizes r" for x using sh that key_bit [OF m', of x] by simp
  have A: "drop_bit (Suc k) x = drop_bit (Suc k) y" if "x \<in> sizes l \<union> sizes r" "y \<in> sizes l \<union> sizes r" for x y
    using a [of x y] that Suc by auto
  have "(\<lambda>y. push_bit 1 (push_bit m y)) = (push_bit (Suc m) :: size_t \<Rightarrow> size_t)"
    by (rule ext) (metis push_bit_push_bit plus_1_eq_Suc)
  then have sh': "shape (push_bit (Suc m)) l" "shape (push_bit (Suc m)) r"
    using sh unfolding shape.simps by (simp_all only:)
  show ?thesis
  proof (rule inner [of k])
    show "drop_bit k x = drop_bit k y" if "x \<in> sizes l" "y \<in> sizes l" for x y
      by (rule drop_bit_agree [OF A]) (use that kl in auto)
    show "drop_bit k x = drop_bit k y" if "x \<in> sizes r" "y \<in> sizes r" for x y
      by (rule drop_bit_agree [OF A]) (use that kr in auto)
    show "x < y" if "x \<in> sizes l" "y \<in> sizes r" for x y
      by (rule less_if_bit [OF A]) (use that kl kr in auto)
  qed (use Suc m' sh' kl kr in auto)
qed

lemma shape_ordered:
  assumes "shape (push_bit m) t" "m + n = 64"
    "\<And>x y. x \<in> sizes t \<Longrightarrow> y \<in> sizes t \<Longrightarrow> drop_bit n x = drop_bit n y"
  shows "ordered t"
  using assms
proof (induction t arbitrary: m n)
  case (Node p ch z l r)
  show ?case
  proof (rule shape_children [OF Node.prems])
    fix k
    assume *: "Suc m + k = 64" "shape (push_bit (Suc m)) l" "shape (push_bit (Suc m)) r"
      "\<And>x y. x \<in> sizes l \<Longrightarrow> y \<in> sizes l \<Longrightarrow> drop_bit k x = drop_bit k y"
      "\<And>x y. x \<in> sizes r \<Longrightarrow> y \<in> sizes r \<Longrightarrow> drop_bit k x = drop_bit k y"
      "\<And>x y. x \<in> sizes l \<Longrightarrow> y \<in> sizes r \<Longrightarrow> x < y"
    show ?thesis using Node.IH(1) [OF *(2,1,4)] Node.IH(2) [OF *(3,1,5)] *(6) by simp
  qed simp_all
qed simp

section \<open>The order of the bins\<close>

lemma leftshift_nat:
  assumes "i < 32"
  shows "leftshift_for_tree_index (of_nat i) = (if i = 31 then 0 else 57 - i div 2)"
proof -
  have u: "unat (of_nat i :: u32) = i" using assms by (simp add: unat_of_nat)
  have "(of_nat i :: u32) = 31 \<longleftrightarrow> i = 31" using u by (auto simp: word_unat_eq_iff)
  moreover have "unat (drop_bit 1 (of_nat i :: u32)) = i div 2" using unat_drop [of 1 "of_nat i :: u32"] u by simp
  ultimately show ?thesis by (simp add: leftshift_for_tree_index_def dl_consts)
qed

lemma bin_sizes:
  assumes "bin_ok i t" "z \<in> sizes t" "i < 32"
  shows "256 \<le> unat z" "unat z < 2 ^ 40" "unat (compute_tree_index z) = i"
proof -
  have z: "\<not> is_small z" "unat z < 2 ^ 40" "compute_tree_index z = of_nat i"
    using assms by (auto simp: bin_ok_def)
  have "32 \<le> unat z div 8" using z(1) by (simp add: is_small_def dl_consts word_less_nat_alt unat_drop [of 3, simplified])
  then show "256 \<le> unat z" by linarith
  show "unat z < 2 ^ 40" by (rule z)
  show "unat (compute_tree_index z) = i" using assms(3) z(3) by (simp add: unat_of_nat)
qed

lemma index_agree:
  assumes "256 \<le> unat y" "unat y < 2 ^ 40" "unat (compute_tree_index y) = i"
    "256 \<le> unat z" "unat z < 2 ^ 40" "unat (compute_tree_index z) = i"
  defines "n \<equiv> 64 - leftshift_for_tree_index (of_nat i)"
  shows "drop_bit n y = drop_bit n z" "leftshift_for_tree_index (of_nat i) + n = 64"
proof -
  have i: "i < 32" using tree_index_range(1) [OF assms(1,2)] assms(3) by simp
  show "leftshift_for_tree_index (of_nat i) + n = 64" using i by (simp add: n_def leftshift_nat)
  show "drop_bit n y = drop_bit n z"
  proof (cases "i = 31")
    case True
    have z: "unat x div 2 ^ 64 = 0" for x :: size_t using unsigned_less [of x, where 'a = nat] by simp
    have "n = 64" using True leftshift_nat [of 31] by (simp add: n_def)
    moreover have "unat y div 2 ^ 64 = unat z div 2 ^ 64"
      by (simp only: z)
    ultimately show ?thesis by (simp only: drop_bit_eq_iff)
  next
    case False
    have "unat x div 2 ^ (i div 2 + 7) = 2 + i mod 2"
      if "256 \<le> unat x" "unat x < 2 ^ 40" "unat (compute_tree_index x) = i" for x :: size_t
    proof (rule div_nat_eqI)
      note R = tree_index_range [OF that(1,2), unfolded that(3)]
      show "2 ^ (i div 2 + 7) * (2 + i mod 2) \<le> unat x" using R(2) by (simp add: mult.commute)
      have "(2 + (i + 1) mod 2) * 2 ^ ((i + 1) div 2 + 7) = 2 ^ (i div 2 + 7) * Suc (2 + i mod 2)"
        by (cases "even i") (auto elim!: evenE oddE simp: power_add)
      then show "unat x < 2 ^ (i div 2 + 7) * Suc (2 + i mod 2)" using R(3) False by simp
    qed
    from this [OF assms(1-3)] this [OF assms(4-6)] show ?thesis
      using False i by (simp add: n_def leftshift_nat drop_bit_eq_iff add.commute)
  qed
qed

lemma bin_ordered:
  assumes "bin_ok i t" "i < 32"
  shows "ordered t"
proof (rule shape_ordered)
  show "shape (push_bit (leftshift_for_tree_index (of_nat i))) t"
    using assms(1) by (simp add: bin_ok_def bin_key_def [abs_def])
  show "leftshift_for_tree_index (of_nat i) + (64 - leftshift_for_tree_index (of_nat i)) = 64"
    using assms(2) by (simp add: leftshift_nat)
  show "drop_bit (64 - leftshift_for_tree_index (of_nat i)) x = drop_bit (64 - leftshift_for_tree_index (of_nat i)) y"
    if "x \<in> sizes t" "y \<in> sizes t" for x y
    by (rule index_agree) (use bin_sizes [OF assms(1) _ assms(2)] that in auto)
qed

lemma bins_ordered:
  assumes "bin_ok i t" "bin_ok j u" "i < j" "j < 32" "x \<in> sizes t" "y \<in> sizes u"
  shows "x < y"
proof (rule ccontr)
  assume "\<not> x < y"
  then have "unat y \<le> unat x" by (simp add: word_less_nat_alt)
  moreover have "i < 32" using assms by simp
  note bin_sizes [OF assms(1,5) this] bin_sizes [OF assms(2,6,4)]
  ultimately show False using compute_tree_index_mono [of y x] assms(3) by simp
qed

section \<open>The smallest chunk of a subtree\<close>

lemma sub_mono:
  fixes nb y z :: size_t
  assumes "nb \<le> y" "nb \<le> z"
  shows "y - nb \<le> z - nb \<longleftrightarrow> y \<le> z"
  using assms by (auto simp: word_le_nat_alt unat_sub)

text \<open>
  \<open>least_fit\<close>: the pair (chunk, remainder) is the one given, or that of an entry with a smaller
  remainder; no entry has a smaller one.
\<close>

definition least_fit :: "size_t \<Rightarrow> (addr \<times> size_t) set \<Rightarrow> addr \<times> size_t \<Rightarrow> addr \<times> size_t \<Rightarrow> bool" where
  "least_fit nb E vr vr' \<longleftrightarrow> (\<forall>y\<in>snd ` E. snd vr' \<le> y - nb)
     \<and> (vr' = vr \<or> (\<exists>z. (fst vr', z) \<in> E \<and> snd vr' = z - nb \<and> snd vr' < snd vr))"

lemma leftmost_child_rd: "leftmost_child s p = (if rd s (p + 32) \<noteq> 0 then rd s (p + 32) else rd s (p + 40))"
  by (simp add: leftmost_child_def child_def)

lemma tree_in_node:
  assumes "tree_in s i par slot (Node q qs y cl cr)"
  shows "rd s slot = q" "q \<noteq> 0" "chunksize s q = y" "child s q 0 = rd s (q + 32)"
    "child s q 1 = rd s (q + 40)" "tree_in s i q (q + 32) cl" "tree_in s i q (q + 40) cr" "ok_address s q"
  using assms by (auto simp: node_ok_def tchunk_ok_def child_def)

text \<open>One round of the loop; \<open>better\<close> is the update of the local variables \<open>v\<close> and \<open>rsize\<close>.\<close>

definition better :: "size_t \<Rightarrow> addr \<times> size_t \<Rightarrow> addr \<times> size_t \<Rightarrow> addr \<times> size_t" where
  "better nb qy vr = (if snd qy - nb < snd vr then (fst qy, snd qy - nb) else vr)"

lemma least_fit_better:
  assumes "least_fit nb E (better nb (q, y) vr) vr'" "E \<subseteq> E'" "y - nb < snd vr \<Longrightarrow> (q, y) \<in> E'"
    and cov: "\<And>x. x \<in> snd ` E' \<Longrightarrow> x = y \<or> (\<exists>w\<in>snd ` E. w - nb \<le> x - nb)"
  shows "least_fit nb E' vr vr'"
proof -
  have le: "snd vr' \<le> y - nb" "snd vr' \<le> snd vr"
    using assms(1) by (auto simp: least_fit_def better_def split: if_splits)
  have "snd vr' \<le> x - nb" if "x \<in> snd ` E'" for x
    using cov [OF that] le(1) assms(1) unfolding least_fit_def by (meson order_trans)
  moreover have "vr' = vr \<or> (\<exists>z. (fst vr', z) \<in> E' \<and> snd vr' = z - nb \<and> snd vr' < snd vr)"
    using assms(1-3) unfolding least_fit_def better_def by (auto split: if_splits)
  ultimately show ?thesis by (simp add: least_fit_def)
qed

lemma smallest_step:
  assumes t: "tree_in s i par slot (Node q qs y cl cr)"
    and vr: "smallest_loop s nb (leftmost_child s q) (fst (better nb (q, y) vr0)) (snd (better nb (q, y) vr0)) = Some vr"
      "least_fit nb (entries cl \<union> entries cr) (better nb (q, y) vr0) vr"
  shows "smallest_loop s nb q (fst vr0) (snd vr0) = Some vr"
    "least_fit nb (entries (Node q qs y cl cr)) vr0 vr"
proof -
  note N = tree_in_node [OF t]
  show "smallest_loop s nb q (fst vr0) (snd vr0) = Some vr"
    using vr(1) N(2,3) by (subst smallest_loop.simps) (auto simp: Let_def better_def split: if_splits)
  show "least_fit nb (entries (Node q qs y cl cr)) vr0 vr"
    by (rule least_fit_better [OF vr(2)]) (auto simp: image_Un image_image entries_sizes)
qed

lemma smallest_below_node:
  assumes "tree_in s i par slot (Node p ch z l r)" "ordered (Node p ch z l r)"
    and "snd vr0 = 0 \<or> (\<forall>y\<in>sizes l \<union> sizes r. nb \<le> y)"
  shows "\<exists>vr. smallest_loop s nb (leftmost_child s p) (fst vr0) (snd vr0) = Some vr
    \<and> least_fit nb (entries l \<union> entries r) vr0 vr"
  using assms
proof (induction "size l + size r" arbitrary: par slot p ch z l r vr0 rule: less_induct)
  case less
  note T = tree_in_node [OF less.prems(1)]
  note roots = tree_in_root [OF T(6)] tree_in_root [OF T(7)]
  show ?case
  proof (cases "l = Tip \<and> r = Tip")
    case True
    then have "leftmost_child s p = 0" using roots by (simp add: leftmost_child_rd)
    then show ?thesis using True by (subst smallest_loop.simps) (simp add: least_fit_def)
  next
    case False
    define c where "c = (if l \<noteq> Tip then l else r)"
    obtain q qs y cl cr where c: "c = Node q qs y cl cr"
      using False by (cases c) (auto simp: c_def split: if_splits)
    obtain sl where tc: "tree_in s i p sl c" and rd: "rd s sl = leftmost_child s p"
      using T(6,7) roots by (auto simp: c_def leftmost_child_rd)
    have q: "leftmost_child s p = q" using tree_in_node(1) [OF tc [unfolded c]] rd by simp
    have oc: "ordered c" using less.prems(2) by (simp add: c_def)
    have nbc: "snd (better nb (q, y) vr0) = 0 \<or> (\<forall>x\<in>sizes cl \<union> sizes cr. nb \<le> x)"
      using less.prems(3) c by (auto simp: c_def better_def split: if_splits)
    have "size cl + size cr < size l + size r"
      using arg_cong [OF c, of size] by (auto simp: c_def split: if_splits)
    from less.hyps [OF this tc [unfolded c] oc [unfolded c] nbc]
    obtain vr where vr: "smallest_loop s nb q (fst vr0) (snd vr0) = Some vr"
      "least_fit nb (entries c) vr0 vr" using smallest_step [OF tc [unfolded c]] unfolding c by blast
    have "least_fit nb (entries l \<union> entries r) vr0 vr"
    proof (cases "l = Tip")
      case True
      then show ?thesis using vr(2) by (simp add: c_def)
    next
      case nt: False
      have "snd vr \<le> x - nb" if x: "x \<in> sizes r" for x
      proof (cases "snd vr0 = 0")
        case True
        then show ?thesis using vr(2) by (auto simp: least_fit_def)
      next
        case False
        have "y \<in> sizes l" using nt c by (simp add: c_def)
        then have "y < x" "nb \<le> y" "nb \<le> x" using less.prems(2,3) x False by auto
        then have "y - nb \<le> x - nb" by (simp add: sub_mono less_imp_le)
        moreover have "snd vr \<le> y - nb" using vr(2) unfolding least_fit_def entries_sizes c by simp
        ultimately show ?thesis by simp
      qed
      then show ?thesis using vr(2) nt
        unfolding least_fit_def c_def image_Un entries_sizes by auto
    qed
    then show ?thesis using vr(1) q by blast
  qed
qed

lemma smallest_loop_tree:
  assumes t: "tree_in s i par slot t" "ordered t" "snd vr0 = 0 \<or> (\<forall>y\<in>sizes t. nb \<le> y)"
  shows "\<exists>vr. smallest_loop s nb (rd s slot) (fst vr0) (snd vr0) = Some vr
    \<and> least_fit nb (entries t) vr0 vr"
proof (cases t)
  case Tip
  then show ?thesis using t(1) by (subst smallest_loop.simps) (simp add: least_fit_def)
next
  case (Node q qs y cl cr)
  have "snd (better nb (q, y) vr0) = 0 \<or> (\<forall>y\<in>sizes cl \<union> sizes cr. nb \<le> y)"
    using t(3) Node by (auto simp: better_def)
  from smallest_below_node [OF t(1,2) [unfolded Node] this]
  show ?thesis
    using smallest_step [OF t(1) [unfolded Node]] tree_in_node(1) [OF t(1) [unfolded Node]]
    unfolding Node by blast
qed

section \<open>The search for small requests\<close>

lemma tree_in_entry:
  "tree_in s i par slot t \<Longrightarrow> (v, z) \<in> entries t
    \<Longrightarrow> tchunk_ok s i z v"
  by (induction t arbitrary: par slot) (auto simp: node_ok_def)

text \<open>All free large chunks, with their sizes.\<close>

definition tree_entries :: "(nat \<Rightarrow> trie) \<Rightarrow> (addr \<times> size_t) set" where
  "tree_entries T = (\<Union>i<32. entries (T i))"

lemma tree_entriesE:
  assumes "(p, y) \<in> tree_entries T"
  obtains i where "i < 32" "(p, y) \<in> entries (T i)" "y \<in> sizes (T i)" "T i \<noteq> Tip"
  using assms unfolding tree_entries_def entries_sizes [symmetric] by force

lemma tree_entriesI: "i < 32 \<Longrightarrow> e \<in> entries (T i) \<Longrightarrow> e \<in> tree_entries T"
  by (auto simp: tree_entries_def)

lemma bit_treemap_32: "bit (treemap s) i \<Longrightarrow> i < 32"
  using bit_imp_le_length [of "treemap s" i] by simp

text \<open>The least entry of a bin is the least of all entries that are not in an earlier bin.\<close>

lemma least_of_bin:
  assumes ok: "treebins_ok s T" and i: "i < 32"
    and z: "\<And>y. y \<in> sizes (T i) \<Longrightarrow> z \<le> y" "z \<in> sizes (T i)"
    and j: "j < 32" "y \<in> sizes (T j)" "i \<le> j"
  shows "z \<le> y"
proof (cases "i = j")
  case True
  then show ?thesis using z(1) j(2) by simp
next
  case False
  then have "i < j" using j(3) by simp
  note D = treebins_okD(4) [OF ok]
  show ?thesis using bins_ordered [OF D [OF i] D [OF j(1)] \<open>i < j\<close> j(1) z(2) j(2)] by simp
qed

lemma least_fit_size:
  assumes "least_fit nb E (v, z - nb) vr" "(v, z) \<in> E'" "snd ` E' = insert z (snd ` E)" "E \<subseteq> E'"
    and nb: "\<forall>y\<in>snd ` E'. nb \<le> y"
  obtains v' z' where "vr = (v', z' - nb)" "(v', z') \<in> E'" "\<And>y. y \<in> snd ` E' \<Longrightarrow> z' \<le> y"
proof -
  obtain v' z' where vr: "vr = (v', z' - nb)" "(v', z') \<in> E'"
  proof -
    have "vr = (v, z - nb) \<or> (\<exists>y. (fst vr, y) \<in> E \<and> snd vr = y - nb)"
      using assms(1) by (auto simp: least_fit_def)
    then show ?thesis using that assms(2,4) by (cases vr) auto
  qed
  have le: "z' - nb \<le> y - nb" if "y \<in> snd ` E'" for y
    using that assms(1,3) vr(1) unfolding least_fit_def by auto
  have "z' \<le> y" if "y \<in> snd ` E'" for y
  proof -
    have "nb \<le> z'" "nb \<le> y" using nb vr(2) that by force+
    then show ?thesis using le [OF that] sub_mono by blast
  qed
  then show ?thesis using that vr by blast
qed

lemma tmalloc_small_search_tree:
  assumes ok: "treebins_ok s T" and tm: "treemap s \<noteq> 0" and nb: "unat nb < 256"
  shows "\<exists>v z. tmalloc_small_search s nb = Some (v, z - nb) \<and> (v, z) \<in> tree_entries T
    \<and> (\<forall>(p, y)\<in>tree_entries T. z \<le> y) \<and> ok_address s v \<and> chunksize s v = z"
proof -
  note D = treebins_okD [OF ok]
  obtain i where i: "i < 32" "compute_bit2idx (least_bit (treemap s)) = of_nat i" "bit (treemap s) i"
    "\<And>j. j < i \<Longrightarrow> \<not> bit (treemap s) j" by (rule bit2idx_least [OF tm]) blast
  let ?H = "treebin_at s (of_nat i)"
  have t: "tree_in s (of_nat i) ?H ?H (T i)" by (rule D(6) [OF i(1)])
  have bin: "bin_ok i (T i)" by (rule D(4) [OF i(1)])
  obtain p ch z l r where Ti: "T i = Node p ch z l r" using D(5) [OF i(1)] i(3) by (cases "T i") auto
  note N = tree_in_node [OF t [unfolded Ti]]
  have fits: "nb \<le> y" if "y \<in> sizes (T i)" for y
    using bin_sizes(1) [OF bin that i(1)] nb by (simp add: word_le_nat_alt)
  have "snd (p, z - nb) = 0 \<or> (\<forall>y\<in>sizes l \<union> sizes r. nb \<le> y)" using fits Ti by auto
  from smallest_below_node [OF t [unfolded Ti] bin_ordered [OF bin i(1), unfolded Ti] this]
  obtain vr where vr: "smallest_loop s nb (leftmost_child s p) p (z - nb) = Some vr"
    "least_fit nb (entries l \<union> entries r) (p, z - nb) vr" by auto
  obtain v' z' where z': "vr = (v', z' - nb)" "(v', z') \<in> entries (T i)"
    "\<And>y. y \<in> snd ` entries (T i) \<Longrightarrow> z' \<le> y"
    by (rule least_fit_size [OF vr(2), of "entries (T i)"])
      (use fits Ti in \<open>auto simp: image_Un image_image entries_sizes\<close>)
  have run: "tmalloc_small_search s nb = Some (v', z' - nb)"
    using vr(1) z'(1) N(1,3) by (simp add: tmalloc_small_search_def i(2))
  have "z' \<le> y" if y: "(q, y) \<in> tree_entries T" for q y
  proof -
    obtain j where j: "j < 32" "y \<in> sizes (T j)" "T j \<noteq> Tip" using y by (rule tree_entriesE)
    have "i \<le> j" using i(4) [of j] D(5) [OF j(1)] j(3) by (metis not_le)
    moreover have "z' \<in> sizes (T i)" using z'(2) by (force simp flip: entries_sizes)
    ultimately show ?thesis
      using least_of_bin [OF ok i(1) _ _ j(1,2)] z'(3) unfolding entries_sizes by blast
  qed
  moreover have "ok_address s v' \<and> chunksize s v' = z'"
    using tree_in_entry [OF t z'(2)] by (simp add: tchunk_ok_def)
  ultimately show ?thesis using run tree_entriesI [where T = T, OF i(1) z'(2)] by blast
qed

section \<open>The search for large requests\<close>

definition fits :: "size_t \<Rightarrow> (addr \<times> size_t) set \<Rightarrow> (addr \<times> size_t) set" where
  "fits nb E = {e \<in> E. nb \<le> snd e}"

lemma fits_simps [simp]:
  "fits nb (A \<union> B) = fits nb A \<union> fits nb B" "fits nb {} = {}"
  by (auto simp: fits_def)

text \<open>The comparison \<open>trem < rsize\<close> also rejects sizes below the request: they wrap around.\<close>

lemma less_remainder:
  assumes "z - nb < rsize" "rsize \<le> - nb" "nb \<noteq> (0 :: size_t)"
  shows "nb \<le> z"
proof (rule ccontr)
  assume n: "\<not> nb \<le> z"
  then have u: "unat z < unat nb" by (simp add: word_le_nat_alt)
  then have "unat (z - nb) = unat z + 2 ^ 64 - unat nb"
    by (simp add: unat_sub_if')
  moreover have "unat (- nb) = 2 ^ 64 - unat nb" using u unat_sub_if' [of 0 nb] by simp
  moreover have "unat nb < 2 ^ 64" using unsigned_less [of nb, where 'a = nat] by simp
  ultimately show False using assms(1,2) by (simp add: word_less_nat_alt word_le_nat_alt)
qed

lemma better_bounds:
  assumes "snd vr \<noteq> 0" "snd vr \<le> - nb" "nb \<noteq> 0" "\<not> (z - nb < snd vr \<and> z - nb = 0)"
  shows "snd (better nb (q, z) vr) \<noteq> 0" "snd (better nb (q, z) vr) \<le> - nb"
  using assms by (auto simp: better_def)

text \<open>The child the loop goes on with, and the tree \<open>rst\<close> points to then.\<close>

lemma large_bin_step:
  fixes sb :: size_t and rst :: addr
  assumes t: "tree_in s i par slot (Node p ch z l r)" and d: "distinct (nodes (Node p ch z l r))"
    and n: "\<not> (z - nb < snd vr0 \<and> z - nb = 0)"
  defines "bt \<equiv> bit sb 63"
  defines "c \<equiv> rd s (if bt then p + 40 else p + 32)"
  defines "rst' \<equiv> (if \<not> bt \<and> r \<noteq> Tip then rd s (p + 40) else rst)"
  shows "tmalloc_large_bin_loop s nb p sb (fst vr0) (snd vr0) rst
    = (if c = 0 then Some (rst', better nb (p, z) vr0)
       else tmalloc_large_bin_loop s nb c (push_bit 1 sb) (fst (better nb (p, z) vr0))
         (snd (better nb (p, z) vr0)) rst')"
proof -
  note N = tree_in_node [OF t]
  have cd: "child s p (drop_bit 63 sb AND 1) = c"
    by (simp only: child_def child_choice c_def bt_def)
  have roots: "rd s (p + 40) \<noteq> rd s (p + 32)" if "r \<noteq> Tip"
  proof -
    have "rd s (p + 40) \<in> set (nodes r)" "rd s (p + 40) \<noteq> 0"
      using that N(7) by (cases r; auto simp: node_ok_def tchunk_ok_def)+
    moreover have "rd s (p + 32) = 0 \<or> rd s (p + 32) \<in> set (nodes l)"
      using N(6) by (cases l) (auto simp: node_ok_def)
    ultimately show ?thesis using d by auto
  qed
  have rst: "(if child s p 1 \<noteq> 0 \<and> child s p 1 \<noteq> c then child s p 1 else rst) = rst'"
    using tree_in_root [OF N(7)] roots by (auto simp: N(5) c_def rst'_def)
  have v: "(if z - nb < snd vr0 then p else fst vr0) = fst (better nb (p, z) vr0)"
    "(if z - nb < snd vr0 then z - nb else snd vr0) = snd (better nb (p, z) vr0)"
    by (simp_all add: better_def)
  show ?thesis
    using n by (subst tmalloc_large_bin_loop.simps)
      (simp only: Let_def N(3) cd rst v if_False simp_thms prod.collapse)
qed

text \<open>Where the sizes that fit are: in the child, in the tree \<open>rst\<close>, or in the node itself.\<close>

lemma large_bin_split:
  assumes sh: "shape (push_bit m) (Node p ch z l r)" "m + n = 64"
    and agree: "\<forall>x\<in>sizes (Node p ch z l r). drop_bit n x = drop_bit n nb"
    and R: "ordered R" "\<forall>y\<in>sizes R. nb \<le> y \<and> (\<forall>x\<in>sizes (Node p ch z l r). x < y)"
  defines "bt \<equiv> bit (push_bit m nb :: size_t) 63"
  defines "c \<equiv> if bt then r else l" and "R' \<equiv> if \<not> bt \<and> r \<noteq> Tip then r else R"
  shows "ordered R'" "\<forall>y\<in>sizes R'. nb \<le> y \<and> (\<forall>x\<in>sizes c. x < y)"
    "c \<noteq> Tip \<Longrightarrow> shape (push_bit (Suc m)) c \<and> Suc m + (n - 1) = 64
      \<and> (\<forall>x\<in>sizes c. drop_bit (n - 1) x = drop_bit (n - 1) nb)"
    "\<And>y. y \<in> sizes (Node p ch z l r) \<Longrightarrow> nb \<le> y \<Longrightarrow> y = z \<or> y \<in> sizes c \<or> y \<in> sizes R'"
    "\<And>y. y \<in> sizes R \<Longrightarrow> \<exists>x\<in>sizes R'. x \<le> y"
proof -
  have agree': "drop_bit n x = drop_bit n y"
    if "x \<in> sizes (Node p ch z l r)" "y \<in> sizes (Node p ch z l r)" for x y
    using agree that by metis
  have "ordered (Node p ch z l r)" by (rule shape_ordered [OF sh agree'])
  then show "ordered R'" using R(1) by (simp add: R'_def)
  show "\<exists>x\<in>sizes R'. x \<le> y" if y: "y \<in> sizes R" for y
  proof (cases "R' = R")
    case False
    then have "r \<noteq> Tip" "R' = r" by (auto simp: R'_def split: if_splits)
    then obtain x where "x \<in> sizes R'" "x \<in> sizes r" by (cases r) auto
    then have "x < y" using R(2) y by auto
    then show ?thesis using \<open>x \<in> sizes R'\<close> by (intro bexI [of _ x]) simp_all
  qed (use y in auto)
  have "(\<forall>y\<in>sizes R'. nb \<le> y \<and> (\<forall>x\<in>sizes c. x < y))
    \<and> (c \<noteq> Tip \<longrightarrow> shape (push_bit (Suc m)) c \<and> Suc m + (n - 1) = 64
      \<and> (\<forall>x\<in>sizes c. drop_bit (n - 1) x = drop_bit (n - 1) nb))
    \<and> (\<forall>y\<in>sizes (Node p ch z l r). nb \<le> y \<longrightarrow> y = z \<or> y \<in> sizes c \<or> y \<in> sizes R')"
  proof (rule shape_children [OF sh agree'])
    assume "l = Tip" "r = Tip" "n = 0"
    then show ?thesis using R(2) by (simp add: c_def R'_def)
  next
    fix k
    assume k: "n = Suc k" "Suc m + k = 64" "shape (push_bit (Suc m)) l" "shape (push_bit (Suc m)) r"
      and bl: "\<And>x. x \<in> sizes l \<Longrightarrow> \<not> bit x k" and br: "\<And>x. x \<in> sizes r \<Longrightarrow> bit x k"
      and lr: "\<And>x y. x \<in> sizes l \<Longrightarrow> y \<in> sizes r \<Longrightarrow> x < y"
    have bt: "bt \<longleftrightarrow> bit nb k" unfolding bt_def by (rule key_bit) (use k(2) in simp)
    have ag: "drop_bit (Suc k) x = drop_bit (Suc k) nb" if "x \<in> sizes l \<or> x \<in> sizes r" for x
      using agree that k(1) by auto
    have cc: "drop_bit k x = drop_bit k nb" if "x \<in> sizes c" for x
      by (rule drop_bit_agree [OF ag]) (use that bl br bt in \<open>auto simp: c_def split: if_splits\<close>)
    have l_less: "x < nb" if "x \<in> sizes l" bt for x
      by (rule less_if_bit [OF ag]) (use that bl bt in auto)
    have r_more: "nb < x" if "x \<in> sizes r" "\<not> bt" for x
      by (rule less_if_bit [OF ag [symmetric]]) (use that br bt in auto)
    show ?thesis
    proof (intro conjI impI ballI)
      show "y = z \<or> y \<in> sizes c \<or> y \<in> sizes R'" if "y \<in> sizes (Node p ch z l r)" "nb \<le> y" for y
        using that l_less [of y] by (auto simp: c_def R'_def)
      show "nb \<le> y" if "y \<in> sizes R'" for y
        using that R(2) r_more by (auto simp: R'_def less_imp_le split: if_splits)
      show "x < y" if "y \<in> sizes R'" "x \<in> sizes c" for x y
        using that R(2) lr by (auto simp: R'_def c_def split: if_splits)
    qed (use k cc in \<open>auto simp: c_def\<close>)
  qed
  then show "\<forall>y\<in>sizes R'. nb \<le> y \<and> (\<forall>x\<in>sizes c. x < y)"
    "c \<noteq> Tip \<Longrightarrow> shape (push_bit (Suc m)) c \<and> Suc m + (n - 1) = 64
      \<and> (\<forall>x\<in>sizes c. drop_bit (n - 1) x = drop_bit (n - 1) nb)"
    "\<And>y. y \<in> sizes (Node p ch z l r) \<Longrightarrow> nb \<le> y \<Longrightarrow> y = z \<or> y \<in> sizes c \<or> y \<in> sizes R'"
    by blast+
qed

lemma large_bin_tree:
  assumes "tree_in s i par slot t" "t \<noteq> Tip" "shape (push_bit m) t" "m + n = 64"
    and "\<forall>x\<in>sizes t. drop_bit n x = drop_bit n nb" "distinct (nodes t)"
    and nb: "nb \<noteq> 0"
    and "tree_in s j parR slotR R" "ordered R" "\<forall>y\<in>sizes R. nb \<le> y \<and> (\<forall>x\<in>sizes t. x < y)"
    and "snd vr0 \<noteq> 0" "snd vr0 \<le> - nb"
  shows "\<exists>t' vr' vr. tmalloc_large_bin_loop s nb (rd s slot) (push_bit m nb) (fst vr0) (snd vr0) (rd s slotR)
      = Some (t', vr') \<and> smallest_loop s nb t' (fst vr') (snd vr') = Some vr
    \<and> least_fit nb (fits nb (entries t) \<union> entries R) vr0 vr
    \<and> (fits nb (entries t) \<union> entries R = {} \<longrightarrow> t' = 0 \<and> vr' = vr0)"
  using assms
proof (induction t arbitrary: m n par slot j parR slotR R vr0)
  case Tip
  then show ?case by simp
next
  case (Node p ch z l r)
  note t = Node.prems(1) and sh = Node.prems(3,4) and agree = Node.prems(5) and d = Node.prems(6)
    and R = Node.prems(8-10) and b0 = Node.prems(11,12)
  let ?t = "Node p ch z l r"
  note N = tree_in_node [OF t]
  have agree': "drop_bit n x = drop_bit n y" if "x \<in> sizes ?t" "y \<in> sizes ?t" for x y
    using agree that by metis
  have ord: "ordered ?t" by (rule shape_ordered [OF sh agree'])
  let ?E = "fits nb (entries ?t) \<union> entries R"
  let ?v = "better nb (p, z) vr0"
  have zE: "(p, z) \<in> ?E" if "z - nb < snd vr0"
    using less_remainder [OF that b0(2) nb] by (simp add: fits_def)
  show ?case
  proof (cases "z - nb < snd vr0 \<and> z - nb = 0")
    case True
    then have "z - nb < snd vr0" "z - nb = 0" by blast+
    then have "0 < snd vr0" by metis
    moreover have "z = nb" using \<open>z - nb = 0\<close> by simp
    ultimately have z: "z = nb" "0 < snd vr0" by blast+
    have run: "tmalloc_large_bin_loop s nb (rd s slot) (push_bit m nb) (fst vr0) (snd vr0) (rd s slotR)
        = Some (p, (p, 0))"
      using z N(1,3) by (subst tmalloc_large_bin_loop.simps) (simp add: Let_def)
    obtain vr where vr: "smallest_loop s nb p p 0 = Some vr" "least_fit nb (entries ?t) (p, 0) vr"
      using smallest_loop_tree [OF t ord, of "(p, 0)" nb] N(1) by auto
    then have "vr = (p, 0)" by (auto simp: least_fit_def)
    moreover have "(p, z) \<in> ?E" using True by (intro zE) blast
    ultimately show ?thesis using run vr(1) z
      by (intro exI [of _ p] exI [of _ "(p, 0)"] exI [of _ vr]) (auto simp: least_fit_def)
  next
    case False
    define bt where "bt = bit (push_bit m nb :: size_t) 63"
    define c where "c = (if bt then r else l)"
    define sc where "sc = (if bt then p + 40 else p + 32)"
    define R' where "R' = (if \<not> bt \<and> r \<noteq> Tip then r else R)"
    define sR where "sR = (if \<not> bt \<and> r \<noteq> Tip then p + 40 else slotR)"
    note S = large_bin_split [OF sh agree R(2,3), folded bt_def, folded c_def R'_def]
    note step = large_bin_step [OF t d False, of "push_bit m nb" "rd s slotR", folded bt_def]
    have step: "tmalloc_large_bin_loop s nb p (push_bit m nb) (fst vr0) (snd vr0) (rd s slotR)
      = (if rd s sc = 0 then Some (rd s sR, ?v)
         else tmalloc_large_bin_loop s nb (rd s sc) (push_bit (Suc m) nb) (fst ?v) (snd ?v) (rd s sR))"
      unfolding step by (simp add: sc_def sR_def push_bit_push_bit)
    have tc: "tree_in s i p sc c" using N(6,7) by (simp add: sc_def c_def)
    obtain j' parR' where tR': "tree_in s j' parR' sR R'"
      using N(7) R(1) unfolding sR_def R'_def by (cases "\<not> bt \<and> r \<noteq> Tip") simp_all
    note v = better_bounds [OF b0 nb False, of p]
    let ?Ec = "fits nb (entries c) \<union> entries R'"
    have "\<exists>t' vr' vr. tmalloc_large_bin_loop s nb p (push_bit m nb) (fst vr0) (snd vr0) (rd s slotR)
        = Some (t', vr') \<and> smallest_loop s nb t' (fst vr') (snd vr') = Some vr
      \<and> least_fit nb ?Ec ?v vr \<and> (?Ec = {} \<longrightarrow> t' = 0 \<and> vr' = ?v)"
    proof (cases "c = Tip")
      case True
      then have "rd s sc = 0" using tree_in_root [OF tc] by simp
      moreover obtain vr where "smallest_loop s nb (rd s sR) (fst ?v) (snd ?v) = Some vr"
        "least_fit nb (entries R') ?v vr"
        using smallest_loop_tree [OF tR' S(1), of ?v nb] S(2) by auto
      moreover have "entries R' = {} \<longrightarrow> rd s sR = 0" using tree_in_root [OF tR'] by (cases R') auto
      ultimately show ?thesis unfolding True step
        by (intro exI [of _ "rd s sR"] exI [of _ ?v] exI [of _ vr]) simp
    next
      case nt: False
      have "rd s sc \<noteq> 0" using tree_in_root [OF tc] nt by simp
      moreover have dc: "distinct (nodes c)" using d by (auto simp: c_def)
      note S3 = S(3) [OF nt, THEN conjunct1] S(3) [OF nt, THEN conjunct2, THEN conjunct1]
        S(3) [OF nt, THEN conjunct2, THEN conjunct2]
      have "\<exists>t' vr' vr. tmalloc_large_bin_loop s nb (rd s sc) (push_bit (Suc m) nb) (fst ?v) (snd ?v) (rd s sR)
          = Some (t', vr') \<and> smallest_loop s nb t' (fst vr') (snd vr') = Some vr
        \<and> least_fit nb ?Ec ?v vr \<and> (?Ec = {} \<longrightarrow> t' = 0 \<and> vr' = ?v)"
      proof (cases bt)
        case True
        then have c: "c = r" by (simp add: c_def)
        show ?thesis
          using Node.IH(2) [OF tc [unfolded c] nt [unfolded c] S3(1) [unfolded c] S3(2) S3(3) [unfolded c]
            dc [unfolded c] nb tR' S(1) S(2) [unfolded c] v] unfolding c .
      next
        case False
        then have c: "c = l" by (simp add: c_def)
        show ?thesis
          using Node.IH(1) [OF tc [unfolded c] nt [unfolded c] S3(1) [unfolded c] S3(2) S3(3) [unfolded c]
            dc [unfolded c] nb tR' S(1) S(2) [unfolded c] v] unfolding c .
      qed
      ultimately show ?thesis using step by simp
    qed
    then obtain t' vr' vr where run: "tmalloc_large_bin_loop s nb p (push_bit m nb) (fst vr0) (snd vr0) (rd s slotR)
        = Some (t', vr')" "smallest_loop s nb t' (fst vr') (snd vr') = Some vr"
      and lf: "least_fit nb ?Ec ?v vr" and e: "?Ec = {} \<longrightarrow> t' = 0 \<and> vr' = ?v" by blast
    have sub: "?Ec \<subseteq> ?E"
    proof
      fix e assume "e \<in> ?Ec"
      then consider "e \<in> fits nb (entries c)" | "e \<in> entries R'" by blast
      then show "e \<in> ?E"
      proof cases
        case 2
        then have "snd e \<in> sizes R'" unfolding entries_sizes [symmetric] by blast
        then show ?thesis using 2 S(2) by (auto simp: fits_def R'_def split: if_splits)
      qed (auto simp: fits_def c_def split: if_splits)
    qed
    have "least_fit nb ?E vr0 vr"
    proof (rule least_fit_better [OF lf sub zE])
      fix x
      assume "x \<in> snd ` ?E"
      then consider "x \<in> sizes R" | "x \<in> sizes ?t" "nb \<le> x"
        unfolding entries_sizes [symmetric] by (auto simp: fits_def)
      then show "x = z \<or> (\<exists>w\<in>snd ` ?Ec. w - nb \<le> x - nb)"
      proof cases
        case 1
        then obtain w where w: "w \<in> sizes R'" "w \<le> x" using S(5) by blast
        then have "w - nb \<le> x - nb" using S(2) R(3) 1 by (simp add: sub_mono)
        then show ?thesis using w(1) unfolding entries_sizes [symmetric] by auto
      next
        case 2
        from S(4) [OF this] show ?thesis
          using 2(2) unfolding entries_sizes [symmetric] by (auto simp: fits_def)
      qed
    qed
    moreover have "t' = 0 \<and> vr' = vr0" if "?E = {}"
      using e sub that zE by (auto simp: better_def)
    ultimately show ?thesis using run N(1) by blast
  qed
qed

lemma null_cell: "tree_in s i par slot t \<Longrightarrow> \<exists>a. rd s a = 0"
  by (induction t arbitrary: par slot) auto

lemma remainder_less: "nb \<le> y \<Longrightarrow> nb \<noteq> 0 \<Longrightarrow> y - nb < - (nb :: size_t)"
proof -
  assume *: "nb \<le> y" "nb \<noteq> 0"
  have "unat y < 2 ^ 64" using unsigned_less [of y, where 'a = nat] by simp
  moreover have "unat nb \<noteq> 0" using *(2) unat_0_iff [of nb] by blast
  ultimately show ?thesis
    using * unat_sub_if' [of 0 nb] by (simp add: word_less_nat_alt word_le_nat_alt unat_sub)
qed

text \<open>From the initial values of \<open>v\<close> and \<open>rsize\<close> a least fit is an entry, where there is one.\<close>

lemma least_fit_initial:
  assumes lf: "least_fit nb E (0, - nb) vr" and nb: "nb \<noteq> 0" and fit: "\<And>y. y \<in> snd ` E \<Longrightarrow> nb \<le> y"
    and E: "E \<noteq> {}"
  obtains v z where "vr = (v, z - nb)" "(v, z) \<in> E" "\<And>y. y \<in> snd ` E \<Longrightarrow> z \<le> y"
proof -
  obtain q y where y: "(q, y) \<in> E" using E by auto
  have "snd vr \<le> y - nb" using lf y by (force simp: least_fit_def)
  moreover have "y - nb < - nb" by (rule remainder_less) (use fit y nb in force)+
  ultimately have "vr \<noteq> (0, - nb)" by auto
  then obtain z where z: "(fst vr, z) \<in> E" "snd vr = z - nb"
    using lf by (auto simp: least_fit_def)
  have "z \<le> x" if "x \<in> snd ` E" for x
  proof -
    have "nb \<le> z" "nb \<le> x" using fit z(1) that by force+
    moreover have "z - nb \<le> x - nb" using lf that z(2) by (auto simp: least_fit_def)
    ultimately show ?thesis by (simp add: sub_mono)
  qed
  then show ?thesis using that [of "fst vr" z] z by (cases vr) auto
qed

text \<open>What the search promises.\<close>

definition best_fit :: "size_t \<Rightarrow> (addr \<times> size_t) set \<Rightarrow> addr \<times> size_t \<Rightarrow> bool" where
  "best_fit nb E vr \<longleftrightarrow>
     (if fits nb E = {} then fst vr = 0
      else \<exists>z. (fst vr, z) \<in> E \<and> nb \<le> z \<and> snd vr = z - nb \<and> (\<forall>(p, y)\<in>E. nb \<le> y \<longrightarrow> z \<le> y))"

lemma best_fit_bin:
  assumes ok: "treebins_ok s T" and nb: "256 \<le> unat nb" and i: "i < 32"
    and lf: "least_fit nb (fits nb (entries (T i))) (0, - nb) vr" and E: "fits nb (entries (T i)) \<noteq> {}"
    and before: "\<And>j y. j < i \<Longrightarrow> y \<in> sizes (T j) \<Longrightarrow> y < nb"
  shows "best_fit nb (tree_entries T) vr"
proof -
  have nb0: "nb \<noteq> 0" using nb by auto
  obtain v z where z: "vr = (v, z - nb)" "(v, z) \<in> fits nb (entries (T i))"
    "\<And>y. y \<in> snd ` fits nb (entries (T i)) \<Longrightarrow> z \<le> y"
    by (rule least_fit_initial [OF lf nb0 _ E]) (auto simp: fits_def)
  have zE: "(v, z) \<in> entries (T i)" "nb \<le> z" using z(2) by (auto simp: fits_def)
  then have zi: "z \<in> sizes (T i)" by (force simp flip: entries_sizes)
  have "z \<le> y" if y: "(q, y) \<in> tree_entries T" "nb \<le> y" for q y
  proof -
    obtain j where j: "j < 32" "(q, y) \<in> entries (T j)" "y \<in> sizes (T j)" using y(1) by (rule tree_entriesE)
    have ij: "i \<le> j" using before [OF _ j(3)] y(2) by (metis not_le)
    show ?thesis
    proof (cases "i = j")
      case True
      then show ?thesis using z(3) [of y] j(2) y(2) by (force simp: fits_def)
    next
      case False
      then have "i < j" using ij by simp
      note D = treebins_okD(4) [OF ok]
      show ?thesis using bins_ordered [OF D [OF i] D [OF j(1)] \<open>i < j\<close> j(1) zi j(3)] by simp
    qed
  qed
  then show ?thesis
    using tree_entriesI [where T = T, OF i zE(1)] zE(2) z(1) unfolding best_fit_def
    by (auto simp: fits_def)
qed

lemma tmalloc_large_search_tree:
  assumes ok: "treebins_ok s T" and nb: "256 \<le> unat nb" "unat nb < 2 ^ 40"
  shows "\<exists>vr. tmalloc_large_search s nb = Some vr \<and> best_fit nb (tree_entries T) vr"
proof -
  note D = treebins_okD [OF ok]
  have nb0: "nb \<noteq> 0" using nb by auto
  define i where "i = unat (compute_tree_index nb)"
  have i: "i < 32" "compute_tree_index nb = of_nat i"
    using tree_index_range(1) [OF nb] by (simp_all add: i_def)
  let ?H = "treebin_at s (of_nat i)"
  have t: "tree_in s (of_nat i) ?H ?H (T i)" by (rule D(6) [OF i(1)])
  have bin: "bin_ok i (T i)" by (rule D(4) [OF i(1)])
  have before: "y < nb" if "j < i" "y \<in> sizes (T j)" for j y
  proof (rule ccontr)
    assume "\<not> y < nb"
    then have "unat nb \<le> unat y" by (simp add: word_less_nat_alt)
    moreover have "j < 32" using that(1) i(1) by simp
    note B = bin_sizes [OF D(4) [OF this] that(2) this]
    ultimately show False using compute_tree_index_mono [OF nb(1) _ B(2)] B(3) that(1) i_def by simp
  qed
  have after: "nb < y" if "i < j" "j < 32" "y \<in> sizes (T j)" for j y
  proof (rule ccontr)
    assume "\<not> nb < y"
    then have "unat y \<le> unat nb" by (simp add: word_less_nat_alt)
    moreover note B = bin_sizes [OF D(4) [OF that(2)] that(3,2)]
    ultimately show False using compute_tree_index_mono [OF B(1) _ nb(2)] B(3) that(1) i_def by simp
  qed
  let ?rs = "- nb :: size_t"
  have next_bin: "\<exists>vr. tmalloc_large_search s nb = Some vr \<and> best_fit nb (tree_entries T) vr"
    if none: "fits nb (entries (T i)) = {}"
      and run: "(if rd s ?H \<noteq> 0
           then tmalloc_large_bin_loop s nb (rd s ?H) (push_bit (leftshift_for_tree_index (of_nat i)) nb) 0 ?rs 0
           else Some (rd s ?H, 0, ?rs)) = Some (0, 0, ?rs)"
  proof -
    have here: "\<not> nb \<le> y" if "y \<in> sizes (T i)" for y
      using none that by (force simp: fits_def simp flip: entries_sizes)
    define lb where "lb = left_bits (idx2bit (of_nat i)) AND treemap s"
    have bl: "bit lb j \<longleftrightarrow> i < j \<and> j < 32 \<and> T j \<noteq> Tip" for j
      using left_bits_idx2bit [of "of_nat i" j] i(1) D(5) [of j] by (auto simp: lb_def bit_and_iff unat_of_nat)
    show ?thesis
    proof (cases "lb = 0")
      case True
      then have later: "T j = Tip" if "i < j" "j < 32" for j using bl [of j] that by auto
      have "smallest_loop s nb 0 0 ?rs = Some (0, ?rs)" by (subst smallest_loop.simps) simp
      then have "tmalloc_large_search s nb = Some (0, ?rs)"
        using run True unfolding tmalloc_large_search_def i(2) lb_def by (simp add: Let_def)
      moreover have "fits nb (tree_entries T) = {}"
      proof -
        have "\<not> nb \<le> y" if y: "(q, y) \<in> tree_entries T" for q y
        proof -
          obtain j where j: "j < 32" "y \<in> sizes (T j)" "T j \<noteq> Tip" using y by (rule tree_entriesE)
          then show ?thesis using before [of j y] here [of y] later [of j] by (metis linorder_neqE_nat not_le)
        qed
        then show ?thesis by (auto simp: fits_def)
      qed
      ultimately show ?thesis by (simp add: best_fit_def)
    next
      case False
      obtain j where j: "j < 32" "compute_bit2idx (least_bit lb) = of_nat j" "bit lb j"
        "\<And>k. k < j \<Longrightarrow> \<not> bit lb k" by (rule bit2idx_least [OF False]) blast
      let ?J = "treebin_at s (of_nat j)"
      have ij: "i < j" "T j \<noteq> Tip" using bl j(3) by auto
      have tj: "tree_in s (of_nat j) ?J ?J (T j)" by (rule D(6) [OF j(1)])
      have all: "nb \<le> y" if "y \<in> sizes (T j)" for y using after [OF ij(1) j(1) that] by simp
      then have "fits nb (entries (T j)) = entries (T j)" by (force simp: fits_def simp flip: entries_sizes)
      moreover obtain vr where vr: "smallest_loop s nb (rd s ?J) 0 ?rs = Some vr"
        "least_fit nb (entries (T j)) (0, ?rs) vr"
        using smallest_loop_tree [OF tj bin_ordered [OF D(4) [OF j(1)] j(1)], of "(0, ?rs)" nb] all by auto
      moreover have "entries (T j) \<noteq> {}" using ij(2) by (cases "T j") auto
      moreover have "y < nb" if "k < j" "y \<in> sizes (T k)" for k y
      proof -
        have "k < 32" "T k \<noteq> Tip" using that j(1) by auto
        then have "k \<le> i" using j(4) [OF that(1)] bl [of k] by auto
        then show ?thesis using before [of k y] here [of y] that(2) by (metis le_neq_implies_less not_le)
      qed
      ultimately have "best_fit nb (tree_entries T) vr"
        using best_fit_bin [OF ok nb(1) j(1)] by metis
      moreover have "tmalloc_large_search s nb = Some vr"
        using run False vr(1) unfolding tmalloc_large_search_def i(2) Let_def lb_def [symmetric]
        by (simp add: j(2))
      ultimately show ?thesis by blast
    qed
  qed
  show ?thesis
  proof (cases "T i = Tip")
    case True
    then show ?thesis using t by (intro next_bin) simp_all
  next
    case False
    obtain a where a: "rd s a = 0" using null_cell [OF t] by blast
    have ag: "\<forall>x\<in>sizes (T i). drop_bit (64 - leftshift_for_tree_index (of_nat i)) x
        = drop_bit (64 - leftshift_for_tree_index (of_nat i)) nb"
      by (intro ballI index_agree) (use bin_sizes [OF bin _ i(1)] nb i_def in auto)
    have sh: "shape (push_bit (leftshift_for_tree_index (of_nat i))) (T i)" "distinct (nodes (T i))"
      using bin by (simp_all add: bin_ok_def bin_key_def [abs_def])
    have m: "leftshift_for_tree_index (of_nat i) + (64 - leftshift_for_tree_index (of_nat i)) = 64"
      using i(1) by (simp add: leftshift_nat)
    have Tip: "tree_in s 0 0 a Tip" "ordered Tip"
      "\<forall>y\<in>sizes Tip. nb \<le> y \<and> (\<forall>x\<in>sizes (T i). x < y)"
      "snd (0 :: addr, ?rs) \<noteq> 0" "snd (0 :: addr, ?rs) \<le> - nb"
      using a nb0 by simp_all
    note big = large_bin_tree [OF t False sh(1) m ag sh(2) nb0 Tip,
        unfolded a entries.simps(1) Un_empty_right fst_conv snd_conv]
    obtain t' vr' vr where run: "tmalloc_large_bin_loop s nb (rd s ?H)
        (push_bit (leftshift_for_tree_index (of_nat i)) nb) 0 ?rs 0 = Some (t', vr')"
      "smallest_loop s nb t' (fst vr') (snd vr') = Some vr"
      and lf: "least_fit nb (fits nb (entries (T i))) (0, ?rs) vr"
      and e: "fits nb (entries (T i)) = {} \<longrightarrow> t' = 0 \<and> vr' = (0, ?rs)"
      using big by blast
    have root: "rd s ?H \<noteq> 0" using tree_in_root [OF t] False by simp
    show ?thesis
    proof (cases "fits nb (entries (T i)) = {}")
      case True
      then show ?thesis using e run(1) root by (intro next_bin) simp_all
    next
      case ne: False
      obtain v z where vz: "vr = (v, z - nb)" "(v, z) \<in> fits nb (entries (T i))"
        by (rule least_fit_initial [OF lf nb0 _ ne]) (auto simp: fits_def)
      have "v \<noteq> 0" using tree_in_entry [OF t] vz(2) by (auto simp: fits_def tchunk_ok_def)
      then have "\<not> (t' = 0 \<and> fst vr' = 0)"
        using run(2) vz(1) by (subst (asm) smallest_loop.simps) auto
      then have "tmalloc_large_search s nb = Some vr"
        using run root unfolding tmalloc_large_search_def i(2) Let_def by (cases vr') auto
      moreover have "best_fit nb (tree_entries T) vr"
        by (rule best_fit_bin [OF ok nb(1) i(1) lf ne before])
      ultimately show ?thesis by blast
    qed
  qed
qed

end
