(* ===== verification/DL_FreeStore.thy ===== *)
theory DL_FreeStore
  imports DL_TreeSearch "HOL-Library.Disjoint_Sets"
begin

text \<open>
  The free chunks as one set. The small bins and the tree bins of src/src/dlmalloc.c together
  represent a set of pairs (chunk, size); \<open>insert_chunk\<close> and \<open>unlink_chunk\<close> add a pair and remove
  one. The locale \<open>chunk_store\<close> states this contract; it is interpreted on the small bins, on the
  tree bins and on both together.
\<close>

section \<open>Frames\<close>

definition changes_bins :: "addr set \<Rightarrow> 'o state \<Rightarrow> 'o state \<Rightarrow> bool" where
  "changes_bins A s s' \<longleftrightarrow> s' = s\<lparr>mem := mem s', smallmap := smallmap s', treemap := treemap s'\<rparr>
     \<and> (\<forall>a. a \<notin> A \<longrightarrow> rd s' a = rd s a)"

lemma changes_binsI:
  "changes_tree A s s' \<Longrightarrow> changes_bins A s s'"
  "only_changes_links N s s' \<Longrightarrow> changes_bins (link_cells N) s s'"
  by (cases s, cases s'; auto simp: changes_tree_def only_changes_links_def changes_bins_def)+

lemma changes_bins_mono: "changes_bins A s s' \<Longrightarrow> A \<subseteq> B \<Longrightarrow> changes_bins B s s'"
  by (auto simp: changes_bins_def)

lemma changes_bins_refl: "changes_bins A s s"
  by (simp add: changes_bins_def)

lemma changes_bins_trans: "changes_bins A s s' \<Longrightarrow> changes_bins A s' s'' \<Longrightarrow> changes_bins A s s''"
  by (cases s, cases s', cases s'') (auto simp: changes_bins_def)

lemma changes_binsD: "changes_bins A s s' \<Longrightarrow> a \<notin> A \<Longrightarrow> rd s' a = rd s a"
  by (simp add: changes_bins_def)

lemma changes_bins_fields:
  assumes "changes_bins A s s'"
  shows "maddr s' = maddr s" "least_addr s' = least_addr s" "dv s' = dv s" "dvsize s' = dvsize s"
    "topp s' = topp s" "topsize s' = topsize s"
proof -
  have s': "s' = s\<lparr>mem := mem s', smallmap := smallmap s', treemap := treemap s'\<rparr>"
    using assms by (simp add: changes_bins_def)
  show "maddr s' = maddr s" "least_addr s' = least_addr s" "dv s' = dv s" "dvsize s' = dvsize s"
    "topp s' = topp s" "topsize s' = topsize s" by (subst s', simp)+
qed

lemma tree_map_field: "only_changes_links N s s' \<Longrightarrow> treemap s' = treemap s"
  by (rule only_changes_scalars)

lemma small_map_field: "changes_tree A s s' \<Longrightarrow> smallmap s' = smallmap s"
  by (cases s, cases s') (simp add: changes_tree_def)

lemma headers_cong:
  assumes "maddr s' = maddr s"
  shows "smallbin_at s' = smallbin_at s" "treebin_at s' = treebin_at s"
    "small_headers s' = small_headers s" "tree_headers s' = tree_headers s"
  using assms by (simp_all add: smallbin_at_def treebin_at_def small_headers_def tree_headers_def fun_eq_iff)

lemma treebins_ok_cong:
  assumes ok: "treebins_ok s T" and f: "maddr s' = maddr s" "least_addr s' = least_addr s" "treemap s' = treemap s"
    and rd: "\<And>a. a \<in> tree_headers s \<union> cells_of (all_nodes T) \<Longrightarrow> rd s' a = rd s a"
  shows "treebins_ok s' T"
proof -
  note D = treebins_okD [OF ok] and H = headers_cong [OF f(1)]
  have "tree_in s' (of_nat i) (treebin_at s (of_nat i)) (treebin_at s (of_nat i)) (T i)" if i: "i < 32" for i
  proof (subst tree_in_cong [OF rd f(2) rd])
    show "treebin_at s (of_nat i) \<in> tree_headers s \<union> cells_of (all_nodes T)"
      using tree_headersI [OF i, of s] by blast
    show "a \<in> tree_headers s \<union> cells_of (all_nodes T)" if "a \<in> cells_of (set (nodes (T i)))" for a
      using that cells_of_mono [of "set (nodes (T i))" "all_nodes T"] all_nodesI [OF i] by blast
  qed (rule D(6) [OF i])
  then show ?thesis using ok f(3) by (simp add: treebins_ok_def H)
qed

lemma smallbins_ok_cong:
  assumes ok: "smallbins_ok s L" and f: "maddr s' = maddr s" "least_addr s' = least_addr s" "smallmap s' = smallmap s"
    and rd: "\<And>a. a \<in> link_cells (small_nodes s L) \<Longrightarrow> rd s' a = rd s a"
  shows "smallbins_ok s' L"
proof -
  note H = headers_cong [OF f(1)]
  have n: "small_nodes s' L = small_nodes s L" by (simp add: small_nodes_def H)
  have l: "fd s' p = fd s p" "bk s' p = bk s p" if "p \<in> small_nodes s L" for p
    using rd [OF link_cellsI(1) [OF that]] rd [OF link_cellsI(2) [OF that]] by (simp_all add: fd_def bk_def)
  have "linked s' (smallbin_at s (of_nat i)) (L i) (smallbin_at s (of_nat i))"
    if i: "i < 32" "L i \<noteq> []" for i
  proof (subst linked_cong)
    note N = small_headers_in [OF i(1), of s L] small_list_in [OF i(1), of _ L s]
    show "fd s' q = fd s q" if "q \<in> set (smallbin_at s (of_nat i) # L i)" for q
      using that l N by auto
    show "bk s' q = bk s q" if "q \<in> set (L i @ [smallbin_at s (of_nat i)])" for q
      using that l N by auto
  qed (rule smallbins_okD(6) [OF ok i])
  then show ?thesis using ok f(2,3) by (simp add: smallbins_ok_def H n ok_address_def)
qed

section \<open>The contract\<close>

text \<open>
  A store represents a set of pairs (chunk, size). \<open>insert\<close> adds a pair that is fresh,
  \<open>remove\<close> takes out a pair that is in it and leaves it fresh. Both return.
\<close>

text \<open>An operation on a list of pairs, one after the other.\<close>

fun each :: "('s \<Rightarrow> addr \<Rightarrow> size_t \<Rightarrow> 's res) \<Rightarrow> 's \<Rightarrow> (addr \<times> size_t) list \<Rightarrow> 's res" where
  "each f s [] = Inr s"
| "each f s (e # es) = bindR (f s (fst e) (snd e)) (\<lambda>s. each f s es)"

locale chunk_store =
  fixes rep :: "'o state \<Rightarrow> (addr \<times> size_t) set \<Rightarrow> bool"
    and fresh :: "'o state \<Rightarrow> (addr \<times> size_t) set \<Rightarrow> addr \<times> size_t \<Rightarrow> bool"
    and ins :: "'o state \<Rightarrow> addr \<Rightarrow> size_t \<Rightarrow> 'o state res"
    and rem :: "'o state \<Rightarrow> addr \<Rightarrow> size_t \<Rightarrow> 'o state res"
  assumes ins: "rep s F \<Longrightarrow> fresh s F (p, z) \<Longrightarrow> \<exists>s'. ins s p z = Inr s' \<and> rep s' (insert (p, z) F)"
    and rem: "rep s F \<Longrightarrow> (p, z) \<in> F
      \<Longrightarrow> \<exists>s'. rem s p z = Inr s' \<and> rep s' (F - {(p, z)}) \<and> fresh s' (F - {(p, z)}) (p, z)"
begin

lemma rem_then_ins:
  assumes "rep s F" "(p, z) \<in> F"
  shows "\<exists>s'. bindR (rem s p z) (\<lambda>s. ins s p z) = Inr s' \<and> rep s' F"
  using rem [OF assms] ins [of _ "F - {(p, z)}" p z] assms(2) by (force simp: insert_absorb)

lemma each_rem_returns:
  assumes "rep s F" "distinct es" "set es \<subseteq> F"
  shows "\<exists>s'. each rem s es = Inr s' \<and> rep s' (F - set es)"
  using assms
proof (induction es arbitrary: s F)
  case (Cons e es)
  obtain p z where e: "e = (p, z)" by (cases e)
  then obtain s1 where s1: "rem s p z = Inr s1" "rep s1 (F - {(p, z)})"
    using rem [of s F p z] Cons.prems by auto
  from Cons.IH [OF s1(2)] obtain s' where "each rem s1 es = Inr s'" "rep s' (F - {(p, z)} - set es)"
    using Cons.prems e by auto
  moreover have "F - {(p, z)} - set es = F - set (e # es)" using e by auto
  ultimately show ?case using s1(1) e by auto
qed simp

end

section \<open>The tree bins as a store\<close>

lemma all_nodes_entries: "all_nodes T = fst ` tree_entries T"
  by (simp add: all_nodes_def tree_entries_def image_UN entries_nodes)

lemma tree_entries_upd:
  assumes ok: "treebins_ok s T" and i: "i < 32"
  shows "entries t = insert e (entries (T i)) \<Longrightarrow> tree_entries (T(i := t)) = insert e (tree_entries T)"
    "e \<in> entries (T i) \<Longrightarrow> entries t = entries (T i) - {e} \<Longrightarrow> tree_entries (T(i := t)) = tree_entries T - {e}"
proof -
  have split: "tree_entries (T(i := t)) = entries t \<union> (\<Union>j\<in>{..<32} - {i}. entries (T j))" for t
    using i by (auto simp: tree_entries_def split: if_splits)
  have self: "tree_entries T = entries (T i) \<union> (\<Union>j\<in>{..<32} - {i}. entries (T j))"
    using split [of "T i"] by simp
  have disj: "e \<notin> entries (T j)" if "e \<in> entries (T i)" "j \<in> {..<32} - {i}" for e j
    using entries_disjoint [OF treebins_okD(3) [OF ok i, of j]] that by auto
  show "entries t = insert e (entries (T i)) \<Longrightarrow> tree_entries (T(i := t)) = insert e (tree_entries T)"
    by (simp add: split self)
  show "e \<in> entries (T i) \<Longrightarrow> entries t = entries (T i) - {e} \<Longrightarrow> tree_entries (T(i := t)) = tree_entries T - {e}"
    unfolding split self using disj by auto
qed

lemma large_index:
  assumes "\<not> is_small z" "unat z < 2 ^ 40"
  obtains i where "i < 32" "compute_tree_index z = of_nat i"
proof -
  have "32 \<le> unat z div 8"
    using assms(1) by (simp add: is_small_def dl_consts word_less_nat_alt unat_drop [of 3, simplified])
  then have "256 \<le> unat z" by linarith
  from tree_index_range(1) [OF this assms(2)] show ?thesis using that by simp
qed

definition tree_cells :: "'o state \<Rightarrow> addr set \<Rightarrow> addr set" where
  "tree_cells s N = tree_headers s \<union> body_of N"

definition large_chunk :: "'o state \<Rightarrow> addr \<Rightarrow> size_t \<Rightarrow> bool" where
  "large_chunk s X S \<longleftrightarrow> \<not> is_small S \<and> unat S < 2 ^ 40 \<and> X \<noteq> 0 \<and> X \<le> X + 56 \<and> chunksize s X = S \<and> ok_address s X"

lemma cells_self: "p \<in> N \<Longrightarrow> cells p \<subseteq> cells_of N"
  by (auto simp: cells_of_def)

lemma cells_nonempty: "cells p \<noteq> {}"
  using cells_in(1) [of p] by blast

lemma sep_insert: "sep N \<Longrightarrow> cells X \<inter> cells_of N = {} \<Longrightarrow> sep (insert X N)"
  unfolding sep_def by (auto simp: cells_of_def)

lemma insert_large_entries:
  assumes ok: "treebins_ok s T" and X: "large_chunk s X S" "cells X \<inter> (tree_headers s \<union> cells_of (all_nodes T)) = {}"
  shows "\<exists>s' T'. insert_large_chunk s X S = Inr s' \<and> treebins_ok s' T'
    \<and> tree_entries T' = insert (X, S) (tree_entries T)
    \<and> changes_tree (tree_cells s (insert X (all_nodes T))) s s'"
proof -
  note P = X(1) [unfolded large_chunk_def]
  obtain i where i: "i < 32" "compute_tree_index S = of_nat i"
    using large_index P by blast
  have nX: "X \<notin> all_nodes T" using X(2) cells_self [of X "all_nodes T"] cells_nonempty [of X]
    by auto
  have "sep (insert X (all_nodes T))"
    by (rule sep_insert [OF treebins_okD(1) [OF ok]]) (use X(2) in auto)
  from insert_large_chunk_tree [OF ok _ _ i(2,1) _ _ _ _ nX this] P X(2)
  obtain s' where s': "insert_large_chunk s X S = Inr s'"
    "treebins_ok s' (T(i := tinsert X S (bin_key (of_nat i) S) (T i)))"
    "changes_tree (insert (treebin_at s (of_nat i)) (body_of (insert X (set (nodes (T i)))))) s s'"
    by auto
  have "insert X (set (nodes (T i))) \<subseteq> insert X (all_nodes T)" using all_nodesI [OF i(1)] by blast
  from body_of_mono [OF this]
  have "changes_tree (tree_cells s (insert X (all_nodes T))) s s'"
    by (intro changes_tree_mono [OF s'(3)]) (use tree_headersI [OF i(1), of s] in \<open>auto simp: tree_cells_def\<close>)
  then show ?thesis using s'(1,2) tree_entries_upd(1) [OF ok i(1) entries_tinsert] by blast
qed

lemma unlink_large_entries:
  assumes ok: "treebins_ok s T" and X: "(X, z) \<in> tree_entries T"
  shows "\<exists>s' T'. unlink_large_chunk s X = Inr s' \<and> treebins_ok s' T'
    \<and> tree_entries T' = tree_entries T - {(X, z)} \<and> changes_tree (tree_cells s (all_nodes T)) s s'"
proof -
  obtain i where i: "i < 32" "(X, z) \<in> entries (T i)" using X by (rule tree_entriesE)
  from unlink_large_chunk_tree [OF ok i] obtain s' t' where s': "unlink_large_chunk s X = Inr s'"
    "treebins_ok s' (T(i := t'))" "entries t' = entries (T i) - {(X, z)}"
    "changes_tree (insert (treebin_at s (of_nat i)) (body_of (set (nodes (T i))))) s s'" by blast
  have "set (nodes (T i)) \<subseteq> all_nodes T" using all_nodesI [OF i(1)] by blast
  from body_of_mono [OF this] have "changes_tree (tree_cells s (all_nodes T)) s s'"
    by (intro changes_tree_mono [OF s'(4)]) (use tree_headersI [OF i(1), of s] in \<open>auto simp: tree_cells_def\<close>)
  then show ?thesis using s'(1,2) tree_entries_upd(2) [OF ok i(1,2) s'(3)] by blast
qed

lemma tree_entry_ok:
  assumes ok: "treebins_ok s T" and X: "(X, z) \<in> tree_entries T"
  shows "tchunk_ok s (compute_tree_index z) z X" "\<not> is_small z" "unat z < 2 ^ 40"
proof -
  obtain i where i: "i < 32" "(X, z) \<in> entries (T i)" "z \<in> sizes (T i)" using X by (rule tree_entriesE)
  note D = treebins_okD [OF ok]
  have "bin_ok i (T i)" by (rule D(4) [OF i(1)])
  then show "\<not> is_small z" "unat z < 2 ^ 40" using i(3) by (auto simp: bin_ok_def)
  show "tchunk_ok s (compute_tree_index z) z X"
    using tree_in_entry [OF D(6) [OF i(1)] i(2)] \<open>bin_ok i (T i)\<close> i(3) by (simp add: bin_ok_def)
qed

definition tree_rep :: "'o state \<Rightarrow> (addr \<times> size_t) set \<Rightarrow> bool" where
  "tree_rep s F \<longleftrightarrow> (\<exists>T. treebins_ok s T \<and> tree_entries T = F)"

definition tree_fresh :: "'o state \<Rightarrow> (addr \<times> size_t) set \<Rightarrow> addr \<times> size_t \<Rightarrow> bool" where
  "tree_fresh s F e \<longleftrightarrow>
     large_chunk s (fst e) (snd e) \<and> cells (fst e) \<inter> (tree_headers s \<union> cells_of (fst ` F)) = {}"

lemma chunksize_rd: "rd s' (p + 8) = rd s (p + 8) \<Longrightarrow> chunksize s' p = chunksize s p"
  by (simp add: chunksize_def head_def)

lemma tree_fresh_removed:
  assumes ok: "treebins_ok s T" and X: "(X, z) \<in> tree_entries T" and ch: "changes_tree (tree_cells s (all_nodes T)) s s'"
  shows "tree_fresh s' (tree_entries T - {(X, z)}) (X, z)"
proof -
  note D = treebins_okD [OF ok] and E = tree_entry_ok [OF ok X]
  have XN: "X \<in> all_nodes T" using X by (force simp: all_nodes_entries)
  have own: "X + 8 \<notin> body q" if "q \<in> all_nodes T" for q
  proof (cases "q = X")
    case False
    then have "cells X \<inter> cells q = {}" using D(1) XN that by (auto simp: sep_def)
    then show ?thesis using cells_in(1) [of X] body_cells(1) [of q] by blast
  qed (auto simp: body_def)
  have "X + 8 \<notin> tree_headers s" using D(2) cells_ofI [OF XN cells_in(1)] by blast
  then have "rd s' (X + 8) = rd s (X + 8)"
    using ch own by (auto simp: changes_tree_def tree_cells_def body_of_def)
  then have k: "chunksize s' X = z" using E(1) chunksize_rd [of s' X s] by (simp add: tchunk_ok_def)
  note f = changes_bins_fields [OF changes_binsI(1) [OF ch]]
  have "fst ` (tree_entries T - {(X, z)}) \<subseteq> all_nodes T - {X}"
  proof
    fix q assume "q \<in> fst ` (tree_entries T - {(X, z)})"
    then obtain e where "e \<in> tree_entries T" "e \<noteq> (X, z)" "q = fst e" by blast
    then obtain y where y: "(q, y) \<in> tree_entries T" "(q, y) \<noteq> (X, z)" by (cases e) simp
    then have "q \<noteq> X" using tree_entry_ok(1) [OF ok y(1)] E(1) by (auto simp: tchunk_ok_def)
    then show "q \<in> all_nodes T - {X}" using y(1) by (force simp: all_nodes_entries)
  qed
  from cells_of_mono [OF this] have "cells X \<inter> cells_of (fst ` (tree_entries T - {(X, z)})) = {}"
    using sep_disjoint [OF D(1), of "{X}" "all_nodes T - {X}"] XN by auto
  moreover have "cells X \<inter> tree_headers s' = {}"
    using D(2) cells_self [OF XN] headers_cong(4) [OF f(1)] by auto
  moreover have "large_chunk s' X z"
    using E k f(2) by (simp add: large_chunk_def tchunk_ok_def ok_address_def)
  ultimately show ?thesis by (simp add: tree_fresh_def Int_Un_distrib)
qed

interpretation tree: chunk_store tree_rep tree_fresh insert_large_chunk "\<lambda>s p z. unlink_large_chunk s p"
proof unfold_locales
  show "\<exists>s'. insert_large_chunk s p z = Inr s' \<and> tree_rep s' (insert (p, z) F)"
    if "tree_rep s F" "tree_fresh s F (p, z)" for s F p z
    using that insert_large_entries [of s _ p z] by (auto simp: tree_rep_def tree_fresh_def all_nodes_entries) blast
  show "\<exists>s'. unlink_large_chunk s p = Inr s' \<and> tree_rep s' (F - {(p, z)}) \<and> tree_fresh s' (F - {(p, z)}) (p, z)"
    if r: "tree_rep s F" and m: "(p, z) \<in> F" for s F p z
  proof -
    obtain T where T: "treebins_ok s T" "tree_entries T = F" using r by (auto simp: tree_rep_def)
    note m = m [folded T(2)]
    from unlink_large_entries [OF T(1) m] tree_fresh_removed [OF T(1) m] show ?thesis
      unfolding tree_rep_def T(2) by blast
  qed
qed

section \<open>The small bins as a store\<close>

text \<open>The cells of a small free chunk: head and links.\<close>

definition scells :: "addr \<Rightarrow> addr set" where "scells p = {p + 8, p + 16, p + 24}"

definition small_chunks :: "(nat \<Rightarrow> addr list) \<Rightarrow> addr set" where
  "small_chunks L = (\<Union>i<32. set (L i))"

definition small_entries :: "'o state \<Rightarrow> (nat \<Rightarrow> addr list) \<Rightarrow> (addr \<times> size_t) set" where
  "small_entries s L = (\<lambda>p. (p, chunksize s p)) ` small_chunks L"

definition small_store :: "'o state \<Rightarrow> (nat \<Rightarrow> addr list) \<Rightarrow> bool" where
  "small_store s L \<longleftrightarrow> smallbins_ok s L
     \<and> (\<forall>i<32. \<forall>p\<in>set (L i). is_small (chunksize s p) \<and> unat (chunksize s p) div 8 = i)
     \<and> disjoint_family_on scells (small_chunks L)
     \<and> (\<forall>p\<in>small_chunks L. scells p \<inter> link_cells (small_headers s) = {})"

lemma small_nodes_chunks: "small_nodes s L = small_headers s \<union> small_chunks L"
  by (simp add: small_nodes_def small_chunks_def)

text \<open>Heads are not links.\<close>

lemma head_not_link:
  assumes d: "disjoint_family_on scells N" "\<forall>p\<in>N. scells p \<inter> link_cells H = {}" and q: "q \<in> N"
  shows "q + 8 \<notin> link_cells (H \<union> N)"
proof
  assume "q + 8 \<in> link_cells (H \<union> N)"
  then obtain r where r: "r \<in> H \<union> N" "q + 8 = r + 16 \<or> q + 8 = r + 24"
    unfolding link_cells_def by blast
  have q8: "q + 8 \<in> scells q" by (simp add: scells_def)
  show False
  proof (cases "r \<in> N")
    case True
    moreover have "q + 8 \<in> scells r" using r(2) by (auto simp: scells_def)
    moreover have "q \<noteq> r" using r(2) by auto
    ultimately show False using d(1) q q8 by (auto simp: disjoint_family_on_def)
  next
    case False
    then have "q + 8 \<in> link_cells H" using r unfolding link_cells_def by blast
    then show False using d(2) q q8 by blast
  qed
qed

lemma apart_scells:
  assumes "disjoint_family_on scells N" "\<forall>p\<in>N. scells p \<inter> link_cells H = {}" "apart H"
  shows "apart (H \<union> N)"
  unfolding apart_def
proof (rule ballI, rule notI)
  fix p
  assume p: "p \<in> H \<union> N" and q: "p + 8 \<in> H \<union> N"
  have e: "p + 24 \<in> scells p" "p + 24 = (p + 8) + 16" "p + 8 + 16 \<in> scells (p + 8)" "p + 8 + 8 \<in> scells (p + 8)"
    "p + 8 + 8 = p + 16" by (auto simp: scells_def)
  consider "p \<in> H" "p + 8 \<in> H" | "p \<in> N" "p + 8 \<in> N" | "p \<in> N" "p + 8 \<in> H" | "p \<in> H" "p + 8 \<in> N"
    using p q by blast
  then show False
  proof cases
    case 1
    then show False using assms(3) by (auto simp: apart_def)
  next
    case 2
    then show False using assms(1) e by (force simp: disjoint_family_on_def)
  next
    case 3
    then show False using assms(2) e link_cellsI(1) [of "p + 8" H] by auto
  next
    case 4
    then show False using assms(2) e link_cellsI(1) [of p H] by force
  qed
qed

definition small_chunk :: "'o state \<Rightarrow> addr \<Rightarrow> size_t \<Rightarrow> bool" where
  "small_chunk s P S \<longleftrightarrow> is_small S \<and> chunksize s P = S \<and> ok_address s P"

text \<open>What an operation on small bins must establish.\<close>

lemma small_store_step:
  assumes st: "small_store s L" and ok: "smallbins_ok s' L'"
    and ch: "only_changes_links (small_headers s \<union> N) s s'" and N: "small_chunks L' \<subseteq> N"
    and d: "disjoint_family_on scells N" "\<forall>p\<in>N. scells p \<inter> link_cells (small_headers s) = {}"
    and sizes: "\<And>i p. i < 32 \<Longrightarrow> p \<in> set (L' i) \<Longrightarrow> is_small (chunksize s p) \<and> unat (chunksize s p) div 8 = i"
  shows "small_store s' L'" "small_entries s' L' = (\<lambda>p. (p, chunksize s p)) ` small_chunks L'"
proof -
  have m: "maddr s' = maddr s" by (rule only_changes_scalars [OF ch])
  have k: "chunksize s' p = chunksize s p" if "p \<in> N" for p
    using only_changes_scalars(8) [OF ch, of "p + 8"] head_not_link [OF d that]
    by (intro chunksize_rd) blast
  have k': "chunksize s' p = chunksize s p" if "i < 32" "p \<in> set (L' i)" for p i
    using that N by (intro k) (auto simp: small_chunks_def)
  show "small_entries s' L' = (\<lambda>p. (p, chunksize s p)) ` small_chunks L'"
    unfolding small_entries_def using k N by (auto intro!: image_cong)
  show "small_store s' L'"
    unfolding small_store_def headers_cong(3) [OF m]
  proof (intro conjI)
    show "\<forall>i<32. \<forall>p\<in>set (L' i). is_small (chunksize s' p) \<and> unat (chunksize s' p) div 8 = i"
      using sizes k' by auto
    show "disjoint_family_on scells (small_chunks L')" by (rule disjoint_family_on_mono [OF N d(1)])
    show "\<forall>p\<in>small_chunks L'. scells p \<inter> link_cells (small_headers s) = {}" using d(2) N by blast
  qed (rule ok)
qed

lemma small_chunks_upd:
  "i < 32 \<Longrightarrow> small_chunks (L(i := xs)) = set xs \<union> (\<Union>j\<in>{..<32} - {i}. set (L j))"
  by (auto simp: small_chunks_def split: if_splits)

lemma insert_small_entries:
  assumes st: "small_store s L" and P: "small_chunk s P S"
    "scells P \<inter> (link_cells (small_headers s) \<union> (\<Union>q\<in>small_chunks L. scells q)) = {}"
  shows "\<exists>s' L'. insert_small_chunk s P S = Inr s' \<and> small_store s' L'
    \<and> small_entries s' L' = insert (P, S) (small_entries s L)
    \<and> only_changes_links (insert P (small_nodes s L)) s s'"
proof -
  note D = st [unfolded small_store_def] and C = P(1) [unfolded small_chunk_def]
  let ?N = "insert P (small_chunks L)" and ?i = "unat S div 8"
  have i: "?i < 32" using small_index_of_nat C by blast
  have d: "disjoint_family_on scells ?N" using D P(2) by (auto simp: disjoint_family_on_def)
  have h: "\<forall>p\<in>?N. scells p \<inter> link_cells (small_headers s) = {}" using D P(2) by blast
  have N: "insert P (small_nodes s L) = small_headers s \<union> ?N" by (auto simp: small_nodes_chunks)
  have ap: "apart (insert P (small_nodes s L))" unfolding N by (rule apart_scells [OF d h apart_headers])
  have "P + 16 \<in> scells P" by (simp add: scells_def)
  then have P': "P \<notin> small_nodes s L"
    using P(2) link_cellsI(1) [of P "small_headers s"] unfolding small_nodes_chunks by blast
  obtain s' where s': "insert_small_chunk s P S = Inr s'" "smallbins_ok s' (L(?i := P # L ?i))"
    "only_changes_links (insert P (small_nodes s L)) s s'"
    using insert_small_chunk_list [OF _ _ refl P' _ ap, of S] D C by blast
  have sc: "small_chunks (L(?i := P # L ?i)) = ?N"
    using i by (auto simp: small_chunks_def split: if_splits)
  have "small_store s' (L(?i := P # L ?i))
    \<and> small_entries s' (L(?i := P # L ?i)) = (\<lambda>p. (p, chunksize s p)) ` small_chunks (L(?i := P # L ?i))"
    by (intro conjI small_store_step [OF st s'(2) s'(3) [unfolded N] _ d h])
      (use sc D C in \<open>auto split: if_splits\<close>)
  moreover have "(\<lambda>p. (p, chunksize s p)) ` ?N = insert (P, S) (small_entries s L)"
    using C by (simp add: small_entries_def)
  ultimately show ?thesis using s'(1,3) sc by metis
qed

lemma unlink_small_entries:
  assumes st: "small_store s L" and P: "(P, S) \<in> small_entries s L"
  shows "\<exists>s' L'. unlink_small_chunk s P S = Inr s' \<and> small_store s' L'
    \<and> small_entries s' L' = small_entries s L - {(P, S)}
    \<and> only_changes_links (small_nodes s L) s s'"
proof -
  note D = st [unfolded small_store_def]
  obtain i where i: "i < 32" "P \<in> set (L i)" and S: "S = chunksize s P"
    using P by (auto simp: small_entries_def small_chunks_def)
  then have S': "is_small S" "i = unat S div 8" using D by auto
  have sb: "smallbins_ok s L" using D by blast
  obtain s' where s': "unlink_small_chunk s P S = Inr s'" "smallbins_ok s' (L(i := remove1 P (L i)))"
    "only_changes_links (small_nodes s L) s s'"
    using unlink_small_chunk_list [OF sb S' i(2)] by blast
  have dis: "distinct (L i)" by (rule smallbins_okD(3) [OF sb i(1)])
  have "P \<notin> set (L j)" if "j < 32" "j \<noteq> i" for j
    using smallbins_ok_disj [OF sb i(1) that(1)] that(2) i(2) by auto
  then have sc: "small_chunks (L(i := remove1 P (L i))) = small_chunks L - {P}"
    using i dis by (auto simp: small_chunks_def split: if_splits)
  have "small_store s' (L(i := remove1 P (L i)))
    \<and> small_entries s' (L(i := remove1 P (L i)))
      = (\<lambda>p. (p, chunksize s p)) ` small_chunks (L(i := remove1 P (L i)))"
    by (intro conjI small_store_step [OF st s'(2) s'(3) [unfolded small_nodes_chunks]])
      (use sc D dis in \<open>auto split: if_splits\<close>)
  moreover have "(\<lambda>p. (p, chunksize s p)) ` (small_chunks L - {P}) = small_entries s L - {(P, S)}"
    using S by (auto simp: small_entries_def)
  ultimately show ?thesis using s'(1,3) sc by metis
qed

section \<open>Both kinds of bins\<close>

definition chunk_cells :: "addr \<times> size_t \<Rightarrow> addr set" where
  "chunk_cells e = (if is_small (snd e) then scells (fst e) else cells (fst e))"

definition chunk_links :: "addr \<times> size_t \<Rightarrow> addr set" where
  "chunk_links e = (if is_small (snd e) then {fst e + 16, fst e + 24} else body (fst e))"

definition header_cells :: "'o state \<Rightarrow> addr set" where
  "header_cells s = link_cells (small_headers s) \<union> tree_headers s"

definition store_links :: "'o state \<Rightarrow> (addr \<times> size_t) set \<Rightarrow> addr set" where
  "store_links s F = header_cells s \<union> (\<Union>e\<in>F. chunk_links e)"

definition free_ok :: "'o state \<Rightarrow> (nat \<Rightarrow> addr list) \<Rightarrow> (nat \<Rightarrow> trie) \<Rightarrow> (addr \<times> size_t) set \<Rightarrow> bool" where
  "free_ok s L T F \<longleftrightarrow> small_store s L \<and> treebins_ok s T \<and> F = small_entries s L \<union> tree_entries T
     \<and> disjoint_family_on chunk_cells F \<and> (\<forall>e\<in>F. chunk_cells e \<inter> header_cells s = {})"

definition free_rep :: "'o state \<Rightarrow> (addr \<times> size_t) set \<Rightarrow> bool" where
  "free_rep s F \<longleftrightarrow> (\<exists>L T. free_ok s L T F)"

definition free_fresh :: "'o state \<Rightarrow> (addr \<times> size_t) set \<Rightarrow> addr \<times> size_t \<Rightarrow> bool" where
  "free_fresh s F e \<longleftrightarrow>
     (is_small (snd e) \<or> unat (snd e) < 2 ^ 40 \<and> fst e \<noteq> 0 \<and> fst e \<le> fst e + 56)
     \<and> ok_address s (fst e) \<and> chunksize s (fst e) = snd e
     \<and> chunk_cells e \<inter> (header_cells s \<union> (\<Union>d\<in>F. chunk_cells d)) = {}"

lemma chunk_links_cells: "chunk_links e \<subseteq> chunk_cells e"
  using body_cells(1) by (auto simp: chunk_links_def chunk_cells_def scells_def)

lemma head_not_in_links: "fst e + 8 \<notin> chunk_links e"
  by (auto simp: chunk_links_def body_def)

lemma headers_apart: "link_cells (small_headers s) \<inter> tree_headers s = {}"
proof -
  have n: "maddr s + (72 + of_nat (16 * i)) + of_nat k \<noteq> maddr s + (600 + of_nat (8 * j))"
    if "i < 32" "j < 32" "k = 16 \<or> k = 24" for i j k :: nat
  proof
    assume "maddr s + (72 + of_nat (16 * i)) + of_nat k = maddr s + (600 + of_nat (8 * j))"
    then have "(of_nat (72 + 16 * i + k) :: addr) = of_nat (600 + 8 * j)"
      by (simp only: add.assoc add_left_cancel of_nat_add of_nat_numeral)
    then have "unat (of_nat (72 + 16 * i + k) :: addr) = unat (of_nat (600 + 8 * j) :: addr)" by (simp only:)
    then have "(72 + 16 * i + k) mod 2 ^ LENGTH(64) = (600 + 8 * j) mod 2 ^ LENGTH(64)"
      by (simp only: unat_of_nat)
    then show False using that by auto
  qed
  show ?thesis
    unfolding link_cells_def small_headers_def tree_headers_def
    using n [of _ _ 16] n [of _ _ 24] by (auto simp: smallbin_at_nat treebin_at_nat) metis+
qed

lemma free_okD:
  assumes "free_ok s L T F"
  shows "small_store s L" "treebins_ok s T" "F = small_entries s L \<union> tree_entries T"
    "disjoint_family_on chunk_cells F" "e \<in> F \<Longrightarrow> chunk_cells e \<inter> header_cells s = {}"
  using assms by (auto simp: free_ok_def)

lemma small_entry_small: "small_store s L \<Longrightarrow> e \<in> small_entries s L \<Longrightarrow> is_small (snd e)"
  by (auto simp: small_entries_def small_store_def small_chunks_def)

text \<open>The cells of the two kinds of chunks.\<close>

lemma store_cells:
  assumes ok: "free_ok s L T F"
  shows "(\<Union>e\<in>small_entries s L. chunk_cells e) = (\<Union>p\<in>small_chunks L. scells p)"
    "(\<Union>e\<in>small_entries s L. chunk_links e) = link_cells (small_chunks L)"
    "(\<Union>e\<in>tree_entries T. chunk_cells e) = cells_of (all_nodes T)"
    "(\<Union>e\<in>tree_entries T. chunk_links e) = body_of (all_nodes T)"
proof -
  note D = free_okD [OF ok]
  have s: "is_small (chunksize s p)" if "p \<in> small_chunks L" for p
    using small_entry_small [OF D(1), of "(p, chunksize s p)"] that by (auto simp: small_entries_def)
  have t: "\<not> is_small z" if "(p, z) \<in> tree_entries T" for p z by (rule tree_entry_ok [OF D(2) that])
  show "(\<Union>e\<in>small_entries s L. chunk_cells e) = (\<Union>p\<in>small_chunks L. scells p)"
    using s by (auto simp: small_entries_def chunk_cells_def)
  show "(\<Union>e\<in>small_entries s L. chunk_links e) = link_cells (small_chunks L)"
    using s by (auto simp: small_entries_def chunk_links_def link_cells_def)
  show "(\<Union>e\<in>tree_entries T. chunk_cells e) = cells_of (all_nodes T)"
    unfolding all_nodes_entries cells_of_def using t by (force simp: chunk_cells_def)
  show "(\<Union>e\<in>tree_entries T. chunk_links e) = body_of (all_nodes T)"
    unfolding all_nodes_entries body_of_def using t by (force simp: chunk_links_def)
qed

lemma kinds_disjoint:
  assumes ok: "free_ok s L T F"
  shows "(\<Union>p\<in>small_chunks L. scells p) \<inter> cells_of (all_nodes T) = {}"
proof -
  note D = free_okD [OF ok]
  have "small_entries s L \<inter> tree_entries T = {}"
    using small_entry_small [OF D(1)] tree_entry_ok(2) [OF D(2)] by fastforce
  then have "chunk_cells d \<inter> chunk_cells e = {}" if "d \<in> small_entries s L" "e \<in> tree_entries T" for d e
  proof -
    have "d \<in> F" "e \<in> F" "d \<noteq> e" using D(3) that \<open>small_entries s L \<inter> tree_entries T = {}\<close> by auto
    then show ?thesis using D(4) by (simp add: disjoint_family_on_def)
  qed
  then show ?thesis unfolding store_cells(1,3) [OF ok, symmetric] by blast
qed

lemma kinds_headers:
  assumes ok: "free_ok s L T F"
  shows "(\<Union>p\<in>small_chunks L. scells p) \<inter> header_cells s = {}" "cells_of (all_nodes T) \<inter> header_cells s = {}"
proof -
  note D = free_okD [OF ok]
  have "(\<Union>e\<in>F. chunk_cells e) \<inter> header_cells s = {}" using D(5) by blast
  then show "(\<Union>p\<in>small_chunks L. scells p) \<inter> header_cells s = {}"
    "cells_of (all_nodes T) \<inter> header_cells s = {}"
    unfolding D(3) UN_Un store_cells(1,3) [OF ok] by blast+
qed

text \<open>The invariant from its parts.\<close>

lemma free_rep_step:
  assumes S: "small_store s' L'" and T: "treebins_ok s' T'" and F: "F' = small_entries s' L' \<union> tree_entries T'"
    and m: "maddr s' = maddr s" and G: "F' \<subseteq> G" "disjoint_family_on chunk_cells G"
      "\<forall>e\<in>G. chunk_cells e \<inter> header_cells s = {}"
  shows "free_rep s' F'"
proof -
  have h: "header_cells s' = header_cells s" using headers_cong [OF m] by (simp add: header_cells_def)
  have "disjoint_family_on chunk_cells F'" by (rule disjoint_family_on_mono [OF G(1,2)])
  then have "free_ok s' L' T' F'"
    unfolding free_ok_def h using S T F G by blast
  then show ?thesis by (auto simp: free_rep_def)
qed

lemma small_store_frame:
  assumes ok: "free_ok s L T F" and ch: "changes_tree (tree_cells s N) s s'"
    and N: "cells_of N \<inter> (link_cells (small_headers s) \<union> (\<Union>p\<in>small_chunks L. scells p)) = {}"
  shows "small_store s' L" "small_entries s' L = small_entries s L"
proof -
  note D = free_okD [OF ok] and c = changes_binsI(1) [OF ch]
  note f = changes_bins_fields [OF c]
  have hd: "(\<Union>p\<in>small_chunks L. scells p) \<inter> tree_headers s = {}"
    using kinds_headers(1) [OF ok] by (auto simp: header_cells_def)
  have lk: "link_cells (small_chunks L) \<subseteq> (\<Union>p\<in>small_chunks L. scells p)"
    by (auto simp: link_cells_def scells_def)
  have out: "a \<notin> tree_cells s N"
    if "a \<in> link_cells (small_headers s) \<union> (\<Union>p\<in>small_chunks L. scells p)" for a
    using that N hd headers_apart [of s] body_cells(2) [of N] by (auto simp: tree_cells_def)
  have rd: "rd s' a = rd s a"
    if "a \<in> link_cells (small_headers s) \<union> (\<Union>p\<in>small_chunks L. scells p)" for a
    by (rule changes_binsD [OF c out [OF that]])
  have k: "chunksize s' p = chunksize s p" if "p \<in> small_chunks L" for p
    by (rule chunksize_rd, rule rd) (use that in \<open>auto simp: scells_def\<close>)
  show e: "small_entries s' L = small_entries s L" using k by (auto simp: small_entries_def)
  have "link_cells (small_nodes s L) \<subseteq> link_cells (small_headers s) \<union> link_cells (small_chunks L)"
    by (auto simp: small_nodes_chunks link_cells_def)
  then have "smallbins_ok s' L"
    using D(1) lk by (intro smallbins_ok_cong [OF _ f(1,2) small_map_field [OF ch] rd]) (auto simp: small_store_def)
  moreover have "chunksize s' p = chunksize s p" if "i < 32" "p \<in> set (L i)" for i p
    using that by (intro k) (auto simp: small_chunks_def)
  ultimately show "small_store s' L"
    using D(1) headers_cong [OF f(1)] by (simp add: small_store_def)
qed

lemma treebins_frame:
  assumes ok: "free_ok s L T F" and ch: "only_changes_links (small_headers s \<union> N) s s'"
    and N: "link_cells N \<inter> (tree_headers s \<union> cells_of (all_nodes T)) = {}"
  shows "treebins_ok s' T"
proof -
  note D = free_okD [OF ok]
  note f = only_changes_scalars [OF ch]
  have "cells_of (all_nodes T) \<inter> link_cells (small_headers s) = {}"
    using kinds_headers(2) [OF ok] by (auto simp: header_cells_def)
  then have "a \<notin> link_cells (small_headers s \<union> N)" if "a \<in> tree_headers s \<union> cells_of (all_nodes T)" for a
    using that N headers_apart [of s] by (auto simp: link_cells_def)
  then show ?thesis using f(8) by (intro treebins_ok_cong [OF D(2) f(1,2,3)]) blast
qed

lemma insert_chunk_free:
  assumes rep: "free_rep s F" and fr: "free_fresh s F (P, z)"
  shows "\<exists>s'. insert_chunk s P z = Inr s' \<and> free_rep s' (insert (P, z) F)
    \<and> changes_bins (store_links s (insert (P, z) F)) s s'"
proof -
  obtain L T where ok: "free_ok s L T F" using rep by (auto simp: free_rep_def)
  note D = free_okD [OF ok] and C = store_cells [OF ok]
  have fr': "ok_address s P" "chunksize s P = z"
    "chunk_cells (P, z) \<inter> (header_cells s \<union> (\<Union>d\<in>F. chunk_cells d)) = {}"
    "is_small z \<or> unat z < 2 ^ 40 \<and> P \<noteq> 0 \<and> P \<le> P + 56"
    using fr by (simp_all add: free_fresh_def)
  have G: "disjoint_family_on chunk_cells (insert (P, z) F)" "\<forall>e\<in>insert (P, z) F. chunk_cells e \<inter> header_cells s = {}"
    using D(4,5) fr'(3) by (auto simp: disjoint_family_on_def)
  have all: "(\<Union>d\<in>F. chunk_cells d) = (\<Union>p\<in>small_chunks L. scells p) \<union> cells_of (all_nodes T)"
    unfolding D(3) UN_Un C ..
  note dis = fr'(3) [unfolded all header_cells_def]
  show ?thesis
  proof (cases "is_small z")
    case True
    have P: "small_chunk s P z" "scells P \<inter> (link_cells (small_headers s) \<union> (\<Union>q\<in>small_chunks L. scells q)) = {}"
      using True fr' dis by (auto simp: small_chunk_def chunk_cells_def)
    obtain s' L' where s': "insert_small_chunk s P z = Inr s'" "small_store s' L'"
      "small_entries s' L' = insert (P, z) (small_entries s L)"
      "only_changes_links (insert P (small_nodes s L)) s s'"
      using insert_small_entries [OF D(1) P] by blast
    have N: "insert P (small_nodes s L) = small_headers s \<union> insert P (small_chunks L)"
      by (auto simp: small_nodes_chunks)
    have lc: "link_cells (insert P (small_chunks L)) \<subseteq> scells P \<union> (\<Union>p\<in>small_chunks L. scells p)"
      by (auto simp: link_cells_def scells_def)
    have hd: "(\<Union>p\<in>small_chunks L. scells p) \<inter> tree_headers s = {}"
      using kinds_headers(1) [OF ok] by (auto simp: header_cells_def)
    have "treebins_ok s' T"
    proof (rule treebins_frame [OF ok s'(4) [unfolded N]])
      have "scells P \<inter> (tree_headers s \<union> cells_of (all_nodes T)) = {}"
        using dis True by (auto simp: chunk_cells_def)
      then show "link_cells (insert P (small_chunks L)) \<inter> (tree_headers s \<union> cells_of (all_nodes T)) = {}"
        using lc hd kinds_disjoint [OF ok] by blast
    qed
    moreover have "maddr s' = maddr s" by (rule only_changes_scalars [OF s'(4)])
    ultimately have "free_rep s' (insert (P, z) F)"
      by (intro free_rep_step [OF s'(2) _ _ _ subset_refl G]) (simp_all add: s'(3) D(3))
    moreover have "changes_bins (store_links s (insert (P, z) F)) s s'"
    proof (rule changes_bins_mono [OF changes_binsI(2) [OF s'(4) [unfolded N]]])
      have "link_cells (small_chunks L) \<subseteq> (\<Union>e\<in>F. chunk_links e)"
        unfolding D(3) UN_Un C by blast
      then show "link_cells (small_headers s \<union> insert P (small_chunks L)) \<subseteq> store_links s (insert (P, z) F)"
        using True by (auto simp: store_links_def header_cells_def link_cells_def chunk_links_def)
    qed
    ultimately show ?thesis using s'(1) True by (simp add: insert_chunk_def)
  next
    case False
    have P: "large_chunk s P z" "cells P \<inter> (tree_headers s \<union> cells_of (all_nodes T)) = {}"
      using False fr' dis by (auto simp: large_chunk_def chunk_cells_def)
    obtain s' T' where s': "insert_large_chunk s P z = Inr s'" "treebins_ok s' T'"
      "tree_entries T' = insert (P, z) (tree_entries T)"
      "changes_tree (tree_cells s (insert P (all_nodes T))) s s'"
      using insert_large_entries [OF D(2) P] by blast
    have "cells_of (insert P (all_nodes T)) \<inter> (link_cells (small_headers s) \<union> (\<Union>p\<in>small_chunks L. scells p)) = {}"
      using dis False kinds_disjoint [OF ok] kinds_headers(2) [OF ok] by (auto simp: chunk_cells_def header_cells_def)
    note S = small_store_frame [OF ok s'(4) this]
    have "maddr s' = maddr s" by (rule changes_bins_fields [OF changes_binsI(1) [OF s'(4)]])
    then have "free_rep s' (insert (P, z) F)"
      by (intro free_rep_step [OF S(1) s'(2) _ _ subset_refl G]) (simp_all add: s'(3) S(2) D(3))
    moreover have "changes_bins (store_links s (insert (P, z) F)) s s'"
    proof (rule changes_bins_mono [OF changes_binsI(1) [OF s'(4)]])
      have "body_of (all_nodes T) \<subseteq> (\<Union>e\<in>F. chunk_links e)"
        unfolding D(3) UN_Un C by blast
      then show "tree_cells s (insert P (all_nodes T)) \<subseteq> store_links s (insert (P, z) F)"
        using False by (auto simp: store_links_def header_cells_def tree_cells_def chunk_links_def)
    qed
    ultimately show ?thesis using s'(1) False by (simp add: insert_chunk_def)
  qed
qed

lemma unlink_chunk_free:
  assumes rep: "free_rep s F" and X: "(P, z) \<in> F"
  shows "\<exists>s'. unlink_chunk s P z = Inr s' \<and> free_rep s' (F - {(P, z)})
    \<and> changes_bins (store_links s F) s s'"
proof -
  obtain L T where ok: "free_ok s L T F" using rep by (auto simp: free_rep_def)
  note D = free_okD [OF ok] and C = store_cells [OF ok]
  have G: "\<forall>e\<in>F. chunk_cells e \<inter> header_cells s = {}" using D(5) by blast
  show ?thesis
  proof (cases "is_small z")
    case True
    then have e: "(P, z) \<in> small_entries s L" "(P, z) \<notin> tree_entries T"
      using X D(3) tree_entry_ok(2) [OF D(2)] by auto
    obtain s' L' where s': "unlink_small_chunk s P z = Inr s'" "small_store s' L'"
      "small_entries s' L' = small_entries s L - {(P, z)}" "only_changes_links (small_nodes s L) s s'"
      using unlink_small_entries [OF D(1) e(1)] by blast
    have lc: "link_cells (small_chunks L) \<subseteq> (\<Union>p\<in>small_chunks L. scells p)"
      by (auto simp: link_cells_def scells_def)
    have hd: "(\<Union>p\<in>small_chunks L. scells p) \<inter> tree_headers s = {}"
      using kinds_headers(1) [OF ok] by (auto simp: header_cells_def)
    have "treebins_ok s' T"
      by (rule treebins_frame [OF ok s'(4) [unfolded small_nodes_chunks]])
        (use lc hd kinds_disjoint [OF ok] in blast)
    moreover have "maddr s' = maddr s" by (rule only_changes_scalars [OF s'(4)])
    moreover have "F - {(P, z)} = small_entries s' L' \<union> tree_entries T" unfolding s'(3) D(3) using e(2) by blast
    ultimately have "free_rep s' (F - {(P, z)})"
      by (intro free_rep_step [OF s'(2) _ _ _ Diff_subset D(4) G])
    moreover have "changes_bins (store_links s F) s s'"
    proof (rule changes_bins_mono [OF changes_binsI(2) [OF s'(4) [unfolded small_nodes_chunks]]])
      have "link_cells (small_chunks L) \<subseteq> (\<Union>e\<in>F. chunk_links e)" unfolding D(3) UN_Un C by blast
      then show "link_cells (small_headers s \<union> small_chunks L) \<subseteq> store_links s F"
        by (auto simp: store_links_def header_cells_def link_cells_def)
    qed
    ultimately show ?thesis using s'(1) True by (simp add: unlink_chunk_def)
  next
    case False
    then have e: "(P, z) \<in> tree_entries T" "(P, z) \<notin> small_entries s L"
      using X D(3) small_entry_small [OF D(1), of "(P, z)"] by auto
    obtain s' T' where s': "unlink_large_chunk s P = Inr s'" "treebins_ok s' T'"
      "tree_entries T' = tree_entries T - {(P, z)}" "changes_tree (tree_cells s (all_nodes T)) s s'"
      using unlink_large_entries [OF D(2) e(1)] by blast
    have "cells_of (all_nodes T) \<inter> (link_cells (small_headers s) \<union> (\<Union>p\<in>small_chunks L. scells p)) = {}"
      using kinds_disjoint [OF ok] kinds_headers(2) [OF ok] by (auto simp: header_cells_def)
    note S = small_store_frame [OF ok s'(4) this]
    have "maddr s' = maddr s" by (rule changes_bins_fields [OF changes_binsI(1) [OF s'(4)]])
    moreover have "F - {(P, z)} = small_entries s' L \<union> tree_entries T'" unfolding s'(3) S(2) D(3) using e(2) by blast
    ultimately have "free_rep s' (F - {(P, z)})"
      by (intro free_rep_step [OF S(1) s'(2) _ _ Diff_subset D(4) G])
    moreover have "changes_bins (store_links s F) s s'"
    proof (rule changes_bins_mono [OF changes_binsI(1) [OF s'(4)]])
      have "body_of (all_nodes T) \<subseteq> (\<Union>e\<in>F. chunk_links e)" unfolding D(3) UN_Un C by blast
      then show "tree_cells s (all_nodes T) \<subseteq> store_links s F"
        by (auto simp: store_links_def header_cells_def tree_cells_def)
    qed
    ultimately show ?thesis using s'(1) False by (simp add: unlink_chunk_def)
  qed
qed

text \<open>The chunks of the set, and their heads, which no operation writes.\<close>

lemma free_entry_ok:
  assumes rep: "free_rep s F" and X: "(P, z) \<in> F"
  shows "ok_address s P" "chunksize s P = z" "is_small z \<or> unat z < 2 ^ 40 \<and> P \<noteq> 0 \<and> P \<le> P + 56"
    "chunk_cells (P, z) \<inter> header_cells s = {}"
    "chunk_cells (P, z) \<inter> (\<Union>e\<in>F - {(P, z)}. chunk_cells e) = {}"
proof -
  obtain L T where ok: "free_ok s L T F" using rep by (auto simp: free_rep_def)
  note D = free_okD [OF ok]
  have "ok_address s P \<and> chunksize s P = z \<and> (is_small z \<or> unat z < 2 ^ 40 \<and> P \<noteq> 0 \<and> P \<le> P + 56)"
  proof (cases "(P, z) \<in> small_entries s L")
    case True
    then show ?thesis
      using D(1) smallbins_okD(5) [of s L] by (auto simp: small_entries_def small_store_def small_chunks_def)
  next
    case False
    then have "(P, z) \<in> tree_entries T" using X D(3) by auto
    from tree_entry_ok [OF D(2) this] show ?thesis by (auto simp: tchunk_ok_def)
  qed
  then show "ok_address s P" "chunksize s P = z" "is_small z \<or> unat z < 2 ^ 40 \<and> P \<noteq> 0 \<and> P \<le> P + 56"
    by blast+
  show "chunk_cells (P, z) \<inter> header_cells s = {}" by (rule D(5) [OF X])
  show "chunk_cells (P, z) \<inter> (\<Union>e\<in>F - {(P, z)}. chunk_cells e) = {}"
    using D(4) X unfolding disjoint_family_on_def by blast
qed

lemma head_in_cells: "fst e + 8 \<in> chunk_cells e"
  using cells_in(1) by (simp add: chunk_cells_def scells_def)

lemma free_heads_kept:
  assumes rep: "free_rep s F" and X: "(P, z) \<in> F"
  shows "P + 8 \<notin> store_links s F"
proof -
  note E = free_entry_ok [OF rep X]
  have h: "P + 8 \<in> chunk_cells (P, z)" using head_in_cells [of "(P, z)"] by simp
  have "P + 8 \<notin> chunk_links e" if "e \<in> F" for e
  proof (cases "e = (P, z)")
    case True
    then show ?thesis using head_not_in_links [of e] by simp
  next
    case False
    then show ?thesis using E(5) h that chunk_links_cells [of e] by blast
  qed
  then show ?thesis using E(4) h by (auto simp: store_links_def)
qed

lemma free_fresh_removed:
  assumes rep: "free_rep s F" and X: "(P, z) \<in> F" and ch: "changes_bins (store_links s F) s s'"
  shows "free_fresh s' (F - {(P, z)}) (P, z)"
proof -
  note E = free_entry_ok [OF rep X] and f = changes_bins_fields [OF ch]
  have "chunksize s' P = z"
    using E(2) chunksize_rd [OF changes_binsD [OF ch free_heads_kept [OF rep X]]] by simp
  moreover have "header_cells s' = header_cells s" using headers_cong [OF f(1)] by (simp add: header_cells_def)
  ultimately show ?thesis
    using E f(2) by (simp add: free_fresh_def ok_address_def Int_Un_distrib)
qed

interpretation free: chunk_store free_rep free_fresh insert_chunk unlink_chunk
proof unfold_locales
  show "\<exists>s'. insert_chunk s p z = Inr s' \<and> free_rep s' (insert (p, z) F)"
    if "free_rep s F" "free_fresh s F (p, z)" for s F p z
    using insert_chunk_free [OF that] by blast
  show "\<exists>s'. unlink_chunk s p z = Inr s' \<and> free_rep s' (F - {(p, z)}) \<and> free_fresh s' (F - {(p, z)}) (p, z)"
    if "free_rep s F" "(p, z) \<in> F" for s F p z
    using unlink_chunk_free [OF that] free_fresh_removed [OF that] by blast
qed

end
