(* ===== verification/DL_Layout.thy ===== *)
theory DL_Layout
  imports DL_FreeStore
begin

text \<open>
  Chunks in memory as src/src/dlmalloc.c lays them out ("boundary tags"): every chunk of a
  segment is followed by the next one, a free chunk has its size in its head and its foot, the
  head of a chunk tells whether the chunk before it is in use, and no two free chunks are
  neighbours. \<open>geo\<close> is the arrangement of the chunks, \<open>tags\<close> what is written in heads and feet.
  A chunk that is being moved from one state to another is a hole: its own tags are arbitrary.
\<close>

section \<open>Arrangement\<close>

type_synonym chunk = "addr \<times> size_t"

definition lo :: "chunk \<Rightarrow> nat" where "lo c = unat (fst c)"
definition hi :: "chunk \<Rightarrow> nat" where "hi c = unat (fst c) + unat (snd c)"

text \<open>The address after a chunk, and the cells that belong to it: its head up to its foot.\<close>

definition fin :: "chunk \<Rightarrow> addr" where "fin c = fst c + snd c"

definition own :: "chunk \<Rightarrow> addr set" where
  "own c = {a. lo c + 8 \<le> unat a \<and> unat a < hi c + 8}"

definition chunk_geo :: "chunk \<Rightarrow> bool" where
  "chunk_geo c \<longleftrightarrow> is_aligned (fst c) \<and> is_aligned (snd c) \<and> fst c \<noteq> 0
     \<and> 16 \<le> unat (snd c) \<and> hi c + 16 \<le> 2 ^ 64"

definition geo :: "chunk set \<Rightarrow> addr set \<Rightarrow> bool" where
  "geo A E \<longleftrightarrow> finite A \<and> (\<Sum>c\<in>A. unat (snd c)) < 2 ^ 40 \<and> (\<forall>c\<in>A. chunk_geo c)
     \<and> (\<forall>c\<in>A. \<forall>d\<in>A. c \<noteq> d \<longrightarrow> hi c \<le> lo d \<or> hi d \<le> lo c)
     \<and> (\<forall>e\<in>E. is_aligned e \<and> (\<forall>c\<in>A. unat e < lo c \<or> hi c \<le> unat e))
     \<and> (\<forall>c\<in>A. fin c \<in> fst ` A \<union> E)"

lemma fin_pair [simp]: "fin (p, z) = p + z" by (simp add: fin_def)

lemma lo_hi: "chunk_geo c \<Longrightarrow> lo c + 16 \<le> hi c" "chunk_geo c \<Longrightarrow> lo c < hi c" "chunk_geo c \<Longrightarrow> unat (fin c) = hi c"
proof -
  assume c: "chunk_geo c"
  then show "lo c + 16 \<le> hi c" "lo c < hi c" by (simp_all add: chunk_geo_def lo_def hi_def)
  show "unat (fin c) = hi c" using c
    by (simp add: chunk_geo_def fin_def hi_def unat_word_ariths)
qed

lemma geoD:
  assumes "geo A E"
  shows "finite A" "(\<Sum>c\<in>A. unat (snd c)) < 2 ^ 40" "c \<in> A \<Longrightarrow> chunk_geo c"
    "c \<in> A \<Longrightarrow> d \<in> A \<Longrightarrow> c \<noteq> d \<Longrightarrow> hi c \<le> lo d \<or> hi d \<le> lo c"
    "e \<in> E \<Longrightarrow> is_aligned e" "e \<in> E \<Longrightarrow> c \<in> A \<Longrightarrow> unat e < lo c \<or> hi c \<le> unat e"
    "c \<in> A \<Longrightarrow> fin c \<in> fst ` A \<union> E"
  using assms unfolding geo_def by blast+

lemma geo_size:
  assumes "geo A E" "c \<in> A"
  shows "unat (snd c) < 2 ^ 40"
  using member_le_sum [of c A "\<lambda>c. unat (snd c)"] geoD [OF assms(1)] assms(2) by force

lemma geo_inj:
  assumes "geo A E" "c \<in> A" "d \<in> A"
  shows "fst c = fst d \<Longrightarrow> c = d" "fin c = fin d \<Longrightarrow> c = d"
proof -
  note D = geoD [OF assms(1)]
  note l = lo_hi [OF D(3) [OF assms(2)]] lo_hi [OF D(3) [OF assms(3)]]
  show "c = d" if "fst c = fst d"
  proof (rule ccontr)
    assume "c \<noteq> d"
    from D(4) [OF assms(2,3) this] that l show False by (simp add: lo_def)
  qed
  show "c = d" if "fin c = fin d"
  proof (rule ccontr)
    assume "c \<noteq> d"
    from D(4) [OF assms(2,3) this] that l show False by auto
  qed
qed

lemma geo_start_not_end: "geo A E \<Longrightarrow> c \<in> A \<Longrightarrow> fst c \<notin> E"
proof
  assume g: "geo A E" and c: "c \<in> A" and e: "fst c \<in> E"
  from geoD(6) [OF g e c] lo_hi(2) [OF geoD(3) [OF g c]] show False by (auto simp: lo_def)
qed

lemma own_disjoint: "hi c \<le> lo d \<or> hi d \<le> lo c \<Longrightarrow> own c \<inter> own d = {}"
  by (auto simp: own_def)

lemma geo_own: "geo A E \<Longrightarrow> c \<in> A \<Longrightarrow> d \<in> A \<Longrightarrow> c \<noteq> d \<Longrightarrow> own c \<inter> own d = {}"
  by (rule own_disjoint) (rule geoD)

text \<open>Cells of a chunk.\<close>

lemma unat_in_chunk:
  assumes "chunk_geo (p, z)" "unat k < unat z + 16"
  shows "unat (p + k) = unat p + unat k"
  using assms by (simp add: chunk_geo_def hi_def unat_word_ariths)

lemma in_own:
  assumes "chunk_geo (p, z)" "8 \<le> unat k" "unat k < unat z + 8"
  shows "p + k \<in> own (p, z)"
  using assms unat_in_chunk [OF assms(1), of k] by (simp add: own_def lo_def hi_def)

lemma head_own: "chunk_geo c \<Longrightarrow> fst c + 8 \<in> own c"
  using in_own [of "fst c" "snd c" 8] by (simp add: chunk_geo_def)

lemma foot_own: "chunk_geo c \<Longrightarrow> fin c \<in> own c"
  using lo_hi [of c] by (simp add: own_def)

lemma own_sub: "lo c \<le> lo d \<Longrightarrow> hi d \<le> hi c \<Longrightarrow> own d \<subseteq> own c"
  by (auto simp: own_def)

lemma unat_head: "chunk_geo c \<Longrightarrow> unat (fst c + 8) = lo c + 8"
  using unat_in_chunk [of "fst c" "snd c" 8] by (simp add: chunk_geo_def lo_def)

section \<open>Merging and splitting\<close>

lemma chunk_geo_join:
  assumes "chunk_geo (p, x)" "chunk_geo (p + x, y)"
  shows "chunk_geo (p, x + y)" "hi (p, x) = lo (p + x, y)" "hi (p, x + y) = hi (p + x, y)" "unat (x + y) = unat x + unat y"
proof -
  note c = assms(1) [unfolded chunk_geo_def hi_def fst_conv snd_conv is_aligned_iff]
    and d = assms(2) [unfolded chunk_geo_def hi_def fst_conv snd_conv is_aligned_iff]
  have u: "unat (p + x) = unat p + unat x" using c by (simp add: unat_word_ariths)
  then show "hi (p, x) = lo (p + x, y)" by (simp add: hi_def lo_def)
  show xy: "unat (x + y) = unat x + unat y" using d u by (simp add: unat_word_ariths)
  then show h: "hi (p, x + y) = hi (p + x, y)" using u by (simp add: hi_def)
  show "chunk_geo (p, x + y)"
    unfolding chunk_geo_def is_aligned_iff h using c d xy by (simp add: hi_def)
qed

lemma geo_merge:
  assumes g: "geo A E" and c: "(p, x) \<in> A" and d: "(p + x, y) \<in> A"
  shows "geo (insert (p, x + y) (A - {(p, x), (p + x, y)})) E"
proof -
  note D = geoD [OF g]
  note j = chunk_geo_join [OF D(3) [OF c] D(3) [OF d]]
  let ?B = "A - {(p, x), (p + x, y)}"
  have ne: "(p, x) \<noteq> (p + x, y)" using j(2) lo_hi(2) [OF D(3) [OF c]] by auto
  have apart: "hi b \<le> lo (p, x + y) \<or> hi (p, x + y) \<le> lo b" if "b \<in> ?B" for b
  proof -
    have "hi b \<le> lo (p, x) \<or> hi (p, x) \<le> lo b" "hi b \<le> lo (p + x, y) \<or> hi (p + x, y) \<le> lo b"
      using D(4) [of b "(p, x)"] D(4) [of b "(p + x, y)"] that c d by auto
    then show ?thesis using j lo_hi(2) [OF D(3), of b] that lo_hi(2) [OF D(3) [OF d]]
      by (auto simp: lo_def)
  qed
  have sum: "(\<Sum>c\<in>insert (p, x + y) ?B. unat (snd c)) \<le> (\<Sum>c\<in>A. unat (snd c))"
  proof -
    have "(\<Sum>c\<in>A. unat (snd c)) = unat x + (\<Sum>c\<in>A - {(p, x)}. unat (snd c))"
      using sum.remove [OF D(1) c, of "\<lambda>c. unat (snd c)"] by simp
    also have "(\<Sum>c\<in>A - {(p, x)}. unat (snd c)) = unat y + (\<Sum>c\<in>A - {(p, x)} - {(p + x, y)}. unat (snd c))"
      using sum.remove [of "A - {(p, x)}" "(p + x, y)" "\<lambda>c. unat (snd c)"] D(1) d ne by simp
    also have "A - {(p, x)} - {(p + x, y)} = ?B" by auto
    finally have t: "(\<Sum>c\<in>A. unat (snd c)) = unat x + (unat y + (\<Sum>c\<in>?B. unat (snd c)))" .
    show ?thesis
    proof (cases "(p, x + y) \<in> ?B")
      case True
      then show ?thesis by (simp only: insert_absorb t)
    next
      case False
      then show ?thesis using D(1) t j(4) by simp
    qed
  qed
  have succ: "fin b \<in> fst ` insert (p, x + y) ?B \<union> E" if "b \<in> insert (p, x + y) ?B" for b
  proof -
    have "\<exists>b'\<in>A. b' \<noteq> (p, x) \<and> fin b = fin b'"
      using that c d ne by (cases "b = (p, x + y)") (auto simp: fin_def add.assoc intro: bexI [of _ "(p + x, y)"])
    then obtain b' where b': "b' \<in> A" "b' \<noteq> (p, x)" "fin b = fin b'" by blast
    have "fin b' \<noteq> p + x" using geo_inj(2) [OF g b'(1) c] b'(2) by auto
    then show ?thesis using D(7) [OF b'(1)] b'(3) by (force simp: image_iff)
  qed
  have ends: "unat e < lo (p, x + y) \<or> hi (p, x + y) \<le> unat e" if "e \<in> E" for e
    using D(6) [OF that c] D(6) [OF that d] j(2,3) by (auto simp: lo_def)
  show ?thesis
    unfolding geo_def
  proof (intro conjI)
    show "finite (insert (p, x + y) ?B)" using D(1) by simp
    show "(\<Sum>c\<in>insert (p, x + y) ?B. unat (snd c)) < 2 ^ 40" using sum D(2) by (rule le_less_trans)
    show "\<forall>c\<in>insert (p, x + y) ?B. chunk_geo c" using D(3) j(1) by blast
    show "\<forall>c\<in>insert (p, x + y) ?B. \<forall>d\<in>insert (p, x + y) ?B. c \<noteq> d \<longrightarrow> hi c \<le> lo d \<or> hi d \<le> lo c"
      using apart D(4) by blast
    show "\<forall>e\<in>E. is_aligned e \<and> (\<forall>c\<in>insert (p, x + y) ?B. unat e < lo c \<or> hi c \<le> unat e)"
      using D(5,6) ends by blast
    show "\<forall>c\<in>insert (p, x + y) ?B. fin c \<in> fst ` insert (p, x + y) ?B \<union> E" using succ by blast
  qed
qed

lemma chunk_geo_split:
  assumes "chunk_geo (p, z)" "is_aligned n" "16 \<le> unat n" "unat n + 16 \<le> unat z"
  shows "chunk_geo (p, n)" "chunk_geo (p + n, z - n)" "hi (p, n) = lo (p + n, z - n)" "hi (p + n, z - n) = hi (p, z)"
    "unat (z - n) = unat z - unat n"
proof -
  note c = assms(1) [unfolded chunk_geo_def hi_def fst_conv snd_conv is_aligned_iff]
  have n: "16 dvd unat n" using assms(2) by (simp add: is_aligned_iff)
  have u: "unat (p + n) = unat p + unat n" using c assms(4) by (simp add: unat_word_ariths)
  show zn: "unat (z - n) = unat z - unat n" using assms(4) by (simp add: unat_sub word_le_nat_alt)
  show h: "hi (p, n) = lo (p + n, z - n)" using u by (simp add: hi_def lo_def)
  show h': "hi (p + n, z - n) = hi (p, z)" using u zn assms(4) by (simp add: hi_def)
  show "chunk_geo (p, n)" using c n assms(3,4) by (simp add: chunk_geo_def is_aligned_iff hi_def)
  have "p + n \<noteq> 0" using u assms(3) by auto
  moreover have "16 dvd unat p + unat n" "16 dvd unat z - unat n"
    using c n by (simp_all add: dvd_diff_nat)
  ultimately show "chunk_geo (p + n, z - n)"
    using c u zn h' assms(4) hi_def [of "(p, z)"] by (simp add: chunk_geo_def is_aligned_iff)
qed

lemma geo_split:
  assumes g: "geo A E" and c: "(p, z) \<in> A" and n: "is_aligned n" "16 \<le> unat n" "unat n + 16 \<le> unat z"
  shows "geo (insert (p, n) (insert (p + n, z - n) (A - {(p, z)}))) E"
proof -
  note D = geoD [OF g]
  note j = chunk_geo_split [OF D(3) [OF c] n]
  let ?B = "A - {(p, z)}" and ?C = "insert (p, n) (insert (p + n, z - n) (A - {(p, z)}))"
  have lp: "lo (p, n) = lo (p, z)" by (simp add: lo_def)
  note l = lo_hi(2) [OF j(1)] lo_hi(2) [OF j(2)]
  have apart: "hi b \<le> lo (p, z) \<or> hi (p, z) \<le> lo b" if "b \<in> ?B" for b
    using D(4) [of b "(p, z)"] that c by auto
  have apart2: "hi b \<le> lo d \<or> hi d \<le> lo b" if "b \<in> ?B" "d \<in> {(p, n), (p + n, z - n)}" for b d
    using apart [OF that(1)] that(2) j l lp by auto
  have self: "hi (p, n) \<le> lo (p + n, z - n)" using j(3) by simp
  have t: "(\<Sum>c\<in>A. unat (snd c)) = unat z + (\<Sum>c\<in>?B. unat (snd c))"
    using sum.remove [OF D(1) c, of "\<lambda>c. unat (snd c)"] by simp
  have nB: "(p + n, z - n) \<notin> ?B" "(p, n) \<notin> insert (p + n, z - n) ?B"
    using apart2 l self by fastforce+
  then have sum: "(\<Sum>c\<in>?C. unat (snd c)) = (\<Sum>c\<in>A. unat (snd c))"
    using D(1) t j(5) n(3) by simp
  have ends: "unat e < lo d \<or> hi d \<le> unat e" if "e \<in> E" "d \<in> {(p, n), (p + n, z - n)}" for e d
    using D(6) [OF that(1) c] that(2) j l lp by auto
  have succ: "fin b \<in> fst ` ?C \<union> E" if "b \<in> ?C" for b
  proof (cases "b = (p, n)")
    case False
    then have "\<exists>b'\<in>A. fin b = fin b'" using that c by (force simp: fin_def)
    then obtain b' where "b' \<in> A" "fin b = fin b'" by blast
    then have "fin b \<in> fst ` A \<union> E" using D(7) by simp
    moreover have "fst ` A \<subseteq> fst ` ?C" by force
    ultimately show ?thesis by blast
  qed force
  show ?thesis
    unfolding geo_def
  proof (intro conjI)
    show "finite ?C" using D(1) by simp
    show "(\<Sum>c\<in>?C. unat (snd c)) < 2 ^ 40" using sum D(2) by simp
    show "\<forall>c\<in>?C. chunk_geo c" using D(3) j(1,2) by blast
    show "\<forall>c\<in>?C. \<forall>d\<in>?C. c \<noteq> d \<longrightarrow> hi c \<le> lo d \<or> hi d \<le> lo c"
      using apart2 self D(4) by blast
    show "\<forall>e\<in>E. is_aligned e \<and> (\<forall>c\<in>?C. unat e < lo c \<or> hi c \<le> unat e)"
      using D(5,6) ends by blast
    show "\<forall>c\<in>?C. fin c \<in> fst ` ?C \<union> E" using succ by blast
  qed
qed

lemma geo_fresh:
  assumes g: "geo A E" and c: "(p, z) \<in> A"
  shows "is_aligned n \<Longrightarrow> 16 \<le> unat n \<Longrightarrow> unat n + 16 \<le> unat z \<Longrightarrow> (p, n) \<notin> A \<and> (p + n, z - n) \<notin> A"
    "(p + z, y) \<in> A \<Longrightarrow> (p, z + y) \<notin> A"
proof -
  note D = geoD [OF g]
  show "(p, n) \<notin> A \<and> (p + n, z - n) \<notin> A" if n: "is_aligned n" "16 \<le> unat n" "unat n + 16 \<le> unat z"
  proof
    have "n \<noteq> z" using n(3) by auto
    then show "(p, n) \<notin> A" using geo_inj(1) [OF g _ c] by force
    note j = chunk_geo_split [OF D(3) [OF c] n]
    have "n \<noteq> 0" using n(2) by auto
    then have "(p + n, z - n) \<noteq> (p, z)" by auto
    moreover have "\<not> (hi (p + n, z - n) \<le> lo (p, z) \<or> hi (p, z) \<le> lo (p + n, z - n))"
      using lo_hi(2) [OF j(1)] lo_hi(2) [OF j(2)] j(3,4) by (simp add: lo_def)
    ultimately show "(p + n, z - n) \<notin> A" using D(4) [OF _ c] by blast
  qed
  show "(p, z + y) \<notin> A" if "(p + z, y) \<in> A"
  proof
    assume "(p, z + y) \<in> A"
    from geo_inj(1) [OF g this c] have "y = 0" by simp
    with D(3) [OF that] show False by (simp add: chunk_geo_def)
  qed
qed

section \<open>Heads and feet\<close>

text \<open>
  \<open>U\<close> are the chunks in use, \<open>R\<close> the free ones, \<open>T\<close> the top chunk, \<open>H\<close> the holes, \<open>V\<close> the
  addresses of the first fenceposts of the segments. \<open>K\<close> are cells the allocator keeps for
  itself: headers of the bins, segment records.
\<close>

definition tags :: "'o state \<Rightarrow> chunk set \<Rightarrow> chunk set \<Rightarrow> chunk set \<Rightarrow> chunk set \<Rightarrow> addr set \<Rightarrow> bool" where
  "tags s U R T H V \<longleftrightarrow> (\<forall>c\<in>U \<union> R \<union> T. chunksize s (fst c) = snd c)
     \<and> (\<forall>c\<in>U. cinuse s (fst c)) \<and> (\<forall>c\<in>R \<union> T. \<not> cinuse s (fst c)) \<and> (\<forall>e\<in>V. cinuse s e)
     \<and> (\<forall>q\<in>fst ` (U \<union> R \<union> T) \<union> V. q \<notin> fin ` H \<longrightarrow> (pinuse s q \<longleftrightarrow> q \<notin> fin ` R))
     \<and> (\<forall>c\<in>R. prev_foot s (fin c) = snd c)"

definition layout ::
  "'o state \<Rightarrow> chunk set \<Rightarrow> chunk set \<Rightarrow> chunk set \<Rightarrow> chunk set \<Rightarrow> addr set \<Rightarrow> addr set \<Rightarrow> addr set \<Rightarrow> bool"
where
  "layout s U R T H V E K \<longleftrightarrow> geo (U \<union> R \<union> T \<union> H) E \<and> V \<subseteq> E
     \<and> U \<inter> (R \<union> T \<union> H) = {} \<and> R \<inter> (T \<union> H) = {} \<and> T \<inter> H = {}
     \<and> (\<forall>c\<in>U \<union> R. 32 \<le> unat (snd c)) \<and> fin ` R \<inter> fst ` (R \<union> T \<union> H) = {}
     \<and> (\<forall>c\<in>R \<union> T \<union> H. own c \<inter> K = {}) \<and> (\<forall>q\<in>fst ` U \<union> V. q + 8 \<notin> K) \<and> tags s U R T H V"

lemma tagsD:
  assumes "tags s U R T H V"
  shows "c \<in> U \<union> R \<union> T \<Longrightarrow> chunksize s (fst c) = snd c" "c \<in> U \<Longrightarrow> cinuse s (fst c)"
    "c \<in> R \<union> T \<Longrightarrow> \<not> cinuse s (fst c)" "e \<in> V \<Longrightarrow> cinuse s e"
    "q \<in> fst ` (U \<union> R \<union> T) \<union> V \<Longrightarrow> q \<notin> fin ` H \<Longrightarrow> pinuse s q \<longleftrightarrow> q \<notin> fin ` R"
    "c \<in> R \<Longrightarrow> prev_foot s (fin c) = snd c"
  using assms unfolding tags_def by blast+

lemma layoutD:
  assumes "layout s U R T H V E K"
  shows "geo (U \<union> R \<union> T \<union> H) E" "V \<subseteq> E" "U \<inter> (R \<union> T \<union> H) = {}" "R \<inter> (T \<union> H) = {}" "T \<inter> H = {}"
    "c \<in> U \<union> R \<Longrightarrow> 32 \<le> unat (snd c)" "fin ` R \<inter> fst ` (R \<union> T \<union> H) = {}"
    "c \<in> R \<union> T \<union> H \<Longrightarrow> own c \<inter> K = {}" "q \<in> fst ` U \<union> V \<Longrightarrow> q + 8 \<notin> K" "tags s U R T H V"
  using assms unfolding layout_def by - (elim conjE, assumption | elim conjE, erule bspec, assumption)+

lemma layoutI:
  assumes "geo (U \<union> R \<union> T \<union> H) E" "V \<subseteq> E" "U \<inter> (R \<union> T \<union> H) = {}" "R \<inter> (T \<union> H) = {}" "T \<inter> H = {}"
    "\<forall>c\<in>U \<union> R. 32 \<le> unat (snd c)" "fin ` R \<inter> fst ` (R \<union> T \<union> H) = {}"
    "\<forall>c\<in>R \<union> T \<union> H. own c \<inter> K = {}" "\<forall>q\<in>fst ` U \<union> V. q + 8 \<notin> K" "tags s U R T H V"
  shows "layout s U R T H V E K"
  unfolding layout_def by (intro conjI assms)

lemma disjoint_insert2: "A \<inter> B = {} \<Longrightarrow> C \<subseteq> insert x (insert y B) \<Longrightarrow> x \<notin> A \<Longrightarrow> y \<notin> A \<Longrightarrow> A \<inter> C = {}"
  by blast

text \<open>Opening a hole, joining and splitting holes: nothing is written.\<close>

lemma open_used:
  assumes L: "layout s U R T H V E K" and c: "c \<in> U" "own c \<inter> K = {}" "pinuse s (fst c) \<or> fst c \<in> fin ` H"
  shows "layout s (U - {c}) R T (insert c H) V E K"
proof -
  note D = layoutD [OF L] and t = tagsD [OF layoutD(10) [OF L]]
  have A: "U - {c} \<union> R \<union> T \<union> insert c H = U \<union> R \<union> T \<union> H" using c(1) by blast
  have "fst c \<notin> fin ` R"
  proof (cases "fst c \<in> fin ` H")
    case True
    then obtain h where h: "h \<in> H" "fst c = fin h" by blast
    have "h = d" if "d \<in> R" "fst c = fin d" for d
      using geo_inj(2) [OF D(1), of h d] h that by auto
    then show ?thesis using h(1) D(4) by blast
  qed (use t(5) [of "fst c"] c in auto)
  then have r: "fin ` R \<inter> fst ` (R \<union> T \<union> insert c H) = {}" using D(7) by auto
  have "tags s (U - {c}) R T (insert c H) V" using D(10) unfolding tags_def by auto
  then show ?thesis
  proof (intro layoutI)
    show "geo (U - {c} \<union> R \<union> T \<union> insert c H) E" unfolding A by (rule D(1))
  qed (use D(2-9) c r in blast)+
qed

lemma open_free:
  assumes L: "layout s U R T H V E K" and c: "c \<in> R"
  shows "layout s U (R - {c}) T (insert c H) V E K"
proof -
  note D = layoutD [OF L] and t = tagsD [OF layoutD(10) [OF L]]
  have A: "U \<union> (R - {c}) \<union> T \<union> insert c H = U \<union> R \<union> T \<union> H" using c by blast
  have r: "fin ` (R - {c}) \<inter> fst ` (R - {c} \<union> T \<union> insert c H) = {}" using D(7) c by blast
  have "tags s U (R - {c}) T (insert c H) V" using D(10) c unfolding tags_def by auto
  then show ?thesis
  proof (intro layoutI)
    show "geo (U \<union> (R - {c}) \<union> T \<union> insert c H) E" unfolding A by (rule D(1))
  qed (use D(2-9) c r in blast)+
qed

lemma open_top:
  assumes L: "layout s U R T H V E K" and c: "c \<in> T"
  shows "layout s U R (T - {c}) (insert c H) V E K"
proof -
  note D = layoutD [OF L] and t = tagsD [OF layoutD(10) [OF L]]
  have A: "U \<union> R \<union> (T - {c}) \<union> insert c H = U \<union> R \<union> T \<union> H" using c by blast
  have r: "fin ` R \<inter> fst ` (R \<union> (T - {c}) \<union> insert c H) = {}" using D(7) c by blast
  have "tags s U R (T - {c}) (insert c H) V" using D(10) c unfolding tags_def by auto
  then show ?thesis
  proof (intro layoutI)
    show "geo (U \<union> R \<union> (T - {c}) \<union> insert c H) E" unfolding A by (rule D(1))
  qed (use D(2-9) c r in blast)+
qed

lemma join_holes:
  assumes L: "layout s U R T H V E K" and c: "(p, x) \<in> H" "(p + x, y) \<in> H"
  shows "layout s U R T (insert (p, x + y) (H - {(p, x), (p + x, y)})) V E K"
proof -
  note D = layoutD [OF L]
  let ?A = "U \<union> R \<union> T \<union> H" and ?H = "insert (p, x + y) (H - {(p, x), (p + x, y)})"
  have cA: "(p, x) \<in> ?A" "(p + x, y) \<in> ?A" using c by blast+
  note g = geo_merge [OF D(1) cA] and f = geo_fresh(2) [OF D(1) cA]
    and j = chunk_geo_join [OF geoD(3) [OF D(1) cA(1)] geoD(3) [OF D(1) cA(2)]]
  have A: "insert (p, x + y) (?A - {(p, x), (p + x, y)}) = U \<union> R \<union> T \<union> ?H"
    using c D(3,4,5) by blast
  have "own (p, x + y) \<subseteq> own (p, x) \<union> own (p + x, y)"
    using j(2,3) by (auto simp: own_def lo_def)
  then have k: "own (p, x + y) \<inter> K = {}" using D(8) c by blast
  have "fst ` ?H \<subseteq> fst ` H" using c by force
  then have r: "fin ` R \<inter> fst ` (R \<union> T \<union> ?H) = {}" using D(7) by blast
  have e: "q \<in> fin ` ?H" if qs: "q \<in> fst ` (U \<union> R \<union> T) \<union> V" and qh: "q \<in> fin ` H" for q
  proof -
    obtain h where h: "h \<in> H" "q = fin h" using qh by blast
    have "q \<noteq> p + x"
    proof
      assume q: "q = p + x"
      then have nV: "p + x \<notin> V" using geo_start_not_end [OF D(1) cA(2)] D(2) by auto
      then have "p + x \<in> fst ` (U \<union> R \<union> T)" using nV qs unfolding q by (simp only: Un_iff) blast
      then obtain d where d: "d \<in> U \<union> R \<union> T" "fst d = fst (p + x, y)" by (elim imageE) simp
      then have "d = (p + x, y)" using geo_inj(1) [OF D(1) _ cA(2)] by blast
      then show False using d(1) c(2) D(3,4,5) by blast
    qed
    then show ?thesis using h by (cases "h = (p + x, y)") (auto simp: image_iff add.assoc)
  qed
  have "tags s U R T ?H V" using D(10) e unfolding tags_def by blast
  then show ?thesis
  proof (intro layoutI)
    show "geo (U \<union> R \<union> T \<union> ?H) E" using g unfolding A .
  qed (use D(2-9) f k r in blast)+
qed

lemma split_hole:
  assumes L: "layout s U R T H V E K" and c: "(p, z) \<in> H"
    and n: "is_aligned n" "16 \<le> unat n" "unat n + 16 \<le> unat z"
  shows "layout s U R T (insert (p, n) (insert (p + n, z - n) (H - {(p, z)}))) V E K"
proof -
  note D = layoutD [OF L]
  let ?A = "U \<union> R \<union> T \<union> H" and ?H = "insert (p, n) (insert (p + n, z - n) (H - {(p, z)}))"
  have cA: "(p, z) \<in> ?A" using c by blast
  note g = geo_split [OF D(1) cA n] and f = geo_fresh(1) [OF D(1) cA n]
    and j = chunk_geo_split [OF geoD(3) [OF D(1) cA] n]
  have A: "insert (p, n) (insert (p + n, z - n) (?A - {(p, z)})) = U \<union> R \<union> T \<union> ?H"
    using c D(3,4,5) by blast
  note l = lo_hi(2) [OF j(1)] lo_hi(2) [OF j(2)]
  have "own (p, n) \<subseteq> own (p, z)" "own (p + n, z - n) \<subseteq> own (p, z)"
    using j l by (auto simp: own_def lo_def)
  then have k: "own (p, n) \<inter> K = {}" "own (p + n, z - n) \<inter> K = {}" using D(8) c by blast+
  have r: "fin ` R \<inter> fst ` (R \<union> T \<union> ?H) = {}"
  proof -
    have "p + n \<notin> fin ` R"
    proof
      assume "p + n \<in> fin ` R"
      then obtain d where d: "d \<in> R" and e: "fin d = p + n" by (elim imageE) simp
      have "d \<in> insert (p, n) (insert (p + n, z - n) (?A - {(p, z)}))" using d c D(4) by blast
      from geo_inj(2) [OF g this, of "(p, n)"] e have "d = (p, n)" by simp
      then show False using f d by blast
    qed
    moreover have "p \<in> fst ` H" using imageI [OF c, of fst] by simp
    then have "p \<notin> fin ` R" using D(7) by blast
    moreover have "fst ` (R \<union> T \<union> ?H) \<subseteq> insert p (insert (p + n) (fst ` (R \<union> T \<union> H)))"
      by (simp only: image_insert image_Un fst_conv) blast
    ultimately show ?thesis by (intro disjoint_insert2 [OF D(7)])
  qed
  have "fin h \<in> fin ` ?H" if h: "h \<in> H" for h
  proof (cases "h = (p, z)")
    case True
    then have "fin h = fin (p + n, z - n)" by simp
    then show ?thesis by simp
  qed (use h in simp)
  then have "fin ` H \<subseteq> fin ` ?H" by (rule image_subsetI)
  then have "tags s U R T ?H V" using D(10) unfolding tags_def by blast
  then show ?thesis
  proof (intro layoutI)
    show "geo (U \<union> R \<union> T \<union> ?H) E" using g unfolding A .
    show "V \<subseteq> E" by (rule D(2))
    show "U \<inter> (R \<union> T \<union> ?H) = {}" "R \<inter> (T \<union> ?H) = {}" "T \<inter> ?H = {}"
      using D(3) D(4) D(5) f by (simp_all only: Un_iff) blast+
    show "\<forall>c\<in>U \<union> R. 32 \<le> unat (snd c)" using D(6) by blast
    show "\<forall>q\<in>fst ` U \<union> V. q + 8 \<notin> K" using D(9) by blast
    show "\<forall>c\<in>R \<union> T \<union> ?H. own c \<inter> K = {}" using D(8) k by blast
  qed (rule r)
qed

text \<open>Filling a hole: its head (and foot) are written, and the head of the chunk after it.\<close>

lemma start_cases:
  assumes L: "layout s U R T H V E K" and c: "c \<in> H"
  shows "fst c \<notin> fst ` (U \<union> R \<union> T) \<union> V" "fst c \<notin> fin ` R"
    "d \<in> U \<union> R \<union> T \<Longrightarrow> fin d \<noteq> fin c" "d \<in> H \<Longrightarrow> d \<noteq> c \<Longrightarrow> fin d \<noteq> fin c"
    "fin c \<in> fst ` (U \<union> R \<union> T \<union> H) \<union> E" "fin c \<noteq> fst c"
proof -
  note D = layoutD [OF L]
  have cA: "c \<in> U \<union> R \<union> T \<union> H" using c by blast
  have "c \<notin> U \<union> R \<union> T" using c D(3,4,5) by blast
  then have "fst d \<noteq> fst c" if "d \<in> U \<union> R \<union> T" for d
    using geo_inj(1) [OF D(1) _ cA, of d] that by blast
  then have "fst c \<notin> fst ` (U \<union> R \<union> T)" by (intro notI) (erule imageE, metis)
  moreover have "fst c \<notin> V" using geo_start_not_end [OF D(1) cA] D(2) by blast
  ultimately show "fst c \<notin> fst ` (U \<union> R \<union> T) \<union> V" by blast
  show "fst c \<notin> fin ` R" using D(7) c by blast
  show "d \<in> U \<union> R \<union> T \<Longrightarrow> fin d \<noteq> fin c" "d \<in> H \<Longrightarrow> d \<noteq> c \<Longrightarrow> fin d \<noteq> fin c"
    using geo_inj(2) [OF D(1) _ cA, of d] \<open>c \<notin> U \<union> R \<union> T\<close> by blast+
  show "fin c \<in> fst ` (U \<union> R \<union> T \<union> H) \<union> E" by (rule geoD(7) [OF D(1) cA])
  show "fin c \<noteq> fst c" using lo_hi(2,3) [OF geoD(3) [OF D(1) cA]] by (auto simp: lo_def)
qed

definition same_head :: "'o state \<Rightarrow> 'o state \<Rightarrow> addr \<Rightarrow> bool" where
  "same_head s s' q \<longleftrightarrow> head s' q = head s q"

lemma same_headD:
  assumes "same_head s s' q"
  shows "chunksize s' q = chunksize s q" "cinuse s' q = cinuse s q" "pinuse s' q = pinuse s q"
  using assms by (simp_all add: same_head_def chunksize_def cinuse_def pinuse_def)

lemma head_kept:
  assumes "q \<in> Q" "\<forall>q\<in>Q. q \<noteq> x \<longrightarrow> same_head s s' q"
    and "q = x \<Longrightarrow> chunksize s' q = chunksize s q \<and> cinuse s' q = cinuse s q"
  shows "chunksize s' q = chunksize s q" "cinuse s' q = cinuse s q"
  using assms same_headD [of s s' q] by (cases "q = x"; simp)+

lemma not_in_image_insert: "x \<notin> f ` insert a B \<longleftrightarrow> x \<noteq> f a \<and> x \<notin> f ` B"
  by auto

lemma holes_left:
  assumes "q \<notin> fin ` (H - {c})" "q \<noteq> fin c"
  shows "q \<notin> fin ` H"
  using assms by auto

lemma fill_used:
  assumes L: "layout s U R T H V E K" and c: "c \<in> H" "32 \<le> unat (snd c)"
    and hd: "chunksize s' (fst c) = snd c" "cinuse s' (fst c)" "pinuse s' (fst c)"
    and others: "\<forall>q\<in>fst ` (U \<union> R \<union> T) \<union> V. q \<noteq> fin c \<longrightarrow> same_head s s' q"
    and nxt: "fin c \<in> fst ` (U \<union> R \<union> T) \<union> V \<Longrightarrow> chunksize s' (fin c) = chunksize s (fin c)
      \<and> cinuse s' (fin c) = cinuse s (fin c) \<and> pinuse s' (fin c)"
    and feet: "\<forall>d\<in>R. prev_foot s' (fin d) = prev_foot s (fin d)"
  shows "layout s' (insert c U) R T (H - {c}) V E K"
proof -
  note D = layoutD [OF L] and t = tagsD [OF layoutD(10) [OF L]] and C = start_cases [OF L c(1)]
  let ?Q = "fst ` (U \<union> R \<union> T) \<union> V"
  have k: "chunksize s' q = chunksize s q" "cinuse s' q = cinuse s q" if "q \<in> ?Q" for q
    by (rule head_kept [OF that others], use nxt that in simp)+
  have p: "pinuse s' q \<longleftrightarrow> q \<notin> fin ` R" if "q \<in> ?Q" "q \<notin> fin ` (H - {c})" for q
  proof (cases "q = fin c")
    case True
    then have "q \<notin> fin ` R" using C(3) by (metis UnCI imageE)
    then show ?thesis using nxt that(1) True by simp
  next
    case False
    then have "pinuse s' q = pinuse s q" using others same_headD(3) that(1) by blast
    then show ?thesis using t(5) [OF that(1) holes_left [OF that(2) False]] by simp
  qed
  have T: "tags s' (insert c U) R T (H - {c}) V"
    unfolding tags_def
  proof (intro conjI ballI impI)
    show "chunksize s' (fst d) = snd d" if "d \<in> insert c U \<union> R \<union> T" for d
    proof (cases "d = c")
      case False
      then have "d \<in> U \<union> R \<union> T" using that by blast
      then show ?thesis using k(1) [of "fst d"] t(1) [of d] by simp
    qed (simp add: hd)
    show "cinuse s' (fst d)" if "d \<in> insert c U" for d
      using that hd(2) k(2) [of "fst d"] t(2) [of d] by auto
    show "\<not> cinuse s' (fst d)" if "d \<in> R \<union> T" for d
      using that k(2) [of "fst d"] t(3) [of d] by auto
    show "cinuse s' e" if "e \<in> V" for e using that k(2) [of e] t(4) [of e] by auto
    show "pinuse s' q \<longleftrightarrow> q \<notin> fin ` R" if "q \<in> fst ` (insert c U \<union> R \<union> T) \<union> V" "q \<notin> fin ` (H - {c})" for q
    proof (cases "q = fst c")
      case False
      then have "q \<in> ?Q" using that(1) by auto
      then show ?thesis by (rule p [OF _ that(2)])
    qed (use hd(3) C(2) in simp)
    show "prev_foot s' (fin d) = snd d" if "d \<in> R" for d using feet t(6) that by simp
  qed
  have A: "insert c U \<union> R \<union> T \<union> (H - {c}) = U \<union> R \<union> T \<union> H" using c(1) by blast
  have "fst c + 8 \<notin> K"
    using D(8) [of c] c(1) head_own [OF geoD(3) [OF D(1)], of c] by blast
  then have Kq: "\<forall>q\<in>fst ` insert c U \<union> V. q + 8 \<notin> K" using D(9) by auto
  show ?thesis
  proof (intro layoutI)
    show "geo (insert c U \<union> R \<union> T \<union> (H - {c})) E" unfolding A by (rule D(1))
    show "V \<subseteq> E" by (rule D(2))
    show "insert c U \<inter> (R \<union> T \<union> (H - {c})) = {}" "R \<inter> (T \<union> (H - {c})) = {}" "T \<inter> (H - {c}) = {}"
      using D(3) D(4) D(5) c(1) by blast+
    show "\<forall>d\<in>insert c U \<union> R. 32 \<le> unat (snd d)" using D(6) c(2) by blast
    show "fin ` R \<inter> fst ` (R \<union> T \<union> (H - {c})) = {}" using D(7) by blast
    show "\<forall>d\<in>R \<union> T \<union> (H - {c}). own d \<inter> K = {}" using D(8) by blast
  qed (rule Kq T)+
qed

lemma fill_free:
  assumes L: "layout s U R T H V E K" and c: "c \<in> H" "32 \<le> unat (snd c)" "fin c \<in> fst ` U \<union> V"
    and hd: "chunksize s' (fst c) = snd c" "\<not> cinuse s' (fst c)" "pinuse s' (fst c)"
    and others: "\<forall>q\<in>fst ` (U \<union> R \<union> T) \<union> V. q \<noteq> fin c \<longrightarrow> same_head s s' q"
    and nxt: "chunksize s' (fin c) = chunksize s (fin c) \<and> cinuse s' (fin c) = cinuse s (fin c) \<and> \<not> pinuse s' (fin c)"
    and feet: "\<forall>d\<in>R. prev_foot s' (fin d) = prev_foot s (fin d)" "prev_foot s' (fin c) = snd c"
  shows "layout s' U (insert c R) T (H - {c}) V E K"
proof -
  note D = layoutD [OF L] and t = tagsD [OF layoutD(10) [OF L]] and C = start_cases [OF L c(1)]
  let ?Q = "fst ` (U \<union> R \<union> T) \<union> V"
  have k: "chunksize s' q = chunksize s q" "cinuse s' q = cinuse s q" if "q \<in> ?Q" for q
    by (rule head_kept [OF that others], use nxt that in simp)+
  have p: "pinuse s' q \<longleftrightarrow> q \<notin> fin ` insert c R" if "q \<in> ?Q" "q \<notin> fin ` (H - {c})" for q
  proof (cases "q = fin c")
    case False
    then have "pinuse s' q = pinuse s q" using others same_headD(3) that(1) by blast
    then show ?thesis using t(5) [OF that(1) holes_left [OF that(2) False]] False by simp
  qed (use nxt in simp)
  have T: "tags s' U (insert c R) T (H - {c}) V"
    unfolding tags_def
  proof (intro conjI ballI impI)
    show "chunksize s' (fst d) = snd d" if "d \<in> U \<union> insert c R \<union> T" for d
    proof (cases "d = c")
      case False
      then have "d \<in> U \<union> R \<union> T" using that by blast
      then show ?thesis using k(1) [of "fst d"] t(1) [of d] by simp
    qed (simp add: hd)
    show "cinuse s' (fst d)" if "d \<in> U" for d
      using that k(2) [of "fst d"] t(2) [of d] by auto
    show "\<not> cinuse s' (fst d)" if "d \<in> insert c R \<union> T" for d
      using that hd(2) k(2) [of "fst d"] t(3) [of d] by auto
    show "cinuse s' e" if "e \<in> V" for e using that k(2) [of e] t(4) [of e] by auto
    show "pinuse s' q \<longleftrightarrow> q \<notin> fin ` insert c R"
      if "q \<in> fst ` (U \<union> insert c R \<union> T) \<union> V" "q \<notin> fin ` (H - {c})" for q
    proof (cases "q = fst c")
      case False
      then have "q \<in> ?Q" using that(1) by auto
      then show ?thesis by (rule p [OF _ that(2)])
    next
      case True
      then show ?thesis using hd(3) C(2,6) by (simp add: not_in_image_insert)
    qed
    show "prev_foot s' (fin d) = snd d" if "d \<in> insert c R" for d using feet t(6) that by auto
  qed
  have A: "U \<union> insert c R \<union> T \<union> (H - {c}) = U \<union> R \<union> T \<union> H" using c(1) by blast
  have nx: "fin c \<notin> fst ` (R \<union> T \<union> H)"
  proof
    assume "fin c \<in> fst ` (R \<union> T \<union> H)"
    then obtain d where d: "d \<in> R \<union> T \<union> H" "fin c = fst d" by (elim imageE)
    then have dA: "d \<in> U \<union> R \<union> T \<union> H" by blast
    have "fin c \<notin> E" unfolding d(2) by (rule geo_start_not_end [OF D(1) dA])
    then have "fin c \<in> fst ` U" using c(3) D(2) by blast
    then obtain u where u: "u \<in> U" "fin c = fst u" by (elim imageE)
    have "u = d" by (rule geo_inj(1) [OF D(1) _ dA]) (use u d(2) in \<open>blast, metis\<close>)
    then show False using u(1) d(1) D(3) by blast
  qed
  have C5: "fin ` insert c R \<inter> fst ` (insert c R \<union> T \<union> (H - {c})) = {}"
  proof -
    have "insert c R \<union> T \<union> (H - {c}) = R \<union> T \<union> H" using c(1) by blast
    then show ?thesis using nx D(7) by (simp only:) blast
  qed
  show ?thesis
  proof (intro layoutI)
    show "geo (U \<union> insert c R \<union> T \<union> (H - {c})) E" unfolding A by (rule D(1))
    show "V \<subseteq> E" by (rule D(2))
    show "U \<inter> (insert c R \<union> T \<union> (H - {c})) = {}" "insert c R \<inter> (T \<union> (H - {c})) = {}" "T \<inter> (H - {c}) = {}"
      using D(3) D(4) D(5) c(1) by blast+
    show "\<forall>d\<in>U \<union> insert c R. 32 \<le> unat (snd d)" using D(6) c(2) by blast
    show "\<forall>d\<in>insert c R \<union> T \<union> (H - {c}). own d \<inter> K = {}" using D(8) c(1) by blast
    show "\<forall>q\<in>fst ` U \<union> V. q + 8 \<notin> K" using D(9) by blast
  qed (rule C5 T)+
qed

lemma fill_top:
  assumes L: "layout s U R {} H V E K" and c: "c \<in> H" "fin c \<in> E - V"
    and hd: "chunksize s' (fst c) = snd c" "\<not> cinuse s' (fst c)" "pinuse s' (fst c)"
    and others: "\<forall>q\<in>fst ` (U \<union> R) \<union> V. same_head s s' q"
    and feet: "\<forall>d\<in>R. prev_foot s' (fin d) = prev_foot s (fin d)"
  shows "layout s' U R {c} (H - {c}) V E K"
proof -
  note D = layoutD [OF L] and t = tagsD [OF layoutD(10) [OF L]] and C = start_cases [OF L c(1)]
  let ?Q = "fst ` (U \<union> R) \<union> V"
  have k: "chunksize s' q = chunksize s q" "cinuse s' q = cinuse s q" "pinuse s' q = pinuse s q" if "q \<in> ?Q" for q
    by (rule same_headD, use others that in blast)+
  have nq: "fin c \<notin> ?Q"
  proof
    assume "fin c \<in> ?Q"
    then obtain d where "d \<in> U \<union> R" "fin c = fst d" using c(2) by blast
    then show False using geo_start_not_end [OF D(1), of d] c(2) by auto
  qed
  have T: "tags s' U R {c} (H - {c}) V"
    unfolding tags_def
  proof (intro conjI ballI impI)
    show "chunksize s' (fst d) = snd d" if "d \<in> U \<union> R \<union> {c}" for d
    proof (cases "d = c")
      case False
      then have "d \<in> U \<union> R" using that by blast
      then show ?thesis using k(1) [of "fst d"] t(1) [of d] by auto
    qed (simp add: hd)
    show "cinuse s' (fst d)" if "d \<in> U" for d
      using that k(2) [of "fst d"] t(2) [of d] by auto
    show "\<not> cinuse s' (fst d)" if "d \<in> R \<union> {c}" for d
      using that hd(2) k(2) [of "fst d"] t(3) [of d] by auto
    show "cinuse s' e" if "e \<in> V" for e using that k(2) [of e] t(4) [of e] by auto
    show "pinuse s' q \<longleftrightarrow> q \<notin> fin ` R"
      if "q \<in> fst ` (U \<union> R \<union> {c}) \<union> V" "q \<notin> fin ` (H - {c})" for q
    proof (cases "q = fst c")
      case False
      then have q: "q \<in> ?Q" using that(1) by auto
      then have "q \<noteq> fin c" using nq by metis
      then have "q \<notin> fin ` H" by (rule holes_left [OF that(2)])
      then show ?thesis using t(5) [of q] q k(3) [OF q] by simp
    qed (use hd(3) C(2) in simp)
    show "prev_foot s' (fin d) = snd d" if "d \<in> R" for d using feet t(6) that by simp
  qed
  have A: "U \<union> R \<union> {c} \<union> (H - {c}) = U \<union> R \<union> {} \<union> H" using c(1) by blast
  have C5: "fin ` R \<inter> fst ` (R \<union> {c} \<union> (H - {c})) = {}"
  proof -
    have "R \<union> {c} \<union> (H - {c}) = R \<union> {} \<union> H" using c(1) by blast
    then show ?thesis using D(7) by (simp only:)
  qed
  show ?thesis
  proof (intro layoutI)
    show "geo (U \<union> R \<union> {c} \<union> (H - {c})) E" unfolding A by (rule D(1))
    show "V \<subseteq> E" by (rule D(2))
    show "U \<inter> (R \<union> {c} \<union> (H - {c})) = {}" "R \<inter> ({c} \<union> (H - {c})) = {}" "{c} \<inter> (H - {c}) = {}"
      using D(3) D(4) D(5) c(1) by blast+
    show "\<forall>d\<in>U \<union> R. 32 \<le> unat (snd d)" using D(6) by blast
    show "\<forall>d\<in>R \<union> {c} \<union> (H - {c}). own d \<inter> K = {}" using D(8) c(1) by blast
    show "\<forall>q\<in>fst ` U \<union> V. q + 8 \<notin> K" using D(9) by blast
  qed (rule C5 T)+
qed

end
