(* ===== verification/DL_Segments.thy ===== *)
theory DL_Segments
  imports DL_TreeBins
begin

text \<open>
  Segments and the top chunk of src/src/dlmalloc.c: \<open>segment_holding\<close>, \<open>has_segment_link\<close>,
  \<open>init_top\<close>, \<open>init_bins\<close>, \<open>prepend_alloc\<close> and \<open>add_segment\<close>. The list of segments starts
  with the record embedded in \<open>malloc_state\<close> and goes on through records kept in chunks.
\<close>

partial_function (option) segment_holding_loop :: "'o state \<Rightarrow> addr \<Rightarrow> addr \<Rightarrow> addr res option"
where
  "segment_holding_loop s A sp =
     (if sg_base s sp \<le> A \<and> A < sg_base s sp + sg_size s sp then Some (Inr sp)
      else if sg_next s sp = 0 then Some (Inr 0)
      else segment_holding_loop s A (sg_next s sp))"

declare segment_holding_loop.simps [code]

definition segment_holding :: "'o state \<Rightarrow> addr \<Rightarrow> addr res" where
  "segment_holding s A = run_loop (segment_holding_loop s A (seg s))"

partial_function (option) has_segment_link_loop :: "'o state \<Rightarrow> addr \<Rightarrow> addr \<Rightarrow> bool res option"
where
  "has_segment_link_loop s ss sp =
     (if sg_base s ss \<le> sp \<and> sp < sg_base s ss + sg_size s ss then Some (Inr True)
      else if sg_next s sp = 0 then Some (Inr False)
      else has_segment_link_loop s ss (sg_next s sp))"

declare has_segment_link_loop.simps [code]

definition has_segment_link :: "'o state \<Rightarrow> addr \<Rightarrow> bool res" where
  "has_segment_link s ss = run_loop (has_segment_link_loop s ss (seg s))"

definition init_top :: "'o state \<Rightarrow> addr \<Rightarrow> size_t \<Rightarrow> 'o state" where
  "init_top s p psize =
     (let offset = align_offset (chunk2mem p);
          p = p + offset;
          psize = psize - offset;
          s = s\<lparr>topp := p, topsize := psize\<rparr>;
          s = set_head s p (psize OR PINUSE_BIT);
          s = set_head s (chunk_plus_offset p psize) TOP_FOOT_SIZE
      in s\<lparr>trim_check := trim_threshold s\<rparr>)"

definition init_bin :: "u32 \<Rightarrow> 'o state \<Rightarrow> 'o state" where
  "init_bin i s = (let bin = smallbin_at s i in set_fd (set_bk s bin bin) bin bin)"

definition init_bins :: "'o state \<Rightarrow> 'o state" where
  "init_bins s = fold (\<lambda>i. init_bin (of_nat i)) [0..<unat NSMALLBINS] s"

text \<open>\<open>prepend_alloc\<close>: new space just before \<open>oldbase\<close>; the remainder joins the first chunk there.\<close>

definition prepend_alloc :: "'o state \<Rightarrow> addr \<Rightarrow> addr \<Rightarrow> size_t \<Rightarrow> ('o state \<times> addr) res" where
  "prepend_alloc s newbase oldbase nb =
     (let p = align_as_chunk newbase;
          oldfirst = align_as_chunk oldbase;
          psize = oldfirst - p;
          q = chunk_plus_offset p nb;
          qsize = psize - nb;
          s = set_size_and_pinuse_of_inuse_chunk s p nb
      in bindR
          (if oldfirst = topp s
           then let tsize = topsize s + qsize;
                    s = s\<lparr>topsize := tsize, topp := q\<rparr>
                in Inr (set_head s q (tsize OR PINUSE_BIT))
           else if oldfirst = dv s
           then let dsize = dvsize s + qsize;
                    s = s\<lparr>dvsize := dsize, dv := q\<rparr>
                in Inr (set_size_and_pinuse_of_free_chunk s q dsize)
           else bindR
             (if \<not> is_inuse s oldfirst
              then let nsize = chunksize s oldfirst
                   in bindR (unlink_chunk s oldfirst nsize)
                       (\<lambda>s. Inr (s, chunk_plus_offset oldfirst nsize, qsize + nsize))
              else Inr (s, oldfirst, qsize))
             (\<lambda>(s, oldfirst, qsize).
               insert_chunk (set_free_with_pinuse s q qsize oldfirst) q qsize))
        (\<lambda>s. Inr (s, chunk2mem p)))"

text \<open>
  \<open>add_segment\<close>: the record of the old segment moves into a chunk at the end of the old top,
  followed by fenceposts; the rest of the old top becomes an ordinary free chunk. The counter
  \<open>nfences\<close> of the code is used by an assertion only and left out.
\<close>

partial_function (option) fencepost_loop :: "'o state \<Rightarrow> addr \<Rightarrow> addr \<Rightarrow> 'o state res option"
where
  "fencepost_loop s p old_end =
     (let nextp = chunk_plus_offset p SIZE_T_SIZE;
          s = set_head s p FENCEPOST_HEAD
      in if nextp + 8 < old_end then fencepost_loop s nextp old_end else Some (Inr s))"

declare fencepost_loop.simps [code]

definition add_segment :: "'o state \<Rightarrow> addr \<Rightarrow> size_t \<Rightarrow> u32 \<Rightarrow> 'o state res" where
  "add_segment s tbase tsize mmapped =
     (let old_top = topp s
      in bindR (segment_holding s old_top) (\<lambda>oldsp.
        let old_end = sg_base s oldsp + sg_size s oldsp;
            ssize = pad_request SEGMENT_SIZE;
            rawsp = old_end - (ssize + FOUR_SIZE_T_SIZES + CHUNK_ALIGN_MASK);
            offset = align_offset (chunk2mem rawsp);
            asp = rawsp + offset;
            csp = (if asp < old_top + MIN_CHUNK_SIZE then old_top else asp);
            sp = csp;
            ss = chunk2mem sp;
            tnext = chunk_plus_offset sp ssize;
            p = tnext;
            s = init_top s tbase (tsize - TOP_FOOT_SIZE);
            s = set_size_and_pinuse_of_inuse_chunk s sp ssize;
            s = set_sg_base s ss (sg_base s (seg s));
            s = set_sg_size s ss (sg_size s (seg s));
            s = set_sg_next s ss (sg_next s (seg s));
            s = set_sg_sflags s ss (sg_sflags s (seg s));
            s = set_sg_base s (seg s) tbase;
            s = set_sg_size s (seg s) tsize;
            s = set_sg_sflags s (seg s) mmapped;
            s = set_sg_next s (seg s) ss
        in bindR (run_loop (fencepost_loop s p old_end)) (\<lambda>s.
          if csp \<noteq> old_top
          then let q = old_top;
                   psize = csp - old_top;
                   tn = chunk_plus_offset q psize
               in insert_chunk (set_free_with_pinuse s q psize tn) q psize
          else Inr s)))"

end
