(* ===== verification/DL_System.thy ===== *)
theory DL_System
  imports DL_Segments
begin

text \<open>
  Memory from and to the operating system in src/src/dlmalloc.c: \<open>init_mparams\<close>,
  \<open>change_mparam\<close>, \<open>mmap_alloc\<close>, \<open>mmap_resize\<close>, \<open>sys_alloc\<close>, \<open>release_unused_segments\<close> and
  \<open>sys_trim\<close>. The system calls are the functions of the parameter \<open>E\<close>; the global lock is a
  no-op, as \<open>USE_LOCKS\<close> is 0.
\<close>

section \<open>System calls\<close>

definition CALL_MORECORE :: "'o os_ops \<Rightarrow> size_t \<Rightarrow> 'o state \<Rightarrow> 'o state \<times> addr" where
  "CALL_MORECORE E n s =
     (case os_morecore E n (os s) (mem s) of (a, x, m) \<Rightarrow> (s\<lparr>os := x, mem := m\<rparr>, a))"
definition CALL_MMAP :: "'o os_ops \<Rightarrow> size_t \<Rightarrow> 'o state \<Rightarrow> 'o state \<times> addr" where
  "CALL_MMAP E n s =
     (case os_mmap E n (os s) (mem s) of (a, x, m) \<Rightarrow> (s\<lparr>os := x, mem := m\<rparr>, a))"
definition CALL_DIRECT_MMAP :: "'o os_ops \<Rightarrow> size_t \<Rightarrow> 'o state \<Rightarrow> 'o state \<times> addr" where
  "CALL_DIRECT_MMAP E n s = CALL_MMAP E n s"
definition CALL_MUNMAP :: "'o os_ops \<Rightarrow> addr \<Rightarrow> size_t \<Rightarrow> 'o state \<Rightarrow> 'o state \<times> int" where
  "CALL_MUNMAP E a n s =
     (case os_munmap E a n (os s) (mem s) of (r, x, m) \<Rightarrow> (s\<lparr>os := x, mem := m\<rparr>, r))"
definition CALL_MREMAP ::
  "'o os_ops \<Rightarrow> addr \<Rightarrow> size_t \<Rightarrow> size_t \<Rightarrow> int \<Rightarrow> 'o state \<Rightarrow> 'o state \<times> addr" where
  "CALL_MREMAP E a osz nsz mv s =
     (case os_mremap E a osz nsz mv (os s) (mem s) of (r, x, m) \<Rightarrow> (s\<lparr>os := x, mem := m\<rparr>, r))"

section \<open>Parameters\<close>

definition DEFAULT_GRANULARITY :: size_t where "DEFAULT_GRANULARITY = 0"
definition DEFAULT_TRIM_THRESHOLD :: size_t where "DEFAULT_TRIM_THRESHOLD = 2 * 1024 * 1024"
definition DEFAULT_MMAP_THRESHOLD :: size_t where "DEFAULT_MMAP_THRESHOLD = 256 * 1024"
definition MAX_RELEASE_CHECK_RATE :: size_t where "MAX_RELEASE_CHECK_RATE = 4095"

definition M_TRIM_THRESHOLD :: int where "M_TRIM_THRESHOLD = -1"
definition M_GRANULARITY :: int where "M_GRANULARITY = -2"
definition M_MMAP_THRESHOLD :: int where "M_MMAP_THRESHOLD = -3"

text \<open>
  The sizes that \<open>init_mparams\<close> compares are compile-time constants but for \<open>psize\<close> and
  \<open>gsize\<close>. \<open>gm->mflags\<close> is a field of the state at hand when that is the global one.
\<close>

definition init_mparams :: "'o os_ops \<Rightarrow> 'o state \<Rightarrow> 'o state res" where
  "init_mparams E s =
     (if mp_magic s = 0
      then let psize = os_pagesize E;
               gsize = (if DEFAULT_GRANULARITY \<noteq> 0 then DEFAULT_GRANULARITY else psize)
        in if MAX_SIZE_T < MIN_CHUNK_SIZE \<or> MALLOC_ALIGNMENT < 8
              \<or> MALLOC_ALIGNMENT AND (MALLOC_ALIGNMENT - 1) \<noteq> 0
              \<or> MCHUNK_SIZE AND (MCHUNK_SIZE - 1) \<noteq> 0
              \<or> gsize AND (gsize - 1) \<noteq> 0 \<or> psize AND (psize - 1) \<noteq> 0
           then Inl InitAbort
           else let s = s\<lparr>granularity := gsize, page_size := psize,
                          mmap_threshold := DEFAULT_MMAP_THRESHOLD,
                          trim_threshold := DEFAULT_TRIM_THRESHOLD,
                          default_mflags := USE_LOCK_BIT OR USE_MMAP_BIT\<rparr>;
                    s = (if is_global s then s\<lparr>mflags := default_mflags s\<rparr> else s);
                    magic = os_time E (os s) XOR 0x55555555;
                    magic = magic OR 8;
                    magic = magic AND NOT 7
                in Inr (s\<lparr>mp_magic := magic\<rparr>)
      else Inr s)"

definition ensure_initialization :: "'o os_ops \<Rightarrow> 'o state \<Rightarrow> 'o state res" where
  "ensure_initialization E s = (if mp_magic s \<noteq> 0 then Inr s else init_mparams E s)"

text \<open>\<open>value\<close> is an \<open>int\<close>; the cast to \<open>size_t\<close> wraps.\<close>

definition change_mparam :: "'o os_ops \<Rightarrow> 'o state \<Rightarrow> int \<Rightarrow> int \<Rightarrow> ('o state \<times> int) res" where
  "change_mparam E s param_number v =
     bindR (ensure_initialization E s) (\<lambda>s.
       let val = (if v = -1 then MAX_SIZE_T else word_of_int v)
       in Inr (if param_number = M_TRIM_THRESHOLD then (s\<lparr>trim_threshold := val\<rparr>, 1)
               else if param_number = M_GRANULARITY
               then if page_size s \<le> val \<and> val AND (val - 1) = 0
                    then (s\<lparr>granularity := val\<rparr>, 1)
                    else (s, 0)
               else if param_number = M_MMAP_THRESHOLD then (s\<lparr>mmap_threshold := val\<rparr>, 1)
               else (s, 0)))"

section \<open>Direct mmap\<close>

text \<open>\<open>m->footprint += n\<close>, with the maximum kept.\<close>

definition add_footprint :: "'o state \<Rightarrow> size_t \<Rightarrow> 'o state" where
  "add_footprint s n =
     (let s = s\<lparr>footprint := footprint s + n\<rparr>
      in if max_footprint s < footprint s then s\<lparr>max_footprint := footprint s\<rparr> else s)"

definition over_limit :: "'o state \<Rightarrow> size_t \<Rightarrow> bool" where
  "over_limit s n \<longleftrightarrow> footprint_limit s \<noteq> 0 \<and>
     (let fp = footprint s + n in fp \<le> footprint s \<or> footprint_limit s < fp)"

definition mmap_alloc :: "'o os_ops \<Rightarrow> 'o state \<Rightarrow> size_t \<Rightarrow> 'o state \<times> addr" where
  "mmap_alloc E s nb =
     (let mmsize = mmap_align s (nb + SIX_SIZE_T_SIZES + CHUNK_ALIGN_MASK)
      in if over_limit s mmsize then (s, 0)
         else if nb < mmsize
         then let (s, mm) = CALL_DIRECT_MMAP E mmsize s
              in if mm \<noteq> MFAIL
                 then let offset = align_offset (chunk2mem mm);
                          psize = mmsize - offset - MMAP_FOOT_PAD;
                          p = mm + offset;
                          s = set_prev_foot s p offset;
                          s = set_head s p psize;
                          s = set_head s (chunk_plus_offset p psize) FENCEPOST_HEAD;
                          s = set_head s (chunk_plus_offset p (psize + SIZE_T_SIZE)) 0;
                          s = (if least_addr s = 0 \<or> mm < least_addr s
                               then s\<lparr>least_addr := mm\<rparr> else s);
                          s = add_footprint s mmsize
                      in (s, chunk2mem p)
                 else (s, 0)
         else (s, 0))"

definition mmap_resize ::
  "'o os_ops \<Rightarrow> 'o state \<Rightarrow> addr \<Rightarrow> size_t \<Rightarrow> int \<Rightarrow> 'o state \<times> addr" where
  "mmap_resize E s oldp nb flags =
     (let oldsize = chunksize s oldp
      in if is_small nb then (s, 0)
         else if nb + SIZE_T_SIZE \<le> oldsize \<and> oldsize - nb \<le> push_bit 1 (granularity s)
         then (s, oldp)
         else let offset = prev_foot s oldp;
                  oldmmsize = oldsize + offset + MMAP_FOOT_PAD;
                  newmmsize = mmap_align s (nb + SIX_SIZE_T_SIZES + CHUNK_ALIGN_MASK);
                  (s, cp) = CALL_MREMAP E (oldp - offset) oldmmsize newmmsize flags s
              in if cp \<noteq> MFAIL
                 then let newp = cp + offset;
                          psize = newmmsize - offset - MMAP_FOOT_PAD;
                          s = set_head s newp psize;
                          s = set_head s (chunk_plus_offset newp psize) FENCEPOST_HEAD;
                          s = set_head s (chunk_plus_offset newp (psize + SIZE_T_SIZE)) 0;
                          s = (if cp < least_addr s then s\<lparr>least_addr := cp\<rparr> else s);
                          s = add_footprint s (newmmsize - oldmmsize)
                      in (s, newp)
                 else (s, 0))"

section \<open>sys\_alloc\<close>

text \<open>
  \<open>sys_alloc\<close> tries three sources in turn. The definitions below are its phases; each returns
  the state, \<open>tbase\<close> (\<open>MFAIL\<close> for none) and \<open>tsize\<close>.

  The contiguous extension with \<open>MORECORE\<close>: the call itself, with \<open>br\<close> and \<open>ssize\<close>, \<open>\<dots>\<close>
\<close>

definition sys_alloc_extend ::
  "'o os_ops \<Rightarrow> 'o state \<Rightarrow> size_t \<Rightarrow> size_t \<Rightarrow> addr \<Rightarrow> 'o state \<times> addr \<times> size_t \<times> addr \<times> size_t"
where
  "sys_alloc_extend E s nb asize ss =
     (if ss = 0
      then let (s, base) = CALL_MORECORE E 0 s
        in if base \<noteq> MFAIL
           then let ssize = (if \<not> is_page_aligned s base
                             then asize + (page_align s base - base) else asize);
                    fp = footprint s + ssize
             in if nb < ssize \<and> ssize < HALF_MAX_SIZE_T
                   \<and> (footprint_limit s = 0 \<or> (footprint s < fp \<and> fp \<le> footprint_limit s))
                then let (s, br) = CALL_MORECORE E ssize s
                  in if br = base then (s, base, ssize, br, ssize) else (s, MFAIL, 0, br, ssize)
                else (s, MFAIL, 0, MFAIL, ssize)
           else (s, MFAIL, 0, MFAIL, asize)
      else let ssize = granularity_align s (nb - topsize s + SYS_ALLOC_PADDING)
        in if ssize < HALF_MAX_SIZE_T
           then let (s, br) = CALL_MORECORE E ssize s
             in if br = sg_base s ss + sg_size s ss
                then (s, br, ssize, br, ssize) else (s, MFAIL, 0, br, ssize)
           else (s, MFAIL, 0, MFAIL, ssize))"

text \<open>\<open>\<dots>\<close> the recovery from a partial failure,\<close>

definition sys_alloc_recover ::
  "'o os_ops \<Rightarrow> 'o state \<Rightarrow> size_t \<Rightarrow> addr \<Rightarrow> size_t \<Rightarrow> 'o state \<times> addr \<times> size_t"
where
  "sys_alloc_recover E s nb br ssize =
     (let (s, br, ssize) =
        (if br \<noteq> MFAIL
         then if ssize < HALF_MAX_SIZE_T \<and> ssize < nb + SYS_ALLOC_PADDING
           then let esize = granularity_align s (nb + SYS_ALLOC_PADDING - ssize)
             in if esize < HALF_MAX_SIZE_T
                then let (s, br_end) = CALL_MORECORE E esize s
                  in if br_end \<noteq> MFAIL then (s, br, ssize + esize)
                     else let (s, _) = CALL_MORECORE E (- ssize) s in (s, MFAIL, ssize)
                else (s, br, ssize)
           else (s, br, ssize)
         else (s, br, ssize))
      in if br \<noteq> MFAIL then (s, br, ssize) else (disable_contiguous s, MFAIL, 0))"

text \<open>and the two put together.\<close>

definition sys_alloc_contiguous ::
  "'o os_ops \<Rightarrow> 'o state \<Rightarrow> size_t \<Rightarrow> size_t \<Rightarrow> ('o state \<times> addr \<times> size_t) res"
where
  "sys_alloc_contiguous E s nb asize =
     (if \<not> use_noncontiguous s
      then bindR (if topp s = 0 then Inr 0 else segment_holding s (topp s)) (\<lambda>ss.
             let (s, tbase, tsize, br, ssize) = sys_alloc_extend E s nb asize ss
             in Inr (if tbase = MFAIL then sys_alloc_recover E s nb br ssize
                     else (s, tbase, tsize)))
      else Inr (s, MFAIL, 0))"

text \<open>The last resort, \<open>MORECORE\<close> without contiguity.\<close>

definition sys_alloc_noncontiguous ::
  "'o os_ops \<Rightarrow> 'o state \<Rightarrow> size_t \<Rightarrow> size_t \<Rightarrow> 'o state \<times> addr \<times> size_t"
where
  "sys_alloc_noncontiguous E s nb asize =
     (if asize < HALF_MAX_SIZE_T
      then let (s, br) = CALL_MORECORE E asize s;
               (s, br_end) = CALL_MORECORE E 0 s
           in if br \<noteq> MFAIL \<and> br_end \<noteq> MFAIL \<and> br < br_end \<and> nb + TOP_FOOT_SIZE < br_end - br
              then (s, br, br_end - br) else (s, MFAIL, 0)
      else (s, MFAIL, 0))"

text \<open>The source of memory: \<open>tbase\<close>, \<open>tsize\<close> and \<open>mmap_flag\<close> when the three attempts are over.\<close>

definition sys_alloc_get ::
  "'o os_ops \<Rightarrow> 'o state \<Rightarrow> size_t \<Rightarrow> size_t \<Rightarrow> ('o state \<times> addr \<times> size_t \<times> u32) res"
where
  "sys_alloc_get E s nb asize =
     bindR (sys_alloc_contiguous E s nb asize) (\<lambda>(s, tbase, tsize).
       let (s, tbase, tsize, mmap_flag) =
             (if tbase = MFAIL
              then let (s, mp) = CALL_MMAP E asize s
                in if mp \<noteq> MFAIL then (s, mp, asize, USE_MMAP_BIT) else (s, tbase, tsize, 0)
              else (s, tbase, tsize, 0));
           (s, tbase, tsize) =
             (if tbase = MFAIL then sys_alloc_noncontiguous E s nb asize else (s, tbase, tsize))
       in Inr (s, tbase, tsize, mmap_flag))"

text \<open>The two searches for a segment that ends, or starts, at a given address; 0 for none.\<close>

partial_function (option) segment_ending_loop :: "'o state \<Rightarrow> addr \<Rightarrow> addr \<Rightarrow> addr res option"
where
  "segment_ending_loop s a sp =
     (if sp \<noteq> 0 \<and> a \<noteq> sg_base s sp + sg_size s sp
      then segment_ending_loop s a (sg_next s sp) else Some (Inr sp))"

declare segment_ending_loop.simps [code]

partial_function (option) segment_starting_loop :: "'o state \<Rightarrow> addr \<Rightarrow> addr \<Rightarrow> addr res option"
where
  "segment_starting_loop s a sp =
     (if sp \<noteq> 0 \<and> sg_base s sp \<noteq> a
      then segment_starting_loop s a (sg_next s sp) else Some (Inr sp))"

declare segment_starting_loop.simps [code]

definition sys_alloc_init :: "'o state \<Rightarrow> addr \<Rightarrow> size_t \<Rightarrow> u32 \<Rightarrow> 'o state" where
  "sys_alloc_init s tbase tsize mmap_flag =
     (let s = (if least_addr s = 0 \<or> tbase < least_addr s then s\<lparr>least_addr := tbase\<rparr> else s);
          s = set_sg_base s (seg s) tbase;
          s = set_sg_size s (seg s) tsize;
          s = set_sg_sflags s (seg s) mmap_flag;
          s = s\<lparr>magic := mp_magic s, release_checks := MAX_RELEASE_CHECK_RATE\<rparr>;
          s = init_bins s
      in if is_global s then init_top s tbase (tsize - TOP_FOOT_SIZE)
         else let mn = next_chunk s (mem2chunk (maddr s))
              in init_top s mn (((tbase + tsize) - mn) - TOP_FOOT_SIZE))"

text \<open>
  Joining the new space to the segments. The prepending case returns from \<open>sys_alloc\<close>.
\<close>

definition sys_alloc_merge ::
  "'o state \<Rightarrow> addr \<Rightarrow> size_t \<Rightarrow> u32 \<Rightarrow> size_t \<Rightarrow> ('o state \<times> addr, 'o state) flow res"
where
  "sys_alloc_merge s tbase tsize mmap_flag nb =
     bindR (run_loop (segment_ending_loop s tbase (seg s))) (\<lambda>sp.
       if sp \<noteq> 0 \<and> \<not> is_extern_segment s sp \<and> sg_sflags s sp AND USE_MMAP_BIT = mmap_flag
          \<and> segment_holds s sp (topp s)
       then let s = set_sg_size s sp (sg_size s sp + tsize)
            in Inr (Next (init_top s (topp s) (topsize s + tsize)))
       else let s = (if tbase < least_addr s then s\<lparr>least_addr := tbase\<rparr> else s)
         in bindR (run_loop (segment_starting_loop s (tbase + tsize) (seg s))) (\<lambda>sp.
           if sp \<noteq> 0 \<and> \<not> is_extern_segment s sp \<and> sg_sflags s sp AND USE_MMAP_BIT = mmap_flag
           then let oldbase = sg_base s sp;
                    s = set_sg_base s sp tbase;
                    s = set_sg_size s sp (sg_size s sp + tsize)
                in bindR (prepend_alloc s tbase oldbase nb) (\<lambda>r. Inr (Return r))
           else bindR (add_segment s tbase tsize mmap_flag) (\<lambda>s. Inr (Next s))))"

text \<open>"Allocate from new or extended top space", else fail.\<close>

definition sys_alloc_top :: "'o state \<Rightarrow> size_t \<Rightarrow> 'o state \<times> addr" where
  "sys_alloc_top s nb =
     (if nb < topsize s
      then let rsize = topsize s - nb;
               s = s\<lparr>topsize := rsize\<rparr>;
               p = topp s;
               r = chunk_plus_offset p nb;
               s = s\<lparr>topp := r\<rparr>;
               s = set_head s r (rsize OR PINUSE_BIT);
               s = set_size_and_pinuse_of_inuse_chunk s p nb
           in (s, chunk2mem p)
      else (malloc_failure_action s, 0))"

definition sys_alloc :: "'o os_ops \<Rightarrow> 'o state \<Rightarrow> size_t \<Rightarrow> ('o state \<times> addr) res" where
  "sys_alloc E s nb =
     bindR (ensure_initialization E s) (\<lambda>s.
     let (s, m) = (if use_mmap s \<and> mmap_threshold s \<le> nb \<and> topsize s \<noteq> 0
                   then mmap_alloc E s nb else (s, 0))
     in if m \<noteq> 0 then Inr (s, m)
        else let asize = granularity_align s (nb + SYS_ALLOC_PADDING)
          in if asize \<le> nb then Inr (s, 0)
             else if over_limit s asize then Inr (s, 0)
             else bindR (sys_alloc_get E s nb asize) (\<lambda>(s, tbase, tsize, mmap_flag).
               if tbase \<noteq> MFAIL
               then let s = add_footprint s tsize
                 in andThen
                      (if \<not> is_initialized s
                       then Inr (Next (sys_alloc_init s tbase tsize mmap_flag))
                       else sys_alloc_merge s tbase tsize mmap_flag nb)
                      (\<lambda>s. Inr (sys_alloc_top s nb))
               else Inr (malloc_failure_action s, 0)))"

section \<open>Giving memory back\<close>

text \<open>
  One round of the loop of \<open>release_unused_segments\<close>: the segment \<open>sp\<close> with successor \<open>next\<close>
  is unmapped when its first chunk is free and covers it. The result holds the record that
  precedes \<open>next\<close> now, and the bytes released.
\<close>

definition release_segment ::
  "'o os_ops \<Rightarrow> 'o state \<Rightarrow> addr \<Rightarrow> addr \<Rightarrow> addr \<Rightarrow> ('o state \<times> addr \<times> size_t) res"
where
  "release_segment E s pred sp nxt =
     (let base = sg_base s sp;
          size = sg_size s sp
      in if is_mmapped_segment s sp \<and> \<not> is_extern_segment s sp
         then let p = align_as_chunk base;
                  psize = chunksize s p
           in if \<not> is_inuse s p \<and> base + size - TOP_FOOT_SIZE \<le> p + psize
              then bindR (if p = dv s then Inr (s\<lparr>dv := 0, dvsize := 0\<rparr>)
                          else unlink_large_chunk s p) (\<lambda>s.
                     let (s, r) = CALL_MUNMAP E base size s
                     in if r = 0
                        then Inr (set_sg_next (s\<lparr>footprint := footprint s - size\<rparr>) pred nxt,
                                  pred, size)
                        else bindR (insert_large_chunk s p psize) (\<lambda>s. Inr (s, sp, 0)))
              else Inr (s, sp, 0)
         else Inr (s, sp, 0))"

partial_function (option) release_loop ::
  "'o os_ops \<Rightarrow> 'o state \<Rightarrow> addr \<Rightarrow> addr \<Rightarrow> size_t \<Rightarrow> int \<Rightarrow> ('o state \<times> size_t \<times> int) res option"
where
  "release_loop E s pred sp released nsegs =
     (if sp = 0 then Some (Inr (s, released, nsegs))
      else let nxt = sg_next s sp
        in case release_segment E s pred sp nxt of
             Inl e \<Rightarrow> Some (Inl e)
           | Inr (s, sp, n) \<Rightarrow> release_loop E s sp nxt (released + n) (nsegs + 1))"

declare release_loop.simps [code]

definition release_unused_segments :: "'o os_ops \<Rightarrow> 'o state \<Rightarrow> ('o state \<times> size_t) res" where
  "release_unused_segments E s =
     (let pred = seg s;
          sp = sg_next s pred
      in bindR (run_loop (release_loop E s pred sp 0 0)) (\<lambda>(s, released, nsegs).
           Inr (s\<lparr>release_checks := (if MAX_RELEASE_CHECK_RATE < word_of_int nsegs
                                     then word_of_int nsegs else MAX_RELEASE_CHECK_RATE)\<rparr>,
                released)))"

text \<open>The part of \<open>sys_trim\<close> that shrinks the segment of the top chunk by \<open>extra\<close> bytes.\<close>

definition trim_top ::
  "'o os_ops \<Rightarrow> 'o state \<Rightarrow> addr \<Rightarrow> size_t \<Rightarrow> size_t \<Rightarrow> ('o state \<times> size_t) res"
where
  "trim_top E s sp extra unit =
     (if \<not> is_extern_segment s sp
      then if is_mmapped_segment s sp
        then bindR (if extra \<le> sg_size s sp
                    then bindR (has_segment_link s sp) (\<lambda>h. Inr (\<not> h)) else Inr False)
            (\<lambda>ok.
              if ok
              then let newsize = sg_size s sp - extra;
                       (s, r) = CALL_MREMAP E (sg_base s sp) (sg_size s sp) newsize 0 s
                in if r \<noteq> MFAIL then Inr (s, extra)
                   else let (s, u) = CALL_MUNMAP E (sg_base s sp + newsize) extra s
                        in Inr (s, if u = 0 then extra else 0)
              else Inr (s, 0))
        else let extra = (if HALF_MAX_SIZE_T \<le> extra then HALF_MAX_SIZE_T + 1 - unit else extra);
                 (s, old_br) = CALL_MORECORE E 0 s
          in if old_br = sg_base s sp + sg_size s sp
             then let (s, rel_br) = CALL_MORECORE E (- extra) s;
                      (s, new_br) = CALL_MORECORE E 0 s
               in Inr (s, if rel_br \<noteq> MFAIL \<and> new_br < old_br then old_br - new_br else 0)
             else Inr (s, 0)
      else Inr (s, 0))"

definition sys_trim :: "'o os_ops \<Rightarrow> 'o state \<Rightarrow> size_t \<Rightarrow> ('o state \<times> int) res" where
  "sys_trim E s pad =
     bindR (ensure_initialization E s) (\<lambda>s.
       if pad < MAX_REQUEST \<and> is_initialized s
       then let pad = pad + TOP_FOOT_SIZE
         in bindR
           (if pad < topsize s
            then let unit = granularity s;
                     extra = ((topsize s - pad + (unit - 1)) div unit - 1) * unit
              in bindR (segment_holding s (topp s)) (\<lambda>sp.
                 bindR (trim_top E s sp extra unit) (\<lambda>(s, released).
                   if released \<noteq> 0
                   then let s = set_sg_size s sp (sg_size s sp - released);
                            s = s\<lparr>footprint := footprint s - released\<rparr>
                        in Inr (init_top s (topp s) (topsize s - released), released)
                   else Inr (s, released)))
            else Inr (s, 0)) (\<lambda>(s, released).
         bindR (release_unused_segments E s) (\<lambda>(s, n).
           let released = released + n;
               s = (if released = 0 \<and> trim_check s < topsize s
                    then s\<lparr>trim_check := MAX_SIZE_T\<rparr> else s)
           in Inr (s, if released \<noteq> 0 then 1 else 0)))
       else Inr (s, 0))"

end
