(* ===== verification/DL_Malloc.thy ===== *)
theory DL_Malloc
  imports DL_System
begin

text \<open>
  Allocation and deallocation in src/src/dlmalloc.c: \<open>dlmalloc\<close> and its clone \<open>mspace_malloc\<close>,
  \<open>dlfree\<close> and its clone \<open>mspace_free\<close>, \<open>dispose_chunk\<close>, \<open>dlcalloc\<close> and \<open>mspace_calloc\<close>.
  The state is the one of the space the call works on: the global one for the \<open>dl\<close> functions,
  the one of the argument \<open>msp\<close> for the others. \<open>PREACTION\<close> and \<open>POSTACTION\<close> do nothing, as
  \<open>USE_LOCKS\<close> is 0.
\<close>

definition ok_magic :: "'o state \<Rightarrow> bool" where "ok_magic s \<longleftrightarrow> True"

section \<open>malloc\<close>

text \<open>
  The steps the two clones of \<open>malloc\<close> share, in the order of the code: use the first chunk of
  small bin \<open>idx\<close> as it is;
\<close>

definition take_small_exact :: "'o state \<Rightarrow> u32 \<Rightarrow> ('o state \<times> addr) res" where
  "take_small_exact s idx =
     (let b = smallbin_at s idx;
          p = fd s b
      in bindR (unlink_first_small_chunk s b p idx) (\<lambda>s.
           Inr (set_inuse_and_pinuse s p (small_index2size idx), chunk2mem p)))"

text \<open>"use chunk in next nonempty smallbin" and make the remainder the designated victim;\<close>

definition take_small_split :: "'o state \<Rightarrow> size_t \<Rightarrow> u32 \<Rightarrow> u32 \<Rightarrow> ('o state \<times> addr) res" where
  "take_small_split s nb idx smallbits =
     (let leftbits = push_bit (unat idx) smallbits AND left_bits (idx2bit idx);
          leastbit = least_bit leftbits;
          i = compute_bit2idx leastbit;
          b = smallbin_at s i;
          p = fd s b
      in bindR (unlink_first_small_chunk s b p i) (\<lambda>s.
           let rsize = small_index2size i - nb
           in bindR
             (if SIZE_T_SIZE \<noteq> 4 \<and> rsize < MIN_CHUNK_SIZE
              then Inr (set_inuse_and_pinuse s p (small_index2size i))
              else let s = set_size_and_pinuse_of_inuse_chunk s p nb;
                       r = chunk_plus_offset p nb;
                       s = set_size_and_pinuse_of_free_chunk s r rsize
                   in replace_dv s r rsize)
             (\<lambda>s. Inr (s, chunk2mem p))))"

text \<open>split or exhaust the designated victim;\<close>

definition take_dv :: "'o state \<Rightarrow> size_t \<Rightarrow> 'o state \<times> addr" where
  "take_dv s nb =
     (let rsize = dvsize s - nb;
          p = dv s
      in if MIN_CHUNK_SIZE \<le> rsize
         then let r = chunk_plus_offset p nb;
                  s = s\<lparr>dv := r, dvsize := rsize\<rparr>;
                  s = set_size_and_pinuse_of_free_chunk s r rsize;
                  s = set_size_and_pinuse_of_inuse_chunk s p nb
              in (s, chunk2mem p)
         else let dvs = dvsize s;
                  s = s\<lparr>dvsize := 0, dv := 0\<rparr>;
                  s = set_inuse_and_pinuse s p dvs
              in (s, chunk2mem p))"

text \<open>split the top chunk.\<close>

definition take_top :: "'o state \<Rightarrow> size_t \<Rightarrow> 'o state \<times> addr" where
  "take_top s nb =
     (let rsize = topsize s - nb;
          s = s\<lparr>topsize := rsize\<rparr>;
          p = topp s;
          r = chunk_plus_offset p nb;
          s = s\<lparr>topp := r\<rparr>;
          s = set_head s r (rsize OR PINUSE_BIT);
          s = set_size_and_pinuse_of_inuse_chunk s p nb
      in (s, chunk2mem p))"

text \<open>
  \<open>dlmalloc\<close>: the bins first (with an early return), then the designated victim, the top chunk
  and the system.
\<close>

definition dlmalloc :: "'o os_ops \<Rightarrow> 'o state \<Rightarrow> size_t \<Rightarrow> ('o state \<times> addr) res" where
  "dlmalloc E s bytes =
     andThen
       (if bytes \<le> MAX_SMALL_REQUEST
        then let nb = (if bytes < MIN_REQUEST then MIN_CHUNK_SIZE else pad_request bytes);
                 idx = small_index nb;
                 smallbits = drop_bit (unat idx) (smallmap s)
          in if smallbits AND 3 \<noteq> 0
             then bindR (take_small_exact s (idx + (NOT smallbits AND 1))) (\<lambda>r. Inr (Return r))
             else if dvsize s < nb
             then if smallbits \<noteq> 0
               then bindR (take_small_split s nb idx smallbits) (\<lambda>r. Inr (Return r))
               else if treemap s \<noteq> 0
               then bindR (tmalloc_small s nb) (\<lambda>(s, m).
                 Inr (if m \<noteq> 0 then Return (s, m) else Next (s, nb)))
               else Inr (Next (s, nb))
             else Inr (Next (s, nb))
        else if MAX_REQUEST \<le> bytes then Inr (Next (s, MAX_SIZE_T))
        else let nb = pad_request bytes
          in if treemap s \<noteq> 0
             then bindR (tmalloc_large s nb) (\<lambda>(s, m).
               Inr (if m \<noteq> 0 then Return (s, m) else Next (s, nb)))
             else Inr (Next (s, nb)))
       (\<lambda>(s, nb).
         if nb \<le> dvsize s then Inr (take_dv s nb)
         else if nb < topsize s then Inr (take_top s nb)
         else sys_alloc E s nb)"

definition mspace_malloc :: "'o os_ops \<Rightarrow> 'o state \<Rightarrow> size_t \<Rightarrow> ('o state \<times> addr) res" where
  "mspace_malloc E ms bytes =
     (if \<not> ok_magic ms then Inl UsageAbort
      else andThen
       (if bytes \<le> MAX_SMALL_REQUEST
        then let nb = (if bytes < MIN_REQUEST then MIN_CHUNK_SIZE else pad_request bytes);
                 idx = small_index nb;
                 smallbits = drop_bit (unat idx) (smallmap ms)
          in if smallbits AND 3 \<noteq> 0
             then bindR (take_small_exact ms (idx + (NOT smallbits AND 1))) (\<lambda>r. Inr (Return r))
             else if dvsize ms < nb
             then if smallbits \<noteq> 0
               then bindR (take_small_split ms nb idx smallbits) (\<lambda>r. Inr (Return r))
               else if treemap ms \<noteq> 0
               then bindR (tmalloc_small ms nb) (\<lambda>(ms, m).
                 Inr (if m \<noteq> 0 then Return (ms, m) else Next (ms, nb)))
               else Inr (Next (ms, nb))
             else Inr (Next (ms, nb))
        else if MAX_REQUEST \<le> bytes then Inr (Next (ms, MAX_SIZE_T))
        else let nb = pad_request bytes
          in if treemap ms \<noteq> 0
             then bindR (tmalloc_large ms nb) (\<lambda>(ms, m).
               Inr (if m \<noteq> 0 then Return (ms, m) else Next (ms, nb)))
             else Inr (Next (ms, nb)))
       (\<lambda>(ms, nb).
         if nb \<le> dvsize ms then Inr (take_dv ms nb)
         else if nb < topsize ms then Inr (take_top ms nb)
         else sys_alloc E ms nb))"

definition internal_malloc :: "'o os_ops \<Rightarrow> 'o state \<Rightarrow> size_t \<Rightarrow> ('o state \<times> addr) res" where
  "internal_malloc E m b = (if is_global m then dlmalloc E m b else mspace_malloc E m b)"

section \<open>free\<close>

text \<open>
  "Consolidate backward": returns early for a directly mapped chunk and when the chunk just
  joins the designated victim; goes on with the start and the size of the merged chunk.
  \<open>dispose_chunk\<close> and \<open>free\<close> differ in the error of a bad address.
\<close>

definition free_backward ::
  "fault \<Rightarrow> 'o os_ops \<Rightarrow> 'o state \<Rightarrow> addr \<Rightarrow> size_t \<Rightarrow> addr
    \<Rightarrow> ('o state, 'o state \<times> addr \<times> size_t) flow res"
where
  "free_backward bad E s p psize nxt =
     (if \<not> pinuse s p
      then let prevsize = prev_foot s p
        in if is_mmapped s p
           then let psize = psize + (prevsize + MMAP_FOOT_PAD);
                    (s, r) = CALL_MUNMAP E (p - prevsize) psize s
                in Inr (Return (if r = 0 then s\<lparr>footprint := footprint s - psize\<rparr> else s))
           else let prev = chunk_minus_offset p prevsize;
                    psize = psize + prevsize;
                    p = prev
             in if ok_address s prev
                then if p \<noteq> dv s
                     then bindR (unlink_chunk s p prevsize) (\<lambda>s. Inr (Next (s, p, psize)))
                     else if head s nxt AND INUSE_BITS = INUSE_BITS
                     then let s = s\<lparr>dvsize := psize\<rparr>
                          in Inr (Return (set_free_with_pinuse s p psize nxt))
                     else Inr (Next (s, p, psize))
                else Inl bad
      else Inr (Next (s, p, psize)))"

text \<open>
  "Consolidate forward": with the top chunk (\<open>after_top\<close> is what follows then), with the
  designated victim, or with an ordinary free chunk. It goes on when the chunk is to be binned.
\<close>

definition free_forward ::
  "('o state \<Rightarrow> size_t \<Rightarrow> 'o state res) \<Rightarrow> 'o state \<Rightarrow> addr \<Rightarrow> size_t \<Rightarrow> addr
    \<Rightarrow> ('o state, 'o state \<times> size_t) flow res"
where
  "free_forward after_top s p psize nxt =
     (if \<not> cinuse s nxt
      then if nxt = topp s
        then let tsize = topsize s + psize;
                 s = s\<lparr>topsize := tsize, topp := p\<rparr>;
                 s = set_head s p (tsize OR PINUSE_BIT);
                 s = (if p = dv s then s\<lparr>dv := 0, dvsize := 0\<rparr> else s)
             in bindR (after_top s tsize) (\<lambda>s. Inr (Return s))
        else if nxt = dv s
        then let dsize = dvsize s + psize;
                 s = s\<lparr>dvsize := dsize, dv := p\<rparr>
             in Inr (Return (set_size_and_pinuse_of_free_chunk s p dsize))
        else let nsize = chunksize s nxt;
                 psize = psize + nsize
             in bindR (unlink_chunk s nxt nsize) (\<lambda>s.
                  let s = set_size_and_pinuse_of_free_chunk s p psize
                  in Inr (if p = dv s then Return (s\<lparr>dvsize := psize\<rparr>) else Next (s, psize)))
      else Inr (Next (set_free_with_pinuse s p psize nxt, psize)))"

definition dispose_chunk :: "'o os_ops \<Rightarrow> 'o state \<Rightarrow> addr \<Rightarrow> size_t \<Rightarrow> 'o state res" where
  "dispose_chunk E s p psize =
     (let nxt = chunk_plus_offset p psize
      in andThen (free_backward CorruptionAbort E s p psize nxt) (\<lambda>(s, p, psize).
           if ok_address s nxt
           then andThen (free_forward (\<lambda>s _. Inr s) s p psize nxt) (\<lambda>(s, psize).
                  insert_chunk s p psize)
           else Inl CorruptionAbort))"

text \<open>The end of \<open>free\<close>: bin the chunk, and release segments every so many large frees.\<close>

definition free_bin :: "'o os_ops \<Rightarrow> 'o state \<Rightarrow> addr \<Rightarrow> size_t \<Rightarrow> 'o state res" where
  "free_bin E s p psize =
     (if is_small psize then insert_small_chunk s p psize
      else bindR (insert_large_chunk s p psize) (\<lambda>s.
        let s = s\<lparr>release_checks := release_checks s - 1\<rparr>
        in if release_checks s = 0
           then bindR (release_unused_segments E s) (\<lambda>(s, _). Inr s)
           else Inr s))"

definition dlfree :: "'o os_ops \<Rightarrow> 'o state \<Rightarrow> addr \<Rightarrow> 'o state res" where
  "dlfree E s m =
     (if m = 0 then Inr s
      else let p = mem2chunk m
        in if ok_address s p \<and> ok_inuse s p
           then let psize = chunksize s p;
                    nxt = chunk_plus_offset p psize
             in andThen (free_backward UsageAbort E s p psize nxt) (\<lambda>(s, p, psize).
                  if ok_next p nxt \<and> ok_pinuse s nxt
                  then andThen
                    (free_forward
                       (\<lambda>s tsize. if should_trim s tsize
                                  then bindR (sys_trim E s 0) (\<lambda>(s, _). Inr s) else Inr s)
                       s p psize nxt)
                    (\<lambda>(s, psize). free_bin E s p psize)
                  else Inl UsageAbort)
           else Inl UsageAbort)"

definition mspace_free :: "'o os_ops \<Rightarrow> 'o state \<Rightarrow> addr \<Rightarrow> 'o state res" where
  "mspace_free E fm m =
     (if m = 0 then Inr fm
      else let p = mem2chunk m
        in if \<not> ok_magic fm then Inl UsageAbort
           else if ok_address fm p \<and> ok_inuse fm p
           then let psize = chunksize fm p;
                    nxt = chunk_plus_offset p psize
             in andThen (free_backward UsageAbort E fm p psize nxt) (\<lambda>(fm, p, psize).
                  if ok_next p nxt \<and> ok_pinuse fm nxt
                  then andThen
                    (free_forward
                       (\<lambda>fm tsize. if should_trim fm tsize
                                   then bindR (sys_trim E fm 0) (\<lambda>(fm, _). Inr fm) else Inr fm)
                       fm p psize nxt)
                    (\<lambda>(fm, psize). free_bin E fm p psize)
                  else Inl UsageAbort)
           else Inl UsageAbort)"

definition internal_free :: "'o os_ops \<Rightarrow> 'o state \<Rightarrow> addr \<Rightarrow> 'o state res" where
  "internal_free E m p = (if is_global m then dlfree E m p else mspace_free E m p)"

section \<open>calloc\<close>

definition calloc_req :: "size_t \<Rightarrow> size_t \<Rightarrow> size_t" where
  "calloc_req n_elements elem_size =
     (if n_elements \<noteq> 0
      then let req = n_elements * elem_size
        in if (n_elements OR elem_size) AND NOT 0xffff \<noteq> 0 \<and> req div n_elements \<noteq> elem_size
           then MAX_SIZE_T else req
      else 0)"

definition dlcalloc ::
  "'o os_ops \<Rightarrow> 'o state \<Rightarrow> size_t \<Rightarrow> size_t \<Rightarrow> ('o state \<times> addr) res" where
  "dlcalloc E s n_elements elem_size =
     (let req = calloc_req n_elements elem_size
      in bindR (dlmalloc E s req) (\<lambda>(s, m).
           Inr (if m \<noteq> 0 \<and> calloc_must_clear s (mem2chunk m) then memset0 s m req else s, m)))"

definition mspace_calloc ::
  "'o os_ops \<Rightarrow> 'o state \<Rightarrow> size_t \<Rightarrow> size_t \<Rightarrow> ('o state \<times> addr) res" where
  "mspace_calloc E ms n_elements elem_size =
     (if \<not> ok_magic ms then Inl UsageAbort
      else let req = calloc_req n_elements elem_size
        in bindR (internal_malloc E ms req) (\<lambda>(ms, m).
             Inr (if m \<noteq> 0 \<and> calloc_must_clear ms (mem2chunk m) then memset0 ms m req else ms, m)))"

end
