(* ===== verification/DL_Heap.thy ===== *)
theory DL_Heap
  imports DL_Layout DL_Malloc
begin

text \<open>
  The heap of a space of src/src/dlmalloc.c: the chunks of its segments in memory
  (\<open>DL_Layout\<close>), the free chunks in the bins (\<open>DL_FreeStore\<close>), the designated victim and the top
  chunk. \<open>open_heap\<close> is the invariant in the middle of an operation, with some chunks open
  (holes) and some free but not in a bin; \<open>heap\<close> is the invariant between operations.
\<close>

section \<open>Head words\<close>

lemma head_words:
  assumes "is_aligned z"
  shows "head_size (z OR 1) = z" "head_size ((z OR 1) OR 2) = z" "head_cinuse ((z OR 1) OR 2)"
    "\<not> head_cinuse (z OR 1)" "head_pinuse (z OR 1)" "head_pinuse ((z OR 1) OR 2)"
  using assms by (auto simp: head_defs dl_consts dl_flags or_and_distrib)

lemma head_set_pinuse:
  "head_size (h OR 1) = head_size h" "head_cinuse (h OR 1) = head_cinuse h" "head_pinuse (h OR 1)"
proof -
  have "(1 :: size_t) AND - 8 = 0" "(1 :: size_t) AND 2 = 0" by simp_all
  then show "head_size (h OR 1) = head_size h" "head_cinuse (h OR 1) = head_cinuse h"
    by (simp_all add: head_defs dl_consts or_and_distrib)
  have "(h OR 1) AND 1 = (1 :: size_t)" by (rule bit_word_eqI) (auto simp: bit_simps)
  then show "head_pinuse (h OR 1)" by (simp add: head_defs dl_consts)
qed

lemma head_clear_pinuse:
  "head_size (h AND NOT 1) = head_size h" "head_cinuse (h AND NOT 1) = head_cinuse h"
  "\<not> head_pinuse (h AND NOT 1)"
  by (simp_all add: head_defs dl_consts and.assoc)

lemma inuse_pinuse_word:
  assumes "head_pinuse h"
  shows "((h AND PINUSE_BIT) OR z) OR CINUSE_BIT = (z OR PINUSE_BIT) OR CINUSE_BIT"
proof -
  have n: "h AND 1 \<noteq> 0" using assms by (simp add: head_pinuse_def dl_consts)
  have "unat (h AND 1) < 2" by (simp add: unat_and_1)
  then have "unat (h AND 1) = 1" using n by (simp add: unat_eq_zero less_2_cases_iff)
  then have "h AND 1 = 1" by (metis unat_1 word_unat_eq_iff)
  then show ?thesis by (simp add: dl_consts or.commute)
qed

section \<open>Reads after writes of heads and feet\<close>

lemma aligned_apart: "is_aligned p \<Longrightarrow> is_aligned q \<Longrightarrow> p \<noteq> q + 8" "is_aligned p \<Longrightarrow> is_aligned q \<Longrightarrow> p + 8 \<noteq> q"
proof -
  have n: "\<not> 16 dvd unat (q + 8)" if "16 dvd unat q" for q :: addr
  proof -
    have "unat (q + 8) mod 16 = (unat q + 8) mod 16"
      by (simp add: unat_word_ariths mod_mod_cancel)
    also have "\<dots> = 8" using that by presburger
    finally show ?thesis by (simp add: dvd_eq_mod_eq_0)
  qed
  show "is_aligned p \<Longrightarrow> is_aligned q \<Longrightarrow> p \<noteq> q + 8" "is_aligned p \<Longrightarrow> is_aligned q \<Longrightarrow> p + 8 \<noteq> q"
    using n [of p] n [of q] unfolding is_aligned_iff by blast+
qed

lemma aligned_fin: "chunk_geo c \<Longrightarrow> is_aligned (fin c)"
  using lo_hi(3) [of c] by (simp add: chunk_geo_def is_aligned_iff hi_def)

lemma head_reads [dl_mem]:
  "head (set_head s p v) q = (if q = p then v else head s q)"
  "is_aligned q \<Longrightarrow> is_aligned (p + z) \<Longrightarrow> head (set_foot s p z) q = head s q"
  "is_aligned q \<Longrightarrow> is_aligned p \<Longrightarrow> prev_foot (set_head s p v) q = prev_foot s q"
  "prev_foot (set_foot s p z) q = (if q = p + z then z else prev_foot s q)"
  using aligned_apart [of q "p"] aligned_apart [of "p + z" q]
  by (auto simp: head_def prev_foot_def set_head_def set_foot_def set_prev_foot_def rd_wr)

lemma header_cells_cong: "maddr s' = maddr s \<Longrightarrow> header_cells s' = header_cells s"
  using headers_cong [of s' s] by (simp add: header_cells_def)

lemma write_fields [dl_mem]:
  "header_cells (wr s a v) = header_cells s"
  "least_addr (set_head s p v) = least_addr s" "least_addr (set_foot s p z) = least_addr s"
  by (rule header_cells_cong, simp add: wr_fields)
    (simp_all add: set_head_def set_foot_def set_prev_foot_def wr_fields)

section \<open>The invariant inside an operation\<close>

text \<open>
  What an operation leaves alone: the fenceposts, the ends of the segments, the cells the
  allocator keeps, and \<open>reach\<close>, the cells the operation may write.
\<close>

record arena =
  fences :: "addr set"
  ends :: "addr set"
  kept :: "addr set"
  reach :: "addr set"

definition open_heap ::
  "arena \<Rightarrow> 'o state \<Rightarrow> chunk set \<Rightarrow> chunk set \<Rightarrow> chunk set \<Rightarrow> chunk set \<Rightarrow> chunk set \<Rightarrow> bool"
where
  "open_heap w s U F D T H \<longleftrightarrow> free_rep s F \<and> F \<inter> D = {}
     \<and> layout s U (F \<union> D) T H (fences w) (ends w) (kept w)
     \<and> header_cells s \<subseteq> kept w \<and> header_cells s \<subseteq> reach w
     \<and> (\<forall>c\<in>F \<union> D \<union> T \<union> H. own c \<subseteq> reach w) \<and> (\<forall>q\<in>fst ` U \<union> fences w. q + 8 \<in> reach w)
     \<and> (\<forall>q\<in>fst ` (U \<union> F \<union> D \<union> T \<union> H) \<union> fences w. ok_address s q)"

text \<open>The fields an operation may change, besides cells it may write; the top chunk keeps its end.\<close>

definition moves :: "arena \<Rightarrow> 'o state \<Rightarrow> 'o state \<Rightarrow> bool" where
  "moves w s s' \<longleftrightarrow>
     s' = s\<lparr>mem := mem s', smallmap := smallmap s', treemap := treemap s', dv := dv s',
       dvsize := dvsize s', topp := topp s', topsize := topsize s', release_checks := release_checks s'\<rparr>
     \<and> topp s' + topsize s' = topp s + topsize s \<and> (\<forall>a. a \<notin> reach w \<longrightarrow> rd s' a = rd s a)"

lemma moves_refl: "moves w s s"
  by (simp add: moves_def)

lemma moves_trans: "moves w s s' \<Longrightarrow> moves w s' s'' \<Longrightarrow> moves w s s''"
  by (cases s, cases s', cases s'') (auto simp: moves_def)

lemma moves_bins: "changes_bins A s s' \<Longrightarrow> A \<subseteq> reach w \<Longrightarrow> moves w s s'"
  by (cases s, cases s') (auto simp: moves_def changes_bins_def)

lemma moves_fields:
  assumes "moves w s s'"
  shows "maddr s' = maddr s" "least_addr s' = least_addr s"
  using assms by (cases s, cases s', simp add: moves_def)+

lemma moves_wr: "a \<in> reach w \<Longrightarrow> moves w s (wr s a v)"
  by (cases s) (auto simp: moves_def wr_def rd_def)

lemma is_small_iff: "is_small z \<longleftrightarrow> unat z < 256"
proof -
  have "unat z div 8 < 32 \<longleftrightarrow> unat z < 256" by linarith
  then show ?thesis by (simp add: is_small_def dl_consts word_less_nat_alt unat_drop [of 3, simplified])
qed

lemma chunk_cells_own:
  assumes c: "chunk_geo c" and z: "32 \<le> unat (snd c)"
  shows "chunk_cells c \<subseteq> own c" "fin c \<notin> chunk_links c"
proof -
  obtain p y where py: "c = (p, y)" by (cases c)
  note i = in_own [OF c [unfolded py]] and u = unat_in_chunk [OF c [unfolded py]]
  have n: "unat (8 :: addr) = 8" "unat (16 :: addr) = 16" "unat (24 :: addr) = 24" "unat (32 :: addr) = 32"
    "unat (40 :: addr) = 40" "unat (48 :: addr) = 48" "unat (56 :: addr) = 56" by simp_all
  show "chunk_cells c \<subseteq> own c"
    using z i [of 8] i [of 16] i [of 24] i [of 32] i [of 40] i [of 48] i [of 56]
    by (simp add: py chunk_cells_def is_small_iff scells_def cells_def offs_def n)
  have "p + y \<noteq> p + 16" "p + y \<noteq> p + 24" using z py by auto
  moreover have "\<not> is_small y \<Longrightarrow> p + y \<notin> body p"
    by (auto simp: is_small_iff body_def)
  ultimately show "fin c \<notin> chunk_links c"
    by (auto simp: py chunk_links_def)
qed

lemma free_rep_cong:
  assumes rep: "free_rep s F" and f: "maddr s' = maddr s" "least_addr s' = least_addr s"
      "smallmap s' = smallmap s" "treemap s' = treemap s"
    and rd: "\<And>a. a \<in> header_cells s \<Longrightarrow> rd s' a = rd s a" "\<And>c a. c \<in> F \<Longrightarrow> a \<in> chunk_cells c \<Longrightarrow> rd s' a = rd s a"
  shows "free_rep s' F"
proof -
  obtain L T where ok: "free_ok s L T F" using rep by (auto simp: free_rep_def)
  note D = free_okD [OF ok] and C = store_cells [OF ok] and H = headers_cong [OF f(1)]
  have rd': "rd s' a = rd s a" if "a \<in> header_cells s \<union> (\<Union>c\<in>F. chunk_cells c)" for a
    using that rd by blast
  have cells: "(\<Union>p\<in>small_chunks L. scells p) \<subseteq> (\<Union>c\<in>F. chunk_cells c)" "cells_of (all_nodes T) \<subseteq> (\<Union>c\<in>F. chunk_cells c)"
    unfolding D(3) UN_Un C(1,3) by blast+
  have T: "treebins_ok s' T"
    by (rule treebins_ok_cong [OF D(2) f(1,2,4) rd']) (use cells(2) in \<open>auto simp: header_cells_def\<close>)
  have k: "chunksize s' p = chunksize s p" if "p \<in> small_chunks L" for p
    by (rule chunksize_rd, rule rd') (use cells(1) that in \<open>auto simp: scells_def\<close>)
  have lk: "link_cells (small_nodes s L) \<subseteq> link_cells (small_headers s) \<union> (\<Union>p\<in>small_chunks L. scells p)"
    by (auto simp: small_nodes_chunks link_cells_def scells_def)
  have S: "smallbins_ok s' L"
  proof (rule smallbins_ok_cong [OF _ f(1,2,3) rd'])
    show "smallbins_ok s L" using D(1) by (simp add: small_store_def)
    show "a \<in> header_cells s \<union> (\<Union>c\<in>F. chunk_cells c)" if "a \<in> link_cells (small_nodes s L)" for a
      using that lk cells(1) unfolding header_cells_def by blast
  qed
  have "chunksize s' p = chunksize s p" if "i < 32" "p \<in> set (L i)" for i p
    using that by (intro k) (auto simp: small_chunks_def)
  then have SS: "small_store s' L" using D(1) S by (simp add: small_store_def H)
  have e: "small_entries s' L = small_entries s L" using k by (auto simp: small_entries_def)
  have "header_cells s' = header_cells s" by (rule header_cells_cong [OF f(1)])
  then have "free_ok s' L T F" using D SS T e by (simp add: free_ok_def)
  then show ?thesis by (auto simp: free_rep_def)
qed

lemma open_heapD:
  assumes "open_heap w s U F D T H"
  shows "free_rep s F" "F \<inter> D = {}" "layout s U (F \<union> D) T H (fences w) (ends w) (kept w)"
    "header_cells s \<subseteq> kept w" "header_cells s \<subseteq> reach w"
    "c \<in> F \<union> D \<union> T \<union> H \<Longrightarrow> own c \<subseteq> reach w" "q \<in> fst ` U \<union> fences w \<Longrightarrow> q + 8 \<in> reach w"
    "q \<in> fst ` (U \<union> F \<union> D \<union> T \<union> H) \<union> fences w \<Longrightarrow> ok_address s q"
  using assms unfolding open_heap_def by - (elim conjE, assumption | elim conjE, erule bspec, assumption)+

lemma open_heapI:
  assumes "free_rep s F" "F \<inter> D = {}" "layout s U (F \<union> D) T H (fences w) (ends w) (kept w)"
    "header_cells s \<subseteq> kept w" "header_cells s \<subseteq> reach w"
    "\<forall>c\<in>F \<union> D \<union> T \<union> H. own c \<subseteq> reach w" "\<forall>q\<in>fst ` U \<union> fences w. q + 8 \<in> reach w"
    "\<forall>q\<in>fst ` (U \<union> F \<union> D \<union> T \<union> H) \<union> fences w. ok_address s q"
  shows "open_heap w s U F D T H"
  unfolding open_heap_def by (intro conjI assms)

text \<open>All chunks.\<close>

lemma open_geo:
  assumes "open_heap w s U F D T H"
  shows "geo (U \<union> F \<union> D \<union> T \<union> H) (ends w)"
  using layoutD(1) [OF open_heapD(3) [OF assms]] by (simp add: Un_assoc)

lemma open_chunk: "open_heap w s U F D T H \<Longrightarrow> c \<in> U \<union> F \<union> D \<union> T \<union> H \<Longrightarrow> chunk_geo c"
  by (rule geoD(3) [OF open_geo])

lemma fence_aligned:
  assumes O: "open_heap w s U F D T H" and q: "q \<in> fst ` (U \<union> F \<union> D \<union> T \<union> H) \<union> fences w"
  shows "is_aligned q"
proof (cases "q \<in> fences w")
  case True
  then show ?thesis
    using geoD(5) [OF open_geo [OF O]] layoutD(2) [OF open_heapD(3) [OF O]] by blast
next
  case False
  then obtain c where "c \<in> U \<union> F \<union> D \<union> T \<union> H" "q = fst c" using q by blast
  with open_chunk [OF O] show ?thesis by (simp add: chunk_geo_def)
qed

lemma fence_head_own:
  assumes g: "geo A E" and e: "e \<in> E" and c: "c \<in> A"
  shows "e + 8 \<notin> own c"
proof -
  have a: "16 dvd unat e" using geoD(5) [OF g e] by (simp add: is_aligned_iff)
  have "unat e < 2 ^ 64" using unsigned_less [of e] by simp
  then have "unat e < 18446744073709551616" by simp
  then have "unat e + 8 < 18446744073709551616" using a by presburger
  then have u: "unat (e + 8) = unat e + 8" by (simp add: unat_word_ariths)
  have "16 dvd lo c" using geoD(3) [OF g c] by (simp add: chunk_geo_def is_aligned_iff lo_def)
  then show ?thesis using geoD(6) [OF g e c] u a by (auto simp: own_def)
qed

text \<open>
  Writes to holes, to the top chunk and to the heads of chunks in use and of fenceposts do not
  touch the bins.
\<close>

definition free_space :: "chunk set \<Rightarrow> chunk set \<Rightarrow> addr set \<Rightarrow> addr set" where
  "free_space G U V = (\<Union>c\<in>G. own c) \<union> (\<lambda>q. q + 8) ` (fst ` U \<union> V)"

lemma free_space_bins:
  assumes O: "open_heap w s U F D T H" and a: "a \<in> free_space (D \<union> T \<union> H) U (fences w)"
  shows "a \<notin> header_cells s" "c \<in> F \<Longrightarrow> a \<notin> chunk_cells c" "a \<in> reach w"
proof -
  note P = open_heapD [OF O] and L = layoutD [OF open_heapD(3) [OF O]] and g = open_geo [OF O]
  consider d where "d \<in> D \<union> T \<union> H" "a \<in> own d" | u where "u \<in> U" "a = fst u + 8" | e where "e \<in> fences w" "a = e + 8"
    using a unfolding free_space_def by blast
  then have "a \<notin> header_cells s \<and> (\<forall>c\<in>F. a \<notin> own c) \<and> a \<in> reach w"
  proof cases
    case 1
    then have "a \<notin> kept w" using L(8) [of d] by blast
    moreover have "a \<notin> own c" if "c \<in> F" for c
    proof -
      have "c \<noteq> d" using that 1 L(4) P(2) by blast
      then show ?thesis using geo_own [OF g, of c d] that 1 by blast
    qed
    ultimately show ?thesis using 1 P(4) P(6) [of d] by blast
  next
    case 2
    then have "a \<notin> kept w" using L(9) [of "fst u"] by blast
    moreover have "a \<notin> own c" if "c \<in> F" for c
    proof -
      have "c \<noteq> u" using that 2 L(3) by blast
      then show ?thesis using geo_own [OF g, of c u] head_own [OF open_chunk [OF O], of u] that 2 by blast
    qed
    ultimately show ?thesis using 2 P(4) P(7) [of "fst u"] by blast
  next
    case 3
    then have "a \<notin> kept w" using L(9) [of e] by blast
    moreover have "e \<in> ends w" using 3 L(2) by blast
    then have "a \<notin> own c" if "c \<in> F" for c
      using fence_head_own [OF g, of e c] that 3 by blast
    ultimately show ?thesis using 3 P(4) P(7) [of e] by blast
  qed
  note * = this
  show "a \<notin> header_cells s" "a \<in> reach w" using * by blast+
  show "a \<notin> chunk_cells c" if "c \<in> F"
    using * that chunk_cells_own(1) [OF open_chunk [OF O], of c] L(6) [of c] by blast
qed

lemma open_write:
  assumes O: "open_heap w s U F D T H" and ch: "changes_mem (free_space (D \<union> T \<union> H) U (fences w)) s s'"
    and L: "layout s' U' (F \<union> D') T' H' (fences w) (ends w) (kept w)" "F \<inter> D' = {}"
    and A: "U' \<union> F \<union> D' \<union> T' \<union> H' = U \<union> F \<union> D \<union> T \<union> H" "U' \<subseteq> U \<union> D \<union> T \<union> H" "D' \<union> T' \<union> H' \<subseteq> D \<union> T \<union> H"
  shows "open_heap w s' U' F D' T' H' \<and> moves w s s'"
proof -
  note P = open_heapD [OF O]
  have s': "s' = s\<lparr>mem := mem s'\<rparr>" using ch by (simp add: changes_mem_def)
  have f: "maddr s' = maddr s" "least_addr s' = least_addr s" "smallmap s' = smallmap s" "treemap s' = treemap s"
    by (subst s', simp)+
  have h: "header_cells s' = header_cells s" by (rule header_cells_cong [OF f(1)])
  have out: "rd s' a = rd s a" if "a \<notin> free_space (D \<union> T \<union> H) U (fences w)" for a
    by (rule changes_memD [OF ch that])
  have F: "free_rep s' F"
    by (rule free_rep_cong [OF P(1) f]) (use out free_space_bins(1,2) [OF O] in blast)+
  have "fst c + 8 \<in> reach w" if "c \<in> D \<union> T \<union> H" for c
    using head_own [OF open_chunk [OF O], of c] P(6) [of c] that by blast
  then have hd: "\<forall>q\<in>fst ` U' \<union> fences w. q + 8 \<in> reach w" using A(2) P(7) by blast
  have "open_heap w s' U' F D' T' H'"
  proof (intro open_heapI)
    show "\<forall>c\<in>F \<union> D' \<union> T' \<union> H'. own c \<subseteq> reach w" using A(3) P(6) by blast
    show "\<forall>q\<in>fst ` (U' \<union> F \<union> D' \<union> T' \<union> H') \<union> fences w. ok_address s' q"
      unfolding A(1) using P(8) by (simp add: ok_address_def f)
  qed (use F L P(4,5) h hd in auto)
  moreover have "moves w s s'"
    using free_space_bins(3) [OF O] out by (subst s', cases s) (auto simp: moves_def rd_def)
  ultimately show ?thesis by blast
qed

section \<open>Writing the tags of a chunk\<close>

lemma hole_facts:
  assumes O: "open_heap w s U F D T H" and c: "c \<in> H"
  shows "is_aligned (fst c)" "is_aligned (snd c)" "is_aligned (fin c)" "fst c + 8 \<in> free_space (D \<union> T \<union> H) U (fences w)"
    "fin c \<in> free_space (D \<union> T \<union> H) U (fences w)" "fin c \<noteq> fst c"
    "q \<in> fst ` (U \<union> (F \<union> D) \<union> T) \<union> fences w \<Longrightarrow> q \<noteq> fst c \<and> is_aligned q"
    "d \<in> F \<union> D \<Longrightarrow> fin d \<noteq> fin c \<and> is_aligned (fin d)"
proof -
  note C = start_cases [OF open_heapD(3) [OF O] c]
  have g: "chunk_geo c" using c by (intro open_chunk [OF O]) blast
  then show "is_aligned (fst c)" "is_aligned (snd c)" by (simp_all add: chunk_geo_def)
  show "is_aligned (fin c)" by (rule aligned_fin [OF g])
  show "fst c + 8 \<in> free_space (D \<union> T \<union> H) U (fences w)" "fin c \<in> free_space (D \<union> T \<union> H) U (fences w)"
    using head_own [OF g] foot_own [OF g] c by (auto simp: free_space_def)
  show "fin c \<noteq> fst c" by (rule C(6))
  show "q \<noteq> fst c \<and> is_aligned q" if "q \<in> fst ` (U \<union> (F \<union> D) \<union> T) \<union> fences w"
  proof
    show "q \<noteq> fst c" using C(1) that by metis
    show "is_aligned q" by (rule fence_aligned [OF O]) (use that in \<open>auto simp only: Un_assoc image_Un\<close>)
  qed
  show "fin d \<noteq> fin c \<and> is_aligned (fin d)" if "d \<in> F \<union> D"
    using C(3) [of d] aligned_fin [OF open_chunk [OF O, of d]] that by blast
qed

lemma head_space: "q \<in> fst ` U \<union> V \<Longrightarrow> q + 8 \<in> free_space G U V"
  by (auto simp: free_space_def)

lemma changes_mem_wr1: "a \<in> A \<Longrightarrow> changes_mem A s (wr s a v)"
  by (rule changes_mem_wr [OF changes_mem_refl])

lemma mark_used:
  assumes O: "open_heap w s U F D T H" and c: "(p, z) \<in> H" "32 \<le> unat z" "p + z \<in> fst ` H \<or> pinuse s (p + z)"
    and s': "s' = set_size_and_pinuse_of_inuse_chunk s p z"
  shows "open_heap w s' (insert (p, z) U) F D T (H - {(p, z)}) \<and> moves w s s'"
proof -
  note h = hole_facts [OF O c(1), unfolded fst_conv snd_conv fin_pair] and L = open_heapD(3) [OF O]
  have s'': "s' = set_head s p ((z OR 1) OR 2)"
    by (simp add: s' set_size_and_pinuse_of_inuse_chunk_def dl_consts)
  have hd: "head s' q = (if q = p then (z OR 1) OR 2 else head s q)" for q
    by (simp add: s'' head_reads)
  note W = head_words [OF h(2)]
  have L': "layout s' (insert (p, z) U) (F \<union> D) T (H - {(p, z)}) (fences w) (ends w) (kept w)"
  proof (rule fill_used [OF L c(1)])
    show "\<forall>q\<in>fst ` (U \<union> (F \<union> D) \<union> T) \<union> fences w. q \<noteq> fin (p, z) \<longrightarrow> same_head s s' q"
      using h(7) by (simp add: same_head_def hd)
    show "chunksize s' (fin (p, z)) = chunksize s (fin (p, z)) \<and> cinuse s' (fin (p, z)) = cinuse s (fin (p, z)) \<and> pinuse s' (fin (p, z))"
      if "fin (p, z) \<in> fst ` (U \<union> (F \<union> D) \<union> T) \<union> fences w"
    proof -
      have "p + z \<notin> fst ` H"
      proof
        assume "p + z \<in> fst ` H"
        then obtain d where d: "d \<in> H" "p + z = fst d" by (elim imageE)
        show False using start_cases(1) [OF L d(1)] that by (simp add: d(2))
      qed
      then have "pinuse s (p + z)" using c(3) by blast
      then show ?thesis using h(7) [of "p + z"] that
        by (simp add: chunksize_def cinuse_def pinuse_def hd)
    qed
    show "\<forall>d\<in>F \<union> D. prev_foot s' (fin d) = prev_foot s (fin d)"
      using h(1,8) by (simp add: s'' head_reads)
  qed (use c W in \<open>simp_all add: chunksize_def cinuse_def pinuse_def hd\<close>)
  show ?thesis
  proof (rule open_write [OF O _ L'])
    show "changes_mem (free_space (D \<union> T \<union> H) U (fences w)) s s'"
      unfolding s'' set_head_def by (rule changes_mem_wr1 [OF h(4)])
    show "F \<inter> D = {}" by (rule open_heapD(2) [OF O])
  qed (use c in blast)+
qed

lemma mark_used_next:
  assumes O: "open_heap w s U F D T H" and c: "(p, z) \<in> H" "32 \<le> unat z" "p + z \<in> fst ` U \<union> fences w"
    and s': "s' = set_inuse_and_pinuse s p z"
  shows "open_heap w s' (insert (p, z) U) F D T (H - {(p, z)}) \<and> moves w s s'"
proof -
  note h = hole_facts [OF O c(1), unfolded fst_conv snd_conv fin_pair] and L = open_heapD(3) [OF O]
  have s'': "s' = set_head (set_head s p ((z OR 1) OR 2)) (p + z) (head s (p + z) OR 1)"
    using h(6) by (simp add: s' set_inuse_and_pinuse_def dl_consts Let_def head_reads)
  have hd: "head s' q = (if q = p + z then head s q OR 1 else if q = p then (z OR 1) OR 2 else head s q)" for q
    by (simp add: s'' head_reads)
  note W = head_words [OF h(2)]
  have L': "layout s' (insert (p, z) U) (F \<union> D) T (H - {(p, z)}) (fences w) (ends w) (kept w)"
  proof (rule fill_used [OF L c(1)])
    show "\<forall>q\<in>fst ` (U \<union> (F \<union> D) \<union> T) \<union> fences w. q \<noteq> fin (p, z) \<longrightarrow> same_head s s' q"
      using h(7) by (simp add: same_head_def hd)
    show "chunksize s' (fin (p, z)) = chunksize s (fin (p, z)) \<and> cinuse s' (fin (p, z)) = cinuse s (fin (p, z)) \<and> pinuse s' (fin (p, z))"
      by (simp add: chunksize_def cinuse_def pinuse_def hd head_set_pinuse)
    show "\<forall>d\<in>F \<union> D. prev_foot s' (fin d) = prev_foot s (fin d)"
      using h(1,3,8) by (simp add: s'' head_reads)
  qed (use c W h(6) in \<open>simp_all add: chunksize_def cinuse_def pinuse_def hd\<close>)
  show ?thesis
  proof (rule open_write [OF O _ L'])
    show "changes_mem (free_space (D \<union> T \<union> H) U (fences w)) s s'"
      unfolding s'' set_head_def by (rule changes_mem_wr [OF changes_mem_wr1 [OF h(4)] head_space [OF c(3)]])
    show "F \<inter> D = {}" by (rule open_heapD(2) [OF O])
  qed (use c in blast)+
qed

lemma mark_free_core:
  assumes O: "open_heap w s U F D T H" and c: "(p, z) \<in> H" "32 \<le> unat z" "p + z \<in> fst ` U \<union> fences w"
    and hd: "head s' p = z OR 1" "\<forall>q. is_aligned q \<longrightarrow> q \<noteq> p \<longrightarrow> q \<noteq> p + z \<longrightarrow> head s' q = head s q"
      "head_size (head s' (p + z)) = head_size (head s (p + z))"
      "head_cinuse (head s' (p + z)) = head_cinuse (head s (p + z))" "\<not> head_pinuse (head s' (p + z))"
    and ft: "\<forall>q. is_aligned q \<longrightarrow> prev_foot s' q = (if q = p + z then z else prev_foot s q)"
    and ch: "changes_mem (free_space (D \<union> T \<union> H) U (fences w)) s s'"
  shows "open_heap w s' U F (insert (p, z) D) T (H - {(p, z)}) \<and> moves w s s'"
proof -
  note h = hole_facts [OF O c(1), unfolded fst_conv snd_conv fin_pair] and L = open_heapD(3) [OF O]
  note W = head_words [OF h(2)]
  have L': "layout s' U (insert (p, z) (F \<union> D)) T (H - {(p, z)}) (fences w) (ends w) (kept w)"
  proof (rule fill_free [OF L c(1)])
    show "\<forall>q\<in>fst ` (U \<union> (F \<union> D) \<union> T) \<union> fences w. q \<noteq> fin (p, z) \<longrightarrow> same_head s s' q"
      using h(7) hd(2) by (simp add: same_head_def)
    show "chunksize s' (fin (p, z)) = chunksize s (fin (p, z)) \<and> cinuse s' (fin (p, z)) = cinuse s (fin (p, z)) \<and> \<not> pinuse s' (fin (p, z))"
      using hd(3-5) by (simp add: chunksize_def cinuse_def pinuse_def)
    show "\<forall>d\<in>F \<union> D. prev_foot s' (fin d) = prev_foot s (fin d)" using h(8) ft by simp
    show "prev_foot s' (fin (p, z)) = snd (p, z)" using h(3) ft by simp
  qed (use c W in \<open>simp_all add: chunksize_def cinuse_def pinuse_def hd(1)\<close>)
  have e: "insert (p, z) (F \<union> D) = F \<union> insert (p, z) D" by blast
  have "(p, z) \<notin> F" using layoutD(4) [OF L] c(1) by blast
  then have d: "F \<inter> insert (p, z) D = {}" using open_heapD(2) [OF O] by blast
  show ?thesis by (rule open_write [OF O ch L' [unfolded e] d]) (use c in blast)+
qed

lemma mark_free:
  assumes O: "open_heap w s U F D T H" and c: "(p, z) \<in> H" "32 \<le> unat z" "p + z \<in> fst ` U \<union> fences w"
    and n: "\<not> pinuse s (p + z)"
    and s': "s' = set_size_and_pinuse_of_free_chunk s p z"
  shows "open_heap w s' U F (insert (p, z) D) T (H - {(p, z)}) \<and> moves w s s'"
proof (rule mark_free_core [OF O c])
  note h = hole_facts [OF O c(1), unfolded fst_conv snd_conv fin_pair]
  have s'': "s' = set_foot (set_head s p (z OR 1)) p z"
    by (simp add: s' set_size_and_pinuse_of_free_chunk_def dl_consts)
  have hd: "is_aligned q \<Longrightarrow> head s' q = (if q = p then z OR 1 else head s q)" for q
    using h(3) by (simp add: s'' head_reads)
  show "head s' p = z OR 1" "\<forall>q. is_aligned q \<longrightarrow> q \<noteq> p \<longrightarrow> q \<noteq> p + z \<longrightarrow> head s' q = head s q"
    "head_size (head s' (p + z)) = head_size (head s (p + z))"
    "head_cinuse (head s' (p + z)) = head_cinuse (head s (p + z))" "\<not> head_pinuse (head s' (p + z))"
    using h(1,3,6) n by (simp_all add: hd pinuse_def)
  show "\<forall>q. is_aligned q \<longrightarrow> prev_foot s' q = (if q = p + z then z else prev_foot s q)"
    using h(1) by (simp add: s'' head_reads)
  show "changes_mem (free_space (D \<union> T \<union> H) U (fences w)) s s'"
    unfolding s'' set_head_def set_foot_def set_prev_foot_def
    by (rule changes_mem_wr [OF changes_mem_wr1 [OF h(4)] h(5)])
qed

lemma mark_free_next:
  assumes O: "open_heap w s U F D T H" and c: "(p, z) \<in> H" "32 \<le> unat z" "p + z \<in> fst ` U \<union> fences w"
    and s': "s' = set_free_with_pinuse s p z (p + z)"
  shows "open_heap w s' U F (insert (p, z) D) T (H - {(p, z)}) \<and> moves w s s'"
proof (rule mark_free_core [OF O c])
  note h = hole_facts [OF O c(1), unfolded fst_conv snd_conv fin_pair]
  have s'': "s' = set_foot (set_head (set_head s (p + z) (head s (p + z) AND NOT 1)) p (z OR 1)) p z"
    by (simp add: s' set_free_with_pinuse_def clear_pinuse_def set_size_and_pinuse_of_free_chunk_def dl_consts)
  have hd: "is_aligned q \<Longrightarrow> head s' q = (if q = p then z OR 1 else if q = p + z then head s q AND NOT 1 else head s q)" for q
    using h(3) by (simp add: s'' head_reads)
  show "head s' p = z OR 1" "\<forall>q. is_aligned q \<longrightarrow> q \<noteq> p \<longrightarrow> q \<noteq> p + z \<longrightarrow> head s' q = head s q"
    using h(1) by (simp_all add: hd)
  show "head_size (head s' (p + z)) = head_size (head s (p + z))"
    "head_cinuse (head s' (p + z)) = head_cinuse (head s (p + z))" "\<not> head_pinuse (head s' (p + z))"
    using h(3,6) head_clear_pinuse [of "head s (p + z)"] by (simp_all add: hd)
  show "\<forall>q. is_aligned q \<longrightarrow> prev_foot s' q = (if q = p + z then z else prev_foot s q)"
    using h(1,3) by (simp add: s'' head_reads)
  show "changes_mem (free_space (D \<union> T \<union> H) U (fences w)) s s'"
    unfolding s'' set_head_def set_foot_def set_prev_foot_def
    by (rule changes_mem_wr [OF changes_mem_wr [OF changes_mem_wr1 [OF head_space [OF c(3)]] h(4)] h(5)])
qed

lemma mark_top:
  assumes O: "open_heap w s U F D {} H" and c: "(p, z) \<in> H" "p + z \<in> ends w - fences w"
    and s': "s' = set_head s p (z OR PINUSE_BIT)"
  shows "open_heap w s' U F D {(p, z)} (H - {(p, z)}) \<and> moves w s s'"
proof -
  note h = hole_facts [OF O c(1), unfolded fst_conv snd_conv fin_pair] and L = open_heapD(3) [OF O]
  have s'': "s' = set_head s p (z OR 1)" by (simp add: s' dl_consts)
  have hd: "head s' q = (if q = p then z OR 1 else head s q)" for q by (simp add: s'' head_reads)
  note W = head_words [OF h(2)]
  have L': "layout s' U (F \<union> D) {(p, z)} (H - {(p, z)}) (fences w) (ends w) (kept w)"
  proof (rule fill_top [OF L c(1)])
    show "\<forall>q\<in>fst ` (U \<union> (F \<union> D)) \<union> fences w. same_head s s' q"
      using h(7) by (simp add: same_head_def hd)
    show "\<forall>d\<in>F \<union> D. prev_foot s' (fin d) = prev_foot s (fin d)"
      using h(1,8) by (simp add: s'' head_reads)
  qed (use c W in \<open>simp_all add: chunksize_def cinuse_def pinuse_def hd\<close>)
  show ?thesis
  proof (rule open_write [OF O _ L'])
    show "changes_mem (free_space (D \<union> {} \<union> H) U (fences w)) s s'"
      unfolding s'' set_head_def by (rule changes_mem_wr1 [OF h(4)])
    show "F \<inter> D = {}" by (rule open_heapD(2) [OF O])
  qed (use c in blast)+
qed

section \<open>The bins\<close>

lemma layout_cong:
  assumes L: "layout s U R T H V E K" and hd: "\<forall>q\<in>fst ` (U \<union> R \<union> T) \<union> V. same_head s s' q"
    and ft: "\<forall>d\<in>R. prev_foot s' (fin d) = prev_foot s (fin d)"
  shows "layout s' U R T H V E K"
proof (rule layoutI)
  note D = layoutD [OF L] and t = tagsD [OF layoutD(10) [OF L]]
  have k: "chunksize s' q = chunksize s q" "cinuse s' q = cinuse s q" "pinuse s' q = pinuse s q"
    if "q \<in> fst ` (U \<union> R \<union> T) \<union> V" for q
    by (rule same_headD, use hd that in blast)+
  show "tags s' U R T H V"
    unfolding tags_def
  proof (intro conjI ballI impI)
    show "chunksize s' (fst d) = snd d" if "d \<in> U \<union> R \<union> T" for d
      using k(1) [of "fst d"] t(1) [OF that] that by simp
    show "cinuse s' (fst d)" if "d \<in> U" for d using k(2) [of "fst d"] t(2) [OF that] that by simp
    show "\<not> cinuse s' (fst d)" if "d \<in> R \<union> T" for d using k(2) [of "fst d"] t(3) [OF that] that by auto
    show "cinuse s' e" if "e \<in> V" for e using k(2) [of e] t(4) [OF that] that by simp
    show "pinuse s' q \<longleftrightarrow> q \<notin> fin ` R" if "q \<in> fst ` (U \<union> R \<union> T) \<union> V" "q \<notin> fin ` H" for q
      using k(3) [OF that(1)] t(5) [OF that] by simp
    show "prev_foot s' (fin d) = snd d" if "d \<in> R" for d using ft t(6) that by simp
  qed
  show "\<forall>c\<in>U \<union> R. 32 \<le> unat (snd c)" "\<forall>c\<in>R \<union> T \<union> H. own c \<inter> K = {}" "\<forall>q\<in>fst ` U \<union> V. q + 8 \<notin> K"
    using D(6,8,9) by blast+
qed (rule layoutD [OF L])+

lemma links_apart:
  assumes O: "open_heap w s U F D T H" and G: "G \<subseteq> F \<union> D"
  shows "q \<in> fst ` (U \<union> F \<union> D \<union> T \<union> H) \<union> fences w \<Longrightarrow> q + 8 \<notin> store_links s G"
    "d \<in> F \<union> D \<Longrightarrow> fin d \<notin> store_links s G" "store_links s G \<subseteq> reach w"
proof -
  note P = open_heapD [OF O] and L = layoutD [OF open_heapD(3) [OF O]] and g = open_geo [OF O]
  have cells: "chunk_links e \<subseteq> own e" if "e \<in> F \<union> D" for e
    using chunk_links_cells [of e] chunk_cells_own(1) [OF open_chunk [OF O], of e] L(6) [of e] that by blast
  show "store_links s G \<subseteq> reach w"
    using P(5) P(6) cells G unfolding store_links_def by blast
  show "fin d \<notin> store_links s G" if d: "d \<in> F \<union> D"
  proof -
    have o: "fin d \<in> own d" by (rule foot_own [OF open_chunk [OF O]]) (use d in blast)
    then have "fin d \<notin> header_cells s" using L(8) [of d] P(4) d by blast
    moreover have "fin d \<notin> chunk_links e" if "e \<in> G" for e
    proof (cases "e = d")
      case True
      then show ?thesis using chunk_cells_own(2) [OF open_chunk [OF O], of d] L(6) [of d] d by blast
    next
      case False
      have "own e \<inter> own d = {}" by (rule geo_own [OF g]) (use that d G False in auto)
      then show ?thesis using cells [of e] that G o by blast
    qed
    ultimately show ?thesis by (auto simp: store_links_def)
  qed
  show "q + 8 \<notin> store_links s G" if q: "q \<in> fst ` (U \<union> F \<union> D \<union> T \<union> H) \<union> fences w"
  proof (cases "q \<in> fences w")
    case True
    then have e: "q \<in> ends w" using L(2) by blast
    have "q + 8 \<notin> header_cells s" using L(9) [of q] True P(4) by blast
    moreover have "q + 8 \<notin> chunk_links e" if "e \<in> G" for e
      using fence_head_own [OF g e, of e] cells [of e] that G by blast
    ultimately show ?thesis by (auto simp: store_links_def)
  next
    case False
    then obtain c where c: "c \<in> U \<union> F \<union> D \<union> T \<union> H" "q = fst c" using q by blast
    have o: "q + 8 \<in> own c" using head_own [OF open_chunk [OF O c(1)]] c(2) by simp
    have "q + 8 \<notin> kept w" using L(8) [of c] L(9) [of q] c o by blast
    then have "q + 8 \<notin> header_cells s" using P(4) by blast
    moreover have "q + 8 \<notin> chunk_links e" if "e \<in> G" for e
    proof (cases "e = c")
      case True
      then show ?thesis using head_not_in_links [of c] c(2) by simp
    next
      case False
      have "own e \<inter> own c = {}" by (rule geo_own [OF g]) (use that c G False in auto)
      then show ?thesis using cells [of e] that G o by blast
    qed
    ultimately show ?thesis by (auto simp: store_links_def)
  qed
qed

lemma after_bins:
  assumes O: "open_heap w s U F D T H" and G: "G \<subseteq> F \<union> D" and ch: "changes_bins (store_links s G) s s'"
    and F': "free_rep s' F'" "F' \<inter> D' = {}" "F' \<union> D' = F \<union> D"
  shows "open_heap w s' U F' D' T H" "changes_bins (reach w) s s'"
    "\<forall>q\<in>fst ` (U \<union> F \<union> D \<union> T \<union> H) \<union> fences w. same_head s s' q"
proof -
  note P = open_heapD [OF O] and A = links_apart [OF O G] and f = changes_bins_fields [OF ch]
  show c: "changes_bins (reach w) s s'" by (rule changes_bins_mono [OF ch A(3)])
  show hd: "\<forall>q\<in>fst ` (U \<union> F \<union> D \<union> T \<union> H) \<union> fences w. same_head s s' q"
    using changes_binsD [OF ch A(1)] by (simp add: same_head_def head_def)
  have ft: "\<forall>d\<in>F \<union> D. prev_foot s' (fin d) = prev_foot s (fin d)"
    using changes_binsD [OF ch A(2)] by (simp add: prev_foot_def)
  have h: "header_cells s' = header_cells s" by (rule header_cells_cong [OF f(1)])
  have "layout s' U (F \<union> D) T H (fences w) (ends w) (kept w)"
    by (rule layout_cong [OF P(3) _ ft]) (use hd in \<open>simp only: image_Un\<close>, blast)
  moreover have "F' \<union> D' \<union> T \<union> H = F \<union> D \<union> T \<union> H" "U \<union> F' \<union> D' \<union> T \<union> H = U \<union> F \<union> D \<union> T \<union> H"
    using F'(3) by blast+
  ultimately show "open_heap w s' U F' D' T H"
    using F' P(4-8) h f(2) by (intro open_heapI) (simp_all add: ok_address_def)
qed

lemma unlink_open:
  assumes O: "open_heap w s U F D T H" and c: "(p, z) \<in> F"
  shows "\<exists>s'. unlink_chunk s p z = Inr s' \<and> open_heap w s' U (F - {(p, z)}) D T (insert (p, z) H)
    \<and> changes_bins (reach w) s s' \<and> (\<forall>q\<in>fst ` (U \<union> F \<union> D \<union> T \<union> H) \<union> fences w. same_head s s' q)"
proof -
  obtain s' where s': "unlink_chunk s p z = Inr s'" "free_rep s' (F - {(p, z)})"
    "changes_bins (store_links s F) s s'"
    using unlink_chunk_free [OF open_heapD(1) [OF O] c] by blast
  have D: "(F - {(p, z)}) \<inter> insert (p, z) D = {}" "F - {(p, z)} \<union> insert (p, z) D = F \<union> D"
    using open_heapD(2) [OF O] c by blast+
  note a = after_bins [OF O Un_upper1 s'(3,2) D]
  have e: "F - {(p, z)} \<union> insert (p, z) D - {(p, z)} = F - {(p, z)} \<union> D"
    using open_heapD(2) [OF O] c by blast
  note P = open_heapD [OF a(1)]
  have "layout s' U (F - {(p, z)} \<union> insert (p, z) D - {(p, z)}) T (insert (p, z) H) (fences w) (ends w) (kept w)"
    by (rule open_free [OF P(3)]) simp
  moreover have "F - {(p, z)} \<union> insert (p, z) D \<union> T \<union> H = F - {(p, z)} \<union> D \<union> T \<union> insert (p, z) H"
    "U \<union> (F - {(p, z)}) \<union> insert (p, z) D \<union> T \<union> H = U \<union> (F - {(p, z)}) \<union> D \<union> T \<union> insert (p, z) H" by blast+
  ultimately have "open_heap w s' U (F - {(p, z)}) D T (insert (p, z) H)"
    using P unfolding e by (intro open_heapI) auto
  then show ?thesis using s'(1) a(2,3) by blast
qed

lemma insert_open:
  assumes O: "open_heap w s U F D T H" and c: "(p, z) \<in> D"
  shows "\<exists>s'. insert_chunk s p z = Inr s' \<and> open_heap w s' U (insert (p, z) F) (D - {(p, z)}) T H
    \<and> changes_bins (reach w) s s' \<and> (\<forall>q\<in>fst ` (U \<union> F \<union> D \<union> T \<union> H) \<union> fences w. same_head s s' q)"
proof -
  note P = open_heapD [OF O] and L = layoutD [OF open_heapD(3) [OF O]] and g = open_geo [OF O]
  have cg: "chunk_geo (p, z)" by (rule open_chunk [OF O]) (use c in blast)
  have z: "32 \<le> unat z" using L(6) [of "(p, z)"] c by simp
  note co = chunk_cells_own(1) [OF cg] 
  have "unat z < 2 ^ 40" using geo_size [OF g, of "(p, z)"] c by simp
  moreover have "p \<noteq> 0" "p \<le> p + 56" if "\<not> is_small z"
    using that cg unat_in_chunk [OF cg, of 56] z
    by (auto simp: chunk_geo_def word_le_nat_alt is_small_iff)
  moreover have "ok_address s p" using P(8) [of p] imageI [OF c, of fst] by (simp add: image_Un)
  moreover have "chunksize s p = z" using tagsD(1) [OF L(10), of "(p, z)"] c by simp
  moreover have "chunk_cells (p, z) \<inter> (header_cells s \<union> (\<Union>d\<in>F. chunk_cells d)) = {}"
  proof -
    have "chunk_cells (p, z) \<inter> header_cells s = {}" using co z L(8) [of "(p, z)"] c P(4) by fastforce
    moreover have "chunk_cells (p, z) \<inter> chunk_cells d = {}" if d: "d \<in> F" for d
    proof -
      have "(p, z) \<noteq> d" using d c P(2) by blast
      then have "own (p, z) \<inter> own d = {}" using geo_own [OF g, of "(p, z)" d] c d by blast
      moreover have "chunk_cells d \<subseteq> own d"
        using chunk_cells_own(1) [OF open_chunk [OF O], of d] L(6) [of d] d by blast
      ultimately show ?thesis using co z by fastforce
    qed
    ultimately show ?thesis by blast
  qed
  ultimately have "free_fresh s F (p, z)" by (auto simp: free_fresh_def)
  from insert_chunk_free [OF P(1) this] obtain s' where s': "insert_chunk s p z = Inr s'"
    "free_rep s' (insert (p, z) F)" "changes_bins (store_links s (insert (p, z) F)) s s'" by blast
  have D: "insert (p, z) F \<inter> (D - {(p, z)}) = {}" "insert (p, z) F \<union> (D - {(p, z)}) = F \<union> D"
    "insert (p, z) F \<subseteq> F \<union> D" using c P(2) by blast+
  from after_bins [OF O D(3) s'(3,2) D(1,2)] s'(1) show ?thesis by blast
qed

section \<open>Opening, joining and splitting chunks\<close>

lemma reopen:
  assumes O: "open_heap w s U F D T H" and L: "layout s U' (F \<union> D') T' H' (fences w) (ends w) (kept w)"
    and d: "F \<inter> D' = {}" and U: "U' \<subseteq> U"
    and n: "\<forall>c\<in>D' \<union> T' \<union> H'. c \<in> D \<union> T \<union> H \<or> own c \<subseteq> reach w \<and> ok_address s (fst c)"
  shows "open_heap w s U' F D' T' H'"
proof (rule open_heapI)
  note P = open_heapD [OF O]
  have ok: "ok_address s (fst c)" if "c \<in> U \<union> F \<union> D \<union> T \<union> H" for c
    using P(8) [OF UnI1 [OF imageI [OF that]]] .
  have n': "own c \<subseteq> reach w \<and> ok_address s (fst c)" if "c \<in> D' \<union> T' \<union> H'" for c
  proof (cases "c \<in> D \<union> T \<union> H")
    case True
    then show ?thesis using P(6) [of c] ok [of c] by simp
  qed (use n that in blast)
  have F: "own c \<subseteq> reach w \<and> ok_address s (fst c)" if "c \<in> F" for c
    using P(6) [of c] ok [of c] that by simp
  show "\<forall>c\<in>F \<union> D' \<union> T' \<union> H'. own c \<subseteq> reach w" using n' F by (simp only: Un_iff ball_Un) simp
  show "\<forall>q\<in>fst ` (U' \<union> F \<union> D' \<union> T' \<union> H') \<union> fences w. ok_address s q"
  proof
    fix q assume q: "q \<in> fst ` (U' \<union> F \<union> D' \<union> T' \<union> H') \<union> fences w"
    show "ok_address s q"
    proof (cases "q \<in> fences w")
      case False
      then have "q \<in> fst ` (U' \<union> F \<union> D' \<union> T' \<union> H')" using q by blast
      then obtain c where c: "q = fst c" "c \<in> U' \<union> F \<union> D' \<union> T' \<union> H'" by (rule imageE)
      show ?thesis using c(2) ok [of c] n' [of c] F [of c] U unfolding c(1) by blast
    qed (use P(8) in blast)
  qed
  show "\<forall>q\<in>fst ` U' \<union> fences w. q + 8 \<in> reach w" using P(7) image_mono [OF U, of fst] by blast
qed (rule L d open_heapD [OF O])+

lemma open_used_heap:
  assumes O: "open_heap w s U F D T H" and c: "c \<in> U" "own c \<inter> kept w = {}" "own c \<subseteq> reach w"
    "pinuse s (fst c) \<or> fst c \<in> fin ` H"
  shows "open_heap w s (U - {c}) F D T (insert c H)"
proof (rule reopen [OF O open_used [OF open_heapD(3) [OF O] c(1,2,4)] open_heapD(2) [OF O]])
  show "\<forall>d\<in>D \<union> T \<union> insert c H. d \<in> D \<union> T \<union> H \<or> own d \<subseteq> reach w \<and> ok_address s (fst d)"
    using c(3) open_heapD(8) [OF O, of "fst c"] c(1) by auto
qed blast

lemma open_dv_heap:
  assumes O: "open_heap w s U F D T H" and c: "c \<in> D"
  shows "open_heap w s U F (D - {c}) T (insert c H)"
proof -
  note P = open_heapD [OF O]
  have e: "F \<union> D - {c} = F \<union> (D - {c})" using c P(2) by blast
  have "layout s U (F \<union> (D - {c})) T (insert c H) (fences w) (ends w) (kept w)"
    using open_free [OF P(3), of c] c unfolding e by blast
  then show ?thesis by (rule reopen [OF O]) (use P(2) c in blast)+
qed

lemma open_top_heap:
  assumes O: "open_heap w s U F D T H" and c: "c \<in> T"
  shows "open_heap w s U F D (T - {c}) (insert c H)"
  by (rule reopen [OF O open_top [OF open_heapD(3) [OF O] c] open_heapD(2) [OF O]]) (use c in blast)+

lemma join_heap:
  assumes O: "open_heap w s U F D T H" and c: "(p, x) \<in> H" "(p + x, y) \<in> H"
  shows "open_heap w s U F D T (insert (p, x + y) (H - {(p, x), (p + x, y)}))"
proof -
  note P = open_heapD [OF O]
  note j = chunk_geo_join [OF open_chunk [OF O] open_chunk [OF O], of p x y]
  have "own (p, x + y) \<subseteq> own (p, x) \<union> own (p + x, y)"
    using j(2,3) c by (auto simp: own_def lo_def)
  then have "own (p, x + y) \<subseteq> reach w" using P(6) [of "(p, x)"] P(6) [of "(p + x, y)"] c by blast
  moreover have "ok_address s p" using P(8) [of p] imageI [OF c(1), of fst] by (simp add: image_Un)
  ultimately show ?thesis
    by (intro reopen [OF O join_holes [OF P(3) c] P(2)]) auto
qed

lemma split_heap:
  assumes O: "open_heap w s U F D T H" and c: "(p, z) \<in> H"
    and n: "is_aligned n" "16 \<le> unat n" "unat n + 16 \<le> unat z"
  shows "open_heap w s U F D T (insert (p, n) (insert (p + n, z - n) (H - {(p, z)})))"
proof -
  note P = open_heapD [OF O]
  have cg: "chunk_geo (p, z)" by (rule open_chunk [OF O]) (use c in blast)
  note j = chunk_geo_split [OF cg n]
  note l = lo_hi(2) [OF j(1)] lo_hi(2) [OF j(2)]
  have "own (p, n) \<subseteq> own (p, z)" "own (p + n, z - n) \<subseteq> own (p, z)"
    using j l by (auto simp: own_def lo_def)
  then have k: "own (p, n) \<subseteq> reach w" "own (p + n, z - n) \<subseteq> reach w" using P(6) [of "(p, z)"] c by blast+
  have a: "ok_address s p" using P(8) [of p] imageI [OF c, of fst] by (simp add: image_Un)
  have "p \<le> p + n" using j(1,3) by (simp add: word_le_nat_alt hi_def lo_def)
  then have "ok_address s (p + n)" using a by (simp add: ok_address_def)
  then show ?thesis using k a by (intro reopen [OF O split_hole [OF P(3) c n] P(2)]) auto
qed

text \<open>What follows a free chunk is in use, and knows that the chunk before it is free.\<close>

lemma free_next:
  assumes O: "open_heap w s U F D T H" and d: "d \<in> F \<union> D" and e: "ends w = fences w \<union> fin ` T"
  shows "fin d \<in> fst ` U \<union> fences w" "\<not> pinuse s (fin d)"
proof -
  note L = layoutD [OF open_heapD(3) [OF O]] and t = tagsD [OF layoutD(10) [OF open_heapD(3) [OF O]]]
  have "d \<notin> T" "d \<notin> H" using L(4) d by blast+
  note dTH = this
  have inj: "d = e" if "e \<in> T \<union> H" "fin d = fin e" for e
    by (rule geo_inj(2) [OF L(1) _ _ that(2)]) (use d that(1) in blast)+
  have T: "fin d \<notin> fin ` T" and H: "fin d \<notin> fin ` H"
    using inj dTH by (intro notI; elim imageE; blast)+
  have "fin d \<in> fst ` (U \<union> (F \<union> D) \<union> T \<union> H) \<union> ends w" using d by (intro geoD(7) [OF L(1)]) blast
  moreover have "fin d \<notin> fst ` (F \<union> D \<union> T \<union> H)" using L(7) d by blast
  ultimately show n: "fin d \<in> fst ` U \<union> fences w" using T e by (simp add: image_Un)
  have q: "fin d \<in> fst ` (U \<union> (F \<union> D) \<union> T) \<union> fences w" using n by (simp only: image_Un) blast
  have "fin d \<in> fin ` (F \<union> D)" using d by (rule imageI)
  then show "\<not> pinuse s (fin d)" using t(5) [OF q H] by blast
qed

section \<open>The invariant between operations\<close>

definition dvset :: "'o state \<Rightarrow> chunk set" where
  "dvset s = (if dv s = 0 then {} else {(dv s, dvsize s)})"

definition topset :: "'o state \<Rightarrow> chunk set" where
  "topset s = (if topp s = 0 then {} else {(topp s, topsize s)})"

text \<open>
  \<open>U\<close> are the chunks in use, \<open>F\<close> the chunks in the bins, \<open>V\<close> the first fenceposts of the segments
  that do not end with the top chunk, \<open>K\<close> the cells the allocator keeps.
\<close>

definition heap :: "'o state \<Rightarrow> chunk set \<Rightarrow> chunk set \<Rightarrow> addr set \<Rightarrow> addr set \<Rightarrow> bool" where
  "heap s U F V K \<longleftrightarrow>
     open_heap \<lparr>fences = V, ends = V \<union> fin ` topset s, kept = K, reach = UNIV\<rparr> s U F (dvset s) (topset s) {}
     \<and> (dv s = 0 \<longrightarrow> dvsize s = 0) \<and> (topp s = 0 \<longrightarrow> topsize s = 0) \<and> V \<inter> fin ` topset s = {}"

text \<open>The cells an operation that allocates may write: bins, free chunks, heads of chunks in use.\<close>

definition touched :: "'o state \<Rightarrow> chunk set \<Rightarrow> chunk set \<Rightarrow> addr set \<Rightarrow> addr set" where
  "touched s U F V = header_cells s \<union> free_space (F \<union> dvset s \<union> topset s) U V"

definition heap_arena :: "'o state \<Rightarrow> addr set \<Rightarrow> addr set \<Rightarrow> addr set \<Rightarrow> arena" where
  "heap_arena s V K X = \<lparr>fences = V, ends = V \<union> fin ` topset s, kept = K, reach = X\<rparr>"

lemma arena_simps [simp]:
  "fences (heap_arena s V K X) = V" "ends (heap_arena s V K X) = V \<union> fin ` topset s"
  "kept (heap_arena s V K X) = K" "reach (heap_arena s V K X) = X"
  by (simp_all add: heap_arena_def)

lemma heap_enter:
  assumes h: "heap s U F V K" and X: "touched s U F V \<subseteq> X"
  shows "open_heap (heap_arena s V K X) s U F (dvset s) (topset s) {}"
proof -
  have O: "open_heap \<lparr>fences = V, ends = V \<union> fin ` topset s, kept = K, reach = UNIV\<rparr> s U F (dvset s) (topset s) {}"
    using h by (simp add: heap_def)
  note P = open_heapD [OF O, simplified]
  show ?thesis
  proof (rule open_heapI)
    show "header_cells s \<subseteq> reach (heap_arena s V K X)" using X by (auto simp: touched_def)
    show "\<forall>c\<in>F \<union> dvset s \<union> topset s \<union> {}. own c \<subseteq> reach (heap_arena s V K X)"
      "\<forall>q\<in>fst ` U \<union> fences (heap_arena s V K X). q + 8 \<in> reach (heap_arena s V K X)"
      using X unfolding touched_def free_space_def arena_simps by blast+
    show "\<forall>q\<in>fst ` (U \<union> F \<union> dvset s \<union> topset s \<union> {}) \<union> fences (heap_arena s V K X). ok_address s q"
      using P(8) by simp
  qed (use P(1-4) in simp_all)
qed

lemma heap_leave:
  assumes O: "open_heap w s' U F D T {}" and w: "w = heap_arena s V K X"
    and f: "dvset s' = D" "topset s' = T" "fin ` T = fin ` topset s"
      "dv s' = 0 \<longrightarrow> dvsize s' = 0" "topp s' = 0 \<longrightarrow> topsize s' = 0" "V \<inter> fin ` topset s = {}"
  shows "heap s' U F V K"
proof -
  note P = open_heapD [OF O, unfolded w arena_simps]
  have "open_heap \<lparr>fences = V, ends = V \<union> fin ` topset s', kept = K, reach = UNIV\<rparr> s' U F (dvset s') (topset s') {}"
    using P f(3) by (intro open_heapI) (simp_all add: f(1,2))
  then show ?thesis using f by (simp add: heap_def)
qed

lemma heapD:
  assumes "heap s U F V K"
  shows "dv s = 0 \<longrightarrow> dvsize s = 0" "topp s = 0 \<longrightarrow> topsize s = 0" "V \<inter> fin ` topset s = {}"
  using assms by (simp_all add: heap_def)

text \<open>Assignments to fields that the bins do not use.\<close>

lemma free_rep_fields:
  fixes s s' :: "'o state"
  assumes "free_rep s F" "mem s' = mem s" "maddr s' = maddr s" "least_addr s' = least_addr s"
    "smallmap s' = smallmap s" "treemap s' = treemap s"
  shows "free_rep s' F"
  by (rule free_rep_cong [OF assms(1,3,4,5,6)]) (simp_all add: rd_def assms(2))

lemma open_heap_fields:
  fixes s s' :: "'o state"
  assumes O: "open_heap w s U F D T H" and f: "mem s' = mem s" "maddr s' = maddr s" "least_addr s' = least_addr s"
    "smallmap s' = smallmap s" "treemap s' = treemap s"
  shows "open_heap w s' U F D T H"
proof -
  note P = open_heapD [OF O]
  have rd: "rd s' a = rd s a" for a by (simp add: rd_def f)
  have h: "header_cells s' = header_cells s" by (rule header_cells_cong [OF f(2)])
  have "layout s' U (F \<union> D) T H (fences w) (ends w) (kept w)"
    by (rule layout_cong [OF P(3)]) (simp_all add: same_head_def head_def prev_foot_def rd)
  then show ?thesis
    using P free_rep_fields [OF P(1) f] h by (intro open_heapI) (simp_all add: ok_address_def f)
qed

end
