(* ===== verification/DL_FreeProps.thy ===== *)
theory DL_FreeProps
  imports DL_Heap
begin

text \<open>
  Freeing a chunk of src/src/dlmalloc.c: \<open>free\<close> and \<open>dispose_chunk\<close> keep the invariant of the
  heap. The two phases, consolidation with the chunk before and with the chunk after, are
  treated one after the other; between them the chunk is a hole.
\<close>

lemma tags_heap:
  assumes O: "open_heap w s U F D T H"
  shows "c \<in> U \<union> F \<union> D \<union> T \<Longrightarrow> chunksize s (fst c) = snd c" "c \<in> U \<Longrightarrow> cinuse s (fst c)"
    "c \<in> F \<union> D \<union> T \<Longrightarrow> \<not> cinuse s (fst c)" "e \<in> fences w \<Longrightarrow> cinuse s e"
    "c \<in> F \<union> D \<Longrightarrow> prev_foot s (fin c) = snd c"
proof -
  note t = tagsD [OF layoutD(10) [OF open_heapD(3) [OF O]]]
  show "c \<in> U \<union> F \<union> D \<union> T \<Longrightarrow> chunksize s (fst c) = snd c" "c \<in> U \<Longrightarrow> cinuse s (fst c)"
    "c \<in> F \<union> D \<union> T \<Longrightarrow> \<not> cinuse s (fst c)" "e \<in> fences w \<Longrightarrow> cinuse s e"
    "c \<in> F \<union> D \<Longrightarrow> prev_foot s (fin c) = snd c"
    using t(1-4,6) by blast+
qed

lemma pinuse_heap:
  assumes O: "open_heap w s U F D T H" and q: "q \<in> fst ` (U \<union> F \<union> D \<union> T) \<union> fences w" "q \<notin> fin ` H"
  shows "pinuse s q \<longleftrightarrow> q \<notin> fin ` (F \<union> D)"
  by (rule tagsD(5) [OF layoutD(10) [OF open_heapD(3) [OF O]] _ q(2)]) (use q(1) in \<open>simp only: Un_assoc\<close>)

lemma heap_inj:
  assumes "open_heap w s U F D T H" "c \<in> U \<union> F \<union> D \<union> T \<union> H" "d \<in> U \<union> F \<union> D \<union> T \<union> H"
  shows "fst c = fst d \<Longrightarrow> c = d" "fin c = fin d \<Longrightarrow> c = d"
  by (rule geo_inj [OF open_geo [OF assms(1)] assms(2,3)], assumption)+

lemma heap_disjoint:
  assumes "open_heap w s U F D T H"
  shows "U \<inter> (F \<union> D \<union> T \<union> H) = {}" "(F \<union> D) \<inter> (T \<union> H) = {}" "T \<inter> H = {}" "F \<inter> D = {}"
  using layoutD(3,4,5) [OF open_heapD(3) [OF assms]] open_heapD(2) [OF assms] by blast+

text \<open>What follows a single hole.\<close>

lemma hole_next:
  assumes O: "open_heap w s U F D T {c}" and e: "ends w = fences w \<union> fin ` T"
  shows "fin c \<in> fst ` (U \<union> F \<union> D \<union> T) \<union> fences w"
proof -
  note C = start_cases [OF open_heapD(3) [OF O] singletonI]
  have "fin c \<notin> fin ` T" using C(3) by (intro notI, elim imageE) (metis UnI2)
  then show ?thesis using C(5,6) e by (simp add: Un_assoc image_Un)
qed

text \<open>The first phase.\<close>

definition zero_fields :: "'o state \<Rightarrow> bool" where
  "zero_fields s \<longleftrightarrow> (dv s = 0 \<longrightarrow> dvsize s = 0) \<and> (topp s = 0 \<longrightarrow> topsize s = 0)"

definition freeing :: "arena \<Rightarrow> 'o state \<Rightarrow> chunk set \<Rightarrow> chunk set \<Rightarrow> chunk set \<Rightarrow> addr \<Rightarrow> size_t \<Rightarrow> bool" where
  "freeing w s U F T p z \<longleftrightarrow> zero_fields s \<and> T = topset s \<and> 32 \<le> unat z \<and> pinuse s (p + z)
     \<and> (if p = dv s then open_heap w s U F {} T {(p, z)} \<and> \<not> cinuse s (p + z)
        else open_heap w s U F (dvset s) T {(p, z)})"

lemma low_two: "h AND 3 = 0 \<or> h AND 3 = 1 \<or> h AND 3 = 2 \<or> h AND 3 = (3 :: size_t)"
proof -
  have "unat (h AND 3) = unat h mod 4" using unat_and_mask [of h 2] by (simp add: low_masks)
  then have "unat (h AND 3) < 4" by simp
  then have "unat (h AND 3) = unat (0 :: size_t) \<or> unat (h AND 3) = unat (1 :: size_t)
    \<or> unat (h AND 3) = unat (2 :: size_t) \<or> unat (h AND 3) = unat (3 :: size_t)"
    by simp linarith
  then show ?thesis by (simp only: word_unat_eq_iff)
qed

lemma low_parts: "h AND 2 = (h AND 3) AND 2" "h AND 1 = (h AND 3) AND (1 :: size_t)"
  by (simp_all add: and.assoc)

lemma not_mmapped: "cinuse s p \<Longrightarrow> \<not> is_mmapped s p"
  using low_parts [of "head s p"] by (auto simp: cinuse_def is_mmapped_def head_mmapped_def head_cinuse_def dl_consts)

lemma free_words: "\<not> head_cinuse h \<Longrightarrow> head_pinuse h \<Longrightarrow> \<not> head_inuse h"
  using low_two [of h] low_parts [of h]
  by (auto simp: head_pinuse_def head_cinuse_def head_inuse_def dl_consts)

lemma cinuse_words: "cinuse s p \<Longrightarrow> is_inuse s p \<and> \<not> is_mmapped s p"
proof -
  assume c: "cinuse s p"
  have "head s p AND 3 \<noteq> 1" using c low_parts [of "head s p"] by (auto simp: cinuse_def head_cinuse_def dl_consts)
  then show ?thesis using not_mmapped [OF c] by (simp add: is_inuse_def head_inuse_def dl_consts)
qed

lemma both_inuse: "head s p AND INUSE_BITS = INUSE_BITS \<longleftrightarrow> cinuse s p \<and> pinuse s p"
proof -
  have "h AND 3 = 3 \<longleftrightarrow> h AND 2 \<noteq> 0 \<and> h AND 1 \<noteq> 0" for h :: size_t
    using low_two [of h] low_parts [of h] by (elim disjE) simp_all
  then show ?thesis by (simp add: cinuse_def pinuse_def head_defs dl_consts)
qed

lemma moves_set:
  "moves w s (s\<lparr>dvsize := x\<rparr>)" "moves w s (s\<lparr>dvsize := x, dv := y\<rparr>)" "y + x = topp s + topsize s \<Longrightarrow> moves w s (s\<lparr>topsize := x, topp := y\<rparr>)"
  "moves w s (s\<lparr>dv := y, dvsize := x\<rparr>)" "moves w s (s\<lparr>release_checks := x\<rparr>)"
  by (cases s; simp add: moves_def rd_def)+

text \<open>The victim and the top chunk after a change of the bins, and of single cells.\<close>

lemma sets_kept:
  assumes "dv s' = dv s" "dvsize s' = dvsize s" "topp s' = topp s" "topsize s' = topsize s"
  shows "dvset s' = dvset s" "topset s' = topset s" "zero_fields s' = zero_fields s"
  using assms by (simp_all add: dvset_def topset_def zero_fields_def)

lemma bins_sets:
  assumes "changes_bins A s s'"
  shows "dv s' = dv s" "dvset s' = dvset s" "topset s' = topset s" "zero_fields s' = zero_fields s" "dvsize s' = dvsize s"
    "topp s' = topp s" "topsize s' = topsize s"
  using changes_bins_fields [OF assms] by (simp_all add: dvset_def topset_def zero_fields_def)

lemma mem_sets:
  assumes "changes_mem A s s'"
  shows "dv s' = dv s" "dvset s' = dvset s" "topset s' = topset s" "zero_fields s' = zero_fields s" "dvsize s' = dvsize s"
    "topp s' = topp s" "topsize s' = topsize s"
proof -
  have s': "s' = s\<lparr>mem := mem s'\<rparr>" using assms by (simp add: changes_mem_def)
  show f: "dv s' = dv s" "dvsize s' = dvsize s" "topp s' = topp s" "topsize s' = topsize s" by (subst s', simp)+
  show "dvset s' = dvset s" "topset s' = topset s" "zero_fields s' = zero_fields s" by (rule sets_kept [OF f])+
qed

lemma tag_writes_fields:
  "dv (set_free_with_pinuse s p z n) = dv s" "dvsize (set_free_with_pinuse s p z n) = dvsize s"
  "topp (set_free_with_pinuse s p z n) = topp s" "topsize (set_free_with_pinuse s p z n) = topsize s"
  "dv (set_size_and_pinuse_of_free_chunk s p z) = dv s" "dvsize (set_size_and_pinuse_of_free_chunk s p z) = dvsize s"
  "topp (set_size_and_pinuse_of_free_chunk s p z) = topp s" "topsize (set_size_and_pinuse_of_free_chunk s p z) = topsize s"
  "dv (set_size_and_pinuse_of_inuse_chunk s p z) = dv s" "dvsize (set_size_and_pinuse_of_inuse_chunk s p z) = dvsize s"
  "topp (set_size_and_pinuse_of_inuse_chunk s p z) = topp s" "topsize (set_size_and_pinuse_of_inuse_chunk s p z) = topsize s"
  "dv (set_inuse_and_pinuse s p z) = dv s" "dvsize (set_inuse_and_pinuse s p z) = dvsize s"
  "topp (set_inuse_and_pinuse s p z) = topp s" "topsize (set_inuse_and_pinuse s p z) = topsize s"
  "dv (set_head s p z) = dv s" "dvsize (set_head s p z) = dvsize s" "topp (set_head s p z) = topp s" "topsize (set_head s p z) = topsize s"
  by (simp_all add: set_free_with_pinuse_def clear_pinuse_def set_size_and_pinuse_of_free_chunk_def set_foot_def
      set_prev_foot_def set_head_def wr_def set_size_and_pinuse_of_inuse_chunk_def set_inuse_and_pinuse_def Let_def)

lemmas tag_writes_sets =
  sets_kept [OF tag_writes_fields(1-4)] sets_kept [OF tag_writes_fields(5-8)] sets_kept [OF tag_writes_fields(9-12)]
  sets_kept [OF tag_writes_fields(13-16)]

lemma pinuse_same: "same_head s s' q \<Longrightarrow> pinuse s' q = pinuse s q" "same_head s s' q \<Longrightarrow> cinuse s' q = cinuse s q"
  by (simp_all add: same_headD)

lemma free_backward_heap:
  assumes h: "heap s U F V K" and c: "(p, z) \<in> U" "own (p, z) \<inter> K = {}"
    and w: "w = heap_arena s V K (touched s U F V \<union> own (p, z))"
  shows "(\<exists>s1. free_backward bad E s p z (p + z) = Inr (Return s1)
            \<and> heap s1 (U - {(p, z)}) F V K \<and> moves w s s1)
    \<or> (\<exists>s1 P Z F1. free_backward bad E s p z (p + z) = Inr (Next (s1, P, Z)) \<and> P + Z = p + z
            \<and> freeing w s1 (U - {(p, z)}) F1 (topset s) P Z \<and> moves w s s1)"
proof -
  have O: "open_heap w s U F (dvset s) (topset s) {}" unfolding w by (rule heap_enter [OF h]) blast
  have ew: "ends w = fences w \<union> fin ` topset s" "fences w = V" "own (p, z) \<subseteq> reach w" "own (p, z) \<inter> kept w = {}"
    using c(2) by (simp_all add: w)
  have z0: "zero_fields s" using heapD [OF h] by (simp add: zero_fields_def)
  note t = tags_heap [OF O]
  have pq: "p \<in> fst ` (U \<union> F \<union> dvset s \<union> topset s) \<union> fences w" using imageI [OF c(1), of fst] by (simp add: image_Un)
  have cp: "cinuse s p" using t(2) [OF c(1)] by simp
  have z32: "32 \<le> unat z" using layoutD(6) [OF open_heapD(3) [OF O], of "(p, z)"] c(1) by simp
  have nx: "pinuse s (p + z)"
  proof -
    have c': "(p, z) \<in> U \<union> F \<union> dvset s \<union> topset s \<union> {}" using c(1) by blast
    have n: "p + z \<in> fst ` (U \<union> F \<union> dvset s \<union> topset s) \<union> fences w \<and> p + z \<notin> fin ` (F \<union> dvset s)"
    proof
      have inj: "(p, z) = d" if "d \<in> F \<union> dvset s \<union> topset s" "fin (p, z) = fin d" for d
        by (rule heap_inj(2) [OF O c' _ that(2)]) (use that(1) in blast)
      have nd: "(p, z) \<notin> F \<union> dvset s \<union> topset s" using heap_disjoint(1) [OF O] c(1) by blast
      have *: "p + z \<notin> fin ` (F \<union> dvset s \<union> topset s)"
        using inj nd by (intro notI, elim imageE) (metis fin_pair)
      then show "p + z \<notin> fin ` (F \<union> dvset s)" by blast
      have "fin (p, z) \<in> fst ` (U \<union> F \<union> dvset s \<union> topset s \<union> {}) \<union> ends w"
        by (rule geoD(7) [OF open_geo [OF O] c'])
      then show "p + z \<in> fst ` (U \<union> F \<union> dvset s \<union> topset s) \<union> fences w"
        using * ew(1) by (simp add: image_Un)
    qed
    then show ?thesis using pinuse_heap [OF O, of "p + z"] by simp
  qed
  show ?thesis
  proof (cases "pinuse s p")
    case True
    have O1: "open_heap w s (U - {(p, z)}) F (dvset s) (topset s) {(p, z)}"
      by (rule open_used_heap [OF O c(1) ew(4,3)]) (simp add: True)
    have "p \<noteq> dv s"
    proof
      assume "p = dv s"
      moreover have "p \<noteq> 0" using open_chunk [OF O1, of "(p, z)"] by (simp add: chunk_geo_def)
      ultimately have "\<not> cinuse s p" using t(3) [of "(dv s, dvsize s)"] by (simp add: dvset_def)
      then show False using cp by blast
    qed
    then have "freeing w s (U - {(p, z)}) F (topset s) p z"
      using O1 z0 nx z32 by (simp add: freeing_def)
    moreover have "free_backward bad E s p z (p + z) = Inr (Next (s, p, z))"
      using True by (simp add: free_backward_def)
    ultimately show ?thesis using moves_refl by blast
  next
    case False
    then have "p \<in> fin ` (F \<union> dvset s)" using pinuse_heap [OF O pq] by simp
    then obtain d where d: "d \<in> F \<union> dvset s" "p = fin d" by (elim imageE)
    obtain P Y where PY: "d = (P, Y)" by (cases d)
    have foot: "prev_foot s p = Y" using t(5) [OF d(1)] d(2) PY by simp
    have pP: "p = P + Y" using d(2) PY by simp
    then have prev: "chunk_minus_offset p Y = P" by (simp add: chunk_minus_offset_def pP)
    have dA: "(P, Y) \<in> U \<union> F \<union> dvset s \<union> topset s \<union> {}" using d(1) PY by blast
    have ok: "ok_address s P" using open_heapD(8) [OF O UnI1 [OF imageI [OF dA]]] by simp
    have zz: "32 \<le> unat (z + Y)"
    proof -
      have "unat (Y + z) = unat Y + unat z"
        by (rule chunk_geo_join(4) [OF open_chunk [OF O dA]]) (use open_chunk [OF O, of "(p, z)"] c(1) pP in simp)
      then show ?thesis using z32 by (simp add: add.commute)
    qed
    have P0: "P \<noteq> 0" using open_chunk [OF O dA] by (simp add: chunk_geo_def)
    have fb: "free_backward bad E s p z (p + z) =
       (if P \<noteq> dv s then bindR (unlink_chunk s P Y) (\<lambda>s. Inr (Next (s, P, z + Y)))
        else if head s (p + z) AND INUSE_BITS = INUSE_BITS
        then Inr (Return (set_free_with_pinuse (s\<lparr>dvsize := z + Y\<rparr>) P (z + Y) (p + z)))
        else Inr (Next (s, P, z + Y)))"
      using False not_mmapped [OF cp] ok by (simp add: free_backward_def Let_def prev foot)
    have fin: "P + (z + Y) = p + z" by (simp add: pP)
    show ?thesis
    proof (cases "P = dv s")
      case dv: False
      then have "d \<notin> dvset s" by (auto simp: PY dvset_def)
      then have dF: "(P, Y) \<in> F" using d(1) PY by blast
      obtain s1 where s1: "unlink_chunk s P Y = Inr s1" "open_heap w s1 U (F - {(P, Y)}) (dvset s) (topset s) {(P, Y)}"
        "changes_bins (reach w) s s1" "\<forall>q\<in>fst ` (U \<union> F \<union> dvset s \<union> topset s \<union> {}) \<union> fences w. same_head s s1 q"
        using unlink_open [OF O dF] by blast
      note k = bins_sets [OF s1(3)]
      have "open_heap w s1 (U - {(p, z)}) (F - {(P, Y)}) (dvset s) (topset s) (insert (p, z) {(P, Y)})"
        by (rule open_used_heap [OF s1(2) c(1) ew(4,3)]) (simp add: pP)
      from join_heap [OF this, of P Y z] have "open_heap w s1 (U - {(p, z)}) (F - {(P, Y)}) (dvset s) (topset s) (insert (P, Y + z) ({(p, z), (P, Y)} - {(P, Y), (P + Y, z)}))"
        by (simp add: pP)
      moreover have "{(p, z), (P, Y)} - {(P, Y), (P + Y, z)} = {}" by (simp add: pP)
      ultimately have O2: "open_heap w s1 (U - {(p, z)}) (F - {(P, Y)}) (dvset s) (topset s) {(P, z + Y)}"
        by (simp only: add.commute)
      have "pinuse s1 (p + z)"
      proof -
        have "fin (P, z + Y) \<in> fst ` (U - {(p, z)} \<union> (F - {(P, Y)}) \<union> dvset s \<union> topset s) \<union> fences w"
          by (rule hole_next [OF O2 ew(1)])
        then have "p + z \<in> fst ` (U \<union> F \<union> dvset s \<union> topset s \<union> {}) \<union> fences w" by (auto simp: fin image_Un)
        then show ?thesis using s1(4) nx pinuse_same(1) by blast
      qed
      then have "freeing w s1 (U - {(p, z)}) (F - {(P, Y)}) (topset s) P (z + Y)"
        using O2 z0 dv zz by (simp add: freeing_def k fin)
      moreover have "moves w s s1" by (rule moves_bins [OF s1(3) subset_refl])
      moreover have "free_backward bad E s p z (p + z) = Inr (Next (s1, P, z + Y))"
        using dv s1(1) by (simp add: fb)
      ultimately show ?thesis using fin by blast
    next
      case dv: True
      then have dvs: "dvset s = {(P, Y)}" using d(1) PY P0 heap_disjoint(4) [OF O] dA
        heap_inj(1) [OF O dA, of "(dv s, dvsize s)"] by (auto simp: dvset_def)
      have O1: "open_heap w s U F {} (topset s) {(P, Y)}"
        using open_dv_heap [OF O, of "(P, Y)"] by (simp add: dvs)
      have "open_heap w s (U - {(p, z)}) F {} (topset s) (insert (p, z) {(P, Y)})"
        by (rule open_used_heap [OF O1 c(1) ew(4,3)]) (simp add: pP)
      from join_heap [OF this, of P Y z] have "open_heap w s (U - {(p, z)}) F {} (topset s) (insert (P, Y + z) ({(p, z), (P, Y)} - {(P, Y), (P + Y, z)}))"
        by (simp add: pP)
      moreover have "{(p, z), (P, Y)} - {(P, Y), (P + Y, z)} = {}" by (simp add: pP)
      ultimately have O2: "open_heap w s (U - {(p, z)}) F {} (topset s) {(P, z + Y)}"
        by (simp only: add.commute)
      show ?thesis
      proof (cases "cinuse s (p + z)")
        case False
        then have "freeing w s (U - {(p, z)}) F (topset s) P (z + Y)"
          using O2 z0 nx zz unfolding freeing_def fin by (simp add: dv)
        moreover have "free_backward bad E s p z (p + z) = Inr (Next (s, P, z + Y))"
          using dv False by (simp add: fb both_inuse)
        ultimately show ?thesis using fin moves_refl by blast
      next
        case True
        let ?s = "s\<lparr>dvsize := z + Y\<rparr>"
        let ?s1 = "set_free_with_pinuse ?s P (z + Y) (P + (z + Y))"
        have O3: "open_heap w ?s (U - {(p, z)}) F {} (topset s) {(P, z + Y)}"
          by (rule open_heap_fields [OF O2]) simp_all
        have n: "P + (z + Y) \<in> fst ` (U - {(p, z)}) \<union> fences w"
        proof -
          have q: "p + z \<in> fst ` (U - {(p, z)} \<union> F \<union> {} \<union> topset s) \<union> fences w"
            using hole_next [OF O2 ew(1)] by (simp only: fin_pair fin)
          have "p + z \<notin> fst ` (F \<union> {} \<union> topset s)"
            using tags_heap(3) [OF O2] True by (intro notI, elim imageE) metis
          then show ?thesis using q unfolding fin by (simp only: image_Un) blast
        qed
        from mark_free_next [OF O3 singletonI zz n refl]
        have r: "open_heap w ?s1 (U - {(p, z)}) F {(P, z + Y)} (topset s) {}" "moves w ?s ?s1" by simp_all
        have "heap ?s1 (U - {(p, z)}) F V K"
          by (rule heap_leave [OF r(1) w]) (use heapD [OF h] P0 dv in \<open>simp_all add: dvset_def topset_def tag_writes_fields\<close>)
        moreover have "moves w s ?s1" by (rule moves_trans [OF moves_set(1) r(2)])
        moreover have "free_backward bad E s p z (p + z) = Inr (Return ?s1)"
          unfolding fin fb using dv True nx by (simp add: both_inuse)
        ultimately show ?thesis by blast
      qed
    qed
  qed
qed

text \<open>The second phase; \<open>g\<close> is what follows when the chunk has joined the top chunk.\<close>

definition to_bin :: "arena \<Rightarrow> 'o state \<Rightarrow> chunk set \<Rightarrow> chunk set \<Rightarrow> chunk set \<Rightarrow> addr \<Rightarrow> size_t \<Rightarrow> bool" where
  "to_bin w s U F T p z \<longleftrightarrow> zero_fields s \<and> T = topset s \<and> p \<noteq> dv s
     \<and> open_heap w s U F (insert (p, z) (dvset s)) T {}"

lemma size_large:
  assumes "open_heap w s U F D T H" "c \<in> U \<union> F \<union> D"
  shows "32 \<le> unat (snd c)"
  using layoutD(6) [OF open_heapD(3) [OF assms(1)], of c] assms(2) by blast

lemma join_size:
  assumes O: "open_heap w s U F D T H" and c: "(p, x) \<in> H" "(p + x, y) \<in> H" "32 \<le> unat x \<or> 32 \<le> unat y"
  shows "32 \<le> unat (x + y)"
proof -
  have "unat (x + y) = unat x + unat y"
    by (rule chunk_geo_join(4) [OF open_chunk [OF O] open_chunk [OF O]]) (use c in blast)+
  then show ?thesis using c(3) by linarith
qed

lemma free_forward_heap:
  assumes fr: "freeing w s U F (topset s0) p z" and w: "w = heap_arena s0 V K X" and V: "V \<inter> fin ` topset s0 = {}"
  shows "(\<exists>s1 F1. free_forward g s p z (p + z) = Inr (Return s1) \<and> heap s1 U F1 V K \<and> moves w s s1)
    \<or> (\<exists>s1 F1. free_forward g s p z (p + z) = bindR (g s1 (topsize s1)) (\<lambda>s. Inr (Return s))
        \<and> heap s1 U F1 V K \<and> moves w s s1)
    \<or> (\<exists>s1 Z F1. free_forward g s p z (p + z) = Inr (Next (s1, Z)) \<and> to_bin w s1 U F1 (topset s0) p Z \<and> moves w s s1)"
proof -
  define D where "D = (if p = dv s then {} else dvset s)"
  have O: "open_heap w s U F D (topset s0) {(p, z)}" and z0: "zero_fields s" and T: "topset s = topset s0"
    and z: "32 \<le> unat z" and dvn: "p = dv s \<Longrightarrow> \<not> cinuse s (p + z)"
    using fr by (auto simp: freeing_def D_def split: if_splits)
  have ew: "ends w = fences w \<union> fin ` topset s0" "fences w = V" by (simp_all add: w)
  note t = tags_heap [OF O] and dis = heap_disjoint [OF O]
  have N: "p + z \<in> fst ` (U \<union> F \<union> D \<union> topset s0) \<union> fences w"
    using hole_next [OF O ew(1)] by simp
  have p0: "p \<noteq> 0" using open_chunk [OF O, of "(p, z)"] by (simp add: chunk_geo_def)
  show ?thesis
  proof (cases "cinuse s (p + z)")
    case True
    then have n: "p + z \<in> fst ` U \<union> fences w"
    proof -
      have "p + z \<notin> fst ` (F \<union> D \<union> topset s0)"
        using t(3) True by (intro notI, elim imageE) metis
      then show ?thesis using N by (simp only: image_Un) blast
    qed
    have ndv: "p \<noteq> dv s" using dvn True by blast
    let ?s1 = "set_free_with_pinuse s p z (p + z)"
    from mark_free_next [OF O singletonI z n refl]
    have r: "open_heap w ?s1 U F (insert (p, z) (dvset s)) (topset s0) {}" "moves w s ?s1"
      using ndv by (simp_all add: D_def)
    have "to_bin w ?s1 U F (topset s0) p z"
      using r(1) z0 T ndv by (simp add: to_bin_def tag_writes_sets tag_writes_fields)
    moreover have "free_forward g s p z (p + z) = Inr (Next (?s1, z))"
      using True by (simp add: free_forward_def)
    ultimately show ?thesis using r(2) by blast
  next
    case False
    have "p + z \<notin> fst ` U \<union> fences w"
    proof
      assume "p + z \<in> fst ` U \<union> fences w"
      then show False
      proof
        assume "p + z \<in> fst ` U"
        then obtain u where "u \<in> U" "p + z = fst u" by (elim imageE)
        then show False using t(2) False by simp
      qed (use t(4) False in blast)
    qed
    then have "p + z \<in> fst ` (F \<union> D \<union> topset s0)" using N by (simp only: image_Un) blast
    then obtain d where d: "d \<in> F \<union> D \<union> topset s0" "p + z = fst d" by (elim imageE)
    obtain y where y: "d = (p + z, y)" using d(2) by (cases d) simp
    have dA: "(p + z, y) \<in> U \<union> F \<union> D \<union> topset s0 \<union> {(p, z)}" using d(1) y by blast
    have n0: "p + z \<noteq> 0" using open_chunk [OF O dA] by (simp add: chunk_geo_def)
    have np: "p + z \<noteq> p" using start_cases(6) [OF open_heapD(3) [OF O] singletonI] by simp
    have top_iff: "p + z = topp s \<longleftrightarrow> d \<in> topset s0"
    proof
      show "p + z = topp s" if "d \<in> topset s0" using that T y by (auto simp: topset_def split: if_splits)
      assume a: "p + z = topp s"
      then have m: "(topp s, topsize s) \<in> topset s0" using T n0 by (auto simp: topset_def)
      have "(p + z, y) = (topp s, topsize s)"
        by (rule heap_inj(1) [OF O dA]) (use m a in auto)
      then show "d \<in> topset s0" using m y by simp
    qed
    have dv_iff: "p + z = dv s \<longleftrightarrow> d \<in> D"
    proof
      show "p + z = dv s" if "d \<in> D" using that y by (auto simp: D_def dvset_def split: if_splits)
      assume a: "p + z = dv s"
      then have m: "(dv s, dvsize s) \<in> D" using n0 np by (auto simp: D_def dvset_def)
      have "(p + z, y) = (dv s, dvsize s)"
        by (rule heap_inj(1) [OF O dA]) (use m a in auto)
      then show "d \<in> D" using m y by simp
    qed
    have single: "insert (p + z, y) {(p, z)} - {(p, z), (p + z, y)} = {}" by blast
    have sz: "chunksize s (p + z) = y" using t(1) [of d] d(1) y by simp
    consider (top) "d \<in> topset s0" | (dv) "d \<in> D" "d \<notin> topset s0" | (bin) "d \<in> F" "d \<notin> D" "d \<notin> topset s0"
      using d(1) by blast
    then show ?thesis
    proof cases
      case top
      then have tt: "topp s = p + z" "topsize s = y" "topset s0 = {(p + z, y)}"
        using T y n0 by (auto simp: topset_def split: if_splits)
      have O1: "open_heap w s U F D {} (insert (p + z, y) {(p, z)})"
        using open_top_heap [OF O, of "(p + z, y)"] by (simp add: tt(3))
      have O2: "open_heap w s U F D {} {(p, z + y)}"
        using join_heap [OF O1, of p z y] single by simp
      let ?s = "s\<lparr>topsize := y + z, topp := p\<rparr>"
      define s1 where "s1 = set_head ?s p ((z + y) OR PINUSE_BIT)"
      define s2 where "s2 = (if p = dv s1 then s1\<lparr>dv := 0, dvsize := 0\<rparr> else s1)"
      have O3: "open_heap w ?s U F D {} {(p, z + y)}"
        by (rule open_heap_fields [OF O2]) simp_all
      have e: "p + (z + y) \<in> ends w - fences w"
        using ew V by (simp add: tt(3) add.assoc)
      from mark_top [OF O3 singletonI e s1_def]
      have r: "open_heap w s1 U F D {(p, z + y)} {}" "moves w ?s s1" by simp_all
      have O4: "open_heap w s2 U F D {(p, z + y)} {}"
        by (rule open_heap_fields [OF r(1)]) (simp_all add: s2_def)
      have f1: "dv s1 = dv s" "dvsize s1 = dvsize s" "topp s1 = p" "topsize s1 = z + y"
        by (simp_all add: s1_def tag_writes_fields add.commute)
      have f: "dv s2 = (if p = dv s then 0 else dv s)" "topp s2 = p" "topsize s2 = z + y"
        "dvsize s2 = (if p = dv s then 0 else dvsize s)"
        by (simp_all add: s2_def f1)
      have hp: "heap s2 U F V K"
      proof (rule heap_leave [OF O4 w])
        show "dvset s2 = D" by (simp add: f dvset_def D_def)
        show "topset s2 = {(p, z + y)}" using p0 by (simp add: f topset_def)
        show "fin ` {(p, z + y)} = fin ` topset s0" by (simp add: tt(3) add.assoc)
        show "dv s2 = 0 \<longrightarrow> dvsize s2 = 0" using z0 by (simp add: f zero_fields_def)
        show "topp s2 = 0 \<longrightarrow> topsize s2 = 0" using p0 by (simp add: f)
      qed (rule V)
      have "moves w s1 s2" by (simp add: s2_def moves_set(4) moves_refl)
      moreover have "moves w s ?s" by (rule moves_set(3)) (simp add: tt add.commute)
      ultimately have "moves w s s2" using r(2) moves_trans by blast
      moreover have "free_forward g s p z (p + z) = bindR (g s2 (topsize s2)) (\<lambda>s. Inr (Return s))"
        using False f(3) by (simp add: free_forward_def tt(1,2) Let_def add.commute s2_def s1_def)
      ultimately show ?thesis using hp by blast
    next
      case dv
      then have dd: "dv s = p + z" "dvsize s = y" "D = {(p + z, y)}" "dvset s = {(p + z, y)}"
        using y n0 by (auto simp: D_def dvset_def split: if_splits)
      have nt: "p + z \<noteq> topp s" using top_iff dv(2) by blast
      have nx: "p + (z + y) \<in> fst ` U \<union> fences w" "\<not> pinuse s (p + (z + y))"
        using free_next [OF O, of "(p + z, y)"] ew(1) by (simp_all add: dd(3) add.assoc)
      have O1: "open_heap w s U F {} (topset s0) (insert (p + z, y) {(p, z)})"
        using open_dv_heap [OF O, of "(p + z, y)"] by (simp add: dd(3))
      have O2: "open_heap w s U F {} (topset s0) {(p, z + y)}"
        using join_heap [OF O1, of p z y] single by simp
      have zy: "32 \<le> unat (z + y)" by (rule join_size [OF O1, of p]) (use z in simp_all)
      let ?s = "s\<lparr>dvsize := z + y, dv := p\<rparr>"
      let ?s1 = "set_size_and_pinuse_of_free_chunk ?s p (z + y)"
      have O3: "open_heap w ?s U F {} (topset s0) {(p, z + y)}"
        by (rule open_heap_fields [OF O2]) simp_all
      have n: "\<not> pinuse ?s (p + (z + y))" using nx(2) by (simp add: pinuse_def head_def rd_def)
      from mark_free [OF O3 singletonI zy nx(1) n refl]
      have r: "open_heap w ?s1 U F {(p, z + y)} (topset s0) {}" "moves w ?s ?s1" by simp_all
      have ts: "topset ?s1 = topset s0" unfolding T [symmetric] by (simp add: topset_def tag_writes_fields)
      have "heap ?s1 U F V K"
        by (rule heap_leave [OF r(1) w _ ts refl])
          (use z0 V p0 in \<open>simp_all add: dvset_def tag_writes_fields zero_fields_def\<close>)
      moreover have "moves w s ?s1" by (rule moves_trans [OF moves_set(2) r(2)])
      moreover have "free_forward g s p z (p + z) = Inr (Return ?s1)"
        using False nt dd by (simp add: free_forward_def Let_def add.commute)
      ultimately show ?thesis by blast
    next
      case bin
      have nt: "p + z \<noteq> topp s" "p + z \<noteq> dv s" using top_iff dv_iff bin(2,3) by blast+
      have nx: "p + (z + y) \<in> fst ` U \<union> fences w" "\<not> pinuse s (p + (z + y))"
        using free_next [OF O, of d] bin(1) ew(1) by (simp_all add: y add.assoc)
      obtain s1 where s1: "unlink_chunk s (p + z) y = Inr s1" "open_heap w s1 U (F - {d}) D (topset s0) (insert (p + z, y) {(p, z)})"
        "changes_bins (reach w) s s1" "\<forall>q\<in>fst ` (U \<union> F \<union> D \<union> topset s0 \<union> {(p, z)}) \<union> fences w. same_head s s1 q"
        using unlink_open [OF O, of "p + z" y] bin(1) y by blast
      note k = bins_sets [OF s1(3)]
      have O2: "open_heap w s1 U (F - {d}) D (topset s0) {(p, z + y)}"
        using join_heap [OF s1(2), of p z y] single by simp
      have zy: "32 \<le> unat (z + y)" by (rule join_size [OF s1(2), of p]) (use z in simp_all)
      have n: "\<not> pinuse s1 (p + (z + y))"
      proof -
        have "p + (z + y) \<in> fst ` (U \<union> F \<union> D \<union> topset s0 \<union> {(p, z)}) \<union> fences w"
          using nx(1) by (simp only: image_Un) blast
        then show ?thesis using s1(4) nx(2) pinuse_same(1) by blast
      qed
      let ?s2 = "set_size_and_pinuse_of_free_chunk s1 p (z + y)"
      from mark_free [OF O2 singletonI zy nx(1) n refl]
      have r: "open_heap w ?s2 U (F - {d}) (insert (p, z + y) D) (topset s0) {}" "moves w s1 ?s2" by simp_all
      have m: "moves w s ?s2" by (rule moves_trans [OF moves_bins [OF s1(3) subset_refl] r(2)])
      have ff: "free_forward g s p z (p + z) =
        (if p = dv s then Inr (Return (?s2\<lparr>dvsize := z + y\<rparr>)) else Inr (Next (?s2, z + y)))"
        using False nt s1(1) by (simp add: free_forward_def Let_def sz k tag_writes_fields)
      show ?thesis
      proof (cases "p = dv s")
        case True
        let ?s3 = "?s2\<lparr>dvsize := z + y\<rparr>"
        have O3: "open_heap w ?s3 U (F - {d}) {(p, z + y)} (topset s0) {}"
          by (rule open_heap_fields [OF r(1) [unfolded D_def if_P [OF True]]]) simp_all
        have ts: "topset ?s3 = topset s0"
          unfolding T [symmetric] by (simp add: topset_def tag_writes_fields k)
        have "heap ?s3 U (F - {d}) V K"
          by (rule heap_leave [OF O3 w _ ts refl])
            (use True z0 V p0 k in \<open>simp_all add: dvset_def tag_writes_fields zero_fields_def\<close>)
        moreover have "moves w s ?s3" by (rule moves_trans [OF m moves_set(1)])
        ultimately show ?thesis using ff True by auto
      next
        case ndv: False
        have "to_bin w ?s2 U (F - {d}) (topset s0) p (z + y)"
          using r(1) z0 T ndv k by (simp add: to_bin_def tag_writes_sets tag_writes_fields D_def)
        then show ?thesis using ff ndv m by auto
      qed
    qed
  qed
qed

lemma bin_heap:
  assumes b: "to_bin w s U F (topset s0) p z" and w: "w = heap_arena s0 V K X" and V: "V \<inter> fin ` topset s0 = {}"
  shows "\<exists>s'. insert_chunk s p z = Inr s' \<and> heap s' U (insert (p, z) F) V K \<and> moves w s s'
    \<and> release_checks s' = release_checks s"
proof -
  have O: "open_heap w s U F (insert (p, z) (dvset s)) (topset s0) {}" and z0: "zero_fields s" and T: "topset s = topset s0"
    and dv: "p \<noteq> dv s" using b by (auto simp: to_bin_def)
  obtain s' where s': "insert_chunk s p z = Inr s'"
    "open_heap w s' U (insert (p, z) F) (insert (p, z) (dvset s) - {(p, z)}) (topset s0) {}"
    "changes_bins (reach w) s s'" using insert_open [OF O, of p z] by blast
  note k = bins_sets [OF s'(3)]
  have D: "insert (p, z) (dvset s) - {(p, z)} = dvset s'" using dv by (auto simp: k dvset_def)
  have T': "topset s' = topset s0" by (simp add: k T)
  have "heap s' U (insert (p, z) F) V K"
    by (rule heap_leave [OF s'(2) w D [symmetric] T' refl])
      (use z0 V in \<open>simp_all add: zero_fields_def k\<close>)
  moreover have "release_checks s' = release_checks s"
    using s'(3) by (cases s, cases s') (simp add: changes_bins_def)
  ultimately show ?thesis using s'(1) moves_bins [OF s'(3) subset_refl] by blast
qed

text \<open>The checks between the phases.\<close>

lemma freeing_checks:
  assumes fr: "freeing w s U F (topset s0) p z" and w: "w = heap_arena s0 V K X"
  shows "ok_address s (p + z)" "ok_next p (p + z)" "ok_pinuse s (p + z)"
proof -
  obtain D where O: "open_heap w s U F D (topset s0) {(p, z)}"
    using fr by (auto simp: freeing_def split: if_splits)
  have "p + z \<in> fst ` (U \<union> F \<union> D \<union> topset s0) \<union> fences w"
    using hole_next [OF O] by (simp add: w)
  then show "ok_address s (p + z)" using open_heapD(8) [OF O] by (auto simp: image_Un)
  have "chunk_geo (p, z)" by (rule open_chunk [OF O]) blast
  from lo_hi(2,3) [OF this] show "ok_next p (p + z)" by (simp add: ok_next_def word_less_nat_alt lo_def)
  show "ok_pinuse s (p + z)" using fr by (simp add: freeing_def ok_pinuse_def)
qed

lemma dispose_chunk_heap:
  assumes h: "heap s U F V K" and c: "(p, z) \<in> U" "own (p, z) \<inter> K = {}"
    and w: "w = heap_arena s V K (touched s U F V \<union> own (p, z))"
  shows "\<exists>s' F'. dispose_chunk E s p z = Inr s' \<and> heap s' (U - {(p, z)}) F' V K \<and> moves w s s'"
proof -
  note V = heapD(3) [OF h]
  from free_backward_heap [OF h c w, of CorruptionAbort E] show ?thesis
  proof (elim disjE exE conjE)
    fix s1
    assume "free_backward CorruptionAbort E s p z (p + z) = Inr (Return s1)"
      "heap s1 (U - {(p, z)}) F V K" "moves w s s1"
    then show ?thesis by (auto simp: dispose_chunk_def chunk_plus_offset_def)
  next
    fix s1 P Z F1
    assume b: "free_backward CorruptionAbort E s p z (p + z) = Inr (Next (s1, P, Z))" "P + Z = p + z"
      and fr: "freeing w s1 (U - {(p, z)}) F1 (topset s) P Z" and m: "moves w s s1"
    note ok = freeing_checks(1) [OF fr w, unfolded b(2)]
    have d: "dispose_chunk E s p z = andThen (free_forward (\<lambda>s _. Inr s) s1 P Z (P + Z)) (\<lambda>(s, z). insert_chunk s P z)"
      using b ok by (simp add: dispose_chunk_def chunk_plus_offset_def)
    from free_forward_heap [OF fr w V, of "\<lambda>s _. Inr s"] show ?thesis
    proof (elim disjE exE conjE)
      fix s2 F2 assume "free_forward (\<lambda>s _. Inr s) s1 P Z (P + Z) = Inr (Return s2)"
        "heap s2 (U - {(p, z)}) F2 V K" "moves w s1 s2"
      then show ?thesis using moves_trans [OF m] by (auto simp: d)
    next
      fix s2 F2 assume "free_forward (\<lambda>s _. Inr s) s1 P Z (P + Z) = bindR (Inr s2) (\<lambda>s. Inr (Return s))"
        "heap s2 (U - {(p, z)}) F2 V K" "moves w s1 s2"
      then show ?thesis using moves_trans [OF m] by (auto simp: d)
    next
      fix s2 Z2 F2 assume f: "free_forward (\<lambda>s _. Inr s) s1 P Z (P + Z) = Inr (Next (s2, Z2))"
        and bn: "to_bin w s2 (U - {(p, z)}) F2 (topset s) P Z2" and m2: "moves w s1 s2"
      from bin_heap [OF bn w V] obtain s3 where "insert_chunk s2 P Z2 = Inr s3"
        "heap s3 (U - {(p, z)}) (insert (P, Z2) F2) V K" "moves w s2 s3" by blast
      then show ?thesis using moves_trans [OF moves_trans [OF m m2]] by (auto simp: d f)
    qed
  qed
qed

text \<open>
  \<open>free\<close>: the chunk is freed, and then the top chunk may be trimmed, or unused segments released.
\<close>

definition then_trim :: "'o os_ops \<Rightarrow> 'o state \<Rightarrow> 'o state res \<Rightarrow> bool" where
  "then_trim E s r \<longleftrightarrow> r = Inr s
     \<or> should_trim s (topsize s) \<and> r = bindR (sys_trim E s 0) (\<lambda>(s, _). Inr s)
     \<or> release_checks s = 0 \<and> r = bindR (release_unused_segments E s) (\<lambda>(s, _). Inr s)"

lemma heap_fields:
  fixes s s' :: "'o state"
  assumes h: "heap s U F V K" and f: "mem s' = mem s" "maddr s' = maddr s" "least_addr s' = least_addr s"
    "smallmap s' = smallmap s" "treemap s' = treemap s"
    and d: "dv s' = dv s" "dvsize s' = dvsize s" "topp s' = topp s" "topsize s' = topsize s"
  shows "heap s' U F V K"
proof -
  note k = sets_kept [OF d]
  from h have "open_heap \<lparr>fences = V, ends = V \<union> fin ` topset s, kept = K, reach = UNIV\<rparr> s U F (dvset s) (topset s) {}"
    by (simp add: heap_def)
  from open_heap_fields [OF this f] show ?thesis using heapD [OF h] by (simp add: heap_def k d)
qed

lemma free_bin_heap:
  assumes b: "to_bin w s U F (topset s0) p z" and w: "w = heap_arena s0 V K X" and V: "V \<inter> fin ` topset s0 = {}"
  shows "\<exists>s'. heap s' U (insert (p, z) F) V K \<and> moves w s s' \<and> then_trim E s' (free_bin E s p z)"
proof -
  from bin_heap [OF b w V] obtain s' where s': "insert_chunk s p z = Inr s'"
    "heap s' U (insert (p, z) F) V K" "moves w s s'" by blast
  show ?thesis
  proof (cases "is_small z")
    case True
    then have "free_bin E s p z = Inr s'" using s'(1) by (simp add: free_bin_def insert_chunk_def)
    then show ?thesis using s'(2,3) by (auto simp: then_trim_def)
  next
    case False
    let ?s = "s'\<lparr>release_checks := release_checks s' - 1\<rparr>"
    have f: "free_bin E s p z = (if release_checks ?s = 0
        then bindR (release_unused_segments E ?s) (\<lambda>(s, _). Inr s) else Inr ?s)"
      using s'(1) False by (simp add: free_bin_def insert_chunk_def)
    have "heap ?s U (insert (p, z) F) V K"
      by (rule heap_fields [OF s'(2)]) simp_all
    moreover have "moves w s ?s" by (rule moves_trans [OF s'(3) moves_set(5)])
    moreover have "then_trim E ?s (free_bin E s p z)" unfolding f then_trim_def by (cases "release_checks ?s = 0") simp_all
    ultimately show ?thesis by blast
  qed
qed

lemma dlfree_heap:
  assumes h: "heap s U F V K" and c: "(p, z) \<in> U" "own (p, z) \<inter> K = {}"
    and w: "w = heap_arena s V K (touched s U F V \<union> own (p, z))"
  shows "\<exists>s' F'. heap s' (U - {(p, z)}) F' V K \<and> moves w s s' \<and> then_trim E s' (dlfree E s (chunk2mem p))"
proof -
  note V = heapD(3) [OF h]
  have O: "open_heap w s U F (dvset s) (topset s) {}" unfolding w by (rule heap_enter [OF h]) blast
  have cA: "(p, z) \<in> U \<union> F \<union> dvset s \<union> topset s \<union> {}" using c(1) by blast
  have ok: "ok_address s p" using open_heapD(8) [OF O UnI1 [OF imageI [OF cA]]] by simp
  have cp: "cinuse s p" "chunksize s p = z" using tags_heap(1,2) [OF O, of "(p, z)"] c(1) by simp_all
  have inuse: "ok_inuse s p" using cinuse_words [OF cp(1)] by (simp add: ok_inuse_def)
  have m0: "chunk2mem p \<noteq> 0"
  proof -
    have "unat (p + 16) = unat p + 16"
      using unat_in_chunk [of p z 16] open_chunk [OF O cA] by (simp add: chunk_geo_def)
    then show ?thesis by (auto simp: chunk2mem_def dl_consts)
  qed
  let ?g = "\<lambda>s tsize. if should_trim s tsize then bindR (sys_trim E s 0) (\<lambda>(s, _). Inr s) else Inr s"
  have df: "dlfree E s (chunk2mem p) =
     andThen (free_backward UsageAbort E s p z (p + z)) (\<lambda>(s, P, Z).
       if ok_next P (p + z) \<and> ok_pinuse s (p + z)
       then andThen (free_forward ?g s P Z (p + z)) (\<lambda>(s, Z). free_bin E s P Z)
       else Inl UsageAbort)"
    using m0 ok inuse cp(2) by (simp add: dlfree_def chunk_plus_offset_def Let_def)
  from free_backward_heap [OF h c w, of UsageAbort E] show ?thesis
  proof (elim disjE exE conjE)
    fix s1
    assume "free_backward UsageAbort E s p z (p + z) = Inr (Return s1)"
      "heap s1 (U - {(p, z)}) F V K" "moves w s s1"
    then show ?thesis by (auto simp: df then_trim_def)
  next
    fix s1 P Z F1
    assume b: "free_backward UsageAbort E s p z (p + z) = Inr (Next (s1, P, Z))" "P + Z = p + z"
      and fr: "freeing w s1 (U - {(p, z)}) F1 (topset s) P Z" and m: "moves w s s1"
    note ok = freeing_checks(2,3) [OF fr w, unfolded b(2)]
    have d: "dlfree E s (chunk2mem p) = andThen (free_forward ?g s1 P Z (P + Z)) (\<lambda>(s, Z). free_bin E s P Z)"
      using b ok by (simp add: df)
    from free_forward_heap [OF fr w V, of ?g] show ?thesis
    proof (elim disjE exE conjE)
      fix s2 F2 assume "free_forward ?g s1 P Z (P + Z) = Inr (Return s2)"
        "heap s2 (U - {(p, z)}) F2 V K" "moves w s1 s2"
      then show ?thesis using moves_trans [OF m] by (auto simp: d then_trim_def)
    next
      fix s2 F2 assume f: "free_forward ?g s1 P Z (P + Z) = bindR (?g s2 (topsize s2)) (\<lambda>s. Inr (Return s))"
        and hm: "heap s2 (U - {(p, z)}) F2 V K" "moves w s1 s2"
      have "dlfree E s (chunk2mem p) = ?g s2 (topsize s2)"
      proof (cases "?g s2 (topsize s2)")
        case (Inl e)
        then show ?thesis by (simp only: d f bindR_simps andThen_simps)
      next
        case (Inr r)
        then show ?thesis by (simp only: d f bindR_simps andThen_simps)
      qed
      then have "then_trim E s2 (dlfree E s (chunk2mem p))" by (simp add: then_trim_def)
      then show ?thesis using hm moves_trans [OF m] by blast
    next
      fix s2 Z2 F2 assume f: "free_forward ?g s1 P Z (P + Z) = Inr (Next (s2, Z2))"
        and bn: "to_bin w s2 (U - {(p, z)}) F2 (topset s) P Z2" and m2: "moves w s1 s2"
      from free_bin_heap [OF bn w V, of E] show ?thesis
        using moves_trans [OF moves_trans [OF m m2]] by (auto simp: d f)
    qed
  qed
qed

end
