(* ===== verification/DL_MallocProps.thy ===== *)
theory DL_MallocProps
  imports DL_FreeProps
begin

text \<open>
  Allocation in src/src/dlmalloc.c: \<open>malloc\<close> keeps the invariant of the heap and returns a chunk
  that was free, is aligned and large enough; it turns to the system only when no free chunk fits.
\<close>

section \<open>The result of an allocation\<close>

definition allocated ::
  "'o state \<Rightarrow> chunk set \<Rightarrow> chunk set \<Rightarrow> addr set \<Rightarrow> addr set \<Rightarrow> size_t \<Rightarrow> 'o state \<times> addr \<Rightarrow> bool"
where
  "allocated s U F V K nb r \<longleftrightarrow> moves (heap_arena s V K (touched s U F V)) s (fst r)
     \<and> (\<exists>p z F'. snd r = chunk2mem p \<and> nb \<le> z \<and> unat z < unat nb + 32 \<and> (p, z) \<notin> U \<and> pinuse (fst r) p
          \<and> own (p, z) \<subseteq> touched s U F V \<and> own (p, z) \<inter> K = {}
          \<and> heap (fst r) (insert (p, z) U) F' V K)"

text \<open>The head of a chunk in use is written with the flag that the chunk before it is in use.\<close>

lemma pinuse_written: "pinuse (set_size_and_pinuse_of_inuse_chunk s p z) p" "pinuse (set_inuse_and_pinuse s p z) p"
proof -
  have "((z OR 1) OR 2) AND 1 = (1 :: size_t)" "(((z OR 1) OR 2) OR 1) AND 1 = (1 :: size_t)"
    by (rule bit_word_eqI, auto simp: bit_simps)+
  then show "pinuse (set_size_and_pinuse_of_inuse_chunk s p z) p" "pinuse (set_inuse_and_pinuse s p z) p"
    by (simp_all add: set_size_and_pinuse_of_inuse_chunk_def set_inuse_and_pinuse_def pinuse_def head_pinuse_def
      head_reads dl_consts Let_def)
qed

text \<open>It stays when a free chunk goes to a bin.\<close>

lemma insert_pinuse:
  assumes O: "open_heap w s U F D T H" and c: "(p, z) \<in> D" "c \<in> U" and i: "insert_chunk s p z = Inr s'"
  shows "pinuse s' (fst c) = pinuse s (fst c)"
proof -
  have "fst c \<in> fst ` (U \<union> F \<union> D \<union> T \<union> H) \<union> fences w" using c(2) by blast
  moreover obtain s1 where "insert_chunk s p z = Inr s1" "\<forall>q\<in>fst ` (U \<union> F \<union> D \<union> T \<union> H) \<union> fences w. same_head s s1 q"
    using insert_open [OF O c(1)] by blast
  ultimately show ?thesis using i pinuse_same(1) by (simp del: Un_iff image_Un) blast
qed

lemma two_diff: "a \<noteq> b \<Longrightarrow> {b, a} - {b} = {a}" "a \<noteq> b \<Longrightarrow> {b, a} - {a} = {b}"
  by blast+

text \<open>The chunk at \<open>p\<close> is a hole and will be handed out.\<close>

definition taking :: "arena \<Rightarrow> chunk set \<Rightarrow> size_t \<Rightarrow> addr \<Rightarrow> size_t \<Rightarrow> bool" where
  "taking w U nb p z \<longleftrightarrow> (p, z) \<notin> U \<and> own (p, z) \<subseteq> reach w \<and> own (p, z) \<inter> kept w = {}
     \<and> nb \<le> z \<and> unat z < unat nb + 32"

lemma hole_taking:
  assumes O: "open_heap w s U F D T H" and c: "(p, z) \<in> H" "nb \<le> z" "unat z < unat nb + 32"
  shows "taking w U nb p z"
proof -
  have "(p, z) \<notin> U" using heap_disjoint(1) [OF O] c(1) by blast
  moreover have "own (p, z) \<subseteq> reach w" using open_heapD(6) [OF O, of "(p, z)"] c(1) by blast
  moreover have "own (p, z) \<inter> kept w = {}" using layoutD(8) [OF open_heapD(3) [OF O], of "(p, z)"] c(1) by blast
  ultimately show ?thesis using c(2,3) by (simp add: taking_def)
qed

lemma allocatedI:
  assumes tk: "taking w U nb p z" and w: "w = heap_arena s V K (touched s U F V)" and m: "moves w s s'"
    and hp: "heap s' (insert (p, z) U) F' V K" and pn: "pinuse s' p"
  shows "allocated s U F V K nb (s', chunk2mem p)"
  using assms unfolding allocated_def taking_def by auto

section \<open>Splitting a chunk\<close>

text \<open>The first part of a hole is handed out, the rest becomes a free chunk.\<close>

lemma split_free:
  assumes O: "open_heap w s U F D T {(p, z)}" and nx: "p + z \<in> fst ` U \<union> fences w" "\<not> pinuse s (p + z)"
    and n: "is_aligned nb" "32 \<le> unat nb" "unat nb + 32 \<le> unat z"
    and s1: "s1 = set_size_and_pinuse_of_inuse_chunk s p nb"
    and s2: "s2 = set_size_and_pinuse_of_free_chunk s1 (p + nb) (z - nb)"
  shows "open_heap w s2 (insert (p, nb) U) F (insert (p + nb, z - nb) D) T {} \<and> moves w s s2 \<and> pinuse s2 p"
proof -
  have cg: "chunk_geo (p, z)" by (rule open_chunk [OF O]) blast
  have n': "16 \<le> unat nb" "unat nb + 16 \<le> unat z" using n by simp_all
  note j = chunk_geo_split [OF cg n(1) n']
  have O1: "open_heap w s U F D T {(p, nb), (p + nb, z - nb)}"
    using split_heap [OF O singletonI n(1) n'] by simp
  have ne: "(p + nb, z - nb) \<noteq> (p, nb)" using n(2) by auto
  have "open_heap w s1 (insert (p, nb) U) F D T ({(p, nb), (p + nb, z - nb)} - {(p, nb)}) \<and> moves w s s1"
    by (rule mark_used [OF O1 _ n(2) _ s1]) simp_all
  moreover note two_diff(1) [OF ne]
  ultimately have O2: "open_heap w s1 (insert (p, nb) U) F D T {(p + nb, z - nb)}" and m1: "moves w s s1"
    by simp_all
  have fe: "p + nb + (z - nb) = p + z" by simp
  have "p + z \<noteq> p" using start_cases(6) [OF open_heapD(3) [OF O] singletonI] by simp
  then have "\<not> pinuse s1 (p + nb + (z - nb))"
    unfolding fe using nx(2) by (simp add: s1 set_size_and_pinuse_of_inuse_chunk_def pinuse_def head_reads)
  moreover have "p + nb + (z - nb) \<in> fst ` insert (p, nb) U \<union> fences w" using nx(1) unfolding fe by auto
  moreover have "32 \<le> unat (z - nb)" using j(5) n(3) by simp
  moreover have "pinuse s2 p"
  proof -
    have "p \<noteq> p + nb" using n(2) by auto
    then have "pinuse s2 p = pinuse s1 p" using aligned_fin [OF cg] cg
      by (simp add: s2 set_size_and_pinuse_of_free_chunk_def pinuse_def head_reads chunk_geo_def)
    then show ?thesis by (simp add: s1 pinuse_written)
  qed
  ultimately show ?thesis
    using mark_free [OF O2 singletonI _ _ _ s2] moves_trans [OF m1] by simp
qed

section \<open>The top chunk and the designated victim\<close>

lemma take_top_heap:
  assumes h: "heap s U F V K" and n: "is_aligned nb" "32 \<le> unat nb" "nb < topsize s"
  shows "allocated s U F V K nb (take_top s nb)"
proof -
  define w where "w = heap_arena s V K (touched s U F V)"
  let ?p = "topp s" and ?z = "topsize s" and ?y = "topsize s - nb"
  have O: "open_heap w s U F (dvset s) (topset s) {}" unfolding w_def by (rule heap_enter [OF h]) blast
  note V = heapD [OF h]
  have p0: "?p \<noteq> 0" using V(2) n(3) by auto
  then have T: "topset s = {(?p, ?z)}" by (simp add: topset_def)
  have O1: "open_heap w s U F (dvset s) {} {(?p, ?z)}" using open_top_heap [OF O, of "(?p, ?z)"] T by simp
  have cg: "chunk_geo (?p, ?z)" by (rule open_chunk [OF O1]) blast
  have lt: "unat nb < unat ?z" using n(3) by (simp add: word_less_nat_alt)
  have "16 dvd unat nb" "16 dvd unat ?z" using n(1) cg by (simp_all add: chunk_geo_def is_aligned_iff)
  then have n': "16 \<le> unat nb" "unat nb + 16 \<le> unat ?z" using n(2) lt by presburger+
  note j = chunk_geo_split [OF cg n(1) n']
  have O2: "open_heap w s U F (dvset s) {} {(?p, nb), (?p + nb, ?y)}"
    using split_heap [OF O1 singletonI n(1) n'] by simp
  have ne: "(?p + nb, ?y) \<noteq> (?p, nb)" using n(2) by auto
  let ?s = "s\<lparr>topsize := ?y, topp := ?p + nb\<rparr>"
  define s1 where "s1 = set_head ?s (?p + nb) (?y OR PINUSE_BIT)"
  define s2 where "s2 = set_size_and_pinuse_of_inuse_chunk s1 ?p nb"
  have O3: "open_heap w ?s U F (dvset s) {} {(?p, nb), (?p + nb, ?y)}"
    by (rule open_heap_fields [OF O2]) simp_all
  have "?p + nb + ?y \<in> ends w - fences w" using V(3) by (simp add: w_def T)
  from mark_top [OF O3 _ this s1_def, unfolded two_diff(2) [OF ne]]
  have O4: "open_heap w s1 U F (dvset s) {(?p + nb, ?y)} {(?p, nb)}" and m1: "moves w ?s s1"
    by simp_all
  have al: "is_aligned ?y" using j(2) by (simp add: chunk_geo_def)
  have pn: "pinuse s1 (?p + nb)" using head_words(5) [OF al] by (simp add: s1_def pinuse_def head_reads dl_consts)
  have tk: "taking w U nb ?p nb" by (rule hole_taking [OF O4]) simp_all
  from mark_used [OF O4 singletonI n(2) disjI2 [OF pn] s2_def]
  have O5: "open_heap w s2 (insert (?p, nb) U) F (dvset s) {(?p + nb, ?y)} {}" and m2: "moves w s1 s2"
    by simp_all
  have f: "dv s2 = dv s" "dvsize s2 = dvsize s" "topp s2 = ?p + nb" "topsize s2 = ?y"
    by (simp_all add: s2_def s1_def tag_writes_fields)
  have r0: "?p + nb \<noteq> 0" using j(2) by (simp add: chunk_geo_def)
  have "heap s2 (insert (?p, nb) U) F V K"
    by (rule heap_leave [OF O5 w_def]) (use V r0 p0 in \<open>simp_all add: f dvset_def topset_def T\<close>)
  moreover have "moves w s ?s" by (rule moves_set(3)) simp
  with m1 m2 have "moves w s s2" using moves_trans by blast
  ultimately have "allocated s U F V K nb (s2, chunk2mem ?p)" by (intro allocatedI [OF tk w_def]) (simp_all add: s2_def pinuse_written)
  moreover have "take_top s nb = (s2, chunk2mem ?p)"
    by (simp add: take_top_def Let_def chunk_plus_offset_def s2_def s1_def)
  ultimately show ?thesis by simp
qed

lemma take_dv_heap:
  assumes h: "heap s U F V K" and n: "is_aligned nb" "32 \<le> unat nb" "nb \<le> dvsize s"
  shows "allocated s U F V K nb (take_dv s nb)"
proof -
  define w where "w = heap_arena s V K (touched s U F V)"
  let ?p = "dv s" and ?z = "dvsize s" and ?y = "dvsize s - nb"
  have O: "open_heap w s U F (dvset s) (topset s) {}" unfolding w_def by (rule heap_enter [OF h]) blast
  note V = heapD [OF h]
  have p0: "?p \<noteq> 0" using V(1) n(2,3) by (auto simp: word_le_nat_alt)
  then have D: "dvset s = {(?p, ?z)}" by (simp add: dvset_def)
  have ew: "ends w = fences w \<union> fin ` topset s" by (simp add: w_def)
  have nx: "?p + ?z \<in> fst ` U \<union> fences w" "\<not> pinuse s (?p + ?z)"
    using free_next [OF O, of "(?p, ?z)"] ew by (simp_all add: D)
  have O1: "open_heap w s U F {} (topset s) {(?p, ?z)}" using open_dv_heap [OF O, of "(?p, ?z)"] D by simp
  have cg: "chunk_geo (?p, ?z)" by (rule open_chunk [OF O1]) blast
  have le: "unat nb \<le> unat ?z" using n(3) by (simp add: word_le_nat_alt)
  have uy: "unat ?y = unat ?z - unat nb" using le by (simp add: unat_sub word_le_nat_alt)
  show ?thesis
  proof (cases "MIN_CHUNK_SIZE \<le> ?y")
    case True
    then have zy: "32 \<le> unat ?y" by (simp add: dl_consts word_le_nat_alt)
    then have n': "16 \<le> unat nb" "unat nb + 16 \<le> unat ?z" using n(2) uy by simp_all
    note j = chunk_geo_split [OF cg n(1) n']
    have O2: "open_heap w s U F {} (topset s) {(?p, nb), (?p + nb, ?y)}"
      using split_heap [OF O1 singletonI n(1) n'] by simp
    have ne: "(?p + nb, ?y) \<noteq> (?p, nb)" using n(2) by auto
    let ?s = "s\<lparr>dv := ?p + nb, dvsize := ?y\<rparr>"
    define s1 where "s1 = set_size_and_pinuse_of_free_chunk ?s (?p + nb) ?y"
    define s2 where "s2 = set_size_and_pinuse_of_inuse_chunk s1 ?p nb"
    have O3: "open_heap w ?s U F {} (topset s) {(?p, nb), (?p + nb, ?y)}"
      by (rule open_heap_fields [OF O2]) simp_all
    have fe: "?p + nb + ?y = ?p + ?z" by simp
    have nn: "\<not> pinuse ?s (?p + nb + ?y)" unfolding fe using nx(2) by (simp add: pinuse_def head_def rd_def)
    from mark_free [OF O3 _ zy _ nn s1_def, unfolded two_diff(2) [OF ne]]
    have O4: "open_heap w s1 U F {(?p + nb, ?y)} (topset s) {(?p, nb)}" and m1: "moves w ?s s1"
      using nx(1) by simp_all
    have al: "is_aligned ?y" "is_aligned (?p + nb)" "is_aligned (?p + nb + ?y)"
      using j(2) aligned_fin [OF j(2)] by (simp_all add: chunk_geo_def)
    have pn: "pinuse s1 (?p + nb)"
      using head_words(5) [OF al(1)] al
      by (simp add: s1_def set_size_and_pinuse_of_free_chunk_def pinuse_def head_reads dl_consts)
    have tk: "taking w U nb ?p nb" by (rule hole_taking [OF O4]) simp_all
    from mark_used [OF O4 singletonI n(2) disjI2 [OF pn] s2_def]
    have O5: "open_heap w s2 (insert (?p, nb) U) F {(?p + nb, ?y)} (topset s) {}" and m2: "moves w s1 s2"
      by simp_all
    have f: "dv s2 = ?p + nb" "dvsize s2 = ?y" "topp s2 = topp s" "topsize s2 = topsize s"
      by (simp_all add: s2_def s1_def tag_writes_fields)
    have r0: "?p + nb \<noteq> 0" using j(2) by (simp add: chunk_geo_def)
    have ts: "topset s2 = topset s" by (simp add: topset_def f)
    have "heap s2 (insert (?p, nb) U) F V K"
      by (rule heap_leave [OF O5 w_def _ ts refl]) (use V r0 in \<open>simp_all add: f dvset_def\<close>)
    moreover have "moves w s s2" by (rule moves_trans [OF moves_trans [OF moves_set(4) m1] m2])
    ultimately have "allocated s U F V K nb (s2, chunk2mem ?p)" by (intro allocatedI [OF tk w_def]) (simp_all add: s2_def pinuse_written)
    moreover have "take_dv s nb = (s2, chunk2mem ?p)"
      using True by (simp add: take_dv_def Let_def chunk_plus_offset_def s2_def s1_def)
    ultimately show ?thesis by simp
  next
    case False
    then have lt: "unat ?z < unat nb + 32" using uy by (simp add: dl_consts word_le_nat_alt)
    let ?s = "s\<lparr>dvsize := 0, dv := 0\<rparr>"
    define s1 where "s1 = set_inuse_and_pinuse ?s ?p ?z"
    have O3: "open_heap w ?s U F {} (topset s) {(?p, ?z)}" by (rule open_heap_fields [OF O1]) simp_all
    have tk: "taking w U nb ?p ?z" by (rule hole_taking [OF O3 _ n(3) lt]) simp
    have "32 \<le> unat ?z" using n(2) le by simp
    from mark_used_next [OF O3 singletonI this nx(1) s1_def]
    have O4: "open_heap w s1 (insert (?p, ?z) U) F {} (topset s) {}" and m1: "moves w ?s s1" by simp_all
    have f: "dv s1 = 0" "dvsize s1 = 0" "topp s1 = topp s" "topsize s1 = topsize s"
      by (simp_all add: s1_def tag_writes_fields)
    have ts: "topset s1 = topset s" by (simp add: topset_def f)
    have "heap s1 (insert (?p, ?z) U) F V K"
      by (rule heap_leave [OF O4 w_def _ ts refl]) (use V in \<open>simp_all add: f dvset_def\<close>)
    moreover have "moves w s s1" by (rule moves_trans [OF moves_set(2) m1])
    ultimately have "allocated s U F V K nb (s1, chunk2mem ?p)" by (intro allocatedI [OF tk w_def]) (simp_all add: s1_def pinuse_written)
    moreover have "take_dv s nb = (s1, chunk2mem ?p)"
      using False by (simp add: take_dv_def Let_def s1_def)
    ultimately show ?thesis by simp
  qed
qed

section \<open>Chunks from the bins\<close>

text \<open>The first chunk of a marked small bin.\<close>

lemma first_of_bin:
  assumes O: "open_heap w s U F D T H" and i: "i < 32" "bit (smallmap s) i"
  shows "\<exists>p z. fd s (smallbin_at s (of_nat i)) = p \<and> (p, z) \<in> F \<and> unat z = 8 * i
    \<and> small_index2size (of_nat i) = z
    \<and> unlink_first_small_chunk s (smallbin_at s (of_nat i)) p (of_nat i) = unlink_chunk s p z"
proof -
  obtain L T' where ok: "free_ok s L T' F" using open_heapD(1) [OF O] by (auto simp: free_rep_def)
  note S = free_okD(1,3) [OF ok]
  have sb: "smallbins_ok s L" using S(1) by (simp add: small_store_def)
  have "L i \<noteq> []" using smallbins_okD(2) [OF sb i(1)] i(2) by blast
  then obtain p ys where L: "L i = p # ys" by (cases "L i") auto
  then have fd: "fd s (smallbin_at s (of_nat i)) = p"
    using linked_fd_first [OF smallbins_okD(6) [OF sb i(1)]] by simp
  let ?z = "chunksize s p"
  have z: "is_small ?z" "unat ?z div 8 = i" using S(1) i(1) L by (auto simp: small_store_def)
  have "p \<in> small_chunks L" using i(1) L by (auto simp: small_chunks_def intro!: bexI [of _ i])
  then have F: "(p, ?z) \<in> F" using S(2) by (simp add: small_entries_def)
  then have "16 dvd unat ?z" using open_chunk [OF O, of "(p, ?z)"] by (simp add: chunk_geo_def is_aligned_iff)
  then have u: "unat ?z = 8 * i" using z(2) by presburger
  have sz: "small_index2size (of_nat i) = ?z"
  proof -
    have i': "unat (of_nat i :: u32) = i" using i(1) by (simp add: unat_of_nat)
    have "unat (push_bit 3 (of_nat i :: u32)) = i * 2 ^ 3"
      by (subst unat_push) (use i(1) i' in simp_all)
    then have "unat (small_index2size (of_nat i)) = 8 * i"
      using i(1) by (simp add: small_index2size_def dl_consts unat_ucast)
    then show ?thesis using u by (metis word_unat_eq_iff)
  qed
  have "small_index ?z = of_nat i" using small_index_of_nat [OF z(1)] z(2) by simp
  with unlink_first_list [OF sb i(1) L]
  have "unlink_first_small_chunk s (smallbin_at s (of_nat i)) p (of_nat i) = unlink_small_chunk s p ?z" by auto
  then have "unlink_first_small_chunk s (smallbin_at s (of_nat i)) p (of_nat i) = unlink_chunk s p ?z"
    using z(1) by (simp add: unlink_chunk_def)
  then show ?thesis using fd F u sz by blast
qed

text \<open>A chunk of the bins is taken as a whole.\<close>

lemma take_whole:
  assumes h: "heap s U F V K" and w: "w = heap_arena s V K (touched s U F V)"
    and c: "(p, z) \<in> F" "nb \<le> z" "unat z < unat nb + 32"
  shows "\<exists>s1. unlink_chunk s p z = Inr s1 \<and> dvsize s1 = dvsize s
    \<and> allocated s U F V K nb (set_inuse_and_pinuse s1 p z, chunk2mem p)"
proof -
  have O: "open_heap w s U F (dvset s) (topset s) {}" unfolding w by (rule heap_enter [OF h]) blast
  note V = heapD [OF h]
  obtain s1 where s1: "unlink_chunk s p z = Inr s1" "open_heap w s1 U (F - {(p, z)}) (dvset s) (topset s) {(p, z)}"
    "changes_bins (reach w) s s1" using unlink_open [OF O c(1)] by blast
  note k = bins_sets [OF s1(3)]
  have nx: "p + z \<in> fst ` U \<union> fences w" using free_next(1) [OF O, of "(p, z)"] c(1) by (simp add: w)
  have z: "32 \<le> unat z" using size_large [OF O, of "(p, z)"] c(1) by simp
  from mark_used_next [OF s1(2) singletonI z nx refl]
  have r: "open_heap w (set_inuse_and_pinuse s1 p z) (insert (p, z) U) (F - {(p, z)}) (dvset s) (topset s) {}"
    "moves w s1 (set_inuse_and_pinuse s1 p z)" by simp_all
  have tk: "taking w U nb p z" by (rule hole_taking [OF s1(2) singletonI c(2,3)])
  have "heap (set_inuse_and_pinuse s1 p z) (insert (p, z) U) (F - {(p, z)}) V K"
    by (rule heap_leave [OF r(1) w])
      (use V in \<open>simp_all add: tag_writes_sets tag_writes_fields k\<close>)
  then have "allocated s U F V K nb (set_inuse_and_pinuse s1 p z, chunk2mem p)"
    using moves_trans [OF moves_bins [OF s1(3) subset_refl] r(2)] by (intro allocatedI [OF tk w]) (simp_all add: pinuse_written)
  then show ?thesis using s1(1) k by blast
qed

text \<open>A chunk of the bins is split; what is done with the rest is up to the caller.\<close>

lemma take_split:
  assumes h: "heap s U F V K" and w: "w = heap_arena s V K (touched s U F V)"
    and c: "(p, z) \<in> F" and n: "is_aligned nb" "32 \<le> unat nb" "unat nb + 32 \<le> unat z"
  shows "\<exists>s1 s2. unlink_chunk s p z = Inr s1
    \<and> s2 = set_size_and_pinuse_of_free_chunk (set_size_and_pinuse_of_inuse_chunk s1 p nb) (p + nb) (z - nb)
    \<and> open_heap w s2 (insert (p, nb) U) (F - {(p, z)}) (insert (p + nb, z - nb) (dvset s2)) (topset s) {}
    \<and> p + nb \<noteq> dv s2 \<and> dvsize s2 = dvsize s \<and> zero_fields s2 \<and> topset s2 = topset s \<and> moves w s s2
    \<and> taking w U nb p nb \<and> pinuse s2 p"
proof -
  have O: "open_heap w s U F (dvset s) (topset s) {}" unfolding w by (rule heap_enter [OF h]) blast
  note V = heapD [OF h]
  obtain s1 where s1: "unlink_chunk s p z = Inr s1" "open_heap w s1 U (F - {(p, z)}) (dvset s) (topset s) {(p, z)}"
    "changes_bins (reach w) s s1" "\<forall>q\<in>fst ` (U \<union> F \<union> dvset s \<union> topset s \<union> {}) \<union> fences w. same_head s s1 q"
    using unlink_open [OF O c(1)] by blast
  note k = bins_sets [OF s1(3)]
  have nx: "p + z \<in> fst ` U \<union> fences w" "\<not> pinuse s (p + z)" using free_next [OF O, of "(p, z)"] c(1) by (simp_all add: w)
  have "p + z \<in> fst ` (U \<union> F \<union> dvset s \<union> topset s \<union> {}) \<union> fences w" using nx(1) by (simp only: image_Un) blast
  then have pn: "\<not> pinuse s1 (p + z)" using s1(4) nx(2) pinuse_same(1) by blast
  let ?s2 = "set_size_and_pinuse_of_free_chunk (set_size_and_pinuse_of_inuse_chunk s1 p nb) (p + nb) (z - nb)"
  from split_free [OF s1(2) nx(1) pn n refl refl]
  have r: "open_heap w ?s2 (insert (p, nb) U) (F - {(p, z)}) (insert (p + nb, z - nb) (dvset s)) (topset s) {}" "moves w s1 ?s2" "pinuse ?s2 p"
    by simp_all
  have d: "dvset ?s2 = dvset s" "topset ?s2 = topset s" "zero_fields ?s2 = zero_fields s" "dv ?s2 = dv s" "dvsize ?s2 = dvsize s"
    by (simp_all add: tag_writes_sets tag_writes_fields k)
  have z0: "zero_fields s" using V by (simp add: zero_fields_def)
  have cg: "chunk_geo (p, z)" by (rule open_chunk [OF s1(2)]) blast
  have n': "16 \<le> unat nb" "unat nb + 16 \<le> unat z" using n by simp_all
  note j = chunk_geo_split [OF cg n(1) n']
  have O2: "open_heap w s1 U (F - {(p, z)}) (dvset s) (topset s) {(p, nb), (p + nb, z - nb)}"
    using split_heap [OF s1(2) singletonI n(1) n'] by simp
  have tk: "taking w U nb p nb" by (rule hole_taking [OF O2]) simp_all
  have ndv: "p + nb \<noteq> dv s"
  proof
    assume e: "p + nb = dv s"
    then have m: "(dv s, dvsize s) \<in> dvset s" using j(2) by (simp add: dvset_def chunk_geo_def)
    have "(p + nb, z - nb) = (dv s, dvsize s)"
      by (rule heap_inj(1) [OF O2]) (use m e in auto)
    then have "(p + nb, z - nb) \<in> dvset s" using m by simp
    then show False using heap_disjoint(2) [OF O2] by blast
  qed
  show ?thesis
    using s1(1) r d z0 tk ndv moves_trans [OF moves_bins [OF s1(3) subset_refl] r(2)] by auto
qed

text \<open>\<open>replace_dv\<close>: the old victim goes to a small bin, the rest of the split becomes the victim.\<close>

lemma replace_dv_heap:
  fixes s s0 :: "'o state"
  assumes O: "open_heap w s U F (insert (r, y) (dvset s)) (topset s0) {}" and w: "w = heap_arena s0 V K X"
    and r: "r \<noteq> dv s" and z0: "zero_fields s" and t: "topset s = topset s0" and V: "V \<inter> fin ` topset s0 = {}"
    and sm: "is_small (dvsize s)"
  shows "\<exists>s' F'. replace_dv s r y = Inr s' \<and> heap s' U F' V K \<and> moves w s s' \<and> (\<forall>c\<in>U. pinuse s' (fst c) = pinuse s (fst c))"
proof -
  have r0: "r \<noteq> 0" using open_chunk [OF O, of "(r, y)"] by (simp add: chunk_geo_def)
  have ts: "topset (s'\<lparr>dvsize := y, dv := r\<rparr>) = topset s'" "pinuse (s'\<lparr>dvsize := y, dv := r\<rparr>) q = pinuse s' q" for s' :: "'o state" and q
    by (simp_all add: topset_def pinuse_def head_def rd_def)
  have final: "heap (s'\<lparr>dvsize := y, dv := r\<rparr>) U F' V K"
    if "open_heap w s' U F' {(r, y)} (topset s0) {}" "topset s' = topset s0" "zero_fields s'" for s' :: "'o state" and F'
  proof -
    have O': "open_heap w (s'\<lparr>dvsize := y, dv := r\<rparr>) U F' {(r, y)} (topset s0) {}"
      by (rule open_heap_fields [OF that(1)]) simp_all
    show ?thesis
      by (rule heap_leave [OF O' w _ trans [OF ts(1) that(2)] refl])
        (use r0 that(3) V in \<open>simp_all add: dvset_def zero_fields_def\<close>)
  qed
  show ?thesis
  proof (cases "dvsize s = 0")
    case True
    have "dv s = 0"
    proof (rule ccontr)
      assume "dv s \<noteq> 0"
      then have "(dv s, dvsize s) \<in> dvset s" by (simp add: dvset_def)
      then show False using size_large [OF O, of "(dv s, dvsize s)"] True by simp
    qed
    then have "open_heap w s U F {(r, y)} (topset s0) {}" using O by (simp add: dvset_def)
    from final [OF this t z0] moves_set(2) [of w s r y] show ?thesis
      using True by (auto simp: replace_dv_def ts(2))
  next
    case False
    then have dv0: "dv s \<noteq> 0" using z0 by (auto simp: zero_fields_def)
    then have D: "dvset s = {(dv s, dvsize s)}" by (simp add: dvset_def)
    obtain s' where s': "insert_chunk s (dv s) (dvsize s) = Inr s'"
      "open_heap w s' U (insert (dv s, dvsize s) F) (insert (r, y) (dvset s) - {(dv s, dvsize s)}) (topset s0) {}"
      "changes_bins (reach w) s s'" using insert_open [OF O, of "dv s" "dvsize s"] D by auto
    note k = bins_sets [OF s'(3)]
    have e: "insert (r, y) (dvset s) - {(dv s, dvsize s)} = {(r, y)}" using r D by auto
    have pn: "pinuse s' (fst c) = pinuse s (fst c)" if "c \<in> U" for c
      by (rule insert_pinuse [OF O _ that s'(1)]) (simp add: D)
    have "replace_dv s r y = Inr (s'\<lparr>dvsize := y, dv := r\<rparr>)"
      using False s'(1) sm by (simp add: replace_dv_def insert_chunk_def)
    then show ?thesis
      using final [OF s'(2) [unfolded e]] k t z0 moves_trans [OF moves_bins [OF s'(3) subset_refl] moves_set(2)] pn
      by (auto simp: ts(2))
  qed
qed

text \<open>The rest of a small split becomes the victim.\<close>

lemma split_to_dv:
  assumes h: "heap s U F V K" and w: "w = heap_arena s V K (touched s U F V)"
    and c: "(p, z) \<in> F" and n: "is_aligned nb" "32 \<le> unat nb" "unat nb + 32 \<le> unat z" and sm: "is_small (dvsize s)"
  shows "\<exists>s1 s3. unlink_chunk s p z = Inr s1
    \<and> replace_dv (set_size_and_pinuse_of_free_chunk (set_size_and_pinuse_of_inuse_chunk s1 p nb) (p + nb) (z - nb))
        (p + nb) (z - nb) = Inr s3
    \<and> allocated s U F V K nb (s3, chunk2mem p)"
proof -
  from take_split [OF h w c n] obtain s1 s2 where s1: "unlink_chunk s p z = Inr s1"
    and s2: "s2 = set_size_and_pinuse_of_free_chunk (set_size_and_pinuse_of_inuse_chunk s1 p nb) (p + nb) (z - nb)"
    and O: "open_heap w s2 (insert (p, nb) U) (F - {(p, z)}) (insert (p + nb, z - nb) (dvset s2)) (topset s) {}"
    and r: "p + nb \<noteq> dv s2" "dvsize s2 = dvsize s" "zero_fields s2" "topset s2 = topset s" "moves w s s2" "taking w U nb p nb"
      "pinuse s2 p" by blast
  from replace_dv_heap [OF O w r(1,3,4) heapD(3) [OF h]] sm r(2)
  obtain s3 F3 where s3: "replace_dv s2 (p + nb) (z - nb) = Inr s3" "heap s3 (insert (p, nb) U) F3 V K" "moves w s2 s3"
      "pinuse s3 p = pinuse s2 p" by auto
  have "allocated s U F V K nb (s3, chunk2mem p)"
    by (rule allocatedI [OF r(6) w moves_trans [OF r(5) s3(3)] s3(2)]) (use s3(4) r(7) in blast)
  then show ?thesis using s1 s3(1) s2 by auto
qed

lemma take_small_exact_heap:
  assumes h: "heap s U F V K" and i: "i < 32" "bit (smallmap s) i"
    and n: "unat nb \<le> 8 * i" "8 * i < unat nb + 32"
  shows "\<exists>r. take_small_exact s (of_nat i) = Inr r \<and> allocated s U F V K nb r"
proof -
  have O: "open_heap (heap_arena s V K (touched s U F V)) s U F (dvset s) (topset s) {}"
    by (rule heap_enter [OF h]) blast
  from first_of_bin [OF O i] obtain p z where p: "fd s (smallbin_at s (of_nat i)) = p" "(p, z) \<in> F" "unat z = 8 * i"
    "small_index2size (of_nat i) = z"
    "unlink_first_small_chunk s (smallbin_at s (of_nat i)) p (of_nat i) = unlink_chunk s p z" by blast
  have "nb \<le> z" "unat z < unat nb + 32" using n p(3) by (simp_all add: word_le_nat_alt)
  from take_whole [OF h refl p(2) this] p show ?thesis by (auto simp: take_small_exact_def)
qed

lemma take_small_split_heap:
  assumes h: "heap s U F V K" and nb: "is_aligned nb" "32 \<le> unat nb" "unat nb < 256" and dv: "dvsize s < nb"
    and sb: "drop_bit (unat nb div 8) (smallmap s) \<noteq> 0" "drop_bit (unat nb div 8) (smallmap s) AND 3 = 0"
  shows "\<exists>r. take_small_split s nb (of_nat (unat nb div 8)) (drop_bit (unat nb div 8) (smallmap s)) = Inr r
    \<and> allocated s U F V K nb r"
proof -
  let ?n = "unat nb div 8" let ?idx = "of_nat ?n :: u32"
  define x where "x = push_bit ?n (drop_bit ?n (smallmap s)) AND left_bits (idx2bit ?idx)"
  have n32: "?n < 32" using nb(3) by linarith
  have ui: "unat ?idx = ?n" using n32 by (simp add: unat_of_nat)
  have bx: "bit x j \<longleftrightarrow> ?n < j \<and> j < 32 \<and> bit (smallmap s) j" for j
    using left_bits_idx2bit [of ?idx j] n32
    by (auto simp: x_def bit_and_iff ui bit_push_bit_iff bit_drop_bit_eq)
  have low: "\<not> bit (smallmap s) ?n" "\<not> bit (smallmap s) (?n + 1)"
  proof -
    have "bit (drop_bit ?n (smallmap s) AND 3) 0 = bit (smallmap s) ?n"
      "bit (drop_bit ?n (smallmap s) AND 3) 1 = bit (smallmap s) (?n + 1)"
      by (simp_all add: bit_and_iff low_masks bit_mask_iff bit_drop_bit_eq)
    then show "\<not> bit (smallmap s) ?n" "\<not> bit (smallmap s) (?n + 1)" using sb(2) by simp_all
  qed
  have x0: "x \<noteq> 0"
  proof -
    obtain j where j: "bit (drop_bit ?n (smallmap s)) j" using word_bit_exists [OF sb(1)] by blast
    then have b: "bit (smallmap s) (?n + j)" by (simp add: bit_drop_bit_eq)
    then have "j \<noteq> 0" using low(1) by (cases j) auto
    then have "bit x (?n + j)" using b bit_imp_le_length [OF b] by (simp add: bx)
    then show ?thesis by auto
  qed
  obtain i where i: "i < 32" "compute_bit2idx (least_bit x) = of_nat i" "bit x i"
    by (rule bit2idx_least [OF x0]) blast
  have im: "bit (smallmap s) i" "?n < i" using i(3) by (simp_all add: bx)
  then have "i \<noteq> ?n + 1" using low(2) by auto
  then have i2: "?n + 2 \<le> i" using im(2) by linarith
  have n8: "unat nb = 8 * ?n" using nb(1) by (simp add: is_aligned_iff) presburger
  have O: "open_heap (heap_arena s V K (touched s U F V)) s U F (dvset s) (topset s) {}"
    by (rule heap_enter [OF h]) blast
  from first_of_bin [OF O i(1) im(1)] obtain p z where p: "fd s (smallbin_at s (of_nat i)) = p" "(p, z) \<in> F" "unat z = 8 * i"
    "small_index2size (of_nat i) = z"
    "unlink_first_small_chunk s (smallbin_at s (of_nat i)) p (of_nat i) = unlink_chunk s p z" by blast
  have le: "unat nb + 16 \<le> unat z" using n8 i2 p(3) by linarith
  have uz: "unat (z - nb) = unat z - unat nb" using le by (simp add: unat_sub word_le_nat_alt)
  have ts: "take_small_split s nb ?idx (drop_bit ?n (smallmap s)) = bindR (unlink_chunk s p z) (\<lambda>s.
     bindR (if z - nb < MIN_CHUNK_SIZE then Inr (set_inuse_and_pinuse s p z)
            else replace_dv (set_size_and_pinuse_of_free_chunk (set_size_and_pinuse_of_inuse_chunk s p nb) (p + nb) (z - nb)) (p + nb) (z - nb))
       (\<lambda>s. Inr (s, chunk2mem p)))"
    unfolding take_small_split_def ui Let_def x_def [symmetric] i(2) p(1,4,5)
    by (simp add: chunk_plus_offset_def dl_consts cong: if_cong)
  show ?thesis
  proof (cases "z - nb < MIN_CHUNK_SIZE")
    case True
    then have "nb \<le> z" "unat z < unat nb + 32" using uz le by (simp_all add: dl_consts word_less_nat_alt word_le_nat_alt)
    from take_whole [OF h refl p(2) this] True show ?thesis by (auto simp: ts)
  next
    case False
    then have "unat nb + 32 \<le> unat z" using uz le by (simp add: dl_consts word_less_nat_alt)
    moreover have "is_small (dvsize s)" using dv nb(3) by (simp add: is_small_iff word_less_nat_alt)
    ultimately show ?thesis using split_to_dv [OF h refl p(2) nb(1,2)] False by (auto simp: ts)
  qed
qed

section \<open>Chunks from the tree bins\<close>

lemma chunk2mem_nonzero: "chunk_geo c \<Longrightarrow> chunk2mem (fst c) \<noteq> 0"
  using unat_in_chunk [of "fst c" "snd c" 16] by (auto simp: chunk_geo_def chunk2mem_def dl_consts)

lemma allocated_nonzero: "allocated s U F V K nb r \<Longrightarrow> snd r \<noteq> 0"
proof -
  assume "allocated s U F V K nb r"
  then obtain p z F' where p: "snd r = chunk2mem p" "heap (fst r) (insert (p, z) U) F' V K"
    by (auto simp: allocated_def)
  from open_chunk [OF heap_enter [OF p(2) subset_refl], of "(p, z)"] show ?thesis
    using chunk2mem_nonzero [of "(p, z)"] p(1) by simp
qed

lemma trees_of_heap:
  assumes O: "open_heap w s U F D T H"
  obtains T' where "treebins_ok s T'" "tree_entries T' \<subseteq> F" "\<And>p y. (p, y) \<in> F \<Longrightarrow> (p, y) \<notin> tree_entries T' \<Longrightarrow> is_small y"
    "\<And>p y. (p, y) \<in> tree_entries T' \<Longrightarrow> \<not> is_small y \<and> ok_address s p"
proof -
  obtain L T' where ok: "free_ok s L T' F" using open_heapD(1) [OF O] by (auto simp: free_rep_def)
  note D = free_okD [OF ok]
  show thesis
  proof (rule that [OF D(2)])
    show "tree_entries T' \<subseteq> F" using D(3) by blast
    show "is_small y" if "(p, y) \<in> F" "(p, y) \<notin> tree_entries T'" for p y
      using small_entry_small [OF D(1), of "(p, y)"] D(3) that by auto
    show "\<not> is_small y \<and> ok_address s p" if "(p, y) \<in> tree_entries T'" for p y
      using tree_entry_ok [OF D(2) that] by (simp add: tchunk_ok_def)
  qed
qed

lemma next_in_chunk:
  assumes "chunk_geo (p, z)" "32 \<le> unat nb" "unat nb \<le> unat z"
  shows "ok_next p (p + nb)"
  using unat_in_chunk [OF assms(1), of nb] assms(2,3) by (simp add: ok_next_def word_less_nat_alt)

lemma tmalloc_small_heap:
  assumes h: "heap s U F V K" and nb: "is_aligned nb" "32 \<le> unat nb" "unat nb < 256" and dv: "dvsize s < nb"
    and tm: "treemap s \<noteq> 0"
  shows "\<exists>r. tmalloc_small s nb = Inr r \<and> allocated s U F V K nb r"
proof -
  have O: "open_heap (heap_arena s V K (touched s U F V)) s U F (dvset s) (topset s) {}"
    by (rule heap_enter [OF h]) blast
  obtain T' where T: "treebins_ok s T'" "tree_entries T' \<subseteq> F"
    "\<And>p y. (p, y) \<in> F \<Longrightarrow> (p, y) \<notin> tree_entries T' \<Longrightarrow> is_small y"
    "\<And>p y. (p, y) \<in> tree_entries T' \<Longrightarrow> \<not> is_small y \<and> ok_address s p" by (rule trees_of_heap [OF O]) blast
  from tmalloc_small_search_tree [OF T(1) tm nb(3)] obtain p z
    where v: "tmalloc_small_search s nb = Some (p, z - nb)" "(p, z) \<in> tree_entries T'" by blast
  have F: "(p, z) \<in> F" using v(2) T(2) by blast
  have z: "\<not> is_small z" "ok_address s p" using T(4) [OF v(2)] by blast+
  then have z256: "256 \<le> unat z" by (simp add: is_small_iff)
  have cg: "chunk_geo (p, z)" by (rule open_chunk [OF O]) (use F in blast)
  have n: "ok_next p (p + nb)" by (rule next_in_chunk [OF cg nb(2)]) (use nb(3) z256 in simp)
  have uz: "unat (z - nb) = unat z - unat nb" using nb(3) z256 by (simp add: unat_sub word_le_nat_alt)
  have ts: "tmalloc_small s nb = bindR (unlink_chunk s p z) (\<lambda>s.
     bindR (if z - nb < MIN_CHUNK_SIZE then Inr (set_inuse_and_pinuse s p z)
            else replace_dv (set_size_and_pinuse_of_free_chunk (set_size_and_pinuse_of_inuse_chunk s p nb) (p + nb) (z - nb)) (p + nb) (z - nb))
       (\<lambda>s. Inr (s, chunk2mem p)))"
    using v(1) z n by (simp add: tmalloc_small_def chunk_plus_offset_def unlink_chunk_def Let_def cong: if_cong)
  show ?thesis
  proof (cases "z - nb < MIN_CHUNK_SIZE")
    case True
    then have "nb \<le> z" "unat z < unat nb + 32"
      using uz nb(3) z256 by (simp_all add: dl_consts word_less_nat_alt word_le_nat_alt)
    from take_whole [OF h refl F this] True show ?thesis by (auto simp: ts)
  next
    case False
    then have "unat nb + 32 \<le> unat z" using uz nb(3) z256 by (simp add: dl_consts word_less_nat_alt)
    moreover have "is_small (dvsize s)" using dv nb(3) by (simp add: is_small_iff word_less_nat_alt)
    ultimately show ?thesis using split_to_dv [OF h refl F nb(1,2)] False by (auto simp: ts)
  qed
qed

lemma tmalloc_large_heap:
  assumes h: "heap s U F V K" and nb: "is_aligned nb" "256 \<le> unat nb" "unat nb < 2 ^ 40"
  shows "(\<exists>r. tmalloc_large s nb = Inr r \<and> allocated s U F V K nb r)
    \<or> tmalloc_large s nb = Inr (s, 0) \<and> (nb \<le> dvsize s \<or> (\<forall>(p, y)\<in>F. y < nb))"
proof -
  have O: "open_heap (heap_arena s V K (touched s U F V)) s U F (dvset s) (topset s) {}"
    by (rule heap_enter [OF h]) blast
  have n32: "32 \<le> unat nb" using nb(2) by simp
  obtain T' where T: "treebins_ok s T'" "tree_entries T' \<subseteq> F"
    "\<And>p y. (p, y) \<in> F \<Longrightarrow> (p, y) \<notin> tree_entries T' \<Longrightarrow> is_small y"
    "\<And>p y. (p, y) \<in> tree_entries T' \<Longrightarrow> \<not> is_small y \<and> ok_address s p" by (rule trees_of_heap [OF O]) blast
  from tmalloc_large_search_tree [OF T(1) nb(2,3)] obtain vr where
    vr: "tmalloc_large_search s nb = Some vr" "best_fit nb (tree_entries T') vr" by blast
  obtain p r where v: "vr = (p, r)" by (cases vr)
  show ?thesis
  proof (cases "fits nb (tree_entries T') = {}")
    case True
    then have "p = 0" using vr(2) by (simp add: v best_fit_def)
    then have "tmalloc_large s nb = Inr (s, 0)" using vr(1) v by (simp add: tmalloc_large_def)
    moreover have "y < nb" if "(q, y) \<in> F" for q y
    proof (cases "(q, y) \<in> tree_entries T'")
      case t: True
      then show ?thesis using True by (auto simp: fits_def not_le)
    next
      case False
      then have "unat y < 256" using T(3) [OF that] by (simp add: is_small_iff)
      then show ?thesis using nb(2) by (simp add: word_less_nat_alt)
    qed
    ultimately show ?thesis by blast
  next
    case False
    then obtain z where z: "(p, z) \<in> tree_entries T'" "nb \<le> z" "r = z - nb"
      using vr(2) by (auto simp: v best_fit_def)
    have F: "(p, z) \<in> F" using z(1) T(2) by blast
    have big: "\<not> is_small z" "ok_address s p" using T(4) [OF z(1)] by blast+
    have cg: "chunk_geo (p, z)" by (rule open_chunk [OF O]) (use F in blast)
    have le: "unat nb \<le> unat z" using z(2) by (simp add: word_le_nat_alt)
    have n: "ok_next p (p + nb)" by (rule next_in_chunk [OF cg n32 le])
    have p0: "p \<noteq> 0" using cg by (simp add: chunk_geo_def)
    have uz: "unat (z - nb) = unat z - unat nb" using le by (simp add: unat_sub word_le_nat_alt)
    show ?thesis
    proof (cases "r < dvsize s - nb")
      case False
      have "nb \<le> dvsize s"
      proof (rule ccontr)
        assume a: "\<not> nb \<le> dvsize s"
        then have "unat (dvsize s) < unat nb" by (simp add: word_le_nat_alt)
        then have "unat (dvsize s - nb) = 2 ^ 64 + unat (dvsize s) - unat nb"
          by (simp add: unat_sub_if')
        moreover have "unat z < 2 ^ 40" using geo_size [OF open_geo [OF O], of "(p, z)"] F by simp
        ultimately have "unat r < unat (dvsize s - nb)" using uz nb(3) z(3) by simp
        then show False using False by (simp add: word_less_nat_alt)
      qed
      moreover have "tmalloc_large s nb = Inr (s, 0)" using vr(1) v False by (simp add: tmalloc_large_def)
      ultimately show ?thesis by blast
    next
      case True
      have ts: "tmalloc_large s nb = bindR (unlink_chunk s p z) (\<lambda>s.
         bindR (if z - nb < MIN_CHUNK_SIZE then Inr (set_inuse_and_pinuse s p z)
            else insert_chunk (set_size_and_pinuse_of_free_chunk (set_size_and_pinuse_of_inuse_chunk s p nb) (p + nb) (z - nb)) (p + nb) (z - nb))
         (\<lambda>s. Inr (s, chunk2mem p)))"
        using vr(1) v True big n p0 z(3)
        by (simp add: tmalloc_large_def chunk_plus_offset_def unlink_chunk_def Let_def cong: if_cong)
      show ?thesis
      proof (cases "z - nb < MIN_CHUNK_SIZE")
        case True
        then have "unat z < unat nb + 32" using uz le by (simp add: dl_consts word_less_nat_alt)
        from take_whole [OF h refl F z(2) this] True show ?thesis by (auto simp: ts)
      next
        case ns: False
        define w where "w = heap_arena s V K (touched s U F V)"
        have n': "unat nb + 32 \<le> unat z" using ns uz le by (simp add: dl_consts word_less_nat_alt)
        from take_split [OF h w_def F nb(1) n32 n'] obtain s1 s2 where s1: "unlink_chunk s p z = Inr s1"
          and s2: "s2 = set_size_and_pinuse_of_free_chunk (set_size_and_pinuse_of_inuse_chunk s1 p nb) (p + nb) (z - nb)"
          and O2: "open_heap w s2 (insert (p, nb) U) (F - {(p, z)}) (insert (p + nb, z - nb) (dvset s2)) (topset s) {}"
          and q: "p + nb \<noteq> dv s2" "dvsize s2 = dvsize s" "zero_fields s2" "topset s2 = topset s" "moves w s s2" "taking w U nb p nb"
            "pinuse s2 p" by blast
        have tb: "to_bin w s2 (insert (p, nb) U) (F - {(p, z)}) (topset s) (p + nb) (z - nb)"
          using O2 q by (simp add: to_bin_def)
        from bin_heap [OF tb w_def heapD(3) [OF h]] obtain s3 where s3: "insert_chunk s2 (p + nb) (z - nb) = Inr s3"
          "heap s3 (insert (p, nb) U) (insert (p + nb, z - nb) (F - {(p, z)})) V K" "moves w s2 s3" by blast
        have "pinuse s3 p = pinuse s2 p" using insert_pinuse [OF O2 _ _ s3(1), of "(p, nb)"] by simp
        then have "allocated s U F V K nb (s3, chunk2mem p)"
          by (intro allocatedI [OF q(6) w_def moves_trans [OF q(5) s3(3)] s3(2)]) (use q(7) in blast)
        then show ?thesis using ns s1 s3(1) s2 by (auto simp: ts)
      qed
    qed
  qed
qed

section \<open>malloc\<close>

lemma request2size_facts:
  assumes "unat bytes < 2 ^ 39"
  shows "is_aligned (request2size bytes)" "32 \<le> unat (request2size bytes)" "unat (request2size bytes) < 2 ^ 40"
    "unat bytes + 8 \<le> unat (request2size bytes)" "unat (request2size bytes) < 256 \<longleftrightarrow> bytes \<le> MAX_SMALL_REQUEST"
    "bytes \<le> MAX_SMALL_REQUEST \<Longrightarrow> request2size bytes = (if bytes < MIN_REQUEST then MIN_CHUNK_SIZE else pad_request bytes)"
    "\<not> bytes \<le> MAX_SMALL_REQUEST \<Longrightarrow> request2size bytes = pad_request bytes \<and> \<not> MAX_REQUEST \<le> bytes"
proof -
  let ?b = "unat bytes" let ?r = "?b + 23 - (?b + 23) mod 16"
  have r: "unat (request2size bytes) = (if ?b < 23 then 32 else ?r)"
    by (rule request2size_unat) (use assms in simp)
  have up: "?b + 8 \<le> ?r" "?r < ?b + 24" "16 dvd ?r" using round_up_mod [of 16 "?b + 8"] by simp_all
  have small: "bytes \<le> MAX_SMALL_REQUEST \<longleftrightarrow> ?b \<le> 232" by (simp add: dl_consts word_le_nat_alt)
  show "is_aligned (request2size bytes)" using r up(3) by (simp add: is_aligned_iff)
  show "unat (request2size bytes) < 2 ^ 40" using r up(2) assms by simp
  have "?b \<ge> 23 \<Longrightarrow> 32 \<le> ?r" using up by presburger
  then show "32 \<le> unat (request2size bytes)" using r by simp
  show "?b + 8 \<le> unat (request2size bytes)" using r up(1) by simp
  have "?r < 256 \<longleftrightarrow> ?b \<le> 232" using up by presburger
  then show "unat (request2size bytes) < 256 \<longleftrightarrow> bytes \<le> MAX_SMALL_REQUEST" using r small by simp
  show "bytes \<le> MAX_SMALL_REQUEST \<Longrightarrow> request2size bytes = (if bytes < MIN_REQUEST then MIN_CHUNK_SIZE else pad_request bytes)"
    by (simp add: request2size_def)
  show "\<not> bytes \<le> MAX_SMALL_REQUEST \<Longrightarrow> request2size bytes = pad_request bytes \<and> \<not> MAX_REQUEST \<le> bytes"
    using small assms below_MAX_REQUEST [of bytes] below_MIN_REQUEST [of bytes] by (simp add: request2size_def not_le)
qed

definition no_fit :: "'o state \<Rightarrow> chunk set \<Rightarrow> size_t \<Rightarrow> bool" where
  "no_fit s F nb \<longleftrightarrow> dvsize s < nb \<and> topsize s \<le> nb \<and> (\<forall>(p, y)\<in>F. y < nb)"

lemma victim_or_top:
  assumes h: "heap s U F V K" and nb: "is_aligned nb" "32 \<le> unat nb"
    and f: "nb \<le> dvsize s \<or> (\<forall>(p, y)\<in>F. y < nb)"
  shows "(\<exists>r. (if nb \<le> dvsize s then Inr (take_dv s nb) else if nb < topsize s then Inr (take_top s nb)
            else sys_alloc E s nb) = Inr r \<and> allocated s U F V K nb r)
    \<or> (if nb \<le> dvsize s then Inr (take_dv s nb) else if nb < topsize s then Inr (take_top s nb)
            else sys_alloc E s nb) = sys_alloc E s nb \<and> no_fit s F nb"
proof (cases "nb \<le> dvsize s")
  case True
  then show ?thesis using take_dv_heap [OF h nb True] by auto
next
  case False
  show ?thesis
  proof (cases "nb < topsize s")
    case True
    then show ?thesis using take_top_heap [OF h nb True] False by auto
  next
    case nt: False
    then have "no_fit s F nb" using f False by (simp add: no_fit_def not_le not_less)
    then show ?thesis using False nt by simp
  qed
qed

lemma dlmalloc_heap:
  assumes h: "heap s U F V K" and b: "unat bytes < 2 ^ 39"
  shows "(\<exists>r. dlmalloc E s bytes = Inr r \<and> allocated s U F V K (request2size bytes) r)
    \<or> dlmalloc E s bytes = sys_alloc E s (request2size bytes) \<and> no_fit s F (request2size bytes)"
proof -
  let ?nb = "request2size bytes"
  note R = request2size_facts [OF b]
  let ?rest = "\<lambda>(s, nb). if nb \<le> dvsize s then Inr (take_dv s nb) else if nb < topsize s then Inr (take_top s nb)
            else sys_alloc E s nb"
  have O: "open_heap (heap_arena s V K (touched s U F V)) s U F (dvset s) (topset s) {}"
    by (rule heap_enter [OF h]) blast
  obtain L T' where ok: "free_ok s L T' F" using open_heapD(1) [OF O] by (auto simp: free_rep_def)
  note D = free_okD [OF ok]
  show ?thesis
  proof (cases "bytes \<le> MAX_SMALL_REQUEST")
    case True
    then have nb: "unat ?nb < 256" using R(5) by blast
    define n where "n = unat ?nb div 8"
    have n32: "n < 32" using nb by (simp add: n_def)
    have n8: "unat ?nb = 8 * n" using R(1) by (simp add: n_def is_aligned_iff) presburger
    have si: "small_index ?nb = of_nat n" using small_index_of_nat nb by (simp add: is_small_iff n_def)
    have un: "unat (of_nat n :: u32) = n" using n32 by (simp add: unat_of_nat)
    let ?sb = "drop_bit n (smallmap s)"
    have dm: "dlmalloc E s bytes = andThen
       (if ?sb AND 3 \<noteq> 0 then bindR (take_small_exact s (of_nat n + (NOT ?sb AND 1))) (\<lambda>r. Inr (Return r))
        else if dvsize s < ?nb
        then if ?sb \<noteq> 0 then bindR (take_small_split s ?nb (of_nat n) ?sb) (\<lambda>r. Inr (Return r))
          else if treemap s \<noteq> 0
          then bindR (tmalloc_small s ?nb) (\<lambda>(s, m). Inr (if m \<noteq> 0 then Return (s, m) else Next (s, ?nb)))
          else Inr (Next (s, ?nb))
        else Inr (Next (s, ?nb))) ?rest"
      unfolding dlmalloc_def if_P [OF True] Let_def R(6) [OF True, symmetric] si un ..
    show ?thesis
    proof (cases "?sb AND 3 = 0")
      case False
      have bits: "bit (?sb AND 3) 0 = bit (smallmap s) n" "bit (?sb AND 3) 1 = bit (smallmap s) (n + 1)"
        by (simp_all add: bit_and_iff low_masks bit_mask_iff bit_drop_bit_eq)
      have "\<exists>i. of_nat n + (NOT ?sb AND 1) = (of_nat i :: u32) \<and> bit (smallmap s) i \<and> (i = n \<or> i = n + 1)"
      proof (cases "bit (smallmap s) n")
        case True
        then have "NOT ?sb AND 1 = 0"
          using and_exp_eq_0_iff_not_bit [of "NOT ?sb" 0] by (simp add: bit_not_iff bit_drop_bit_eq)
        then show ?thesis using True by auto
      next
        case f: False
        have "NOT ?sb AND 1 \<noteq> 0"
          using and_exp_eq_0_iff_not_bit [of "NOT ?sb" 0] f by (simp add: bit_not_iff bit_drop_bit_eq)
        moreover have "unat (NOT ?sb AND 1) < 2" by (simp add: unat_and_1)
        ultimately have "unat (NOT ?sb AND 1) = 1" by (simp add: unat_eq_zero less_2_cases_iff)
        then have "NOT ?sb AND 1 = 1" by (metis unat_1 word_unat_eq_iff)
        moreover have "bit (smallmap s) (n + 1)"
        proof (rule ccontr)
          assume "\<not> bit (smallmap s) (n + 1)"
          then have "\<not> bit (?sb AND 3) j" for j
            using f bits by (cases "j = 0 \<or> j = 1") (auto simp: bit_and_iff low_masks bit_mask_iff)
          then have "?sb AND 3 = 0" by (simp add: bit_eq_iff)
          then show False using False by blast
        qed
        ultimately show ?thesis by (intro exI [of _ "n + 1"]) simp
      qed
      then obtain i where i: "of_nat n + (NOT ?sb AND 1) = (of_nat i :: u32)" "bit (smallmap s) i" "i = n \<or> i = n + 1" by blast
      have "i < 32" using bit_imp_le_length [OF i(2)] by simp
      moreover have "unat ?nb \<le> 8 * i" "8 * i < unat ?nb + 32" using n8 i(3) by auto
      ultimately obtain r where r: "take_small_exact s (of_nat i) = Inr r" "allocated s U F V K ?nb r"
        using take_small_exact_heap [OF h _ i(2)] by blast
      have "dlmalloc E s bytes = Inr r" unfolding dm i(1) r(1) using False by simp
      then show ?thesis using r(2) by blast
    next
      case sb3: True
      show ?thesis
      proof (cases "dvsize s < ?nb")
        case False
        then have "dlmalloc E s bytes = ?rest (s, ?nb)" unfolding dm using sb3 by simp
        moreover have "?nb \<le> dvsize s" using False by simp
        ultimately show ?thesis using take_dv_heap [OF h R(1,2)] by auto
      next
        case dv: True
        show ?thesis
        proof (cases "?sb = 0")
          case False
          obtain r where r: "take_small_split s ?nb (of_nat n) ?sb = Inr r" "allocated s U F V K ?nb r"
            using take_small_split_heap [OF h R(1,2) nb dv, folded n_def, OF False sb3] by blast
          have "dlmalloc E s bytes = Inr r" unfolding dm r(1) using False sb3 dv by simp
          then show ?thesis using r(2) by blast
        next
          case sb0: True
          show ?thesis
          proof (cases "treemap s = 0")
            case False
            obtain r where r: "tmalloc_small s ?nb = Inr r" "allocated s U F V K ?nb r"
              using tmalloc_small_heap [OF h R(1,2) nb dv False] by blast
            have "dlmalloc E s bytes = Inr r"
              unfolding dm r(1) using sb0 dv False allocated_nonzero [OF r(2)] by (cases r) simp
            then show ?thesis using r(2) by blast
          next
            case tm: True
            have "dlmalloc E s bytes = ?rest (s, ?nb)" unfolding dm using sb0 dv tm by simp
            moreover have lt: "y < ?nb" if "(p, y) \<in> F" for p y
            proof -
              have "T' i = Tip" if "i < 32" for i using treebins_okD(5) [OF D(2) that] tm by simp
              then have "tree_entries T' = {}" by (simp add: tree_entries_def)
              then have "(p, y) \<in> small_entries s L" using D(3) that by simp
              then obtain i where i: "i < 32" "p \<in> set (L i)" "y = chunksize s p"
                by (auto simp: small_entries_def small_chunks_def)
              then have "unat y div 8 = i" using D(1) by (auto simp: small_store_def)
              moreover have "bit (smallmap s) i"
                using smallbins_okD(2) [of s L i] D(1) i by (auto simp: small_store_def)
              then have "i < n"
              proof -
                have "\<not> bit ?sb (i - n)" using sb0 by simp
                then show ?thesis using \<open>bit (smallmap s) i\<close> by (auto simp: bit_drop_bit_eq not_less intro: ccontr)
              qed
              ultimately have "unat y < unat ?nb" using n8 by linarith
              then show ?thesis by (simp add: word_less_nat_alt)
            qed
            moreover have "\<forall>(p, y)\<in>F. y < ?nb" using lt by blast
            ultimately show ?thesis using victim_or_top [OF h R(1,2) disjI2, of E] by simp
          qed
        qed
      qed
    qed
  next
    case False
    then have nb: "256 \<le> unat ?nb" using R(5) by (simp add: not_less)
    have dm: "dlmalloc E s bytes = andThen
       (if treemap s \<noteq> 0
        then bindR (tmalloc_large s ?nb) (\<lambda>(s, m). Inr (if m \<noteq> 0 then Return (s, m) else Next (s, ?nb)))
        else Inr (Next (s, ?nb))) ?rest"
      unfolding dlmalloc_def if_not_P [OF False] Let_def
        if_not_P [OF conjunct2 [OF R(7) [OF False]]] conjunct1 [OF R(7) [OF False]] ..
    show ?thesis
    proof (cases "treemap s = 0")
      case True
      then have "dlmalloc E s bytes = ?rest (s, ?nb)" unfolding dm by simp
      moreover have lt: "y < ?nb" if "(p, y) \<in> F" for p y
      proof -
        have "T' i = Tip" if "i < 32" for i using treebins_okD(5) [OF D(2) that] True by simp
        then have "tree_entries T' = {}" by (simp add: tree_entries_def)
        then have "is_small y" using D(3) that small_entry_small [OF D(1), of "(p, y)"] by simp
        then show ?thesis using nb by (simp add: is_small_iff word_less_nat_alt)
      qed
      moreover have "\<forall>(p, y)\<in>F. y < ?nb" using lt by blast
      ultimately show ?thesis using victim_or_top [OF h R(1,2) disjI2, of E] by simp
    next
      case tm: False
      from tmalloc_large_heap [OF h R(1) nb R(3)] show ?thesis
      proof (elim disjE exE conjE)
        fix r assume r: "tmalloc_large s ?nb = Inr r" "allocated s U F V K ?nb r"
        have "dlmalloc E s bytes = Inr r"
          unfolding dm r(1) using tm allocated_nonzero [OF r(2)] by (cases r) simp
        then show ?thesis using r(2) by blast
      next
        assume t: "tmalloc_large s ?nb = Inr (s, 0)" "?nb \<le> dvsize s"
        then have "dlmalloc E s bytes = ?rest (s, ?nb)" unfolding dm using tm by simp
        then show ?thesis using victim_or_top [OF h R(1,2) disjI1 [OF t(2)], of E] by simp
      next
        assume t: "tmalloc_large s ?nb = Inr (s, 0)" "\<forall>(p, y)\<in>F. y < ?nb"
        then have "dlmalloc E s bytes = ?rest (s, ?nb)" unfolding dm using tm by simp
        then show ?thesis using victim_or_top [OF h R(1,2) disjI2 [OF t(2)], of E] by simp
      qed
    qed
  qed
qed

end
