(* ===== verification/DL_Realloc.thy ===== *)
theory DL_Realloc
  imports DL_Malloc
begin

text \<open>
  Reallocation and aligned allocation in src/src/dlmalloc.c: \<open>try_realloc_chunk\<close>,
  \<open>internal_memalign\<close>, and the exported \<open>realloc\<close>, \<open>realloc_in_place\<close>, \<open>memalign\<close>,
  \<open>posix_memalign\<close>, \<open>valloc\<close> and \<open>pvalloc\<close> with their mspace clones. \<open>REALLOC_ZERO_BYTES_FREES\<close>
  is not defined in the default configuration.
\<close>

section \<open>try\_realloc\_chunk\<close>

definition try_realloc_chunk ::
  "'o os_ops \<Rightarrow> 'o state \<Rightarrow> addr \<Rightarrow> size_t \<Rightarrow> int \<Rightarrow> ('o state \<times> addr) res" where
  "try_realloc_chunk E s p nb can_move =
     (let oldsize = chunksize s p;
          nxt = chunk_plus_offset p oldsize
      in if ok_address s p \<and> ok_inuse s p \<and> ok_next p nxt \<and> ok_pinuse s nxt
         then if is_mmapped s p then Inr (mmap_resize E s p nb can_move)
           else if nb \<le> oldsize
           then let rsize = oldsize - nb
             in if MIN_CHUNK_SIZE \<le> rsize
                then let r = chunk_plus_offset p nb;
                         s = set_inuse s p nb;
                         s = set_inuse s r rsize
                     in bindR (dispose_chunk E s r rsize) (\<lambda>s. Inr (s, p))
                else Inr (s, p)
           else if nxt = topp s
           then if nb < oldsize + topsize s
             then let newsize = oldsize + topsize s;
                      newtopsize = newsize - nb;
                      newtop = chunk_plus_offset p nb;
                      s = set_inuse s p nb;
                      s = set_head s newtop (newtopsize OR PINUSE_BIT);
                      s = s\<lparr>topp := newtop, topsize := newtopsize\<rparr>
                  in Inr (s, p)
             else Inr (s, 0)
           else if nxt = dv s
           then let dvs = dvsize s
             in if nb \<le> oldsize + dvs
                then let dsize = oldsize + dvs - nb
                  in if MIN_CHUNK_SIZE \<le> dsize
                     then let r = chunk_plus_offset p nb;
                              n = chunk_plus_offset r dsize;
                              s = set_inuse s p nb;
                              s = set_size_and_pinuse_of_free_chunk s r dsize;
                              s = clear_pinuse s n;
                              s = s\<lparr>dvsize := dsize, dv := r\<rparr>
                          in Inr (s, p)
                     else let newsize = oldsize + dvs;
                              s = set_inuse s p newsize
                          in Inr (s\<lparr>dvsize := 0, dv := 0\<rparr>, p)
                else Inr (s, 0)
           else if \<not> cinuse s nxt
           then let nextsize = chunksize s nxt
             in if nb \<le> oldsize + nextsize
                then let rsize = oldsize + nextsize - nb
                  in bindR (unlink_chunk s nxt nextsize) (\<lambda>s.
                       if rsize < MIN_CHUNK_SIZE
                       then let newsize = oldsize + nextsize
                            in Inr (set_inuse s p newsize, p)
                       else let r = chunk_plus_offset p nb;
                                s = set_inuse s p nb;
                                s = set_inuse s r rsize
                            in bindR (dispose_chunk E s r rsize) (\<lambda>s. Inr (s, p)))
                else Inr (s, 0)
           else Inr (s, 0)
         else Inl UsageAbort)"

section \<open>internal\_memalign\<close>

text \<open>\<open>while (a < alignment) a <<= 1\<close>; it does not end when no power of two is large enough.\<close>

partial_function (option) align_loop :: "size_t \<Rightarrow> size_t \<Rightarrow> size_t res option" where
  "align_loop alignment a =
     (if a < alignment then align_loop alignment (push_bit 1 a) else Some (Inr a))"

declare align_loop.simps [code]

definition memalign_alignment :: "size_t \<Rightarrow> size_t res" where
  "memalign_alignment alignment =
     (let alignment = (if alignment < MIN_CHUNK_SIZE then MIN_CHUNK_SIZE else alignment)
      in if alignment AND (alignment - 1) \<noteq> 0
         then run_loop (align_loop alignment (push_bit 1 MALLOC_ALIGNMENT))
         else Inr alignment)"

text \<open>"Find an aligned spot inside chunk": the new start of the chunk at \<open>p\<close>.\<close>

definition aligned_spot :: "addr \<Rightarrow> size_t \<Rightarrow> addr" where
  "aligned_spot p alignment =
     (let m = chunk2mem p;
          br = mem2chunk ((m + alignment - 1) AND - alignment)
      in if MIN_CHUNK_SIZE \<le> br - p then br else br + alignment)"

definition memalign_split ::
  "'o os_ops \<Rightarrow> 'o state \<Rightarrow> addr \<Rightarrow> size_t \<Rightarrow> size_t \<Rightarrow> ('o state \<times> addr) res" where
  "memalign_split E s m alignment nb =
     (let p = mem2chunk m
      in bindR
        (if m AND (alignment - 1) \<noteq> 0
         then let newp = aligned_spot p alignment;
                  leadsize = newp - p;
                  newsize = chunksize s p - leadsize
           in if is_mmapped s p
              then let s = set_prev_foot s newp (prev_foot s p + leadsize)
                   in Inr (set_head s newp newsize, newp)
              else let s = set_inuse s newp newsize;
                       s = set_inuse s p leadsize
                   in bindR (dispose_chunk E s p leadsize) (\<lambda>s. Inr (s, newp))
         else Inr (s, p))
        (\<lambda>(s, p).
          bindR
            (if \<not> is_mmapped s p
             then let size = chunksize s p
               in if nb + MIN_CHUNK_SIZE < size
                  then let remainder_size = size - nb;
                           remainder = chunk_plus_offset p nb;
                           s = set_inuse s p nb;
                           s = set_inuse s remainder remainder_size
                       in dispose_chunk E s remainder remainder_size
                  else Inr s
             else Inr s)
            (\<lambda>s. Inr (s, chunk2mem p))))"

definition internal_memalign ::
  "'o os_ops \<Rightarrow> 'o state \<Rightarrow> size_t \<Rightarrow> size_t \<Rightarrow> ('o state \<times> addr) res" where
  "internal_memalign E s alignment bytes =
     bindR (memalign_alignment alignment) (\<lambda>alignment.
       if MAX_REQUEST - alignment \<le> bytes then Inr (malloc_failure_action s, 0)
       else let nb = request2size bytes;
                req = nb + alignment + MIN_CHUNK_SIZE - CHUNK_OVERHEAD
         in bindR (internal_malloc E s req) (\<lambda>(s, m).
              if m \<noteq> 0 then memalign_split E s m alignment nb else Inr (s, m)))"

section \<open>Exported functions\<close>

definition dlrealloc ::
  "'o os_ops \<Rightarrow> 'o state \<Rightarrow> addr \<Rightarrow> size_t \<Rightarrow> ('o state \<times> addr) res" where
  "dlrealloc E s oldmem bytes =
     (if oldmem = 0 then dlmalloc E s bytes
      else if MAX_REQUEST \<le> bytes then Inr (malloc_failure_action s, 0)
      else let nb = request2size bytes;
               oldp = mem2chunk oldmem
        in bindR (try_realloc_chunk E s oldp nb 1) (\<lambda>(s, newp).
             if newp \<noteq> 0 then Inr (s, chunk2mem newp)
             else bindR (internal_malloc E s bytes) (\<lambda>(s, m).
               if m \<noteq> 0
               then let oc = chunksize s oldp - overhead_for s oldp;
                        s = memcpy s m oldmem (if oc < bytes then oc else bytes)
                    in bindR (internal_free E s oldmem) (\<lambda>s. Inr (s, m))
               else Inr (s, m))))"

definition dlrealloc_in_place ::
  "'o os_ops \<Rightarrow> 'o state \<Rightarrow> addr \<Rightarrow> size_t \<Rightarrow> ('o state \<times> addr) res" where
  "dlrealloc_in_place E s oldmem bytes =
     (if oldmem \<noteq> 0
      then if MAX_REQUEST \<le> bytes then Inr (malloc_failure_action s, 0)
        else let nb = request2size bytes;
                 oldp = mem2chunk oldmem
          in bindR (try_realloc_chunk E s oldp nb 0) (\<lambda>(s, newp).
               Inr (s, if newp = oldp then oldmem else 0))
      else Inr (s, 0))"

definition dlmemalign ::
  "'o os_ops \<Rightarrow> 'o state \<Rightarrow> size_t \<Rightarrow> size_t \<Rightarrow> ('o state \<times> addr) res" where
  "dlmemalign E s alignment bytes =
     (if alignment \<le> MALLOC_ALIGNMENT then dlmalloc E s bytes
      else internal_memalign E s alignment bytes)"

definition EINVAL :: int where "EINVAL = 22"
definition ENOMEM :: int where "ENOMEM = 12"

text \<open>The result pointer is stored in the cell \<open>pp\<close>.\<close>

definition dlposix_memalign ::
  "'o os_ops \<Rightarrow> 'o state \<Rightarrow> addr \<Rightarrow> size_t \<Rightarrow> size_t \<Rightarrow> ('o state \<times> int) res" where
  "dlposix_memalign E s pp alignment bytes =
     andThen
       (if alignment = MALLOC_ALIGNMENT
        then bindR (dlmalloc E s bytes) (\<lambda>r. Inr (Next r))
        else let d = alignment div 8;
                 r = alignment mod 8
          in if r \<noteq> 0 \<or> d = 0 \<or> d AND (d - 1) \<noteq> 0 then Inr (Return (s, EINVAL))
             else if bytes \<le> MAX_REQUEST - alignment
             then let alignment = (if alignment < MIN_CHUNK_SIZE then MIN_CHUNK_SIZE else alignment)
                  in bindR (internal_memalign E s alignment bytes) (\<lambda>r. Inr (Next r))
             else Inr (Next (s, 0)))
       (\<lambda>(s, m). Inr (if m = 0 then (s, ENOMEM) else (wr s pp m, 0)))"

definition dlvalloc :: "'o os_ops \<Rightarrow> 'o state \<Rightarrow> size_t \<Rightarrow> ('o state \<times> addr) res" where
  "dlvalloc E s bytes =
     bindR (ensure_initialization E s) (\<lambda>s.
       let pagesz = page_size s in dlmemalign E s pagesz bytes)"

definition dlpvalloc :: "'o os_ops \<Rightarrow> 'o state \<Rightarrow> size_t \<Rightarrow> ('o state \<times> addr) res" where
  "dlpvalloc E s bytes =
     bindR (ensure_initialization E s) (\<lambda>s.
       let pagesz = page_size s
       in dlmemalign E s pagesz ((bytes + pagesz - 1) AND NOT (pagesz - 1)))"

definition mspace_realloc ::
  "'o os_ops \<Rightarrow> 'o state \<Rightarrow> addr \<Rightarrow> size_t \<Rightarrow> ('o state \<times> addr) res" where
  "mspace_realloc E s oldmem bytes =
     (if oldmem = 0 then mspace_malloc E s bytes
      else if MAX_REQUEST \<le> bytes then Inr (malloc_failure_action s, 0)
      else let nb = request2size bytes;
               oldp = mem2chunk oldmem
        in bindR (try_realloc_chunk E s oldp nb 1) (\<lambda>(s, newp).
             if newp \<noteq> 0 then Inr (s, chunk2mem newp)
             else bindR (mspace_malloc E s bytes) (\<lambda>(s, m).
               if m \<noteq> 0
               then let oc = chunksize s oldp - overhead_for s oldp;
                        s = memcpy s m oldmem (if oc < bytes then oc else bytes)
                    in bindR (mspace_free E s oldmem) (\<lambda>s. Inr (s, m))
               else Inr (s, m))))"

definition mspace_realloc_in_place ::
  "'o os_ops \<Rightarrow> 'o state \<Rightarrow> addr \<Rightarrow> size_t \<Rightarrow> ('o state \<times> addr) res" where
  "mspace_realloc_in_place E s oldmem bytes =
     (if oldmem \<noteq> 0
      then if MAX_REQUEST \<le> bytes then Inr (malloc_failure_action s, 0)
        else let nb = request2size bytes;
                 oldp = mem2chunk oldmem
          in bindR (try_realloc_chunk E s oldp nb 0) (\<lambda>(s, newp).
               Inr (s, if newp = oldp then oldmem else 0))
      else Inr (s, 0))"

definition mspace_memalign ::
  "'o os_ops \<Rightarrow> 'o state \<Rightarrow> size_t \<Rightarrow> size_t \<Rightarrow> ('o state \<times> addr) res" where
  "mspace_memalign E ms alignment bytes =
     (if \<not> ok_magic ms then Inl UsageAbort
      else if alignment \<le> MALLOC_ALIGNMENT then mspace_malloc E ms bytes
      else internal_memalign E ms alignment bytes)"

end
