(* ===== verification/DL_Bulk.thy ===== *)
theory DL_Bulk
  imports DL_Realloc
begin

text \<open>
  Bulk operations of src/src/dlmalloc.c: \<open>ialloc\<close> with \<open>independent_calloc\<close> and
  \<open>independent_comalloc\<close>, \<open>internal_bulk_free\<close> and \<open>internal_inspect_all\<close>. Arrays of
  pointers are cells of memory; the array \<open>sizes\<close> of \<open>ialloc\<close> is a function of the state and
  the index, since one caller passes a local variable.
\<close>

section \<open>ialloc\<close>

text \<open>One round of the loop that splits out the elements, for \<open>i\<close> other than the last.\<close>

definition ialloc_split ::
  "('o state \<Rightarrow> nat \<Rightarrow> size_t) \<Rightarrow> size_t \<Rightarrow> addr \<Rightarrow> nat
    \<Rightarrow> 'o state \<times> addr \<times> size_t \<Rightarrow> 'o state \<times> addr \<times> size_t"
where
  "ialloc_split sizes element_size marray i = (\<lambda>(s, p, remainder_size).
     let s = wr s (marray + 8 * of_nat i) (chunk2mem p);
         size = (if element_size \<noteq> 0 then element_size else request2size (sizes s i));
         remainder_size = remainder_size - size;
         s = set_size_and_pinuse_of_inuse_chunk s p size
     in (s, chunk_plus_offset p size, remainder_size))"

text \<open>The size of the elements, 0 when they differ, and the sum of their sizes.\<close>

definition ialloc_sizes ::
  "'o state \<Rightarrow> size_t \<Rightarrow> ('o state \<Rightarrow> nat \<Rightarrow> size_t) \<Rightarrow> u32 \<Rightarrow> size_t \<times> size_t"
where
  "ialloc_sizes s n_elements sizes opts =
     (if opts AND 1 \<noteq> 0
      then let element_size = request2size (sizes s 0)
           in (element_size, n_elements * element_size)
      else (0, fold (\<lambda>i c. c + request2size (sizes s i)) [0..<unat n_elements] 0))"

text \<open>The aggregate chunk is cleared and split, the pointer array taken from its end if it is not given.\<close>

definition ialloc_carve ::
  "'o state \<Rightarrow> addr \<Rightarrow> size_t \<Rightarrow> ('o state \<Rightarrow> nat \<Rightarrow> size_t) \<Rightarrow> u32 \<Rightarrow> addr \<Rightarrow> size_t \<Rightarrow> size_t \<Rightarrow> size_t
    \<Rightarrow> 'o state \<times> addr"
where
  "ialloc_carve s m n_elements sizes opts marray array_size element_size contents_size =
     (let p = mem2chunk m;
          remainder_size = chunksize s p;
          s = (if opts AND 2 \<noteq> 0
               then memset0 s m (remainder_size - SIZE_T_SIZE - array_size) else s);
          (s, marray, remainder_size) =
            (if marray = 0
             then let array_chunk = chunk_plus_offset p contents_size;
                      array_chunk_size = remainder_size - contents_size
                  in (set_size_and_pinuse_of_inuse_chunk s array_chunk array_chunk_size,
                      chunk2mem array_chunk, contents_size)
             else (s, marray, remainder_size));
          (s, p, remainder_size) =
            fold (ialloc_split sizes element_size marray)
              [0..<unat n_elements - 1] (s, p, remainder_size);
          s = wr s (marray + 8 * of_nat (unat n_elements - 1)) (chunk2mem p);
          s = set_size_and_pinuse_of_inuse_chunk s p remainder_size
      in (s, marray))"

definition ialloc ::
  "'o os_ops \<Rightarrow> 'o state \<Rightarrow> size_t \<Rightarrow> ('o state \<Rightarrow> nat \<Rightarrow> size_t) \<Rightarrow> u32 \<Rightarrow> addr
    \<Rightarrow> ('o state \<times> addr) res"
where
  "ialloc E s n_elements sizes opts chunks =
     bindR (ensure_initialization E s) (\<lambda>s.
     if n_elements = 0 then (if chunks \<noteq> 0 then Inr (s, chunks) else internal_malloc E s 0)
     else
       let marray = chunks;
           array_size = (if chunks \<noteq> 0 then 0 else request2size (n_elements * 8));
           (element_size, contents_size) = ialloc_sizes s n_elements sizes opts;
           size = contents_size + array_size;
           was_enabled = use_mmap s;
           s = disable_mmap s
       in bindR (internal_malloc E s (size - CHUNK_OVERHEAD)) (\<lambda>(s, m).
         let s = (if was_enabled then enable_mmap s else s)
         in if m = 0 then Inr (s, 0)
            else Inr (ialloc_carve s m n_elements sizes opts marray array_size element_size contents_size)))"

definition dlindependent_calloc ::
  "'o os_ops \<Rightarrow> 'o state \<Rightarrow> size_t \<Rightarrow> size_t \<Rightarrow> addr \<Rightarrow> ('o state \<times> addr) res" where
  "dlindependent_calloc E s n_elements elem_size chunks =
     (let sz = elem_size in ialloc E s n_elements (\<lambda>_ _. sz) 3 chunks)"

definition dlindependent_comalloc ::
  "'o os_ops \<Rightarrow> 'o state \<Rightarrow> size_t \<Rightarrow> addr \<Rightarrow> addr \<Rightarrow> ('o state \<times> addr) res" where
  "dlindependent_comalloc E s n_elements sizes chunks =
     ialloc E s n_elements (\<lambda>s i. rd s (sizes + 8 * of_nat i)) 0 chunks"

definition mspace_independent_calloc ::
  "'o os_ops \<Rightarrow> 'o state \<Rightarrow> size_t \<Rightarrow> size_t \<Rightarrow> addr \<Rightarrow> ('o state \<times> addr) res" where
  "mspace_independent_calloc E ms n_elements elem_size chunks =
     (let sz = elem_size
      in if \<not> ok_magic ms then Inl UsageAbort
         else ialloc E ms n_elements (\<lambda>_ _. sz) 3 chunks)"

definition mspace_independent_comalloc ::
  "'o os_ops \<Rightarrow> 'o state \<Rightarrow> size_t \<Rightarrow> addr \<Rightarrow> addr \<Rightarrow> ('o state \<times> addr) res" where
  "mspace_independent_comalloc E ms n_elements sizes chunks =
     (if \<not> ok_magic ms then Inl UsageAbort
      else ialloc E ms n_elements (\<lambda>s i. rd s (sizes + 8 * of_nat i)) 0 chunks)"

section \<open>internal\_bulk\_free\<close>

text \<open>One round of the loop, for the pointer in the cell \<open>a\<close>; \<open>fence\<close> is the end of the array.\<close>

definition bulk_free_one :: "'o os_ops \<Rightarrow> addr \<Rightarrow> addr \<Rightarrow> 'o state \<Rightarrow> 'o state res" where
  "bulk_free_one E fence a s =
     (let m = rd s a
      in if m = 0 then Inr s
         else let p = mem2chunk m;
                  psize = chunksize s p;
                  s = wr s a 0
           in if ok_address s p \<and> ok_inuse s p
              then let b = a + 8;
                       nxt = next_chunk s p
                in if b \<noteq> fence \<and> rd s b = chunk2mem nxt
                   then let newsize = chunksize s nxt + psize;
                            s = set_inuse s p newsize
                        in Inr (wr s b (chunk2mem p))
                   else dispose_chunk E s p psize
              else Inl CorruptionAbort)"

definition internal_bulk_free ::
  "'o os_ops \<Rightarrow> 'o state \<Rightarrow> addr \<Rightarrow> size_t \<Rightarrow> ('o state \<times> size_t) res" where
  "internal_bulk_free E s array nelem =
     (let unfreed = 0;
          fence = array + 8 * nelem
      in bindR
        (fold (\<lambda>i r. bindR r (bulk_free_one E fence (array + 8 * of_nat i)))
           [0..<unat nelem] (Inr s))
        (\<lambda>s. bindR (if should_trim s (topsize s)
                     then bindR (sys_trim E s 0) (\<lambda>(s, _). Inr s) else Inr s)
              (\<lambda>s. Inr (s, unfreed))))"

definition dlbulk_free ::
  "'o os_ops \<Rightarrow> 'o state \<Rightarrow> addr \<Rightarrow> size_t \<Rightarrow> ('o state \<times> size_t) res" where
  "dlbulk_free E s array nelem = internal_bulk_free E s array nelem"

definition mspace_bulk_free ::
  "'o os_ops \<Rightarrow> 'o state \<Rightarrow> addr \<Rightarrow> size_t \<Rightarrow> ('o state \<times> size_t) res" where
  "mspace_bulk_free E ms array nelem = internal_bulk_free E ms array nelem"

section \<open>internal\_inspect\_all\<close>

text \<open>
  The traversal behind \<open>malloc_inspect_all\<close>: the result is the list of the calls of the
  handler, as \<open>(start, end, used_bytes)\<close>; the handler itself is the caller's.
\<close>

definition inspect_chunk :: "'o state \<Rightarrow> addr \<Rightarrow> (addr \<times> addr \<times> size_t) list" where
  "inspect_chunk s q =
     (let nxt = next_chunk s q;
          sz = chunksize s q;
          used = (if is_inuse s q then sz - CHUNK_OVERHEAD else 0);
          start = (if is_inuse s q then chunk2mem q
                   else if is_small sz then q + MCHUNK_SIZE else q + TCHUNK_SIZE)
      in if start < nxt then [(start, nxt, used)] else [])"

partial_function (option) inspect_chunks_loop ::
  "'o state \<Rightarrow> addr \<Rightarrow> addr \<Rightarrow> (addr \<times> addr \<times> size_t) list \<Rightarrow> (addr \<times> addr \<times> size_t) list option"
where
  "inspect_chunks_loop s sp q calls =
     (if segment_holds s sp q \<and> head s q \<noteq> FENCEPOST_HEAD
      then let calls = calls @ inspect_chunk s q
        in if q = topp s then Some calls
           else inspect_chunks_loop s sp (next_chunk s q) calls
      else Some calls)"

declare inspect_chunks_loop.simps [code]

partial_function (option) inspect_segments_loop ::
  "'o state \<Rightarrow> addr \<Rightarrow> (addr \<times> addr \<times> size_t) list \<Rightarrow> (addr \<times> addr \<times> size_t) list res option"
where
  "inspect_segments_loop s sp calls =
     (if sp = 0 then Some (Inr calls)
      else Option.bind (inspect_chunks_loop s sp (align_as_chunk (sg_base s sp)) calls)
        (\<lambda>calls. inspect_segments_loop s (sg_next s sp) calls))"

declare inspect_segments_loop.simps [code]

definition internal_inspect_all :: "'o state \<Rightarrow> (addr \<times> addr \<times> size_t) list res" where
  "internal_inspect_all s =
     (if is_initialized s then run_loop (inspect_segments_loop s (seg s) []) else Inr [])"

end
