(* ===== verification/DL_Api.thy ===== *)
theory DL_Api
  imports DL_Bulk
begin

text \<open>
  The remaining exported functions of src/src/dlmalloc.c: trimming, footprints and their limit,
  \<open>mallopt\<close>, \<open>usable_size\<close>, and creation, configuration and destruction of mspaces, with the
  mspace clones of the global functions.
\<close>

section \<open>Global functions\<close>

definition dlmalloc_trim :: "'o os_ops \<Rightarrow> 'o state \<Rightarrow> size_t \<Rightarrow> ('o state \<times> int) res" where
  "dlmalloc_trim E s pad = bindR (ensure_initialization E s) (\<lambda>s. sys_trim E s pad)"

definition dlmalloc_footprint :: "'o state \<Rightarrow> size_t" where
  "dlmalloc_footprint s = footprint s"

definition dlmalloc_max_footprint :: "'o state \<Rightarrow> size_t" where
  "dlmalloc_max_footprint s = max_footprint s"

definition dlmalloc_footprint_limit :: "'o state \<Rightarrow> size_t" where
  "dlmalloc_footprint_limit s =
     (let maf = footprint_limit s in if maf = 0 then MAX_SIZE_T else maf)"

text \<open>
  The first assignment to \<open>result\<close> is dead: there is no \<open>else\<close> between the two \<open>if\<close>s. The
  initial value of \<open>result\<close>, which no path reads, is the argument \<open>u\<close>.
\<close>

definition set_footprint_limit_result :: "'o state \<Rightarrow> size_t \<Rightarrow> size_t \<Rightarrow> size_t" where
  "set_footprint_limit_result s u bytes =
     (let result = u;
          result = (if bytes = 0 then granularity_align s 1 else result);
          result = (if bytes = MAX_SIZE_T then 0 else granularity_align s bytes)
      in result)"

definition dlmalloc_set_footprint_limit ::
  "'o state \<Rightarrow> size_t \<Rightarrow> size_t \<Rightarrow> 'o state \<times> size_t" where
  "dlmalloc_set_footprint_limit s u bytes =
     (let result = set_footprint_limit_result s u bytes
      in (s\<lparr>footprint_limit := result\<rparr>, result))"

definition dlmallopt :: "'o os_ops \<Rightarrow> 'o state \<Rightarrow> int \<Rightarrow> int \<Rightarrow> ('o state \<times> int) res" where
  "dlmallopt E s param_number v = change_mparam E s param_number v"

definition dlmalloc_usable_size :: "'o state \<Rightarrow> addr \<Rightarrow> size_t" where
  "dlmalloc_usable_size s m =
     (if m \<noteq> 0
      then let p = mem2chunk m
        in if is_inuse s p then chunksize s p - overhead_for s p else 0
      else 0)"

section \<open>Creating mspaces\<close>

text \<open>
  A new \<open>malloc_state\<close> inside the memory at \<open>tbase\<close>. The result is the state of the new space:
  \<open>memset\<close> zeroes its cells, and its scalar fields, which the model keeps in the record.
\<close>

definition zero_mstate :: "'o state \<Rightarrow> addr \<Rightarrow> size_t \<Rightarrow> 'o state" where
  "zero_mstate s m n =
     memset0 (s\<lparr>maddr := m, smallmap := 0, treemap := 0, dvsize := 0, topsize := 0,
       least_addr := 0, dv := 0, topp := 0, trim_check := 0, release_checks := 0, magic := 0,
       footprint := 0, max_footprint := 0, footprint_limit := 0, mflags := 0, extp := 0,
       exts := 0\<rparr>) m n"

definition init_user_mstate :: "'o state \<Rightarrow> addr \<Rightarrow> size_t \<Rightarrow> 'o state" where
  "init_user_mstate s tbase tsize =
     (let msize = pad_request MSTATE_SIZE;
          msp = align_as_chunk tbase;
          m = chunk2mem msp;
          s = zero_mstate s m msize;
          s = set_head s msp (msize OR INUSE_BITS);
          s = s\<lparr>least_addr := tbase\<rparr>;
          s = set_sg_base s (seg s) tbase;
          s = s\<lparr>max_footprint := tsize, footprint := tsize\<rparr>;
          s = set_sg_size s (seg s) tsize;
          s = s\<lparr>magic := mp_magic s, release_checks := MAX_RELEASE_CHECK_RATE,
                mflags := default_mflags s, extp := 0, exts := 0\<rparr>;
          s = disable_contiguous s;
          s = init_bins s;
          mn = next_chunk s (mem2chunk m)
      in init_top s mn (((tbase + tsize) - mn) - TOP_FOOT_SIZE))"

text \<open>The address of the new space is the result, 0 on failure.\<close>

definition create_mspace ::
  "'o os_ops \<Rightarrow> 'o state \<Rightarrow> size_t \<Rightarrow> int \<Rightarrow> ('o state \<times> addr) res" where
  "create_mspace E s capacity locked =
     bindR (ensure_initialization E s) (\<lambda>s.
       let msize = pad_request MSTATE_SIZE
       in if capacity < - (msize + TOP_FOOT_SIZE + page_size s)
          then let rs = (if capacity = 0 then granularity s else capacity + TOP_FOOT_SIZE + msize);
                   tsize = granularity_align s rs;
                   (s, tbase) = CALL_MMAP E tsize s
            in if tbase \<noteq> MFAIL
               then let s = init_user_mstate s tbase tsize;
                        s = set_sg_sflags s (seg s) USE_MMAP_BIT;
                        s = set_lock s locked
                    in Inr (s, maddr s)
               else Inr (s, 0)
          else Inr (s, 0))"

definition create_mspace_with_base ::
  "'o os_ops \<Rightarrow> 'o state \<Rightarrow> addr \<Rightarrow> size_t \<Rightarrow> int \<Rightarrow> ('o state \<times> addr) res" where
  "create_mspace_with_base E s base capacity locked =
     bindR (ensure_initialization E s) (\<lambda>s.
       let msize = pad_request MSTATE_SIZE
       in if msize + TOP_FOOT_SIZE < capacity
             \<and> capacity < - (msize + TOP_FOOT_SIZE + page_size s)
          then let s = init_user_mstate s base capacity;
                   s = set_sg_sflags s (seg s) EXTERN_BIT;
                   s = set_lock s locked
               in Inr (s, maddr s)
          else Inr (s, 0))"

definition mspace_track_large_chunks :: "'o state \<Rightarrow> bool \<Rightarrow> 'o state \<times> int" where
  "mspace_track_large_chunks ms enable =
     (let ret = (if \<not> use_mmap ms then 1 else 0)
      in (if \<not> enable then enable_mmap ms else disable_mmap ms, ret))"

text \<open>\<open>destroy_mspace\<close>: unmap every segment that is mapped and not external.\<close>

partial_function (option) destroy_loop ::
  "'o os_ops \<Rightarrow> 'o state \<Rightarrow> addr \<Rightarrow> size_t \<Rightarrow> ('o state \<times> size_t) res option"
where
  "destroy_loop E ms sp freed =
     (if sp = 0 then Some (Inr (ms, freed))
      else let base = sg_base ms sp;
               size = sg_size ms sp;
               flag = sg_sflags ms sp;
               sp = sg_next ms sp
        in if flag AND USE_MMAP_BIT \<noteq> 0 \<and> flag AND EXTERN_BIT = 0
           then let r = CALL_MUNMAP E base size ms
             in destroy_loop E (fst r) sp (if snd r = 0 then freed + size else freed)
           else destroy_loop E ms sp freed)"

declare destroy_loop.simps [code]

definition destroy_mspace :: "'o os_ops \<Rightarrow> 'o state \<Rightarrow> ('o state \<times> size_t) res" where
  "destroy_mspace E ms =
     (if ok_magic ms then run_loop (destroy_loop E ms (seg ms) 0) else Inl UsageAbort)"

section \<open>Clones for mspaces\<close>

definition mspace_trim :: "'o os_ops \<Rightarrow> 'o state \<Rightarrow> size_t \<Rightarrow> ('o state \<times> int) res" where
  "mspace_trim E ms pad = (if ok_magic ms then sys_trim E ms pad else Inl UsageAbort)"

definition mspace_footprint :: "'o state \<Rightarrow> size_t res" where
  "mspace_footprint ms = (if ok_magic ms then Inr (footprint ms) else Inl UsageAbort)"

definition mspace_max_footprint :: "'o state \<Rightarrow> size_t res" where
  "mspace_max_footprint ms = (if ok_magic ms then Inr (max_footprint ms) else Inl UsageAbort)"

definition mspace_footprint_limit :: "'o state \<Rightarrow> size_t res" where
  "mspace_footprint_limit ms =
     (if ok_magic ms
      then let maf = footprint_limit ms in Inr (if maf = 0 then MAX_SIZE_T else maf)
      else Inl UsageAbort)"

definition mspace_set_footprint_limit :: "'o state \<Rightarrow> size_t \<Rightarrow> ('o state \<times> size_t) res" where
  "mspace_set_footprint_limit ms bytes =
     (if ok_magic ms
      then let result = 0;
               result = (if bytes = 0 then granularity_align ms 1 else result);
               result = (if bytes = MAX_SIZE_T then 0 else granularity_align ms bytes)
           in Inr (ms\<lparr>footprint_limit := result\<rparr>, result)
      else Inl UsageAbort)"

definition mspace_usable_size :: "'o state \<Rightarrow> addr \<Rightarrow> size_t" where
  "mspace_usable_size s m =
     (if m \<noteq> 0
      then let p = mem2chunk m
        in if is_inuse s p then chunksize s p - overhead_for s p else 0
      else 0)"

definition mspace_mallopt :: "'o os_ops \<Rightarrow> 'o state \<Rightarrow> int \<Rightarrow> int \<Rightarrow> ('o state \<times> int) res" where
  "mspace_mallopt E s param_number v = change_mparam E s param_number v"

end
