(* ===== verification/DL_Stats.thy ===== *)
theory DL_Stats
  imports DL_Api
begin

text \<open>
  Statistics of src/src/dlmalloc.c: \<open>internal_mallinfo\<close> and the three numbers
  \<open>internal_malloc_stats\<close> prints. Both walk every chunk of every segment up to the top chunk or
  a fencepost.
\<close>

record mallinfo =
  arena :: size_t
  ordblks :: size_t
  smblks :: size_t
  hblks :: size_t
  hblkhd :: size_t
  usmblks :: size_t
  fsmblks :: size_t
  uordblks :: size_t
  fordblks :: size_t
  keepcost :: size_t

definition mallinfo_zero :: mallinfo where
  "mallinfo_zero = \<lparr>arena = 0, ordblks = 0, smblks = 0, hblks = 0, hblkhd = 0, usmblks = 0,
     fsmblks = 0, uordblks = 0, fordblks = 0, keepcost = 0\<rparr>"

text \<open>The loops of \<open>internal_mallinfo\<close>; the locals are \<open>nfree\<close>, \<open>mfree\<close> and \<open>sum\<close>.\<close>

partial_function (option) mallinfo_chunks_loop ::
  "'o state \<Rightarrow> addr \<Rightarrow> addr \<Rightarrow> size_t \<Rightarrow> size_t \<Rightarrow> size_t \<Rightarrow> (size_t \<times> size_t \<times> size_t) option"
where
  "mallinfo_chunks_loop m s q nfree mfree tot =
     (if segment_holds m s q \<and> q \<noteq> topp m \<and> head m q \<noteq> FENCEPOST_HEAD
      then let sz = chunksize m q;
               tot = tot + sz;
               mfree' = (if \<not> is_inuse m q then mfree + sz else mfree);
               nfree' = (if \<not> is_inuse m q then nfree + 1 else nfree)
           in mallinfo_chunks_loop m s (next_chunk m q) nfree' mfree' tot
      else Some (nfree, mfree, tot))"

declare mallinfo_chunks_loop.simps [code]

partial_function (option) mallinfo_segments_loop ::
  "'o state \<Rightarrow> addr \<Rightarrow> size_t \<Rightarrow> size_t \<Rightarrow> size_t \<Rightarrow> (size_t \<times> size_t \<times> size_t) option"
where
  "mallinfo_segments_loop m s nfree mfree tot =
     (if s = 0 then Some (nfree, mfree, tot)
      else Option.bind
        (mallinfo_chunks_loop m s (align_as_chunk (sg_base m s)) nfree mfree tot)
        (\<lambda>(nfree, mfree, tot). mallinfo_segments_loop m (sg_next m s) nfree mfree tot))"

declare mallinfo_segments_loop.simps [code]

definition internal_mallinfo :: "'o os_ops \<Rightarrow> 'o state \<Rightarrow> ('o state \<times> mallinfo) res" where
  "internal_mallinfo E m =
     bindR (ensure_initialization E m) (\<lambda>m.
       if is_initialized m
       then let nfree = 1;
                mfree = topsize m + TOP_FOOT_SIZE;
                tot = mfree
         in case mallinfo_segments_loop m (seg m) nfree mfree tot of
              None \<Rightarrow> Inl Diverges
            | Some (nfree, mfree, tot) \<Rightarrow>
                Inr (m, mallinfo_zero\<lparr>arena := tot, ordblks := nfree,
                  hblkhd := footprint m - tot, usmblks := max_footprint m,
                  uordblks := footprint m - mfree, fordblks := mfree, keepcost := topsize m\<rparr>)
       else Inr (m, mallinfo_zero))"

text \<open>The loops of \<open>internal_malloc_stats\<close>, and the numbers printed: \<open>(maxfp, fp, used)\<close>.\<close>

partial_function (option) stats_chunks_loop ::
  "'o state \<Rightarrow> addr \<Rightarrow> addr \<Rightarrow> size_t \<Rightarrow> size_t option"
where
  "stats_chunks_loop m s q used =
     (if segment_holds m s q \<and> q \<noteq> topp m \<and> head m q \<noteq> FENCEPOST_HEAD
      then stats_chunks_loop m s (next_chunk m q)
             (if \<not> is_inuse m q then used - chunksize m q else used)
      else Some used)"

declare stats_chunks_loop.simps [code]

partial_function (option) stats_segments_loop :: "'o state \<Rightarrow> addr \<Rightarrow> size_t \<Rightarrow> size_t option"
where
  "stats_segments_loop m s used =
     (if s = 0 then Some used
      else Option.bind (stats_chunks_loop m s (align_as_chunk (sg_base m s)) used)
        (\<lambda>used. stats_segments_loop m (sg_next m s) used))"

declare stats_segments_loop.simps [code]

definition internal_malloc_stats ::
  "'o os_ops \<Rightarrow> 'o state \<Rightarrow> ('o state \<times> size_t \<times> size_t \<times> size_t) res" where
  "internal_malloc_stats E m =
     bindR (ensure_initialization E m) (\<lambda>m.
       if is_initialized m
       then let maxfp = max_footprint m;
                fp = footprint m;
                used = fp - (topsize m + TOP_FOOT_SIZE)
         in case stats_segments_loop m (seg m) used of
              None \<Rightarrow> Inl Diverges
            | Some used \<Rightarrow> Inr (m, maxfp, fp, used)
       else Inr (m, 0, 0, 0))"

definition dlmallinfo :: "'o os_ops \<Rightarrow> 'o state \<Rightarrow> ('o state \<times> mallinfo) res" where
  "dlmallinfo E s = internal_mallinfo E s"

definition mspace_mallinfo :: "'o os_ops \<Rightarrow> 'o state \<Rightarrow> ('o state \<times> mallinfo) res" where
  "mspace_mallinfo E ms = (if \<not> ok_magic ms then Inl UsageAbort else internal_mallinfo E ms)"

definition mspace_malloc_stats ::
  "'o os_ops \<Rightarrow> 'o state \<Rightarrow> ('o state \<times> size_t \<times> size_t \<times> size_t) res" where
  "mspace_malloc_stats E ms =
     (if ok_magic ms then internal_malloc_stats E ms else Inl UsageAbort)"

end
