(* ===== verification/DL_Debug.thy ===== *)
theory DL_Debug
  imports DL_Api
begin

text \<open>
  The debugging checks of src/src/dlmalloc.c (\<open>do_check_any_chunk\<close> to
  \<open>do_check_malloc_state\<close>): the code's own statement of the invariants of the heap. A check is
  a function to \<open>bool\<close>, true when every \<open>assert\<close> on its way holds; those with loops are
  partial functions, where \<open>None\<close> is a loop that never returns.
\<close>

definition do_check_any_chunk :: "'o state \<Rightarrow> addr \<Rightarrow> bool" where
  "do_check_any_chunk m p \<longleftrightarrow>
     (is_aligned (chunk2mem p) \<or> head m p = FENCEPOST_HEAD) \<and> ok_address m p"

definition do_check_top_chunk :: "'o state \<Rightarrow> addr \<Rightarrow> bool res" where
  "do_check_top_chunk m p =
     bindR (segment_holding m p) (\<lambda>sp.
       let sz = head m p AND NOT INUSE_BITS
       in Inr (sp \<noteq> 0
         \<and> (is_aligned (chunk2mem p) \<or> head m p = FENCEPOST_HEAD)
         \<and> ok_address m p
         \<and> sz = topsize m
         \<and> sz > 0
         \<and> sz = ((sg_base m sp + sg_size m sp) - p) - TOP_FOOT_SIZE
         \<and> pinuse m p
         \<and> \<not> pinuse m (chunk_plus_offset p sz)))"

definition do_check_mmapped_chunk :: "'o state \<Rightarrow> addr \<Rightarrow> bool" where
  "do_check_mmapped_chunk m p \<longleftrightarrow>
     (let sz = chunksize m p;
          len = sz + prev_foot m p + MMAP_FOOT_PAD
      in is_mmapped m p \<and> use_mmap m
         \<and> (is_aligned (chunk2mem p) \<or> head m p = FENCEPOST_HEAD)
         \<and> ok_address m p \<and> \<not> is_small sz \<and> len AND (page_size m - 1) = 0
         \<and> head m (chunk_plus_offset p sz) = FENCEPOST_HEAD
         \<and> head m (chunk_plus_offset p (sz + SIZE_T_SIZE)) = 0)"

definition do_check_inuse_chunk :: "'o state \<Rightarrow> addr \<Rightarrow> bool" where
  "do_check_inuse_chunk m p \<longleftrightarrow>
     do_check_any_chunk m p \<and> is_inuse m p \<and> next_pinuse m p
     \<and> (is_mmapped m p \<or> pinuse m p \<or> next_chunk m (prev_chunk m p) = p)
     \<and> (is_mmapped m p \<longrightarrow> do_check_mmapped_chunk m p)"

definition do_check_free_chunk :: "'o state \<Rightarrow> addr \<Rightarrow> bool" where
  "do_check_free_chunk m p \<longleftrightarrow>
     (let sz = chunksize m p;
          nxt = chunk_plus_offset p sz
      in do_check_any_chunk m p \<and> \<not> is_inuse m p \<and> \<not> next_pinuse m p \<and> \<not> is_mmapped m p
         \<and> (p \<noteq> dv m \<and> p \<noteq> topp m \<longrightarrow>
             (if MIN_CHUNK_SIZE \<le> sz
              then sz AND CHUNK_ALIGN_MASK = 0 \<and> is_aligned (chunk2mem p)
                   \<and> prev_foot m nxt = sz \<and> pinuse m p \<and> (nxt = topp m \<or> is_inuse m nxt)
                   \<and> bk m (fd m p) = p \<and> fd m (bk m p) = p
              else sz = SIZE_T_SIZE)))"

definition do_check_malloced_chunk :: "'o state \<Rightarrow> addr \<Rightarrow> size_t \<Rightarrow> bool" where
  "do_check_malloced_chunk m ptr s \<longleftrightarrow>
     (ptr \<noteq> 0 \<longrightarrow>
       (let p = mem2chunk ptr;
            sz = head m p AND NOT INUSE_BITS
        in do_check_inuse_chunk m p \<and> sz AND CHUNK_ALIGN_MASK = 0 \<and> MIN_CHUNK_SIZE \<le> sz
           \<and> s \<le> sz \<and> (is_mmapped m p \<or> sz < s + MIN_CHUNK_SIZE)))"

section \<open>Trees\<close>

text \<open>The assertions of \<open>do_check_tree\<close> before its loop.\<close>

definition check_tree_index :: "'o state \<Rightarrow> addr \<Rightarrow> bool" where
  "check_tree_index m t \<longleftrightarrow>
     (let tindex = index m t;
          tsize = chunksize m t;
          idx = compute_tree_index tsize
      in tindex = idx \<and> MIN_LARGE_SIZE \<le> tsize \<and> minsize_for_tree_index idx \<le> tsize
         \<and> (idx = NTREEBINS - 1 \<or> tsize < minsize_for_tree_index (idx + 1)))"

text \<open>The assertions on one node of the chain of \<open>t\<close>, without the recursive calls.\<close>

definition check_tree_node :: "'o state \<Rightarrow> addr \<Rightarrow> addr \<Rightarrow> addr \<Rightarrow> bool" where
  "check_tree_node m t u hnode \<longleftrightarrow>
     do_check_any_chunk m u \<and> index m u = index m t \<and> chunksize m u = chunksize m t
     \<and> \<not> is_inuse m u \<and> \<not> next_pinuse m u \<and> bk m (fd m u) = u \<and> fd m (bk m u) = u
     \<and> (if parent m u = 0 then child m u 0 = 0 \<and> child m u 1 = 0
        else hnode = 0 \<and> parent m u \<noteq> u
          \<and> (child m (parent m u) 0 = u \<or> child m (parent m u) 1 = u \<or> rd m (parent m u) = u)
          \<and> (child m u 0 \<noteq> 0 \<longrightarrow> parent m (child m u 0) = u \<and> child m u 0 \<noteq> u)
          \<and> (child m u 1 \<noteq> 0 \<longrightarrow> parent m (child m u 1) = u \<and> child m u 1 \<noteq> u)
          \<and> (child m u 0 \<noteq> 0 \<and> child m u 1 \<noteq> 0 \<longrightarrow>
              chunksize m (child m u 0) < chunksize m (child m u 1)))"

text \<open>
  The loop of \<open>do_check_tree\<close> over the chain of \<open>t\<close>, at node \<open>u\<close> with local \<open>head\<close>. A
  recursive call on a child \<open>c\<close> is the check before the loop and the loop from \<open>c\<close>.
\<close>

partial_function (option) check_tree_loop :: "'o state \<Rightarrow> addr \<Rightarrow> addr \<Rightarrow> addr \<Rightarrow> bool option"
where
  "check_tree_loop m t u hnode =
     (if \<not> check_tree_node m t u hnode then Some False
      else Option.bind
        (if parent m u \<noteq> 0 \<and> child m u 0 \<noteq> 0
         then if check_tree_index m (child m u 0)
              then check_tree_loop m (child m u 0) (child m u 0) 0 else Some False
         else Some True) (\<lambda>ok0.
      Option.bind
        (if parent m u \<noteq> 0 \<and> child m u 1 \<noteq> 0
         then if check_tree_index m (child m u 1)
              then check_tree_loop m (child m u 1) (child m u 1) 0 else Some False
         else Some True) (\<lambda>ok1.
        let hnode = (if parent m u \<noteq> 0 then u else hnode);
            u = fd m u
        in if \<not> ok0 \<or> \<not> ok1 then Some False
           else if u \<noteq> t then check_tree_loop m t u hnode
           else Some (hnode \<noteq> 0))))"

declare check_tree_loop.simps [code]

definition do_check_tree :: "'o state \<Rightarrow> addr \<Rightarrow> bool res" where
  "do_check_tree m t =
     (if check_tree_index m t then run_loop (map_option Inr (check_tree_loop m t t 0))
      else Inr False)"

definition do_check_treebin :: "'o state \<Rightarrow> u32 \<Rightarrow> bool res" where
  "do_check_treebin m i =
     (let tb = treebin_at m i;
          t = rd m tb;
          empty = (treemap m AND push_bit (unat i) 1 = 0)
      in if t = 0 \<and> \<not> empty then Inr False
         else if \<not> empty then do_check_tree m t else Inr True)"

section \<open>Small bins and membership\<close>

partial_function (option) check_smallbin_loop ::
  "'o state \<Rightarrow> u32 \<Rightarrow> addr \<Rightarrow> addr \<Rightarrow> bool res option"
where
  "check_smallbin_loop m i b p =
     (if p = b then Some (Inr True)
      else let size = chunksize m p;
               q = next_chunk m p
        in if do_check_free_chunk m p \<and> small_index size = i
              \<and> (bk m p = b \<or> chunksize m (bk m p) = chunksize m p)
              \<and> (head m q \<noteq> FENCEPOST_HEAD \<longrightarrow> do_check_inuse_chunk m q)
           then check_smallbin_loop m i b (bk m p)
           else Some (Inr False))"

declare check_smallbin_loop.simps [code]

definition do_check_smallbin :: "'o state \<Rightarrow> u32 \<Rightarrow> bool res" where
  "do_check_smallbin m i =
     (let b = smallbin_at m i;
          p = bk m b;
          empty = (smallmap m AND push_bit (unat i) 1 = 0)
      in if p = b \<and> \<not> empty then Inr False
         else if \<not> empty then run_loop (check_smallbin_loop m i b p) else Inr True)"

text \<open>The \<open>do\<close>-\<open>while\<close> loops of \<open>bin_find\<close> along \<open>fd\<close>, from \<open>p\<close> until \<open>stop\<close>.\<close>

partial_function (option) fd_find_loop :: "'o state \<Rightarrow> addr \<Rightarrow> addr \<Rightarrow> addr \<Rightarrow> bool res option"
where
  "fd_find_loop m x stop p =
     (if p = x then Some (Inr True)
      else if fd m p \<noteq> stop then fd_find_loop m x stop (fd m p) else Some (Inr False))"

declare fd_find_loop.simps [code]

partial_function (option) tree_find_loop ::
  "'o state \<Rightarrow> size_t \<Rightarrow> addr \<Rightarrow> size_t \<Rightarrow> addr res option"
where
  "tree_find_loop m tsz t sizebits =
     (if t \<noteq> 0 \<and> chunksize m t \<noteq> tsz
      then tree_find_loop m tsz (child m t (drop_bit 63 sizebits AND 1)) (push_bit 1 sizebits)
      else Some (Inr t))"

declare tree_find_loop.simps [code]

definition bin_find :: "'o state \<Rightarrow> addr \<Rightarrow> bool res" where
  "bin_find m x =
     (let size = chunksize m x
      in if is_small size
         then let sidx = small_index size;
                  b = smallbin_at m sidx
           in if smallmap_is_marked m sidx then run_loop (fd_find_loop m x b b) else Inr False
         else let tidx = compute_tree_index size
           in if treemap_is_marked m tidx
              then let t = rd m (treebin_at m tidx);
                       sizebits = push_bit (leftshift_for_tree_index tidx) size
                in bindR (run_loop (tree_find_loop m size t sizebits)) (\<lambda>t.
                     if t \<noteq> 0 then run_loop (fd_find_loop m x t t) else Inr False)
              else Inr False)"

section \<open>The whole state\<close>

text \<open>
  \<open>traverse_and_check\<close>: the sum of the sizes of all chunks, with \<open>False\<close> if an assertion fails.
\<close>

definition traverse_check_chunk :: "'o state \<Rightarrow> addr \<Rightarrow> addr \<Rightarrow> bool res" where
  "traverse_check_chunk m q lastq =
     (if is_inuse m q
      then bindR (bin_find m q) (\<lambda>f. Inr (\<not> f \<and> do_check_inuse_chunk m q))
      else bindR (if q = dv m then Inr True else bin_find m q) (\<lambda>f.
        Inr (f \<and> (lastq = 0 \<or> is_inuse m lastq) \<and> do_check_free_chunk m q)))"

partial_function (option) traverse_chunks_loop ::
  "'o state \<Rightarrow> addr \<Rightarrow> addr \<Rightarrow> addr \<Rightarrow> size_t \<Rightarrow> (bool \<times> size_t) res option"
where
  "traverse_chunks_loop m s q lastq acc =
     (if segment_holds m s q \<and> q \<noteq> topp m \<and> head m q \<noteq> FENCEPOST_HEAD
      then let acc = acc + chunksize m q
        in case traverse_check_chunk m q lastq of
             Inl e \<Rightarrow> Some (Inl e)
           | Inr ok \<Rightarrow> if ok then traverse_chunks_loop m s (next_chunk m q) q acc
                       else Some (Inr (False, acc))
      else Some (Inr (True, acc)))"

declare traverse_chunks_loop.simps [code]

partial_function (option) traverse_segments_loop ::
  "'o state \<Rightarrow> addr \<Rightarrow> size_t \<Rightarrow> (bool \<times> size_t) res option"
where
  "traverse_segments_loop m s acc =
     (if s = 0 then Some (Inr (True, acc))
      else let q = align_as_chunk (sg_base m s)
        in if \<not> pinuse m q then Some (Inr (False, acc))
           else Option.bind (traverse_chunks_loop m s q 0 acc) (\<lambda>r.
             case r of
               Inl e \<Rightarrow> Some (Inl e)
             | Inr (ok, acc) \<Rightarrow> if ok then traverse_segments_loop m (sg_next m s) acc
                                 else Some (Inr (False, acc))))"

declare traverse_segments_loop.simps [code]

definition traverse_and_check :: "'o state \<Rightarrow> (bool \<times> size_t) res" where
  "traverse_and_check m =
     (if is_initialized m
      then run_loop (traverse_segments_loop m (seg m) (topsize m + TOP_FOOT_SIZE))
      else Inr (True, 0))"

text \<open>A conjunction of checks, in order, stopping at the first that fails.\<close>

definition andR :: "bool res \<Rightarrow> bool res \<Rightarrow> bool res" where
  "andR a b = bindR a (\<lambda>x. if x then b else Inr False)"

definition do_check_malloc_state :: "'o state \<Rightarrow> bool res" where
  "do_check_malloc_state m =
     foldr andR
       (map (\<lambda>i. do_check_smallbin m (of_nat i)) [0..<unat NSMALLBINS]
        @ map (\<lambda>i. do_check_treebin m (of_nat i)) [0..<unat NTREEBINS]
        @ [if dvsize m \<noteq> 0
           then if do_check_any_chunk m (dv m) \<and> dvsize m = chunksize m (dv m)
                   \<and> MIN_CHUNK_SIZE \<le> dvsize m
                then bindR (bin_find m (dv m)) (\<lambda>f. Inr (\<not> f)) else Inr False
           else Inr True,
           if topp m \<noteq> 0
           then andR (do_check_top_chunk m (topp m))
                  (if topsize m > 0
                   then bindR (bin_find m (topp m)) (\<lambda>f. Inr (\<not> f)) else Inr False)
           else Inr True,
           bindR (traverse_and_check m) (\<lambda>(ok, tot).
             Inr (ok \<and> tot \<le> footprint m \<and> footprint m \<le> max_footprint m))])
       (Inr True)"

end
