(* ===== verification/DL_Locks.thy ===== *)
theory DL_Locks
  imports DL_Prelude
begin

text \<open>
  The spin locks of src/src/dlmalloc.c (\<open>USE_LOCKS\<close> and \<open>USE_SPIN_LOCKS\<close> set), which are not
  part of the default configuration: the plain lock (\<open>spin_acquire_lock\<close>) and, under
  \<open>USE_RECURSIVE_LOCKS\<close>, the recursive one. Any number of threads run the operations; a step of
  the relation is one access to a shared word, so that the threads interleave between any two
  accesses. \<open>CAS_LOCK\<close> is \<open>__sync_lock_test_and_set(sl, 1)\<close>: it stores 1 and returns the old
  value, atomically. \<open>SPIN_LOCK_YIELD\<close> has no effect on the state.

  The plain lock excludes other threads. The recursive lock does not: \<open>threadid\<close> is not reset
  by a release and is written after the lock word by an acquire, so that the thread that held
  the lock last can take an acquire of another thread for its own.
\<close>

section \<open>The plain spin lock\<close>

text \<open>
  Where a thread is: outside, at the first \<open>CAS_LOCK\<close> of \<open>ACQUIRE_LOCK\<close>, at the read of the
  loop condition of \<open>spin_acquire_lock\<close>, at the \<open>CAS_LOCK\<close> there, or holding the lock.
\<close>

datatype spin_pc = Outside | FirstCas | ReadLock | LoopCas | Holding

record 't spin_state =
  sl :: int
  spc :: "'t \<Rightarrow> spin_pc"

definition CAS_LOCK :: "int \<Rightarrow> int \<times> int" where "CAS_LOCK old = (1, old)"

definition CLEAR_LOCK :: int where "CLEAR_LOCK = 0"

inductive spin_step :: "'t spin_state \<Rightarrow> 't \<Rightarrow> 't spin_state \<Rightarrow> bool" where
  begin_acquire: "spc s t = Outside \<Longrightarrow> spin_step s t (s\<lparr>spc := (spc s)(t := FirstCas)\<rparr>)"
| first_cas_ok: "spc s t = FirstCas \<Longrightarrow> CAS_LOCK (sl s) = (v, 0)
    \<Longrightarrow> spin_step s t (s\<lparr>sl := v, spc := (spc s)(t := Holding)\<rparr>)"
| first_cas_fail: "spc s t = FirstCas \<Longrightarrow> CAS_LOCK (sl s) = (v, r) \<Longrightarrow> r \<noteq> 0
    \<Longrightarrow> spin_step s t (s\<lparr>sl := v, spc := (spc s)(t := ReadLock)\<rparr>)"
| read_busy: "spc s t = ReadLock \<Longrightarrow> sl s \<noteq> 0 \<Longrightarrow> spin_step s t s"
| read_free: "spc s t = ReadLock \<Longrightarrow> sl s = 0
    \<Longrightarrow> spin_step s t (s\<lparr>spc := (spc s)(t := LoopCas)\<rparr>)"
| loop_cas_ok: "spc s t = LoopCas \<Longrightarrow> CAS_LOCK (sl s) = (v, 0)
    \<Longrightarrow> spin_step s t (s\<lparr>sl := v, spc := (spc s)(t := Holding)\<rparr>)"
| loop_cas_fail: "spc s t = LoopCas \<Longrightarrow> CAS_LOCK (sl s) = (v, r) \<Longrightarrow> r \<noteq> 0
    \<Longrightarrow> spin_step s t (s\<lparr>sl := v, spc := (spc s)(t := ReadLock)\<rparr>)"
| try_ok: "spc s t = Outside \<Longrightarrow> CAS_LOCK (sl s) = (v, 0)
    \<Longrightarrow> spin_step s t (s\<lparr>sl := v, spc := (spc s)(t := Holding)\<rparr>)"
| try_fail: "spc s t = Outside \<Longrightarrow> CAS_LOCK (sl s) = (v, r) \<Longrightarrow> r \<noteq> 0
    \<Longrightarrow> spin_step s t (s\<lparr>sl := v\<rparr>)"
| release: "spc s t = Holding
    \<Longrightarrow> spin_step s t (s\<lparr>sl := CLEAR_LOCK, spc := (spc s)(t := Outside)\<rparr>)"

inductive_cases spin_stepE: "spin_step s t s'"

definition spin_init :: "'t spin_state" where
  "spin_init = \<lparr>sl = 0, spc = (\<lambda>_. Outside)\<rparr>"

inductive spin_reachable :: "'t spin_state \<Rightarrow> bool" where
  init: "spin_reachable spin_init"
| step: "spin_reachable s \<Longrightarrow> spin_step s t s' \<Longrightarrow> spin_reachable s'"

section \<open>The recursive spin lock\<close>

text \<open>
  \<open>recursive_acquire_lock\<close> reads \<open>sl\<close>, then tries \<open>CAS_LOCK\<close> and writes \<open>threadid\<close> and \<open>c\<close>, or
  compares \<open>threadid\<close> and increments \<open>c\<close>; the flag of a program point tells an acquire (which
  loops) from a \<open>recursive_try_lock\<close> (which gives up). Incrementing and decrementing \<open>c\<close> read
  and write it without a lock. \<open>RHolding n\<close> is a thread that has acquired the lock \<open>n\<close> times
  and not released it.
\<close>

datatype rec_pc =
    RHolding nat
  | RReadSl bool nat
  | RCas bool nat
  | RSetOwner nat
  | RSetCount nat
  | RCompare bool nat
  | RIncrement nat
  | RDecrement nat
  | RClear nat

record 't rec_state =
  lk_sl :: int
  lk_c :: u32
  lk_threadid :: "'t option"
  rpc :: "'t \<Rightarrow> rec_pc"

inductive rec_step :: "'t rec_state \<Rightarrow> 't \<Rightarrow> 't rec_state \<Rightarrow> bool" where
  r_call: "rpc s t = RHolding n \<Longrightarrow> rec_step s t (s\<lparr>rpc := (rpc s)(t := RReadSl once n)\<rparr>)"
| r_free: "rpc s t = RReadSl once n \<Longrightarrow> lk_sl s = 0
    \<Longrightarrow> rec_step s t (s\<lparr>rpc := (rpc s)(t := RCas once n)\<rparr>)"
| r_busy: "rpc s t = RReadSl once n \<Longrightarrow> lk_sl s \<noteq> 0
    \<Longrightarrow> rec_step s t (s\<lparr>rpc := (rpc s)(t := RCompare once n)\<rparr>)"
| r_cas_ok: "rpc s t = RCas once n \<Longrightarrow> CAS_LOCK (lk_sl s) = (v, 0)
    \<Longrightarrow> rec_step s t (s\<lparr>lk_sl := v, rpc := (rpc s)(t := RSetOwner n)\<rparr>)"
| r_cas_fail: "rpc s t = RCas once n \<Longrightarrow> CAS_LOCK (lk_sl s) = (v, r) \<Longrightarrow> r \<noteq> 0
    \<Longrightarrow> rec_step s t (s\<lparr>lk_sl := v,
          rpc := (rpc s)(t := if once then RHolding n else RReadSl once n)\<rparr>)"
| r_owner: "rpc s t = RSetOwner n
    \<Longrightarrow> rec_step s t (s\<lparr>lk_threadid := Some t, rpc := (rpc s)(t := RSetCount n)\<rparr>)"
| r_count: "rpc s t = RSetCount n
    \<Longrightarrow> rec_step s t (s\<lparr>lk_c := 1, rpc := (rpc s)(t := RHolding (Suc n))\<rparr>)"
| r_own: "rpc s t = RCompare once n \<Longrightarrow> lk_threadid s = Some t
    \<Longrightarrow> rec_step s t (s\<lparr>rpc := (rpc s)(t := RIncrement n)\<rparr>)"
| r_other: "rpc s t = RCompare once n \<Longrightarrow> lk_threadid s \<noteq> Some t
    \<Longrightarrow> rec_step s t (s\<lparr>rpc := (rpc s)(t := if once then RHolding n else RReadSl once n)\<rparr>)"
| r_incr: "rpc s t = RIncrement n
    \<Longrightarrow> rec_step s t (s\<lparr>lk_c := lk_c s + 1, rpc := (rpc s)(t := RHolding (Suc n))\<rparr>)"
| r_release: "rpc s t = RHolding (Suc n)
    \<Longrightarrow> rec_step s t (s\<lparr>rpc := (rpc s)(t := RDecrement n)\<rparr>)"
| r_decr: "rpc s t = RDecrement n
    \<Longrightarrow> rec_step s t (s\<lparr>lk_c := lk_c s - 1,
          rpc := (rpc s)(t := if lk_c s - 1 = 0 then RClear n else RHolding n)\<rparr>)"
| r_clear: "rpc s t = RClear n
    \<Longrightarrow> rec_step s t (s\<lparr>lk_sl := CLEAR_LOCK, rpc := (rpc s)(t := RHolding n)\<rparr>)"

definition rec_init :: "'t rec_state" where
  "rec_init = \<lparr>lk_sl = 0, lk_c = 0, lk_threadid = None, rpc = (\<lambda>_. RHolding 0)\<rparr>"

inductive rec_reachable :: "'t rec_state \<Rightarrow> bool" where
  rinit: "rec_reachable rec_init"
| rstep: "rec_reachable s \<Longrightarrow> rec_step s t s' \<Longrightarrow> rec_reachable s'"


section \<open>Properties\<close>

text \<open>The lock word tells whether a thread holds the lock, and only one can.\<close>

definition spin_inv :: "'t spin_state \<Rightarrow> bool" where
  "spin_inv s \<longleftrightarrow> sl s \<in> {0, 1} \<and> (sl s = 0 \<longleftrightarrow> (\<forall>t. spc s t \<noteq> Holding))
     \<and> (\<forall>t u. spc s t = Holding \<and> spc s u = Holding \<longrightarrow> t = u)"

lemma spin_inv_init: "spin_inv spin_init"
  by (simp add: spin_inv_def spin_init_def)

lemma spin_inv_step: "spin_step s t s' \<Longrightarrow> spin_inv s \<Longrightarrow> spin_inv s'"
  by (induction rule: spin_step.induct)
    (auto simp: spin_inv_def CAS_LOCK_def CLEAR_LOCK_def split: if_splits,
      (metis spin_pc.distinct(8,14,20))+)

lemma spin_reachable_inv: "spin_reachable s \<Longrightarrow> spin_inv s"
  by (induction rule: spin_reachable.induct) (auto intro: spin_inv_init spin_inv_step)

text \<open>
  C32. Mutual exclusion of the plain spin lock: in every interleaving of any number of threads,
  at most one thread is between a successful acquire and its release.
\<close>

theorem spin_lock_mutual_exclusion:
  assumes "spin_reachable s" "spc s t = Holding" "spc s u = Holding"
  shows "t = u"
  using spin_reachable_inv [OF assms(1)] assms(2,3) by (simp add: spin_inv_def)

lemma spin_one_holder: "spin_reachable (spin_init\<lparr>sl := 1, spc := (\<lambda>_. Outside)(t := Holding)\<rparr>)"
proof -
  have "spin_step spin_init t (spin_init\<lparr>sl := 1, spc := (spc spin_init)(t := Holding)\<rparr>)"
    by (rule spin_step.try_ok) (simp_all add: spin_init_def CAS_LOCK_def)
  then show ?thesis
    using spin_reachable.step [OF spin_reachable.init] by (fastforce simp: spin_init_def)
qed

theorem spin_lock_mutual_exclusion_witness:
  "spc (spin_init\<lparr>sl := 1, spc := (\<lambda>_. Outside)(3 := Holding)\<rparr>) (3 :: nat) = Holding
    \<and> spc (spin_init\<lparr>sl := 1, spc := (\<lambda>_. Outside)(3 := Holding)\<rparr>) (5 :: nat) \<noteq> Holding"
  using spin_lock_mutual_exclusion [OF spin_one_holder [of 3], of 5 3] by auto

text \<open>
  A run of interleaved threads: each entry is the thread that takes a step and the state it
  leaves. The number of steps a thread in \<open>spin_acquire_lock\<close> has to take on a lock that stays
  free depends on where it is.
\<close>

fun spin_run :: "'t spin_state \<Rightarrow> ('t \<times> 't spin_state) list \<Rightarrow> bool" where
  "spin_run s [] \<longleftrightarrow> True"
| "spin_run s ((u, s1) # r) \<longleftrightarrow> spin_step s u s1 \<and> spin_run s1 r"

fun steps_needed :: "spin_pc \<Rightarrow> nat" where
  "steps_needed Outside = 0"
| "steps_needed FirstCas = 1"
| "steps_needed ReadLock = 2"
| "steps_needed LoopCas = 1"
| "steps_needed Holding = 0"

lemma spin_step_other: "spin_step s u s1 \<Longrightarrow> t \<noteq> u \<Longrightarrow> spc s1 t = spc s t"
  by (induction rule: spin_step.induct) simp_all

lemma spin_step_free:
  assumes "spin_step s t s1" "sl s = 0" "spc s t \<in> {FirstCas, ReadLock, LoopCas}"
  shows "spc s1 t = Holding \<or> spc s t = ReadLock \<and> spc s1 t = LoopCas"
  using assms by (induction rule: spin_step.induct) (auto simp: CAS_LOCK_def)

text \<open>In no state a thread is stuck.\<close>

lemma spin_step_total: "\<exists>s1. spin_step s t s1"
proof (cases "spc s t")
  case Outside
  then show ?thesis using spin_step.begin_acquire [of s t] by blast
next
  case FirstCas
  then show ?thesis
    by (cases "sl s = 0") (use spin_step.first_cas_ok [of s t 1] spin_step.first_cas_fail [of s t 1 "sl s"]
      in \<open>auto simp: CAS_LOCK_def\<close>)
next
  case ReadLock
  then show ?thesis using spin_step.read_busy [of s t] spin_step.read_free [of s t] by blast
next
  case LoopCas
  then show ?thesis
    by (cases "sl s = 0") (use spin_step.loop_cas_ok [of s t 1] spin_step.loop_cas_fail [of s t 1 "sl s"]
      in \<open>auto simp: CAS_LOCK_def\<close>)
next
  case Holding
  then show ?thesis using spin_step.release [of s t] by blast
qed

lemma spin_run_progress:
  assumes "spin_inv s" "spin_run s r" "\<forall>u. spc s u \<noteq> Holding"
    and "spc s t \<in> {FirstCas, ReadLock, LoopCas}"
    and "steps_needed (spc s t) \<le> length (filter (\<lambda>x. fst x = t) r)"
  shows "\<exists>x\<in>set r. spc (snd x) (fst x) = Holding"
  using assms
proof (induction r arbitrary: s)
  case Nil
  then show ?case by auto
next
  case (Cons x r)
  obtain u s1 where x: "x = (u, s1)" by (cases x)
  have st: "spin_step s u s1" "spin_run s1 r" using Cons.prems(2) by (simp_all add: x)
  show ?case
  proof (cases "spc s1 u = Holding")
    case True
    then show ?thesis by (simp add: x)
  next
    case False
    have free: "\<forall>v. spc s1 v \<noteq> Holding"
      using False Cons.prems(3) spin_step_other [OF st(1)] by metis
    have sl: "sl s = 0" using Cons.prems(1,3) by (simp add: spin_inv_def)
    have "spc s1 t \<in> {FirstCas, ReadLock, LoopCas}
      \<and> steps_needed (spc s1 t) \<le> length (filter (\<lambda>x. fst x = t) r)"
    proof (cases "u = t")
      case True
      then have "spc s t = ReadLock \<and> spc s1 t = LoopCas"
        using spin_step_free [OF _ sl Cons.prems(4)] st(1) False by blast
      then show ?thesis using Cons.prems(5) True by (simp add: x)
    next
      case u: False
      then show ?thesis using Cons.prems(4,5) spin_step_other [OF st(1), of t] by (simp add: x)
    qed
    then show ?thesis
      using Cons.IH [OF spin_inv_step [OF st(1) Cons.prems(1)] st(2) free] by auto
  qed
qed

text \<open>
  C34. Progress of the plain spin lock under any interleaving: no thread is ever stuck, and from
  a reachable state in which no thread holds the lock and thread t is inside \<open>spin_acquire_lock\<close>
  or at the first \<open>CAS_LOCK\<close> of \<open>ACQUIRE_LOCK\<close>, in every run in which t takes at least two steps
  (one at a \<open>CAS_LOCK\<close>), whatever the others do in between, some thread acquires the lock with a
  step of its own; it is t when t is the only one that steps.
\<close>

theorem spin_lock_progress:
  fixes s :: "'a spin_state"
  assumes r: "spin_reachable s" and f: "\<forall>u. spc s u \<noteq> Holding"
    and w: "spc s t \<in> {FirstCas, ReadLock, LoopCas}"
    and run: "spin_run s r" and n: "steps_needed (spc s t) \<le> length (filter (\<lambda>x. fst x = t) r)"
  shows "(\<exists>u s1. (u, s1) \<in> set r \<and> spc s1 u = Holding)
    \<and> ((\<forall>x\<in>set r. fst x = t) \<longrightarrow> (\<exists>s1. (t, s1) \<in> set r \<and> spc s1 t = Holding))
    \<and> (\<forall>s1 u. \<exists>s2. spin_step (s1 :: 'a spin_state) u s2)"
proof -
  from spin_run_progress [OF spin_reachable_inv [OF r] run f w n] obtain x where
    "x \<in> set r" "spc (snd x) (fst x) = Holding" by blast
  moreover have "(fst x, snd x) = x" for x :: "'a \<times> 'a spin_state" by simp
  ultimately show ?thesis using spin_step_total by metis
qed

text \<open>A second thread that failed its first \<open>CAS_LOCK\<close> waits; the holder then releases.\<close>

definition spin_waiting :: "nat spin_state" where
  "spin_waiting = \<lparr>sl = 0, spc = (\<lambda>_. Outside)(1 := ReadLock)\<rparr>"

lemma spin_waiting_reachable: "spin_reachable spin_waiting"
proof -
  let ?pc = "(\<lambda>_. Outside) :: nat \<Rightarrow> spin_pc"
  let ?s1 = "\<lparr>sl = 1, spc = ?pc(0 := Holding)\<rparr>"
    and ?s2 = "\<lparr>sl = 1, spc = ?pc(0 := Holding, 1 := FirstCas)\<rparr>"
    and ?s3 = "\<lparr>sl = 1, spc = ?pc(0 := Holding, 1 := ReadLock)\<rparr>"
  have 1: "spin_reachable ?s1" using spin_one_holder [of 0] by (simp add: spin_init_def)
  have "spin_step ?s1 1 ?s2" using spin_step.begin_acquire [of ?s1 1] by simp
  then have 2: "spin_reachable ?s2" using 1 by (rule spin_reachable.step [rotated])
  have "spin_step ?s2 1 ?s3"
    using spin_step.first_cas_fail [of ?s2 1 1 1] by (simp add: CAS_LOCK_def)
  then have 3: "spin_reachable ?s3" using 2 by (rule spin_reachable.step [rotated])
  have "spin_step ?s3 0 spin_waiting"
    using spin_step.release [of ?s3 0]
    by (simp add: spin_waiting_def CLEAR_LOCK_def fun_upd_twist fun_upd_idem)
  then show ?thesis using 3 by (rule spin_reachable.step [rotated])
qed

text \<open>
  Thread 1 reads the lock word as free; thread 2 takes the lock before thread 1 does, whose
  \<open>CAS_LOCK\<close> then fails.
\<close>

theorem spin_lock_progress_witness:
  "\<exists>u s1. (u, s1) \<in> set [(1 :: nat, spin_waiting\<lparr>spc := (\<lambda>_. Outside)(1 := LoopCas)\<rparr>),
      (2, \<lparr>sl = 1, spc = (\<lambda>_. Outside)(1 := LoopCas, 2 := Holding)\<rparr>),
      (1, \<lparr>sl = 1, spc = (\<lambda>_. Outside)(1 := ReadLock, 2 := Holding)\<rparr>)]
    \<and> spc s1 u = Holding"
proof -
  let ?a = "spin_waiting\<lparr>spc := (\<lambda>_. Outside)(1 := LoopCas)\<rparr>"
    and ?b = "\<lparr>sl = 1, spc = (\<lambda>_. Outside)(1 := LoopCas, 2 := Holding)\<rparr> :: nat spin_state"
    and ?c = "\<lparr>sl = 1, spc = (\<lambda>_. Outside)(1 := ReadLock, 2 := Holding)\<rparr> :: nat spin_state"
  have "spin_step spin_waiting 1 ?a"
    using spin_step.read_free [of spin_waiting 1] by (simp add: spin_waiting_def)
  moreover have "spin_step ?a 2 ?b"
    using spin_step.try_ok [of ?a 2 1] by (simp add: spin_waiting_def CAS_LOCK_def)
  moreover have "spin_step ?b 1 ?c"
    using spin_step.loop_cas_fail [of ?b 1 1 1] by (simp add: CAS_LOCK_def fun_upd_twist)
  ultimately have run: "spin_run spin_waiting [(1, ?a), (2, ?b), (1, ?c)]" by simp
  show ?thesis
    by (rule spin_lock_progress [OF spin_waiting_reachable _ _ run, of 1, THEN conjunct1])
      (simp_all add: spin_waiting_def)
qed

text \<open>One thread acquires and releases the lock: its id stays in the lock.\<close>

abbreviation rec_st :: "int \<Rightarrow> u32 \<Rightarrow> nat option \<Rightarrow> (nat \<Rightarrow> rec_pc) \<Rightarrow> nat rec_state" where
  "rec_st v c w f \<equiv> \<lparr>lk_sl = v, lk_c = c, lk_threadid = w, rpc = f\<rparr>"

lemmas rec_go = rec_reachable.rstep

lemma rec_stale_owner: "rec_reachable (rec_st 0 0 (Some 0) (\<lambda>_. RHolding 0))"
proof -
  let ?pc = "(\<lambda>_. RHolding 0) :: nat \<Rightarrow> rec_pc"
  have "rec_reachable (rec_st 0 0 None ?pc)"
    using rec_reachable.rinit by (simp add: rec_init_def)
  from rec_go [OF this rec_step.r_call [of _ 0 0 False]]
  have "rec_reachable (rec_st 0 0 None (?pc(0 := RReadSl False 0)))" by simp
  from rec_go [OF this rec_step.r_free [of _ 0 False 0]]
  have "rec_reachable (rec_st 0 0 None (?pc(0 := RCas False 0)))" by simp
  from rec_go [OF this rec_step.r_cas_ok [of _ 0 False 0 1]]
  have "rec_reachable (rec_st 1 0 None (?pc(0 := RSetOwner 0)))" by (simp add: CAS_LOCK_def)
  from rec_go [OF this rec_step.r_owner [of _ 0 0]]
  have "rec_reachable (rec_st 1 0 (Some 0) (?pc(0 := RSetCount 0)))" by simp
  from rec_go [OF this rec_step.r_count [of _ 0 0]]
  have "rec_reachable (rec_st 1 1 (Some 0) (?pc(0 := RHolding 1)))" by simp
  from rec_go [OF this rec_step.r_release [of _ 0 0]]
  have "rec_reachable (rec_st 1 1 (Some 0) (?pc(0 := RDecrement 0)))" by simp
  from rec_go [OF this rec_step.r_decr [of _ 0 0]]
  have "rec_reachable (rec_st 1 0 (Some 0) (?pc(0 := RClear 0)))" by simp
  from rec_go [OF this rec_step.r_clear [of _ 0 0]]
  have "rec_reachable (rec_st 0 0 (Some 0) (?pc(0 := RHolding 0)))" by (simp add: CLEAR_LOCK_def)
  then show ?thesis by (simp add: fun_upd_idem)
qed

text \<open>
  C33. The recursive spin lock does not exclude other threads: a run of two threads ends with
  both between acquire and release. Thread 0 acquires and releases; thread 1 acquires and is
  interrupted before it writes \<open>threadid\<close>; thread 0 acquires again, reads the lock word as busy
  and its own stale id in \<open>threadid\<close>, and goes on as the owner.
\<close>

theorem recursive_lock_race:
  "\<exists>s :: nat rec_state. rec_reachable s \<and> rpc s 0 = RHolding 1 \<and> rpc s 1 = RHolding 1"
proof -
  let ?pc = "(\<lambda>_. RHolding 0) :: nat \<Rightarrow> rec_pc"
  from rec_go [OF rec_stale_owner rec_step.r_call [of _ 1 0 False]]
  have "rec_reachable (rec_st 0 0 (Some 0) (?pc(1 := RReadSl False 0)))" by simp
  from rec_go [OF this rec_step.r_free [of _ 1 False 0]]
  have "rec_reachable (rec_st 0 0 (Some 0) (?pc(1 := RCas False 0)))" by simp
  from rec_go [OF this rec_step.r_cas_ok [of _ 1 False 0 1]]
  have "rec_reachable (rec_st 1 0 (Some 0) (?pc(1 := RSetOwner 0)))" by (simp add: CAS_LOCK_def)
  from rec_go [OF this rec_step.r_call [of _ 0 0 False]]
  have "rec_reachable (rec_st 1 0 (Some 0) (?pc(1 := RSetOwner 0, 0 := RReadSl False 0)))" by simp
  from rec_go [OF this rec_step.r_busy [of _ 0 False 0]]
  have "rec_reachable (rec_st 1 0 (Some 0) (?pc(1 := RSetOwner 0, 0 := RCompare False 0)))" by simp
  from rec_go [OF this rec_step.r_own [of _ 0 False 0]]
  have "rec_reachable (rec_st 1 0 (Some 0) (?pc(1 := RSetOwner 0, 0 := RIncrement 0)))" by simp
  from rec_go [OF this rec_step.r_incr [of _ 0 0]]
  have "rec_reachable (rec_st 1 1 (Some 0) (?pc(1 := RSetOwner 0, 0 := RHolding 1)))" by simp
  from rec_go [OF this rec_step.r_owner [of _ 1 0]]
  have "rec_reachable (rec_st 1 1 (Some 1) (?pc(0 := RHolding 1, 1 := RSetCount 0)))"
    by (simp add: fun_upd_twist)
  from rec_go [OF this rec_step.r_count [of _ 1 0]]
  have r: "rec_reachable (rec_st 1 1 (Some 1) (?pc(0 := RHolding 1, 1 := RHolding 1)))" by simp
  show ?thesis
    by (rule exI [where x = "rec_st 1 1 (Some 1) (?pc(0 := RHolding 1, 1 := RHolding 1))"])
      (use r in simp)
qed

end
