(* ===== verification/DL_BinProps.thy ===== *)
theory DL_BinProps
  imports DL_FreeStore
begin

text \<open>
  What the bins of src/src/dlmalloc.c promise: the insertions and removals as operations on the
  set of free chunks, and the searches of \<open>tmalloc_small\<close> and \<open>tmalloc_large\<close>. The witnesses
  use a state with empty bins and the heads of a small and a large chunk.
\<close>

section \<open>A concrete state\<close>

definition fs0 :: "unit state" where
  "fs0 = wr (wr (static_state 0x1000 ()) 0x2008 35) 0x3008 515"

lemma header_bounds:
  assumes "maddr s = 0x1000" "a \<in> header_cells s"
  shows "unat a < 0x1400" "a \<noteq> 0"
proof -
  have u: "unat (0x1000 + (c + of_nat k) :: addr) = 0x1000 + unat c + k" if "unat c + k < 0x400" for c :: addr and k :: nat
  proof -
    have k: "unat (of_nat k :: addr) = k" using that by (simp add: unat_of_nat)
    have "unat (c + of_nat k) = unat c + k"
      using that k by (subst unat_add_lem [THEN iffD1]) simp_all
    then show ?thesis using that by (subst unat_add_lem [THEN iffD1]) simp_all
  qed
  have s: "smallbin_at s (of_nat i) + 16 = 0x1000 + (88 + of_nat (16 * i))"
    "smallbin_at s (of_nat i) + 24 = 0x1000 + (96 + of_nat (16 * i))" if "i < 32" for i
    using that assms(1) by (simp_all add: smallbin_at_nat)
  have "unat a < 0x1400 \<and> 0 < unat a"
    using assms(2)
  proof (auto simp only: header_cells_def link_cells_def small_headers_def tree_headers_def Un_iff image_iff lessThan_iff)
    fix i :: nat assume i: "i < 32"
    show "unat (smallbin_at s (of_nat i) + 16) < 0x1400" "0 < unat (smallbin_at s (of_nat i) + 16)"
      unfolding s(1) [OF i] using i u [of 88 "16 * i"] by simp_all
    show "unat (smallbin_at s (of_nat i) + 24) < 0x1400" "0 < unat (smallbin_at s (of_nat i) + 24)"
      unfolding s(2) [OF i] using i u [of 96 "16 * i"] by simp_all
    show "unat (treebin_at s (of_nat i)) < 0x1400" "0 < unat (treebin_at s (of_nat i))"
      unfolding treebin_at_nat [OF i] assms(1) using i u [of 600 "8 * i"] by simp_all
  qed
  then show "unat a < 0x1400" "a \<noteq> 0" by auto
qed

lemma cells_list: "cells p = {p + 8, p + 16, p + 24, p + 32, p + 40, p + 48, p + 56}"
  by (auto simp: cells_def offs_def)

lemma fs0_sizes: "head_size 35 = 32" "head_size 515 = 512"
  by code_simp+

lemma fs0_fields: "maddr fs0 = 0x1000" "least_addr fs0 = 0" "smallmap fs0 = 0" "treemap fs0 = 0"
  "chunksize fs0 0x2000 = 32" "chunksize fs0 0x3000 = 512"
  by (simp_all add: fs0_def wr_fields static_state_def chunksize_def head_def rd_wr fs0_sizes)

lemma fs0_headers: "a \<in> header_cells s \<Longrightarrow> maddr s = 0x1000 \<Longrightarrow> 0x1400 \<le> unat b \<Longrightarrow> b \<noteq> a"
  using header_bounds(1) [of s a] by auto

lemma fs0_trees: "treebins_ok fs0 (\<lambda>_. Tip)"
  unfolding treebins_ok_def
proof (intro conjI allI impI)
  have "0 \<notin> header_cells fs0" using header_bounds(2) [OF fs0_fields(1)] by blast
  then show "0 \<notin> tree_headers fs0" by (simp add: header_cells_def)
  fix i :: nat assume i: "i < 32"
  have "treebin_at fs0 (of_nat i) \<in> header_cells fs0" using i by (simp add: header_cells_def tree_headersI)
  from fs0_headers [OF this fs0_fields(1), of "0x2008"] fs0_headers [OF this fs0_fields(1), of "0x3008"]
  have "treebin_at fs0 (of_nat i) \<noteq> 0x2008" "treebin_at fs0 (of_nat i) \<noteq> 0x3008" by auto
  then show "tree_in fs0 (of_nat i) (treebin_at fs0 (of_nat i)) (treebin_at fs0 (of_nat i)) Tip"
    by (simp add: fs0_def rd_wr) (simp add: rd_def static_state_def)
qed (simp_all add: all_nodes_def sep_def bin_ok_def fs0_fields)

lemma fs0_rep: "free_rep fs0 {}"
proof -
  have "small_store fs0 (\<lambda>_. [])"
    by (simp add: small_store_def smallbins_ok_empty fs0_fields small_chunks_def disjoint_family_on_def)
  then have "free_ok fs0 (\<lambda>_. []) (\<lambda>_. Tip) {}"
    using fs0_trees
    by (simp add: free_ok_def small_entries_def small_chunks_def tree_entries_def disjoint_family_on_def)
  then show ?thesis by (auto simp: free_rep_def)
qed

lemma fs0_apart:
  assumes "maddr s = 0x1000" "\<forall>a\<in>A. 0x1400 \<le> unat a"
  shows "A \<inter> header_cells s = {}"
  using fs0_headers assms by blast

lemma fs0_small: "is_small 32" "\<not> is_small 512"
  by (simp_all add: is_small_def dl_consts)

lemma fs0_fresh: "free_fresh fs0 {} (0x3000, 512)" "chunk_cells (0x2000, 32) \<inter> chunk_cells (0x3000, 512) = {}"
proof -
  have "cells 0x3000 \<inter> header_cells fs0 = {}" by (rule fs0_apart) (simp_all add: fs0_fields cells_list)
  then show "free_fresh fs0 {} (0x3000, 512)"
    by (simp add: free_fresh_def fs0_fields fs0_small ok_address_def chunk_cells_def)
  show "chunk_cells (0x2000, 32) \<inter> chunk_cells (0x3000, 512) = {}"
    by (simp add: chunk_cells_def fs0_small scells_def cells_list)
qed

text \<open>With the large chunk in its bin, and then with both.\<close>

definition fs1 :: "unit state" where
  "fs1 = (case insert_chunk fs0 0x3000 512 of Inr s \<Rightarrow> s | Inl _ \<Rightarrow> fs0)"

definition fs2 :: "unit state" where
  "fs2 = (case insert_chunk fs1 0x2000 32 of Inr s \<Rightarrow> s | Inl _ \<Rightarrow> fs1)"

lemma fs1_rep: "insert_chunk fs0 0x3000 512 = Inr fs1" "free_rep fs1 {(0x3000, 512)}"
  "changes_bins (store_links fs0 {(0x3000, 512)}) fs0 fs1"
  using insert_chunk_free [OF fs0_rep fs0_fresh(1)] by (auto simp: fs1_def)

lemma fs1_fields: "maddr fs1 = 0x1000" "least_addr fs1 = 0" "chunksize fs1 0x2000 = 32"
proof -
  note f = changes_bins_fields [OF fs1_rep(3)]
  show "maddr fs1 = 0x1000" "least_addr fs1 = 0" using f fs0_fields by simp_all
  have "(0x2008 :: addr) \<notin> header_cells fs0" using fs0_apart [OF fs0_fields(1), of "{0x2008}"] by simp
  then have "(0x2000 :: addr) + 8 \<notin> store_links fs0 {(0x3000, 512)}"
    by (simp add: store_links_def chunk_links_def fs0_small body_def)
  then show "chunksize fs1 0x2000 = 32"
    using chunksize_rd [OF changes_binsD [OF fs1_rep(3)]] fs0_fields(5) by simp
qed

lemma fs1_fresh: "free_fresh fs1 {(0x3000, 512)} (0x2000, 32)"
proof -
  have "scells 0x2000 \<inter> header_cells fs1 = {}" by (rule fs0_apart) (simp_all add: fs1_fields scells_def)
  then show ?thesis using fs0_fresh(2)
    by (simp add: free_fresh_def fs1_fields fs0_small ok_address_def chunk_cells_def Int_Un_distrib)
qed

lemma fs2_rep: "insert_chunk fs1 0x2000 32 = Inr fs2" "free_rep fs2 {(0x2000, 32), (0x3000, 512)}"
  using insert_chunk_free [OF fs1_rep(2) fs1_fresh] by (auto simp: fs2_def)

section \<open>Properties\<close>

text \<open>
  C28. \<open>insert_chunk\<close> on well-formed bins that hold the set \<open>F\<close> of free chunks, and a fresh chunk
  of any size (below 1 TiB): it does not abort, its loop ends, and the bins then hold exactly
  \<open>F\<close> with the chunk; only links of free chunks and headers change.
\<close>

theorem insert_chunk_refines_insert:
  assumes "free_rep s F" "free_fresh s F (P, z)"
  shows "\<exists>s'. insert_chunk s P z = Inr s' \<and> free_rep s' (insert (P, z) F)
    \<and> changes_bins (store_links s (insert (P, z) F)) s s'"
  by (rule insert_chunk_free [OF assms])

theorem insert_chunk_refines_insert_witness:
  "\<exists>s'. insert_chunk fs1 0x2000 32 = Inr s' \<and> free_rep s' {(0x2000, 32), (0x3000, 512)}"
  using insert_chunk_refines_insert [OF fs1_rep(2) fs1_fresh] by blast

text \<open>
  C27. \<open>unlink_chunk\<close> of any chunk of the set passes every runtime check, its loops end, and the
  bins then hold exactly the other chunks; no head of a free chunk changes.
\<close>

theorem unlink_chunk_refines_remove:
  assumes "free_rep s F" "(P, z) \<in> F"
  shows "\<exists>s'. unlink_chunk s P z = Inr s' \<and> free_rep s' (F - {(P, z)})
    \<and> changes_bins (store_links s F) s s' \<and> (\<forall>(q, y)\<in>F. rd s' (q + 8) = rd s (q + 8))"
  using unlink_chunk_free [OF assms] free_heads_kept [OF assms(1)] changes_binsD by fast

theorem unlink_chunk_refines_remove_witness:
  "\<exists>s'. unlink_chunk fs2 0x3000 512 = Inr s' \<and> free_rep s' ({(0x2000, 32), (0x3000, 512)} - {(0x3000, 512)})"
  using unlink_chunk_refines_remove [OF fs2_rep(2), of "0x3000" 512] by auto

text \<open>
  Round trip: to unlink a free chunk and to insert it again gives bins that hold the same set.
\<close>

theorem unlink_then_insert_chunk:
  assumes "free_rep s F" "(P, z) \<in> F"
  shows "\<exists>s'. bindR (unlink_chunk s P z) (\<lambda>s. insert_chunk s P z) = Inr s' \<and> free_rep s' F"
  by (rule free.rem_then_ins [OF assms])

theorem unlink_then_insert_chunk_witness:
  "\<exists>s'. bindR (unlink_chunk fs2 0x2000 32) (\<lambda>s. insert_chunk s 0x2000 32) = Inr s'
    \<and> free_rep s' {(0x2000, 32), (0x3000, 512)}"
  by (rule unlink_then_insert_chunk [OF fs2_rep(2)]) simp

lemma empty_maps:
  assumes "free_rep s {}"
  shows "smallmap s = 0" "treemap s = 0"
proof -
  obtain L T where ok: "free_ok s L T {}" using assms by (auto simp: free_rep_def)
  note D = free_okD [OF ok]
  have "L i = []" if "i < 32" for i
    using D(3) that by (auto simp: small_entries_def small_chunks_def)
  then have "\<not> bit (smallmap s) i" for i
    using D(1) smallbins_okD(2) [of s L i] bit_imp_le_length [of "smallmap s" i]
    by (auto simp: small_store_def)
  then show "smallmap s = 0" by (simp add: bit_eq_iff)
  have "entries (T i) = {}" if "i < 32" for i using D(3) that by (auto simp: tree_entries_def)
  then have "T i = Tip" if "i < 32" for i using that by (cases "T i") force+
  then have "\<not> bit (treemap s) i" for i
    using treebins_okD(5) [OF D(2), of i] bit_treemap_32 [of s i] by auto
  then show "treemap s = 0" by (simp add: bit_eq_iff)
qed

text \<open>
  C31. Unlinking all free chunks, in any order, never aborts and leaves every bin empty: both
  bin maps are 0.
\<close>

theorem unlink_all_empties_bins:
  assumes "free_rep s F" "distinct es" "set es = F"
  shows "\<exists>s'. each unlink_chunk s es = Inr s' \<and> smallmap s' = 0 \<and> treemap s' = 0"
proof -
  have "\<exists>s'. each unlink_chunk s es = Inr s' \<and> free_rep s' (F - set es)"
    using free.each_rem_returns [OF assms(1,2)] assms(3) by blast
  then show ?thesis using empty_maps assms(3) by auto
qed

theorem unlink_all_empties_bins_witness:
  "\<exists>s'. each unlink_chunk fs2 [(0x3000, 512), (0x2000, 32)] = Inr s' \<and> smallmap s' = 0 \<and> treemap s' = 0"
  by (rule unlink_all_empties_bins [OF fs2_rep(2)]) auto

text \<open>
  C30. Where \<open>tmalloc_small\<close> looks (a small request, some tree bin marked), the search returns a
  chunk of the least size of all chunks in the tree bins, with its remainder.
\<close>

theorem tmalloc_small_search_least:
  assumes "tree_rep s F" "treemap s \<noteq> 0" "is_small nb"
  shows "\<exists>v z. tmalloc_small_search s nb = Some (v, z - nb) \<and> (v, z) \<in> F \<and> (\<forall>(p, y)\<in>F. z \<le> y)"
proof -
  have "unat nb div 8 < 32"
    using assms(3) by (simp add: is_small_def dl_consts word_less_nat_alt unat_drop [of 3, simplified])
  then have "unat nb < 256" by linarith
  moreover obtain T where T: "treebins_ok s T" "tree_entries T = F" using assms(1) by (auto simp: tree_rep_def)
  ultimately show ?thesis using tmalloc_small_search_tree [OF T(1) assms(2), of nb] unfolding T(2) by blast
qed

text \<open>
  C29. The search of \<open>tmalloc_large\<close> is best fit: with no chunk of the requested size or more in
  the tree bins it returns 0; otherwise a chunk of the least such size, with its remainder.
\<close>

theorem tmalloc_large_search_best_fit:
  assumes "tree_rep s F" "\<not> is_small nb" "unat nb < 2 ^ 40"
  shows "\<exists>v rsize. tmalloc_large_search s nb = Some (v, rsize)
    \<and> (if v = 0 then \<forall>(p, y)\<in>F. y < nb
       else \<exists>z. (v, z) \<in> F \<and> nb \<le> z \<and> rsize = z - nb \<and> (\<forall>(p, y)\<in>F. nb \<le> y \<longrightarrow> z \<le> y))"
proof -
  obtain T where T: "treebins_ok s T" "tree_entries T = F" using assms(1) by (auto simp: tree_rep_def)
  have "32 \<le> unat nb div 8"
    using assms(2) by (simp add: is_small_def dl_consts word_less_nat_alt unat_drop [of 3, simplified])
  then have "256 \<le> unat nb" by linarith
  from tmalloc_large_search_tree [OF T(1) this assms(3)] obtain vr where
    vr: "tmalloc_large_search s nb = Some vr" "best_fit nb F vr" unfolding T(2) by blast
  obtain v r where v: "vr = (v, r)" by (cases vr)
  have "v \<noteq> 0" if "(v, z) \<in> F" for z
    using tree_entry_ok(1) [OF T(1), of v z] that T(2) by (simp add: tchunk_ok_def)
  note nz = this
  have none: "fits nb F = {} \<longleftrightarrow> (\<forall>(p, y)\<in>F. y < nb)" by (auto simp: fits_def not_le)
  show ?thesis
  proof (cases "fits nb F = {}")
    case True
    then have "v = 0" using vr(2) by (simp add: v best_fit_def)
    then show ?thesis using vr(1) v True none by simp
  next
    case False
    then have *: "\<exists>z. (v, z) \<in> F \<and> nb \<le> z \<and> r = z - nb \<and> (\<forall>(p, y)\<in>F. nb \<le> y \<longrightarrow> z \<le> y)"
      using vr(2) by (simp add: v best_fit_def)
    then have "v \<noteq> 0" using nz by blast
    then show ?thesis using vr(1) v * by simp
  qed
qed

lemma fs1_tree: "tree_rep fs1 {(0x3000, 512)}" "treemap fs1 \<noteq> 0"
proof -
  obtain L T where ok: "free_ok fs1 L T {(0x3000, 512)}" using fs1_rep(2) by (auto simp: free_rep_def)
  note D = free_okD [OF ok]
  have "(0x3000, 512) \<notin> small_entries fs1 L" using small_entry_small [OF D(1)] fs0_small by fastforce
  then have "tree_entries T = {(0x3000, 512)}" using D(3) by blast
  then show t: "tree_rep fs1 {(0x3000, 512)}" using D(2) by (auto simp: tree_rep_def)
  have "(0x3000, 512) \<in> tree_entries T" using \<open>tree_entries T = _\<close> by simp
  then obtain i where "i < 32" "T i \<noteq> Tip" by (rule tree_entriesE)
  then have "bit (treemap fs1) i" using treebins_okD(5) [OF D(2)] by blast
  then show "treemap fs1 \<noteq> 0" by auto
qed

theorem tmalloc_small_search_least_witness:
  "tmalloc_small_search fs1 48 = Some (0x3000, 464)"
proof -
  have "is_small 48" by (simp add: is_small_def dl_consts)
  from tmalloc_small_search_least [OF fs1_tree this] show ?thesis by auto
qed

theorem tmalloc_large_search_best_fit_witness:
  "tmalloc_large_search fs1 400 = Some (0x3000, 112) \<and> (\<exists>r. tmalloc_large_search fs1 600 = Some (0, r))"
proof -
  have n: "\<not> is_small 400" "\<not> is_small 600" by (simp_all add: is_small_def dl_consts)
  have b: "unat (400 :: size_t) < 2 ^ 40" "unat (600 :: size_t) < 2 ^ 40" by simp_all
  show ?thesis
    using tmalloc_large_search_best_fit [OF fs1_tree(1) n(1) b(1)]
      tmalloc_large_search_best_fit [OF fs1_tree(1) n(2) b(2)] by (auto split: if_splits)
qed

end
