(* ===== verification/DL_ResizeProps.thy ===== *)
theory DL_ResizeProps
  imports DL_MallocProps DL_Realloc
begin

text \<open>
  Chunks in use that change their size: \<open>try_realloc_chunk\<close> and the splits of \<open>internal_memalign\<close>
  in src/src/dlmalloc.c keep the invariant of the heap and what the client has stored.
\<close>

section \<open>The payload of a chunk in use\<close>

definition payload :: "chunk \<Rightarrow> addr set" where
  "payload c = own c - {fst c + 8}"

text \<open>What the client writes to its chunks does not concern the allocator.\<close>

lemma payload_apart:
  assumes h: "heap s U F V K" and c: "c \<in> U" and a: "a \<in> payload c" "a \<notin> K"
  shows "a \<notin> touched s U F V" "a \<notin> header_cells s" "d \<in> F \<union> dvset s \<union> topset s \<Longrightarrow> a \<notin> own d"
    "q \<in> fst ` U \<union> V \<Longrightarrow> a \<noteq> q + 8"
proof -
  have O: "open_heap (heap_arena s V K UNIV) s U F (dvset s) (topset s) {}" by (rule heap_enter [OF h]) blast
  note P = open_heapD [OF O, simplified] and g = open_geo [OF O]
  have ao: "a \<in> own c" "a \<noteq> fst c + 8" using a(1) by (auto simp: payload_def)
  show hd: "a \<notin> header_cells s" using P(4) a(2) by blast
  show own: "a \<notin> own d" if d: "d \<in> F \<union> dvset s \<union> topset s" for d
  proof -
    have "d \<noteq> c" using heap_disjoint(1) [OF O] c d by blast
    then show ?thesis using geo_own [OF g, of c d] c d ao(1) by blast
  qed
  show start: "a \<noteq> q + 8" if q: "q \<in> fst ` U \<union> V" for q
  proof (cases "q \<in> V")
    case True
    then show ?thesis using fence_head_own [OF g, of q c] c ao(1) by auto
  next
    case False
    then obtain u where u: "u \<in> U" "q = fst u" using q by blast
    show ?thesis
    proof (cases "u = c")
      case ne: False
      have "own c \<inter> own u = {}" by (rule geo_own [OF g]) (use c u(1) ne in auto)
      then show ?thesis using head_own [OF open_chunk [OF O, of u]] u ao(1) by auto
    qed (use ao(2) u(2) in simp)
  qed
  show "a \<notin> touched s U F V" using hd own start unfolding touched_def free_space_def by blast
qed

lemma heap_client:
  assumes h: "heap s U F V K" and ch: "changes_mem A s s'" and A: "A \<inter> touched s U F V = {}"
  shows "heap s' U F V K"
proof -
  have O: "open_heap (heap_arena s V K UNIV) s U F (dvset s) (topset s) {}" by (rule heap_enter [OF h]) blast
  note P = open_heapD [OF O, simplified] and L = layoutD [OF open_heapD(3) [OF O]]
  have s': "s' = s\<lparr>mem := mem s'\<rparr>" using ch by (simp add: changes_mem_def)
  have f: "maddr s' = maddr s" "least_addr s' = least_addr s" "smallmap s' = smallmap s" "treemap s' = treemap s"
    by (subst s', simp)+
  note k = mem_sets [OF ch]
  have out: "rd s' a = rd s a"
    if "a \<in> header_cells s \<or> (\<exists>d\<in>F \<union> dvset s \<union> topset s. a \<in> own d) \<or> (\<exists>q\<in>fst ` U \<union> V. a = q + 8)" for a
  proof (rule changes_memD [OF ch])
    have "a \<in> touched s U F V" using that by (auto simp: touched_def free_space_def)
    then show "a \<notin> A" using A by blast
  qed
  have F: "free_rep s' F"
  proof (rule free_rep_cong [OF P(1) f])
    show "rd s' a = rd s a" if "a \<in> header_cells s" for a by (rule out) (use that in blast)
    show "rd s' a = rd s a" if "c \<in> F" "a \<in> chunk_cells c" for c a
    proof (rule out)
      have "a \<in> own c"
        using chunk_cells_own(1) [OF open_chunk [OF O], of c] L(6) [of c] that by blast
      then show "a \<in> header_cells s \<or> (\<exists>d\<in>F \<union> dvset s \<union> topset s. a \<in> own d) \<or> (\<exists>q\<in>fst ` U \<union> V. a = q + 8)"
        using that(1) by blast
    qed
  qed
  have hd: "same_head s s' q" if q: "q \<in> fst ` (U \<union> (F \<union> dvset s) \<union> topset s) \<union> V" for q
    unfolding same_head_def head_def
  proof (rule out, cases "q \<in> fst ` U \<union> V")
    case False
    then obtain d where "d \<in> F \<union> dvset s \<union> topset s" "q = fst d" using q by (auto simp: image_Un)
    then have "q + 8 \<in> own d" using head_own [OF open_chunk [OF O, of d]] by simp
    then show "q + 8 \<in> header_cells s \<or> (\<exists>d\<in>F \<union> dvset s \<union> topset s. q + 8 \<in> own d) \<or> (\<exists>q'\<in>fst ` U \<union> V. q + 8 = q' + 8)"
      using \<open>d \<in> F \<union> dvset s \<union> topset s\<close> by blast
  qed blast
  have ft: "prev_foot s' (fin d) = prev_foot s (fin d)" if d: "d \<in> F \<union> dvset s" for d
    unfolding prev_foot_def
  proof (rule out)
    have "fin d \<in> own d" using foot_own [OF open_chunk [OF O, of d]] d by blast
    then show "fin d \<in> header_cells s \<or> (\<exists>e\<in>F \<union> dvset s \<union> topset s. fin d \<in> own e) \<or> (\<exists>q\<in>fst ` U \<union> V. fin d = q + 8)"
      using d by blast
  qed
  have "layout s' U (F \<union> dvset s) (topset s) {} V (V \<union> fin ` topset s) K"
    by (rule layout_cong) (use P(3) hd ft in auto)
  moreover have "header_cells s' = header_cells s" by (rule header_cells_cong [OF f(1)])
  ultimately have "open_heap \<lparr>fences = V, ends = V \<union> fin ` topset s, kept = K, reach = UNIV\<rparr> s' U F (dvset s) (topset s) {}"
    using F P by (intro open_heapI) (simp_all add: ok_address_def f)
  then show ?thesis using heapD [OF h] by (simp add: heap_def k)
qed

section \<open>Moving the end of a chunk in use\<close>

lemma disjoint_insert1: "A \<inter> B = {} \<Longrightarrow> x \<notin> A \<Longrightarrow> A \<inter> insert x B = {}"
  by blast

lemma resize_core:
  assumes L: "layout s U R T H V E K" and c: "(p, z) \<in> U" and n: "32 \<le> unat nb"
    and hd: "chunksize s' p = nb" "cinuse s' p" "pinuse s' p = pinuse s p"
    and others: "\<forall>q\<in>fst ` (U \<union> R \<union> T) \<union> V. q \<noteq> p \<longrightarrow> same_head s s' q"
    and feet: "\<forall>d\<in>R. prev_foot s' (fin d) = prev_foot s (fin d)"
    and U': "U' = insert (p, nb) (U - {(p, z)})"
    and g: "geo (U' \<union> R \<union> T \<union> H') E" "U' \<inter> (R \<union> T \<union> H') = {}" "R \<inter> (T \<union> H') = {}" "T \<inter> H' = {}"
    and f: "fin ` H \<subseteq> fin ` H'" "fin ` R \<inter> fst ` H' = {}" and k: "\<forall>d\<in>H'. own d \<inter> K = {}"
  shows "layout s' U' R T H' V E K"
proof -
  note D = layoutD [OF L] and t = tagsD [OF layoutD(10) [OF L]]
  let ?Q = "fst ` (U \<union> R \<union> T) \<union> V"
  have pA: "p \<in> ?Q" using imageI [OF c, of fst] by (simp add: image_Un)
  have Q: "fst ` (U' \<union> R \<union> T) \<union> V \<subseteq> ?Q"
  proof -
    have "fst ` U' \<subseteq> fst ` U" using imageI [OF c, of fst] by (auto simp: U')
    then show ?thesis by (simp only: image_Un) blast
  qed
  have T: "tags s' U' R T H' V"
    unfolding tags_def
  proof (intro conjI ballI impI)
    have inj: "fst d \<noteq> p" if "d \<in> U \<union> R \<union> T" "d \<noteq> (p, z)" for d
      using geo_inj(1) [OF D(1), of d "(p, z)"] that c by auto
    have R: "(p, z) \<notin> R \<union> T" using D(3) c by blast
    show "chunksize s' (fst d) = snd d" if "d \<in> U' \<union> R \<union> T" for d
    proof (cases "d = (p, nb)")
      case False
      then have d: "d \<in> U \<union> R \<union> T" "d \<noteq> (p, z)" using that R by (auto simp: U')
      then have "same_head s s' (fst d)" using bspec [OF others UnI1 [OF imageI [OF d(1)]]] inj [OF d] by simp
      then show ?thesis using same_headD(1) t(1) [OF d(1)] by metis
    qed (simp add: hd)
    show "cinuse s' (fst d)" if "d \<in> U'" for d
    proof (cases "d = (p, nb)")
      case False
      then have d: "d \<in> U \<union> R \<union> T" "d \<noteq> (p, z)" "d \<in> U" using that by (auto simp: U')
      then have "same_head s s' (fst d)" using others inj [OF d(1,2)] imageI [OF d(1), of fst] by blast
      then show ?thesis using same_headD(2) t(2) [OF d(3)] by metis
    qed (simp add: hd)
    show "\<not> cinuse s' (fst d)" if "d \<in> R \<union> T" for d
    proof -
      have d: "d \<in> U \<union> R \<union> T" "d \<noteq> (p, z)" using that R by auto
      then have "same_head s s' (fst d)" using bspec [OF others UnI1 [OF imageI [OF d(1)]]] inj [OF d] by simp
      then show ?thesis using same_headD(2) t(3) [OF that] by metis
    qed
    show "cinuse s' e" if "e \<in> V" for e
    proof -
      have "e \<noteq> p" using geo_start_not_end [OF D(1), of "(p, z)"] D(2) that c by auto
      then show ?thesis using same_headD(2) [of s s' e] others t(4) [OF that] that by blast
    qed
    show "pinuse s' q \<longleftrightarrow> q \<notin> fin ` R" if "q \<in> fst ` (U' \<union> R \<union> T) \<union> V" "q \<notin> fin ` H'" for q
    proof -
      have q: "q \<in> ?Q" "q \<notin> fin ` H" using that Q f(1) by blast+
      have "pinuse s' q = pinuse s q"
        using hd(3) others q(1) same_headD(3) [of s s' q] by (cases "q = p") blast+
      then show ?thesis using t(5) [OF q] by simp
    qed
    show "prev_foot s' (fin d) = snd d" if "d \<in> R" for d using feet t(6) [OF that] that by simp
  qed
  show ?thesis
  proof (rule layoutI)
    show "fin ` R \<inter> fst ` (R \<union> T \<union> H') = {}" using D(7) f(2) by (simp only: image_Un) blast
    show "\<forall>c\<in>U' \<union> R. 32 \<le> unat (snd c)" using D(6) n by (auto simp: U')
    show "\<forall>c\<in>R \<union> T \<union> H'. own c \<inter> K = {}" using D(8) k by blast
    show "\<forall>q\<in>fst ` U' \<union> V. q + 8 \<notin> K" using D(9) [of p] D(9) imageI [OF c, of fst] by (auto simp: U')
  qed (rule g D(2) T)+
qed

text \<open>A chunk in use shrinks: the rest is a hole.\<close>

lemma cut_used:
  assumes L: "layout s U R T H V E K" and c: "(p, z) \<in> U" "own (p, z) \<inter> K = {}"
    and n: "is_aligned nb" "32 \<le> unat nb" "unat nb + 16 \<le> unat z"
    and hd: "chunksize s' p = nb" "cinuse s' p" "pinuse s' p = pinuse s p"
    and others: "\<forall>q\<in>fst ` (U \<union> R \<union> T) \<union> V. q \<noteq> p \<longrightarrow> same_head s s' q"
    and feet: "\<forall>d\<in>R. prev_foot s' (fin d) = prev_foot s (fin d)"
  shows "layout s' (insert (p, nb) (U - {(p, z)})) R T (insert (p + nb, z - nb) H) V E K"
proof -
  note D = layoutD [OF L]
  have cA: "(p, z) \<in> U \<union> R \<union> T \<union> H" using c by blast
  have n': "16 \<le> unat nb" using n(2) by simp
  note g = geo_split [OF D(1) cA n(1) n' n(3)] and f = geo_fresh(1) [OF D(1) cA n(1) n' n(3)]
    and j = chunk_geo_split [OF geoD(3) [OF D(1) cA] n(1) n' n(3)]
  have ne: "(p, nb) \<noteq> (p + nb, z - nb)" using n' by auto
  have A: "insert (p, nb) (insert (p + nb, z - nb) (U \<union> R \<union> T \<union> H - {(p, z)}))
      = insert (p, nb) (U - {(p, z)}) \<union> R \<union> T \<union> insert (p + nb, z - nb) H"
    using c(1) D(3) by blast
  have r: "p + nb \<notin> fin ` R"
  proof
    assume "p + nb \<in> fin ` R"
    then obtain d where d: "d \<in> R" and e: "fin d = p + nb" by (elim imageE) simp
    have "d \<in> insert (p, nb) (insert (p + nb, z - nb) (U \<union> R \<union> T \<union> H - {(p, z)}))" using d c(1) D(3) by blast
    from geo_inj(2) [OF g this, of "(p, nb)"] e have "d = (p, nb)" by simp
    then show False using f d by blast
  qed
  have fr: "fin ` R \<inter> fst ` insert (p + nb, z - nb) H = {}"
  proof -
    have "fin ` R \<inter> fst ` H = {}" using D(7) by (simp only: image_Un) blast
    then show ?thesis unfolding image_insert fst_conv by (rule disjoint_insert1 [OF _ r])
  qed
  have "lo (p, nb) < hi (p, nb)" by (rule lo_hi(2) [OF j(1)])
  then have "own (p + nb, z - nb) \<subseteq> own (p, z)" using j by (auto simp: own_def lo_def)
  then have k: "\<forall>d\<in>insert (p + nb, z - nb) H. own d \<inter> K = {}" using c(2) D(8) by blast
  show ?thesis
  proof (rule resize_core [OF L c(1) n(2) hd others feet refl _ _ _ _ _ fr k])
    show "geo (insert (p, nb) (U - {(p, z)}) \<union> R \<union> T \<union> insert (p + nb, z - nb) H) E" using g unfolding A .
    show "insert (p, nb) (U - {(p, z)}) \<inter> (R \<union> T \<union> insert (p + nb, z - nb) H) = {}" using D(3) f ne by blast
    show "R \<inter> (T \<union> insert (p + nb, z - nb) H) = {}" "T \<inter> insert (p + nb, z - nb) H = {}" using D(4,5) f by blast+
  qed blast
qed

text \<open>A chunk in use grows into the hole after it, wholly or in part.\<close>

lemma grow_used:
  assumes L: "layout s U R T H V E K" and c: "(p, z) \<in> U" "(p + z, y) \<in> H"
    and n: "is_aligned nb" "32 \<le> unat nb" "unat nb + 16 \<le> unat z + unat y"
    and hd: "chunksize s' p = nb" "cinuse s' p" "pinuse s' p = pinuse s p"
    and others: "\<forall>q\<in>fst ` (U \<union> R \<union> T) \<union> V. q \<noteq> p \<longrightarrow> same_head s s' q"
    and feet: "\<forall>d\<in>R. prev_foot s' (fin d) = prev_foot s (fin d)" and zn: "unat z \<le> unat nb"
  shows "layout s' (insert (p, nb) (U - {(p, z)})) R T (insert (p + nb, z + y - nb) (H - {(p + z, y)})) V E K"
proof -
  note D = layoutD [OF L]
  let ?A = "U \<union> R \<union> T \<union> H" let ?B = "insert (p, z + y) (?A - {(p, z), (p + z, y)})"
  have cA: "(p, z) \<in> ?A" "(p + z, y) \<in> ?A" using c by blast+
  note j = chunk_geo_join [OF geoD(3) [OF D(1) cA(1)] geoD(3) [OF D(1) cA(2)]]
  note g1 = geo_merge [OF D(1) cA] and f1 = geo_fresh(2) [OF D(1) cA]
  have n': "16 \<le> unat nb" "unat nb + 16 \<le> unat (z + y)" using n(2,3) j(4) by simp_all
  note g = geo_split [OF g1 insertI1 n(1) n'] and f = geo_fresh(1) [OF g1 insertI1 n(1) n']
    and i = chunk_geo_split [OF j(1) n(1) n']
  have ne: "(p, nb) \<noteq> (p + nb, z + y - nb)" using n' by auto
  have hn: "(p + z, y) \<notin> U \<union> R \<union> T" "(p, z) \<notin> R \<union> T \<union> H" using c D(3,4,5) by blast+
  let ?H = "insert (p + nb, z + y - nb) (H - {(p + z, y)})"
  have eB: "?B - {(p, z + y)} = ?A - {(p, z), (p + z, y)}" using f1 by blast
  have A: "insert (p, nb) (insert (p + nb, z + y - nb) (?B - {(p, z + y)}))
      = insert (p, nb) (U - {(p, z)}) \<union> R \<union> T \<union> ?H"
    unfolding eB using hn by blast
  have fr1: "(p, nb) \<notin> U - {(p, z)} \<union> R \<union> T \<union> (H - {(p + z, y)})"
    "(p + nb, z + y - nb) \<notin> U - {(p, z)} \<union> R \<union> T \<union> (H - {(p + z, y)})"
  proof -
    have e: "?A - {(p, z), (p + z, y)} = U - {(p, z)} \<union> R \<union> T \<union> (H - {(p + z, y)})" using hn by blast
    show "(p, nb) \<notin> U - {(p, z)} \<union> R \<union> T \<union> (H - {(p + z, y)})"
      "(p + nb, z + y - nb) \<notin> U - {(p, z)} \<union> R \<union> T \<union> (H - {(p + z, y)})"
      using f unfolding e [symmetric] by (simp_all only: insert_iff de_Morgan_disj simp_thms)
  qed
  have r: "p + nb \<notin> fin ` R"
  proof
    assume "p + nb \<in> fin ` R"
    then obtain d where d: "d \<in> R" and e: "fin d = p + nb" by (elim imageE) simp
    have "d \<in> insert (p, nb) (insert (p + nb, z + y - nb) (?B - {(p, z + y)}))" unfolding A using d by blast
    from geo_inj(2) [OF g this, of "(p, nb)"] e have "d = (p, nb)" by simp
    then show False using fr1 d by blast
  qed
  have fr: "fin ` R \<inter> fst ` ?H = {}"
  proof -
    have "fst ` (H - {(p + z, y)}) \<subseteq> fst ` (R \<union> T \<union> H)" by (rule image_mono) blast
    then have "fin ` R \<inter> fst ` (H - {(p + z, y)}) = {}" using D(7) by blast
    then show ?thesis unfolding image_insert fst_conv by (rule disjoint_insert1 [OF _ r])
  qed
  have "own (p + nb, z + y - nb) \<subseteq> own (p + z, y)"
    using i(3,4) j(2,3) zn by (auto simp: own_def lo_def hi_def)
  then have k: "\<forall>d\<in>?H. own d \<inter> K = {}" using D(8) c(2) by blast
  have ff: "fin ` H \<subseteq> fin ` ?H"
  proof (rule image_subsetI)
    fix h assume h: "h \<in> H"
    show "fin h \<in> fin ` ?H"
    proof (cases "h = (p + z, y)")
      case True
      then have "fin h = fin (p + nb, z + y - nb)" by (simp add: add.assoc)
      then show ?thesis by simp
    qed (use h in simp)
  qed
  show ?thesis
  proof (rule resize_core [OF L c(1) n(2) hd others feet refl _ _ _ _ ff fr k])
    show "geo (insert (p, nb) (U - {(p, z)}) \<union> R \<union> T \<union> ?H) E" using g unfolding A .
    show "insert (p, nb) (U - {(p, z)}) \<inter> (R \<union> T \<union> ?H) = {}" using D(3) fr1 ne by blast
    show "R \<inter> (T \<union> ?H) = {}" "T \<inter> ?H = {}" using D(4,5) fr1 by blast+
  qed
qed

lemma swallow_next:
  assumes L: "layout s U R T H V E K" and c: "(p, z) \<in> U" "(p + z, y) \<in> H" "p + (z + y) \<in> fst ` (U \<union> R \<union> T) \<union> V"
    and hd: "chunksize s' p = z + y" "cinuse s' p" "pinuse s' p = pinuse s p"
    and others: "\<forall>q\<in>fst ` (U \<union> R \<union> T) \<union> V. q \<noteq> p \<longrightarrow> q \<noteq> p + (z + y) \<longrightarrow> same_head s s' q"
    and nxt: "chunksize s' (p + (z + y)) = chunksize s (p + (z + y)) \<and> cinuse s' (p + (z + y)) = cinuse s (p + (z + y)) \<and> pinuse s' (p + (z + y))"
    and feet: "\<forall>d\<in>R. prev_foot s' (fin d) = prev_foot s (fin d)"
  shows "layout s' (insert (p, z + y) (U - {(p, z)})) R T (H - {(p + z, y)}) V E K"
proof -
  note D = layoutD [OF L] and t = tagsD [OF layoutD(10) [OF L]]
  let ?A = "U \<union> R \<union> T \<union> H" let ?Q = "fst ` (U \<union> R \<union> T) \<union> V" let ?x = "p + (z + y)"
  have cA: "(p, z) \<in> ?A" "(p + z, y) \<in> ?A" using c by blast+
  note j = chunk_geo_join [OF geoD(3) [OF D(1) cA(1)] geoD(3) [OF D(1) cA(2)]]
  note g = geo_merge [OF D(1) cA] and f = geo_fresh(2) [OF D(1) cA]
  have hn: "(p + z, y) \<notin> U \<union> R \<union> T" "(p, z) \<notin> R \<union> T \<union> H" using c D(3,4,5) by blast+
  let ?U = "insert (p, z + y) (U - {(p, z)})" and ?H = "H - {(p + z, y)}"
  have A: "insert (p, z + y) (?A - {(p, z), (p + z, y)}) = ?U \<union> R \<union> T \<union> ?H" using hn by blast
  have inj: "fst d \<noteq> p" if "d \<in> U \<union> R \<union> T" "d \<noteq> (p, z)" for d
    using geo_inj(1) [OF D(1), of d "(p, z)"] that c by auto
  have k: "chunksize s' q = chunksize s q" "cinuse s' q = cinuse s q" if "q \<in> ?Q" "q \<noteq> p" for q
  proof -
    have "chunksize s' q = chunksize s q \<and> cinuse s' q = cinuse s q"
    proof (cases "q = ?x")
      case False
      then have "same_head s s' q" using others that by blast
      then show ?thesis by (simp add: same_headD)
    qed (use nxt in simp)
    then show "chunksize s' q = chunksize s q" "cinuse s' q = cinuse s q" by blast+
  qed
  have xH: "?x \<notin> fin ` R" "?x \<notin> fin ` ?H"
  proof -
    have i: "d = (p + z, y)" if "d \<in> ?A" "fin d = ?x" for d
      using geo_inj(2) [OF D(1) that(1) cA(2)] that(2) by (simp add: add.assoc)
    show "?x \<notin> fin ` R"
    proof (intro notI, elim imageE)
      fix d assume e: "?x = fin d" and d: "d \<in> R"
      from i [OF UnI1 [OF UnI1 [OF UnI2 [OF d]]] e [symmetric]] have "d = (p + z, y)" .
      with d hn(1) show False by simp
    qed
    show "?x \<notin> fin ` ?H"
    proof (intro notI, elim imageE)
      fix d assume e: "?x = fin d" and d: "d \<in> ?H"
      from i [OF UnI2 [OF DiffD1 [OF d]] e [symmetric]] have "d = (p + z, y)" .
      with d show False by simp
    qed
  qed
  have T: "tags s' ?U R T ?H V"
    unfolding tags_def
  proof (intro conjI ballI impI)
    show "chunksize s' (fst d) = snd d" if "d \<in> ?U \<union> R \<union> T" for d
    proof (cases "d = (p, z + y)")
      case False
      then have d: "d \<in> U \<union> R \<union> T" "d \<noteq> (p, z)" using that hn(2) by auto
      show ?thesis using k(1) [OF UnI1 [OF imageI [OF d(1)]] inj [OF d]] t(1) [OF d(1)] by simp
    qed (simp add: hd)
    show "cinuse s' (fst d)" if "d \<in> ?U" for d
    proof (cases "d = (p, z + y)")
      case False
      then have d: "d \<in> U \<union> R \<union> T" "d \<noteq> (p, z)" "d \<in> U" using that by auto
      show ?thesis using k(2) [OF UnI1 [OF imageI [OF d(1)]] inj [OF d(1,2)]] t(2) [OF d(3)] by simp
    qed (simp add: hd)
    show "\<not> cinuse s' (fst d)" if "d \<in> R \<union> T" for d
    proof -
      have d: "d \<in> U \<union> R \<union> T" "d \<noteq> (p, z)" using that hn(2) by auto
      show ?thesis using k(2) [OF UnI1 [OF imageI [OF d(1)]] inj [OF d]] t(3) [OF that] by simp
    qed
    show "cinuse s' e" if "e \<in> V" for e
    proof -
      have "e \<noteq> p" using geo_start_not_end [OF D(1), of "(p, z)"] D(2) that c by auto
      then show ?thesis using k(2) [of e] t(4) [OF that] that by blast
    qed
    show "pinuse s' q \<longleftrightarrow> q \<notin> fin ` R" if "q \<in> fst ` (?U \<union> R \<union> T) \<union> V" "q \<notin> fin ` ?H" for q
    proof (cases "q = ?x")
      case True
      then show ?thesis using nxt xH(1) by simp
    next
      case False
      have "fst ` ?U \<subseteq> fst ` U" using imageI [OF c(1), of fst] by auto
      then have q: "q \<in> ?Q" using that(1) by (simp only: image_Un) blast
      have qh: "q \<notin> fin ` H"
        by (rule holes_left [OF that(2)]) (use False in \<open>simp add: add.assoc\<close>)
      have "pinuse s' q = pinuse s q"
        using hd(3) others q False same_headD(3) [of s s' q] by (cases "q = p") blast+
      then show ?thesis using t(5) [OF q qh] by simp
    qed
    show "prev_foot s' (fin d) = snd d" if "d \<in> R" for d using feet t(6) [OF that] that by simp
  qed
  show ?thesis
  proof (rule layoutI)
    show "geo (?U \<union> R \<union> T \<union> ?H) E" using g unfolding A .
    show "?U \<inter> (R \<union> T \<union> ?H) = {}" "R \<inter> (T \<union> ?H) = {}" "T \<inter> ?H = {}" using D(3,4,5) f by blast+
    show "fin ` R \<inter> fst ` (R \<union> T \<union> ?H) = {}"
      using D(7) image_mono [of ?H H fst] by (simp only: image_Un) blast
    show "\<forall>c\<in>?U \<union> R. 32 \<le> unat (snd c)" using D(6) D(6) [of "(p, z)"] j(4) c(1) by auto
    show "\<forall>c\<in>R \<union> T \<union> ?H. own c \<inter> K = {}" using D(8) by blast
    show "\<forall>q\<in>fst ` ?U \<union> V. q + 8 \<notin> K" using D(9) [of p] D(9) imageI [OF c(1), of fst] by auto
  qed (rule D(2) T)+
qed

end
