(* ===== verification/DL_HeapInit.thy ===== *)
theory DL_HeapInit
  imports DL_MallocProps
begin

text \<open>
  A fresh space: what \<open>init_bins\<close>, \<open>init_top\<close> and the first branch of \<open>sys_alloc\<close> in
  src/src/dlmalloc.c set up is a heap with no chunk in use whose only free chunk is the top.
\<close>

section \<open>The cells of malloc\_state\<close>

definition state_cells :: "'o state \<Rightarrow> addr set" where
  "state_cells s = {a. unat (a - maddr s) < 936}"

lemma state_cellsI: "unat x < 936 \<Longrightarrow> maddr s + x \<in> state_cells s"
  by (simp add: state_cells_def)

lemma state_cells_cong: "maddr s' = maddr s \<Longrightarrow> state_cells s' = state_cells s"
  by (simp add: state_cells_def)

lemma unat_offset: "unat c + k < 936 \<Longrightarrow> unat (c + of_nat k :: addr) = unat c + k"
proof -
  assume b: "unat c + k < 936"
  then have k: "unat (of_nat k :: addr) = k" by (simp add: unat_of_nat)
  show ?thesis using b k by (subst unat_add_lem [THEN iffD1]) simp_all
qed

lemma smallbin_cells:
  assumes "i < 32"
  shows "smallbin_at s (of_nat i) + 16 = maddr s + (88 + of_nat (16 * i))"
    "smallbin_at s (of_nat i) + 24 = maddr s + (96 + of_nat (16 * i))"
  using assms by (simp_all add: smallbin_at_nat)

lemma header_cellE:
  assumes "a \<in> header_cells s"
  obtains i c where "i < 32" "a = maddr s + (c + of_nat (16 * i))" "c = 88 \<or> c = 96"
    | i where "i < 32" "a = maddr s + (600 + of_nat (8 * i))"
proof -
  from assms consider i where "i < 32" "a = smallbin_at s (of_nat i) + 16" | i where "i < 32" "a = smallbin_at s (of_nat i) + 24"
    | i where "i < 32" "a = treebin_at s (of_nat i)"
    unfolding header_cells_def link_cells_def small_headers_def tree_headers_def
    by (elim UnE imageE) (simp_all only: lessThan_iff)
  then show thesis
  proof cases
    case (1 i)
    then show thesis using that(1) [of i 88] smallbin_cells(1) [OF 1(1), of s] by simp
  next
    case (2 i)
    then show thesis using that(1) [of i 96] smallbin_cells(2) [OF 2(1), of s] by simp
  next
    case (3 i)
    then show thesis using that(2) [of i] treebin_at_nat [OF 3(1), of s] by simp
  qed
qed

lemma header_cells_state: "header_cells s \<subseteq> state_cells s"
proof (rule subsetI)
  fix a assume "a \<in> header_cells s"
  then show "a \<in> state_cells s"
  proof (rule header_cellE)
    fix i :: nat and c :: addr
    assume i: "i < 32" "a = maddr s + (c + of_nat (16 * i))" "c = 88 \<or> c = 96"
    show ?thesis unfolding i(2) by (rule state_cellsI) (subst unat_offset; use i in auto)
  next
    fix i :: nat
    assume i: "i < 32" "a = maddr s + (600 + of_nat (8 * i))"
    show ?thesis unfolding i(2) by (rule state_cellsI) (subst unat_offset; use i in auto)
  qed
qed

text \<open>The embedded segment lies behind the bins.\<close>

lemma seg_cells_state: "unat k < 48 \<Longrightarrow> seg s + k \<in> state_cells s"
proof -
  assume k: "unat k < 48"
  then have "unat (888 + k) = 888 + unat k" by (subst unat_add_lem [THEN iffD1]) simp_all
  then show ?thesis using state_cellsI [of "888 + k" s] k by (simp add: seg_def add.assoc)
qed

lemma seg_not_header:
  assumes "unat k < 48"
  shows "seg s + k \<notin> header_cells s"
proof
  have u: "unat (888 + k) = 888 + unat k" using assms by (subst unat_add_lem [THEN iffD1]) simp_all
  have e: "seg s + k = maddr s + (888 + k)" by (simp add: seg_def add.assoc)
  assume "seg s + k \<in> header_cells s"
  then show False
  proof (rule header_cellE)
    fix i :: nat and c :: addr
    assume i: "i < 32" "seg s + k = maddr s + (c + of_nat (16 * i))" "c = 88 \<or> c = 96"
    from i(2) have "888 + k = c + of_nat (16 * i)" unfolding e by (simp only: add_left_cancel)
    moreover have "unat (c + of_nat (16 * i)) = unat c + 16 * i" by (rule unat_offset) (use i in auto)
    ultimately show False using u i(1,3) by auto
  next
    fix i :: nat
    assume i: "i < 32" "seg s + k = maddr s + (600 + of_nat (8 * i))"
    from i(2) have "888 + k = 600 + of_nat (8 * i)" unfolding e by (simp only: add_left_cancel)
    then have "unat (888 + k) = unat (600 + of_nat (8 * i) :: addr)" by (simp only:)
    moreover have "unat (600 + of_nat (8 * i) :: addr) = 600 + 8 * i" by (subst unat_offset) (use i in auto)
    ultimately show False using u i(1) by linarith
  qed
qed

section \<open>init\_bins\<close>

lemma init_bin_frame:
  "i < 32 \<Longrightarrow> changes_mem (link_cells (small_headers s)) s (init_bin (of_nat i) s)"
  unfolding init_bin_def Let_def set_fd_def set_bk_def
  by (intro changes_mem_wr changes_mem_refl link_cellsI) (auto simp: small_headers_def)

lemma init_bins_frame: "changes_mem (link_cells (small_headers s)) s (init_bins s)"
proof -
  have "changes_mem (link_cells (small_headers s)) s (fold (\<lambda>i. init_bin (of_nat i)) [0..<n] s)" if "n \<le> 32" for n
    using that
  proof (induction n)
    case (Suc n)
    let ?s = "fold (\<lambda>i. init_bin (of_nat i)) [0..<n] s"
    have c: "changes_mem (link_cells (small_headers s)) s ?s" using Suc by simp
    have h: "small_headers ?s = small_headers s" using changes_mem_fields(1) [OF c] by (rule headers_cong(3))
    show ?case using init_bin_frame [of n ?s] Suc.prems changes_mem_trans [OF c] by (simp add: h)
  qed (simp add: changes_mem_refl)
  then show ?thesis by (simp add: init_bins_def NSMALLBINS_def)
qed

lemma init_bins_fields:
  fixes s :: "'o state"
  shows "init_bins s = s\<lparr>mem := mem (init_bins s)\<rparr>" "a \<notin> link_cells (small_headers s) \<Longrightarrow> rd (init_bins s) a = rd s a"
  using init_bins_frame [of s] by (simp_all add: changes_mem_def)

section \<open>A heap with only a top chunk\<close>

lemma free_rep_empty:
  assumes m: "smallmap s = 0" "treemap s = 0" and t: "\<forall>i<32. rd s (treebin_at s (of_nat i)) = 0" and z: "0 \<notin> tree_headers s"
  shows "free_rep s {}"
proof -
  have "treebins_ok s (\<lambda>_. Tip)"
    using m t z by (simp add: treebins_ok_def all_nodes_def sep_def bin_ok_def)
  moreover have "small_store s (\<lambda>_. [])"
    by (simp add: small_store_def smallbins_ok_empty m small_chunks_def disjoint_family_on_def)
  ultimately have "free_ok s (\<lambda>_. []) (\<lambda>_. Tip) {}"
    by (simp add: free_ok_def small_entries_def small_chunks_def tree_entries_def disjoint_family_on_def)
  then show ?thesis by (auto simp: free_rep_def)
qed

lemma heap_only_top:
  assumes F: "free_rep s {}" and d: "dv s = 0" "dvsize s = 0" and t: "topp s = p" "topsize s = z"
    and g: "chunk_geo (p, z)" "unat z < 2 ^ 40" and hd: "head s p = z OR 1"
    and K: "header_cells s \<subseteq> K" "own (p, z) \<inter> K = {}" and ok: "ok_address s p"
  shows "heap s {} {} {} K"
proof -
  have p: "p \<noteq> 0" and a: "is_aligned z" and e: "is_aligned (fin (p, z))"
    using g aligned_fin [OF g(1)] by (simp_all add: chunk_geo_def)
  have T: "topset s = {(p, z)}" "dvset s = {}" using p d t by (simp_all add: topset_def dvset_def)
  have "layout s {} {} {(p, z)} {} {} {p + z} K"
  proof (rule layoutI)
    show "geo ({} \<union> {} \<union> {(p, z)} \<union> {}) {p + z}"
      using g e lo_hi(3) [OF g(1)] by (simp add: geo_def)
    show "tags s {} {} {(p, z)} {} {}"
      using head_words(1,4,5) [OF a] hd by (simp add: tags_def chunksize_def cinuse_def pinuse_def)
  qed (use K in auto)
  then show ?thesis
    using F d K(1) ok p t by (simp add: heap_def T open_heap_def)
qed

text \<open>
  The first branch of \<open>sys_alloc\<close>, for the global space: the bins start empty and zero, as static
  storage does, and the new memory does not overlap \<open>malloc_state\<close>.
\<close>

definition fresh_state :: "'o state \<Rightarrow> bool" where
  "fresh_state s \<longleftrightarrow> is_global s \<and> smallmap s = 0 \<and> treemap s = 0 \<and> dv s = 0 \<and> dvsize s = 0 \<and> topp s = 0 \<and> topsize s = 0
     \<and> least_addr s = 0 \<and> (\<forall>a\<in>state_cells s. rd s a = 0) \<and> 0 \<notin> state_cells s"

definition fresh_memory :: "'o state \<Rightarrow> addr \<Rightarrow> size_t \<Rightarrow> bool" where
  "fresh_memory s tbase tsize \<longleftrightarrow> tbase \<noteq> 0 \<and> is_aligned tbase \<and> is_aligned tsize \<and> 128 \<le> unat tsize
     \<and> unat tsize < 2 ^ 40 \<and> unat tbase + unat tsize \<le> 2 ^ 64
     \<and> (\<forall>a. unat tbase \<le> unat a \<longrightarrow> unat a < unat tbase + unat tsize \<longrightarrow> a \<notin> state_cells s)"

lemma fresh_chunk:
  assumes "fresh_memory s tbase tsize"
  shows "chunk_geo (tbase, tsize - 80)" "own (tbase, tsize - 80) \<inter> state_cells s = {}" "unat (tsize - 80) = unat tsize - 80"
    "tbase + (tsize - 80) + 8 \<notin> state_cells s" "align_offset (chunk2mem tbase) = 0"
proof -
  note f = assms [unfolded fresh_memory_def]
  have n: "128 \<le> unat tsize" "unat tsize < 2 ^ 40" "unat tbase + unat tsize \<le> 2 ^ 64" using f by simp_all
  show u: "unat (tsize - 80) = unat tsize - 80" using f by (simp add: unat_sub word_le_nat_alt)
  have a: "is_aligned (tsize - 80)" using f u by (simp add: is_aligned_iff)
  have "16 \<le> unat (tsize - 80)" "unat tbase + unat (tsize - 80) + 16 \<le> 2 ^ 64" using f unfolding u by linarith+
  then show g: "chunk_geo (tbase, tsize - 80)" using f a by (simp add: chunk_geo_def hi_def)
  show "own (tbase, tsize - 80) \<inter> state_cells s = {}"
    using f u by (auto simp: own_def lo_def hi_def)
  have "unat (tbase + (tsize - 80) + 8) = unat tbase + unat tsize - 72"
  proof -
    have "unat (tsize - 80 + 8) = unat tsize - 72"
      using u n by (subst unat_add_lem [THEN iffD1]) simp_all
    moreover from this have "unat (tbase + (tsize - 80 + 8)) = unat tbase + unat (tsize - 80 + 8)"
      by (intro unat_in_chunk [OF g]) (use u n in linarith)
    moreover have "72 \<le> unat tsize" using n by linarith
    ultimately show ?thesis by (simp only: add.assoc)
  qed
  then have "unat tbase \<le> unat (tbase + (tsize - 80) + 8)" "unat (tbase + (tsize - 80) + 8) < unat tbase + unat tsize"
    using n by linarith+
  then show "tbase + (tsize - 80) + 8 \<notin> state_cells s" using f by blast
  have "16 dvd unat tbase" using f by (simp add: is_aligned_iff)
  moreover have "unat (tbase + 16) = unat tbase + 16" using f by (simp add: unat_word_ariths)
  ultimately have "unat (align_offset (chunk2mem tbase)) = 0"
    by (simp add: unat_align_offset chunk2mem_def dl_consts)
  then show "align_offset (chunk2mem tbase) = 0" by (simp add: unat_eq_zero)
qed

lemma sys_alloc_init_heap:
  fixes s :: "'o state" and flag :: u32
  assumes f: "fresh_state s" and m: "fresh_memory s tbase tsize"
    and K: "state_cells s \<subseteq> K" "own (tbase, tsize - 80) \<inter> K = {}"
  defines "s' \<equiv> sys_alloc_init s tbase tsize flag"
  shows "heap s' {} {} {} K" "topp s' = tbase" "topsize s' = tsize - 80" "sg_next s' (seg s') = 0"
    "sg_base s' (seg s') = tbase" "sg_size s' (seg s') = tsize" "maddr s' = maddr s" "sg_sflags s' (seg s') = flag"
    "os s' = os s" "mp_magic s' = mp_magic s" "page_size s' = page_size s" "granularity s' = granularity s"
    "a \<notin> state_cells s \<Longrightarrow> a \<noteq> tbase + 8 \<Longrightarrow> a \<noteq> tbase + (tsize - 80) + 8 \<Longrightarrow> rd s' a = rd s a"
proof -
  note F = f [unfolded fresh_state_def] and c = fresh_chunk [OF m]
  let ?z = "tsize - 80" let ?e = "tbase + ?z"
  define s1 where "s1 = (let x = s\<lparr>least_addr := tbase\<rparr>; x = set_sg_base x (seg x) tbase; x = set_sg_size x (seg x) tsize
    in set_sg_sflags x (seg x) flag)"
  define s2 where "s2 = s1\<lparr>magic := mp_magic s1, release_checks := MAX_RELEASE_CHECK_RATE\<rparr>"
  define s3 where "s3 = init_bins s2"
  have s2: "s2 = s\<lparr>least_addr := tbase, mem := mem s2, magic := mp_magic s, release_checks := MAX_RELEASE_CHECK_RATE\<rparr>"
    by (simp add: s2_def s1_def Let_def set_sg_base_def set_sg_size_def set_sg_sflags_def wr32_def wr_def)
  have r2: "rd s2 a = rd s1 a" for a by (simp add: s2_def rd_def)
  have r1: "rd s1 (seg s) = tbase" "rd s1 (seg s + 8) = tsize"
    "a \<noteq> seg s \<Longrightarrow> a \<noteq> seg s + 8 \<Longrightarrow> a \<noteq> seg s + 24 \<Longrightarrow> rd s1 a = rd s a" for a
    by (simp_all add: s1_def Let_def set_sg_base_def set_sg_size_def set_sg_sflags_def wr32_def seg_def rd_def wr_def)
  have s3: "s3 = s2\<lparr>mem := mem s3\<rparr>" unfolding s3_def by (rule init_bins_fields(1))
  have M: "maddr s3 = maddr s" by (subst s3, simp, subst s2, simp)
  note H = headers_cong [OF M] and HC = header_cells_cong [OF M]
  have r3: "rd s3 a = rd s2 a" if "a \<notin> link_cells (small_headers s)" for a
  proof -
    have "small_headers s2 = small_headers s" by (rule headers_cong(3)) (subst s2, simp)
    then show ?thesis unfolding s3_def by (intro init_bins_fields(2)) (use that in simp)
  qed
  have s': "s' = (set_head (set_head (s3\<lparr>topp := tbase, topsize := ?z\<rparr>) tbase (?z OR PINUSE_BIT)) ?e TOP_FOOT_SIZE)\<lparr>trim_check := trim_threshold s\<rparr>"
  proof -
    have "is_global s3" using F by (subst s3, subst s2) (simp add: is_global_def)
    moreover have "trim_threshold s3 = trim_threshold s" by (subst s3, subst s2) simp
    moreover have "s' = (if is_global s3 then init_top s3 tbase (tsize - TOP_FOOT_SIZE)
        else let mn = next_chunk s3 (mem2chunk (maddr s3)) in init_top s3 mn (((tbase + tsize) - mn) - TOP_FOOT_SIZE))"
    proof -
      have l: "(if least_addr s = 0 \<or> tbase < least_addr s then s\<lparr>least_addr := tbase\<rparr> else s) = s\<lparr>least_addr := tbase\<rparr>"
        using F by simp
      show ?thesis unfolding s'_def sys_alloc_init_def s3_def s2_def s1_def Let_def l by (rule refl)
    qed
    ultimately show ?thesis
      by (simp add: init_top_def Let_def c(5) dl_consts chunk_plus_offset_def set_head_def wr_def)
  qed
  show maddr: "maddr s' = maddr s" and tops: "topp s' = tbase" "topsize s' = ?z"
    by (simp_all add: s' set_head_def wr_def M)
  show "os s' = os s" "mp_magic s' = mp_magic s" "page_size s' = page_size s" "granularity s' = granularity s"
    by (simp_all add: s' set_head_def wr_def, (subst s3, subst s2, simp)+)
  have least: "least_addr s' = tbase" by (simp add: s' set_head_def wr_def, subst s3, subst s2, simp)
  have sg: "seg s' = seg s" using maddr by (simp add: seg_def)
  have r': "rd s' a = rd s3 a" if "a \<in> state_cells s" for a
  proof -
    have "tbase + 8 \<in> own (tbase, ?z)" using head_own [OF c(1)] by simp
    then have "a \<noteq> tbase + 8" "a \<noteq> ?e + 8" using that c(2,4) by auto
    then show ?thesis by (simp add: s' set_head_def rd_def wr_def)
  qed
  show "rd s' a = rd s a" if a: "a \<notin> state_cells s" "a \<noteq> tbase + 8" "a \<noteq> ?e + 8"
  proof -
    have "rd s' a = rd s3 a" using a(2,3) by (simp add: s' set_head_def rd_def wr_def)
    also have "\<dots> = rd s1 a" using r3 [of a] r2 a(1) header_cells_state [of s] by (auto simp: header_cells_def)
    also have "\<dots> = rd s a"
      by (rule r1(3)) (use a(1) seg_cells_state [of 0 s] seg_cells_state [of 8 s] seg_cells_state [of 24 s] in auto)
    finally show ?thesis .
  qed
  have seg: "rd s' (seg s + k) = rd s1 (seg s + k)" if "unat k < 48" for k
  proof -
    have "seg s + k \<notin> link_cells (small_headers s)" using seg_not_header [OF that, of s] by (simp add: header_cells_def)
    then show ?thesis using r' [OF seg_cells_state [OF that]] r3 r2 by simp
  qed
  show "sg_base s' (seg s') = tbase" using seg [of 0] r1(1) by (simp add: sg sg_base_def)
  show "sg_size s' (seg s') = tsize" using seg [of 8] r1(2) by (simp add: sg sg_size_def)
  show "sg_sflags s' (seg s') = flag"
  proof -
    have "rd32 s1 (seg s + 24) = flag"
      by (simp add: s1_def Let_def set_sg_base_def set_sg_size_def set_sg_sflags_def seg_def wr_def) (simp add: rd32_wr32)
    then show ?thesis using seg [of 24] by (simp add: sg sg_sflags_def rd32_def)
  qed
  show "sg_next s' (seg s') = 0"
    using seg [of 16] r1(3) [of "seg s + 16"] F seg_cells_state [of 16 s] by (simp add: sg sg_next_def)
  have tree: "rd s' (treebin_at s (of_nat i)) = 0" if "i < 32" for i
  proof -
    have h: "treebin_at s (of_nat i) \<in> tree_headers s" using that by (rule tree_headersI)
    then have hc: "treebin_at s (of_nat i) \<in> header_cells s" by (simp add: header_cells_def)
    then have k: "treebin_at s (of_nat i) \<in> state_cells s" using header_cells_state by blast
    have "treebin_at s (of_nat i) \<noteq> seg s + k" if "unat k < 48" for k
      using seg_not_header [OF that, of s] hc by auto
    from this [of 0] this [of 8] this [of 24]
    have "rd s1 (treebin_at s (of_nat i)) = rd s (treebin_at s (of_nat i))" by (intro r1(3)) simp_all
    moreover have "treebin_at s (of_nat i) \<notin> link_cells (small_headers s)" using headers_apart [of s] h by blast
    ultimately show ?thesis using r' [OF k] r3 r2 F k by simp
  qed
  have rep: "free_rep s' {}"
  proof (rule free_rep_empty)
    show "smallmap s' = 0" "treemap s' = 0" using F by (simp_all add: s' set_head_def wr_def, (subst s3, subst s2, simp)+)
    show "\<forall>i<32. rd s' (treebin_at s' (of_nat i)) = 0" using tree headers_cong(2) [OF maddr] by simp
    have "tree_headers s \<subseteq> state_cells s" using header_cells_state [of s] by (simp add: header_cells_def)
    then show "0 \<notin> tree_headers s'" using F headers_cong(4) [OF maddr] by blast
  qed
  show "heap s' {} {} {} K"
  proof (rule heap_only_top [OF rep _ _ tops c(1)])
    show "dv s' = 0" "dvsize s' = 0" using F by (simp_all add: s' set_head_def wr_def, (subst s3, subst s2, simp)+)
    show "unat ?z < 2 ^ 40" unfolding c(3) using m by (simp add: fresh_memory_def less_imp_diff_less)
    have "?e \<noteq> tbase" using aligned_fin [OF c(1)] lo_hi(2,3) [OF c(1)] by (auto simp: lo_def)
    then show "head s' tbase = ?z OR 1" by (simp add: s' head_def set_head_def rd_def wr_def dl_consts)
    show "header_cells s' \<subseteq> K" using header_cells_state [of s] header_cells_cong [OF maddr] K(1) by simp
    show "own (tbase, ?z) \<inter> K = {}" by (rule K(2))
    show "ok_address s' tbase" by (simp add: ok_address_def least)
  qed
qed

end
