(* ===== verification/DL_TopProps.thy ===== *)
theory DL_TopProps
  imports DL_HeapInit
begin

text \<open>
  A top chunk that changes its size: \<open>init_top\<close> in src/src/dlmalloc.c is how \<open>sys_alloc\<close> gives
  the top chunk the memory that follows it and how \<open>sys_trim\<close> takes some of it away.
\<close>

section \<open>Geometry of a single end\<close>

text \<open>When a chunk ends at the only end there is, all other chunks lie before it.\<close>

lemma below_end:
  assumes g: "geo A {fin c}" and c: "c \<in> A" "d \<in> A" "d \<noteq> c"
  shows "hi d \<le> lo c"
proof (rule ccontr)
  assume "\<not> hi d \<le> lo c"
  then have dc: "hi c \<le> lo d" using geoD(4) [OF g c(2,1,3)] by simp
  let ?S = "{x \<in> A. hi c \<le> lo x}"
  have "finite ?S" "d \<in> ?S" using geoD(1) [OF g] c(2) dc by simp_all
  then have fm: "finite (hi ` ?S)" "Max (hi ` ?S) \<in> hi ` ?S" by (auto intro!: Max_in)
  then obtain x where x: "x \<in> ?S" "hi x = Max (hi ` ?S)" by (elim imageE) simp
  have max: "\<forall>y\<in>?S. hi y \<le> hi x" unfolding x(2) using Max_ge [OF fm(1)] by blast
  note gx = geoD(3) [OF g] and u = lo_hi
  have xA: "x \<in> A" "hi c \<le> lo x" using x(1) by simp_all
  from geoD(7) [OF g xA(1)] show False
  proof (elim UnE imageE)
    fix y assume y: "fin x = fst y" "y \<in> A"
    then have e: "hi x = lo y" using u(3) [OF gx [OF xA(1)]] by (simp add: lo_def)
    then have "y \<in> ?S" using y(2) xA u(2) [OF gx [OF xA(1)]] by simp
    then have "hi y \<le> hi x" using max by blast
    then show False using e u(2) [OF gx [OF y(2)]] by simp
  next
    assume "fin x \<in> {fin c}"
    then have "hi x = hi c" using u(3) [OF gx [OF xA(1)]] u(3) [OF gx [OF c(1)]] by simp
    then show False using xA(2) u(2) [OF gx [OF xA(1)]] by simp
  qed
qed

text \<open>Disjoint chunks inside a window take no more room than it has.\<close>

lemma sizes_bound:
  assumes "finite A" "\<forall>c\<in>A. a \<le> lo c \<and> hi c \<le> b" "\<forall>c\<in>A. \<forall>d\<in>A. c \<noteq> d \<longrightarrow> hi c \<le> lo d \<or> hi d \<le> lo c"
  shows "(\<Sum>c\<in>A. unat (snd c)) \<le> b - a"
proof -
  have "(\<Sum>c\<in>A. unat (snd c)) = (\<Sum>c\<in>A. card {lo c..<hi c})" by (simp add: lo_def hi_def)
  also have "\<dots> = card (\<Union>c\<in>A. {lo c..<hi c})"
    using assms(1,3) by (intro card_UN_disjoint [symmetric]) (simp_all add: disjoint_iff, force)
  also have "\<dots> \<le> card {a..<b}"
  proof (rule card_mono)
    show "(\<Union>c\<in>A. {lo c..<hi c}) \<subseteq> {a..<b}"
    proof (rule UN_least)
      fix c assume "c \<in> A"
      then have "a \<le> lo c" "hi c \<le> b" using assms(2) by blast+
      then show "{lo c..<hi c} \<subseteq> {a..<b}" by auto
    qed
  qed simp
  finally show ?thesis by simp
qed

section \<open>init\_top on a heap\<close>

lemma align_chunk: "is_aligned p \<Longrightarrow> unat p + 16 < 2 ^ 64 \<Longrightarrow> align_offset (chunk2mem p) = 0"
proof -
  assume p: "is_aligned p" "unat p + 16 < 2 ^ 64"
  then have "unat (p + 16) = unat p + 16" by (subst unat_add_lem [THEN iffD1]) simp_all
  then have "unat (align_offset (chunk2mem p)) = 0"
    using p(1) by (simp add: unat_align_offset chunk2mem_def dl_consts is_aligned_iff)
  then show ?thesis by (simp add: unat_eq_zero)
qed

lemma init_top_simp:
  fixes s :: "'o state"
  assumes "align_offset (chunk2mem p) = 0"
  shows "init_top s p z = (set_head (set_head (s\<lparr>topp := p, topsize := z\<rparr>) p (z OR PINUSE_BIT)) (p + z) TOP_FOOT_SIZE)
    \<lparr>trim_check := trim_threshold s\<rparr>"
  using assms by (simp add: init_top_def Let_def chunk_plus_offset_def set_head_def wr_def)

lemma init_top_frame:
  fixes s :: "'o state"
  assumes "align_offset (chunk2mem p) = 0"
  shows "topp (init_top s p z) = p" "topsize (init_top s p z) = z"
    "init_top s p z = s\<lparr>mem := mem (init_top s p z), topp := p, topsize := z, trim_check := trim_threshold s\<rparr>"
    "a \<noteq> p + 8 \<Longrightarrow> a \<noteq> p + z + 8 \<Longrightarrow> rd (init_top s p z) a = rd s a"
    "z \<noteq> 0 \<Longrightarrow> head (init_top s p z) p = z OR 1"
  by (simp_all add: init_top_simp [OF assms] set_head_def wr_def rd_def head_def dl_consts)

lemma heap_tops:
  assumes h: "heap s U F {} K" and p: "topp s \<noteq> 0"
  shows "geo (U \<union> F \<union> dvset s \<union> {(topp s, topsize s)}) {topp s + topsize s}"
    "(topp s, topsize s) \<notin> U \<union> F \<union> dvset s" "own (topp s, topsize s) \<inter> K = {}"
    "c \<in> U \<union> F \<union> dvset s \<Longrightarrow> hi c \<le> unat (topp s)"
proof -
  have O: "open_heap (heap_arena s {} K UNIV) s U F (dvset s) (topset s) {}" by (rule heap_enter [OF h]) blast
  have T: "topset s = {(topp s, topsize s)}" using p by (simp add: topset_def)
  show g: "geo (U \<union> F \<union> dvset s \<union> {(topp s, topsize s)}) {topp s + topsize s}"
    using open_geo [OF O] by (simp add: T)
  note L = layoutD [OF open_heapD(3) [OF O]]
  show n: "(topp s, topsize s) \<notin> U \<union> F \<union> dvset s" using L(3,4) T by blast
  show "own (topp s, topsize s) \<inter> K = {}" using L(8) [of "(topp s, topsize s)"] T by simp
  show "hi c \<le> unat (topp s)" if "c \<in> U \<union> F \<union> dvset s"
    using below_end [of _ "(topp s, topsize s)" c] g n that by (auto simp: lo_def)
qed

lemma heap_retop:
  fixes s s0 :: "'o state"
  assumes h: "heap s U F {} K" and p: "topp s \<noteq> 0"
    and g: "chunk_geo (topp s, z)" "(\<Sum>c\<in>U \<union> F \<union> dvset s. unat (snd c)) + unat z < 2 ^ 40"
    and K: "own (topp s, z) \<inter> K = {}" "topp s + z + 8 \<notin> K"
    and f: "maddr s0 = maddr s" "least_addr s0 = least_addr s" "smallmap s0 = smallmap s" "treemap s0 = treemap s"
      "dv s0 = dv s" "dvsize s0 = dvsize s"
    and m: "\<And>a. a \<in> header_cells s \<Longrightarrow> rd s0 a = rd s a" "\<And>a c. c \<in> U \<union> F \<union> dvset s \<Longrightarrow> a \<in> own c \<Longrightarrow> rd s0 a = rd s a"
  shows "heap (init_top s0 (topp s) z) U F {} K"
proof -
  define s' where "s' = init_top s0 (topp s) z"
  let ?p = "topp s" and ?A = "U \<union> F \<union> dvset s"
  have O: "open_heap (heap_arena s {} K UNIV) s U F (dvset s) (topset s) {}" by (rule heap_enter [OF h]) blast
  note P = open_heapD [OF O, simplified] and L = layoutD [OF open_heapD(3) [OF O]] and t = heap_tops [OF h p]
  have T: "topset s = {(?p, topsize s)}" using p by (simp add: topset_def)
  have al: "is_aligned ?p" "is_aligned z" "16 \<le> unat z" "unat ?p + unat z + 16 \<le> 2 ^ 64"
    using g(1) by (simp_all add: chunk_geo_def hi_def)
  have "unat ?p + 16 < 2 ^ 64" using al(3,4) by linarith
  note ao = align_chunk [OF al(1) this] and fr = init_top_frame [OF ao [unfolded atomize_eq]]
  have out: "rd s' a = rd s a" if "a \<in> header_cells s \<or> (\<exists>c\<in>?A. a \<in> own c)" for a
  proof -
    have "a \<noteq> ?p + 8"
    proof
      assume e: "a = ?p + 8"
      have i: "a \<in> own (?p, z)" using head_own [OF g(1)] by (simp add: e)
      from that show False
      proof (elim disjE bexE)
        assume "a \<in> header_cells s"
        then show False using P(4) K(1) i by blast
      next
        fix c assume c: "c \<in> ?A" "a \<in> own c"
        then show False using t(4) [OF c(1)] i by (simp add: own_def lo_def)
      qed
    qed
    moreover have "a \<noteq> ?p + z + 8"
    proof
      assume e: "a = ?p + z + 8"
      have u: "unat (?p + z + 8) = hi (?p, z) + 8"
        using unat_in_chunk [OF g(1), of "z + 8"] al(3,4) unat_add_lem [of z 8]
        by (simp add: hi_def add.assoc unat_word_ariths)
      from that show False
      proof (elim disjE bexE)
        assume "a \<in> header_cells s"
        then show False using P(4) K(2) e by blast
      next
        fix c assume c: "c \<in> ?A" "a \<in> own c"
        then show False using t(4) [OF c(1)] u e by (simp add: own_def lo_def hi_def)
      qed
    qed
    ultimately have "rd s' a = rd s0 a" unfolding s'_def by (rule fr(4))
    then show ?thesis using m that by metis
  qed
  have e: "s' = s0\<lparr>mem := mem s', topp := ?p, topsize := z, trim_check := trim_threshold s0\<rparr>"
    unfolding s'_def by (rule fr(3))
  have f': "maddr s' = maddr s" "least_addr s' = least_addr s" "smallmap s' = smallmap s" "treemap s' = treemap s"
    "dv s' = dv s" "dvsize s' = dvsize s" "topp s' = ?p" "topsize s' = z"
    by (subst e, simp add: f)+
  have D: "dvset s' = dvset s" "topset s' = {(?p, z)}" using p by (simp_all add: dvset_def topset_def f')
  have rep: "free_rep s' F"
  proof (rule free_rep_cong [OF P(1) f'(1-4)])
    show "rd s' a = rd s a" if "a \<in> header_cells s" for a by (rule out) (use that in blast)
    show "rd s' a = rd s a" if "c \<in> F" "a \<in> chunk_cells c" for c a
      by (rule out) (use chunk_cells_own(1) [OF open_chunk [OF O, of c]] L(6) [of c] that in blast)
  qed
  have hd: "head s' q = head s q" if q: "q \<in> fst ` ?A" for q
    unfolding head_def
  proof (rule out)
    obtain c where c: "c \<in> ?A" "q = fst c" using q by blast
    have "q + 8 \<in> own c" unfolding c(2) by (rule head_own [OF open_chunk [OF O]]) (use c(1) in blast)
    then show "q + 8 \<in> header_cells s \<or> (\<exists>c\<in>?A. q + 8 \<in> own c)" using c(1) by blast
  qed
  have ft: "prev_foot s' (fin c) = prev_foot s (fin c)" if c: "c \<in> ?A" for c
    unfolding prev_foot_def by (rule out) (use foot_own [OF open_chunk [OF O, of c]] c in blast)
  have tg: "tags s U (F \<union> dvset s) (topset s) {} {}" using L(10) by simp
  note tt = tagsD [OF tg]
  have hp: "head s' ?p = z OR 1" unfolding s'_def by (rule fr(5)) (use al(3) in auto)
  have nT: "(?p, z) \<notin> ?A" using t(4) [of "(?p, z)"] al(3) by (auto simp: hi_def)
  have Lay: "layout s' U (F \<union> dvset s) {(?p, z)} {} {} {?p + z} K"
  proof (rule layoutI)
    note gg = t(1)
    show "geo (U \<union> (F \<union> dvset s) \<union> {(?p, z)} \<union> {}) {?p + z}"
      unfolding geo_def
    proof (intro conjI ballI impI)
      have fA: "finite ?A" using geoD(1) [OF gg] by simp
      then show "finite (U \<union> (F \<union> dvset s) \<union> {(?p, z)} \<union> {})" by (simp add: Un_assoc)
      have "(\<Sum>c\<in>insert (?p, z) ?A. unat (snd c)) = unat z + (\<Sum>c\<in>?A. unat (snd c))"
        using fA nT by simp
      moreover have "U \<union> (F \<union> dvset s) \<union> {(?p, z)} \<union> {} = insert (?p, z) ?A" by blast
      ultimately show "(\<Sum>c\<in>U \<union> (F \<union> dvset s) \<union> {(?p, z)} \<union> {}. unat (snd c)) < 2 ^ 40" using g(2) by simp
      show "chunk_geo c" if "c \<in> U \<union> (F \<union> dvset s) \<union> {(?p, z)} \<union> {}" for c
        using that g(1) geoD(3) [OF gg, of c] by blast
      show "hi c \<le> lo d \<or> hi d \<le> lo c" if "c \<in> U \<union> (F \<union> dvset s) \<union> {(?p, z)} \<union> {}"
        "d \<in> U \<union> (F \<union> dvset s) \<union> {(?p, z)} \<union> {}" and cd: "c \<noteq> d" for c d
      proof -
        have "c \<in> ?A \<and> d \<in> ?A \<or> c = (?p, z) \<and> d \<in> ?A \<or> d = (?p, z) \<and> c \<in> ?A" using that cd by blast
        then consider "c \<in> ?A" "d \<in> ?A" | "c = (?p, z)" "d \<in> ?A" | "d = (?p, z)" "c \<in> ?A" by blast
        then show ?thesis
        proof cases
          case 1
          then show ?thesis using geoD(4) [OF gg, of c d] cd by blast
        qed (use t(4) in \<open>simp_all add: lo_def\<close>)
      qed
      fix e assume e: "e \<in> {?p + z}"
      then show "is_aligned e" using aligned_fin [OF g(1)] by simp
      have ue: "unat e = hi (?p, z)" using lo_hi(3) [OF g(1)] e by simp
      show "unat e < lo c \<or> hi c \<le> unat e" if "c \<in> U \<union> (F \<union> dvset s) \<union> {(?p, z)} \<union> {}" for c
        using that t(4) [of c] ue by (cases "c = (?p, z)") (auto simp: hi_def)
    next
      fix c assume c: "c \<in> U \<union> (F \<union> dvset s) \<union> {(?p, z)} \<union> {}"
      show "fin c \<in> fst ` (U \<union> (F \<union> dvset s) \<union> {(?p, z)} \<union> {}) \<union> {?p + z}"
      proof (cases "c = (?p, z)")
        case False
        then have cA: "c \<in> ?A" using c by blast
        have "fin c \<noteq> ?p + topsize s" using geo_inj(2) [OF gg, of c "(?p, topsize s)"] cA t(2) by auto
        then have "fin c \<in> fst ` (?A \<union> {(?p, topsize s)})" using geoD(7) [OF gg, of c] cA by blast
        then show ?thesis by auto
      qed simp
    qed
    show "fin ` (F \<union> dvset s) \<inter> fst ` (F \<union> dvset s \<union> {(?p, z)} \<union> {}) = {}"
      using L(7) by (simp add: T)
    show "\<forall>c\<in>U \<union> (F \<union> dvset s). 32 \<le> unat (snd c)" using L(6) by blast
    show "\<forall>c\<in>F \<union> dvset s \<union> {(?p, z)} \<union> {}. own c \<inter> K = {}" using L(8) K(1) by auto
    show "\<forall>q\<in>fst ` U \<union> {}. q + 8 \<notin> K" using L(9) by simp
    show "tags s' U (F \<union> dvset s) {(?p, z)} {} {}"
      unfolding tags_def
    proof (intro conjI ballI impI)
      show "chunksize s' (fst c) = snd c" if "c \<in> U \<union> (F \<union> dvset s) \<union> {(?p, z)}" for c
      proof (cases "c = (?p, z)")
        case False
        then have "c \<in> ?A" using that by blast
        then show ?thesis using tt(1) [of c] hd [of "fst c"] by (simp add: chunksize_def)
      qed (use hp head_words(1) [OF al(2)] in \<open>simp add: chunksize_def\<close>)
      show "cinuse s' (fst c)" if "c \<in> U" for c using tt(2) [OF that] hd [of "fst c"] that by (simp add: cinuse_def)
      show "\<not> cinuse s' (fst c)" if "c \<in> F \<union> dvset s \<union> {(?p, z)}" for c
      proof (cases "c = (?p, z)")
        case False
        then have "c \<in> F \<union> dvset s" using that by blast
        then show ?thesis using tt(3) [of c] hd [of "fst c"] by (auto simp: cinuse_def)
      qed (use hp head_words(4) [OF al(2)] in \<open>simp add: cinuse_def\<close>)
      show "pinuse s' q \<longleftrightarrow> q \<notin> fin ` (F \<union> dvset s)" if "q \<in> fst ` (U \<union> (F \<union> dvset s) \<union> {(?p, z)}) \<union> {}" for q
      proof (cases "q = ?p")
        case True
        then show ?thesis using hp head_words(5) [OF al(2)] L(7) by (auto simp: pinuse_def T)
      next
        case False
        then have q: "q \<in> fst ` ?A" using that by auto
        then show ?thesis using tt(5) [of q] hd [OF q] by (auto simp: pinuse_def)
      qed
      show "prev_foot s' (fin c) = snd c" if "c \<in> F \<union> dvset s" for c using tt(6) [OF that] ft [of c] that by simp
    qed simp
  qed (use L(3,4) T nT in auto)
  have "open_heap \<lparr>fences = {}, ends = {?p + z}, kept = K, reach = UNIV\<rparr> s' U F (dvset s) {(?p, z)} {}"
    using rep P(2,4,8) Lay header_cells_cong [OF f'(1)]
    by (intro open_heapI) (auto simp: ok_address_def f' T)
  then show ?thesis using heapD [OF h] p unfolding s'_def [symmetric] by (simp add: heap_def D f')
qed

end
