(* ===== verification/DL_SbrkProps.thy ===== *)
theory DL_SbrkProps
  imports DL_TopProps
begin

text \<open>
  \<open>sys_alloc\<close> and \<open>sys_trim\<close> of src/src/dlmalloc.c on a system whose only source of memory is a
  contiguous \<open>MORECORE\<close> (\<open>sbrk\<close>): the heap is one segment that ends at the break.
\<close>

section \<open>The system\<close>

definition window :: "nat \<Rightarrow> nat \<Rightarrow> addr set" where
  "window a b = {x. a \<le> unat x \<and> unat x < b}"

text \<open>
  The documented behaviour of \<open>sbrk\<close> and \<open>mmap\<close> the properties rely on: \<open>mmap\<close> always refuses;
  \<open>sbrk(n)\<close> either fails and changes nothing, or returns the old break and moves it by \<open>n\<close>; the
  break stays between \<open>start\<close> and \<open>limit\<close>; memory outside the moved range is not touched; the
  page size is a power of two.
\<close>

definition pow2 :: "size_t \<Rightarrow> bool" where
  "pow2 g \<longleftrightarrow> (\<exists>k. 4 \<le> k \<and> k \<le> 30 \<and> g = 2 ^ k)"

definition sbrk_like :: "'o os_ops \<Rightarrow> ('o \<Rightarrow> addr) \<Rightarrow> nat \<Rightarrow> nat \<Rightarrow> bool" where
  "sbrk_like E brk start limit \<longleftrightarrow> 16 \<le> start \<and> limit \<le> start + 2 ^ 39 \<and> limit \<le> 2 ^ 62 \<and> pow2 (os_pagesize E)
     \<and> (\<forall>n x m. os_mmap E n x m = (MFAIL, x, m)) \<and> (\<forall>x m. os_morecore E 0 x m = (brk x, x, m))
     \<and> (\<forall>n x m a x' m'. os_morecore E n x m = (a, x', m') \<longrightarrow> start \<le> unat (brk x) \<longrightarrow> unat (brk x) \<le> limit \<longrightarrow>
         a = MFAIL \<and> brk x' = brk x \<and> m' = m
         \<or> a = brk x \<and> brk x' = brk x + n \<and> start \<le> unat (brk x') \<and> unat (brk x') \<le> limit
           \<and> (\<forall>c. c \<notin> window (unat (brk x)) (unat (brk x')) \<longrightarrow> c \<notin> window (unat (brk x')) (unat (brk x)) \<longrightarrow> m' c = m c))"

definition in_range :: "('o \<Rightarrow> addr) \<Rightarrow> nat \<Rightarrow> nat \<Rightarrow> 'o state \<Rightarrow> bool" where
  "in_range brk start limit s \<longleftrightarrow> start \<le> unat (brk (os s)) \<and> unat (brk (os s)) \<le> limit"

text \<open>A step of the system that moves the break to \<open>brk (os s')\<close>.\<close>

definition moves_break :: "('o \<Rightarrow> addr) \<Rightarrow> nat \<Rightarrow> nat \<Rightarrow> 'o state \<Rightarrow> 'o state \<Rightarrow> bool" where
  "moves_break brk start limit s s' \<longleftrightarrow> s' = s\<lparr>os := os s', mem := mem s', mflags := mflags s'\<rparr> \<and> in_range brk start limit s'
     \<and> (\<forall>a. a \<notin> window (unat (brk (os s))) (unat (brk (os s'))) \<longrightarrow> a \<notin> window (unat (brk (os s'))) (unat (brk (os s)))
            \<longrightarrow> rd s' a = rd s a)"

definition still :: "('o \<Rightarrow> addr) \<Rightarrow> 'o state \<Rightarrow> 'o state \<Rightarrow> bool" where
  "still brk s s' \<longleftrightarrow> s' = s\<lparr>os := os s', mflags := mflags s'\<rparr> \<and> brk (os s') = brk (os s)"

lemma stillI: "brk x = brk (os s) \<Longrightarrow> still brk s (s\<lparr>os := x, mem := mem s\<rparr>)"
  by (cases s) (simp add: still_def)

lemma still_refl: "still brk s s"
  by (cases s) (simp add: still_def)

lemma still_trans: "still brk s s' \<Longrightarrow> still brk s' s'' \<Longrightarrow> still brk s s''"
  by (cases s, cases s', cases s'') (simp add: still_def)

lemma still_flags: "still brk s (s\<lparr>mflags := x\<rparr>)"
  by (cases s) (simp add: still_def)

lemma still_fields:
  assumes "still brk s s'"
  shows "mem s' = mem s" "rd s' a = rd s a" "maddr s' = maddr s" "topp s' = topp s" "topsize s' = topsize s"
    "granularity s' = granularity s" "page_size s' = page_size s" "brk (os s') = brk (os s)" "seg s' = seg s"
    "footprint s' = footprint s" "footprint_limit s' = footprint_limit s"
  using assms by (cases s, cases s', simp add: still_def rd_def seg_def)+

lemma still_range: "still brk s s' \<Longrightarrow> in_range brk start limit s \<Longrightarrow> in_range brk start limit s'"
  using still_fields(8) [of brk s s'] by (simp add: in_range_def)

lemma still_moves: "still brk s s' \<Longrightarrow> moves_break brk start limit s' s'' \<Longrightarrow> moves_break brk start limit s s''"
  by (cases s, cases s', cases s'') (simp add: still_def moves_break_def rd_def)

lemma sbrk_likeD:
  assumes "sbrk_like E brk start limit"
  shows "16 \<le> start" "limit \<le> start + 2 ^ 39" "limit \<le> 2 ^ 62" "pow2 (os_pagesize E)" "os_mmap E n x m = (MFAIL, x, m)"
    "os_morecore E 0 x m = (brk x, x, m)"
  using assms by (simp_all add: sbrk_like_def)

lemma not_MFAIL: "unat a \<le> 2 ^ 62 \<Longrightarrow> a \<noteq> MFAIL"
  by (auto simp: MFAIL_def dl_consts)

lemma query_break:
  assumes "sbrk_like E brk start limit"
  shows "CALL_MORECORE E 0 s = (s, brk (os s))" "CALL_MMAP E n s = (s, MFAIL)"
  using sbrk_likeD(5,6) [OF assms] by (simp_all add: CALL_MORECORE_def CALL_MMAP_def)

lemma morecore_moves:
  assumes E: "sbrk_like E brk start limit" and r: "in_range brk start limit s"
  obtains s' where "CALL_MORECORE E n s = (s', MFAIL)" "still brk s s'"
  | s' where "CALL_MORECORE E n s = (s', brk (os s))" "moves_break brk start limit s s'" "brk (os s) \<noteq> MFAIL"
    "brk (os s') = brk (os s) + n" "unat (brk (os s')) \<le> limit"
proof -
  obtain a x m where o: "os_morecore E n (os s) (mem s) = (a, x, m)" by (cases "os_morecore E n (os s) (mem s)") auto
  define s' where "s' = s\<lparr>os := x, mem := m\<rparr>"
  have c: "CALL_MORECORE E n s = (s', a)" by (simp add: CALL_MORECORE_def o s'_def)
  have b: "start \<le> unat (brk (os s))" "unat (brk (os s)) \<le> limit" using r by (simp_all add: in_range_def)
  have ne: "brk (os s) \<noteq> MFAIL" using not_MFAIL b(2) sbrk_likeD(3) [OF E] by auto
  from E o b have "a = MFAIL \<and> brk x = brk (os s) \<and> m = mem s \<or> a = brk (os s) \<and> brk x = brk (os s) + n \<and> start \<le> unat (brk x)
      \<and> unat (brk x) \<le> limit \<and> (\<forall>c. c \<notin> window (unat (brk (os s))) (unat (brk x)) \<longrightarrow>
        c \<notin> window (unat (brk x)) (unat (brk (os s))) \<longrightarrow> m c = mem s c)"
    unfolding sbrk_like_def by blast
  then show thesis
  proof (elim disjE conjE)
    assume "a = MFAIL" "brk x = brk (os s)" "m = mem s"
    then show thesis using that(1) c stillI [of brk x s] by (simp add: s'_def)
  next
    assume a: "a = brk (os s)" "brk x = brk (os s) + n" "start \<le> unat (brk x)" "unat (brk x) \<le> limit"
      and m: "\<forall>c. c \<notin> window (unat (brk (os s))) (unat (brk x)) \<longrightarrow> c \<notin> window (unat (brk x)) (unat (brk (os s))) \<longrightarrow> m c = mem s c"
    have "moves_break brk start limit s s'"
      using a m by (cases s) (simp add: moves_break_def s'_def in_range_def rd_def)
    then show thesis using that(2) c a ne by (simp add: s'_def)
  qed
qed

lemma morecore_grows:
  assumes E: "sbrk_like E brk start limit" and r: "in_range brk start limit s" and n: "unat n < 2 ^ 63"
  obtains s' where "CALL_MORECORE E n s = (s', MFAIL)" "still brk s s'"
  | s' where "CALL_MORECORE E n s = (s', brk (os s))" "moves_break brk start limit s s'" "brk (os s) \<noteq> MFAIL"
    "brk (os s') = brk (os s) + n" "unat (brk (os s)) + unat n = unat (brk (os s'))" "unat (brk (os s')) \<le> limit"
  using morecore_moves [OF E r, of n]
proof cases
  case (2 s')
  have "unat (brk (os s) + n) = unat (brk (os s)) + unat n"
    using r n sbrk_likeD(3) [OF E] by (subst unat_add_lem [THEN iffD1]) (simp_all add: in_range_def)
  then show thesis using that(2) [of s'] 2 by simp
qed (rule that(1))

section \<open>Rounding\<close>

lemma pow2_mask:
  assumes "pow2 g"
  obtains k where "4 \<le> k" "k \<le> 30" "g = 2 ^ k" "g - 1 = mask k" "unat g = 2 ^ k"
proof -
  obtain k where k: "4 \<le> k" "k \<le> 30" "g = 2 ^ k" using assms by (auto simp: pow2_def)
  moreover have "unat g = 2 ^ k" using k by (simp add: unat_exp)
  moreover have "g - 1 = mask k" using k(3) by (simp add: mask_eq_exp_minus_1)
  ultimately show thesis using that by blast
qed

lemma pow2_ok: "pow2 g \<Longrightarrow> g AND (g - 1) = 0"
proof (elim pow2_mask)
  fix k assume "g = 2 ^ k" "g - 1 = mask k"
  moreover have "2 ^ k AND mask k = (0 :: size_t)" by (rule bit_word_eqI) (auto simp: bit_simps)
  ultimately show ?thesis by simp
qed

definition round_to :: "size_t \<Rightarrow> size_t \<Rightarrow> size_t" where
  "round_to g x = (x + (g - 1)) AND NOT (g - 1)"

lemma aligns: "granularity_align s x = round_to (granularity s) x" "page_align s x = round_to (page_size s) x"
  by (simp_all add: granularity_align_def page_align_def round_to_def)

lemma round_to_facts:
  assumes g: "pow2 g" and x: "unat x < 2 ^ 63"
  shows "unat x \<le> unat (round_to g x)" "unat (round_to g x) < unat x + 2 ^ 30" "16 dvd unat (round_to g x)"
    "unat g dvd unat (round_to g x)"
proof -
  obtain k where k: "4 \<le> k" "k \<le> 30" "g = 2 ^ k" "g - 1 = mask k" "unat g = 2 ^ k" using g by (rule pow2_mask)
  have p: "(2 :: nat) ^ k \<le> 2 ^ 30" using k(2) by (intro power_increasing) simp_all
  have d: "(16 :: nat) dvd 2 ^ k" using le_imp_power_dvd [OF k(1), of "2 :: nat"] by simp
  have "unat x + (2 ^ k - 1) < 2 ^ 64" using x p by simp
  then have r: "unat (round_to g x) = unat x + (2 ^ k - 1) - (unat x + (2 ^ k - 1)) mod 2 ^ k"
    using unat_round_up [of k x] k(2) by (simp add: round_to_def k(4))
  have "(0 :: nat) < 2 ^ k" by simp
  note m = round_up_mod [OF this, of "unat x"]
  show "unat x \<le> unat (round_to g x)" "unat (round_to g x) < unat x + 2 ^ 30" unfolding r using m(1,2) p by linarith+
  have r2: "2 ^ k dvd unat (round_to g x)" unfolding r by (rule m(3))
  show "16 dvd unat (round_to g x)" by (rule dvd_trans [OF d r2])
  show "unat g dvd unat (round_to g x)" unfolding k(5) by (rule r2)
qed

section \<open>The memory sys\_alloc gets\<close>

text \<open>
  What a source of memory delivers: nothing, or \<open>tz\<close> bytes from the break on, enough for the
  request \<open>nb\<close> together with what the top chunk has.
\<close>

definition delivers ::
  "('o \<Rightarrow> addr) \<Rightarrow> nat \<Rightarrow> nat \<Rightarrow> 'o state \<Rightarrow> nat \<Rightarrow> 'o state \<Rightarrow> addr \<Rightarrow> size_t \<Rightarrow> bool"
where
  "delivers brk start limit s need s' tb tz \<longleftrightarrow>
     tb = MFAIL \<and> still brk s s'
     \<or> tb = brk (os s) \<and> tb \<noteq> MFAIL \<and> moves_break brk start limit s s' \<and> brk (os s') = tb + tz
       \<and> unat tb + unat tz = unat (brk (os s')) \<and> unat (brk (os s')) \<le> limit \<and> 16 dvd unat tz \<and> need \<le> unat tz"

lemma delivers_still:
  assumes a: "still brk s s'" and d: "delivers brk start limit s' n s'' tb tz"
  shows "delivers brk start limit s n s'' tb tz"
  using d unfolding delivers_def still_fields(8) [OF a]
  by (elim disjE conjE) (simp_all add: still_trans [OF a] still_moves [OF a])

lemma delivers_morecore:
  assumes E: "sbrk_like E brk start limit" and r: "in_range brk start limit s"
    and n: "unat n < 2 ^ 63" "16 dvd unat n" "need \<le> unat n"
  obtains s' where "CALL_MORECORE E n s = (s', MFAIL)" "still brk s s'"
  | s' where "CALL_MORECORE E n s = (s', brk (os s))" "delivers brk start limit s need s' (brk (os s)) n" "brk (os s) \<noteq> MFAIL"
    "brk (os s') = brk (os s) + n" "unat (brk (os s)) + unat n = unat (brk (os s'))"
  using morecore_grows [OF E r n(1)]
proof cases
  case (2 s')
  then show thesis using that(2) [of s'] n by (simp add: delivers_def)
qed (rule that(1))

lemma half: "n < HALF_MAX_SIZE_T \<longleftrightarrow> unat n < 2 ^ 63 - 1"
  by (simp add: dl_consts word_less_nat_alt)

lemma unat_diff: "y \<le> x \<Longrightarrow> unat (x - y) = unat x - unat (y :: size_t)"
  by (simp add: unat_sub)

text \<open>The hypotheses on the state: where the break is, and the segment of the top chunk.\<close>

definition sbrk_ready :: "('o \<Rightarrow> addr) \<Rightarrow> nat \<Rightarrow> nat \<Rightarrow> 'o state \<Rightarrow> bool" where
  "sbrk_ready brk start limit s \<longleftrightarrow> in_range brk start limit s \<and> is_aligned (brk (os s)) \<and> pow2 (granularity s) \<and> pow2 (page_size s)"

lemma sbrk_ready_still: "still brk s s' \<Longrightarrow> sbrk_ready brk start limit s \<Longrightarrow> sbrk_ready brk start limit s'"
  using still_fields(6-8) [of brk s s'] still_range [of brk s s' start limit] by (simp add: sbrk_ready_def)

lemma sys_alloc_extend_sbrk:
  assumes E: "sbrk_like E brk start limit" and R: "sbrk_ready brk start limit s" and nb: "unat nb < 2 ^ 40" "16 dvd unat nb"
    and asize: "asize = round_to (granularity s) (nb + 96)"
    and ss: "ss = 0 \<and> topsize s = 0 \<or> sg_base s ss + sg_size s ss = brk (os s) \<and> topsize s \<le> nb \<and> ss \<noteq> 0
      \<and> ss \<notin> window start limit \<and> ss + 8 \<notin> window start limit"
  shows "\<exists>s' tb tz br sz. sys_alloc_extend E s nb asize ss = (s', tb, tz, br, sz) \<and> (tb = MFAIL \<longrightarrow> br = MFAIL)
    \<and> delivers brk start limit s (unat nb + 96 - unat (topsize s)) s' tb tz"
proof -
  note r = R [unfolded sbrk_ready_def]
  have n96: "unat (nb + 96) = unat nb + 96" using nb by (subst unat_add_lem [THEN iffD1]) simp_all
  have lt: "unat (nb + 96) < 2 ^ 63" unfolding n96 using nb by simp
  have g: "pow2 (granularity s)" "pow2 (page_size s)" and ir: "in_range brk start limit s" using r by blast+
  note A = round_to_facts [OF g(1) lt, folded asize, unfolded n96]
  have fail: "delivers brk start limit s n s MFAIL 0" for n by (simp add: delivers_def still_refl)
  show ?thesis
  proof (cases "ss = 0")
    case True
    then have t0: "topsize s = 0" using ss by auto
    let ?b = "brk (os s)"
    have b: "unat ?b \<le> 2 ^ 62" using ir sbrk_likeD(3) [OF E] by (simp add: in_range_def)
    then have "unat ?b < 2 ^ 63" by simp
    note B = round_to_facts [OF g(2) this]
    define pad where "pad = (if \<not> is_page_aligned s ?b then page_align s ?b - ?b else 0)"
    have pad: "unat pad < 2 ^ 30" "16 dvd unat pad"
    proof -
      have u: "unat (page_align s ?b - ?b) = unat (round_to (page_size s) ?b) - unat ?b"
        unfolding aligns by (rule unat_diff) (use B(1) in \<open>simp add: word_le_nat_alt\<close>)
      have "unat (round_to (page_size s) ?b) - unat ?b < 2 ^ 30" using B(1,2) less_diff_conv2 [OF B(1)] by (simp add: add.commute)
      then show "unat pad < 2 ^ 30" using u by (simp add: pad_def)
      have "16 dvd unat ?b" using r by (simp add: is_aligned_iff)
      then have "16 dvd unat (round_to (page_size s) ?b) - unat ?b" using B(3) dvd_diff_nat by blast
      then show "16 dvd unat pad" using u by (simp add: pad_def)
    qed
    have sz: "unat (asize + pad) = unat asize + unat pad"
      using A(2) nb(1) pad(1) by (subst unat_add_lem [THEN iffD1]) simp_all
    have "unat (asize + pad) < 2 ^ 63" unfolding sz using A(2) nb(1) pad(1) by simp
    moreover have "16 dvd unat (asize + pad)" unfolding sz using A(3) pad(2) by (rule dvd_add)
    moreover have "unat nb + 96 - unat (topsize s) \<le> unat (asize + pad)" unfolding sz using A(1) by linarith
    ultimately have n: "unat (asize + pad) < 2 ^ 63" "16 dvd unat (asize + pad)" "unat nb + 96 - unat (topsize s) \<le> unat (asize + pad)"
      by simp_all
    have bm: "?b \<noteq> MFAIL" using not_MFAIL [OF b] .
    have pe: "(if \<not> is_page_aligned s ?b then asize + (page_align s ?b - ?b) else asize) = asize + pad"
      by (simp add: pad_def)
    have e: "sys_alloc_extend E s nb asize ss = (let ssize = asize + pad; fp = footprint s + ssize
        in if nb < ssize \<and> ssize < HALF_MAX_SIZE_T \<and> (footprint_limit s = 0 \<or> (footprint s < fp \<and> fp \<le> footprint_limit s))
           then let (s, br) = CALL_MORECORE E ssize s in if br = ?b then (s, ?b, ssize, br, ssize) else (s, MFAIL, 0, br, ssize)
           else (s, MFAIL, 0, MFAIL, ssize))"
      using bm by (simp only: sys_alloc_extend_def True query_break(1) [OF E] pe Let_def prod.case if_True simp_thms)
    show ?thesis
    proof (cases "nb < asize + pad \<and> asize + pad < HALF_MAX_SIZE_T \<and> (footprint_limit s = 0 \<or>
        (footprint s < footprint s + (asize + pad) \<and> footprint s + (asize + pad) \<le> footprint_limit s))")
      case True
      from delivers_morecore [OF E ir n] show ?thesis
      proof cases
        case (1 s')
        then show ?thesis using True bm by (simp add: e Let_def delivers_def)
      next
        case (2 s')
        then show ?thesis using True by (simp add: e Let_def)
      qed
    next
      case False
      then show ?thesis using fail by (auto simp: e Let_def)
    qed
  next
    case False
    then have s: "sg_base s ss + sg_size s ss = brk (os s)" "topsize s \<le> nb"
      and sw: "ss \<notin> window start limit" "ss + 8 \<notin> window start limit" using ss by auto
    have u: "unat (nb - topsize s + 96) = unat nb - unat (topsize s) + 96"
      using s(2) nb(1) unat_diff [OF s(2)] by (subst unat_add_lem [THEN iffD1]) simp_all
    have v: "unat (topsize s) \<le> unat nb" using s(2) by (simp add: word_le_nat_alt)
    have "unat (nb - topsize s + 96) < 2 ^ 63" unfolding u using nb(1) by simp
    note C = round_to_facts [OF g(1) this, unfolded u]
    let ?z = "granularity_align s (nb - topsize s + 96)"
    have n: "unat ?z < 2 ^ 63" "16 dvd unat ?z" "unat nb + 96 - unat (topsize s) \<le> unat ?z"
      unfolding aligns using C(1-3) nb(1) v by simp_all
    have h: "?z < HALF_MAX_SIZE_T" unfolding half aligns using C(2) nb(1) by simp
    have e: "sys_alloc_extend E s nb asize ss = (let (s', br) = CALL_MORECORE E ?z s
        in if br = sg_base s' ss + sg_size s' ss then (s', br, ?z, br, ?z) else (s', MFAIL, 0, br, ?z))"
      using False h by (simp add: sys_alloc_extend_def dl_consts Let_def)
    from delivers_morecore [OF E ir n] show ?thesis
    proof cases
      case (1 s')
      have "brk (os s) \<noteq> MFAIL"
        using not_MFAIL [of "brk (os s)"] ir sbrk_likeD(3) [OF E] by (simp add: in_range_def)
      then have "MFAIL \<noteq> sg_base s' ss + sg_size s' ss"
        using s(1) still_fields(2) [OF 1(2)] by (simp add: sg_base_def sg_size_def)
      then show ?thesis using 1 by (simp add: e delivers_def)
    next
      case (2 s')
      have "rd s' a = rd s a" if "a \<notin> window start limit" for a
        using 2(2,3) that ir by (auto simp: delivers_def moves_break_def in_range_def window_def)
      then have "brk (os s) = sg_base s' ss + sg_size s' ss" using sw s(1) by (simp add: sg_base_def sg_size_def)
      then show ?thesis using 2 by (simp add: e Let_def)
    qed
  qed
qed

end
