(* ===== verification/DL_SbrkAlloc.thy ===== *)
theory DL_SbrkAlloc
  imports DL_SbrkProps
begin

text \<open>
  \<open>sys_alloc\<close> of src/src/dlmalloc.c on a system with a contiguous \<open>MORECORE\<close>: the first
  allocation sets up the heap, later ones extend the top chunk, and a refusal changes nothing.
\<close>

section \<open>The source of the memory\<close>

lemma sys_alloc_contiguous_sbrk:
  assumes E: "sbrk_like E brk start limit" and R: "sbrk_ready brk start limit s" and nb: "unat nb < 2 ^ 40" "16 dvd unat nb"
    and asize: "asize = round_to (granularity s) (nb + 96)"
    and ss: "topp s = 0 \<and> topsize s = 0 \<or> topp s \<noteq> 0 \<and> segment_holding s (topp s) = Inr ss
      \<and> sg_base s ss + sg_size s ss = brk (os s) \<and> topsize s \<le> nb \<and> ss \<noteq> 0 \<and> ss \<notin> window start limit \<and> ss + 8 \<notin> window start limit"
  shows "\<exists>s' tb tz. sys_alloc_contiguous E s nb asize = Inr (s', tb, tz)
    \<and> delivers brk start limit s (unat nb + 96 - unat (topsize s)) s' tb tz"
proof (cases "use_noncontiguous s")
  case True
  then show ?thesis by (simp add: sys_alloc_contiguous_def delivers_def still_refl)
next
  case False
  define q where "q = (if topp s = 0 then 0 else ss)"
  have q: "(if topp s = 0 then Inr 0 else segment_holding s (topp s)) = Inr q" using ss by (auto simp: q_def)
  have "q = 0 \<and> topsize s = 0 \<or> sg_base s q + sg_size s q = brk (os s) \<and> topsize s \<le> nb \<and> q \<noteq> 0
      \<and> q \<notin> window start limit \<and> q + 8 \<notin> window start limit"
    using ss by (auto simp: q_def)
  from sys_alloc_extend_sbrk [OF E R nb asize this] obtain s' tb tz br sz
    where e: "sys_alloc_extend E s nb asize q = (s', tb, tz, br, sz)" "tb = MFAIL \<longrightarrow> br = MFAIL"
      and d: "delivers brk start limit s (unat nb + 96 - unat (topsize s)) s' tb tz" by blast
  show ?thesis
  proof (cases "tb = MFAIL")
    case True
    then have "sys_alloc_contiguous E s nb asize = Inr (disable_contiguous s', MFAIL, 0)"
      using False e by (simp add: sys_alloc_contiguous_def q sys_alloc_recover_def)
    moreover have "still brk s (disable_contiguous s')"
      using d True unfolding delivers_def disable_contiguous_def by (auto intro: still_trans still_flags)
    ultimately show ?thesis by (simp add: delivers_def)
  next
    case ok: False
    then have "sys_alloc_contiguous E s nb asize = Inr (s', tb, tz)"
      using False e by (simp add: sys_alloc_contiguous_def q)
    then show ?thesis using d by blast
  qed
qed

lemma sys_alloc_noncontiguous_sbrk:
  assumes E: "sbrk_like E brk start limit" and R: "sbrk_ready brk start limit s" and nb: "unat nb < 2 ^ 40" "16 dvd unat nb"
    and asize: "asize = round_to (granularity s) (nb + 96)"
  shows "\<exists>s' tb tz. sys_alloc_noncontiguous E s nb asize = (s', tb, tz)
    \<and> delivers brk start limit s (unat nb + 96) s' tb tz"
proof -
  note r = R [unfolded sbrk_ready_def]
  have n96: "unat (nb + 96) = unat nb + 96" using nb by (subst unat_add_lem [THEN iffD1]) simp_all
  have "unat (nb + 96) < 2 ^ 63" unfolding n96 using nb by simp
  note A = round_to_facts [OF conjunct1 [OF conjunct2 [OF conjunct2 [OF r]]] this, folded asize, unfolded n96]
  have n: "unat asize < 2 ^ 63" "16 dvd unat asize" "unat nb + 96 \<le> unat asize" and h: "asize < HALF_MAX_SIZE_T"
    unfolding half using A(1-3) nb(1) by simp_all
  have ir: "in_range brk start limit s" using r by blast
  from delivers_morecore [OF E ir n] show ?thesis
  proof cases
    case (1 s')
    then show ?thesis using h by (simp add: sys_alloc_noncontiguous_def query_break(1) [OF E] delivers_def)
  next
    case (2 s')
    have d: "brk (os s') - brk (os s) = asize" using 2(4) by simp
    have e: "brk (os s') \<noteq> MFAIL"
      using 2(2,3) sbrk_likeD(3) [OF E] not_MFAIL [of "brk (os s')"] by (auto simp: delivers_def)
    have lt: "brk (os s) < brk (os s')" "nb + 80 < asize"
    proof -
      have "unat (nb + 80) = unat nb + 80" using nb by (subst unat_add_lem [THEN iffD1]) simp_all
      then show "nb + 80 < asize" using n(3) by (simp add: word_less_nat_alt)
      show "brk (os s) < brk (os s')" using 2(5) n(3) by (simp add: word_less_nat_alt)
    qed
    have "sys_alloc_noncontiguous E s nb asize = (s', brk (os s), asize)"
      using h 2(1,3) e lt by (simp add: sys_alloc_noncontiguous_def query_break(1) [OF E] d dl_consts)
    then show ?thesis using 2(2) by blast
  qed
qed

lemma sys_alloc_get_sbrk:
  assumes E: "sbrk_like E brk start limit" and R: "sbrk_ready brk start limit s" and nb: "unat nb < 2 ^ 40" "16 dvd unat nb"
    and asize: "asize = round_to (granularity s) (nb + 96)"
    and ss: "topp s = 0 \<and> topsize s = 0 \<or> topp s \<noteq> 0 \<and> segment_holding s (topp s) = Inr ss
      \<and> sg_base s ss + sg_size s ss = brk (os s) \<and> topsize s \<le> nb \<and> ss \<noteq> 0 \<and> ss \<notin> window start limit \<and> ss + 8 \<notin> window start limit"
  shows "\<exists>s' tb tz. sys_alloc_get E s nb asize = Inr (s', tb, tz, 0)
    \<and> delivers brk start limit s (unat nb + 96 - unat (topsize s)) s' tb tz"
proof -
  from sys_alloc_contiguous_sbrk [OF assms] obtain s1 tb tz
    where c: "sys_alloc_contiguous E s nb asize = Inr (s1, tb, tz)"
      and d: "delivers brk start limit s (unat nb + 96 - unat (topsize s)) s1 tb tz" by blast
  show ?thesis
  proof (cases "tb = MFAIL")
    case True
    then have st: "still brk s s1" using d by (auto simp: delivers_def)
    have "asize = round_to (granularity s1) (nb + 96)" using asize still_fields(6) [OF st] by simp
    from sys_alloc_noncontiguous_sbrk [OF E sbrk_ready_still [OF st R] nb this] obtain s2 tb2 tz2
      where n: "sys_alloc_noncontiguous E s1 nb asize = (s2, tb2, tz2)"
        and d2: "delivers brk start limit s1 (unat nb + 96) s2 tb2 tz2" by blast
    have "sys_alloc_get E s nb asize = Inr (s2, tb2, tz2, 0)"
      using c n True by (simp add: sys_alloc_get_def query_break(2) [OF E])
    moreover have "delivers brk start limit s (unat nb + 96 - unat (topsize s)) s2 tb2 tz2"
      using delivers_still [OF st d2] by (auto simp: delivers_def)
    ultimately show ?thesis by blast
  next
    case False
    then have "sys_alloc_get E s nb asize = Inr (s1, tb, tz, 0)" using c by (simp add: sys_alloc_get_def)
    then show ?thesis using d by blast
  qed
qed

end
