(* ===== verification/DL_SbrkHeap.thy ===== *)
theory DL_SbrkHeap
  imports DL_SbrkAlloc DL_ResizeProps
begin

text \<open>
  The invariant of the whole allocator of src/src/dlmalloc.c on a system with a contiguous
  \<open>MORECORE\<close>, and what the operations keep of it.
\<close>

section \<open>One segment that ends at the break\<close>

text \<open>The cells the allocator may not hand out: all but those of the segment.\<close>

definition foreign :: "nat \<Rightarrow> 'o state \<Rightarrow> addr set" where
  "foreign limit s = - window (unat (sg_base s (seg s))) limit"

definition grown :: "('o \<Rightarrow> addr) \<Rightarrow> nat \<Rightarrow> nat \<Rightarrow> 'o state \<Rightarrow> chunk set \<Rightarrow> bool" where
  "grown brk start limit s U \<longleftrightarrow> topp s \<noteq> 0 \<and> (\<exists>F. heap s U F {} (foreign limit s)) \<and> (\<forall>c\<in>U. own c \<inter> foreign limit s = {})
     \<and> start \<le> unat (sg_base s (seg s)) \<and> is_aligned (sg_base s (seg s))
     \<and> sg_next s (seg s) = 0 \<and> sg_sflags s (seg s) = 0
     \<and> unat (sg_base s (seg s)) + unat (sg_size s (seg s)) = unat (brk (os s))
     \<and> unat (topp s) + unat (topsize s) + 80 = unat (brk (os s))"

definition sbrk_inv :: "('o \<Rightarrow> addr) \<Rightarrow> nat \<Rightarrow> nat \<Rightarrow> 'o state \<Rightarrow> chunk set \<Rightarrow> bool" where
  "sbrk_inv brk start limit s U \<longleftrightarrow> in_range brk start limit s \<and> is_aligned (brk (os s))
     \<and> (mp_magic s = 0 \<or> pow2 (granularity s) \<and> pow2 (page_size s))
     \<and> state_cells s \<inter> window start limit = {} \<and> seg s \<noteq> 0
     \<and> (if topp s = 0 then U = {} \<and> fresh_state s else grown brk start limit s U)"

text \<open>What the client has stored, and all memory that is none of the allocator's business.\<close>

definition stored :: "nat \<Rightarrow> nat \<Rightarrow> 'o state \<Rightarrow> chunk set \<Rightarrow> addr set" where
  "stored start limit s U = (\<Union>c\<in>U. payload c) \<union> - (window start limit \<union> state_cells s)"

lemma grownD:
  assumes "grown brk start limit s U"
  shows "topp s \<noteq> 0" "\<forall>c\<in>U. own c \<inter> foreign limit s = {}" "start \<le> unat (sg_base s (seg s))"
    "is_aligned (sg_base s (seg s))" "sg_next s (seg s) = 0" "sg_sflags s (seg s) = 0"
    "unat (sg_base s (seg s)) + unat (sg_size s (seg s)) = unat (brk (os s))"
    "unat (topp s) + unat (topsize s) + 80 = unat (brk (os s))"
  using assms by (simp_all add: grown_def)

lemma sbrk_invD:
  assumes "sbrk_inv brk start limit s U"
  shows "in_range brk start limit s" "is_aligned (brk (os s))" "mp_magic s = 0 \<or> pow2 (granularity s) \<and> pow2 (page_size s)"
    "state_cells s \<inter> window start limit = {}" "seg s \<noteq> 0" "topp s = 0 \<Longrightarrow> U = {} \<and> fresh_state s"
    "topp s \<noteq> 0 \<Longrightarrow> grown brk start limit s U"
  using assms by (auto simp: sbrk_inv_def)

lemma seg_in_state: "seg s \<in> state_cells s" "seg s + 8 \<in> state_cells s" "seg s + 16 \<in> state_cells s" "seg s + 24 \<in> state_cells s"
  using seg_cells_state [of 0 s] seg_cells_state [of 8 s] seg_cells_state [of 16 s] seg_cells_state [of 24 s] by simp_all

lemma state_foreign:
  assumes "grown brk start limit s U" "state_cells s \<inter> window start limit = {}"
  shows "state_cells s \<subseteq> foreign limit s"
  using grownD(3) [OF assms(1)] assms(2) unfolding foreign_def window_def by fastforce

lemma unat_lt: "unat (a :: addr) < 2 ^ 64"
  using unsigned_less [of a, where 'a = nat] by simp

text \<open>The segment is the one that holds the top chunk.\<close>

lemma aligned_le: "16 dvd (a :: nat) \<Longrightarrow> 16 dvd b \<Longrightarrow> a \<le> b + 8 \<Longrightarrow> a \<le> b"
  by (elim dvdE) simp

lemma grown_top:
  assumes g: "grown brk start limit s U"
  shows "unat (sg_base s (seg s)) \<le> unat (topp s)" "is_aligned (topp s)" "is_aligned (topsize s)" "16 \<le> unat (topsize s)"
    "segment_holds s (seg s) (topp s)"
proof -
  obtain F where h: "heap s U F {} (foreign limit s)" using g by (auto simp: grown_def)
  note t = heap_tops [OF h grownD(1) [OF g]] and G = grownD [OF g]
  have c: "chunk_geo (topp s, topsize s)" by (rule geoD(3) [OF t(1)]) simp
  then show al: "is_aligned (topp s)" "is_aligned (topsize s)" "16 \<le> unat (topsize s)" by (simp_all add: chunk_geo_def)
  have "topp s + 8 \<in> own (topp s, topsize s)" using head_own [OF c] by simp
  then have "topp s + 8 \<in> window (unat (sg_base s (seg s))) limit" using t(3) by (auto simp: foreign_def)
  then have "unat (sg_base s (seg s)) \<le> unat (topp s) + 8"
    using unat_head [OF c] by (simp add: window_def lo_def)
  then show b: "unat (sg_base s (seg s)) \<le> unat (topp s)"
    by (rule aligned_le [rotated 2]) (use G(4) al(1) in \<open>simp_all add: is_aligned_iff\<close>)
  have "unat (sg_base s (seg s) + sg_size s (seg s)) = unat (sg_base s (seg s)) + unat (sg_size s (seg s))"
    by (rule unat_add_lem [THEN iffD1]) (use unat_lt [of "brk (os s)"] in \<open>simp add: G(7)\<close>)
  then show "segment_holds s (seg s) (topp s)"
    using b G(7,8) by (simp add: segment_holds_def word_le_nat_alt word_less_nat_alt)
qed

lemma segment_holding_first:
  assumes "segment_holds s (seg s) a"
  shows "segment_holding s a = Inr (seg s)"
  using assms by (simp add: segment_holding_def segment_holds_def segment_holding_loop.simps [of s a "seg s"])

lemma grown_end:
  assumes g: "grown brk start limit s U"
  shows "sg_base s (seg s) + sg_size s (seg s) = brk (os s)"
proof -
  have "unat (sg_base s (seg s) + sg_size s (seg s)) = unat (sg_base s (seg s)) + unat (sg_size s (seg s))"
    by (rule unat_add_lem [THEN iffD1]) (use unat_lt [of "brk (os s)"] in \<open>simp add: grownD(7) [OF g]\<close>)
  then show ?thesis using grownD(7) [OF g] by (simp add: word_unat_eq_iff)
qed

text \<open>All chunks lie in the segment, so their sizes are bounded.\<close>

lemma grown_sizes:
  assumes h: "heap s U F {} (foreign limit s)" and U: "\<forall>c\<in>U. own c \<inter> foreign limit s = {}" and t: "topp s \<noteq> 0"
    and z: "unat (topp s) + unat z + 8 \<le> limit" "unat (sg_base s (seg s)) \<le> unat (topp s)"
    and b: "limit \<le> start + 2 ^ 39" "start \<le> unat (sg_base s (seg s))"
  shows "(\<Sum>c\<in>U \<union> F \<union> dvset s. unat (snd c)) + unat z < 2 ^ 40"
proof -
  let ?A = "U \<union> F \<union> dvset s" and ?b = "unat (sg_base s (seg s))"
  note T = heap_tops [OF h t]
  have O: "open_heap (heap_arena s {} (foreign limit s) UNIV) s U F (dvset s) (topset s) {}" by (rule heap_enter [OF h]) blast
  have fin: "finite ?A" using geoD(1) [OF T(1)] by simp
  have lower: "?b - 8 \<le> lo c" if c: "c \<in> ?A" for c
  proof -
    have "own c \<inter> foreign limit s = {}"
      using c U layoutD(8) [OF open_heapD(3) [OF O], of c] by auto
    moreover have cg: "chunk_geo c" by (rule geoD(3) [OF T(1)]) (use c in blast)
    ultimately have "fst c + 8 \<in> window ?b limit" using head_own [OF cg] by (auto simp: foreign_def)
    then show ?thesis using unat_head [OF cg] by (simp add: window_def le_diff_conv)
  qed
  have "(\<Sum>c\<in>?A. unat (snd c)) \<le> unat (topp s) - (?b - 8)"
  proof (rule sizes_bound [OF fin])
    show "\<forall>c\<in>?A. ?b - 8 \<le> lo c \<and> hi c \<le> unat (topp s)" using lower T(4) by blast
    show "\<forall>c\<in>?A. \<forall>d\<in>?A. c \<noteq> d \<longrightarrow> hi c \<le> lo d \<or> hi d \<le> lo c" using geoD(4) [OF T(1)] by blast
  qed
  then have "(\<Sum>c\<in>?A. unat (snd c)) + unat z \<le> limit - (?b - 8)" using z by linarith
  then show ?thesis using b by simp
qed

text \<open>Cells that a change of the top chunk does not concern.\<close>

definition above_top :: "nat \<Rightarrow> 'o state \<Rightarrow> addr set" where
  "above_top limit s = insert (seg s + 8) (window (unat (topp s) + 8) limit)"

lemma above_top_own:
  assumes h: "heap s U F {} (foreign limit s)" and U: "\<forall>c\<in>U. own c \<inter> foreign limit s = {}" and t: "topp s \<noteq> 0"
    and st: "state_cells s \<subseteq> foreign limit s" and c: "c \<in> U \<union> F \<union> dvset s" "a \<in> own c"
  shows "a \<notin> above_top limit s"
proof -
  have O: "open_heap (heap_arena s {} (foreign limit s) UNIV) s U F (dvset s) (topset s) {}" by (rule heap_enter [OF h]) blast
  have "own c \<inter> foreign limit s = {}" using c(1) U layoutD(8) [OF open_heapD(3) [OF O], of c] by auto
  then have "a \<noteq> seg s + 8" using st seg_in_state(2) [of s] c(2) by blast
  moreover have "unat a < unat (topp s) + 8" using heap_tops(4) [OF h t c(1)] c(2) by (simp add: own_def)
  ultimately show ?thesis by (simp add: above_top_def window_def)
qed

lemma grown_retop:
  fixes s s0 :: "'o state"
  assumes E: "sbrk_like E brk start limit" and g: "grown brk start limit s U" and st: "state_cells s \<inter> window start limit = {}"
    and f: "maddr s0 = maddr s" "least_addr s0 = least_addr s" "smallmap s0 = smallmap s" "treemap s0 = treemap s"
      "dv s0 = dv s" "dvsize s0 = dvsize s"
    and m: "\<And>a. a \<notin> above_top limit s \<Longrightarrow> rd s0 a = rd s a"
    and z: "is_aligned z" "16 \<le> unat z" "unat (topp s) + unat z + 80 = unat (brk (os s0))" "unat (brk (os s0)) \<le> limit"
    and sz: "unat (sg_base s (seg s)) + unat (sg_size s0 (seg s)) = unat (brk (os s0))"
  shows "grown brk start limit (init_top s0 (topp s) z) U"
    "a \<notin> above_top limit s \<Longrightarrow> rd (init_top s0 (topp s) z) a = rd s a"
proof -
  define s' where "s' = init_top s0 (topp s) z"
  obtain F where h: "heap s U F {} (foreign limit s)" using g by (auto simp: grown_def)
  note G = grownD [OF g] and T = grown_top [OF g] and B = sbrk_likeD [OF E]
  let ?p = "topp s"
  have K: "state_cells s \<subseteq> foreign limit s" by (rule state_foreign [OF g st])
  have lim: "unat ?p + unat z + 80 \<le> limit" using z(3,4) by simp
  have u: "unat (?p + z + 8) = unat ?p + unat z + 8"
  proof -
    have "unat ?p + unat z + 8 < 2 ^ 64" using lim B(3) by simp
    then have "unat (?p + z) = unat ?p + unat z" "unat (?p + z + 8) = unat (?p + z) + 8"
      by (simp_all add: unat_word_ariths)
    then show ?thesis by simp
  qed
  have u8: "unat (?p + 8) = unat ?p + 8"
    using lim B(3) by (subst unat_add_lem [THEN iffD1]) simp_all
  have cg: "chunk_geo (?p, z)"
    using T(2) z(1,2) G(1) lim B(3) by (simp add: chunk_geo_def hi_def)
  have ao: "align_offset (chunk2mem ?p) = 0"
    by (rule align_chunk [OF T(2)]) (use lim B(3) in simp)
  note fr = init_top_frame [OF ao, where s = s0 and z = z, folded s'_def]
  have ab: "?p + 8 \<in> above_top limit s" "?p + z + 8 \<in> above_top limit s"
    using u u8 lim by (simp_all add: above_top_def window_def)
  have rd: "rd s' a = rd s a" if "a \<notin> above_top limit s" for a
    using fr(4) [of a] m [OF that] ab that by metis
  then show "a \<notin> above_top limit s \<Longrightarrow> rd (init_top s0 (topp s) z) a = rd s a" by (simp add: s'_def)
  have hp: "heap s' U F {} (foreign limit s)"
    unfolding s'_def
  proof (rule heap_retop [OF h G(1) cg _ _ _ f])
    show "(\<Sum>c\<in>U \<union> F \<union> dvset s. unat (snd c)) + unat z < 2 ^ 40"
      by (rule grown_sizes [OF h G(2,1) _ T(1) B(2) G(3)]) (use lim in simp)
    show "own (?p, z) \<inter> foreign limit s = {}"
      using T(1) lim by (auto simp: own_def lo_def hi_def foreign_def window_def)
    show "?p + z + 8 \<notin> foreign limit s" using u T(1) lim by (simp add: foreign_def window_def)
    show "rd s0 a = rd s a" if "a \<in> header_cells s" for a
    proof (rule m)
      have a: "a \<in> state_cells s" using header_cells_state that by blast
      moreover have "a \<noteq> seg s + 8" using seg_not_header [of 8 s] that by auto
      moreover have "a \<notin> window (unat ?p + 8) limit" using a st G(3) T(1) by (force simp: window_def)
      ultimately show "a \<notin> above_top limit s" by (simp add: above_top_def)
    qed
    show "rd s0 a = rd s a" if "c \<in> U \<union> F \<union> dvset s" "a \<in> own c" for a c
      by (rule m) (rule above_top_own [OF h G(2,1) K that])
  qed
  have M: "maddr s' = maddr s" "topp s' = ?p" "topsize s' = z" "os s' = os s0"
    using fr(1,2) by (simp_all, (subst fr(3), simp add: f)+)
  have sg: "seg s' = seg s" "seg s0 = seg s" using M(1) f(1) by (simp_all add: seg_def)
  have cell: "rd s' (seg s + k) = rd s (seg s + k)" if "unat k < 48" "k \<noteq> 8" for k
  proof (rule rd)
    have "seg s + k \<in> state_cells s" by (rule seg_cells_state [OF that(1)])
    then have "seg s + k \<notin> window (unat ?p + 8) limit" using st G(3) T(1) by (force simp: window_def)
    then show "seg s + k \<notin> above_top limit s" using that(2) by (simp add: above_top_def)
  qed
  have seg: "sg_base s' (seg s) = sg_base s (seg s)" "sg_next s' (seg s) = sg_next s (seg s)" "sg_sflags s' (seg s) = sg_sflags s (seg s)"
    using cell [of 0] cell [of 16] cell [of 24] by (simp_all add: sg_base_def sg_next_def sg_sflags_def rd32_def)
  have "rd s' (seg s + 8) = rd s0 (seg s + 8)"
  proof (rule fr(4))
    have n: "seg s + 8 \<noteq> x" if "x \<in> window start limit" for x using seg_in_state(2) [of s] st that by auto
    show "seg s + 8 \<noteq> ?p + 8" by (rule n) (use u8 lim G(3) T(1) in \<open>simp add: window_def\<close>)
    show "seg s + 8 \<noteq> ?p + z + 8" by (rule n) (use u lim G(3) T(1) in \<open>simp add: window_def\<close>)
  qed
  then have "sg_size s' (seg s) = sg_size s0 (seg s)" by (simp add: sg_size_def)
  moreover have "foreign limit s' = foreign limit s" by (simp add: foreign_def sg seg)
  ultimately show "grown brk start limit (init_top s0 (topp s) z) U"
    unfolding s'_def [symmetric] grown_def using hp G z sz by (auto simp: M sg seg)
qed

section \<open>Steps that keep the segment\<close>

text \<open>Fields that are not part of the heap.\<close>

definition same_heap :: "('o \<Rightarrow> addr) \<Rightarrow> 'o state \<Rightarrow> 'o state \<Rightarrow> bool" where
  "same_heap brk s s' \<longleftrightarrow> mem s' = mem s \<and> maddr s' = maddr s \<and> gm_addr s' = gm_addr s \<and> least_addr s' = least_addr s
     \<and> smallmap s' = smallmap s \<and> treemap s' = treemap s \<and> dv s' = dv s \<and> dvsize s' = dvsize s
     \<and> topp s' = topp s \<and> topsize s' = topsize s \<and> brk (os s') = brk (os s)"

lemma same_heap_rd: "same_heap brk s s' \<Longrightarrow> rd s' a = rd s a" "same_heap brk s s' \<Longrightarrow> seg s' = seg s"
  "same_heap brk s s' \<Longrightarrow> state_cells s' = state_cells s" "same_heap brk s s' \<Longrightarrow> foreign limit s' = foreign limit s"
  by (simp_all add: same_heap_def rd_def seg_def state_cells_def foreign_def sg_base_def)

lemma same_heap_still: "still brk s s' \<Longrightarrow> same_heap brk s s'"
  by (cases s, cases s') (simp add: still_def same_heap_def)

lemma grown_same:
  assumes f: "same_heap brk s s'" and g: "grown brk start limit s U"
  shows "grown brk start limit s' U"
proof -
  note r = same_heap_rd [OF f] and F = f [unfolded same_heap_def]
  have "heap s' U F {} (foreign limit s)" if "heap s U F {} (foreign limit s)" for F
    by (rule heap_fields [OF that]) (use F in blast)+
  moreover have "sg_base s' (seg s) = sg_base s (seg s)" "sg_size s' (seg s) = sg_size s (seg s)"
    "sg_next s' (seg s) = sg_next s (seg s)" "sg_sflags s' (seg s) = sg_sflags s (seg s)"
    by (simp_all add: sg_base_def sg_size_def sg_next_def sg_sflags_def rd32_def r(1))
  ultimately show ?thesis using g F r(2,4) unfolding grown_def by auto
qed

lemma sbrk_inv_same:
  assumes f: "same_heap brk s s'" and p: "mp_magic s' = 0 \<or> pow2 (granularity s') \<and> pow2 (page_size s')"
    and i: "sbrk_inv brk start limit s U"
  shows "sbrk_inv brk start limit s' U"
proof -
  note r = same_heap_rd [OF f] and F = f [unfolded same_heap_def] and I = sbrk_invD [OF i]
  have "fresh_state s' = fresh_state s" using F by (simp add: fresh_state_def is_global_def r)
  then show ?thesis
    unfolding sbrk_inv_def using I p F grown_same [OF f] by (auto simp: in_range_def r)
qed

lemma ensure_sbrk:
  assumes E: "sbrk_like E brk start limit" and p: "mp_magic s = 0 \<or> pow2 (granularity s) \<and> pow2 (page_size s)"
  obtains s' where "ensure_initialization E s = Inr s'" "same_heap brk s s'" "pow2 (granularity s')" "pow2 (page_size s')"
    "footprint_limit s' = footprint_limit s" "errno s' = errno s"
proof (cases "mp_magic s = 0")
  case False
  then show thesis using that [of s] p by (simp add: ensure_initialization_def same_heap_def)
next
  case True
  note q = sbrk_likeD(4) [OF E]
  let ?ok = "MAX_SIZE_T < MIN_CHUNK_SIZE \<or> MALLOC_ALIGNMENT < 8 \<or> MALLOC_ALIGNMENT AND (MALLOC_ALIGNMENT - 1) \<noteq> 0
    \<or> MCHUNK_SIZE AND (MCHUNK_SIZE - 1) \<noteq> 0 \<or> os_pagesize E AND (os_pagesize E - 1) \<noteq> 0"
  have c: "\<not> ?ok" using pow2_ok [OF q] by (simp add: dl_consts MCHUNK_SIZE_def)
  have "\<exists>s'. ensure_initialization E s = Inr s' \<and> same_heap brk s s' \<and> granularity s' = os_pagesize E \<and> page_size s' = os_pagesize E
      \<and> footprint_limit s' = footprint_limit s \<and> errno s' = errno s"
    using True c by (simp add: ensure_initialization_def init_mparams_def DEFAULT_GRANULARITY_def Let_def same_heap_def)
  then show thesis using that q by auto
qed

text \<open>Operations on the bins, the victim and the top chunk.\<close>

lemma kept_not_free:
  assumes h: "heap s U F {} K" and i: "a \<in> K"
  shows "a \<notin> free_space (F \<union> dvset s \<union> topset s) U {}"
proof -
  have O: "open_heap (heap_arena s {} K UNIV) s U F (dvset s) (topset s) {}" by (rule heap_enter [OF h]) blast
  note L = layoutD [OF open_heapD(3) [OF O], simplified]
  show ?thesis
    unfolding free_space_def
  proof (intro notI, elim UnE UN_E imageE)
    fix q u assume "a = q + 8" "q = fst u" "u \<in> U"
    then show False using L(9) [of q] i by auto
  qed (use L(8) i in blast)+
qed

lemma grown_moves:
  assumes g: "grown brk start limit s U" and st: "state_cells s \<inter> window start limit = {}"
    and h: "heap s U F {} (foreign limit s)" and m: "moves w s s'"
    and w: "reach w = touched s U F {} \<union> X" "X \<inter> foreign limit s = {}"
    and h': "heap s' U' F' {} (foreign limit s)" and U': "\<forall>c\<in>U'. own c \<inter> foreign limit s = {}"
  shows "grown brk start limit s' U'" "foreign limit s' = foreign limit s"
proof -
  note G = grownD [OF g] and T = grown_top [OF g]
  have K: "state_cells s \<subseteq> foreign limit s" by (rule state_foreign [OF g st])
  have sg: "seg s' = seg s" using moves_fields(1) [OF m] by (simp add: seg_def)
  have cell: "rd s' (seg s + k) = rd s (seg s + k)" if "unat k < 48" for k
  proof -
    have i: "seg s + k \<in> foreign limit s" using seg_cells_state [OF that] K by blast
    have "seg s + k \<notin> free_space (F \<union> dvset s \<union> topset s) U {}" by (rule kept_not_free [OF h i])
    then have "seg s + k \<notin> reach w" using seg_not_header [OF that, of s] w i by (auto simp: touched_def)
    then show ?thesis using m by (simp add: moves_def)
  qed
  have seg: "sg_base s' (seg s) = sg_base s (seg s)" "sg_size s' (seg s) = sg_size s (seg s)"
    "sg_next s' (seg s) = sg_next s (seg s)" "sg_sflags s' (seg s) = sg_sflags s (seg s)"
    using cell [of 0] cell [of 8] cell [of 16] cell [of 24]
    by (simp_all add: sg_base_def sg_size_def sg_next_def sg_sflags_def rd32_def)
  show K': "foreign limit s' = foreign limit s" by (simp add: foreign_def sg seg)
  have os: "os s' = os s" using m by (cases s, cases s') (simp add: moves_def)
  have sum: "topp s' + topsize s' = topp s + topsize s" using m by (simp add: moves_def)
  have u: "unat (topp s + topsize s) = unat (topp s) + unat (topsize s)"
    by (rule unat_add_lem [THEN iffD1]) (use G(8) unat_lt [of "brk (os s)"] in simp)
  have t: "topp s' \<noteq> 0"
  proof
    assume z: "topp s' = 0"
    then have "topsize s' = 0" using heapD(2) [OF h'] by simp
    then have "topp s + topsize s = 0" using sum z by simp
    then show False using u T(4) by simp
  qed
  have "chunk_geo (topp s', topsize s')" by (rule geoD(3) [OF heap_tops(1) [OF h' t]]) simp
  then have "unat (topp s' + topsize s') = unat (topp s') + unat (topsize s')"
    using lo_hi(3) [of "(topp s', topsize s')"] by (simp add: hi_def)
  then show "grown brk start limit s' U'"
    unfolding grown_def using t h' U' G u sum by (auto simp: sg seg os K')
qed

lemma stored_untouched:
  assumes h: "heap s U F {} (foreign limit s)" and U: "\<forall>c\<in>U. own c \<inter> foreign limit s = {}"
    and st: "start \<le> unat (sg_base s (seg s))" and a: "a \<in> stored start limit s U"
  shows "a \<notin> touched s U F {}"
proof (cases "\<exists>c\<in>U. a \<in> payload c")
  case True
  then obtain c where c: "c \<in> U" "a \<in> payload c" by blast
  moreover from this have "a \<notin> foreign limit s" using U by (auto simp: payload_def)
  ultimately show ?thesis using payload_apart(1) [OF h _ c(2)] by blast
next
  case False
  then have n: "a \<notin> window start limit" "a \<notin> state_cells s" using a by (auto simp: stored_def)
  then have i: "a \<in> foreign limit s" using st by (auto simp: foreign_def window_def)
  have "a \<notin> free_space (F \<union> dvset s \<union> topset s) U {}" by (rule kept_not_free [OF h i])
  moreover have "a \<notin> header_cells s" using header_cells_state n(2) by blast
  ultimately show ?thesis by (simp add: touched_def)
qed

lemma stored_moves:
  assumes h: "heap s U F {} (foreign limit s)" and U: "\<forall>c\<in>U. own c \<inter> foreign limit s = {}"
    and st: "start \<le> unat (sg_base s (seg s))"
    and m: "moves w s s'" and w: "reach w = touched s U F {} \<union> X" "X \<inter> foreign limit s = {}"
    and a: "a \<in> stored start limit s U" "a \<notin> X"
  shows "rd s' a = rd s a"
  using stored_untouched [OF h U st a(1)] a(2) w(1) m by (simp add: moves_def)

end
