(* ===== verification/DL_SbrkOps.thy ===== *)
theory DL_SbrkOps
  imports DL_SbrkHeap
begin

text \<open>
  \<open>dlmalloc\<close> and \<open>dlfree\<close> of src/src/dlmalloc.c, with \<open>sys_alloc\<close> and \<open>sys_trim\<close>, on a system with
  a contiguous \<open>MORECORE\<close>: they always return, keep the invariant and what the client has stored.
\<close>

section \<open>malloc\<close>

definition malloc_result ::
  "('o \<Rightarrow> addr) \<Rightarrow> nat \<Rightarrow> nat \<Rightarrow> 'o state \<Rightarrow> chunk set \<Rightarrow> size_t \<Rightarrow> 'o state \<Rightarrow> addr \<Rightarrow> bool"
where
  "malloc_result brk start limit s U nb s' m \<longleftrightarrow> (\<forall>a\<in>stored start limit s U. rd s' a = rd s a) \<and> maddr s' = maddr s
     \<and> (m = 0 \<and> sbrk_inv brk start limit s' U
        \<or> (\<exists>p z. m = chunk2mem p \<and> m \<noteq> 0 \<and> (p, z) \<notin> U \<and> pinuse s' p \<and> nb \<le> z \<and> unat z < unat nb + 32
              \<and> sbrk_inv brk start limit s' (insert (p, z) U)))"

lemma sbrk_inv_moves:
  assumes i: "sbrk_inv brk start limit s U" and t: "topp s \<noteq> 0" and g: "grown brk start limit s' U'" and m: "moves w s s'"
  shows "sbrk_inv brk start limit s' U'"
proof -
  note I = sbrk_invD [OF i]
  have f: "maddr s' = maddr s" "os s' = os s" "mp_magic s' = mp_magic s" "granularity s' = granularity s" "page_size s' = page_size s"
    using m by (cases s, cases s', simp add: moves_def)+
  have "state_cells s' = state_cells s" "seg s' = seg s" using f(1) by (simp_all add: state_cells_def seg_def)
  then show ?thesis using I f(2-5) grownD(1) [OF g] g unfolding sbrk_inv_def by (simp add: in_range_def)
qed

text \<open>A change of the heap that keeps the segment and the break.\<close>

lemma sbrk_step:
  assumes i: "sbrk_inv brk start limit s U" and t: "topp s \<noteq> 0" and h: "heap s U F {} (foreign limit s)"
    and m: "moves w s s'" and w: "reach w = touched s U F {} \<union> X" "X \<inter> foreign limit s = {}"
    and h': "heap s' U' F' {} (foreign limit s)" and U': "\<forall>c\<in>U'. own c \<inter> foreign limit s = {}"
  shows "sbrk_inv brk start limit s' U'" "topp s' \<noteq> 0" "maddr s' = maddr s"
    "a \<in> stored start limit s U \<Longrightarrow> a \<notin> X \<Longrightarrow> rd s' a = rd s a"
proof -
  note I = sbrk_invD [OF i] and g = sbrk_invD(7) [OF i t]
  have g': "grown brk start limit s' U'" by (rule grown_moves(1) [OF g I(4) h m w h' U'])
  show "sbrk_inv brk start limit s' U'" by (rule sbrk_inv_moves [OF i t g' m])
  show "topp s' \<noteq> 0" by (rule grownD(1) [OF g'])
  show "maddr s' = maddr s" by (rule moves_fields(1) [OF m])
  show "a \<in> stored start limit s U \<Longrightarrow> a \<notin> X \<Longrightarrow> rd s' a = rd s a"
    by (rule stored_moves [OF h grownD(2,3) [OF g] m w])
qed

text \<open>What is stored outside a block is not in the cells of the block.\<close>

lemma stored_other:
  assumes i: "sbrk_inv brk start limit s U" and t: "topp s \<noteq> 0" and c: "c \<in> U" and a: "a \<in> stored start limit s (U - {c})"
  shows "a \<notin> own c" "a \<in> stored start limit s U"
proof -
  note g = sbrk_invD(7) [OF i t]
  obtain F where h: "heap s U F {} (foreign limit s)" using g by (auto simp: grown_def)
  have O: "open_heap (heap_arena s {} (foreign limit s) UNIV) s U F (dvset s) (topset s) {}" by (rule heap_enter [OF h]) blast
  show "a \<in> stored start limit s U" using a by (auto simp: stored_def)
  show "a \<notin> own c"
  proof (cases "\<exists>d\<in>U - {c}. a \<in> payload d")
    case True
    then obtain d where d: "d \<in> U" "d \<noteq> c" "a \<in> payload d" by blast
    have "own d \<inter> own c = {}" by (rule geo_own [OF open_geo [OF O]]) (use c d in auto)
    then show ?thesis using d(3) by (auto simp: payload_def)
  next
    case False
    then have "a \<notin> window start limit" using a by (auto simp: stored_def)
    then have "a \<in> foreign limit s" using grownD(3) [OF g] by (auto simp: foreign_def window_def)
    then show ?thesis using grownD(2) [OF g] c by blast
  qed
qed

lemma allocated_result:
  assumes i: "sbrk_inv brk start limit s U" and t: "topp s \<noteq> 0" and h: "heap s U F {} (foreign limit s)"
    and al: "allocated s U F {} (foreign limit s) nb r"
  shows "malloc_result brk start limit s U nb (fst r) (snd r)"
proof -
  let ?w = "heap_arena s {} (foreign limit s) (touched s U F {})"
  obtain p z F' where m: "moves ?w s (fst r)" and r: "snd r = chunk2mem p" "nb \<le> z" "unat z < unat nb + 32" "(p, z) \<notin> U" "pinuse (fst r) p"
      and o: "own (p, z) \<inter> foreign limit s = {}" and h': "heap (fst r) (insert (p, z) U) F' {} (foreign limit s)"
    using al unfolding allocated_def by blast
  have rw: "reach ?w = touched s U F {} \<union> {}" "{} \<inter> foreign limit s = {}" by simp_all
  have "\<forall>c\<in>insert (p, z) U. own c \<inter> foreign limit s = {}" using o grownD(2) [OF sbrk_invD(7) [OF i t]] by blast
  note S = sbrk_step [OF i t h m rw h' this]
  have "snd r \<noteq> 0" using allocated_nonzero [OF al] .
  then show ?thesis unfolding malloc_result_def using r S by blast
qed

lemma malloc_result_after:
  assumes "\<forall>a\<in>stored start limit s U. rd s1 a = rd s a" "maddr s1 = maddr s" "malloc_result brk start limit s1 U nb s' m"
  shows "malloc_result brk start limit s U nb s' m"
  using assms by (simp add: malloc_result_def stored_def state_cells_def)

lemma malloc_result_fail:
  assumes "\<forall>a\<in>stored start limit s U. rd s' a = rd s a" "maddr s' = maddr s" "sbrk_inv brk start limit s' U"
  shows "malloc_result brk start limit s U nb s' 0"
  using assms by (simp add: malloc_result_def)

text \<open>The new memory lies outside everything the client or the allocator uses.\<close>

lemma break_cells:
  assumes E: "sbrk_like E brk start limit" and i: "sbrk_inv brk start limit s U" and m: "moves_break brk start limit s s2"
    and b: "brk (os s) = tb" "unat tb \<le> unat (brk (os s2))"
  shows "a \<notin> window (unat tb) limit \<Longrightarrow> rd s2 a = rd s a" "a \<in> state_cells s \<Longrightarrow> rd s2 a = rd s a"
proof -
  have r: "in_range brk start limit s" "in_range brk start limit s2" using sbrk_invD(1) [OF i] m by (simp_all add: moves_break_def)
  have out: "rd s2 a = rd s a" if "a \<notin> window (unat tb) limit" for a
  proof -
    have "a \<notin> window (unat (brk (os s))) (unat (brk (os s2)))" "a \<notin> window (unat (brk (os s2))) (unat (brk (os s)))"
      using that b r by (auto simp: window_def in_range_def)
    then show ?thesis using m by (simp add: moves_break_def)
  qed
  show "a \<notin> window (unat tb) limit \<Longrightarrow> rd s2 a = rd s a" by (rule out)
  show "rd s2 a = rd s a" if "a \<in> state_cells s"
  proof (rule out)
    have "a \<notin> window start limit" using sbrk_invD(4) [OF i] that by blast
    then show "a \<notin> window (unat tb) limit" using r b by (auto simp: window_def in_range_def)
  qed
qed

lemma break_fields:
  assumes "moves_break brk start limit s s2"
  shows "maddr (add_footprint s2 n) = maddr s" "gm_addr (add_footprint s2 n) = gm_addr s" "least_addr (add_footprint s2 n) = least_addr s"
    "smallmap (add_footprint s2 n) = smallmap s" "treemap (add_footprint s2 n) = treemap s" "dv (add_footprint s2 n) = dv s"
    "dvsize (add_footprint s2 n) = dvsize s" "topp (add_footprint s2 n) = topp s" "topsize (add_footprint s2 n) = topsize s"
    "mp_magic (add_footprint s2 n) = mp_magic s" "granularity (add_footprint s2 n) = granularity s"
    "page_size (add_footprint s2 n) = page_size s" "os (add_footprint s2 n) = os s2" "rd (add_footprint s2 n) a = rd s2 a"
    "mem (add_footprint s2 n) = mem s2"
proof -
  have e: "s2 = s\<lparr>os := os s2, mem := mem s2, mflags := mflags s2\<rparr>" using assms by (simp add: moves_break_def)
  have f: "maddr s2 = maddr s" "gm_addr s2 = gm_addr s" "least_addr s2 = least_addr s" "smallmap s2 = smallmap s"
    "treemap s2 = treemap s" "dv s2 = dv s" "dvsize s2 = dvsize s" "topp s2 = topp s" "topsize s2 = topsize s"
    "mp_magic s2 = mp_magic s" "granularity s2 = granularity s" "page_size s2 = page_size s"
    by (subst e, simp)+
  show "maddr (add_footprint s2 n) = maddr s" "gm_addr (add_footprint s2 n) = gm_addr s" "least_addr (add_footprint s2 n) = least_addr s"
    "smallmap (add_footprint s2 n) = smallmap s" "treemap (add_footprint s2 n) = treemap s" "dv (add_footprint s2 n) = dv s"
    "dvsize (add_footprint s2 n) = dvsize s" "topp (add_footprint s2 n) = topp s" "topsize (add_footprint s2 n) = topsize s"
    "mp_magic (add_footprint s2 n) = mp_magic s" "granularity (add_footprint s2 n) = granularity s"
    "page_size (add_footprint s2 n) = page_size s" "os (add_footprint s2 n) = os s2" "rd (add_footprint s2 n) a = rd s2 a"
    "mem (add_footprint s2 n) = mem s2"
    by (simp_all add: add_footprint_def Let_def rd_def f)
qed

text \<open>The first allocation of all.\<close>

lemma alloc_first:
  assumes E: "sbrk_like E brk start limit" and i: "sbrk_inv brk start limit s U" and t: "topp s = 0"
    and p: "pow2 (granularity s)" "pow2 (page_size s)"
    and d: "delivers brk start limit s need s2 tb tz" "tb \<noteq> MFAIL" "128 \<le> need"
  defines "s' \<equiv> sys_alloc_init (add_footprint s2 tz) tb tz 0"
  shows "sbrk_inv brk start limit s' U" "maddr s' = maddr s" "\<forall>a\<in>stored start limit s U. rd s' a = rd s a"
    "unat (topsize s') = unat tz - 80" "topp s' \<noteq> 0"
proof -
  note I = sbrk_invD [OF i] and B = sbrk_likeD [OF E]
  define s3 where "s3 = add_footprint s2 tz"
  have mb: "moves_break brk start limit s s2" and b: "tb = brk (os s)" "unat tb + unat tz = unat (brk (os s2))" "16 dvd unat tz"
    "unat (brk (os s2)) \<le> limit" "128 \<le> unat tz"
    using d by (auto simp: delivers_def)
  have U: "U = {}" and fr: "fresh_state s" using I(6) [OF t] by simp_all
  note f = break_fields [OF mb, where n = tz, folded s3_def]
  have le: "unat tb \<le> unat (brk (os s2))" using b(2) by linarith
  note c = break_cells [OF E i mb b(1) [symmetric] le]
  have sc: "state_cells s3 = state_cells s" by (simp add: state_cells_def f)
  have fresh3: "fresh_state s3"
    using fr c(2) unfolding fresh_state_def is_global_def sc f by auto
  have st: "start \<le> unat tb" using I(1) b(1) by (simp add: in_range_def)
  have m3: "fresh_memory s3 tb tz"
    unfolding fresh_memory_def sc
  proof (intro conjI allI impI)
    show "tb \<noteq> 0" using st B(1) by auto
    show "is_aligned tb" using I(2) b(1) by simp
    show "is_aligned tz" using b(3) by (simp add: is_aligned_iff)
    show "unat tz < 2 ^ 40" using b(2,4) st B(2) by simp
    show "unat tb + unat tz \<le> 2 ^ 64" using b(2,4) B(3) by simp
    show "a \<notin> state_cells s" if "unat tb \<le> unat a" "unat a < unat tb + unat tz" for a
      using that I(4) st b(2,4) by (auto simp: window_def)
  qed (rule b(5))
  let ?K = "- window (unat tb) limit"
  have K: "state_cells s3 \<subseteq> ?K" unfolding sc using I(4) st by (auto simp: window_def)
  have u80: "unat (tz - 80) = unat tz - 80" by (rule fresh_chunk(3) [OF m3])
  have o: "own (tb, tz - 80) \<inter> ?K = {}"
    using b(2,4,5) u80 by (auto simp: own_def lo_def hi_def window_def)
  note h = sys_alloc_init_heap [OF fresh3 m3 K o, where flag = 0, folded s'_def [folded s3_def]]
  show ma: "maddr s' = maddr s" using h(7) f(1) by simp
  show "topp s' \<noteq> 0" using h(2) st B(1) by auto
  show ts: "unat (topsize s') = unat tz - 80" using h(3) u80 by simp
  have sg: "seg s' = seg s" "state_cells s' = state_cells s" using ma by (simp_all add: seg_def state_cells_def)
  have "foreign limit s' = ?K" using h(5) by (simp add: foreign_def)
  moreover have "heap s' {} {} {} ?K" by (rule h(1))
  ultimately have "grown brk start limit s' U"
    unfolding grown_def U using st B(1) h(2-6,8,9) I(2) b ts by (auto simp: f u80)
  moreover have "in_range brk start limit s'" using mb h(9) f by (simp add: moves_break_def in_range_def)
  moreover have "is_aligned (brk (os s'))"
  proof -
    have "16 dvd unat tb" using I(2) b(1) by (simp add: is_aligned_iff)
    then have "16 dvd unat (brk (os s2))" using b(3) unfolding b(2) [symmetric] by (rule dvd_add)
    then show ?thesis by (simp add: h(9) f is_aligned_iff)
  qed
  ultimately show "sbrk_inv brk start limit s' U"
    unfolding sbrk_inv_def using I(4,5) h(10-12) p grownD(1) [of brk start limit s' U] by (simp add: sg f)
  show "\<forall>a\<in>stored start limit s U. rd s' a = rd s a"
  proof
    fix a assume "a \<in> stored start limit s U"
    then have a: "a \<notin> window start limit" "a \<notin> state_cells s" by (auto simp: stored_def U)
    have w: "a \<noteq> x" if "unat tb \<le> unat x" "unat x < unat tb + unat tz" for x
      using a(1) that st b(2,4) by (auto simp: window_def)
    have cg: "chunk_geo (tb, tz - 80)" by (rule fresh_chunk(1) [OF m3])
    have "rd s' a = rd s3 a"
    proof (rule h(13))
      show "a \<notin> state_cells s3" using a(2) sc by simp
      show "a \<noteq> tb + 8" by (rule w) (use unat_head [OF cg] b(5) in \<open>simp_all add: lo_def\<close>)
      have "unat (tb + (tz - 80) + 8) = unat tb + unat tz - 72"
      proof -
        have "unat (tb + (tz - 80)) = unat tb + unat tz - 80" using lo_hi(3) [OF cg] b(5) u80 by (simp add: hi_def)
        moreover from this have "unat (tb + (tz - 80) + 8) = unat (tb + (tz - 80)) + 8"
          using b(2,4) B(3) by (subst unat_add_lem [THEN iffD1]) simp_all
        ultimately show ?thesis using b(5) by linarith
      qed
      then show "a \<noteq> tb + (tz - 80) + 8" by (intro w) (use b(5) in linarith)+
    qed
    also have "\<dots> = rd s a" unfolding f by (rule c(1)) (use a(1) st in \<open>auto simp: window_def\<close>)
    finally show "rd s' a = rd s a" .
  qed
qed

text \<open>A change of the size of the top chunk keeps the invariant and what is stored.\<close>

lemma retop_inv:
  assumes i: "sbrk_inv brk start limit s U" and t: "topp s \<noteq> 0" and p: "pow2 (granularity s)" "pow2 (page_size s)"
    and g: "grown brk start limit s' U" and f: "maddr s' = maddr s" "mp_magic s' = mp_magic s" "granularity s' = granularity s"
      "page_size s' = page_size s"
    and b: "in_range brk start limit s'" "is_aligned (brk (os s'))"
  shows "sbrk_inv brk start limit s' U"
proof -
  have "state_cells s' = state_cells s" "seg s' = seg s" using f(1) by (simp_all add: state_cells_def seg_def)
  then show ?thesis
    unfolding sbrk_inv_def using sbrk_invD(4,5) [OF i] p g grownD(1) [OF g] b by (simp add: f)
qed

lemma above_top_stored:
  assumes g: "grown brk start limit s U" and st: "state_cells s \<inter> window start limit = {}" and a: "a \<in> stored start limit s U"
  shows "a \<notin> above_top limit s"
proof (cases "\<exists>c\<in>U. a \<in> payload c")
  case True
  then obtain u where "u \<in> U" "a \<in> own u" by (auto simp: payload_def)
  moreover obtain F where "heap s U F {} (foreign limit s)" using g by (auto simp: grown_def)
  ultimately show ?thesis
    using above_top_own [OF _ grownD(2,1) [OF g] state_foreign [OF g st], of F u a] by blast
next
  case False
  then have "a \<notin> window start limit" "a \<notin> state_cells s" using a by (auto simp: stored_def)
  then show ?thesis using seg_in_state(2) [of s] grownD(3) [OF g] grown_top(1) [OF g] by (auto simp: above_top_def window_def)
qed

text \<open>Later ones extend the segment and its top chunk.\<close>

lemma alloc_more:
  assumes E: "sbrk_like E brk start limit" and i: "sbrk_inv brk start limit s U" and t: "topp s \<noteq> 0"
    and p: "pow2 (granularity s)" "pow2 (page_size s)"
    and d: "delivers brk start limit s need s2 tb tz" "tb \<noteq> MFAIL"
  shows "\<exists>s'. sys_alloc_merge (add_footprint s2 tz) tb tz 0 nb = Inr (Next s') \<and> sbrk_inv brk start limit s' U \<and> maddr s' = maddr s
    \<and> (\<forall>a\<in>stored start limit s U. rd s' a = rd s a) \<and> unat (topsize s') = unat (topsize s) + unat tz \<and> topp s' \<noteq> 0"
proof -
  note I = sbrk_invD [OF i] and B = sbrk_likeD [OF E] and g = sbrk_invD(7) [OF i t]
  note G = grownD [OF g] and T = grown_top [OF g]
  define s3 where "s3 = add_footprint s2 tz"
  have mb: "moves_break brk start limit s s2" and b: "tb = brk (os s)" "unat tb + unat tz = unat (brk (os s2))" "16 dvd unat tz"
    "unat (brk (os s2)) \<le> limit"
    using d by (auto simp: delivers_def)
  note f = break_fields [OF mb, where n = tz, folded s3_def]
  have le: "unat tb \<le> unat (brk (os s2))" using b(2) by linarith
  note c = break_cells [OF E i mb b(1) [symmetric] le]
  have sg: "seg s3 = seg s" "maddr s3 = maddr s" by (simp_all add: seg_def f)
  have seg: "sg_base s3 (seg s) = sg_base s (seg s)" "sg_size s3 (seg s) = sg_size s (seg s)" "sg_sflags s3 (seg s) = sg_sflags s (seg s)"
    using c(2) seg_in_state [of s] by (simp_all add: sg_base_def sg_size_def sg_sflags_def rd32_def f)
  have e: "run_loop (segment_ending_loop s3 tb (seg s3)) = Inr (seg s)"
    unfolding sg by (subst segment_ending_loop.simps) (use grown_end [OF g] b(1) in \<open>simp add: seg\<close>)
  have h: "segment_holds s3 (seg s) (topp s3)" using T(5) by (simp add: segment_holds_def seg f)
  define s4 where "s4 = set_sg_size s3 (seg s) (sg_size s3 (seg s) + tz)"
  have f4: "maddr s4 = maddr s" "least_addr s4 = least_addr s" "smallmap s4 = smallmap s" "treemap s4 = treemap s"
    "dv s4 = dv s" "dvsize s4 = dvsize s" "topp s4 = topp s" "topsize s4 = topsize s" "os s4 = os s2"
    "mp_magic s4 = mp_magic s" "granularity s4 = granularity s" "page_size s4 = page_size s"
    by (simp_all add: s4_def set_sg_size_def wr_def f)
  have m: "sys_alloc_merge s3 tb tz 0 nb = Inr (Next (init_top s4 (topp s) (topsize s + tz)))"
  proof -
    have "s4 = set_sg_size s3 (seg s) (sg_size s (seg s) + tz)" by (simp add: s4_def seg)
    then show ?thesis
      using e h I(5) G(6) by (simp add: sys_alloc_merge_def is_extern_segment_def Let_def set_sg_size_def wr_fields seg f f4)
  qed
  have out: "rd s4 a = rd s a" if "a \<notin> above_top limit s" for a
  proof -
    have n: "a \<noteq> seg s + 8" "a \<notin> window (unat tb) limit"
      using that G(8) b(1) by (auto simp: above_top_def window_def)
    have "rd s4 a = rd s2 a" using n(1) by (simp add: s4_def set_sg_size_def rd_wr f)
    then show ?thesis using c(1) [OF n(2)] by simp
  qed
  have ut: "unat (topsize s + tz) = unat (topsize s) + unat tz"
    using G(8) b(1,2,4) B(3) by (subst unat_add_lem [THEN iffD1]) simp_all
  have us: "unat (sg_size s4 (seg s)) = unat (sg_size s (seg s)) + unat tz"
  proof -
    have "sg_size s4 (seg s) = sg_size s (seg s) + tz" by (simp add: s4_def set_sg_size_def sg_size_def rd_wr) (simp add: seg sg_size_def [symmetric])
    then show ?thesis using G(7) b(1,2,4) B(3) by (simp add: unat_add_lem [THEN iffD1])
  qed
  have z: "is_aligned (topsize s + tz)" "16 \<le> unat (topsize s + tz)" "unat (topp s) + unat (topsize s + tz) + 80 = unat (brk (os s4))"
    "unat (brk (os s4)) \<le> limit"
    using T(3,4) b(3) unfolding ut is_aligned_iff f4 using G(8) b by simp_all
  have sz: "unat (sg_base s (seg s)) + unat (sg_size s4 (seg s)) = unat (brk (os s4))" using us G(7) b f4 by simp
  note R = grown_retop [OF E g I(4) f4(1-6) out z sz]
  define s5 where "s5 = init_top s4 (topp s) (topsize s + tz)"
  have ao: "align_offset (chunk2mem (topp s)) = 0"
    by (rule align_chunk [OF T(2)]) (use G(8) b B(3) in simp)
  note fr = init_top_frame [OF ao, where s = s4 and z = "topsize s + tz", folded s5_def]
  have f5: "maddr s5 = maddr s" "os s5 = os s2" "mp_magic s5 = mp_magic s" "granularity s5 = granularity s" "page_size s5 = page_size s"
    by (subst fr(3), simp add: f4)+
  have "is_aligned (brk (os s5))"
  proof -
    have "16 dvd unat tb" using I(2) b(1) by (simp add: is_aligned_iff)
    then have "16 dvd unat (brk (os s2))" using b(3) unfolding b(2) [symmetric] by (rule dvd_add)
    then show ?thesis by (simp add: f5 is_aligned_iff)
  qed
  moreover have "in_range brk start limit s5" using mb f5 by (simp add: moves_break_def in_range_def)
  ultimately have "sbrk_inv brk start limit s5 U" using retop_inv [OF i t p R(1) [folded s5_def] f5(1,3-5)] by blast
  moreover have "rd s5 a = rd s a" if a: "a \<in> stored start limit s U" for a
    unfolding s5_def using R(2) above_top_stored [OF g I(4) a] by blast
  ultimately show ?thesis
    unfolding s3_def [symmetric] m s5_def [symmetric] using f5(1) fr(1,2) ut t by auto
qed

lemma sys_alloc_sbrk:
  assumes E: "sbrk_like E brk start limit" and i: "sbrk_inv brk start limit s U"
    and nb: "is_aligned nb" "32 \<le> unat nb" "unat nb < 2 ^ 40" and ts: "topsize s \<le> nb"
  shows "\<exists>s' m. sys_alloc E s nb = Inr (s', m) \<and> malloc_result brk start limit s U nb s' m"
proof -
  obtain s1 where en: "ensure_initialization E s = Inr s1" and sh: "same_heap brk s s1"
      and p: "pow2 (granularity s1)" "pow2 (page_size s1)"
    using ensure_sbrk [OF E sbrk_invD(3) [OF i]] by blast
  have i1: "sbrk_inv brk start limit s1 U" by (rule sbrk_inv_same [OF sh _ i]) (use p in blast)
  note I = sbrk_invD [OF i1]
  have keep: "malloc_result brk start limit s U nb s' m" if "malloc_result brk start limit s1 U nb s' m" for s' m
    by (rule malloc_result_after [OF _ _ that]) (use sh in \<open>simp_all add: same_heap_rd(1) [OF sh] same_heap_def\<close>)
  have fail: "malloc_result brk start limit s1 U nb s1 0" by (rule malloc_result_fail [OF _ _ i1]) simp_all
  have mm: "(if use_mmap s1 \<and> mmap_threshold s1 \<le> nb \<and> topsize s1 \<noteq> 0 then mmap_alloc E s1 nb else (s1, 0)) = (s1, 0)"
    by (simp add: mmap_alloc_def CALL_DIRECT_MMAP_def query_break(2) [OF E] Let_def)
  define asize where "asize = round_to (granularity s1) (nb + 96)"
  have nb': "16 dvd unat nb" using nb(1) by (simp add: is_aligned_iff)
  have n96: "unat (nb + 96) = unat nb + 96" using nb(3) by (subst unat_add_lem [THEN iffD1]) simp_all
  have "unat (nb + 96) < 2 ^ 63" unfolding n96 using nb(3) by simp
  note A = round_to_facts [OF p(1) this, folded asize_def, unfolded n96]
  have an: "\<not> asize \<le> nb" using A(1) by (simp add: word_le_nat_alt)
  have sa: "sys_alloc E s nb = (if over_limit s1 asize then Inr (s1, 0)
      else bindR (sys_alloc_get E s1 nb asize) (\<lambda>(s, tbase, tsize, mmap_flag).
               if tbase \<noteq> MFAIL
               then let s = add_footprint s tsize
                 in andThen
                      (if \<not> is_initialized s
                       then Inr (Next (sys_alloc_init s tbase tsize mmap_flag))
                       else sys_alloc_merge s tbase tsize mmap_flag nb)
                      (\<lambda>s. Inr (sys_alloc_top s nb))
               else Inr (malloc_failure_action s, 0)))"
  proof -
    have al: "granularity_align s1 (nb + SYS_ALLOC_PADDING) = asize" by (simp add: aligns asize_def dl_consts)
    show ?thesis
      unfolding sys_alloc_def en bindR_simps mm by (simp only: Let_def prod.case al an if_False simp_thms)
  qed
  show ?thesis
  proof (cases "over_limit s1 asize")
    case True
    then show ?thesis using keep [OF fail] by (simp add: sa)
  next
    case False
    have ts1: "topp s1 = topp s" "topsize s1 \<le> nb" using sh ts by (simp_all add: same_heap_def)
    have ss: "topp s1 = 0 \<and> topsize s1 = 0 \<or> topp s1 \<noteq> 0 \<and> segment_holding s1 (topp s1) = Inr (seg s1)
        \<and> sg_base s1 (seg s1) + sg_size s1 (seg s1) = brk (os s1) \<and> topsize s1 \<le> nb \<and> seg s1 \<noteq> 0
        \<and> seg s1 \<notin> window start limit \<and> seg s1 + 8 \<notin> window start limit"
    proof (cases "topp s1 = 0")
      case True
      then show ?thesis using I(6) by (simp add: fresh_state_def)
    next
      case t: False
      note g = I(7) [OF t]
      show ?thesis
        using t segment_holding_first [OF grown_top(5) [OF g]] grown_end [OF g] ts1(2) I(4,5) seg_in_state(1,2) [of s1] by blast
    qed
    have R: "sbrk_ready brk start limit s1" using I(1,2) p by (simp add: sbrk_ready_def)
    from sys_alloc_get_sbrk [OF E R nb(3) nb' asize_def ss] obtain s2 tb tz
      where get: "sys_alloc_get E s1 nb asize = Inr (s2, tb, tz, 0)"
        and d: "delivers brk start limit s1 (unat nb + 96 - unat (topsize s1)) s2 tb tz" by blast
    show ?thesis
    proof (cases "tb = MFAIL")
      case True
      then have st: "still brk s1 s2" using d by (auto simp: delivers_def)
      let ?s = "malloc_failure_action s2"
      have sh2: "same_heap brk s1 ?s" using same_heap_still [OF st] by (simp add: same_heap_def malloc_failure_action_def)
      have "sbrk_inv brk start limit ?s U"
        by (rule sbrk_inv_same [OF sh2 _ i1]) (use p still_fields(6,7) [OF st] in \<open>simp add: malloc_failure_action_def\<close>)
      then have "malloc_result brk start limit s1 U nb ?s 0"
        by (intro malloc_result_fail) (use sh2 in \<open>simp_all add: same_heap_rd(1) [OF sh2] same_heap_def\<close>)
      then show ?thesis using keep get False True by (simp add: sa)
    next
      case ok: False
      let ?s3 = "add_footprint s2 tz"
      have mb: "moves_break brk start limit s1 s2" using d ok by (auto simp: delivers_def)
      have t3: "topp ?s3 = topp s1" by (rule break_fields(8) [OF mb])
      have "\<exists>s4. (if \<not> is_initialized ?s3 then Inr (Next (sys_alloc_init ?s3 tb tz 0)) else sys_alloc_merge ?s3 tb tz 0 nb) = Inr (Next s4)
          \<and> sbrk_inv brk start limit s4 U \<and> maddr s4 = maddr s1 \<and> (\<forall>a\<in>stored start limit s1 U. rd s4 a = rd s1 a)
          \<and> unat nb < unat (topsize s4) \<and> topp s4 \<noteq> 0"
      proof (cases "topp s1 = 0")
        case True
        then have z: "topsize s1 = 0" using ss by blast
        have n: "128 \<le> unat nb + 96 - unat (topsize s1)" using nb(2) z by simp
        note F = alloc_first [OF E i1 True p d ok n]
        have "unat nb + 96 \<le> unat tz" using d ok z by (auto simp: delivers_def)
        then have "unat nb < unat (topsize (sys_alloc_init ?s3 tb tz 0))" unfolding F(4) by linarith
        then show ?thesis using F(1-3,5) True t3 by (simp add: is_initialized_def)
      next
        case t: False
        have "unat nb + 96 \<le> unat (topsize s1) + unat tz" using d ok ts1(2) by (auto simp: delivers_def word_le_nat_alt)
        then show ?thesis using alloc_more [OF E i1 t p d ok, of nb] t t3 by (auto simp: is_initialized_def)
      qed
      then obtain s4 where s4: "(if \<not> is_initialized ?s3 then Inr (Next (sys_alloc_init ?s3 tb tz 0)) else sys_alloc_merge ?s3 tb tz 0 nb) = Inr (Next s4)"
          and i4: "sbrk_inv brk start limit s4 U" and r4: "maddr s4 = maddr s1" "\<forall>a\<in>stored start limit s1 U. rd s4 a = rd s1 a"
          and n4: "nb < topsize s4" "topp s4 \<noteq> 0" by (auto simp: word_less_nat_alt)
      note g4 = sbrk_invD(7) [OF i4 n4(2)]
      obtain F where h4: "heap s4 U F {} (foreign limit s4)" using g4 by (auto simp: grown_def)
      have top: "sys_alloc_top s4 nb = take_top s4 nb" using n4(1) by (simp add: sys_alloc_top_def take_top_def)
      have "allocated s4 U F {} (foreign limit s4) nb (take_top s4 nb)" by (rule take_top_heap [OF h4 nb(1,2) n4(1)])
      from allocated_result [OF i4 n4(2) h4 this]
      have "malloc_result brk start limit s1 U nb (fst (take_top s4 nb)) (snd (take_top s4 nb))"
        by (rule malloc_result_after [OF r4(2,1)])
      moreover have "sys_alloc E s nb = Inr (take_top s4 nb)"
        using False get ok s4 by (simp add: sa top Let_def del: if_split)
      ultimately show ?thesis using keep by (cases "take_top s4 nb") auto
    qed
  qed
qed

text \<open>Before the first allocation nothing is free.\<close>

lemma fresh_heap:
  assumes "fresh_state s"
  shows "heap s {} {} {} (state_cells s)"
proof -
  note F = assms [unfolded fresh_state_def]
  have t: "tree_headers s \<subseteq> state_cells s" using header_cells_state [of s] by (simp add: header_cells_def)
  have "free_rep s {}"
  proof (rule free_rep_empty)
    show "\<forall>i<32. rd s (treebin_at s (of_nat i)) = 0" using F t tree_headersI by blast
    show "0 \<notin> tree_headers s" using F t by blast
  qed (use F in simp_all)
  moreover have "layout s {} {} {} {} {} {} (state_cells s)" by (rule layoutI) (simp_all add: geo_def tags_def)
  ultimately show ?thesis
    using F header_cells_state [of s] by (simp add: heap_def open_heap_def dvset_def topset_def)
qed

lemma dlmalloc_fresh:
  assumes f: "fresh_state s" and b: "unat bytes < 2 ^ 39"
  shows "dlmalloc E s bytes = sys_alloc E s (request2size bytes)"
  using dlmalloc_heap [OF fresh_heap [OF f] b, of E]
proof (elim disjE exE conjE)
  fix r assume "allocated s {} {} {} (state_cells s) (request2size bytes) r"
  then obtain p z F' where o: "own (p, z) \<subseteq> touched s {} {} {}" "own (p, z) \<inter> state_cells s = {}"
      and h: "heap (fst r) (insert (p, z) {}) F' {} (state_cells s)"
    unfolding allocated_def by blast
  have "dvset s = {}" "topset s = {}" using f by (simp_all add: fresh_state_def dvset_def topset_def)
  then have "own (p, z) \<subseteq> state_cells s" using o(1) header_cells_state [of s] by (simp add: touched_def free_space_def)
  moreover have "chunk_geo (p, z)" by (rule open_chunk [OF heap_enter [OF h subset_refl]]) simp
  ultimately show ?thesis using o(2) head_own [of "(p, z)"] by auto
qed

text \<open>\<open>malloc\<close> as a whole.\<close>

lemma dlmalloc_sbrk:
  assumes E: "sbrk_like E brk start limit" and i: "sbrk_inv brk start limit s U" and b: "unat bytes < 2 ^ 39"
  shows "\<exists>s' m. dlmalloc E s bytes = Inr (s', m) \<and> malloc_result brk start limit s U (request2size bytes) s' m"
proof (cases "topp s = 0")
  case True
  note f = sbrk_invD(6) [OF i True] and R = request2size_facts(1-3) [OF b]
  have "topsize s \<le> request2size bytes" using f by (simp add: fresh_state_def)
  from sys_alloc_sbrk [OF E i R this] show ?thesis
    using dlmalloc_fresh [OF conjunct2 [OF f] b, of E] f by simp
next
  case False
  note g = sbrk_invD(7) [OF i False] and R = request2size_facts(1-3) [OF b]
  obtain F where h: "heap s U F {} (foreign limit s)" using g by (auto simp: grown_def)
  from dlmalloc_heap [OF h b, of E] show ?thesis
  proof (elim disjE exE conjE)
    fix r assume r: "dlmalloc E s bytes = Inr r" "allocated s U F {} (foreign limit s) (request2size bytes) r"
    from allocated_result [OF i False h r(2)] show ?thesis using r(1) by (cases r) auto
  next
    assume d: "dlmalloc E s bytes = sys_alloc E s (request2size bytes)" and "no_fit s F (request2size bytes)"
    then have "topsize s \<le> request2size bytes" by (simp add: no_fit_def)
    from sys_alloc_sbrk [OF E i R this] show ?thesis using d by simp
  qed
qed

section \<open>free\<close>

lemma release_none:
  assumes "sg_next s (seg s) = 0"
  shows "release_unused_segments E s = Inr (s\<lparr>release_checks := MAX_RELEASE_CHECK_RATE\<rparr>, 0)"
  using assms by (simp add: release_unused_segments_def release_loop.simps [of E s "seg s" 0] MAX_RELEASE_CHECK_RATE_def)

text \<open>The part of the top chunk that is given back: a multiple of the granularity below its size.\<close>

lemma trim_extra:
  fixes top g pad :: size_t
  assumes g: "pow2 g" and t: "pad < top" "80 \<le> unat pad" "16 dvd unat top" "unat top < 2 ^ 40"
  defines "extra \<equiv> ((top - pad + (g - 1)) div g - 1) * g"
  shows "unat extra + unat pad < unat top" "16 dvd unat extra" "unat top \<le> unat extra + unat pad + unat g"
    "unat extra + 80 < unat top"
proof -
  obtain k where k: "4 \<le> k" "k \<le> 30" "g = 2 ^ k" "g - 1 = mask k" "unat g = 2 ^ k" using g by (rule pow2_mask)
  let ?G = "2 ^ k :: nat" and ?t = "unat top - unat pad"
  have G: "?G \<le> 2 ^ 30" "0 < ?G" "16 dvd ?G"
    using power_increasing [OF k(2), of "2 :: nat"] le_imp_power_dvd [OF k(1), of "2 :: nat"] by simp_all
  have tp: "unat pad < unat top" using t(1) by (simp add: word_less_nat_alt)
  have u1: "unat (top - pad) = ?t" using t(1) by (subst unat_diff) simp_all
  have ug: "unat (g - 1) = ?G - 1" unfolding k(4) using k(2) by (simp add: unat_mask)
  have u2: "unat (top - pad + (g - 1)) = ?t + (?G - 1)"
    using t(4) G(1) by (subst unat_add_lem [THEN iffD1]) (simp_all add: u1 ug)
  define q where "q = (?t + (?G - 1)) div ?G"
  have u3: "unat ((top - pad + (g - 1)) div g) = q" by (simp only: unat_div u2 k(5) q_def)
  have q1: "1 \<le> q"
  proof -
    have "?G \<le> ?t + (?G - 1)" using tp G(2) by linarith
    then show ?thesis unfolding q_def using G(2) by (simp add: Suc_le_eq div_greater_zero_iff)
  qed
  then have u4: "unat ((top - pad + (g - 1)) div g - 1) = q - 1" using u3 by (subst unat_diff) (simp_all add: word_le_nat_alt)
  have qb: "q * ?G \<le> ?t + (?G - 1)" unfolding q_def by simp
  have qa: "?t \<le> q * ?G"
    unfolding q_def using div_mult_mod_eq [of "?t + (?G - 1)" ?G] mod_less_divisor [OF G(2), of "?t + (?G - 1)"] by linarith
  have b: "(q - 1) * ?G = q * ?G - ?G" by (simp add: diff_mult_distrib)
  have lt: "(q - 1) * ?G < ?t" unfolding b using qb G(2) tp by linarith
  have ue: "unat extra = (q - 1) * ?G"
  proof -
    have "unat extra = (q - 1) * ?G mod 2 ^ LENGTH(64)" unfolding extra_def unat_word_ariths(2) u4 k(5) by (rule refl)
    then show ?thesis using lt t(4) by simp
  qed
  show le: "unat extra + unat pad < unat top" unfolding ue using lt by linarith
  show "16 dvd unat extra" unfolding ue using G(3) by simp
  have "?G \<le> q * ?G" using q1 by simp
  then show "unat top \<le> unat extra + unat pad + unat g" unfolding ue k(5) b using qa by linarith
  show "unat extra + 80 < unat top" using le t(2) by linarith
qed

text \<open>A system that takes back whatever \<open>sbrk\<close> offers it.\<close>

definition shrinks :: "'o os_ops \<Rightarrow> ('o \<Rightarrow> addr) \<Rightarrow> nat \<Rightarrow> nat \<Rightarrow> bool" where
  "shrinks E brk start limit \<longleftrightarrow> (\<forall>n x m. start + unat n \<le> unat (brk x) \<longrightarrow> unat (brk x) \<le> limit
     \<longrightarrow> fst (os_morecore E (- n) x m) \<noteq> MFAIL)"

lemma shrinks_morecore:
  assumes "CALL_MORECORE E (- n) s = (s', MFAIL)" "start + unat n \<le> unat (brk (os s))" "unat (brk (os s)) \<le> limit"
  shows "\<not> shrinks E brk start limit"
proof -
  have "fst (os_morecore E (- n) (os s) (mem s)) = MFAIL"
    using assms(1) by (simp add: CALL_MORECORE_def split: prod.splits)
  then show ?thesis using assms(2,3) unfolding shrinks_def by blast
qed

lemma morecore_shrinks:
  assumes E: "sbrk_like E brk start limit" and r: "in_range brk start limit s" and n: "unat n \<le> unat (brk (os s))" "n \<noteq> 0"
  obtains s' where "CALL_MORECORE E (- n) s = (s', MFAIL)" "still brk s s'"
  | s' where "CALL_MORECORE E (- n) s = (s', brk (os s))" "moves_break brk start limit s s'" "brk (os s) \<noteq> MFAIL"
    "unat (brk (os s')) + unat n = unat (brk (os s))" "brk (os s') < brk (os s)" "brk (os s) - brk (os s') = n"
  using morecore_moves [OF E r, of "- n"]
proof cases
  case (2 s')
  have u: "unat (brk (os s')) = unat (brk (os s)) - unat n"
    unfolding 2(4) using n(1) unat_diff [of n "brk (os s)"] by (simp add: word_le_nat_alt)
  have n0: "0 < unat n" using n(2) by (simp add: word_neq_0_conv word_less_nat_alt)
  have "unat (brk (os s')) + unat n = unat (brk (os s))" using u n(1) by simp
  moreover from this have "brk (os s') < brk (os s)" using n0 by (simp add: word_less_nat_alt)
  moreover have "brk (os s) - brk (os s') = n" by (simp add: 2(4))
  ultimately show thesis using that(2) 2 by simp
qed (rule that(1))

lemma trim_top_sbrk:
  assumes E: "sbrk_like E brk start limit" and i: "sbrk_inv brk start limit s U" and t: "topp s \<noteq> 0"
    and x: "unat extra + 80 < unat (topsize s)" "unat extra < 2 ^ 40"
  obtains s2 where "trim_top E s (seg s) extra unit = Inr (s2, 0)" "still brk s s2" "extra = 0 \<or> \<not> shrinks E brk start limit"
  | s2 where "trim_top E s (seg s) extra unit = Inr (s2, extra)" "extra \<noteq> 0" "moves_break brk start limit s s2"
    "unat (brk (os s2)) + unat extra = unat (brk (os s))"
proof -
  note I = sbrk_invD [OF i] and g = sbrk_invD(7) [OF i t] and G = grownD [OF sbrk_invD(7) [OF i t]]
  have h: "\<not> HALF_MAX_SIZE_T \<le> extra" using x(2) by (simp add: dl_consts word_le_nat_alt)
  have n: "unat extra \<le> unat (brk (os s))" "start + unat extra \<le> unat (brk (os s))"
    using G(3,8) grown_top(1) [OF g] x(1) by linarith+
  have e: "trim_top E s (seg s) extra unit = (let (s2, rel_br) = CALL_MORECORE E (- extra) s
      in Inr (s2, if rel_br \<noteq> MFAIL \<and> brk (os s2) < brk (os s) then brk (os s) - brk (os s2) else 0))"
    using G(6) h grown_end [OF g]
    by (simp add: trim_top_def is_extern_segment_def is_mmapped_segment_def query_break(1) [OF E] Let_def split: prod.split)
  show thesis
  proof (cases "extra = 0")
    case True
    have "trim_top E s (seg s) extra unit = Inr (s, 0)" unfolding e by (simp add: True query_break(1) [OF E])
    then show thesis using that(1) still_refl True by blast
  next
    case False
    from morecore_shrinks [OF E I(1) n(1) False] show thesis
    proof cases
      case (1 s')
      then have "\<not> shrinks E brk start limit" using n(2) I(1) by (auto simp: in_range_def dest: shrinks_morecore)
      then show thesis using that(1) 1 by (simp add: e)
    next
      case (2 s')
      then show thesis using that(2) False by (simp add: e)
    qed
  qed
qed

text \<open>The top chunk after the system has taken memory back.\<close>

lemma shrink_top:
  assumes E: "sbrk_like E brk start limit" and i: "sbrk_inv brk start limit s U" and t: "topp s \<noteq> 0"
    and p: "pow2 (granularity s)" "pow2 (page_size s)"
    and m: "moves_break brk start limit s s2" and x: "unat (brk (os s2)) + unat extra = unat (brk (os s))"
      "unat extra + 80 < unat (topsize s)" "16 dvd unat extra"
  defines "s3 \<equiv> set_sg_size s2 (seg s) (sg_size s2 (seg s) - extra)"
  defines "s4 \<equiv> s3\<lparr>footprint := footprint s3 - extra\<rparr>"
  defines "s' \<equiv> init_top s4 (topp s4) (topsize s4 - extra)"
  shows "sbrk_inv brk start limit s' U" "maddr s' = maddr s" "\<forall>a\<in>stored start limit s U. rd s' a = rd s a" "topp s' = topp s"
    "unat (topsize s') + unat extra = unat (topsize s)" "footprint s' = footprint s - extra" "brk (os s') = brk (os s2)"
    "granularity s' = granularity s"
proof -
  note I = sbrk_invD [OF i] and B = sbrk_likeD [OF E] and g = sbrk_invD(7) [OF i t]
  note G = grownD [OF g] and T = grown_top [OF g]
  have e: "s2 = s\<lparr>os := os s2, mem := mem s2, mflags := mflags s2\<rparr>" using m by (simp add: moves_break_def)
  have f2: "maddr s2 = maddr s" "least_addr s2 = least_addr s" "smallmap s2 = smallmap s" "treemap s2 = treemap s"
    "dv s2 = dv s" "dvsize s2 = dvsize s" "topp s2 = topp s" "topsize s2 = topsize s"
    "mp_magic s2 = mp_magic s" "granularity s2 = granularity s" "page_size s2 = page_size s" "footprint s2 = footprint s"
    by (subst e, simp)+
  have f: "maddr s4 = maddr s" "least_addr s4 = least_addr s" "smallmap s4 = smallmap s" "treemap s4 = treemap s"
    "dv s4 = dv s" "dvsize s4 = dvsize s" "topp s4 = topp s" "topsize s4 = topsize s" "os s4 = os s2"
    "mp_magic s4 = mp_magic s" "granularity s4 = granularity s" "page_size s4 = page_size s" "footprint s4 = footprint s - extra"
    by (simp_all add: s4_def s3_def set_sg_size_def wr_def f2)
  have b: "unat (topp s) + 80 < unat (brk (os s2))" using G(8) x(1,2) by linarith
  have out2: "rd s2 a = rd s a" if "a \<notin> window (unat (topp s) + 8) limit" for a
  proof -
    have "a \<notin> window (unat (brk (os s))) (unat (brk (os s2)))" using x(1) by (auto simp: window_def)
    moreover have "a \<notin> window (unat (brk (os s2))) (unat (brk (os s)))"
      using that b I(1) by (auto simp: window_def in_range_def)
    ultimately show ?thesis using m by (simp add: moves_break_def)
  qed
  have segc: "seg s + 8 \<notin> window (unat (topp s) + 8) limit"
    using seg_in_state(2) [of s] I(4) G(3) T(1) by (fastforce simp: window_def)
  have sz4: "sg_size s4 (seg s) = sg_size s (seg s) - extra"
    using out2 [OF segc] by (simp add: s4_def s3_def set_sg_size_def sg_size_def rd_def wr_def)
  have out: "rd s4 a = rd s a" if "a \<notin> above_top limit s" for a
    using out2 [of a] that by (simp add: above_top_def s4_def s3_def set_sg_size_def rd_def wr_def)
  have ut: "unat (topsize s - extra) = unat (topsize s) - unat extra"
    using x(2) by (intro unat_diff) (simp add: word_le_nat_alt)
  have us: "unat (sg_size s (seg s) - extra) = unat (sg_size s (seg s)) - unat extra" and le: "unat extra \<le> unat (sg_size s (seg s))"
  proof -
    show le: "unat extra \<le> unat (sg_size s (seg s))" using G(7,8) T(1) x(2) by linarith
    then show "unat (sg_size s (seg s) - extra) = unat (sg_size s (seg s)) - unat extra"
      by (intro unat_diff) (simp add: word_le_nat_alt)
  qed
  have z: "is_aligned (topsize s - extra)" "16 \<le> unat (topsize s - extra)"
    "unat (topp s) + unat (topsize s - extra) + 80 = unat (brk (os s4))" "unat (brk (os s4)) \<le> limit"
  proof -
    show "is_aligned (topsize s - extra)" using T(3) x(3) by (simp add: is_aligned_iff ut dvd_diff_nat)
    show "16 \<le> unat (topsize s - extra)" unfolding ut using x(2) by linarith
    show "unat (topp s) + unat (topsize s - extra) + 80 = unat (brk (os s4))" unfolding ut f using G(8) x(1,2) by linarith
    show "unat (brk (os s4)) \<le> limit" unfolding f using m by (simp add: moves_break_def in_range_def)
  qed
  have sz: "unat (sg_base s (seg s)) + unat (sg_size s4 (seg s)) = unat (brk (os s4))"
    unfolding sz4 us f using G(7) x(1) le by linarith
  have s': "s' = init_top s4 (topp s) (topsize s - extra)" by (simp add: s'_def f)
  note R = grown_retop [OF E g I(4) f(1-6) out z sz, folded s']
  have ao: "align_offset (chunk2mem (topp s)) = 0"
    by (rule align_chunk [OF T(2)]) (use G(8) I(1) B(3) in \<open>simp add: in_range_def\<close>)
  note fr = init_top_frame [OF ao, where s = s4 and z = "topsize s - extra", folded s']
  have f5: "maddr s' = maddr s" "os s' = os s2" "mp_magic s' = mp_magic s" "granularity s' = granularity s" "page_size s' = page_size s"
    by (subst fr(3), simp add: f)+
  show "footprint s' = footprint s - extra" by (subst fr(3)) (simp add: f)
  show "maddr s' = maddr s" "topp s' = topp s" "brk (os s') = brk (os s2)" "granularity s' = granularity s" using f5 fr(1) by simp_all
  show "unat (topsize s') + unat extra = unat (topsize s)" unfolding fr(2) ut using x(2) by linarith
  have "is_aligned (brk (os s'))"
  proof -
    have "16 dvd unat (brk (os s2)) + unat extra" unfolding x(1) using I(2) by (simp add: is_aligned_iff)
    then show ?thesis using x(3) by (simp add: f5 is_aligned_iff dvd_add_left_iff)
  qed
  moreover have "in_range brk start limit s'" using m by (simp add: moves_break_def in_range_def f5)
  ultimately show "sbrk_inv brk start limit s' U" using retop_inv [OF i t p R(1) f5(1,3-5)] by blast
  show "\<forall>a\<in>stored start limit s U. rd s' a = rd s a" using R(2) above_top_stored [OF g I(4)] by blast
qed

text \<open>What an operation without a result promises.\<close>

definition keeps_all ::
  "('o \<Rightarrow> addr) \<Rightarrow> nat \<Rightarrow> nat \<Rightarrow> 'o state \<Rightarrow> chunk set \<Rightarrow> 'o state \<Rightarrow> bool"
where
  "keeps_all brk start limit s U s' \<longleftrightarrow> sbrk_inv brk start limit s' U \<and> maddr s' = maddr s
     \<and> (\<forall>a\<in>stored start limit s U. rd s' a = rd s a)"

lemma keeps_refl: "sbrk_inv brk start limit s U \<Longrightarrow> keeps_all brk start limit s U s"
  by (simp add: keeps_all_def)

lemma keeps_trans:
  "keeps_all brk start limit s U s' \<Longrightarrow> keeps_all brk start limit s' U s'' \<Longrightarrow> keeps_all brk start limit s U s''"
  by (simp add: keeps_all_def stored_def state_cells_def)

lemma keeps_same:
  assumes "same_heap brk s s'" "mp_magic s' = 0 \<or> pow2 (granularity s') \<and> pow2 (page_size s')" "sbrk_inv brk start limit s U"
  shows "keeps_all brk start limit s U s'"
  using sbrk_inv_same [OF assms] assms(1) by (simp add: keeps_all_def same_heap_rd(1) [OF assms(1)] same_heap_def)

lemma release_sbrk:
  assumes i: "sbrk_inv brk start limit s U" and t: "topp s \<noteq> 0"
  shows "\<exists>s'. release_unused_segments E s = Inr (s', 0) \<and> keeps_all brk start limit s U s' \<and> topp s' \<noteq> 0
    \<and> granularity s' = granularity s \<and> page_size s' = page_size s"
proof -
  let ?s = "s\<lparr>release_checks := MAX_RELEASE_CHECK_RATE\<rparr>"
  have "keeps_all brk start limit s U ?s"
    by (rule keeps_same [OF _ _ i]) (use sbrk_invD(3) [OF i] in \<open>simp_all add: same_heap_def\<close>)
  then show ?thesis using release_none [OF grownD(5) [OF sbrk_invD(7) [OF i t]]] t by simp
qed

text \<open>
  What trimming does to the top chunk: it gives back what the break moved, never more than leaves
  the padding, and all but a granule above the padding when the system takes it.
\<close>

definition top_trimmed ::
  "'o os_ops \<Rightarrow> ('o \<Rightarrow> addr) \<Rightarrow> nat \<Rightarrow> nat \<Rightarrow> size_t \<Rightarrow> 'o state \<Rightarrow> 'o state \<Rightarrow> bool"
where
  "top_trimmed E brk start limit pad s s' \<longleftrightarrow> topp s' = topp s \<and> brk (os s') \<le> brk (os s)
     \<and> unat (topsize s') + unat (brk (os s)) = unat (topsize s) + unat (brk (os s'))
     \<and> footprint s' = footprint s - (brk (os s) - brk (os s'))
     \<and> (unat (topsize s) \<le> unat pad + 80 \<longrightarrow> brk (os s') = brk (os s))
     \<and> (unat pad + 80 < unat (topsize s) \<longrightarrow> unat pad + 80 < unat (topsize s')
          \<and> (shrinks E brk start limit \<longrightarrow> unat (topsize s') \<le> unat pad + 80 + unat (granularity s')))"

lemma top_trimmed_same:
  assumes "top_trimmed E brk start limit pad s s'" "topp s1 = topp s" "topsize s1 = topsize s" "brk (os s1) = brk (os s)"
    "footprint s1 = footprint s" "topp s2 = topp s'" "topsize s2 = topsize s'" "brk (os s2) = brk (os s')"
    "footprint s2 = footprint s'" "granularity s2 = granularity s'"
  shows "top_trimmed E brk start limit pad s1 s2"
  using assms by (simp add: top_trimmed_def)

lemma ensure_footprint: "ensure_initialization E s = Inr s' \<Longrightarrow> footprint s' = footprint s"
  by (auto simp: ensure_initialization_def init_mparams_def Let_def split: if_splits)

text \<open>The shrinking branch of \<open>sys_trim\<close>, with \<open>TOP_FOOT_SIZE\<close> added to the padding.\<close>

definition trim_body :: "'o os_ops \<Rightarrow> 'o state \<Rightarrow> size_t \<Rightarrow> ('o state \<times> size_t) res" where
  "trim_body E s pad = (if pad < topsize s then let unit = granularity s; extra = ((topsize s - pad + (unit - 1)) div unit - 1) * unit
     in bindR (segment_holding s (topp s)) (\<lambda>sp.
        bindR (trim_top E s sp extra unit) (\<lambda>(s, released).
          if released \<noteq> 0
          then let s = set_sg_size s sp (sg_size s sp - released);
                   s = s\<lparr>footprint := footprint s - released\<rparr>
               in Inr (init_top s (topp s) (topsize s - released), released)
          else Inr (s, released)))
     else Inr (s, 0))"

lemma sys_trim_body:
  "sys_trim E s pad = bindR (ensure_initialization E s) (\<lambda>s. if pad < MAX_REQUEST \<and> is_initialized s
     then bindR (trim_body E s (pad + TOP_FOOT_SIZE)) (\<lambda>(s, released). bindR (release_unused_segments E s) (\<lambda>(s, n).
           let released = released + n;
               s = (if released = 0 \<and> trim_check s < topsize s then s\<lparr>trim_check := MAX_SIZE_T\<rparr> else s)
           in Inr (s, if released \<noteq> 0 then 1 else 0)))
     else Inr (s, 0))"
  unfolding sys_trim_def trim_body_def Let_def by (rule refl)

lemma top_small:
  assumes E: "sbrk_like E brk start limit" and i: "sbrk_inv brk start limit s U" and t: "topp s \<noteq> 0"
  shows "unat (topsize s) < 2 ^ 40" "16 dvd unat (topsize s)"
proof -
  note g = sbrk_invD(7) [OF i t]
  show "unat (topsize s) < 2 ^ 40"
    using grownD(3,7,8) [OF g] grown_top(1) [OF g] sbrk_invD(1) [OF i] sbrk_likeD(2) [OF E] by (simp add: in_range_def)
  show "16 dvd unat (topsize s)" using grown_top(3) [OF g] by (simp add: is_aligned_iff)
qed

lemma trim_body_sbrk:
  assumes E: "sbrk_like E brk start limit" and i: "sbrk_inv brk start limit s U" and t: "topp s \<noteq> 0"
    and p: "pow2 (granularity s)" "pow2 (page_size s)" and pad: "unat (pad + 80) = unat pad + 80"
  shows "\<exists>s' r. trim_body E s (pad + 80) = Inr (s', r) \<and> keeps_all brk start limit s U s'
    \<and> top_trimmed E brk start limit pad s s' \<and> (r = 0 \<longleftrightarrow> brk (os s') = brk (os s))"
proof (cases "pad + 80 < topsize s")
  case False
  then show ?thesis using keeps_refl [OF i] pad
    by (simp add: trim_body_def top_trimmed_def word_less_nat_alt not_less)
next
  case True
  define extra where "extra = ((topsize s - (pad + 80) + (granularity s - 1)) div granularity s - 1) * granularity s"
  have lt: "unat pad + 80 < unat (topsize s)" using True pad by (simp add: word_less_nat_alt)
  have p80: "80 \<le> unat (pad + 80)" using pad by simp
  note S = top_small [OF E i t]
  note x = trim_extra [OF p(1) True p80 S(2,1), folded extra_def, unfolded pad]
  have x40: "unat extra < 2 ^ 40" using x(1) S(1) by linarith
  have b: "trim_body E s (pad + 80) = bindR (trim_top E s (seg s) extra (granularity s)) (\<lambda>(s', released).
                 if released \<noteq> 0
                 then let s' = set_sg_size s' (seg s) (sg_size s' (seg s) - released);
                          s' = s'\<lparr>footprint := footprint s' - released\<rparr>
                      in Inr (init_top s' (topp s') (topsize s' - released), released)
                 else Inr (s', released))"
    using True segment_holding_first [OF grown_top(5) [OF sbrk_invD(7) [OF i t]]] by (simp add: trim_body_def Let_def extra_def)
  from trim_top_sbrk [OF E i t x(4) x40, of "granularity s"] show ?thesis
  proof cases
    case (1 s2)
    have "keeps_all brk start limit s U s2"
      by (rule keeps_same [OF same_heap_still [OF 1(2)] _ i]) (use p still_fields(6,7) [OF 1(2)] in simp)
    moreover have "top_trimmed E brk start limit pad s s2"
      using still_fields [OF 1(2)] lt 1(3) x(3) by (auto simp: top_trimmed_def)
    ultimately show ?thesis unfolding b 1(1) using still_fields(8) [OF 1(2)] by simp
  next
    case (2 s2)
    note S = shrink_top [OF E i t p 2(3,4) x(4,2)]
    have e: "brk (os s2) \<le> brk (os s)" "brk (os s) - brk (os s2) = extra" "brk (os s2) \<noteq> brk (os s)"
    proof -
      show le: "brk (os s2) \<le> brk (os s)" using 2(4) by (simp add: word_le_nat_alt)
      then have "unat (brk (os s) - brk (os s2)) = unat extra" using 2(4) by (subst unat_diff) simp_all
      then show "brk (os s) - brk (os s2) = extra" by (simp add: word_unat_eq_iff)
      then show "brk (os s2) \<noteq> brk (os s)" using 2(2) by auto
    qed
    show ?thesis unfolding b 2(1) using S 2(2,4) x lt e
      by (simp add: keeps_all_def top_trimmed_def Let_def)
  qed
qed

lemma sys_trim_pad:
  assumes E: "sbrk_like E brk start limit" and i: "sbrk_inv brk start limit s U"
  shows "\<exists>s' r. sys_trim E s pad = Inr (s', r) \<and> keeps_all brk start limit s U s' \<and> top_trimmed E brk start limit pad s s'
    \<and> r = (if brk (os s') < brk (os s) then 1 else 0)"
proof -
  obtain s1 where en: "ensure_initialization E s = Inr s1" and sh: "same_heap brk s s1"
      and p: "pow2 (granularity s1)" "pow2 (page_size s1)"
    using ensure_sbrk [OF E sbrk_invD(3) [OF i]] by blast
  have k1: "keeps_all brk start limit s U s1" by (rule keeps_same [OF sh _ i]) (use p in blast)
  then have i1: "sbrk_inv brk start limit s1 U" by (simp add: keeps_all_def)
  have f1: "topp s1 = topp s" "topsize s1 = topsize s" "brk (os s1) = brk (os s)" "footprint s1 = footprint s"
    using sh ensure_footprint [OF en] by (simp_all add: same_heap_def)
  show ?thesis
  proof (cases "pad < MAX_REQUEST \<and> topp s \<noteq> 0")
    case False
    have "unat (topsize s) \<le> unat pad + 80"
    proof (cases "topp s = 0")
      case True
      then show ?thesis using sbrk_invD(6) [OF i] by (simp add: fresh_state_def)
    next
      case t: False
      then show ?thesis using False top_small(1) [OF E i t] by (simp add: dl_consts word_less_nat_alt)
    qed
    then have "top_trimmed E brk start limit pad s s1" using f1 by (simp add: top_trimmed_def)
    moreover have "\<not> (pad < MAX_REQUEST \<and> is_initialized s1)" using False f1(1) by (simp add: is_initialized_def)
    then have "sys_trim E s pad = Inr (s1, 0)" unfolding sys_trim_body en bindR_simps by (simp only: if_False)
    ultimately show ?thesis using k1 f1 by simp
  next
    case True
    then have t1: "topp s1 \<noteq> 0" using f1 by simp
    have "unat (pad + 80) = unat pad + 80"
      using True by (simp add: dl_consts word_less_nat_alt unat_word_ariths)
    from trim_body_sbrk [OF E i1 t1 p this] obtain s2 r where
      s2: "trim_body E s1 (pad + 80) = Inr (s2, r)" "keeps_all brk start limit s1 U s2"
        "top_trimmed E brk start limit pad s1 s2" "r = 0 \<longleftrightarrow> brk (os s2) = brk (os s1)" by blast
    have i2: "sbrk_inv brk start limit s2 U" using s2(2) by (simp add: keeps_all_def)
    have t2: "topp s2 \<noteq> 0" using s2(3) t1 by (simp add: top_trimmed_def)
    define s3 where "s3 = s2\<lparr>release_checks := MAX_RELEASE_CHECK_RATE\<rparr>"
    define s4 where "s4 = (if r = 0 \<and> trim_check s3 < topsize s3 then s3\<lparr>trim_check := MAX_SIZE_T\<rparr> else s3)"
    have k4: "keeps_all brk start limit s2 U s4"
      by (rule keeps_same [OF _ _ i2]) (use sbrk_invD(3) [OF i2] in \<open>simp_all add: s4_def s3_def same_heap_def\<close>)
    have f4: "topp s4 = topp s2" "topsize s4 = topsize s2" "brk (os s4) = brk (os s2)" "footprint s4 = footprint s2"
      "granularity s4 = granularity s2" by (simp_all add: s4_def s3_def)
    have "top_trimmed E brk start limit pad s s4" by (rule top_trimmed_same [OF s2(3)]) (simp_all add: f1 f4)
    moreover have "keeps_all brk start limit s U s4" using keeps_trans k1 s2(2) k4 by blast
    moreover have "sys_trim E s pad = Inr (s4, if r \<noteq> 0 then 1 else 0)"
      using True t1 s2(1) release_none [OF grownD(5) [OF sbrk_invD(7) [OF i2 t2]], of E]
      by (simp add: sys_trim_body en is_initialized_def s3_def s4_def Let_def dl_consts)
    moreover have "r \<noteq> 0 \<longleftrightarrow> brk (os s4) < brk (os s)"
      using s2(3,4) f1 f4 by (auto simp: top_trimmed_def order.strict_iff_order)
    ultimately show ?thesis by auto
  qed
qed

lemma sys_trim_sbrk:
  assumes "sbrk_like E brk start limit" "sbrk_inv brk start limit s U"
  shows "\<exists>s' r. sys_trim E s pad = Inr (s', r) \<and> keeps_all brk start limit s U s'"
  using sys_trim_pad [OF assms] by blast

text \<open>\<open>free\<close> as a whole.\<close>

lemma dlfree_sbrk:
  assumes E: "sbrk_like E brk start limit" and i: "sbrk_inv brk start limit s U" and c: "(p, z) \<in> U"
  shows "\<exists>s'. dlfree E s (chunk2mem p) = Inr s' \<and> sbrk_inv brk start limit s' (U - {(p, z)}) \<and> maddr s' = maddr s
    \<and> (\<forall>a\<in>stored start limit s (U - {(p, z)}). rd s' a = rd s a)"
proof -
  have t: "topp s \<noteq> 0" using sbrk_invD(6) [OF i] c by auto
  note I = sbrk_invD [OF i] and g = sbrk_invD(7) [OF i t]
  note G = grownD [OF g]
  obtain F where h: "heap s U F {} (foreign limit s)" using g by (auto simp: grown_def)
  have o: "own (p, z) \<inter> foreign limit s = {}" using G(2) c by blast
  let ?w = "heap_arena s {} (foreign limit s) (touched s U F {} \<union> own (p, z))" and ?U = "U - {(p, z)}"
  obtain s1 F1 where h1: "heap s1 ?U F1 {} (foreign limit s)" and m: "moves ?w s s1"
      and tr: "then_trim E s1 (dlfree E s (chunk2mem p))"
    using dlfree_heap [OF h c o refl, of E] by blast
  have rw: "reach ?w = touched s U F {} \<union> own (p, z)" by simp
  have "\<forall>d\<in>?U. own d \<inter> foreign limit s = {}" using G(2) by blast
  note S = sbrk_step [OF i t h m rw o h1 this]
  note i1 = S(1) and t1 = S(2) and ma = S(3)
  have st: "rd s1 a = rd s a" if "a \<in> stored start limit s ?U" for a
    by (rule S(4)) (use stored_other [OF i t c that] in blast)+
  have "\<exists>s'. dlfree E s (chunk2mem p) = Inr s' \<and> keeps_all brk start limit s1 ?U s'"
    using tr unfolding then_trim_def
  proof (elim disjE conjE)
    assume "dlfree E s (chunk2mem p) = Inr s1"
    then show ?thesis using keeps_refl [OF i1] by blast
  next
    assume "dlfree E s (chunk2mem p) = bindR (sys_trim E s1 0) (\<lambda>(s, _). Inr s)"
    then show ?thesis using sys_trim_sbrk [OF E i1, of 0] by auto
  next
    assume "dlfree E s (chunk2mem p) = bindR (release_unused_segments E s1) (\<lambda>(s, _). Inr s)"
    then show ?thesis using release_sbrk [OF i1 t1, of E] by auto
  qed
  then obtain s' where "dlfree E s (chunk2mem p) = Inr s'" "keeps_all brk start limit s1 ?U s'" by blast
  then show ?thesis using st ma by (auto simp: keeps_all_def stored_def state_cells_def)
qed

text \<open>The client writes to its blocks, or to memory that is none of the allocator's business.\<close>

lemma stored_not_state:
  assumes "\<forall>c\<in>U. own c \<inter> foreign limit s = {}" "state_cells s \<subseteq> foreign limit s"
  shows "stored start limit s U \<inter> state_cells s = {}"
  using assms unfolding stored_def payload_def by fast

lemma client_sbrk:
  assumes i: "sbrk_inv brk start limit s U" and ch: "changes_mem A s s'" and A: "A \<subseteq> stored start limit s U"
  shows "sbrk_inv brk start limit s' U"
proof -
  note I = sbrk_invD [OF i]
  have s': "s' = s\<lparr>mem := mem s'\<rparr>" using ch by (simp add: changes_mem_def)
  have fl: "maddr s' = maddr s" "gm_addr s' = gm_addr s" "os s' = os s" "topp s' = topp s" "topsize s' = topsize s" "mp_magic s' = mp_magic s"
    "granularity s' = granularity s" "page_size s' = page_size s" "smallmap s' = smallmap s" "treemap s' = treemap s"
    "dv s' = dv s" "dvsize s' = dvsize s" "least_addr s' = least_addr s" by (subst s', simp)+
  have sg: "seg s' = seg s" "state_cells s' = state_cells s" by (simp_all add: seg_def state_cells_def fl)
  show ?thesis
  proof (cases "topp s = 0")
    case True
    then have "stored start limit s U \<inter> state_cells s = {}" using I(6) by (auto simp: stored_def)
    then have out: "rd s' a = rd s a" if "a \<in> state_cells s" for a using changes_memD [OF ch, of a] A that by blast
    have "fresh_state s'" using I(6) True out by (simp add: fresh_state_def fl sg is_global_def)
    then show ?thesis using I True unfolding sbrk_inv_def by (simp add: sg in_range_def fl)
  next
    case t: False
    note g = sbrk_invD(7) [OF i t]
    note G = grownD [OF g] and K = state_foreign [OF g I(4)]
    obtain F where h: "heap s U F {} (foreign limit s)" using g by (auto simp: grown_def)
    have h': "heap s' U F {} (foreign limit s)"
      by (rule heap_client [OF h ch]) (use A stored_untouched [OF h G(2,3)] in blast)
    have n: "rd s' (seg s + k) = rd s (seg s + k)" if "unat k < 48" for k
      by (rule changes_memD [OF ch]) (use seg_cells_state [OF that, of s] A stored_not_state [OF G(2) K] in blast)
    have seg: "sg_base s' (seg s) = sg_base s (seg s)" "sg_size s' (seg s) = sg_size s (seg s)"
      "sg_next s' (seg s) = sg_next s (seg s)" "sg_sflags s' (seg s) = sg_sflags s (seg s)"
      using n [of 0] n [of 8] n [of 16] n [of 24] by (simp_all add: sg_base_def sg_size_def sg_next_def sg_sflags_def rd32_def)
    have f: "foreign limit s' = foreign limit s" by (simp add: foreign_def sg seg)
    have g': "grown brk start limit s' U"
      unfolding grown_def using h' G by (auto simp: f sg seg fl)
    show ?thesis
      unfolding sbrk_inv_def using I t g' by (simp add: sg in_range_def fl)
  qed
qed

lemma payload_in_stored: "c \<in> U \<Longrightarrow> payload c \<subseteq> stored start limit s U"
  by (auto simp: stored_def)

lemma write_stored:
  assumes "sbrk_inv brk start limit s U" "a \<in> stored start limit s U"
  shows "sbrk_inv brk start limit (wr s a v) U"
  by (rule client_sbrk [OF assms(1) changes_mem_wr1 [of a "{a}"]]) (use assms(2) in auto)

lemma write_sbrk:
  assumes "sbrk_inv brk start limit s U" "c \<in> U" "a \<in> payload c"
  shows "sbrk_inv brk start limit (wr s a v) U"
  using write_stored [OF assms(1)] payload_in_stored [OF assms(2)] assms(3) by blast

end
