(* ===== verification/DL_Client.thy ===== *)
theory DL_Client
  imports DL_Realloc DL_SbrkOps
begin

text \<open>
  The contract of an allocator of blocks, as a client of src/src/dlmalloc.c sees it: an abstract
  store of live blocks with what was written to them, the steps a client may observe, and the
  proof, inside a locale, that every implementation of the interface refines the abstract store.
  The interface is interpreted on \<open>dlmalloc\<close> and \<open>dlfree\<close> at the end.
\<close>

section \<open>The abstract store\<close>

text \<open>
  The state of the specification: the live blocks (as chunks) and the cells written so far;
  \<open>None\<close> once the client has broken the rules. Steps carry what the client observes.
\<close>

datatype client_op = Malloc size_t addr | Free addr | Store addr size_t | Load addr size_t

type_synonym store = "(chunk set \<times> (addr \<Rightarrow> size_t option)) option"

text \<open>The cells of a block: from its payload pointer up to the head of the next chunk.\<close>

definition data :: "chunk \<Rightarrow> addr set" where
  "data c = {a. lo c + 16 \<le> unat a \<and> unat a < hi c + 8 \<and> 8 dvd unat a}"

definition live :: "chunk set \<Rightarrow> addr set" where
  "live U = (\<Union>c\<in>U. data c)"

text \<open>A block is aligned and holds the bytes asked for; the cells of different blocks are disjoint.\<close>

definition good_block :: "chunk set \<Rightarrow> size_t \<Rightarrow> chunk \<Rightarrow> bool" where
  "good_block U n c \<longleftrightarrow> is_aligned (chunk2mem (fst c)) \<and> chunk2mem (fst c) \<noteq> 0 \<and> unat n + 8 \<le> unat (snd c)
     \<and> (\<forall>k. unat k < unat n \<longrightarrow> 8 dvd unat k \<longrightarrow> chunk2mem (fst c) + k \<in> data c) \<and> data c \<inter> live U = {}"

fun legal :: "client_op \<Rightarrow> chunk set \<Rightarrow> (addr \<Rightarrow> size_t option) \<Rightarrow> bool" where
  "legal (Malloc n m) U M \<longleftrightarrow> unat n < 2 ^ 39"
| "legal (Free m) U M \<longleftrightarrow> (\<exists>c\<in>U. m = chunk2mem (fst c))"
| "legal (Store a v) U M \<longleftrightarrow> a \<in> live U"
| "legal (Load a v) U M \<longleftrightarrow> M a \<noteq> None"

inductive spec_step :: "client_op \<Rightarrow> store \<Rightarrow> store \<Rightarrow> bool" where
  malloc_some: "good_block U n c \<Longrightarrow> m = chunk2mem (fst c) \<Longrightarrow> spec_step (Malloc n m) (Some (U, M)) (Some (insert c U, M))"
| malloc_none: "spec_step (Malloc n 0) (Some (U, M)) (Some (U, M))"
| free: "c \<in> U \<Longrightarrow> m = chunk2mem (fst c) \<Longrightarrow> spec_step (Free m) (Some (U, M)) (Some (U - {c}, M |` (- data c)))"
| store: "a \<in> live U \<Longrightarrow> spec_step (Store a v) (Some (U, M)) (Some (U, M(a \<mapsto> v)))"
| load: "M a = Some v \<Longrightarrow> spec_step (Load a v) (Some (U, M)) (Some (U, M))"
| illegal: "\<not> legal op U M \<Longrightarrow> spec_step op (Some (U, M)) None"
| broken: "spec_step op None None"

inductive_cases spec_step_someE: "spec_step op (Some G) t"

inductive spec_run :: "client_op list \<Rightarrow> store \<Rightarrow> store \<Rightarrow> bool" where
  spec_nil: "spec_run [] G G"
| spec_cons: "spec_step op G G' \<Longrightarrow> spec_run ops G' G'' \<Longrightarrow> spec_run (op # ops) G G''"

section \<open>Implementations\<close>

text \<open>The steps of a client of the functions \<open>alloc\<close>, \<open>release\<close>, \<open>peek\<close> and \<open>poke\<close>.\<close>

inductive impl_step ::
  "('s \<Rightarrow> size_t \<Rightarrow> ('s \<times> addr) res) \<Rightarrow> ('s \<Rightarrow> addr \<Rightarrow> 's res) \<Rightarrow> ('s \<Rightarrow> addr \<Rightarrow> size_t) \<Rightarrow> ('s \<Rightarrow> addr \<Rightarrow> size_t \<Rightarrow> 's)
    \<Rightarrow> client_op \<Rightarrow> 's \<Rightarrow> 's \<Rightarrow> bool"
  for alloc release peek poke
where
  impl_malloc: "alloc s n = Inr (s', m) \<Longrightarrow> impl_step alloc release peek poke (Malloc n m) s s'"
| impl_free: "release s m = Inr s' \<Longrightarrow> impl_step alloc release peek poke (Free m) s s'"
| impl_store: "impl_step alloc release peek poke (Store a v) s (poke s a v)"
| impl_load: "peek s a = v \<Longrightarrow> impl_step alloc release peek poke (Load a v) s s"

inductive_simps impl_step_simps:
  "impl_step alloc release peek poke (Malloc n m) s s'" "impl_step alloc release peek poke (Free m) s s'"
  "impl_step alloc release peek poke (Store a v) s s'" "impl_step alloc release peek poke (Load a v) s s'"

inductive impl_run ::
  "('s \<Rightarrow> size_t \<Rightarrow> ('s \<times> addr) res) \<Rightarrow> ('s \<Rightarrow> addr \<Rightarrow> 's res) \<Rightarrow> ('s \<Rightarrow> addr \<Rightarrow> size_t) \<Rightarrow> ('s \<Rightarrow> addr \<Rightarrow> size_t \<Rightarrow> 's)
    \<Rightarrow> client_op list \<Rightarrow> 's \<Rightarrow> 's \<Rightarrow> bool"
  for alloc release peek poke
where
  impl_nil: "impl_run alloc release peek poke [] s s"
| impl_cons: "impl_step alloc release peek poke op s s' \<Longrightarrow> impl_run alloc release peek poke ops s' s''
    \<Longrightarrow> impl_run alloc release peek poke (op # ops) s s''"

section \<open>The interface\<close>

locale block_allocator =
  fixes inv :: "'s \<Rightarrow> chunk set \<Rightarrow> bool"
    and alloc :: "'s \<Rightarrow> size_t \<Rightarrow> ('s \<times> addr) res"
    and release :: "'s \<Rightarrow> addr \<Rightarrow> 's res"
    and peek :: "'s \<Rightarrow> addr \<Rightarrow> size_t"
    and poke :: "'s \<Rightarrow> addr \<Rightarrow> size_t \<Rightarrow> 's"
  assumes alloc_some: "inv s U \<Longrightarrow> unat n < 2 ^ 39 \<Longrightarrow> \<exists>s' m. alloc s n = Inr (s', m)
      \<and> (\<forall>a\<in>live U. peek s' a = peek s a)
      \<and> (m = 0 \<and> inv s' U \<or> (\<exists>c. m = chunk2mem (fst c) \<and> good_block U n c \<and> inv s' (insert c U)))"
    and release_some: "inv s U \<Longrightarrow> c \<in> U \<Longrightarrow> \<exists>s'. release s (chunk2mem (fst c)) = Inr s' \<and> inv s' (U - {c})
      \<and> (\<forall>a\<in>live (U - {c}). peek s' a = peek s a)"
    and poke_inv: "inv s U \<Longrightarrow> a \<in> live U \<Longrightarrow> inv (poke s a v) U"
    and peek_poke: "peek (poke s a v) b = (if b = a then v else peek s b)"
begin

definition rel :: "'s \<Rightarrow> store \<Rightarrow> bool" where
  "rel s G \<longleftrightarrow> (case G of None \<Rightarrow> True
     | Some (U, M) \<Rightarrow> inv s U \<and> dom M \<subseteq> live U \<and> (\<forall>a v. M a = Some v \<longrightarrow> peek s a = v))"

lemma rel_some: "rel s (Some (U, M)) \<longleftrightarrow> inv s U \<and> dom M \<subseteq> live U \<and> (\<forall>a v. M a = Some v \<longrightarrow> peek s a = v)"
  by (simp add: rel_def)

text \<open>No operation is refused: a legal operation of the client returns.\<close>

lemma progress:
  assumes "inv s U"
  shows "unat n < 2 ^ 39 \<Longrightarrow> \<exists>m s'. impl_step alloc release peek poke (Malloc n m) s s'"
    "c \<in> U \<Longrightarrow> \<exists>s'. impl_step alloc release peek poke (Free (chunk2mem (fst c))) s s'"
  using alloc_some [OF assms, of n] release_some [OF assms, of c] by (auto simp: impl_step_simps)

text \<open>Every step of the implementation is a step of the specification.\<close>

lemma step_refines:
  assumes R: "rel s G" and st: "impl_step alloc release peek poke op s s'"
  shows "\<exists>G'. spec_step op G G' \<and> rel s' G'"
proof (cases G)
  case None
  then show ?thesis using spec_step.broken by (intro exI [of _ None]) (simp add: rel_def)
next
  case (Some UM)
  obtain U M where G: "G = Some (U, M)" using Some by (cases UM) simp
  have I: "inv s U" and d: "dom M \<subseteq> live U" and m: "\<And>a v. M a = Some v \<Longrightarrow> peek s a = v"
    using R by (auto simp: G rel_some)
  show ?thesis
  proof (cases "legal op U M")
    case False
    then show ?thesis using spec_step.illegal by (intro exI [of _ None]) (simp add: G rel_def)
  next
    case True
    show ?thesis
    proof (cases op)
      case (Malloc n x)
      from alloc_some [OF I, of n] True Malloc st have k: "\<forall>a\<in>live U. peek s' a = peek s a"
        and r: "x = 0 \<and> inv s' U \<or> (\<exists>c. x = chunk2mem (fst c) \<and> good_block U n c \<and> inv s' (insert c U))"
        by (auto simp: impl_step_simps)
      have m': "\<And>a v. M a = Some v \<Longrightarrow> peek s' a = v" using m d k by (metis domI subsetD)
      from r show ?thesis
      proof (elim disjE exE conjE)
        assume "x = 0" "inv s' U"
        then have "spec_step op G (Some (U, M)) \<and> rel s' (Some (U, M))"
          using d m' spec_step.malloc_none by (simp add: Malloc G rel_some)
        then show ?thesis by blast
      next
        fix c assume c: "x = chunk2mem (fst c)" "good_block U n c" "inv s' (insert c U)"
        have "dom M \<subseteq> live (insert c U)" using d by (auto simp: live_def)
        then have "spec_step op G (Some (insert c U, M)) \<and> rel s' (Some (insert c U, M))"
          using c m' spec_step.malloc_some [OF c(2,1)] by (simp add: Malloc G rel_some)
        then show ?thesis by blast
      qed
    next
      case (Free x)
      then obtain c where c: "c \<in> U" "x = chunk2mem (fst c)" using True by auto
      from release_some [OF I c(1)] st have I': "inv s' (U - {c})" and k: "\<forall>a\<in>live (U - {c}). peek s' a = peek s a"
        by (auto simp: Free c(2) impl_step_simps)
      let ?M = "M |` (- data c)"
      have d': "dom ?M \<subseteq> live (U - {c})" using d by (auto simp: live_def)
      have "peek s' a = v" if "?M a = Some v" for a v
      proof -
        have "a \<in> live (U - {c})" using d' that by (meson domI subsetD)
        then show ?thesis using k m that by (auto simp: restrict_map_def split: if_splits)
      qed
      then have "spec_step op G (Some (U - {c}, ?M)) \<and> rel s' (Some (U - {c}, ?M))"
        using I' d' spec_step.free [OF c] by (simp add: Free G rel_some)
      then show ?thesis by blast
    next
      case (Store a v)
      then have a: "a \<in> live U" and s': "s' = poke s a v" using True st by (simp_all add: impl_step_simps)
      have "spec_step op G (Some (U, M(a \<mapsto> v))) \<and> rel s' (Some (U, M(a \<mapsto> v)))"
        using spec_step.store [OF a] poke_inv [OF I a] d a m by (auto simp: Store G rel_some s' peek_poke)
      then show ?thesis by blast
    next
      case (Load a v)
      then have v: "peek s a = v" "s' = s" and "M a \<noteq> None" using True st by (auto simp: impl_step_simps)
      then have "M a = Some v" using m by auto
      then have "spec_step op G G \<and> rel s' G"
        using R v(2) spec_step.load by (simp add: Load G)
      then show ?thesis by blast
    qed
  qed
qed

lemma run_refines:
  assumes "impl_run alloc release peek poke ops s s'" "rel s G"
  shows "\<exists>G'. spec_run ops G G' \<and> rel s' G'"
  using assms
proof (induction arbitrary: G rule: impl_run.induct)
  case (impl_nil s)
  then show ?case using spec_run.spec_nil by blast
next
  case (impl_cons op s s' ops s'')
  then show ?case using step_refines spec_run.spec_cons by metis
qed

end

section \<open>The implementation\<close>

lemma data_payload: "chunk_geo c \<Longrightarrow> data c \<subseteq> payload c"
  using unat_head [of c] by (auto simp: data_def payload_def own_def)

lemma sbrk_geo:
  assumes i: "sbrk_inv brk start limit s U"
  shows "c \<in> U \<Longrightarrow> chunk_geo c" "c \<in> U \<Longrightarrow> d \<in> U \<Longrightarrow> c \<noteq> d \<Longrightarrow> payload c \<inter> payload d = {}"
    "c \<in> U \<Longrightarrow> 32 \<le> unat (snd c)" "c \<in> U \<Longrightarrow> chunksize s (fst c) = snd c"
proof -
  have "(\<forall>c\<in>U. chunk_geo c \<and> 32 \<le> unat (snd c) \<and> chunksize s (fst c) = snd c)
      \<and> (\<forall>c\<in>U. \<forall>d\<in>U. c \<noteq> d \<longrightarrow> payload c \<inter> payload d = {})"
  proof (cases "topp s = 0")
    case True
    then show ?thesis using sbrk_invD(6) [OF i] by simp
  next
    case False
    obtain F where h: "heap s U F {} (foreign limit s)" using sbrk_invD(7) [OF i False] by (auto simp: grown_def)
    have O: "open_heap (heap_arena s {} (foreign limit s) UNIV) s U F (dvset s) (topset s) {}" by (rule heap_enter [OF h]) blast
    note L = layoutD [OF open_heapD(3) [OF O]]
    have "payload c \<inter> payload d = {}" if "c \<in> U" "d \<in> U" "c \<noteq> d" for c d
      using geo_own [OF open_geo [OF O], of c d] that by (auto simp: payload_def)
    then show ?thesis using open_chunk [OF O] L(6) tagsD(1) [OF L(10)] by blast
  qed
  then show "c \<in> U \<Longrightarrow> chunk_geo c" "c \<in> U \<Longrightarrow> d \<in> U \<Longrightarrow> c \<noteq> d \<Longrightarrow> payload c \<inter> payload d = {}"
    "c \<in> U \<Longrightarrow> 32 \<le> unat (snd c)" "c \<in> U \<Longrightarrow> chunksize s (fst c) = snd c" by blast+
qed

lemma live_stored:
  assumes "sbrk_inv brk start limit s U"
  shows "live U \<subseteq> stored start limit s U" "a \<in> live U \<Longrightarrow> \<exists>c\<in>U. a \<in> payload c"
  using data_payload [OF sbrk_geo(1) [OF assms]] by (auto simp: live_def stored_def)

lemma live_mono: "U \<subseteq> U' \<Longrightarrow> live U \<subseteq> live U'"
  by (auto simp: live_def)

lemma data_cells:
  assumes c: "chunk_geo (p, z)" and k: "unat n + 8 \<le> unat z" "unat k < unat n" "8 dvd unat k"
  shows "chunk2mem p + k \<in> data (p, z)"
proof -
  have e: "unat (16 + k) = 16 + unat k"
    using c k by (subst unat_add_lem [THEN iffD1]) (simp_all add: chunk_geo_def hi_def)
  have u: "unat (p + (16 + k)) = unat p + (16 + unat k)"
    using unat_in_chunk [OF c, of "16 + k"] k unfolding e by simp
  have "16 dvd unat p" using c by (simp add: chunk_geo_def is_aligned_iff)
  then have "8 dvd unat p + (16 + unat k)" using k(3) by presburger
  then show ?thesis
    using u k by (simp add: data_def lo_def hi_def chunk2mem_def dl_consts add.assoc)
qed

lemma chunk2mem_aligned: "chunk_geo c \<Longrightarrow> is_aligned (chunk2mem (fst c))"
  using unat_in_chunk [of "fst c" "snd c" 16] by (simp add: chunk_geo_def is_aligned_iff chunk2mem_def dl_consts)

text \<open>A block that is new in the invariant is a good block.\<close>

lemma good_new:
  assumes i: "sbrk_inv brk start limit s (insert (p, z) U)" and n: "(p, z) \<notin> U" "unat n + 8 \<le> unat z"
  shows "good_block U n (p, z)"
proof -
  have c: "chunk_geo (p, z)" by (rule sbrk_geo(1) [OF i]) simp
  have "data (p, z) \<inter> data d = {}" if d: "d \<in> U" for d
    using sbrk_geo(2) [OF i, of "(p, z)" d] data_payload [OF c] data_payload [OF sbrk_geo(1) [OF i, of d]] d n(1) by blast
  moreover have "chunk2mem p \<noteq> 0" using chunk2mem_nonzero [OF c] by simp
  ultimately show ?thesis
    unfolding good_block_def fst_conv snd_conv live_def
    using n(2) data_cells [OF c n(2)] chunk2mem_aligned [OF c] by auto
qed

lemma sbrk_block_allocator:
  assumes E: "sbrk_like E brk start limit"
  shows "block_allocator (sbrk_inv brk start limit) (dlmalloc E) (dlfree E) rd wr"
proof
  fix s :: "'a state" and U and n :: size_t
  assume i: "sbrk_inv brk start limit s U" and n: "unat n < 2 ^ 39"
  obtain s' m where d: "dlmalloc E s n = Inr (s', m)" and r: "malloc_result brk start limit s U (request2size n) s' m"
    using dlmalloc_sbrk [OF E i n] by blast
  have k: "\<forall>a\<in>live U. rd s' a = rd s a" using r live_stored(1) [OF i] unfolding malloc_result_def by blast
  have "m = 0 \<and> sbrk_inv brk start limit s' U
      \<or> (\<exists>c. m = chunk2mem (fst c) \<and> good_block U n c \<and> sbrk_inv brk start limit s' (insert c U))"
    using r unfolding malloc_result_def
  proof (elim conjE disjE exE)
    fix p z assume m: "m = chunk2mem p" "m \<noteq> 0" and new: "(p, z) \<notin> U" and z: "request2size n \<le> z"
      and i': "sbrk_inv brk start limit s' (insert (p, z) U)"
    have "good_block U n (p, z)"
      by (rule good_new [OF i' new]) (use request2size_facts(4) [OF n] z in \<open>simp add: word_le_nat_alt\<close>)
    then show ?thesis using m i' by (intro disjI2 exI [of _ "(p, z)"]) simp
  qed blast
  then show "\<exists>s' m. dlmalloc E s n = Inr (s', m) \<and> (\<forall>a\<in>live U. rd s' a = rd s a)
      \<and> (m = 0 \<and> sbrk_inv brk start limit s' U
         \<or> (\<exists>c. m = chunk2mem (fst c) \<and> good_block U n c \<and> sbrk_inv brk start limit s' (insert c U)))"
    using d k by blast
next
  fix s :: "'a state" and U and c
  assume i: "sbrk_inv brk start limit s U" and c: "c \<in> U"
  obtain p z where cz: "c = (p, z)" by (cases c)
  obtain s' where s': "dlfree E s (chunk2mem p) = Inr s'" "sbrk_inv brk start limit s' (U - {(p, z)})"
      "\<forall>a\<in>stored start limit s (U - {(p, z)}). rd s' a = rd s a"
    using dlfree_sbrk [OF E i c [unfolded cz]] by blast
  have "live (U - {c}) \<subseteq> stored start limit s (U - {c})"
    using data_payload [OF sbrk_geo(1) [OF i]] by (auto simp: live_def stored_def)
  then show "\<exists>s'. dlfree E s (chunk2mem (fst c)) = Inr s' \<and> sbrk_inv brk start limit s' (U - {c})
      \<and> (\<forall>a\<in>live (U - {c}). rd s' a = rd s a)"
    using s' by (auto simp: cz)
next
  fix s :: "'a state" and U a v
  assume i: "sbrk_inv brk start limit s U" and "a \<in> live U"
  then obtain c where "c \<in> U" "a \<in> payload c" using live_stored(2) by blast
  then show "sbrk_inv brk start limit (wr s a v) U" by (rule write_sbrk [OF i])
qed (simp add: rd_wr)

text \<open>The two clones of \<open>malloc\<close> and \<open>free\<close>.\<close>

lemma mspace_malloc_clone: "mspace_malloc E s n = dlmalloc E s n"
  unfolding mspace_malloc_def dlmalloc_def ok_magic_def by simp

lemma mspace_free_clone: "mspace_free E s m = dlfree E s m"
  unfolding mspace_free_def dlfree_def ok_magic_def by simp

lemma mspace_block_allocator:
  assumes "sbrk_like E brk start limit"
  shows "block_allocator (sbrk_inv brk start limit) (mspace_malloc E) (mspace_free E) rd wr"
proof -
  have "mspace_malloc E = dlmalloc E" "mspace_free E = dlfree E"
    by (simp_all add: fun_eq_iff mspace_malloc_clone mspace_free_clone)
  then show ?thesis using sbrk_block_allocator [OF assms] by simp
qed

section \<open>A concrete system\<close>

text \<open>A process whose data segment may grow from \<open>0x100000\<close> to \<open>0x500000\<close>; its state is the break.\<close>

definition brk_os :: "addr os_ops" where
  "brk_os = \<lparr>os_morecore = (\<lambda>n x m. if n = 0 \<or> 0x100000 \<le> x + n \<and> x + n \<le> 0x500000 then (x, x + n, m) else (MFAIL, x, m)),
     os_mmap = (\<lambda>n x m. (MFAIL, x, m)), os_munmap = (\<lambda>a n x m. (- 1, x, m)), os_mremap = (\<lambda>a n k mv x m. (MFAIL, x, m)),
     os_pagesize = 4096, os_time = (\<lambda>x. 0)\<rparr>"

lemma brk_os_sbrk: "sbrk_like brk_os (\<lambda>x. x) 0x100000 0x500000"
proof -
  have "pow2 4096" unfolding pow2_def by (rule exI [of _ 12]) simp
  then show ?thesis
    by (auto simp: sbrk_like_def brk_os_def word_le_nat_alt split: if_splits)
qed

definition start_state :: "addr state" where
  "start_state = static_state 0x1000 0x100000"

lemma start_inv: "sbrk_inv (\<lambda>x. x) 0x100000 0x500000 start_state {}"
proof -
  have z: "0 \<notin> state_cells start_state"
    by (simp add: start_state_def static_state_def state_cells_def)
  have "a \<notin> state_cells start_state" if "0x100000 \<le> unat a" for a
  proof -
    have "unat (a - 0x1000) = unat a - 0x1000" using that by (subst unat_diff) (simp_all add: word_le_nat_alt)
    then show ?thesis using that by (simp add: start_state_def static_state_def state_cells_def)
  qed
  then have w: "state_cells start_state \<inter> window 0x100000 0x500000 = {}" by (auto simp: window_def)
  have f: "fresh_state start_state"
    using z by (simp add: fresh_state_def) (simp add: start_state_def static_state_def is_global_def rd_def)
  show ?thesis
    unfolding sbrk_inv_def using w f
    by (simp add: in_range_def seg_def) (simp add: start_state_def static_state_def is_aligned_iff)
qed

interpretation sbrk: block_allocator "sbrk_inv (\<lambda>x. x) 0x100000 0x500000" "dlmalloc brk_os" "dlfree brk_os" rd wr
  by (rule sbrk_block_allocator [OF brk_os_sbrk])

interpretation mspace: block_allocator "sbrk_inv (\<lambda>x. x) 0x100000 0x500000" "mspace_malloc brk_os" "mspace_free brk_os" rd wr
  by (rule mspace_block_allocator [OF brk_os_sbrk])

end
