(* ===== verification/DL_HeapProps.thy ===== *)
theory DL_HeapProps
  imports DL_Client DL_Api
begin

text \<open>
  What the allocator of src/src/dlmalloc.c promises: single operations on any well-formed heap,
  and the whole allocator, with the calls it makes to the system, as a refinement of the abstract
  store of blocks.
\<close>

section \<open>Concrete states\<close>

text \<open>The state after the first \<open>sbrk(0x10000)\<close>, and one with a block in use.\<close>

definition boot_state :: "addr state" where
  "boot_state = sys_alloc_init (add_footprint (start_state\<lparr>granularity := 4096, page_size := 4096, os := 0x110000\<rparr>) 0x10000)
     0x100000 0x10000 0"

lemma boot_inv: "sbrk_inv (\<lambda>x. x) 0x100000 0x500000 boot_state {}" "topp boot_state \<noteq> 0" "unat (topsize boot_state) = 0xFFB0"
proof -
  let ?s = "start_state\<lparr>granularity := 4096, page_size := 4096\<rparr>" and ?t = "start_state\<lparr>granularity := 4096, page_size := 4096, os := 0x110000\<rparr>"
  have p: "pow2 4096" unfolding pow2_def by (rule exI [of _ 12]) simp
  have i: "sbrk_inv (\<lambda>x. x) 0x100000 0x500000 ?s {}"
    by (rule sbrk_inv_same [OF _ _ start_inv]) (simp_all add: same_heap_def p)
  have t: "topp ?s = 0" by (simp add: start_state_def static_state_def)
  have "moves_break (\<lambda>x. x) 0x100000 0x500000 ?s ?t"
    by (cases start_state) (simp add: moves_break_def in_range_def rd_def)
  moreover have "os ?s = 0x100000" by (simp add: start_state_def static_state_def)
  ultimately have d: "delivers (\<lambda>x. x) 0x100000 0x500000 ?s 128 ?t 0x100000 0x10000" and n: "(0x100000 :: addr) \<noteq> MFAIL"
    by (simp_all add: delivers_def dl_consts MFAIL_def)
  note A = alloc_first [OF brk_os_sbrk i t _ _ d n, folded boot_state_def]
  show "sbrk_inv (\<lambda>x. x) 0x100000 0x500000 boot_state {}" "topp boot_state \<noteq> 0" "unat (topsize boot_state) = 0xFFB0"
    using A(1,4,5) p by simp_all
qed

lemma boot_heap: "\<exists>F. heap boot_state {} F {} (foreign 0x500000 boot_state)"
  using sbrk_invD(7) [OF boot_inv(1,2)] by (simp add: grown_def)

lemma live_state:
  obtains s p z where "sbrk_inv (\<lambda>x. x) 0x100000 0x500000 s {(p, z)}" "topp s \<noteq> 0"
proof -
  obtain F where h: "heap boot_state {} F {} (foreign 0x500000 boot_state)" using boot_heap by blast
  have r: "request2size 100 = 112" by code_simp
  have b: "unat (100 :: size_t) < 2 ^ 39" by simp
  have "\<not> topsize boot_state \<le> 112" using boot_inv(3) by (simp add: word_le_nat_alt)
  then obtain x where x: "allocated boot_state {} F {} (foreign 0x500000 boot_state) 112 x"
    using dlmalloc_heap [OF h b, of brk_os] unfolding r by (auto simp: no_fit_def)
  from allocated_result [OF boot_inv(1,2) h x]
  obtain p z where i: "sbrk_inv (\<lambda>x. x) 0x100000 0x500000 (fst x) {(p, z)}"
    using allocated_nonzero [OF x] by (auto simp: malloc_result_def)
  then show thesis using that sbrk_invD(6) [OF i] by blast
qed

text \<open>A concrete run: two blocks, the first freed, a smaller one in its place, the rest is the victim.\<close>

definition sample_run :: "(addr state \<times> addr \<times> addr \<times> addr) res" where
  "sample_run = bindR (dlmalloc brk_os start_state 100) (\<lambda>(s, a). bindR (dlmalloc brk_os s 100) (\<lambda>(s, b).
     bindR (dlfree brk_os s a) (\<lambda>s. bindR (dlmalloc brk_os s 24) (\<lambda>(s, c). Inr (s, a, b, c)))))"

lemma sample_values:
  "(case sample_run of Inr (s, a, b, c) \<Rightarrow> (dv s, dvsize s, topp s, a, b, c) | _ \<Rightarrow> undefined)
    = (0x100020, 80, 0x1000E0, 0x100010, 0x100080, 0x100010)"
  by code_simp

lemma sample_first:
  "(case dlmalloc brk_os start_state 100 of Inr (s, a) \<Rightarrow> a | _ \<Rightarrow> 0) = 0x100010"
  by code_simp

lemma sample_inv:
  "\<exists>s U. sample_run = Inr (s, 0x100010, 0x100080, 0x100010) \<and> dv s = 0x100020 \<and> dvsize s = 80 \<and> topp s \<noteq> 0
    \<and> sbrk_inv (\<lambda>x. x) 0x100000 0x500000 s U"
proof -
  let ?I = "sbrk_inv (\<lambda>x. x) 0x100000 0x500000"
  note R = dlmalloc_sbrk [OF brk_os_sbrk] and v = sample_values
  have b: "unat (100 :: size_t) < 2 ^ 39" "unat (24 :: size_t) < 2 ^ 39" by simp_all
  obtain s1 a where 1: "dlmalloc brk_os start_state 100 = Inr (s1, a)"
      "malloc_result (\<lambda>x. x) 0x100000 0x500000 start_state {} (request2size 100) s1 a"
    using R [OF start_inv b(1)] by blast
  then have "a \<noteq> 0" using sample_first by auto
  then obtain p z where a: "a = chunk2mem p" "?I s1 {(p, z)}" using 1(2) by (auto simp: malloc_result_def)
  obtain s2 d where 2: "dlmalloc brk_os s1 100 = Inr (s2, d)"
      "malloc_result (\<lambda>x. x) 0x100000 0x500000 s1 {(p, z)} (request2size 100) s2 d"
    using R [OF a(2) b(1)] by blast
  obtain U where u: "?I s2 U" "(p, z) \<in> U" using 2(2) by (auto simp: malloc_result_def)
  obtain s3 where 3: "dlfree brk_os s2 a = Inr s3" "?I s3 (U - {(p, z)})"
    using dlfree_sbrk [OF brk_os_sbrk u] a(1) by blast
  obtain s4 c where 4: "dlmalloc brk_os s3 24 = Inr (s4, c)"
      "malloc_result (\<lambda>x. x) 0x100000 0x500000 s3 (U - {(p, z)}) (request2size 24) s4 c"
    using R [OF 3(2) b(2)] by blast
  then obtain W where "?I s4 W" by (auto simp: malloc_result_def)
  moreover have r: "sample_run = Inr (s4, a, d, c)" using 1(1) 2(1) 3(1) 4(1) by (simp add: sample_run_def bindR_def)
  moreover have "dv s4 = 0x100020 \<and> dvsize s4 = 80 \<and> topp s4 = 0x1000E0 \<and> a = 0x100010 \<and> d = 0x100080 \<and> c = 0x100010"
    using v unfolding r by simp
  ultimately show ?thesis by auto
qed

section \<open>The whole allocator over sbrk\<close>

text \<open>
  C2. Refinement: every run of a client of \<open>dlmalloc\<close> and \<open>dlfree\<close> that starts with the static
  state of the process, on a system whose break moves as \<open>sbrk\<close> documents, is a run of the abstract
  store: blocks are fresh, aligned, large enough and disjoint, a load returns what was stored last.
  This includes the first allocation, growth and trimming of the heap, and failures of the system.
\<close>

theorem allocator_refines_store:
  assumes "sbrk_like E brk start limit" "sbrk_inv brk start limit s {}"
    and "impl_run (dlmalloc E) (dlfree E) rd wr ops s s'"
  shows "\<exists>G. spec_run ops (Some ({}, Map.empty)) G"
proof -
  note B = sbrk_block_allocator [OF assms(1)]
  have "block_allocator.rel (sbrk_inv brk start limit) rd s (Some ({}, Map.empty))"
    using block_allocator.rel_some [OF B] assms(2) by simp
  from block_allocator.run_refines [OF B assms(3) this] show ?thesis by blast
qed

lemma first_malloc:
  obtains m s' where "dlmalloc brk_os start_state 100 = Inr (s', m)"
    "impl_run (dlmalloc brk_os) (dlfree brk_os) rd wr [Malloc 100 m] start_state s'"
proof -
  obtain m s' where st: "impl_step (dlmalloc brk_os) (dlfree brk_os) rd wr (Malloc 100 m) start_state s'"
    using sbrk.progress(1) [OF start_inv, of 100] by auto
  then have "impl_run (dlmalloc brk_os) (dlfree brk_os) rd wr [Malloc 100 m] start_state s'"
    using impl_run.impl_nil by (rule impl_run.impl_cons)
  then show thesis using that st by (simp add: impl_step_simps)
qed

theorem allocator_refines_store_witness:
  "\<exists>m s'. dlmalloc brk_os start_state 100 = Inr (s', m) \<and> (\<exists>G. spec_run [Malloc 100 m] (Some ({}, Map.empty)) G)"
proof -
  obtain m s' where "dlmalloc brk_os start_state 100 = Inr (s', m)"
      "impl_run (dlmalloc brk_os) (dlfree brk_os) rd wr [Malloc 100 m] start_state s'" by (rule first_malloc)
  then show ?thesis using allocator_refines_store [OF brk_os_sbrk start_inv] by blast
qed

text \<open>
  C3. \<open>malloc\<close> of less than \<open>2 ^ 39\<close> bytes, on a system whose break moves as \<open>sbrk\<close> documents and on
  which \<open>mmap\<close> always fails (one segment, no mapped chunks), from any state of the invariant: it does
  not abort and it returns, 0 with the live chunks as they were, or a payload pointer of a new chunk
  of at least the padded size and less than 32 bytes more. What the client has stored in its blocks,
  and all memory outside the heap, is as before.
\<close>

theorem dlmalloc_total:
  assumes "sbrk_like E brk start limit" "sbrk_inv brk start limit s U" "unat bytes < 2 ^ 39"
  shows "\<exists>s' m. dlmalloc E s bytes = Inr (s', m) \<and> (\<forall>a\<in>stored start limit s U. rd s' a = rd s a)
    \<and> (m = 0 \<and> sbrk_inv brk start limit s' U
       \<or> (\<exists>z. m \<noteq> 0 \<and> (mem2chunk m, z) \<notin> U \<and> request2size bytes \<le> z \<and> unat z < unat (request2size bytes) + 32
             \<and> sbrk_inv brk start limit s' (insert (mem2chunk m, z) U)))"
proof -
  obtain s' m where d: "dlmalloc E s bytes = Inr (s', m)" "malloc_result brk start limit s U (request2size bytes) s' m"
    using dlmalloc_sbrk [OF assms] by blast
  have "mem2chunk (chunk2mem p) = p" for p by (simp add: mem2chunk_def chunk2mem_def)
  then show ?thesis using d unfolding malloc_result_def by metis
qed

theorem dlmalloc_total_witness:
  "\<exists>s' m. dlmalloc brk_os start_state 100 = Inr (s', m) \<and> (m = 0 \<or> (\<exists>z. 112 \<le> z \<and> sbrk_inv (\<lambda>x. x) 0x100000 0x500000 s' {(mem2chunk m, z)}))"
proof -
  have r: "request2size 100 = 112" by code_simp
  have "unat (100 :: size_t) < 2 ^ 39" by simp
  from dlmalloc_total [OF brk_os_sbrk start_inv this] show ?thesis unfolding r by blast
qed

text \<open>
  C4. \<open>free\<close> of a live block of the one segment there is on a system whose break moves as \<open>sbrk\<close>
  documents and on which \<open>mmap\<close> always fails: it passes every runtime check, returns, and takes
  exactly that block from the live ones; the contents of the others stay. It may give memory back
  to the system by lowering the break. Mapped chunks and further segments do not arise there.
\<close>

theorem dlfree_total:
  assumes "sbrk_like E brk start limit" "sbrk_inv brk start limit s U" "(p, z) \<in> U"
  shows "\<exists>s'. dlfree E s (chunk2mem p) = Inr s' \<and> sbrk_inv brk start limit s' (U - {(p, z)})
    \<and> (\<forall>a\<in>stored start limit s (U - {(p, z)}). rd s' a = rd s a)"
  using dlfree_sbrk [OF assms] by blast

theorem dlfree_total_witness:
  "\<exists>s p z s'. sbrk_inv (\<lambda>x. x) 0x100000 0x500000 s {(p, z)} \<and> dlfree brk_os s (chunk2mem p) = Inr s'
    \<and> sbrk_inv (\<lambda>x. x) 0x100000 0x500000 s' {}"
proof -
  obtain s :: "addr state" and p z where i: "sbrk_inv (\<lambda>x. x) 0x100000 0x500000 s {(p, z)}" by (rule live_state)
  from dlfree_total [OF brk_os_sbrk i singletonI] i show ?thesis by auto
qed

text \<open>
  C18. \<open>sys_trim\<close> with any padding, on a system whose break moves as \<open>sbrk\<close> documents and on which
  \<open>mmap\<close> always fails (so that there is one segment), before or after the first allocation: it
  returns, keeps the live blocks and their contents, and answers 1 exactly when the break went down.
  The top chunk and the footprint shrink by what the break moved; nothing is given back when the top
  chunk does not exceed the padding and the 80 bytes of \<open>TOP_FOOT_SIZE\<close>; else more than that is left,
  and at most a granule more when the system takes back what it is offered.
\<close>

theorem sys_trim_total:
  assumes "sbrk_like E brk start limit" "sbrk_inv brk start limit s U"
  shows "\<exists>s' r. sys_trim E s pad = Inr (s', r) \<and> sbrk_inv brk start limit s' U
    \<and> (\<forall>a\<in>stored start limit s U. rd s' a = rd s a)
    \<and> r = (if brk (os s') < brk (os s) then 1 else 0) \<and> brk (os s') \<le> brk (os s)
    \<and> topp s' = topp s \<and> unat (topsize s') + unat (brk (os s)) = unat (topsize s) + unat (brk (os s'))
    \<and> footprint s' = footprint s - (brk (os s) - brk (os s'))
    \<and> (unat (topsize s) \<le> unat pad + 80 \<longrightarrow> brk (os s') = brk (os s))
    \<and> (unat pad + 80 < unat (topsize s) \<longrightarrow> unat pad + 80 < unat (topsize s')
         \<and> (shrinks E brk start limit \<longrightarrow> unat (topsize s') \<le> unat pad + 80 + unat (granularity s')))"
proof -
  obtain s' r where s': "sys_trim E s pad = Inr (s', r)" "keeps_all brk start limit s U s'"
      "top_trimmed E brk start limit pad s s'" "r = (if brk (os s') < brk (os s) then 1 else 0)"
    using sys_trim_pad [OF assms] by blast
  show ?thesis
    by (intro exI [of _ s'] exI [of _ r]) (use s' in \<open>simp add: keeps_all_def top_trimmed_def\<close>)
qed

lemma brk_os_shrinks: "shrinks brk_os (\<lambda>x. x) 0x100000 0x500000"
proof -
  have "0x100000 \<le> x - n \<and> x - n \<le> 0x500000 \<and> x \<noteq> MFAIL"
    if "0x100000 + unat n \<le> unat x" "unat x \<le> 0x500000" for n x :: addr
  proof -
    have "unat (x - n) = unat x - unat n" using that(1) by (intro unat_diff) (simp add: word_le_nat_alt)
    moreover have "x \<noteq> MFAIL" using that(2) by (auto simp: dl_consts)
    moreover have "1048576 \<le> unat x - unat n \<and> unat x - unat n \<le> 5242880" using that by (intro conjI) linarith+
    ultimately show ?thesis by (simp add: word_le_nat_alt)
  qed
  then have "fst (os_morecore brk_os (- n) x m) \<noteq> MFAIL"
    if "0x100000 + unat n \<le> unat x" "unat x \<le> 0x500000" for n x :: addr and m
    using that by (simp add: brk_os_def)
  then show ?thesis unfolding shrinks_def by blast
qed

theorem sys_trim_total_witness:
  "\<exists>s' r. sys_trim brk_os boot_state 0x1000 = Inr (s', r) \<and> sbrk_inv (\<lambda>x. x) 0x100000 0x500000 s' {}
    \<and> 0x1050 < unat (topsize s') \<and> unat (topsize s') \<le> 0x1050 + unat (granularity s')"
proof -
  obtain s' r where s': "sys_trim brk_os boot_state 0x1000 = Inr (s', r)" "sbrk_inv (\<lambda>x. x) 0x100000 0x500000 s' {}"
      "unat (0x1000 :: size_t) + 80 < unat (topsize boot_state) \<longrightarrow> unat (0x1000 :: size_t) + 80 < unat (topsize s')
         \<and> (shrinks brk_os (\<lambda>x. x) 0x100000 0x500000 \<longrightarrow> unat (topsize s') \<le> unat (0x1000 :: size_t) + 80 + unat (granularity s'))"
    using sys_trim_total [OF brk_os_sbrk boot_inv(1), of "0x1000"] by blast
  then show ?thesis using boot_inv(3) brk_os_shrinks by simp
qed

text \<open>Blocks do not overlap.\<close>

lemma sbrk_apart:
  assumes i: "sbrk_inv brk start limit s U" and c: "(p, z) \<in> U" "(q, y) \<in> U" "q \<noteq> p"
  shows "unat p + unat z \<le> unat q \<or> unat q + unat y \<le> unat p"
proof -
  have "topp s \<noteq> 0" using sbrk_invD(6) [OF i] c(1) by auto
  then obtain F where h: "heap s U F {} (foreign limit s)" using sbrk_invD(7) [OF i] by (auto simp: grown_def)
  have O: "open_heap (heap_arena s {} (foreign limit s) UNIV) s U F (dvset s) (topset s) {}" by (rule heap_enter [OF h]) blast
  show ?thesis using geoD(4) [OF open_geo [OF O], of "(p, z)" "(q, y)"] c by (auto simp: lo_def hi_def)
qed



section \<open>Operations on any heap\<close>

text \<open>
  C23. The first branch of \<open>sys_alloc\<close> establishes the invariant: fresh memory becomes a heap whose
  only free chunk is the top chunk, which ends 80 bytes before the end of the segment.
\<close>

theorem sys_alloc_init_establishes_heap:
  assumes "fresh_state s" "fresh_memory s tbase tsize"
  shows "heap (sys_alloc_init s tbase tsize flag) {} {} {} (state_cells s)
    \<and> topp (sys_alloc_init s tbase tsize flag) = tbase \<and> topsize (sys_alloc_init s tbase tsize flag) = tsize - 80"
  using sys_alloc_init_heap [OF assms subset_refl fresh_chunk(2) [OF assms(2)]] by blast

lemma start_fresh: "fresh_state start_state" "fresh_memory start_state 0x100000 0x10000"
proof -
  have "topp start_state = 0" by (simp add: start_state_def static_state_def)
  then show "fresh_state start_state" using sbrk_invD(6) [OF start_inv] by simp
  have "state_cells start_state \<inter> window 0x100000 0x500000 = {}" by (rule sbrk_invD(4) [OF start_inv])
  then show "fresh_memory start_state 0x100000 0x10000"
    by (auto simp: fresh_memory_def window_def is_aligned_iff)
qed

theorem sys_alloc_init_establishes_heap_witness:
  "heap (sys_alloc_init start_state 0x100000 0x10000 0) {} {} {} (state_cells start_state)"
  using sys_alloc_init_establishes_heap [OF start_fresh] by blast

text \<open>
  C19. On any heap, with any number of segments, a request that fits the designated victim, the top
  chunk or a chunk of the bins is served without the system: a new chunk of at least the padded
  size and less than 32 bytes more, taken from free memory; the heap is well-formed again and the
  contents of all other chunks are kept.
\<close>

theorem dlmalloc_serves_what_fits:
  assumes h: "heap s U F V K" and b: "unat bytes < 2 ^ 39"
    and fit: "request2size bytes \<le> dvsize s \<or> request2size bytes < topsize s \<or> (\<exists>(p, y)\<in>F. request2size bytes \<le> y)"
  shows "\<exists>s' p z F'. dlmalloc E s bytes = Inr (s', chunk2mem p) \<and> (p, z) \<notin> U
    \<and> request2size bytes \<le> z \<and> unat z < unat (request2size bytes) + 32 \<and> heap s' (insert (p, z) U) F' V K
    \<and> (\<forall>c\<in>U. \<forall>a\<in>payload c - K. rd s' a = rd s a)"
proof -
  have "\<not> no_fit s F (request2size bytes)" using fit by (auto simp: no_fit_def not_less not_le dest: leD)
  then obtain r where r: "dlmalloc E s bytes = Inr r" "allocated s U F V K (request2size bytes) r"
    using dlmalloc_heap [OF h b, of E] by blast
  then obtain p z F' where m: "moves (heap_arena s V K (touched s U F V)) s (fst r)" and p: "snd r = chunk2mem p" "(p, z) \<notin> U"
      "request2size bytes \<le> z" "unat z < unat (request2size bytes) + 32" "heap (fst r) (insert (p, z) U) F' V K"
    unfolding allocated_def by blast
  have "rd (fst r) a = rd s a" if "c \<in> U" "a \<in> payload c - K" for c a
    using m payload_apart(1) [OF h that(1), of a] that(2) by (simp add: moves_def)
  moreover have "dlmalloc E s bytes = Inr (fst r, chunk2mem p)" using r(1) p(1) [symmetric] by simp
  ultimately show ?thesis using p by blast
qed

theorem dlmalloc_serves_what_fits_witness:
  "\<exists>s' p z F'. dlmalloc brk_os boot_state 100 = Inr (s', chunk2mem p)
    \<and> heap s' {(p, z)} F' {} (foreign 0x500000 boot_state)"
proof -
  obtain F where h: "heap boot_state {} F {} (foreign 0x500000 boot_state)" using boot_heap by blast
  have r: "request2size 100 = 112" by code_simp
  have "request2size 100 < topsize boot_state" using boot_inv(3) by (simp add: r word_less_nat_alt)
  then have f: "request2size 100 \<le> dvsize boot_state \<or> request2size 100 < topsize boot_state \<or> (\<exists>(p, y)\<in>F. request2size 100 \<le> y)"
    by blast
  have "unat (100 :: size_t) < 2 ^ 39" by simp
  from dlmalloc_serves_what_fits [OF h this f] show ?thesis by blast
qed

text \<open>
  C20. \<open>dispose_chunk\<close> of a chunk in use returns and never reports corruption: the chunk joins its
  free neighbours, the heap is well-formed again without it, and nothing but free memory and heads
  is written.
\<close>

theorem dispose_chunk_keeps_heap:
  assumes h: "heap s U F V K" and c: "(p, z) \<in> U" "own (p, z) \<inter> K = {}"
  shows "\<exists>s' F'. dispose_chunk E s p z = Inr s' \<and> heap s' (U - {(p, z)}) F' V K
    \<and> (\<forall>d\<in>U - {(p, z)}. \<forall>a\<in>payload d - K. rd s' a = rd s a)"
proof -
  obtain s' F' where s': "dispose_chunk E s p z = Inr s'" "heap s' (U - {(p, z)}) F' V K"
      and m: "moves (heap_arena s V K (touched s U F V \<union> own (p, z))) s s'"
    using dispose_chunk_heap [OF h c refl, of E] by blast
  have O: "open_heap (heap_arena s V K UNIV) s U F (dvset s) (topset s) {}" by (rule heap_enter [OF h]) blast
  have "rd s' a = rd s a" if d: "d \<in> U - {(p, z)}" and a: "a \<in> payload d - K" for d a
  proof -
    have "a \<notin> own (p, z)" using geo_own [OF open_geo [OF O], of d "(p, z)"] d c(1) a by (auto simp: payload_def)
    then show ?thesis using m payload_apart(1) [OF h, of d a] d a by (simp add: moves_def)
  qed
  then show ?thesis using s' by blast
qed

theorem dispose_chunk_keeps_heap_witness:
  "\<exists>s p z s' F'. dispose_chunk brk_os (s :: addr state) p z = Inr s' \<and> heap s' {} F' {} (foreign 0x500000 s)"
proof -
  obtain s :: "addr state" and p z where i: "sbrk_inv (\<lambda>x. x) 0x100000 0x500000 s {(p, z)}" "topp s \<noteq> 0" by (rule live_state)
  then obtain F where h: "heap s {(p, z)} F {} (foreign 0x500000 s)" and o: "own (p, z) \<inter> foreign 0x500000 s = {}"
    using sbrk_invD(7) [OF i] by (auto simp: grown_def)
  from dispose_chunk_keeps_heap [OF h singletonI o, of brk_os] show ?thesis by simp blast
qed

end
