(* ===== verification/DL_ReallocProps.thy ===== *)
theory DL_ReallocProps
  imports DL_ResizeProps DL_MallocProps DL_Realloc
begin

text \<open>
  Resizing a chunk in use (\<open>try_realloc_chunk\<close> and the splitting of \<open>internal_memalign\<close> in
  src/src/dlmalloc.c) on any well-formed heap: every branch, with what it keeps of the contents.
\<close>

section \<open>Writes that change the size of a chunk in use\<close>

lemma head_keep_words:
  assumes "is_aligned z"
  shows "head_size (((h AND 1) OR z) OR 2) = z" "head_cinuse (((h AND 1) OR z) OR 2)"
    "head_pinuse (((h AND 1) OR z) OR 2) = head_pinuse h"
  using assms by (auto simp: head_defs dl_consts dl_flags or_and_distrib and.assoc)

lemma set_inuse_head:
  assumes "p + z \<noteq> p"
  shows "set_inuse s p z = set_head (set_head s p (((head s p AND 1) OR z) OR 2)) (p + z) (head s (p + z) OR 1)"
    "head (set_inuse s p z) q = (if q = p + z then head s q OR 1 else if q = p then ((head s p AND 1) OR z) OR 2 else head s q)"
  using assms by (simp_all add: set_inuse_def dl_consts Let_def head_reads)

lemma open_resize:
  assumes O: "open_heap w s U F D T H" and ch: "changes_mem A s s'"
    and A: "\<forall>a\<in>A. a \<in> free_space (D \<union> T \<union> H) U (fences w) \<or> (\<exists>c\<in>U. a \<in> own c - kept w) \<and> a \<in> reach w"
    and L: "layout s' U' (F \<union> D') T' H' (fences w) (ends w) (kept w)" "F \<inter> D' = {}"
    and n: "\<forall>c\<in>D' \<union> T' \<union> H'. c \<in> D \<union> T \<union> H \<or> own c \<subseteq> reach w \<and> ok_address s (fst c)" and U': "fst ` U' \<subseteq> fst ` U"
  shows "open_heap w s' U' F D' T' H' \<and> moves w s s'"
proof -
  note P = open_heapD [OF O]
  have s': "s' = s\<lparr>mem := mem s'\<rparr>" using ch by (simp add: changes_mem_def)
  have f: "maddr s' = maddr s" "least_addr s' = least_addr s" "smallmap s' = smallmap s" "treemap s' = treemap s"
    by (subst s', simp)+
  have h: "header_cells s' = header_cells s" by (rule header_cells_cong [OF f(1)])
  have out: "rd s' a = rd s a" if "a \<notin> A" for a by (rule changes_memD [OF ch that])
  have cc: "chunk_cells c \<subseteq> own c" if c: "c \<in> F" for c
    by (rule chunk_cells_own(1) [OF open_chunk [OF O] layoutD(6) [OF P(3)]]) (use c in blast)+
  have od: "own c \<inter> own d = {}" if c: "c \<in> F" and d: "d \<in> U" for c d
  proof -
    have "c \<noteq> d" using layoutD(3) [OF P(3)] c d by blast
    then show ?thesis using geo_own [OF open_geo [OF O], of c d] c d by simp
  qed
  have F: "free_rep s' F"
  proof (rule free_rep_cong [OF P(1) f])
    show "rd s' a = rd s a" if "a \<in> header_cells s" for a
      by (rule out) (use that A free_space_bins(1) [OF O, of a] P(4) in blast)
    show "rd s' a = rd s a" if c: "c \<in> F" "a \<in> chunk_cells c" for c a
      by (rule out) (use c A free_space_bins(2) [OF O, of a] cc [OF c(1)] od [OF c(1)] in blast)
  qed
  have ok: "ok_address s (fst c) \<and> own c \<subseteq> reach w" if "c \<in> D' \<union> T' \<union> H'" for c
    using n that P(6) [of c] P(8) [OF UnI1 [OF imageI, of c]] by blast
  have "open_heap w s' U' F D' T' H'"
  proof (intro open_heapI)
    show "\<forall>c\<in>F \<union> D' \<union> T' \<union> H'. own c \<subseteq> reach w" using ok P(6) by (simp add: ball_Un)
    show "\<forall>q\<in>fst ` U' \<union> fences w. q + 8 \<in> reach w" using P(7) U' by blast
    show "\<forall>q\<in>fst ` (U' \<union> F \<union> D' \<union> T' \<union> H') \<union> fences w. ok_address s' q"
    proof
      fix q assume q: "q \<in> fst ` (U' \<union> F \<union> D' \<union> T' \<union> H') \<union> fences w"
      then have "q \<in> fst ` (D' \<union> T' \<union> H') \<or> q \<in> fst ` (U \<union> F \<union> D \<union> T \<union> H) \<union> fences w"
        using U' by (simp only: image_Un) blast
      then have "ok_address s q" using ok P(8) by blast
      then show "ok_address s' q" by (simp add: ok_address_def f)
    qed
  qed (use F L P(4,5) h in auto)
  moreover have "moves w s s'"
  proof -
    have "A \<subseteq> reach w" using A free_space_bins(3) [OF O] by blast
    then show ?thesis using out by (subst s', cases s) (auto simp: moves_def rd_def)
  qed
  ultimately show ?thesis by blast
qed

lemma resize_heads:
  assumes O: "open_heap w s U F D T H" and c: "(p, z) \<in> U" and x: "is_aligned nb" "p + nb \<noteq> p" "is_aligned (p + nb)"
    and x2: "p + nb \<notin> fst ` (U \<union> (F \<union> D) \<union> T) \<union> fences w"
  shows "chunksize (set_inuse s p nb) p = nb" "cinuse (set_inuse s p nb) p" "pinuse (set_inuse s p nb) p = pinuse s p"
    "\<forall>q\<in>fst ` (U \<union> (F \<union> D) \<union> T) \<union> fences w. q \<noteq> p \<longrightarrow> same_head s (set_inuse s p nb) q"
    "\<forall>d\<in>F \<union> D. prev_foot (set_inuse s p nb) (fin d) = prev_foot s (fin d)"
    "pinuse (set_inuse s p nb) (p + nb)"
proof -
  note W = head_keep_words [OF x(1)] and hd = set_inuse_head(2) [OF x(2)]
  have p: "is_aligned p" using open_chunk [OF O, of "(p, z)"] c by (simp add: chunk_geo_def)
  show "chunksize (set_inuse s p nb) p = nb" "cinuse (set_inuse s p nb) p" "pinuse (set_inuse s p nb) p = pinuse s p"
    "pinuse (set_inuse s p nb) (p + nb)"
    using x(2) W by (simp_all add: chunksize_def cinuse_def pinuse_def hd head_set_pinuse)
  show "\<forall>q\<in>fst ` (U \<union> (F \<union> D) \<union> T) \<union> fences w. q \<noteq> p \<longrightarrow> same_head s (set_inuse s p nb) q"
    using x2 by (auto simp: same_head_def hd)
  have "is_aligned (fin d)" if "d \<in> F \<union> D" for d
    by (rule aligned_fin [OF open_chunk [OF O]]) (use that in blast)
  then show "\<forall>d\<in>F \<union> D. prev_foot (set_inuse s p nb) (fin d) = prev_foot s (fin d)"
    using p x by (simp add: set_inuse_head(1) [OF x(2)] head_reads)
qed

text \<open>The start of a part of a chunk is no chunk and no fencepost.\<close>

lemma inner_start:
  assumes g: "geo A E" and c: "(p, z) \<in> A" and n: "16 \<le> unat nb" "unat nb + 16 \<le> unat z"
  shows "p + nb \<notin> fst ` A \<union> E" "p + nb \<noteq> p"
proof -
  have cg: "chunk_geo (p, z)" by (rule geoD(3) [OF g c])
  have u: "unat (p + nb) = unat p + unat nb" using unat_in_chunk [OF cg, of nb] n by simp
  show "p + nb \<noteq> p" using u n by auto
  have "p + nb \<notin> E" using geoD(6) [OF g _ c, of "p + nb"] u n by (auto simp: lo_def hi_def)
  moreover have False if d: "d \<in> A" and e: "fst d = p + nb" for d
  proof -
    have "d \<noteq> (p, z)" using e u n by auto
    moreover have "lo d + 16 \<le> hi d" by (rule lo_hi(1) [OF geoD(3) [OF g d]])
    moreover have "lo d = unat p + unat nb" using e u by (simp add: lo_def)
    ultimately show False using geoD(4) [OF g d c] n by (auto simp: lo_def hi_def)
  qed
  then have "p + nb \<notin> fst ` A" by force
  ultimately show "p + nb \<notin> fst ` A \<union> E" by blast
qed

lemma cut_heap:
  assumes O: "open_heap w s U F D T H" and c: "(p, z) \<in> U" "own (p, z) \<inter> kept w = {}" "own (p + nb, z - nb) \<subseteq> reach w"
    and n: "is_aligned nb" "32 \<le> unat nb" "unat nb + 16 \<le> unat z"
  shows "open_heap w (set_inuse s p nb) (insert (p, nb) (U - {(p, z)})) F D T (insert (p + nb, z - nb) H)
    \<and> moves w s (set_inuse s p nb)"
proof -
  note P = open_heapD [OF O] and g = open_geo [OF O]
  have cA: "(p, z) \<in> U \<union> F \<union> D \<union> T \<union> H" using c by blast
  have cg: "chunk_geo (p, z)" by (rule geoD(3) [OF g cA])
  have n': "16 \<le> unat nb" "unat nb + 16 \<le> unat z" using n by simp_all
  note j = chunk_geo_split [OF cg n(1) n']
  note i = inner_start [OF g cA n']
  have al: "is_aligned (p + nb)" using j(2) by (simp add: chunk_geo_def)
  have x2: "p + nb \<notin> fst ` (U \<union> (F \<union> D) \<union> T) \<union> fences w"
    using i(1) layoutD(2) [OF P(3)] by (simp only: image_Un) blast
  note R = resize_heads [OF O c(1) n(1) i(2) al x2]
  have L: "layout (set_inuse s p nb) (insert (p, nb) (U - {(p, z)})) (F \<union> D) T (insert (p + nb, z - nb) H) (fences w) (ends w) (kept w)"
    by (rule cut_used [OF P(3) c(1,2) n R(1-5)])
  have u: "unat (p + nb) = unat p + unat nb" using unat_in_chunk [OF cg, of nb] n by simp
  have ok: "ok_address s (p + nb)"
    using P(8) [OF UnI1 [OF imageI [OF cA]]] u by (simp add: ok_address_def word_le_nat_alt)
  have hd: "p + nb + 8 \<in> own (p + nb, z - nb)" using head_own [OF j(2)] by simp
  have sub: "own (p + nb, z - nb) \<subseteq> own (p, z)" by (rule own_sub) (use u j(4) in \<open>simp_all add: lo_def\<close>)
  show ?thesis
  proof (rule open_resize [OF O _ _ L])
    show "changes_mem {p + nb + 8, p + 8} s (set_inuse s p nb)"
      unfolding set_inuse_head(1) [OF i(2)] set_head_def
      by (rule changes_mem_wr [OF changes_mem_wr1]) simp_all
    show "\<forall>a\<in>{p + nb + 8, p + 8}. a \<in> free_space (D \<union> T \<union> H) U (fences w) \<or> (\<exists>c\<in>U. a \<in> own c - kept w) \<and> a \<in> reach w"
      using head_space [of p U "fences w"] imageI [OF c(1), of fst] hd sub c by auto
    show "F \<inter> D = {}" by (rule P(2))
    show "fst ` insert (p, nb) (U - {(p, z)}) \<subseteq> fst ` U" using imageI [OF c(1), of fst] by auto
  qed (use c(3) ok in auto)
qed

lemma grow_heap:
  assumes O: "open_heap w s U F D T H" and c: "(p, z) \<in> U" "(p + z, y) \<in> H"
    and n: "is_aligned nb" "unat z + 16 \<le> unat nb" "unat nb + 16 \<le> unat z + unat y"
  shows "open_heap w (set_inuse s p nb) (insert (p, nb) (U - {(p, z)})) F D T (insert (p + nb, z + y - nb) (H - {(p + z, y)}))
    \<and> moves w s (set_inuse s p nb) \<and> head_pinuse (head (set_inuse s p nb) (p + nb))"
proof -
  note P = open_heapD [OF O] and g = open_geo [OF O]
  have cA: "(p, z) \<in> U \<union> F \<union> D \<union> T \<union> H" "(p + z, y) \<in> U \<union> F \<union> D \<union> T \<union> H" using c by blast+
  note j = chunk_geo_join [OF geoD(3) [OF g cA(1)] geoD(3) [OF g cA(2)]]
  have n32: "32 \<le> unat nb" using layoutD(6) [OF P(3), of "(p, z)"] c(1) n(2) by simp
  have n': "16 \<le> unat nb" "unat nb + 16 \<le> unat (z + y)" using n32 n(3) j(4) by simp_all
  note i0 = chunk_geo_split [OF j(1) n(1) n']
  have nz: "unat (nb - z) = unat nb - unat z" using n(2) by (intro unat_sub) (simp add: word_le_nat_alt)
  have pe: "p + z + (nb - z) = p + nb" by simp
  have "16 \<le> unat (nb - z)" "unat (nb - z) + 16 \<le> unat y" using nz n by simp_all
  note i = inner_start [OF g cA(2) this, unfolded pe]
  have al: "is_aligned (p + nb)" using i0(2) by (simp add: chunk_geo_def)
  have ne: "p + nb \<noteq> p"
    using unat_in_chunk [OF j(1), of nb] n' by auto
  have x2: "p + nb \<notin> fst ` (U \<union> (F \<union> D) \<union> T) \<union> fences w"
    using i(1) layoutD(2) [OF P(3)] by (simp only: image_Un) blast
  note R = resize_heads [OF O c(1) n(1) ne al x2]
  have L: "layout (set_inuse s p nb) (insert (p, nb) (U - {(p, z)})) (F \<union> D) T
      (insert (p + nb, z + y - nb) (H - {(p + z, y)})) (fences w) (ends w) (kept w)"
    by (rule grow_used [OF P(3) c n(1) n32 n(3) R(1-5)]) (use n(2) in simp)
  have u: "unat (p + nb) = unat p + unat nb" using unat_in_chunk [OF j(1), of nb] n' by simp
  have ok: "ok_address s (p + nb)"
    using P(8) [OF UnI1 [OF imageI [OF cA(1)]]] u by (simp add: ok_address_def word_le_nat_alt)
  have sub: "own (p + nb, z + y - nb) \<subseteq> own (p + z, y)"
    by (rule own_sub) (use u j(2,3) i0(4) n(2) in \<open>simp_all add: lo_def hi_def\<close>)
  have hd: "p + nb + 8 \<in> own (p + z, y)" using head_own [OF i0(2)] sub by auto
  have "open_heap w (set_inuse s p nb) (insert (p, nb) (U - {(p, z)})) F D T (insert (p + nb, z + y - nb) (H - {(p + z, y)}))
    \<and> moves w s (set_inuse s p nb)"
  proof (rule open_resize [OF O _ _ L])
    show "changes_mem {p + nb + 8, p + 8} s (set_inuse s p nb)"
      unfolding set_inuse_head(1) [OF ne] set_head_def
      by (rule changes_mem_wr [OF changes_mem_wr1]) simp_all
    show "\<forall>a\<in>{p + nb + 8, p + 8}. a \<in> free_space (D \<union> T \<union> H) U (fences w) \<or> (\<exists>c\<in>U. a \<in> own c - kept w) \<and> a \<in> reach w"
      using head_space [of p U "fences w"] imageI [OF c(1), of fst] hd c(2) by (auto simp: free_space_def)
    show "F \<inter> D = {}" by (rule P(2))
    show "fst ` insert (p, nb) (U - {(p, z)}) \<subseteq> fst ` U" using imageI [OF c(1), of fst] by auto
  qed (use P(6) c(2) sub ok in auto)
  then show ?thesis using R(6) by (simp add: pinuse_def)
qed

lemma or_one_id: "head_pinuse h \<Longrightarrow> h OR 1 = h"
proof -
  assume "head_pinuse h"
  then have "h AND 1 = 1" using low_two [of h] low_parts [of h] by (auto simp: head_pinuse_def dl_consts)
  then have "h OR 1 = h OR (h AND 1)" by simp
  then show ?thesis by simp
qed

lemma swallow_heap:
  assumes O: "open_heap w s U F D T H" and c: "(p, z) \<in> U" "(p + z, y) \<in> H"
    "p + (z + y) \<in> fst ` U \<union> fences w \<or> p + (z + y) \<in> fst ` (U \<union> F \<union> D \<union> T) \<union> fences w \<and> pinuse s (p + (z + y))"
  shows "open_heap w (set_inuse s p (z + y)) (insert (p, z + y) (U - {(p, z)})) F D T (H - {(p + z, y)})
    \<and> moves w s (set_inuse s p (z + y))"
proof -
  note P = open_heapD [OF O] and g = open_geo [OF O]
  let ?s = "set_inuse s p (z + y)" and ?x = "p + (z + y)"
  have cA: "(p, z) \<in> U \<union> F \<union> D \<union> T \<union> H" "(p + z, y) \<in> U \<union> F \<union> D \<union> T \<union> H" using c by blast+
  note j = chunk_geo_join [OF geoD(3) [OF g cA(1)] geoD(3) [OF g cA(2)]]
  have al: "is_aligned p" "is_aligned (z + y)" "is_aligned ?x" using j(1) aligned_fin [OF j(1)] by (simp_all add: chunk_geo_def)
  have ne: "?x \<noteq> p" using unat_in_chunk [OF j(1), of "z + y"] j(1) by (auto simp: chunk_geo_def)
  note hd = set_inuse_head(2) [OF ne] and W = head_keep_words [OF al(2)]
  have fin_al: "is_aligned (fin d)" if "d \<in> F \<union> D" for d
    by (rule aligned_fin [OF open_chunk [OF O]]) (use that in blast)
  have L: "layout ?s (insert (p, z + y) (U - {(p, z)})) (F \<union> D) T (H - {(p + z, y)}) (fences w) (ends w) (kept w)"
  proof (rule swallow_next [OF P(3) c(1,2)])
    show "?x \<in> fst ` (U \<union> (F \<union> D) \<union> T) \<union> fences w" using c(3) by (simp only: image_Un) blast
    show "\<forall>q\<in>fst ` (U \<union> (F \<union> D) \<union> T) \<union> fences w. q \<noteq> p \<longrightarrow> q \<noteq> ?x \<longrightarrow> same_head s ?s q"
      by (simp add: same_head_def hd)
    show "\<forall>d\<in>F \<union> D. prev_foot ?s (fin d) = prev_foot s (fin d)"
      using al fin_al by (simp add: set_inuse_head(1) [OF ne] head_reads)
  qed (use ne W in \<open>simp_all add: chunksize_def cinuse_def pinuse_def hd head_set_pinuse\<close>)
  let ?A = "if ?x \<in> fst ` U \<union> fences w then {?x + 8, p + 8} else {p + 8}"
  have ch2: "changes_mem {?x + 8, p + 8} s ?s"
    unfolding set_inuse_head(1) [OF ne] set_head_def by (rule changes_mem_wr [OF changes_mem_wr1]) simp_all
  have same: "rd ?s (?x + 8) = rd s (?x + 8)" if "pinuse s ?x"
    using hd [of s ?x] or_one_id [OF that [unfolded pinuse_def]] ne by (simp add: head_def)
  have "changes_mem {p + 8} s ?s" if "?x \<notin> fst ` U \<union> fences w"
  proof -
    have "pinuse s ?x" using c(3) that by blast
    then have "rd ?s a = rd s a" if "a \<noteq> p + 8" for a
      using same changes_memD [OF ch2, of a] that by (cases "a = ?x + 8") simp_all
    then show ?thesis using ch2 by (simp add: changes_mem_def)
  qed
  then have ch: "changes_mem ?A s ?s" using ch2 by simp
  show ?thesis
  proof (rule open_resize [OF O ch _ L])
    show "\<forall>a\<in>?A. a \<in> free_space (D \<union> T \<union> H) U (fences w) \<or> (\<exists>c\<in>U. a \<in> own c - kept w) \<and> a \<in> reach w"
      using head_space [of p U "fences w"] head_space [of ?x U "fences w"] imageI [OF c(1), of fst] by auto
    show "F \<inter> D = {}" by (rule P(2))
    show "fst ` insert (p, z + y) (U - {(p, z)}) \<subseteq> fst ` U" using imageI [OF c(1), of fst] by auto
  qed auto
qed

text \<open>Where the tags are as they should be, setting them again changes nothing.\<close>

lemma rd_set_head_same: "set_head s p (head s p) = s"
  by (cases s) (simp add: set_head_def head_def rd_def wr_def)

lemma clear_one_id:
  assumes "\<not> head_pinuse h"
  shows "h AND NOT PINUSE_BIT = h"
proof -
  have "h AND 1 = 0" using assms by (simp add: head_pinuse_def dl_consts)
  moreover have "h = (h AND NOT 1) OR (h AND 1)" by (rule bit_word_eqI) (auto simp: bit_simps)
  ultimately have "h AND NOT 1 = h" by simp
  then show ?thesis by (simp only: dl_consts)
qed

lemma set_inuse_again:
  assumes "pinuse s p" "p + z \<noteq> p"
  shows "set_inuse s p z = set_inuse_and_pinuse s p z"
    "pinuse s (p + z) \<Longrightarrow> set_inuse s p z = set_size_and_pinuse_of_inuse_chunk s p z"
proof -
  have w: "((head s p AND PINUSE_BIT) OR z) OR CINUSE_BIT = (z OR PINUSE_BIT) OR CINUSE_BIT"
    using assms(1) by (intro inuse_pinuse_word) (simp add: pinuse_def)
  show "set_inuse s p z = set_inuse_and_pinuse s p z"
    unfolding set_inuse_def set_inuse_and_pinuse_def w ..
  assume n: "pinuse s (p + z)"
  have "head (set_head s p v) (p + z) OR PINUSE_BIT = head (set_head s p v) (p + z)" for v
    using n assms(2) by (simp add: head_reads dl_consts pinuse_def or_one_id)
  then show "set_inuse s p z = set_size_and_pinuse_of_inuse_chunk s p z"
    unfolding set_inuse_def w Let_def set_size_and_pinuse_of_inuse_chunk_def by (simp only: rd_set_head_same)
qed

section \<open>Giving back the rest of a chunk\<close>

lemma moves_weaken: "moves w s s' \<Longrightarrow> reach w \<subseteq> reach w' \<Longrightarrow> moves w' s s'"
  unfolding moves_def by blast

lemma touched_reach: "open_heap w s U F (dvset s) (topset s) {} \<Longrightarrow> touched s U F (fences w) \<subseteq> reach w"
  using open_heapD(5,6,7) [of w s U F "dvset s" "topset s" "{}"] unfolding touched_def free_space_def by blast

lemma dispose_open:
  assumes O: "open_heap w s1 U1 F1 (dvset s1) (topset s1) {}" and w: "w = heap_arena s0 V K X"
    and t: "fin ` topset s1 = fin ` topset s0" "zero_fields s1" "V \<inter> fin ` topset s0 = {}"
    and c: "(r, y) \<in> U1" "own (r, y) \<inter> K = {}" "own (r, y) \<subseteq> X"
  shows "\<exists>s' F'. dispose_chunk E s1 r y = Inr s' \<and> heap s' (U1 - {(r, y)}) F' V K \<and> moves w s1 s'"
proof -
  have h: "heap s1 U1 F1 V K" by (rule heap_leave [OF O w refl refl t(1)]) (use t in \<open>simp_all add: zero_fields_def\<close>)
  from dispose_chunk_heap [OF h c(1,2) refl, of E] obtain s' F' where
    s': "dispose_chunk E s1 r y = Inr s'" "heap s' (U1 - {(r, y)}) F' V K"
    and m: "moves (heap_arena s1 V K (touched s1 U1 F1 V \<union> own (r, y))) s1 s'" by blast
  have "touched s1 U1 F1 V \<subseteq> X" using touched_reach [OF O] by (simp add: w)
  then have "moves w s1 s'" by (intro moves_weaken [OF m]) (use c(3) in \<open>auto simp: w\<close>)
  then show ?thesis using s' by blast
qed

text \<open>A chunk in use is cut in two, and the second part given back.\<close>

lemma set_inuse_fields:
  "dv (set_inuse s p z) = dv s" "dvsize (set_inuse s p z) = dvsize s" "topp (set_inuse s p z) = topp s"
  "topsize (set_inuse s p z) = topsize s"
  by (simp_all add: set_inuse_def Let_def tag_writes_fields)

lemmas set_inuse_sets = sets_kept [OF set_inuse_fields]

lemma mark_rest:
  assumes O: "open_heap w s U F D T {(r, y)}" and y: "32 \<le> unat y" and pin: "pinuse s r"
    and nx: "pinuse s (r + y) \<or> r + y \<in> fst ` U \<union> fences w"
  shows "open_heap w (set_inuse s r y) (insert (r, y) U) F D T {} \<and> moves w s (set_inuse s r y)"
proof -
  have "chunk_geo (r, y)" by (rule open_chunk [OF O]) blast
  from start_cases(6) [OF open_heapD(3) [OF O] singletonI] have ne: "r + y \<noteq> r" by simp
  note E = set_inuse_again [OF pin ne]
  show ?thesis
  proof (cases "pinuse s (r + y)")
    case True
    from mark_used [OF O singletonI y disjI2 [OF True] E(2) [OF True]] show ?thesis by simp
  next
    case False
    then show ?thesis using mark_used_next [OF O singletonI y _ E(1)] nx by simp
  qed
qed

lemma used_next:
  assumes O: "open_heap w s U F D T {}" and c: "c \<in> U" and e: "ends w = fences w \<union> fin ` T"
  shows "fin c \<in> fst ` (U \<union> F \<union> D \<union> T) \<union> fences w" "pinuse s (fin c)"
proof -
  have n: False if "d \<in> F \<union> D \<union> T" "fin d = fin c" for d
    using heap_inj(2) [OF O, of d c] heap_disjoint(1) [OF O] c that by auto
  have "fin c \<in> fst ` (U \<union> (F \<union> D) \<union> T \<union> {}) \<union> ends w"
    by (rule geoD(7) [OF layoutD(1) [OF open_heapD(3) [OF O]]]) (use c in blast)
  moreover have "fin c \<notin> fin ` T"
  proof (intro notI, elim imageE)
    fix d assume "fin c = fin d" "d \<in> T"
    then show False using n [of d] by simp
  qed
  ultimately show q: "fin c \<in> fst ` (U \<union> F \<union> D \<union> T) \<union> fences w" by (simp add: e Un_assoc)
  have "fin c \<notin> fin ` (F \<union> D)"
  proof (intro notI, elim imageE)
    fix d assume "fin c = fin d" "d \<in> F \<union> D"
    then show False using n [of d] by simp
  qed
  then show "pinuse s (fin c)" using pinuse_heap [OF O q] by simp
qed

lemma cut_off:
  assumes h: "heap s U F V K" and c: "(p, z) \<in> U" "own (p, z) \<inter> K = {}"
    and n: "is_aligned nb" "32 \<le> unat nb" "unat nb + 32 \<le> unat z"
    and w: "w = heap_arena s V K (touched s U F V \<union> own (p + nb, z - nb))"
    and s2: "s2 = set_inuse (set_inuse s p nb) (p + nb) (z - nb)"
  shows "open_heap w s2 (insert (p + nb, z - nb) (insert (p, nb) (U - {(p, z)}))) F (dvset s2) (topset s2) {}"
    "moves w s s2" "zero_fields s2" "topset s2 = topset s" "own (p + nb, z - nb) \<subseteq> own (p, z)" "own (p, nb) \<subseteq> own (p, z)"
    "(p + nb, z - nb) \<notin> insert (p, nb) (U - {(p, z)})" "(p, nb) \<notin> U - {(p, z)}"
proof -
  let ?s1 = "set_inuse s p nb" and ?U = "insert (p, nb) (U - {(p, z)})"
  have O: "open_heap w s U F (dvset s) (topset s) {}" unfolding w by (rule heap_enter [OF h]) blast
  have cA: "(p, z) \<in> U \<union> F \<union> dvset s \<union> topset s \<union> {}" using c by blast
  have cg: "chunk_geo (p, z)" by (rule open_chunk [OF O cA])
  have n': "16 \<le> unat nb" "unat nb + 16 \<le> unat z" using n by simp_all
  note j = chunk_geo_split [OF cg n(1) n'] and fr = geo_fresh(1) [OF open_geo [OF O] cA n(1) n']
  have u: "unat (p + nb) = unat p + unat nb" using unat_in_chunk [OF cg, of nb] n by simp
  show sub: "own (p + nb, z - nb) \<subseteq> own (p, z)" "own (p, nb) \<subseteq> own (p, z)"
    by (rule own_sub, use u j(3,4) lo_hi(2) [OF j(2)] in \<open>simp_all add: lo_def\<close>)+
  show "(p + nb, z - nb) \<notin> ?U" "(p, nb) \<notin> U - {(p, z)}" using fr n(2) by auto
  from cut_heap [OF O c(1) _ _ n(1,2) n'(2)] c(2)
  have O1: "open_heap w ?s1 ?U F (dvset s) (topset s) {(p + nb, z - nb)}" and m1: "moves w s ?s1"
    by (simp_all add: w)
  have i: "p + nb \<noteq> p" using u n(2) by auto
  have pin: "pinuse ?s1 (p + nb)" by (simp add: pinuse_def set_inuse_head(2) [OF i] head_set_pinuse)
  have fe: "p + nb + (z - nb) = p + z" by simp
  have "pinuse ?s1 (p + z) \<or> p + z \<in> fst ` ?U \<union> fences w"
  proof -
    have nb: "p + z \<noteq> p" "p + z \<noteq> p + nb"
      using start_cases(6) [OF open_heapD(3) [OF O1] singletonI] lo_hi(2,3) [OF cg] by (auto simp: lo_def)
    have "pinuse s (p + z)" using used_next(2) [OF O c(1)] by (simp add: w)
    then show ?thesis using nb by (simp add: pinuse_def set_inuse_head(2) [OF i])
  qed
  moreover have "32 \<le> unat (z - nb)" using j(5) n(3) by simp
  ultimately have "open_heap w s2 (insert (p + nb, z - nb) ?U) F (dvset s) (topset s) {} \<and> moves w ?s1 s2"
    unfolding s2 by (intro mark_rest [OF O1 _ pin]) (simp_all add: fe)
  then show "open_heap w s2 (insert (p + nb, z - nb) ?U) F (dvset s2) (topset s2) {}" "moves w s s2"
    "zero_fields s2" "topset s2 = topset s"
    using moves_trans [OF m1] heapD [OF h] by (simp_all add: s2 set_inuse_sets zero_fields_def set_inuse_fields)
qed

section \<open>try\_realloc\_chunk\<close>

text \<open>The cells of a chunk beyond the first \<open>nb\<close> bytes.\<close>

definition tail_cells :: "addr \<Rightarrow> size_t \<Rightarrow> size_t \<Rightarrow> addr set" where
  "tail_cells p z nb = {a \<in> own (p, z). unat p + unat nb + 8 \<le> unat a}"

definition resized ::
  "'o state \<Rightarrow> chunk set \<Rightarrow> chunk set \<Rightarrow> addr set \<Rightarrow> addr set \<Rightarrow> addr \<Rightarrow> size_t \<Rightarrow> size_t \<Rightarrow> 'o state \<times> addr \<Rightarrow> bool"
where
  "resized s U F V K p z nb r \<longleftrightarrow> snd r = 0 \<and> fst r = s \<and> z < nb
     \<or> snd r = p \<and> moves (heap_arena s V K (touched s U F V \<union> tail_cells p z nb)) s (fst r)
       \<and> (\<exists>y F'. nb \<le> y \<and> unat y < unat nb + 32 \<and> own (p, y) \<inter> K = {} \<and> own (p, y) \<subseteq> touched s U F V \<union> own (p, z)
            \<and> (p, y) \<notin> U - {(p, z)} \<and> heap (fst r) (insert (p, y) (U - {(p, z)})) F' V K)"

lemma shrink_heap:
  assumes h: "heap s U F V K" and c: "(p, z) \<in> U" "own (p, z) \<inter> K = {}"
    and n: "is_aligned nb" "32 \<le> unat nb" "unat nb + 32 \<le> unat z"
  shows "\<exists>s'. dispose_chunk E (set_inuse (set_inuse s p nb) (p + nb) (z - nb)) (p + nb) (z - nb) = Inr s'
    \<and> resized s U F V K p z nb (s', p)"
proof -
  let ?s2 = "set_inuse (set_inuse s p nb) (p + nb) (z - nb)" and ?r = "p + nb" and ?y = "z - nb"
  define w where "w = heap_arena s V K (touched s U F V \<union> own (?r, ?y))"
  note C = cut_off [OF h c n w_def refl]
  have O0: "open_heap (heap_arena s V K UNIV) s U F (dvset s) (topset s) {}" by (rule heap_enter [OF h]) blast
  have cg: "chunk_geo (p, z)" by (rule open_chunk [OF O0]) (use c in blast)
  have u: "unat ?r = unat p + unat nb" using unat_in_chunk [OF cg, of nb] n by simp
  have "own (?r, ?y) \<inter> K = {}" "own (?r, ?y) \<subseteq> touched s U F V \<union> own (?r, ?y)" using C(5) c(2) by blast+
  moreover have "fin ` topset ?s2 = fin ` topset s" by (simp add: C(4))
  moreover have "insert (?r, ?y) (insert (p, nb) (U - {(p, z)})) - {(?r, ?y)} = insert (p, nb) (U - {(p, z)})"
    using C(7) by blast
  ultimately obtain s' F' where
    s': "dispose_chunk E ?s2 ?r ?y = Inr s'" "heap s' (insert (p, nb) (U - {(p, z)})) F' V K" "moves w ?s2 s'"
    using dispose_open [OF C(1) w_def _ C(3) heapD(3) [OF h] insertI1, of E] by metis
  have "own (?r, ?y) \<subseteq> tail_cells p z nb"
    using C(5) u by (auto simp: tail_cells_def own_def lo_def)
  then have "moves (heap_arena s V K (touched s U F V \<union> tail_cells p z nb)) s s'"
    by (intro moves_weaken [OF moves_trans [OF C(2) s'(3)]]) (auto simp: w_def)
  moreover have "own (p, nb) \<inter> K = {}" using C(6) c(2) by blast
  ultimately have "resized s U F V K p z nb (s', p)"
    unfolding resized_def using s'(2) C(6,8) by (intro disjI2) auto
  then show ?thesis using s'(1) by blast
qed

lemma resized_grown:
  assumes m: "moves (heap_arena s V K (touched s U F V)) s s'" and h: "heap s' (insert (p, y) (U - {(p, z)})) F' V K"
    and y: "nb \<le> y" "unat y < unat nb + 32" and o: "own (p, y) \<inter> K = {}" "own (p, y) \<subseteq> touched s U F V \<union> own (p, z)"
    and u: "(p, y) \<notin> U - {(p, z)}"
  shows "resized s U F V K p z nb (s', p)"
proof -
  have "moves (heap_arena s V K (touched s U F V \<union> tail_cells p z nb)) s s'" by (rule moves_weaken [OF m]) auto
  then show ?thesis unfolding resized_def using assms by auto
qed

lemma own_join:
  assumes "chunk_geo (p, z)" "chunk_geo (p + z, y)"
  shows "own (p, z + y) \<subseteq> own (p, z) \<union> own (p + z, y)"
  using chunk_geo_join [OF assms] by (auto simp: own_def lo_def hi_def)

lemma own_prefix:
  assumes "chunk_geo (p, z)" "is_aligned nb" "16 \<le> unat nb" "unat nb + 16 \<le> unat z"
  shows "own (p, nb) \<subseteq> own (p, z)"
proof (rule own_sub)
  note j = chunk_geo_split [OF assms]
  show "hi (p, nb) \<le> hi (p, z)" using j(3,4) lo_hi(2) [OF j(2)] by simp
qed (simp add: lo_def)

text \<open>The chunk grows into the hole after it: all of it, or the first part.\<close>

lemma grown_own:
  assumes O: "open_heap w s U F D T H" and c: "(p, z) \<in> U" "(p + z, y) \<in> H" "own (p, z) \<inter> kept w = {}"
  shows "own (p, z + y) \<inter> kept w = {}" "own (p, z + y) \<subseteq> reach w \<union> own (p, z)" "(p, z + y) \<notin> U"
    "is_aligned nb \<Longrightarrow> 16 \<le> unat nb \<Longrightarrow> unat nb + 16 \<le> unat z + unat y
      \<Longrightarrow> own (p, nb) \<inter> kept w = {} \<and> own (p, nb) \<subseteq> reach w \<union> own (p, z)"
    "unat (z + y) = unat z + unat y"
proof -
  have cA: "(p, z) \<in> U \<union> F \<union> D \<union> T \<union> H" "(p + z, y) \<in> U \<union> F \<union> D \<union> T \<union> H" using c by blast+
  note cg = open_chunk [OF O cA(1)] open_chunk [OF O cA(2)]
  note j = chunk_geo_join [OF cg] and o = own_join [OF cg]
  show u: "unat (z + y) = unat z + unat y" by (rule j(4))
  have "own (p + z, y) \<inter> kept w = {}" using layoutD(8) [OF open_heapD(3) [OF O], of "(p + z, y)"] c(2) by simp
  then show k: "own (p, z + y) \<inter> kept w = {}" using o c(3) by blast
  show r: "own (p, z + y) \<subseteq> reach w \<union> own (p, z)" using o open_heapD(6) [OF O, of "(p + z, y)"] c(2) by blast
  show "(p, z + y) \<notin> U" using geo_fresh(2) [OF open_geo [OF O] cA] by blast
  show "own (p, nb) \<inter> kept w = {} \<and> own (p, nb) \<subseteq> reach w \<union> own (p, z)"
    if "is_aligned nb" "16 \<le> unat nb" "unat nb + 16 \<le> unat z + unat y"
    using own_prefix [OF j(1) that(1,2)] that(3) u k r by auto
qed

lemma grow_top_heap:
  assumes h: "heap s U F V K" and c: "(p, z) \<in> U" "own (p, z) \<inter> K = {}" and t: "p + z = topp s" "topp s \<noteq> 0"
    and n: "is_aligned nb" "unat z < unat nb" "nb < z + topsize s"
    and s': "s' = (set_head (set_inuse s p nb) (p + nb) ((z + topsize s - nb) OR PINUSE_BIT))
        \<lparr>topp := p + nb, topsize := z + topsize s - nb\<rparr>"
  shows "resized s U F V K p z nb (s', p)"
proof -
  define w where "w = heap_arena s V K (touched s U F V)"
  let ?y = "topsize s" let ?r = "z + ?y - nb"
  have O: "open_heap w s U F (dvset s) (topset s) {}" unfolding w_def by (rule heap_enter [OF h]) blast
  note V = heapD [OF h]
  have T: "topset s = {(p + z, ?y)}" using t by (simp add: topset_def)
  have O1: "open_heap w s U F (dvset s) {} {(p + z, ?y)}" using open_top_heap [OF O, of "(p + z, ?y)"] T by simp
  note G = grown_own [OF O1 c(1) singletonI]
  have ck: "own (p, z) \<inter> kept w = {}" using c(2) by (simp add: w_def)
  have cg: "chunk_geo (p, z)" "chunk_geo (p + z, ?y)" by (rule open_chunk [OF O1], use c in blast)+
  have "16 dvd unat nb" "16 dvd unat z" "16 dvd unat ?y" using n(1) cg by (simp_all add: chunk_geo_def is_aligned_iff)
  moreover have "unat nb < unat z + unat ?y" using n(3) G(5) [OF ck] by (simp add: word_less_nat_alt)
  moreover have z: "32 \<le> unat z" using size_large [OF O, of "(p, z)"] c(1) by simp
  ultimately have n': "unat z + 16 \<le> unat nb" "unat nb + 16 \<le> unat z + unat ?y" "16 \<le> unat nb" using n(2) by presburger+
  let ?s1 = "set_inuse s p nb"
  have gr: "open_heap w ?s1 (insert (p, nb) (U - {(p, z)})) F (dvset s) {} {(p + nb, ?r)}" and m1: "moves w s ?s1"
    using grow_heap [OF O1 c(1) singletonI n(1) n'(1,2)] by simp_all
  define s2 where "s2 = set_head ?s1 (p + nb) (?r OR PINUSE_BIT)"
  have fe: "p + nb + ?r = topp s + ?y" by (simp add: t(1) [symmetric] add.assoc)
  have "topp s + ?y \<in> ends w - fences w" using V(3) T unfolding t(1) by (simp add: w_def)
  then have "p + nb + ?r \<in> ends w - fences w" unfolding fe .
  from mark_top [OF gr singletonI this s2_def]
  have O2: "open_heap w s2 (insert (p, nb) (U - {(p, z)})) F (dvset s) {(p + nb, ?r)} {}" and m2: "moves w ?s1 s2"
    by simp_all
  let ?s3 = "s2\<lparr>topp := p + nb, topsize := ?r\<rparr>"
  have O3: "open_heap w ?s3 (insert (p, nb) (U - {(p, z)})) F (dvset s) {(p + nb, ?r)} {}"
    by (rule open_heap_fields [OF O2]) simp_all
  have r0: "p + nb \<noteq> 0" using open_chunk [OF gr, of "(p + nb, ?r)"] by (simp add: chunk_geo_def)
  have f: "dv s2 = dv s" "dvsize s2 = dvsize s" "topp s2 = topp s" "topsize s2 = topsize s"
    by (simp_all add: s2_def tag_writes_fields set_inuse_fields)
  have hp: "heap ?s3 (insert (p, nb) (U - {(p, z)})) F V K"
    by (rule heap_leave [OF O3 w_def]) (use V r0 t fe T in \<open>simp_all add: f dvset_def topset_def\<close>)
  have "moves w s2 ?s3"
    by (cases s2) (use fe f in \<open>simp add: moves_def rd_def\<close>)
  with m1 m2 have m: "moves w s ?s3" using moves_trans by blast
  have o: "own (p, nb) \<inter> K = {}" "own (p, nb) \<subseteq> touched s U F V \<union> own (p, z)"
    using G(4) [OF ck n(1) n'(3,2)] by (simp_all add: w_def)
  have "(p, nb) \<notin> U - {(p, z)}"
    using heap_inj(1) [OF O, of "(p, nb)" "(p, z)"] c(1) by auto
  then show ?thesis unfolding s' s2_def [symmetric]
    by (intro resized_grown [OF m [unfolded w_def] hp]) (use o in simp_all)
qed

lemma grow_dv_heap:
  assumes h: "heap s U F V K" and c: "(p, z) \<in> U" "own (p, z) \<inter> K = {}" and t: "p + z = dv s" "dv s \<noteq> 0"
    and n: "is_aligned nb" "unat z < unat nb"
  shows "unat nb + 32 \<le> unat z + unat (dvsize s) \<Longrightarrow>
      s' = (clear_pinuse (set_size_and_pinuse_of_free_chunk (set_inuse s p nb) (p + nb) (z + dvsize s - nb))
             (p + nb + (z + dvsize s - nb)))\<lparr>dvsize := z + dvsize s - nb, dv := p + nb\<rparr>
      \<Longrightarrow> resized s U F V K p z nb (s', p)"
    "unat nb \<le> unat z + unat (dvsize s) \<Longrightarrow> unat z + unat (dvsize s) < unat nb + 32 \<Longrightarrow>
      s'' = (set_inuse s p (z + dvsize s))\<lparr>dvsize := 0, dv := 0\<rparr> \<Longrightarrow> resized s U F V K p z nb (s'', p)"
    "unat (z + dvsize s) = unat z + unat (dvsize s)"
proof -
  define w where "w = heap_arena s V K (touched s U F V)"
  let ?y = "dvsize s" let ?r = "z + ?y - nb"
  have O: "open_heap w s U F (dvset s) (topset s) {}" unfolding w_def by (rule heap_enter [OF h]) blast
  note V = heapD [OF h]
  have D: "dvset s = {(p + z, ?y)}" using t by (simp add: dvset_def)
  have O1: "open_heap w s U F {} (topset s) {(p + z, ?y)}" using open_dv_heap [OF O, of "(p + z, ?y)"] D by simp
  note G = grown_own [OF O1 c(1) singletonI]
  have ck: "own (p, z) \<inter> kept w = {}" using c(2) by (simp add: w_def)
  have cg: "chunk_geo (p, z)" "chunk_geo (p + z, ?y)" by (rule open_chunk [OF O1], use c in blast)+
  show u: "unat (z + ?y) = unat z + unat ?y" by (rule G(5) [OF ck])
  have e: "ends w = fences w \<union> fin ` topset s" by (simp add: w_def)
  have nx: "p + (z + ?y) \<in> fst ` U \<union> fences w" "\<not> pinuse s (p + (z + ?y))"
    using free_next [OF O _ e, of "(p + z, ?y)"] D by (simp_all add: add.assoc)
  have ni: "(p, y) \<notin> U - {(p, z)}" for y
    using heap_inj(1) [OF O, of "(p, y)" "(p, z)"] c(1) by auto
  have fx: "p + (z + ?y) \<noteq> p"
    using chunk_geo_join(1) [OF cg] lo_hi(2,3) [OF chunk_geo_join(1) [OF cg]] by (auto simp: lo_def)
  show "resized s U F V K p z nb (s', p)" if b: "unat nb + 32 \<le> unat z + unat ?y"
      and s': "s' = (clear_pinuse (set_size_and_pinuse_of_free_chunk (set_inuse s p nb) (p + nb) ?r) (p + nb + ?r))\<lparr>dvsize := ?r, dv := p + nb\<rparr>"
  proof -
    have "16 dvd unat nb" "16 dvd unat z" using n(1) cg by (simp_all add: chunk_geo_def is_aligned_iff)
    moreover have z: "32 \<le> unat z" using size_large [OF O, of "(p, z)"] c(1) by simp
    ultimately have n': "unat z + 16 \<le> unat nb" "unat nb + 16 \<le> unat z + unat ?y" "16 \<le> unat nb" using n(2) b by presburger+
    let ?s1 = "set_inuse s p nb"
    have gr: "open_heap w ?s1 (insert (p, nb) (U - {(p, z)})) F {} (topset s) {(p + nb, ?r)}" and m1: "moves w s ?s1"
      using grow_heap [OF O1 c(1) singletonI n(1) n'(1,2)] by simp_all
    have jn: "chunk_geo (p, z + ?y)" "16 \<le> unat nb" "unat nb + 16 \<le> unat (z + ?y)"
      using chunk_geo_join(1) [OF cg] n' u by simp_all
    note j = chunk_geo_split [OF jn(1) n(1) jn(2,3)]
    have ne: "p + nb \<noteq> p" using unat_in_chunk [OF jn(1), of nb] jn by auto
    have fe: "p + nb + ?r = p + (z + ?y)" by simp
    have ie: "p + nb \<noteq> p + (z + ?y)" using lo_hi(2,3) [OF j(2)] by (auto simp: lo_def fe)
    have nx1: "p + nb + ?r \<in> fst ` insert (p, nb) (U - {(p, z)}) \<union> fences w"
      using nx(1) unfolding fe by auto
    have np: "\<not> pinuse ?s1 (p + nb + ?r)"
      unfolding fe using nx(2) fx ie by (simp add: pinuse_def set_inuse_head(2) [OF ne])
    define s2 where "s2 = set_size_and_pinuse_of_free_chunk ?s1 (p + nb) ?r"
    have r32: "32 \<le> unat ?r" using j(5) b u by simp
    from mark_free [OF gr singletonI r32 nx1 np s2_def]
    have O2: "open_heap w s2 (insert (p, nb) (U - {(p, z)})) F {(p + nb, ?r)} (topset s) {}" and m2: "moves w ?s1 s2"
      by simp_all
    have pc: "\<not> pinuse s2 (p + nb + ?r)"
      using free_next(2) [OF O2 _ e, of "(p + nb, ?r)"] by simp
    have same: "clear_pinuse s2 (p + nb + ?r) = s2"
      unfolding clear_pinuse_def clear_one_id [OF pc [unfolded pinuse_def]] by (rule rd_set_head_same)
    let ?s3 = "s2\<lparr>dvsize := ?r, dv := p + nb\<rparr>"
    have O3: "open_heap w ?s3 (insert (p, nb) (U - {(p, z)})) F {(p + nb, ?r)} (topset s) {}"
      by (rule open_heap_fields [OF O2]) simp_all
    have r0: "p + nb \<noteq> 0" using j(2) by (simp add: chunk_geo_def)
    have f: "topp s2 = topp s" "topsize s2 = topsize s" by (simp_all add: s2_def tag_writes_fields set_inuse_fields)
    have hp: "heap ?s3 (insert (p, nb) (U - {(p, z)})) F V K"
      by (rule heap_leave [OF O3 w_def]) (use V r0 in \<open>simp_all add: f dvset_def topset_def\<close>)
    have m: "moves w s ?s3" using moves_trans [OF moves_trans [OF m1 m2] moves_set(2)] .
    have o: "own (p, nb) \<inter> K = {}" "own (p, nb) \<subseteq> touched s U F V \<union> own (p, z)"
      using G(4) [OF ck n(1) n'(3,2)] by (simp_all add: w_def)
    have "s' = ?s3" unfolding s' s2_def [symmetric] same ..
    then show ?thesis
      using resized_grown [OF m [unfolded w_def] hp _ _ o ni] by simp
  qed
  show "resized s U F V K p z nb (s'', p)" if b: "unat nb \<le> unat z + unat ?y" "unat z + unat ?y < unat nb + 32"
      and s'': "s'' = (set_inuse s p (z + ?y))\<lparr>dvsize := 0, dv := 0\<rparr>"
  proof -
    let ?s1 = "set_inuse s p (z + ?y)" and ?U = "insert (p, z + ?y) (U - {(p, z)})"
    from swallow_heap [OF O1 c(1) singletonI disjI1 [OF nx(1)]]
    have O2: "open_heap w ?s1 ?U F {} (topset s) {}" and m1: "moves w s ?s1" by simp_all
    have O3: "open_heap w s'' ?U F {} (topset s) {}"
      by (rule open_heap_fields [OF O2]) (simp_all add: s'')
    have hp: "heap s'' ?U F V K"
      by (rule heap_leave [OF O3 w_def]) (use V in \<open>simp_all add: s'' dvset_def topset_def set_inuse_fields\<close>)
    have m: "moves w s s''" unfolding s'' by (rule moves_trans [OF m1 moves_set(2)])
    have o: "own (p, z + ?y) \<inter> K = {}" "own (p, z + ?y) \<subseteq> touched s U F V \<union> own (p, z)"
      using G(1,2) [OF ck] by (simp_all add: w_def)
    have "nb \<le> z + ?y" using b(1) u by (simp add: word_le_nat_alt)
    then show ?thesis using resized_grown [OF m [unfolded w_def] hp _ _ o ni] b(2) u by simp
  qed
qed

lemma grow_next_heap:
  assumes h: "heap s U F V K" and c: "(p, z) \<in> U" "own (p, z) \<inter> K = {}" and t: "(p + z, y) \<in> F"
    and n: "is_aligned nb" "unat z < unat nb"
  shows "\<exists>s1. unlink_chunk s (p + z) y = Inr s1
    \<and> (unat nb + 32 \<le> unat z + unat y \<longrightarrow>
        (\<exists>s'. dispose_chunk E (set_inuse (set_inuse s1 p nb) (p + nb) (z + y - nb)) (p + nb) (z + y - nb) = Inr s'
          \<and> resized s U F V K p z nb (s', p)))
    \<and> (unat nb \<le> unat z + unat y \<longrightarrow> unat z + unat y < unat nb + 32 \<longrightarrow>
        resized s U F V K p z nb (set_inuse s1 p (z + y), p))"
    "unat (z + y) = unat z + unat y"
proof -
  define w where "w = heap_arena s V K (touched s U F V)"
  let ?r = "z + y - nb"
  have O: "open_heap w s U F (dvset s) (topset s) {}" unfolding w_def by (rule heap_enter [OF h]) blast
  note V = heapD [OF h]
  from unlink_open [OF O t] obtain s1 where s1: "unlink_chunk s (p + z) y = Inr s1"
    and O1: "open_heap w s1 U (F - {(p + z, y)}) (dvset s) (topset s) {(p + z, y)}"
    and cb: "changes_bins (reach w) s s1"
    and hd: "\<forall>q\<in>fst ` (U \<union> F \<union> dvset s \<union> topset s \<union> {}) \<union> fences w. same_head s s1 q" by auto
  note B = bins_sets [OF cb]
  note G = grown_own [OF O1 c(1) singletonI]
  have ck: "own (p, z) \<inter> kept w = {}" using c(2) by (simp add: w_def)
  have cg: "chunk_geo (p, z)" "chunk_geo (p + z, y)" by (rule open_chunk [OF O1], use c in blast)+
  show u: "unat (z + y) = unat z + unat y" by (rule G(5) [OF ck])
  have e: "ends w = fences w \<union> fin ` topset s" by (simp add: w_def)
  have nx: "p + (z + y) \<in> fst ` U \<union> fences w"
    using free_next(1) [OF O _ e, of "(p + z, y)"] t by (simp add: add.assoc)
  have ni: "(p, x) \<notin> U - {(p, z)}" for x
    using heap_inj(1) [OF O, of "(p, x)" "(p, z)"] c(1) by auto
  have m0: "moves w s s1" by (rule moves_bins [OF cb]) simp
  have zf: "zero_fields s1" "dvset s1 = dvset s" "topset s1 = topset s" using B V by (simp_all add: zero_fields_def)
  have 1: "\<exists>s'. dispose_chunk E (set_inuse (set_inuse s1 p nb) (p + nb) ?r) (p + nb) ?r = Inr s'
      \<and> resized s U F V K p z nb (s', p)" if b: "unat nb + 32 \<le> unat z + unat y"
  proof -
    have "16 dvd unat nb" "16 dvd unat z" using n(1) cg by (simp_all add: chunk_geo_def is_aligned_iff)
    moreover have z: "32 \<le> unat z" using size_large [OF O, of "(p, z)"] c(1) by simp
    ultimately have n': "unat z + 16 \<le> unat nb" "unat nb + 16 \<le> unat z + unat y" "16 \<le> unat nb" using n(2) b by presburger+
    let ?s2 = "set_inuse s1 p nb" and ?U = "insert (p, nb) (U - {(p, z)})"
    from grow_heap [OF O1 c(1) singletonI n(1) n'(1,2)]
    have gr: "open_heap w ?s2 ?U (F - {(p + z, y)}) (dvset s) (topset s) {(p + nb, ?r)}"
      and m1: "moves w s1 ?s2" and pin: "pinuse ?s2 (p + nb)" by (simp_all add: pinuse_def)
    have jn: "chunk_geo (p, z + y)" "16 \<le> unat nb" "unat nb + 16 \<le> unat (z + y)"
      using chunk_geo_join(1) [OF cg] n' u by simp_all
    note j = chunk_geo_split [OF jn(1) n(1) jn(2,3)]
    have fe: "p + nb + ?r = p + (z + y)" by simp
    have nx1: "p + nb + ?r \<in> fst ` ?U \<union> fences w" using nx unfolding fe by auto
    have r32: "32 \<le> unat ?r" using j(5) b u by simp
    let ?s3 = "set_inuse ?s2 (p + nb) ?r"
    from mark_rest [OF gr r32 pin disjI2 [OF nx1]]
    have O3: "open_heap w ?s3 (insert (p + nb, ?r) ?U) (F - {(p + z, y)}) (dvset ?s3) (topset ?s3) {}" and m2: "moves w ?s2 ?s3"
      using zf by (simp_all add: set_inuse_sets)
    have nU: "(p + nb, ?r) \<notin> ?U" using heap_disjoint(1) [OF gr] by blast
    have or: "own (p + nb, ?r) \<inter> K = {}" "own (p + nb, ?r) \<subseteq> touched s U F V"
      using layoutD(8) [OF open_heapD(3) [OF gr], of "(p + nb, ?r)"] open_heapD(6) [OF gr, of "(p + nb, ?r)"] by (simp_all add: w_def)
    have tp: "fin ` topset ?s3 = fin ` topset s" "zero_fields ?s3" using zf by (simp_all add: set_inuse_sets)
    have "insert (p + nb, ?r) ?U - {(p + nb, ?r)} = ?U" using nU by blast
    then obtain s' F' where
      s': "dispose_chunk E ?s3 (p + nb) ?r = Inr s'" "heap s' ?U F' V K" and m3: "moves w ?s3 s'"
      using dispose_open [OF O3 w_def tp V(3) insertI1 or, of E] by metis
    have m: "moves w s s'" by (rule moves_trans [OF moves_trans [OF moves_trans [OF m0 m1] m2] m3])
    have o: "own (p, nb) \<inter> K = {}" "own (p, nb) \<subseteq> touched s U F V \<union> own (p, z)"
      using G(4) [OF ck n(1) n'(3,2)] by (simp_all add: w_def)
    show ?thesis using resized_grown [OF m [unfolded w_def] s'(2) _ _ o ni] s'(1) by auto
  qed
  have 2: "resized s U F V K p z nb (set_inuse s1 p (z + y), p)"
    if b: "unat nb \<le> unat z + unat y" "unat z + unat y < unat nb + 32"
  proof -
    let ?s2 = "set_inuse s1 p (z + y)" and ?U = "insert (p, z + y) (U - {(p, z)})"
    from swallow_heap [OF O1 c(1) singletonI disjI1 [OF nx]]
    have O2: "open_heap w ?s2 ?U (F - {(p + z, y)}) (dvset s) (topset s) {}" and m1: "moves w s1 ?s2" by simp_all
    have hp: "heap ?s2 ?U (F - {(p + z, y)}) V K"
      by (rule heap_leave [OF O2 w_def]) (use V zf B in \<open>simp_all add: set_inuse_sets set_inuse_fields\<close>)
    have m: "moves w s ?s2" by (rule moves_trans [OF m0 m1])
    have o: "own (p, z + y) \<inter> K = {}" "own (p, z + y) \<subseteq> touched s U F V \<union> own (p, z)"
      using G(1,2) [OF ck] by (simp_all add: w_def)
    have "nb \<le> z + y" using b(1) u by (simp add: word_le_nat_alt)
    then show ?thesis using resized_grown [OF m [unfolded w_def] hp _ _ o ni] b(2) u by simp
  qed
  show "\<exists>s1. unlink_chunk s (p + z) y = Inr s1
    \<and> (unat nb + 32 \<le> unat z + unat y \<longrightarrow>
        (\<exists>s'. dispose_chunk E (set_inuse (set_inuse s1 p nb) (p + nb) (z + y - nb)) (p + nb) (z + y - nb) = Inr s'
          \<and> resized s U F V K p z nb (s', p)))
    \<and> (unat nb \<le> unat z + unat y \<longrightarrow> unat z + unat y < unat nb + 32 \<longrightarrow>
        resized s U F V K p z nb (set_inuse s1 p (z + y), p))"
    using s1 1 2 by blast
qed

text \<open>
  \<open>try_realloc_chunk\<close> of a chunk in use passes the runtime checks and returns: 0 with nothing
  changed if the chunk cannot grow in place, else the chunk, with its new size, in its old place.
\<close>

lemma try_realloc_heap:
  assumes h: "heap s U F V K" and c: "(p, z) \<in> U" "own (p, z) \<inter> K = {}" and n: "is_aligned nb" "32 \<le> unat nb"
  shows "\<exists>r. try_realloc_chunk E s p nb cm = Inr r \<and> resized s U F V K p z nb r"
proof -
  have O: "open_heap (heap_arena s V K UNIV) s U F (dvset s) (topset s) {}" by (rule heap_enter [OF h]) blast
  have cA: "(p, z) \<in> U \<union> F \<union> dvset s \<union> topset s \<union> {}" using c by blast
  have cg: "chunk_geo (p, z)" by (rule open_chunk [OF O cA])
  have t: "chunksize s p = z" "cinuse s p" using tags_heap(1,2) [OF O, of "(p, z)"] c(1) by simp_all
  have cw: "is_inuse s p" "\<not> is_mmapped s p" using cinuse_words [OF t(2)] by simp_all
  have ok: "ok_address s p" using open_heapD(8) [OF O UnI1 [OF imageI [OF cA]]] by simp
  have N: "p + z \<in> fst ` (U \<union> F \<union> dvset s \<union> topset s) \<union> V" "pinuse s (p + z)"
    using used_next [OF O c(1)] by simp_all
  have z32: "32 \<le> unat z" using size_large [OF O, of "(p, z)"] c(1) by simp
  have okn: "ok_next p (p + z)" by (rule next_in_chunk [OF cg z32]) simp
  have pz: "p + z \<noteq> 0"
    using unat_in_chunk [OF cg, of z] z32 by (auto simp: unat_eq_zero)
  let ?R = "\<lambda>x. \<exists>r. x = Inr r \<and> resized s U F V K p z nb r"
  have start: "try_realloc_chunk E s p nb cm =
     (if nb \<le> z then if MIN_CHUNK_SIZE \<le> z - nb
        then bindR (dispose_chunk E (set_inuse (set_inuse s p nb) (p + nb) (z - nb)) (p + nb) (z - nb)) (\<lambda>s. Inr (s, p))
        else Inr (s, p)
      else if p + z = topp s then if nb < z + topsize s
        then Inr ((set_head (set_inuse s p nb) (p + nb) ((z + topsize s - nb) OR PINUSE_BIT))\<lparr>topp := p + nb, topsize := z + topsize s - nb\<rparr>, p)
        else Inr (s, 0)
      else if p + z = dv s then if nb \<le> z + dvsize s
        then if MIN_CHUNK_SIZE \<le> z + dvsize s - nb
          then Inr ((clear_pinuse (set_size_and_pinuse_of_free_chunk (set_inuse s p nb) (p + nb) (z + dvsize s - nb))
             (p + nb + (z + dvsize s - nb)))\<lparr>dvsize := z + dvsize s - nb, dv := p + nb\<rparr>, p)
          else Inr ((set_inuse s p (z + dvsize s))\<lparr>dvsize := 0, dv := 0\<rparr>, p)
        else Inr (s, 0)
      else if \<not> cinuse s (p + z) then if nb \<le> z + chunksize s (p + z)
        then bindR (unlink_chunk s (p + z) (chunksize s (p + z))) (\<lambda>s1.
            if z + chunksize s (p + z) - nb < MIN_CHUNK_SIZE then Inr (set_inuse s1 p (z + chunksize s (p + z)), p)
            else bindR (dispose_chunk E (set_inuse (set_inuse s1 p nb) (p + nb) (z + chunksize s (p + z) - nb))
                (p + nb) (z + chunksize s (p + z) - nb)) (\<lambda>s. Inr (s, p)))
        else Inr (s, 0)
      else Inr (s, 0))"
    using ok okn cw N(2) by (simp add: try_realloc_chunk_def t Let_def chunk_plus_offset_def ok_inuse_def ok_pinuse_def cong: if_cong)
  have same: "resized s U F V K p z nb (s, p)" if a: "nb \<le> z" "unat z < unat nb + 32"
  proof -
    have o: "own (p, z) \<subseteq> touched s U F V \<union> own (p, z)" and i: "insert (p, z) (U - {(p, z)}) = U" using c(1) by blast+
    then have "heap s (insert (p, z) (U - {(p, z)})) F V K" using h by simp
    then show ?thesis unfolding resized_def using a c(2) o moves_refl by (intro disjI2 conjI exI [of _ z] exI [of _ F]) auto
  qed
  have fail: "resized s U F V K p z nb (s, 0)" if "\<not> nb \<le> z" using that by (simp add: resized_def not_le)
  show ?thesis
  proof (cases "nb \<le> z")
    case True
    then have uz: "unat (z - nb) = unat z - unat nb" "unat nb \<le> unat z" by (simp_all add: unat_sub word_le_nat_alt)
    show ?thesis
    proof (cases "unat nb + 32 \<le> unat z")
      case b: True
      then have "MIN_CHUNK_SIZE \<le> z - nb" using uz by (simp add: dl_consts word_le_nat_alt)
      then show ?thesis using shrink_heap [OF h c n b, of E] True by (auto simp: start)
    next
      case b: False
      then have "\<not> MIN_CHUNK_SIZE \<le> z - nb" using uz by (simp add: dl_consts word_le_nat_alt)
      then show ?thesis using same True b by (auto simp: start)
    qed
  next
    case nz: False
    then have lt: "unat z < unat nb" by (simp add: word_le_nat_alt)
    show ?thesis
    proof (cases "p + z = topp s")
      case True
      show ?thesis
        using grow_top_heap [OF h c True _ n(1) lt _ refl] True pz nz fail by (auto simp: start)
    next
      case nt: False
      show ?thesis
      proof (cases "p + z = dv s")
        case True
        have dv0: "dv s \<noteq> 0" using True pz by simp
        note G = grow_dv_heap [OF h c True dv0 n(1) lt]
        show ?thesis
        proof (cases "nb \<le> z + dvsize s")
          case le: True
          then have uy: "unat (z + dvsize s - nb) = unat z + unat (dvsize s) - unat nb" "unat nb \<le> unat z + unat (dvsize s)"
            using G(3) by (simp_all add: unat_sub word_le_nat_alt)
          show ?thesis
          proof (cases "unat nb + 32 \<le> unat z + unat (dvsize s)")
            case b: True
            then have "MIN_CHUNK_SIZE \<le> z + dvsize s - nb" using uy by (simp add: dl_consts word_le_nat_alt)
            then show ?thesis using G(1) [OF b refl] True nt nz le by (simp only: start if_True if_False simp_thms) blast
          next
            case b: False
            then have "\<not> MIN_CHUNK_SIZE \<le> z + dvsize s - nb" using uy by (simp add: dl_consts word_le_nat_alt)
            moreover have "unat z + unat (dvsize s) < unat nb + 32" using b by simp
            ultimately show ?thesis
              using G(2) [OF uy(2) _ refl] True nt nz le by (simp only: start if_True if_False simp_thms) blast
          qed
        qed (use True nt nz fail in \<open>simp add: start\<close>)
      next
        case nd: False
        show ?thesis
        proof (cases "cinuse s (p + z)")
          case False
          have "p + z \<notin> fst ` U" "p + z \<notin> V" using False tags_heap(2,4) [OF O] by auto
          moreover have "p + z \<notin> fst ` dvset s" "p + z \<notin> fst ` topset s" using nt nd by (auto simp: dvset_def topset_def)
          ultimately have "p + z \<in> fst ` F" using N(1) by (simp only: image_Un Un_iff) blast
          then obtain y where y: "(p + z, y) \<in> F" by auto
          have cy: "chunksize s (p + z) = y" using tags_heap(1) [OF O, of "(p + z, y)"] y by simp
          note G = grow_next_heap(1) [OF h c y n(1) lt, of E] and G2 = grow_next_heap(2) [OF h c y n(1) lt]
          show ?thesis
          proof (cases "nb \<le> z + y")
            case le: True
            then have uy: "unat (z + y - nb) = unat z + unat y - unat nb" "unat nb \<le> unat z + unat y"
              using G2 by (simp_all add: unat_sub word_le_nat_alt)
            obtain s1 where s1: "unlink_chunk s (p + z) y = Inr s1"
              and b1: "unat nb + 32 \<le> unat z + unat y \<longrightarrow>
                (\<exists>s'. dispose_chunk E (set_inuse (set_inuse s1 p nb) (p + nb) (z + y - nb)) (p + nb) (z + y - nb) = Inr s'
                  \<and> resized s U F V K p z nb (s', p))"
              and b2: "unat z + unat y < unat nb + 32 \<longrightarrow> resized s U F V K p z nb (set_inuse s1 p (z + y), p)"
              using G uy(2) by blast
            show ?thesis
            proof (cases "unat nb + 32 \<le> unat z + unat y")
              case b: True
              then have "\<not> z + y - nb < MIN_CHUNK_SIZE" using uy by (simp add: dl_consts word_less_nat_alt)
              then show ?thesis using b1 b s1 nt nd nz False le by (auto simp: start cy)
            next
              case b: False
              then have "z + y - nb < MIN_CHUNK_SIZE" using uy by (simp add: dl_consts word_less_nat_alt)
              then show ?thesis using b2 b s1 nt nd nz False le by (auto simp: start cy)
            qed
          qed (use False nt nd nz fail cy in \<open>simp add: start\<close>)
        qed (use nt nd nz fail in \<open>simp add: start\<close>)
      qed
    qed
  qed
qed

end
