(* ===== verification/DL_AlignProps.thy ===== *)
theory DL_AlignProps
  imports DL_ReallocProps DL_SbrkProps
begin

text \<open>
  Aligned allocation in src/src/dlmalloc.c (\<open>internal_memalign\<close>): the alignment that is used, the
  aligned spot in a chunk, and what is given back before and after it.
\<close>

section \<open>The alignment that is used\<close>

lemma pow2_word:
  fixes x :: "64 word"
  assumes "x AND (x - 1) = 0" "x \<noteq> 0"
  shows "\<exists>k<64. x = 2 ^ k"
proof -
  obtain k where k: "2 ^ k \<le> unat x" "unat x < 2 ^ (k + 1)"
    using ex_power_ivl1 [of 2 "unat x"] assms(2) by (auto simp: unat_gt_0 Suc_le_eq)
  have kl: "k < 64"
  proof (rule ccontr)
    assume "\<not> k < 64"
    then have "(2 :: nat) ^ 64 \<le> 2 ^ k" by (intro power_increasing) simp_all
    then show False using k(1) unsigned_less [of x, where 'a = nat] by simp
  qed
  have "unat x = 2 ^ k"
  proof (rule ccontr)
    assume "unat x \<noteq> 2 ^ k"
    then have l: "2 ^ k < unat x" using k(1) by simp
    have u: "unat (x - 1) = unat x - 1" using assms(2) by (simp add: unat_minus_one)
    have "unat x div 2 ^ k = 1" "unat (x - 1) div 2 ^ k = 1"
      using k l by (auto simp: u intro!: div_nat_eqI)
    then have "bit (unat x) k" "bit (unat (x - 1)) k" by (simp_all add: bit_iff_odd)
    then have "bit (x AND (x - 1)) k" using kl by (simp add: bit_unsigned_iff bit_and_iff)
    then show False using assms(1) by simp
  qed
  then have "x = 2 ^ k" using kl by (simp add: word_unat_eq_iff unat_exp)
  then show ?thesis using kl by blast
qed
text \<open>The loop finds the least power of two, if there is one below \<open>2 ^ 64\<close>; else it never ends.\<close>

lemma align_loop_least:
  assumes "unat alignment \<le> 2 ^ 63" "5 \<le> j" "j < 64" "j = 5 \<or> 2 ^ (j - 1) < unat alignment"
  shows "\<exists>k. j \<le> k \<and> k < 64 \<and> align_loop alignment (2 ^ j) = Some (Inr (2 ^ k)) \<and> unat alignment \<le> 2 ^ k
    \<and> (k = 5 \<or> 2 ^ (k - 1) < unat alignment)"
  using assms
proof (induction "63 - j" arbitrary: j)
  case 0
  then have j: "j = 63" by simp
  have "unat (2 ^ 63 :: size_t) = 2 ^ 63" by (rule unat_exp) simp
  then have "\<not> 2 ^ j < alignment" using 0(2) by (simp only: j word_less_nat_alt not_less)
  then have "align_loop alignment (2 ^ j) = Some (Inr (2 ^ j))" using align_loop.simps [of alignment "2 ^ j"] by (simp only: if_False)
  then show ?case using 0(2-) j by (intro exI [of _ j] conjI) simp_all
next
  case (Suc n)
  have u: "unat (2 ^ j :: size_t) = 2 ^ j" by (rule unat_exp) (use Suc(5) in simp)
  show ?case
  proof (cases "2 ^ j < alignment")
    case False
    then have "unat alignment \<le> 2 ^ j" unfolding word_less_nat_alt u by simp
    then show ?thesis using Suc False by (intro exI [of _ j]) (simp add: align_loop.simps [of alignment "2 ^ j"])
  next
    case True
    then have lt: "2 ^ (Suc j - 1) < unat alignment" unfolding word_less_nat_alt u by simp
    have j: "Suc j < 64" "n = 63 - Suc j" using Suc(2) by simp_all
    have "align_loop alignment (2 ^ j) = align_loop alignment (2 ^ Suc j)"
      using True by (simp add: align_loop.simps [of alignment "2 ^ j"] push_bit_eq_mult mult.commute)
    moreover from Suc(1) [OF j(2) Suc(3) _ j(1) disjI2 [OF lt]] Suc(4) obtain k where
      "Suc j \<le> k" "k < 64" "align_loop alignment (2 ^ Suc j) = Some (Inr (2 ^ k))" "unat alignment \<le> 2 ^ k"
      "k = 5 \<or> 2 ^ (k - 1) < unat alignment" by auto
    ultimately show ?thesis by (intro exI [of _ k]) simp
  qed
qed

lemma align_loop_diverges: "alignment \<noteq> 0 \<Longrightarrow> align_loop alignment 0 = None"
proof (rule ccontr)
  assume a: "alignment \<noteq> 0" "align_loop alignment 0 \<noteq> None"
  then obtain r where "align_loop alignment 0 = Some r" by auto
  then have "(0 :: size_t) = 0 \<longrightarrow> alignment = 0"
    by (rule align_loop.raw_induct [rotated, where P = "\<lambda>x a r. a = 0 \<longrightarrow> x = 0"])
      (auto split: if_splits simp: word_gt_0)
  then show False using a by simp
qed

lemma memalign_alignment_power:
  assumes "unat alignment \<le> 2 ^ 63"
  shows "\<exists>k. 5 \<le> k \<and> k < 64 \<and> memalign_alignment alignment = Inr (2 ^ k) \<and> unat alignment \<le> 2 ^ k
    \<and> (k = 5 \<or> 2 ^ (k - 1) < unat alignment)"
proof -
  define a where "a = (if alignment < 32 then 32 else alignment)"
  have a: "32 \<le> unat a" "unat a \<le> 2 ^ 63" "unat alignment \<le> unat a" "unat a = 32 \<or> a = alignment"
    using assms by (auto simp: a_def word_less_nat_alt)
  have m: "memalign_alignment alignment = (if a AND (a - 1) \<noteq> 0 then run_loop (align_loop a (2 ^ 5)) else Inr a)"
    by (simp add: memalign_alignment_def a_def Let_def dl_consts)
  show ?thesis
  proof (cases "a AND (a - 1) = 0")
    case True
    have "a \<noteq> 0" using a(1) by auto
    then obtain k where k: "k < 64" "a = 2 ^ k" using pow2_word [OF True] by blast
    then have u: "unat a = 2 ^ k" by (simp add: unat_exp)
    have "\<not> k < 5"
    proof
      assume "k < 5"
      then have "(2 :: nat) ^ k \<le> 2 ^ 4" by (intro power_increasing) simp_all
      then show False using a(1) u by simp
    qed
    moreover have "k = 5 \<or> 2 ^ (k - 1) < unat alignment"
    proof (cases "unat a = 32")
      case True
      then have "(2 :: nat) ^ k = 2 ^ 5" using u by simp
      then have "k = 5" by (subst (asm) power_inject_exp) simp_all
      then show ?thesis by simp
    next
      case False
      then have "unat alignment = 2 ^ k" using a(4) u by auto
      moreover have "0 < k" using \<open>\<not> k < 5\<close> by simp
      ultimately show ?thesis by (simp add: power_strict_increasing)
    qed
    ultimately show ?thesis using True k a u by (intro exI [of _ k]) (auto simp: m)
  next
    case False
    from align_loop_least [OF a(2), of 5] obtain k where k: "5 \<le> k" "k < 64" "align_loop a (2 ^ 5) = Some (Inr (2 ^ k))"
      "unat a \<le> 2 ^ k" "k = 5 \<or> 2 ^ (k - 1) < unat a" by auto
    moreover have "a = alignment"
    proof (rule ccontr)
      assume "a \<noteq> alignment"
      then have "unat a = unat (32 :: size_t)" using a(4) by simp
      then have "a = 32" by (simp only: word_unat_eq_iff)
      then show False using False by simp
    qed
    ultimately show ?thesis using False a by (intro exI [of _ k]) (simp add: m)
  qed
qed

lemma align_loop_doubles:
  assumes "2 ^ 63 < unat alignment" "n \<le> 63 - j" "j \<le> 63"
  shows "align_loop alignment (2 ^ j) = align_loop alignment (2 ^ (j + n))"
  using assms(2)
proof (induction n)
  case (Suc n)
  have "unat (2 ^ (j + n) :: size_t) = 2 ^ (j + n)" by (rule unat_exp) (use Suc(2) assms(3) in simp)
  moreover have "(2 :: nat) ^ (j + n) \<le> 2 ^ 63" by (rule power_increasing) (use Suc(2) in simp_all)
  ultimately have "2 ^ (j + n) < alignment" using assms(1) by (simp add: word_less_nat_alt)
  then show ?case using Suc by (simp add: align_loop.simps [of alignment "2 ^ (j + n)"] push_bit_eq_mult mult.commute)
qed simp

lemma memalign_alignment_diverges:
  assumes "2 ^ 63 < unat alignment"
  shows "memalign_alignment alignment = Inl Diverges"
proof -
  have u: "unat (2 ^ 63 :: size_t) = 2 ^ 63" by (rule unat_exp) simp
  have lt: "2 ^ 63 < alignment" using assms unfolding word_less_nat_alt u .
  have "\<not> alignment < MIN_CHUNK_SIZE" using assms by (simp add: word_less_nat_alt dl_consts)
  moreover have "alignment AND (alignment - 1) \<noteq> 0"
  proof
    assume "alignment AND (alignment - 1) = 0"
    moreover have "alignment \<noteq> 0" using assms by auto
    ultimately obtain k where k: "k < 64" "alignment = 2 ^ k" using pow2_word by blast
    then have "unat alignment = 2 ^ k" by (simp add: unat_exp)
    moreover have "(2 :: nat) ^ k \<le> 2 ^ 63" by (rule power_increasing) (use k(1) in simp_all)
    ultimately show False using assms by simp
  qed
  moreover have "align_loop alignment (2 ^ 5) = None"
  proof -
    have "align_loop alignment (2 ^ 5) = align_loop alignment (2 ^ (5 + 58))" by (rule align_loop_doubles [OF assms]) simp_all
    also have "\<dots> = align_loop alignment 0"
    proof -
      have "push_bit 1 (2 ^ 63 :: size_t) = 0" by code_simp
      then show ?thesis using lt align_loop.simps [of alignment "2 ^ 63"] by (simp only: if_True numeral_eq_Suc) simp
    qed
    also have "\<dots> = None" by (rule align_loop_diverges) (use assms in auto)
    finally show ?thesis .
  qed
  ultimately show ?thesis by (simp add: memalign_alignment_def Let_def dl_consts)
qed

section \<open>The aligned spot\<close>

lemma not_mask_eq: "(- (2 ^ k) :: 'a::len word) = NOT (mask k)"
  by (simp add: mask_eq_exp_minus_1 not_eq_complement)

lemma unat_and_mask_zero: "(x AND (2 ^ k - 1) :: 'a::len word) = 0 \<longleftrightarrow> unat x mod 2 ^ k = 0"
proof -
  have "unat (x AND mask k) = unat x mod 2 ^ k" by (rule unat_and_mask)
  then show ?thesis by (simp add: mask_eq_exp_minus_1 flip: unat_0_iff)
qed

lemma up_to_multiple:
  assumes "(n :: nat) mod A \<noteq> 0" and A: "0 < A"
  shows "n + (A - 1) - (n + (A - 1)) mod A = n + (A - n mod A)"
proof -
  let ?r = "n mod A" and ?q = "n div A"
  have n: "n = ?q * A + ?r" by simp
  have r: "0 < ?r" "?r < A" using assms A by simp_all
  have q: "(?q + 1) * A = ?q * A + A" by simp
  have e: "n + (A - 1) = (?q + 1) * A + (?r - 1)" using n r unfolding q by linarith
  have "(n + (A - 1)) mod A = ?r - 1" unfolding e using r by (simp only: mod_mult_self3) simp
  then show ?thesis using e n r unfolding q by linarith
qed

lemma aligned_spot_facts:
  assumes k: "5 \<le> k" "k < 40" and p: "is_aligned p" "unat p + 2 ^ k + 64 \<le> 2 ^ 64"
    and m: "chunk2mem p AND (2 ^ k - 1) \<noteq> 0"
  shows "unat (aligned_spot p (2 ^ k)) = unat p + unat (aligned_spot p (2 ^ k) - p)"
    "16 dvd unat (aligned_spot p (2 ^ k) - p)" "32 \<le> unat (aligned_spot p (2 ^ k) - p)"
    "unat (aligned_spot p (2 ^ k) - p) \<le> 2 ^ k + 16" "chunk2mem (aligned_spot p (2 ^ k)) AND (2 ^ k - 1) = 0"
proof -
  let ?A = "2 ^ k :: nat" and ?n = "unat p + 16"
  have k64: "k < LENGTH(64)" using k by simp
  have um: "unat (chunk2mem p) = ?n" using p by (simp add: chunk2mem_def dl_consts unat_add_lem [THEN iffD1])
  have uA: "unat (2 ^ k :: size_t) = ?A" by (rule unat_exp [OF k64])
  have d16: "16 dvd ?A" using le_imp_power_dvd [of 4 k "2 :: nat"] k by simp
  have n16: "16 dvd ?n" using p(1) by (simp add: is_aligned_iff)
  have R: "?n mod ?A \<noteq> 0" using m unfolding unat_and_mask_zero um .
  define d where "d = ?A - ?n mod ?A"
  have dd: "16 dvd d" "0 < d" "d < ?A" using R d16 n16 by (auto simp: d_def intro!: dvd_diff_nat dvd_mod)
  then have d1: "16 \<le> d" using dvd_imp_le by blast
  have ov: "?n + (?A - 1) < 2 ^ 64" using p(2) by simp
  have uM: "unat ((chunk2mem p + mask k) AND NOT (mask k)) = ?n + d"
    using unat_round_up [of k "chunk2mem p"] ov k64 up_to_multiple [OF R] by (simp add: um d_def)
  have e: "chunk2mem p + 2 ^ k - 1 = chunk2mem p + mask k" by (simp add: mask_eq_exp_minus_1)
  define M where "M = (chunk2mem p + mask k) AND NOT (mask k)"
  have ub: "unat (mem2chunk M) = unat p + d"
  proof -
    have "(16 :: size_t) \<le> M" by (simp add: M_def uM word_le_nat_alt)
    then have "unat (M - 16) = unat M - 16" by (simp add: unat_sub)
    then show ?thesis by (simp add: mem2chunk_def dl_consts M_def uM)
  qed
  then have ubp: "unat (mem2chunk M - p) = d" by (subst unat_sub) (simp_all add: word_le_nat_alt)
  have sp: "aligned_spot p (2 ^ k) = (if 32 \<le> d then mem2chunk M else mem2chunk M + 2 ^ k)"
    by (simp add: aligned_spot_def Let_def e not_mask_eq M_def [symmetric] dl_consts word_le_nat_alt ubp)
  have q: "unat (aligned_spot p (2 ^ k)) = unat p + (if 32 \<le> d then d else d + ?A)"
  proof (cases "32 \<le> d")
    case False
    have "unat (mem2chunk M) + unat (2 ^ k :: size_t) < 2 ^ 64" using False ub uA p(2) by simp
    then have "unat (mem2chunk M + 2 ^ k) = unat p + (d + ?A)" using ub uA by (subst unat_add_lem [THEN iffD1]) simp_all
    then show ?thesis using False by (simp add: sp)
  qed (use ub in \<open>simp add: sp\<close>)
  have l: "unat (aligned_spot p (2 ^ k) - p) = (if 32 \<le> d then d else d + ?A)"
    using q by (subst unat_sub) (simp_all add: word_le_nat_alt)
  show "unat (aligned_spot p (2 ^ k)) = unat p + unat (aligned_spot p (2 ^ k) - p)" using q l by simp
  show "16 dvd unat (aligned_spot p (2 ^ k) - p)" using dd d16 by (simp add: l)
  have A32: "32 \<le> ?A" using power_increasing [OF k(1), of "2 :: nat"] by simp
  show "32 \<le> unat (aligned_spot p (2 ^ k) - p)" using A32 by (simp add: l)
  have "d < 32 \<Longrightarrow> d = 16" using dd(1,2) by (elim dvdE) simp
  then show "unat (aligned_spot p (2 ^ k) - p) \<le> 2 ^ k + 16" using dd by (auto simp: l)
  have "unat (chunk2mem (aligned_spot p (2 ^ k))) = unat (aligned_spot p (2 ^ k)) + 16"
    unfolding chunk2mem_def dl_consts
    by (subst unat_add_lem [THEN iffD1]) (use q p(2) dd \<open>d < 32 \<Longrightarrow> d = 16\<close> in \<open>auto split: if_splits\<close>)
  then have "chunk2mem (aligned_spot p (2 ^ k)) AND (2 ^ k - 1) = 0
      \<longleftrightarrow> (unat p + (if 32 \<le> d then d else d + ?A) + 16) mod ?A = 0"
    unfolding unat_and_mask_zero q by simp
  moreover have "(?n + d) mod ?A = 0"
  proof -
    have q: "(?n div ?A + 1) * ?A = ?n div ?A * ?A + ?A" by simp
    have "?n mod ?A < ?A" by simp
    then have "?n + d = (?n div ?A + 1) * ?A"
      using div_mult_mod_eq [of ?n ?A] unfolding q d_def by linarith
    then show ?thesis by simp
  qed
  then have "(unat p + (if 32 \<le> d then d else d + ?A) + 16) mod ?A = 0"
  proof -
    have "unat p + (if 32 \<le> d then d else d + ?A) + 16 = (if 32 \<le> d then ?n + d else ?n + d + ?A)" by simp
    then show "(unat p + (if 32 \<le> d then d else d + ?A) + 16) mod ?A = 0"
      using \<open>(?n + d) mod ?A = 0\<close> by (cases "32 \<le> d") (simp_all only: if_True if_False mod_add_self2)
  qed
  ultimately show "chunk2mem (aligned_spot p (2 ^ k)) AND (2 ^ k - 1) = 0" by blast
qed

section \<open>Giving back what comes before the aligned spot\<close>

text \<open>The two parts are marked in the order of the code; the result is that of \<open>cut_off\<close>.\<close>

lemma wr_twice: "wr (wr s a v) a v' = wr s a v'" "a \<noteq> b \<Longrightarrow> wr (wr s a v) b v' = wr (wr s b v') a v"
  by (simp_all add: wr_def fun_upd_twist)

lemma mark_order:
  assumes ne: "p + n \<noteq> p" "p + n + y \<noteq> p" "p + n + y \<noteq> p + n"
  shows "set_inuse (set_inuse s (p + n) y) p n = set_inuse (set_inuse s p n) (p + n) y"
proof -
  have b: "((((h AND 1) OR y) OR 2) OR 1) = (((h OR 1) AND 1) OR y) OR (2 :: size_t)" for h
    by (rule bit_word_eqI) (auto simp: bit_simps)
  have d: "p + n + 8 \<noteq> p + 8" "p + n + y + 8 \<noteq> p + 8" "p + n + y + 8 \<noteq> p + n + 8" using ne by simp_all
  let ?h = "head s (p + n)" let ?v = "((head s p AND 1) OR n) OR 2" let ?x = "head s (p + n + y) OR 1"
  have L: "set_inuse (set_inuse s (p + n) y) p n
      = wr (wr (wr (wr s (p + n + 8) (((?h AND 1) OR y) OR 2)) (p + n + y + 8) ?x) (p + 8) ?v) (p + n + 8) ((((?h AND 1) OR y) OR 2) OR 1)"
    using ne by (simp add: set_inuse_head(1) set_inuse_head(2) set_head_def head_def rd_wr)
  have R: "set_inuse (set_inuse s p n) (p + n) y
      = wr (wr (wr (wr s (p + 8) ?v) (p + n + 8) (?h OR 1)) (p + n + 8) ((((?h OR 1) AND 1) OR y) OR 2)) (p + n + y + 8) ?x"
    using ne by (simp add: set_inuse_head(1) set_inuse_head(2) set_head_def head_def rd_wr)
  show ?thesis unfolding L R b
    using d by (simp add: wr_def fun_upd_twist fun_eq_iff)
qed

lemma give_back_front:
  assumes h: "heap s U F V K" and c: "(p, z) \<in> U" "own (p, z) \<inter> K = {}"
    and n: "is_aligned n" "32 \<le> unat n" "unat n + 32 \<le> unat z"
  shows "\<exists>s' F'. dispose_chunk E (set_inuse (set_inuse s (p + n) (z - n)) p n) p n = Inr s'
    \<and> heap s' (insert (p + n, z - n) (U - {(p, z)})) F' V K
    \<and> moves (heap_arena s V K (touched s U F V \<union> own (p, z))) s s'
    \<and> own (p + n, z - n) \<subseteq> own (p, z) \<and> (p + n, z - n) \<notin> U - {(p, z)} \<and> cinuse s' (p + n) \<and> chunksize s' (p + n) = z - n"
proof -
  let ?s2 = "set_inuse (set_inuse s p n) (p + n) (z - n)" and ?q = "p + n" and ?y = "z - n"
  let ?w0 = "heap_arena s V K (touched s U F V \<union> own (?q, ?y))"
  define w where "w = heap_arena s V K (touched s U F V \<union> own (p, z))"
  note C = cut_off [OF h c n refl refl]
  have O0: "open_heap (heap_arena s V K UNIV) s U F (dvset s) (topset s) {}" by (rule heap_enter [OF h]) blast
  have cg: "chunk_geo (p, z)" by (rule open_chunk [OF O0]) (use c in blast)
  have n': "16 \<le> unat n" "unat n + 16 \<le> unat z" using n by simp_all
  note j = chunk_geo_split [OF cg n(1) n']
  have ne: "?q \<noteq> p" "?q + ?y \<noteq> p" "?q + ?y \<noteq> ?q"
    using lo_hi(2,3) [OF j(1)] lo_hi(2,3) [OF j(2)] lo_hi(2,3) [OF cg] by (auto simp: lo_def)
  have h2: "heap ?s2 (insert (?q, ?y) (insert (p, n) (U - {(p, z)}))) F V K"
    by (rule heap_leave [OF C(1) refl refl refl]) (use C(3,4) heapD [OF h] in \<open>simp_all add: zero_fields_def\<close>)
  have ok: "(p, n) \<in> insert (?q, ?y) (insert (p, n) (U - {(p, z)}))" "own (p, n) \<inter> K = {}" using C(6) c(2) by blast+
  from dispose_chunk_heap [OF h2 ok refl, of E] obtain s' F' where
    s': "dispose_chunk E ?s2 p n = Inr s'" "heap s' (insert (?q, ?y) (insert (p, n) (U - {(p, z)})) - {(p, n)}) F' V K"
    and m: "moves (heap_arena ?s2 V K (touched ?s2 (insert (?q, ?y) (insert (p, n) (U - {(p, z)}))) F V \<union> own (p, n))) ?s2 s'"
    by blast
  have e: "insert (?q, ?y) (insert (p, n) (U - {(p, z)})) - {(p, n)} = insert (?q, ?y) (U - {(p, z)})"
    using C(7,8) ne(1) by auto
  have "touched ?s2 (insert (?q, ?y) (insert (p, n) (U - {(p, z)}))) F V \<subseteq> touched s U F V \<union> own (?q, ?y)"
    using touched_reach [OF C(1)] by simp
  then have m2: "moves w ?s2 s'" by (intro moves_weaken [OF m]) (use C(5,6) in \<open>auto simp: w_def\<close>)
  have m1: "moves w s ?s2" by (rule moves_weaken [OF C(2)]) (use C(5) in \<open>auto simp: w_def\<close>)
  have O': "open_heap (heap_arena s' V K UNIV) s' (insert (?q, ?y) (U - {(p, z)})) F' (dvset s') (topset s') {}"
    by (rule heap_enter) (use s'(2) e in auto)
  have "cinuse s' ?q" "chunksize s' ?q = ?y" using tags_heap(1,2) [OF O', of "(?q, ?y)"] by simp_all
  then show ?thesis
    using s' C(5,7) moves_trans [OF m1 m2] unfolding mark_order [OF ne] e w_def by blast
qed

end
