(* ===== verification/DL_SbrkRealloc.thy ===== *)
theory DL_SbrkRealloc
  imports DL_AlignProps DL_Client
begin

text \<open>
  \<open>realloc\<close>, \<open>realloc_in_place\<close>, \<open>calloc\<close> and the aligned allocations of src/src/dlmalloc.c over a
  system with a contiguous \<open>MORECORE\<close>: what they return, what they keep, what is in the blocks.
\<close>

lemma internal_clones: "internal_malloc E s n = dlmalloc E s n" "internal_free E s m = dlfree E s m"
  by (simp_all add: internal_malloc_def internal_free_def mspace_malloc_clone mspace_free_clone)

lemma payload_stored: "c \<in> U \<Longrightarrow> a \<in> payload c \<Longrightarrow> a \<in> stored start limit s U"
  by (auto simp: stored_def)

lemma sbrk_heap:
  assumes i: "sbrk_inv brk start limit s U" and c: "c \<in> U"
  obtains F where "heap s U F {} (foreign limit s)" "topp s \<noteq> 0" "own c \<inter> foreign limit s = {}"
    "\<forall>d\<in>U. own d \<inter> foreign limit s = {}"
proof -
  have t: "topp s \<noteq> 0" using sbrk_invD(6) [OF i] c by auto
  note g = sbrk_invD(7) [OF i t]
  obtain F where "heap s U F {} (foreign limit s)" using g by (auto simp: grown_def)
  then show thesis using that t grownD(2) [OF g] c by blast
qed

section \<open>Resizing in place\<close>

definition resize_result ::
  "('o \<Rightarrow> addr) \<Rightarrow> nat \<Rightarrow> nat \<Rightarrow> 'o state \<Rightarrow> chunk set \<Rightarrow> addr \<Rightarrow> size_t \<Rightarrow> size_t \<Rightarrow> 'o state \<times> addr \<Rightarrow> bool"
where
  "resize_result brk start limit s U p z nb r \<longleftrightarrow>
     (\<forall>a\<in>stored start limit s (U - {(p, z)}). rd (fst r) a = rd s a) \<and> maddr (fst r) = maddr s
     \<and> (snd r = 0 \<and> fst r = s
        \<or> snd r = p \<and> (\<forall>a\<in>payload (p, z) - tail_cells p z nb. rd (fst r) a = rd s a)
          \<and> (\<exists>y. nb \<le> y \<and> unat y < unat nb + 32 \<and> (p, y) \<notin> U - {(p, z)}
               \<and> sbrk_inv brk start limit (fst r) (insert (p, y) (U - {(p, z)}))))"

lemma try_realloc_sbrk:
  assumes i: "sbrk_inv brk start limit s U" and c: "(p, z) \<in> U" and n: "is_aligned nb" "32 \<le> unat nb"
  shows "\<exists>r. try_realloc_chunk E s p nb cm = Inr r \<and> resize_result brk start limit s U p z nb r"
proof -
  obtain F where h: "heap s U F {} (foreign limit s)" and t: "topp s \<noteq> 0" and o: "own (p, z) \<inter> foreign limit s = {}"
    and os: "\<forall>d\<in>U. own d \<inter> foreign limit s = {}" using i c by (rule sbrk_heap)
  from try_realloc_heap [OF h c o n, of E cm] obtain r where r: "try_realloc_chunk E s p nb cm = Inr r"
    and R: "resized s U F {} (foreign limit s) p z nb r" by blast
  show ?thesis
  proof (cases "snd r = 0 \<and> fst r = s")
    case True
    then show ?thesis using r by (auto simp: resize_result_def)
  next
    case False
    let ?X = "tail_cells p z nb" and ?U = "U - {(p, z)}"
    let ?w = "heap_arena s {} (foreign limit s) (touched s U F {} \<union> ?X)"
    obtain y F' where sp: "snd r = p" and m: "moves ?w s (fst r)" and y: "nb \<le> y" "unat y < unat nb + 32" "own (p, y) \<inter> foreign limit s = {}"
        "(p, y) \<notin> ?U" and h': "heap (fst r) (insert (p, y) ?U) F' {} (foreign limit s)"
      using R False unfolding resized_def by auto
    have X: "?X \<subseteq> own (p, z)" by (auto simp: tail_cells_def)
    have rw: "reach ?w = touched s U F {} \<union> ?X" "?X \<inter> foreign limit s = {}" using X o by auto
    have "\<forall>d\<in>insert (p, y) ?U. own d \<inter> foreign limit s = {}" using os y(3) by blast
    note S = sbrk_step [OF i t h m rw h' this]
    have "rd (fst r) a = rd s a" if "a \<in> stored start limit s ?U" for a
      by (rule S(4)) (use stored_other [OF i t c that] X in blast)+
    moreover have "rd (fst r) a = rd s a" if "a \<in> payload (p, z) - ?X" for a
      by (rule S(4)) (use payload_stored [OF c] that in blast)+
    ultimately show ?thesis using r sp y S(1,3) unfolding resize_result_def by blast
  qed
qed

section \<open>realloc\<close>

text \<open>The cells of a payload, by offset.\<close>

lemma payload_cell:
  assumes c: "chunk_geo (p, z)" and k: "8 dvd unat k" "unat k + 8 < unat z"
  shows "chunk2mem p + k \<in> payload (p, z)" "unat (chunk2mem p + k) = unat p + 16 + unat k"
proof -
  have e: "unat (16 + k) = 16 + unat k"
    using c k by (subst unat_add_lem [THEN iffD1]) (simp_all add: chunk_geo_def hi_def)
  have u: "unat (p + (16 + k)) = unat p + (16 + unat k)"
    using unat_in_chunk [OF c, of "16 + k"] k unfolding e by simp
  then show "unat (chunk2mem p + k) = unat p + 16 + unat k" by (simp add: chunk2mem_def dl_consts add.assoc)
  moreover have "unat (p + 8) = unat p + 8" using unat_in_chunk [OF c, of 8] c by (simp add: chunk_geo_def)
  ultimately show "chunk2mem p + k \<in> payload (p, z)"
    using k by (auto simp: payload_def own_def lo_def hi_def)
qed

lemma sbrk_tags:
  assumes i: "sbrk_inv brk start limit s U" and c: "(p, z) \<in> U"
  shows "is_inuse s p" "\<not> is_mmapped s p" "overhead_for s p = 8" "chunk2mem p \<noteq> 0" "p \<noteq> 0" "8 \<le> z" "8 dvd unat (z - 8)"
    "unat (z - 8) = unat z - 8"
proof -
  obtain F where h: "heap s U F {} (foreign limit s)" using i c by (rule sbrk_heap)
  have O: "open_heap (heap_arena s {} (foreign limit s) UNIV) s U F (dvset s) (topset s) {}" by (rule heap_enter [OF h]) blast
  have "cinuse s p" using tags_heap(2) [OF O c] by simp
  then show "is_inuse s p" "\<not> is_mmapped s p" using cinuse_words by blast+
  then show "overhead_for s p = 8" by (simp add: overhead_for_def dl_consts)
  have g: "chunk_geo (p, z)" by (rule sbrk_geo(1) [OF i c])
  show "chunk2mem p \<noteq> 0" using chunk2mem_nonzero [OF g] by simp
  show "p \<noteq> 0" using g by (simp add: chunk_geo_def)
  show z: "8 \<le> z" using g by (simp add: chunk_geo_def word_le_nat_alt)
  then show u: "unat (z - 8) = unat z - 8" by (simp add: unat_sub)
  have "16 dvd unat z" using g by (simp add: chunk_geo_def is_aligned_iff)
  then show "8 dvd unat (z - 8)" unfolding u by presburger
qed

text \<open>Two values agree on the first \<open>n\<close> bytes that are left of a block of \<open>bytes\<close> bytes at offset \<open>k\<close>.\<close>

definition same_bytes :: "size_t \<Rightarrow> size_t \<Rightarrow> size_t \<Rightarrow> size_t \<Rightarrow> bool" where
  "same_bytes bytes k v v' \<longleftrightarrow> take_bit (8 * (unat bytes - unat k)) v = take_bit (8 * (unat bytes - unat k)) v'"

lemma same_bytes_refl [simp]: "same_bytes bytes k v v"
  by (simp add: same_bytes_def)

definition realloc_result ::
  "('o \<Rightarrow> addr) \<Rightarrow> nat \<Rightarrow> nat \<Rightarrow> 'o state \<Rightarrow> chunk set \<Rightarrow> chunk \<Rightarrow> size_t \<Rightarrow> 'o state \<Rightarrow> addr \<Rightarrow> bool"
where
  "realloc_result brk start limit s U c bytes s' m \<longleftrightarrow>
     (\<forall>a\<in>stored start limit s (U - {c}). rd s' a = rd s a) \<and> maddr s' = maddr s
     \<and> (m = 0 \<and> sbrk_inv brk start limit s' U \<and> (\<forall>a\<in>payload c. rd s' a = rd s a)
        \<or> (\<exists>q y. m = chunk2mem q \<and> m \<noteq> 0 \<and> (q, y) \<notin> U - {c} \<and> request2size bytes \<le> y \<and> unat y < unat (request2size bytes) + 32
              \<and> sbrk_inv brk start limit s' (insert (q, y) (U - {c}))
              \<and> (\<forall>k. 8 dvd unat k \<longrightarrow> k < bytes \<longrightarrow> k < snd c - 8
                   \<longrightarrow> same_bytes bytes k (rd s' (chunk2mem q + k)) (rd s (chunk2mem (fst c) + k)))))"

lemma realloc_resultI:
  assumes "\<forall>a\<in>stored start limit s (U - {c}). rd s' a = rd s a" "maddr s' = maddr s"
    and "chunk2mem q \<noteq> 0" "(q, y) \<notin> U - {c}" "request2size bytes \<le> y" "unat y < unat (request2size bytes) + 32"
    and "sbrk_inv brk start limit s' (insert (q, y) (U - {c}))"
    and "\<forall>k. 8 dvd unat k \<longrightarrow> k < bytes \<longrightarrow> k < snd c - 8
      \<longrightarrow> same_bytes bytes k (rd s' (chunk2mem q + k)) (rd s (chunk2mem (fst c) + k))"
  shows "realloc_result brk start limit s U c bytes s' (chunk2mem q)"
  unfolding realloc_result_def using assms by blast

text \<open>What \<open>memcpy\<close> writes.\<close>

lemma low_eight: "(x AND 7 :: size_t) = 0 \<longleftrightarrow> 8 dvd unat x"
proof -
  have "unat (x AND 7) = unat x mod 8" using unat_and_mask [of x 3] by (simp add: low_masks)
  then show ?thesis by (simp add: dvd_eq_mod_eq_0 flip: unat_0_iff)
qed

lemma memcpy_changes:
  assumes c: "chunk_geo (q, y)" and n: "unat n + 8 \<le> unat y"
  shows "changes_mem (payload (q, y)) s (memcpy s (chunk2mem q) src n)"
  unfolding changes_mem_def
proof (intro conjI allI impI)
  show "memcpy s (chunk2mem q) src n = s\<lparr>mem := mem (memcpy s (chunk2mem q) src n)\<rparr>" by (simp add: memcpy_def)
  fix a assume a: "a \<notin> payload (q, y)"
  show "rd (memcpy s (chunk2mem q) src n) a = rd s a"
  proof (cases "a - chunk2mem q < n \<and> (a - chunk2mem q) AND 7 = 0")
    case True
    define k where "k = a - chunk2mem q"
    have k: "8 dvd unat k" "unat k < unat n" using True by (simp_all add: k_def low_eight word_less_nat_alt)
    have "16 dvd unat y" using c by (simp add: chunk_geo_def is_aligned_iff)
    then have "unat k + 8 < unat y" using k n by presburger
    from payload_cell(1) [OF c k(1) this] a show ?thesis by (simp add: k_def)
  next
    case False
    then show ?thesis by (auto simp: memcpy_def rd_def Let_def)
  qed
qed

lemma memcpy_cell:
  assumes k: "8 dvd unat k" "k < n" and n: "n = bytes \<or> n < bytes \<and> 8 dvd unat n"
  shows "same_bytes bytes k (rd (memcpy s d src n) (d + k)) (rd s (src + k))"
proof -
  have uk: "unat (n - k) = unat n - unat k" using k(2) by (simp add: unat_sub word_less_nat_alt word_le_nat_alt)
  have off: "k AND 7 = 0" using k(1) by (simp add: low_eight)
  show ?thesis
  proof (cases "8 \<le> n - k")
    case True
    then show ?thesis using k(2) off by (simp add: memcpy_def rd_def)
  next
    case False
    then have lt: "unat n - unat k < 8" using uk by (simp add: word_le_nat_alt)
    have "n = bytes"
    proof (rule ccontr)
      assume "n \<noteq> bytes"
      then have "8 dvd unat n" using n by blast
      moreover have "unat k < unat n" using k(2) by (simp add: word_less_nat_alt)
      ultimately show False using k(1) lt by presburger
    qed
    moreover have "unat (bytes - k) = unat bytes - unat k" using uk \<open>n = bytes\<close> by simp
    ultimately show ?thesis using k(2) off False
      by (simp add: memcpy_def rd_def same_bytes_def) (rule bit_word_eqI, auto simp: bit_simps)
  qed
qed

text \<open>The old block is copied to a new one and freed.\<close>

lemma move_block:
  assumes E: "sbrk_like E brk start limit" and i: "sbrk_inv brk start limit s (insert (q, y) U)" and c: "(p, z) \<in> U" "(q, y) \<notin> U"
    and y: "unat bytes + 8 \<le> unat y"
  defines "n \<equiv> (if z - 8 < bytes then z - 8 else bytes)"
  shows "\<exists>s'. dlfree E (memcpy s (chunk2mem q) (chunk2mem p) n) (chunk2mem p) = Inr s'
    \<and> sbrk_inv brk start limit s' (insert (q, y) (U - {(p, z)})) \<and> maddr s' = maddr s
    \<and> (\<forall>a\<in>stored start limit s (U - {(p, z)}). rd s' a = rd s a)
    \<and> (\<forall>k. 8 dvd unat k \<longrightarrow> k < bytes \<longrightarrow> k < z - 8
         \<longrightarrow> same_bytes bytes k (rd s' (chunk2mem q + k)) (rd s (chunk2mem p + k)))"
proof -
  let ?s1 = "memcpy s (chunk2mem q) (chunk2mem p) n"
  have c': "(p, z) \<in> insert (q, y) U" using c(1) by blast
  note g = sbrk_geo(1) [OF i, of "(q, y)", simplified] and T = sbrk_tags [OF i c']
  obtain F where t: "topp s \<noteq> 0" using i c' by (rule sbrk_heap)
  have n: "n = bytes \<or> n < bytes \<and> 8 dvd unat n" "unat n \<le> unat bytes" using T(7) by (auto simp: n_def word_less_nat_alt)
  have ch: "changes_mem (payload (q, y)) s ?s1" by (rule memcpy_changes [OF g]) (use n(2) y in simp)
  have i1: "sbrk_inv brk start limit ?s1 (insert (q, y) U)" by (rule client_sbrk [OF i ch payload_in_stored]) simp
  obtain s' where s': "dlfree E ?s1 (chunk2mem p) = Inr s'" "sbrk_inv brk start limit s' (insert (q, y) U - {(p, z)})" "maddr s' = maddr ?s1"
      and k: "\<And>a. a \<in> stored start limit ?s1 (insert (q, y) U - {(p, z)}) \<Longrightarrow> rd s' a = rd ?s1 a"
    using dlfree_sbrk [OF E i1 c'] by blast
  have e: "insert (q, y) U - {(p, z)} = insert (q, y) (U - {(p, z)})" using c by blast
  have ma: "maddr ?s1 = maddr s" by (simp add: memcpy_def)
  have st: "stored start limit ?s1 W = stored start limit s W" for W by (simp add: stored_def state_cells_def ma)
  have "rd s' a = rd s a" if a: "a \<in> stored start limit s (U - {(p, z)})" for a
  proof -
    have "U - {(p, z)} \<subseteq> insert (q, y) U - {(q, y)}" using c(2) by blast
    then have a1: "a \<in> stored start limit s (insert (q, y) U - {(q, y)})" using a unfolding stored_def by blast
    have "a \<notin> payload (q, y)" using stored_other(1) [OF i t _ a1] by (auto simp: payload_def)
    then have "rd ?s1 a = rd s a" by (rule changes_memD [OF ch])
    moreover have "a \<in> stored start limit ?s1 (insert (q, y) U - {(p, z)})" unfolding st e using a by (auto simp: stored_def)
    ultimately show ?thesis using k by simp
  qed
  moreover have "same_bytes bytes x (rd s' (chunk2mem q + x)) (rd s (chunk2mem p + x))"
    if x: "8 dvd unat x" "x < bytes" "x < z - 8" for x
  proof -
    have xn: "x < n" using x by (simp add: n_def)
    have "16 dvd unat y" using g by (simp add: chunk_geo_def is_aligned_iff)
    then have "unat x + 8 < unat y" using x(1,2) y unfolding word_less_nat_alt by presburger
    then have "chunk2mem q + x \<in> payload (q, y)" by (rule payload_cell(1) [OF g x(1)])
    then have "rd s' (chunk2mem q + x) = rd ?s1 (chunk2mem q + x)"
      unfolding e by (intro k) (auto simp: e stored_def)
    then show ?thesis using memcpy_cell [OF x(1) xn n(1)] by simp
  qed
  ultimately show ?thesis using s' by (simp add: e ma)
qed

lemma realloc_sbrk:
  assumes E: "sbrk_like E brk start limit" and i: "sbrk_inv brk start limit s U" and c: "(p, z) \<in> U" and b: "unat bytes < 2 ^ 39"
  shows "\<exists>s' m. dlrealloc E s (chunk2mem p) bytes = Inr (s', m) \<and> realloc_result brk start limit s U (p, z) bytes s' m"
proof -
  let ?nb = "request2size bytes" and ?m = "chunk2mem p"
  note T = sbrk_tags [OF i c] and R = request2size_facts(1,2,4) [OF b]
  have mx: "\<not> MAX_REQUEST \<le> bytes" using b by (simp add: dl_consts word_le_nat_alt)
  have mp: "mem2chunk ?m = p" by (simp add: mem2chunk_def chunk2mem_def)
  obtain r where r: "try_realloc_chunk E s p ?nb 1 = Inr r" and rr: "resize_result brk start limit s U p z ?nb r"
    using try_realloc_sbrk [OF i c R(1,2), of E 1] by blast
  have start: "dlrealloc E s ?m bytes = (if snd r \<noteq> 0 then Inr (fst r, chunk2mem (snd r))
      else bindR (dlmalloc E (fst r) bytes) (\<lambda>(s, m). if m \<noteq> 0
        then bindR (dlfree E (memcpy s m ?m (if chunksize s p - overhead_for s p < bytes then chunksize s p - overhead_for s p else bytes)) ?m)
          (\<lambda>s. Inr (s, m)) else Inr (s, m)))"
    using T(4) mx r by (simp add: dlrealloc_def Let_def mp internal_clones split_beta cong: if_cong)
  show ?thesis
  proof (cases "snd r = 0")
    case False
    then obtain y where sp: "snd r = p" and pk: "\<forall>a\<in>payload (p, z) - tail_cells p z ?nb. rd (fst r) a = rd s a"
        and y: "?nb \<le> y" "unat y < unat ?nb + 32" "(p, y) \<notin> U - {(p, z)}" "sbrk_inv brk start limit (fst r) (insert (p, y) (U - {(p, z)}))"
        and k: "\<forall>a\<in>stored start limit s (U - {(p, z)}). rd (fst r) a = rd s a" "maddr (fst r) = maddr s"
      using rr unfolding resize_result_def by auto
    have "rd (fst r) (?m + x) = rd s (?m + x)" if x: "8 dvd unat x" "x < bytes" "x < z - 8" for x
    proof -
      have "unat x + 8 < unat z" using x(3) T(8) by (simp add: word_less_nat_alt)
      note P = payload_cell [OF sbrk_geo(1) [OF i c] x(1) this]
      have "?m + x \<notin> tail_cells p z ?nb" using P(2) x(2) R(3) by (auto simp: tail_cells_def word_less_nat_alt)
      then show ?thesis using pk P(1) by blast
    qed
    then have "realloc_result brk start limit s U (p, z) bytes (fst r) (chunk2mem p)"
      using y k T(4) by (intro realloc_resultI [where y = y]) simp_all
    then show ?thesis using False sp by (auto simp: start)
  next
    case True
    then have f: "fst r = s" using rr T(5) unfolding resize_result_def by auto
    obtain s1 m where d: "dlmalloc E s bytes = Inr (s1, m)" and mr: "malloc_result brk start limit s U ?nb s1 m"
      using dlmalloc_sbrk [OF E i b] by blast
    have k1: "\<forall>a\<in>stored start limit s U. rd s1 a = rd s a" "maddr s1 = maddr s" using mr by (simp_all add: malloc_result_def)
    have sub: "stored start limit s (U - {(p, z)}) \<subseteq> stored start limit s U" "payload (p, z) \<subseteq> stored start limit s U"
      using c by (auto simp: stored_def)
    have st: "stored start limit s1 W = stored start limit s W" for W by (simp add: stored_def state_cells_def k1(2))
    show ?thesis
    proof (cases "m = 0")
      case m0: True
      have "chunk2mem x = 0 \<Longrightarrow> (x, y) \<in> W \<Longrightarrow> sbrk_inv brk start limit s1 W \<Longrightarrow> False" for x y W
        using sbrk_tags(4) by blast
      then have "sbrk_inv brk start limit s1 U" using mr m0 unfolding malloc_result_def by auto
      then have "realloc_result brk start limit s U (p, z) bytes s1 0"
        unfolding realloc_result_def using k1 sub by auto
      then show ?thesis using True m0 d by (simp add: start f)
    next
      case m1: False
      then obtain q y where q: "m = chunk2mem q" "(q, y) \<notin> U" "?nb \<le> y" "unat y < unat ?nb + 32"
          and i1: "sbrk_inv brk start limit s1 (insert (q, y) U)"
        using mr unfolding malloc_result_def by auto
      have y8: "unat bytes + 8 \<le> unat y" using q(3) R(3) by (simp add: word_le_nat_alt)
      have ci: "(p, z) \<in> insert (q, y) U" using c by blast
      have oc: "chunksize s1 p - overhead_for s1 p = z - 8"
        using sbrk_geo(4) [OF i1 ci] sbrk_tags(3) [OF i1 ci] by simp
      from move_block [OF E i1 c q(2) y8] obtain s' where
        s': "dlfree E (memcpy s1 (chunk2mem q) ?m (if z - 8 < bytes then z - 8 else bytes)) ?m = Inr s'"
          "sbrk_inv brk start limit s' (insert (q, y) (U - {(p, z)}))" "maddr s' = maddr s1"
          "\<forall>a\<in>stored start limit s1 (U - {(p, z)}). rd s' a = rd s1 a"
        and bs: "\<forall>k. 8 dvd unat k \<longrightarrow> k < bytes \<longrightarrow> k < z - 8
         \<longrightarrow> same_bytes bytes k (rd s' (chunk2mem q + k)) (rd s1 (chunk2mem p + k))" by blast
      have old: "rd s1 (chunk2mem p + k) = rd s (chunk2mem p + k)" if "8 dvd unat k" "k < z - 8" for k
      proof -
        have "unat k + 8 < unat z" using that(2) T(8) by (simp add: word_less_nat_alt)
        from payload_cell(1) [OF sbrk_geo(1) [OF i c] that(1) this] show ?thesis using k1(1) sub(2) by blast
      qed
      have "\<forall>a\<in>stored start limit s (U - {(p, z)}). rd s' a = rd s a" using s'(4) k1(1) sub(1) unfolding st by auto
      moreover have "\<forall>k. 8 dvd unat k \<longrightarrow> k < bytes \<longrightarrow> k < snd (p, z) - 8
          \<longrightarrow> same_bytes bytes k (rd s' (chunk2mem q + k)) (rd s (chunk2mem (fst (p, z)) + k))"
        using bs old by simp
      ultimately have "realloc_result brk start limit s U (p, z) bytes s' m"
        unfolding q(1) using s' k1 q m1 by (intro realloc_resultI [where y = y]) simp_all
      then show ?thesis using True m1 d s'(1) by (auto simp: start f oc q(1))
    qed
  qed
qed

section \<open>Aligned allocation\<close>

definition aligned_result ::
  "('o \<Rightarrow> addr) \<Rightarrow> nat \<Rightarrow> nat \<Rightarrow> 'o state \<Rightarrow> chunk set \<Rightarrow> size_t \<Rightarrow> size_t \<Rightarrow> 'o state \<Rightarrow> addr \<Rightarrow> bool"
where
  "aligned_result brk start limit s U alignment nb s' m \<longleftrightarrow>
     (\<forall>a\<in>stored start limit s U. rd s' a = rd s a) \<and> maddr s' = maddr s \<and> m AND (alignment - 1) = 0
     \<and> (\<exists>q y. m = chunk2mem q \<and> (q, y) \<notin> U \<and> nb \<le> y \<and> unat y \<le> unat nb + 32
           \<and> sbrk_inv brk start limit s' (insert (q, y) U))"

text \<open>The first part of a block, up to the aligned spot, is given back.\<close>

lemma front_sbrk:
  assumes i: "sbrk_inv brk start limit s (insert (p, z) U)" and nw: "(p, z) \<notin> U"
    and n: "is_aligned n" "32 \<le> unat n" "unat n + 32 \<le> unat z"
  shows "\<exists>s'. dispose_chunk E (set_inuse (set_inuse s (p + n) (z - n)) p n) p n = Inr s'
    \<and> sbrk_inv brk start limit s' (insert (p + n, z - n) U) \<and> maddr s' = maddr s \<and> (p + n, z - n) \<notin> U
    \<and> chunksize s' (p + n) = z - n \<and> (\<forall>a\<in>stored start limit s U. rd s' a = rd s a)"
proof -
  have c: "(p, z) \<in> insert (p, z) U" by blast
  obtain F where h: "heap s (insert (p, z) U) F {} (foreign limit s)" and t: "topp s \<noteq> 0" and o: "own (p, z) \<inter> foreign limit s = {}"
    and os: "\<forall>d\<in>insert (p, z) U. own d \<inter> foreign limit s = {}" using i c by (rule sbrk_heap)
  have U: "insert (p, z) U - {(p, z)} = U" using nw by blast
  let ?w = "heap_arena s {} (foreign limit s) (touched s (insert (p, z) U) F {} \<union> own (p, z))"
  from give_back_front [OF h c o n, of E, unfolded U] obtain s' F' where
    s': "dispose_chunk E (set_inuse (set_inuse s (p + n) (z - n)) p n) p n = Inr s'"
    and h': "heap s' (insert (p + n, z - n) U) F' {} (foreign limit s)" and m: "moves ?w s s'"
    and q: "own (p + n, z - n) \<subseteq> own (p, z)" "(p + n, z - n) \<notin> U" "chunksize s' (p + n) = z - n" by blast
  have rw: "reach ?w = touched s (insert (p, z) U) F {} \<union> own (p, z)" by simp
  have "\<forall>d\<in>insert (p + n, z - n) U. own d \<inter> foreign limit s = {}" using os q(1) o by blast
  note S = sbrk_step [OF i t h m rw o h' this]
  have "rd s' a = rd s a" if "a \<in> stored start limit s U" for a
    by (rule S(4)) (use stored_other [OF i t c, unfolded U, OF that] in blast)+
  then show ?thesis using s' q S(1,3) by blast
qed

text \<open>The part of a block beyond \<open>nb\<close> bytes is given back.\<close>

lemma back_sbrk:
  assumes i: "sbrk_inv brk start limit s (insert (p, z) U)" and nw: "(p, z) \<notin> U"
    and n: "is_aligned nb" "32 \<le> unat nb" "unat nb + 32 \<le> unat z"
  shows "\<exists>s'. dispose_chunk E (set_inuse (set_inuse s p nb) (p + nb) (z - nb)) (p + nb) (z - nb) = Inr s'
    \<and> (\<exists>y. nb \<le> y \<and> unat y < unat nb + 32 \<and> (p, y) \<notin> U \<and> sbrk_inv brk start limit s' (insert (p, y) U))
    \<and> maddr s' = maddr s \<and> (\<forall>a\<in>stored start limit s U. rd s' a = rd s a)"
proof -
  have c: "(p, z) \<in> insert (p, z) U" by blast
  obtain F where h: "heap s (insert (p, z) U) F {} (foreign limit s)" and t: "topp s \<noteq> 0" and o: "own (p, z) \<inter> foreign limit s = {}"
    and os: "\<forall>d\<in>insert (p, z) U. own d \<inter> foreign limit s = {}" using i c by (rule sbrk_heap)
  have U: "insert (p, z) U - {(p, z)} = U" using nw by blast
  let ?X = "tail_cells p z nb"
  let ?w = "heap_arena s {} (foreign limit s) (touched s (insert (p, z) U) F {} \<union> ?X)"
  from shrink_heap [OF h c o n, of E] obtain s' where
    s': "dispose_chunk E (set_inuse (set_inuse s p nb) (p + nb) (z - nb)) (p + nb) (z - nb) = Inr s'"
    and R: "resized s (insert (p, z) U) F {} (foreign limit s) p z nb (s', p)" by blast
  have p0: "p \<noteq> 0" by (rule sbrk_tags(5) [OF i c])
  obtain y F' where m: "moves ?w s s'" and y: "nb \<le> y" "unat y < unat nb + 32" "own (p, y) \<inter> foreign limit s = {}" "(p, y) \<notin> U"
      and h': "heap s' (insert (p, y) U) F' {} (foreign limit s)"
    using R p0 unfolding resized_def U by auto
  have X: "?X \<subseteq> own (p, z)" by (auto simp: tail_cells_def)
  have rw: "reach ?w = touched s (insert (p, z) U) F {} \<union> ?X" "?X \<inter> foreign limit s = {}" using X o by auto
  have "\<forall>d\<in>insert (p, y) U. own d \<inter> foreign limit s = {}" using os y(3) by blast
  note S = sbrk_step [OF i t h m rw h' this]
  have "rd s' a = rd s a" if "a \<in> stored start limit s U" for a
    by (rule S(4)) (use stored_other [OF i t c, unfolded U, OF that] X in blast)+
  then show ?thesis using s' y S(1,3) by blast
qed

lemma memalign_split_sbrk:
  assumes i: "sbrk_inv brk start limit s (insert (p, z) U)" and nw: "(p, z) \<notin> U"
    and k: "5 \<le> k" "k < 40" and n: "is_aligned nb" "32 \<le> unat nb" "unat nb + 2 ^ k + 32 \<le> unat z"
  shows "\<exists>s' m. memalign_split E s (chunk2mem p) (2 ^ k) nb = Inr (s', m) \<and> aligned_result brk start limit s U (2 ^ k) nb s' m"
proof -
  have c: "(p, z) \<in> insert (p, z) U" by blast
  note g = sbrk_geo(1) [OF i c] and cs = sbrk_geo(4) [OF i c] and T = sbrk_tags [OF i c]
  have mp: "mem2chunk (chunk2mem x) = x" for x by (simp add: mem2chunk_def chunk2mem_def)
  let ?A = "2 ^ k :: size_t" let ?m = "chunk2mem p" let ?bad = "?m AND (?A - 1) \<noteq> 0"
  have pA: "unat p + 2 ^ k + 64 \<le> 2 ^ 64" using g n(2,3) by (simp add: chunk_geo_def hi_def)
  have pal: "is_aligned p" using g by (simp add: chunk_geo_def)
  have z16: "16 dvd unat z" using g by (simp add: chunk_geo_def is_aligned_iff)
  note A = aligned_spot_facts [OF k pal pA]
  text \<open>After the first step the chunk at \<open>q\<close> of \<open>y\<close> bytes is aligned.\<close>
  define first where "first = (if ?bad then bindR (dispose_chunk E (set_inuse (set_inuse s (aligned_spot p ?A) (z - (aligned_spot p ?A - p)))
      p (aligned_spot p ?A - p)) p (aligned_spot p ?A - p)) (\<lambda>s. Inr (s, aligned_spot p ?A)) else Inr (s, p))"
  have "\<exists>s1 q y. first = Inr (s1, q) \<and> sbrk_inv brk start limit s1 (insert (q, y) U) \<and> (q, y) \<notin> U \<and> maddr s1 = maddr s
    \<and> (\<forall>a\<in>stored start limit s U. rd s1 a = rd s a) \<and> chunk2mem q AND (?A - 1) = 0 \<and> unat nb + 16 \<le> unat y"
  proof (cases ?bad)
    case True
    let ?n = "aligned_spot p ?A - p"
    have e: "p + ?n = aligned_spot p ?A" by simp
    have al: "is_aligned ?n" using A(2) [OF True] by (simp add: is_aligned_iff)
    have le: "unat ?n + unat nb + 16 \<le> unat z" using A(4) [OF True] n(3) by simp
    then have uz: "unat (z - ?n) = unat z - unat ?n" by (simp add: unat_sub word_le_nat_alt)
    have "unat ?n + 32 \<le> unat z" using le n(2) by simp
    from front_sbrk [OF i nw al A(3) [OF True] this, of E, unfolded e] obtain s1 where
      s1: "dispose_chunk E (set_inuse (set_inuse s (aligned_spot p ?A) (z - ?n)) p ?n) p ?n = Inr s1"
        "sbrk_inv brk start limit s1 (insert (aligned_spot p ?A, z - ?n) U)" "maddr s1 = maddr s" "(aligned_spot p ?A, z - ?n) \<notin> U"
        "\<forall>a\<in>stored start limit s U. rd s1 a = rd s a" by blast
    have f: "first = Inr (s1, aligned_spot p ?A)" unfolding first_def using True s1(1) by simp
    show ?thesis
      by (rule exI [of _ s1], rule exI [of _ "aligned_spot p ?A"], rule exI [of _ "z - ?n"])
        (use f s1 A(5) [OF True] le in \<open>simp add: uz\<close>)
  next
    case False
    then have f: "first = Inr (s, p)" by (simp add: first_def)
    show ?thesis
      by (rule exI [of _ s], rule exI [of _ p], rule exI [of _ z]) (use f False i nw n(3) in simp)
  qed
  then obtain s1 q y where f: "first = Inr (s1, q)" and i1: "sbrk_inv brk start limit s1 (insert (q, y) U)" and q: "(q, y) \<notin> U"
    and k1: "maddr s1 = maddr s" "\<forall>a\<in>stored start limit s U. rd s1 a = rd s a" and al: "chunk2mem q AND (?A - 1) = 0"
    and y: "unat nb + 16 \<le> unat y" by blast
  have cq: "(q, y) \<in> insert (q, y) U" by blast
  note T1 = sbrk_tags [OF i1 cq] and cs1 = sbrk_geo(4) [OF i1 cq, simplified]
  have start: "memalign_split E s ?m ?A nb = (if nb + 32 < y
      then bindR (dispose_chunk E (set_inuse (set_inuse s1 q nb) (q + nb) (y - nb)) (q + nb) (y - nb)) (\<lambda>s. Inr (s, chunk2mem q))
      else Inr (s1, chunk2mem q))"
  proof -
    have "memalign_split E s ?m ?A nb = bindR first (\<lambda>(s, p).
        bindR (if \<not> is_mmapped s p then if nb + MIN_CHUNK_SIZE < chunksize s p
          then dispose_chunk E (set_inuse (set_inuse s p nb) (p + nb) (chunksize s p - nb)) (p + nb) (chunksize s p - nb)
          else Inr s else Inr s) (\<lambda>s. Inr (s, chunk2mem p)))"
      using T(2) cs by (simp add: memalign_split_def first_def mp Let_def chunk_plus_offset_def cong: if_cong)
    then show ?thesis using T1(2) by (simp add: f cs1 dl_consts)
  qed
  have g1: "chunk_geo (q, y)" by (rule sbrk_geo(1) [OF i1 cq])
  have d16: "16 dvd unat y" "16 dvd unat nb" using g1 n(1) by (simp_all add: chunk_geo_def is_aligned_iff)
  have nb32: "unat (nb + 32) = unat nb + 32"
    by (rule unat_add_lem [THEN iffD1, of nb 32, simplified]) (use n(3) unat_lt [of z] in simp)
  show ?thesis
  proof (cases "nb + 32 < y")
    case True
    then have "unat nb + 32 \<le> unat y" using nb32 by (simp add: word_less_nat_alt)
    from back_sbrk [OF i1 q n(1,2) this, of E] obtain s2 y2 where
      s2: "dispose_chunk E (set_inuse (set_inuse s1 q nb) (q + nb) (y - nb)) (q + nb) (y - nb) = Inr s2"
      and y2: "nb \<le> y2" "unat y2 < unat nb + 32" "(q, y2) \<notin> U" "sbrk_inv brk start limit s2 (insert (q, y2) U)"
      and k2: "maddr s2 = maddr s1" "\<forall>a\<in>stored start limit s1 U. rd s2 a = rd s1 a" by blast
    have "aligned_result brk start limit s U ?A nb s2 (chunk2mem q)"
      unfolding aligned_result_def using y2 k1 k2 al by (auto simp: stored_def state_cells_def intro!: less_imp_le)
    then show ?thesis using s2 True by (simp add: start)
  next
    case False
    then have "unat y \<le> unat nb + 32" using nb32 by (simp add: word_less_nat_alt)
    moreover have "nb \<le> y" using y by (simp add: word_le_nat_alt)
    ultimately have "aligned_result brk start limit s U ?A nb s1 (chunk2mem q)"
      unfolding aligned_result_def using q i1 k1 al by blast
    then show ?thesis using False by (simp add: start)
  qed
qed

lemma request2size_upper:
  assumes "unat bytes < 2 ^ 39"
  shows "unat (request2size bytes) \<le> unat bytes + 32"
proof (cases "bytes < MIN_REQUEST")
  case False
  then have "request2size bytes = pad_request bytes" by (simp add: request2size_def)
  moreover have "unat (pad_request bytes) = unat bytes + 8 + 15 - (unat bytes + 8 + 15) mod 16"
    by (rule pad_request_unat) (use assms in simp)
  ultimately show ?thesis by simp
qed (simp add: request2size_def dl_consts)

lemma internal_memalign_sbrk:
  assumes E: "sbrk_like E brk start limit" and i: "sbrk_inv brk start limit s U"
    and al: "unat alignment \<le> 2 ^ 37" and b: "unat bytes < 2 ^ 38"
  shows "\<exists>s' m. internal_memalign E s alignment bytes = Inr (s', m)
    \<and> (m = 0 \<and> sbrk_inv brk start limit s' U \<and> maddr s' = maddr s \<and> (\<forall>a\<in>stored start limit s U. rd s' a = rd s a)
       \<or> (\<exists>k. 5 \<le> k \<and> k < 40 \<and> unat alignment \<le> 2 ^ k \<and> aligned_result brk start limit s U (2 ^ k) (request2size bytes) s' m))"
proof -
  obtain k where k: "5 \<le> k" "k < 64" "memalign_alignment alignment = Inr (2 ^ k)" "unat alignment \<le> 2 ^ k"
      "k = 5 \<or> 2 ^ (k - 1) < unat alignment"
    using memalign_alignment_power [of alignment] al by auto
  have k38: "k \<le> 37"
  proof (rule ccontr)
    assume n: "\<not> k \<le> 37"
    then have "(2 :: nat) ^ 37 \<le> 2 ^ (k - 1)" by (intro power_increasing) simp_all
    then show False using k(5) al n by simp
  qed
  have u: "unat (2 ^ k :: size_t) = 2 ^ k" by (rule unat_exp) (use k38 in simp)
  have p38: "(2 :: nat) ^ k \<le> 2 ^ 37" using k38 by (rule power_increasing) simp
  let ?nb = "request2size bytes" let ?req = "?nb + 2 ^ k + MIN_CHUNK_SIZE - CHUNK_OVERHEAD"
  have b39: "unat bytes < 2 ^ 39" using b by simp
  note R = request2size_facts(1,2,4) [OF b39] and up = request2size_upper [OF b39]
  have mx: "\<not> MAX_REQUEST - 2 ^ k \<le> bytes"
  proof -
    have "unat (MAX_REQUEST - 2 ^ k) = unat MAX_REQUEST - 2 ^ k"
      using unat_sub [of "2 ^ k" MAX_REQUEST] u p38 by (simp add: word_le_nat_alt dl_consts)
    then show ?thesis using b p38 by (simp add: word_le_nat_alt dl_consts)
  qed
  have r: "unat ?req = unat ?nb + 2 ^ k + 24"
  proof -
    have e: "?req = ?nb + (2 ^ k + 24)" by (simp add: dl_consts)
    have "unat (2 ^ k + 24 :: size_t) = 2 ^ k + 24" using u p38 by (subst unat_add_lem [THEN iffD1]) simp_all
    then show ?thesis unfolding e using up b p38 by (subst unat_add_lem [THEN iffD1]) simp_all
  qed
  have req: "unat ?req < 2 ^ 39" using r up b p38 by simp
  obtain s1 m where d: "dlmalloc E s ?req = Inr (s1, m)" and mr: "malloc_result brk start limit s U (request2size ?req) s1 m"
    using dlmalloc_sbrk [OF E i req] by blast
  have start: "internal_memalign E s alignment bytes = (if m \<noteq> 0 then memalign_split E s1 m (2 ^ k) ?nb else Inr (s1, m))"
    using mx d by (simp add: internal_memalign_def k(3) Let_def internal_clones)
  have k1: "\<forall>a\<in>stored start limit s U. rd s1 a = rd s a" "maddr s1 = maddr s" using mr by (simp_all add: malloc_result_def)
  show ?thesis
  proof (cases "m = 0")
    case True
    then have "sbrk_inv brk start limit s1 U" using mr unfolding malloc_result_def by auto
    then show ?thesis using True k1 by (simp add: start)
  next
    case False
    then obtain p z where p: "m = chunk2mem p" "(p, z) \<notin> U" "request2size ?req \<le> z" and i1: "sbrk_inv brk start limit s1 (insert (p, z) U)"
      using mr unfolding malloc_result_def by auto
    have "unat ?req + 8 \<le> unat (request2size ?req)" by (rule request2size_facts(4) [OF req])
    then have z: "unat ?nb + 2 ^ k + 32 \<le> unat z" using p(3) r by (simp add: word_le_nat_alt)
    have "k < 40" using k38 by simp
    from memalign_split_sbrk [OF i1 p(2) k(1) this R(1,2) z, of E] obtain s' m' where
      m': "memalign_split E s1 (chunk2mem p) (2 ^ k) ?nb = Inr (s', m')" "aligned_result brk start limit s1 U (2 ^ k) ?nb s' m'" by blast
    have "aligned_result brk start limit s U (2 ^ k) ?nb s' m'"
      using m'(2) k1 by (simp add: aligned_result_def stored_def state_cells_def)
    then show ?thesis using False m'(1) k(1,4) k38 by (auto simp: start p(1))
  qed
qed

text \<open>\<open>memalign\<close>: small alignments are those of \<open>malloc\<close>.\<close>

lemma dlmemalign_sbrk:
  assumes E: "sbrk_like E brk start limit" and i: "sbrk_inv brk start limit s U"
    and al: "unat alignment \<le> 2 ^ 37" and b: "unat bytes < 2 ^ 38"
  shows "\<exists>s' m. dlmemalign E s alignment bytes = Inr (s', m)
    \<and> (m = 0 \<and> sbrk_inv brk start limit s' U \<and> maddr s' = maddr s \<and> (\<forall>a\<in>stored start limit s U. rd s' a = rd s a)
       \<or> (\<exists>k. 4 \<le> k \<and> k < 40 \<and> unat alignment \<le> 2 ^ k \<and> aligned_result brk start limit s U (2 ^ k) (request2size bytes) s' m))"
proof (cases "alignment \<le> MALLOC_ALIGNMENT")
  case True
  have b39: "unat bytes < 2 ^ 39" using b by simp
  obtain s' m where d: "dlmalloc E s bytes = Inr (s', m)" and mr: "malloc_result brk start limit s U (request2size bytes) s' m"
    using dlmalloc_sbrk [OF E i b39] by blast
  have st: "dlmemalign E s alignment bytes = Inr (s', m)" using True d by (simp add: dlmemalign_def)
  show ?thesis
  proof (cases "m = 0")
    case m0: True
    then have "sbrk_inv brk start limit s' U" using mr unfolding malloc_result_def by auto
    then show ?thesis using st m0 mr by (auto simp: malloc_result_def)
  next
    case False
    then obtain p z where p: "m = chunk2mem p" "(p, z) \<notin> U" "request2size bytes \<le> z" "unat z < unat (request2size bytes) + 32"
        and i': "sbrk_inv brk start limit s' (insert (p, z) U)"
      using mr unfolding malloc_result_def by auto
    have "is_aligned m" using chunk2mem_aligned [OF sbrk_geo(1) [OF i', of "(p, z)"]] p(1) by simp
    then have "m AND (2 ^ 4 - 1) = 0" by (simp add: is_aligned_def dl_consts)
    then have "aligned_result brk start limit s U (2 ^ 4) (request2size bytes) s' m"
      unfolding aligned_result_def using p i' mr by (auto simp: malloc_result_def intro!: less_imp_le)
    moreover have "unat alignment \<le> 2 ^ 4" using True by (simp add: dl_consts word_le_nat_alt)
    ultimately show ?thesis using st by (intro exI [of _ s'] exI [of _ m] conjI disjI2 exI [of _ "4 :: nat"]) simp_all
  qed
next
  case False
  then have "dlmemalign E s alignment bytes = internal_memalign E s alignment bytes" by (simp add: dlmemalign_def)
  moreover have "5 \<le> k \<Longrightarrow> 4 \<le> k" for k :: nat by simp
  ultimately show ?thesis using internal_memalign_sbrk [OF E i al b] by metis
qed

section \<open>calloc\<close>

lemma memset_changes:
  assumes c: "chunk_geo (q, y)" and n: "unat n + 8 \<le> unat y"
  shows "changes_mem (payload (q, y)) s (memset0 s (chunk2mem q) n)"
  unfolding changes_mem_def
proof (intro conjI allI impI)
  show "memset0 s (chunk2mem q) n = s\<lparr>mem := mem (memset0 s (chunk2mem q) n)\<rparr>" by (simp add: memset0_def)
  fix a assume a: "a \<notin> payload (q, y)"
  show "rd (memset0 s (chunk2mem q) n) a = rd s a"
  proof (cases "a - chunk2mem q < n \<and> (a - chunk2mem q) AND 7 = 0")
    case True
    define k where "k = a - chunk2mem q"
    have k: "8 dvd unat k" "unat k < unat n" using True by (simp_all add: k_def low_eight word_less_nat_alt)
    have "16 dvd unat y" using c by (simp add: chunk_geo_def is_aligned_iff)
    then have "unat k + 8 < unat y" using k n by presburger
    from payload_cell(1) [OF c k(1) this] a show ?thesis by (simp add: k_def)
  next
    case False
    then show ?thesis by (auto simp: memset0_def rd_def Let_def)
  qed
qed

lemma memset_cell:
  assumes k: "8 dvd unat k" "k < n"
  shows "same_bytes n k (rd (memset0 s d n) (d + k)) 0"
proof -
  have uk: "unat (n - k) = unat n - unat k" using k(2) by (simp add: unat_sub word_less_nat_alt word_le_nat_alt)
  have "k AND 7 = 0" using k(1) by (simp add: low_eight)
  then show ?thesis using k(2) uk
    by (cases "8 \<le> n - k"; simp add: memset0_def rd_def same_bytes_def) (rule bit_word_eqI, auto simp: bit_simps)
qed

text \<open>The size that is asked for is exact, or one that is never served.\<close>

lemma calloc_req_exact:
  "calloc_req n e = (if unat n * unat e < 2 ^ 64 then n * e else MAX_SIZE_T)"
  "unat n * unat e < 2 ^ 64 \<Longrightarrow> unat (n * e) = unat n * unat e"
proof -
  show exact: "unat n * unat e < 2 ^ 64 \<Longrightarrow> unat (n * e) = unat n * unat e"
    by (simp add: unat_word_ariths)
  show "calloc_req n e = (if unat n * unat e < 2 ^ 64 then n * e else MAX_SIZE_T)"
  proof (cases "n = 0")
    case False
    then have n0: "0 < unat n" by (simp add: unat_gt_0)
    show ?thesis
    proof (cases "unat n * unat e < 2 ^ 64")
      case True
      then have "unat (n * e div n) = unat e" using exact n0 by (simp add: unat_div)
      then have "n * e div n = e" by (simp add: word_unat_eq_iff)
      then show ?thesis using True by (simp add: calloc_req_def Let_def)
    next
      case big: False
      have "n * e div n \<noteq> e"
      proof
        assume "n * e div n = e"
        then have "unat (n * e) div unat n = unat e" using unat_div [of "n * e" n] by simp
        then have "unat n * unat e \<le> unat (n * e)" by (metis div_times_less_eq_dividend mult.commute)
        then show False using big unat_lt [of "n * e"] by simp
      qed
      moreover have "(n OR e) AND NOT 0xffff \<noteq> 0"
      proof
        assume z: "(n OR e) AND NOT 0xffff = 0"
        have "x < 65536" if x: "x = n \<or> x = e" for x :: size_t
        proof -
          have "x AND NOT 0xffff = 0" using z x by (metis bit.conj_disj_distrib2 or_eq_0_iff)
          then have "x AND NOT (mask 16) = 0" by (simp add: mask_eq_exp_minus_1)
          then have "unat x - unat x mod 2 ^ 16 = 0" using unat_and_not_mask [of x 16] by simp
          then have "unat x < 65536" using mod_less_divisor [of "2 ^ 16" "unat x"] by simp
          then show ?thesis by (simp add: word_less_nat_alt)
        qed
        then have "unat n < 65536" "unat e < 65536" by (auto simp: word_less_nat_alt)
        then have "unat n * unat e < 65536 * 65536" by (intro mult_strict_mono) simp_all
        then show False using big by simp
      qed
      ultimately show ?thesis using big False by (simp add: calloc_req_def Let_def)
    qed
  qed (simp add: calloc_req_def)
qed

text \<open>Heads are not in payloads.\<close>

lemma pinuse_client:
  assumes "changes_mem A s s'" "chunk_geo (p, z)" "A \<subseteq> payload (p, z)"
  shows "pinuse s' p = pinuse s p"
proof -
  have "p + 8 \<notin> A" using assms(3) by (auto simp: payload_def)
  then show ?thesis using changes_memD [OF assms(1)] by (simp add: pinuse_def head_def)
qed

lemma calloc_sbrk:
  assumes E: "sbrk_like E brk start limit" and i: "sbrk_inv brk start limit s U" and b: "unat n * unat e < 2 ^ 39"
  shows "\<exists>s' m. dlcalloc E s n e = Inr (s', m) \<and> malloc_result brk start limit s U (request2size (n * e)) s' m
    \<and> (m \<noteq> 0 \<longrightarrow> (\<forall>k. 8 dvd unat k \<longrightarrow> k < n * e \<longrightarrow> same_bytes (n * e) k (rd s' (m + k)) 0))"
proof -
  have r: "calloc_req n e = n * e" "unat (n * e) < 2 ^ 39" using calloc_req_exact [of n e] b by simp_all
  obtain s1 m where d: "dlmalloc E s (n * e) = Inr (s1, m)" and mr: "malloc_result brk start limit s U (request2size (n * e)) s1 m"
    using dlmalloc_sbrk [OF E i r(2)] by blast
  show ?thesis
  proof (cases "m = 0")
    case True
    then show ?thesis using d mr by (simp add: dlcalloc_def r(1))
  next
    case False
    then obtain p z where p: "m = chunk2mem p" "(p, z) \<notin> U" "request2size (n * e) \<le> z" "unat z < unat (request2size (n * e)) + 32" "pinuse s1 p"
        and i1: "sbrk_inv brk start limit s1 (insert (p, z) U)"
      using mr unfolding malloc_result_def by auto
    have c: "(p, z) \<in> insert (p, z) U" by blast
    note T = sbrk_tags [OF i1 c] and g = sbrk_geo(1) [OF i1 c]
    let ?s = "memset0 s1 m (n * e)"
    have "unat (n * e) + 8 \<le> unat z" using request2size_facts(4) [OF r(2)] p(3) by (simp add: word_le_nat_alt)
    note ch = memset_changes [OF g this, of s1, folded p(1)]
    have i2: "sbrk_inv brk start limit ?s (insert (p, z) U)" by (rule client_sbrk [OF i1 ch payload_in_stored]) simp
    obtain F where t: "topp s1 \<noteq> 0" using i1 c by (rule sbrk_heap)
    have U: "insert (p, z) U - {(p, z)} = U" using p(2) by blast
    have ma: "maddr s1 = maddr s" using mr by (simp add: malloc_result_def)
    have "rd ?s a = rd s a" if a: "a \<in> stored start limit s U" for a
    proof -
      have "a \<in> stored start limit s1 (insert (p, z) U - {(p, z)})" unfolding U using a by (simp add: stored_def state_cells_def ma)
      then have "a \<notin> payload (p, z)" using stored_other(1) [OF i1 t c] by (auto simp: payload_def)
      then have "rd ?s a = rd s1 a" by (rule changes_memD [OF ch])
      then show ?thesis using mr a by (simp add: malloc_result_def)
    qed
    then have "malloc_result brk start limit s U (request2size (n * e)) ?s m"
      unfolding malloc_result_def using p i2 False ma pinuse_client [OF ch g subset_refl] by (auto simp: memset0_def)
    moreover have "mem2chunk m = p" by (simp add: p(1) mem2chunk_def chunk2mem_def)
    then have "dlcalloc E s n e = Inr (?s, m)"
      using d T(2) False by (simp add: dlcalloc_def r(1) calloc_must_clear_def)
    ultimately show ?thesis using memset_cell by blast
  qed
qed

end
