(* ===== verification/DL_FullClient.thy ===== *)
theory DL_FullClient
  imports DL_SbrkRealloc
begin

text \<open>
  The contract of an allocator with \<open>realloc\<close>, \<open>calloc\<close> and \<open>memalign\<close>, as an extension of the
  interface of theory DL_Client, with its refinement, and the interpretation on src/src/dlmalloc.c.
\<close>

section \<open>The abstract store\<close>

datatype full_op = Basic client_op | Realloc addr size_t addr | Calloc size_t size_t addr | Memalign size_t size_t addr

text \<open>The offsets of the whole cells of a block of \<open>n\<close> bytes.\<close>

definition cell_of :: "size_t \<Rightarrow> size_t \<Rightarrow> bool" where
  "cell_of n k \<longleftrightarrow> 8 dvd unat k \<and> unat k + 8 \<le> unat n"

text \<open>What is known of the cells after the block \<open>c\<close> has become the block \<open>c'\<close> of \<open>n\<close> bytes.\<close>

definition moved :: "chunk \<Rightarrow> chunk \<Rightarrow> size_t \<Rightarrow> (addr \<Rightarrow> size_t option) \<Rightarrow> addr \<Rightarrow> size_t option" where
  "moved c c' n M a =
     (let k = a - chunk2mem (fst c') in
      if a \<in> data c' then if cell_of n k \<and> cell_of (snd c - 8) k then M (chunk2mem (fst c) + k) else None
      else if a \<in> data c then None else M a)"

definition zeroed :: "chunk \<Rightarrow> size_t \<Rightarrow> (addr \<Rightarrow> size_t option) \<Rightarrow> addr \<Rightarrow> size_t option" where
  "zeroed c n M a = (if a \<in> data c \<and> cell_of n (a - chunk2mem (fst c)) then Some 0 else M a)"

fun full_legal :: "full_op \<Rightarrow> chunk set \<Rightarrow> (addr \<Rightarrow> size_t option) \<Rightarrow> bool" where
  "full_legal (Basic op) U M \<longleftrightarrow> legal op U M"
| "full_legal (Realloc x n m) U M \<longleftrightarrow> unat n < 2 ^ 39 \<and> (x = 0 \<or> (\<exists>c\<in>U. x = chunk2mem (fst c)))"
| "full_legal (Calloc n e m) U M \<longleftrightarrow> unat n * unat e < 2 ^ 39"
| "full_legal (Memalign al n m) U M \<longleftrightarrow> unat al \<le> 2 ^ 37 \<and> unat n < 2 ^ 38"

inductive full_step :: "full_op \<Rightarrow> store \<Rightarrow> store \<Rightarrow> bool" where
  basic: "spec_step op G G' \<Longrightarrow> full_step (Basic op) G G'"
| realloc_new: "spec_step (Malloc n m) (Some G) (Some G') \<Longrightarrow> full_step (Realloc 0 n m) (Some G) (Some G')"
| realloc_some: "c \<in> U \<Longrightarrow> x = chunk2mem (fst c) \<Longrightarrow> good_block (U - {c}) n c' \<Longrightarrow> m = chunk2mem (fst c')
    \<Longrightarrow> full_step (Realloc x n m) (Some (U, M)) (Some (insert c' (U - {c}), moved c c' n M))"
| realloc_none: "full_step (Realloc x n 0) (Some (U, M)) (Some (U, M))"
| calloc_some: "good_block U (n * e) c \<Longrightarrow> m = chunk2mem (fst c)
    \<Longrightarrow> full_step (Calloc n e m) (Some (U, M)) (Some (insert c U, zeroed c (n * e) M))"
| calloc_none: "full_step (Calloc n e 0) (Some (U, M)) (Some (U, M))"
| memalign_some: "good_block U n c \<Longrightarrow> m = chunk2mem (fst c) \<Longrightarrow> unat al \<le> 2 ^ k \<Longrightarrow> 2 ^ k dvd unat m
    \<Longrightarrow> full_step (Memalign al n m) (Some (U, M)) (Some (insert c U, M))"
| memalign_none: "full_step (Memalign al n 0) (Some (U, M)) (Some (U, M))"
| full_illegal: "\<not> full_legal op U M \<Longrightarrow> full_step op (Some (U, M)) None"
| full_broken: "full_step op None None"

inductive full_run :: "full_op list \<Rightarrow> store \<Rightarrow> store \<Rightarrow> bool" where
  full_nil: "full_run [] G G"
| full_cons: "full_step op G G' \<Longrightarrow> full_run ops G' G'' \<Longrightarrow> full_run (op # ops) G G''"

section \<open>Implementations\<close>

text \<open>The functions of an allocator, for one type of states.\<close>

record 's alloc_ops =
  ao_malloc :: "'s \<Rightarrow> size_t \<Rightarrow> ('s \<times> addr) res"
  ao_free :: "'s \<Rightarrow> addr \<Rightarrow> 's res"
  ao_realloc :: "'s \<Rightarrow> addr \<Rightarrow> size_t \<Rightarrow> ('s \<times> addr) res"
  ao_calloc :: "'s \<Rightarrow> size_t \<Rightarrow> size_t \<Rightarrow> ('s \<times> addr) res"
  ao_memalign :: "'s \<Rightarrow> size_t \<Rightarrow> size_t \<Rightarrow> ('s \<times> addr) res"
  ao_load :: "'s \<Rightarrow> addr \<Rightarrow> size_t"
  ao_store :: "'s \<Rightarrow> addr \<Rightarrow> size_t \<Rightarrow> 's"

inductive run_step :: "'s alloc_ops \<Rightarrow> full_op \<Rightarrow> 's \<Rightarrow> 's \<Rightarrow> bool" for A where
  run_basic: "impl_step (ao_malloc A) (ao_free A) (ao_load A) (ao_store A) op s s' \<Longrightarrow> run_step A (Basic op) s s'"
| run_realloc: "ao_realloc A s x n = Inr (s', m) \<Longrightarrow> run_step A (Realloc x n m) s s'"
| run_calloc: "ao_calloc A s n e = Inr (s', m) \<Longrightarrow> run_step A (Calloc n e m) s s'"
| run_memalign: "ao_memalign A s al n = Inr (s', m) \<Longrightarrow> run_step A (Memalign al n m) s s'"

inductive_simps run_step_simps:
  "run_step A (Basic op) s s'" "run_step A (Realloc x n m) s s'" "run_step A (Calloc n e m) s s'"
  "run_step A (Memalign al n m) s s'"

inductive runs :: "'s alloc_ops \<Rightarrow> full_op list \<Rightarrow> 's \<Rightarrow> 's \<Rightarrow> bool" for A where
  runs_nil: "runs A [] s s"
| runs_cons: "run_step A op s s' \<Longrightarrow> runs A ops s' s'' \<Longrightarrow> runs A (op # ops) s s''"

inductive_simps runs_simps: "runs A [] s s'" "runs A (op # ops) s s'"

section \<open>The interface\<close>

locale full_allocator = block_allocator inv "ao_malloc A" "ao_free A" "ao_load A" "ao_store A"
  for inv :: "'s \<Rightarrow> chunk set \<Rightarrow> bool" and A :: "'s alloc_ops" +
  assumes resize_null: "ao_realloc A s 0 n = ao_malloc A s n"
    and resize_some: "inv s U \<Longrightarrow> c \<in> U \<Longrightarrow> unat n < 2 ^ 39 \<Longrightarrow> \<exists>s' m. ao_realloc A s (chunk2mem (fst c)) n = Inr (s', m)
      \<and> (\<forall>a\<in>live (U - {c}). ao_load A s' a = ao_load A s a)
      \<and> (m = 0 \<and> inv s' U \<and> (\<forall>a\<in>data c. ao_load A s' a = ao_load A s a)
         \<or> (\<exists>c'. m = chunk2mem (fst c') \<and> good_block (U - {c}) n c' \<and> inv s' (insert c' (U - {c}))
               \<and> (\<forall>k. cell_of n k \<longrightarrow> cell_of (snd c - 8) k \<longrightarrow> ao_load A s' (m + k) = ao_load A s (chunk2mem (fst c) + k))))"
    and zero_some: "inv s U \<Longrightarrow> unat n * unat e < 2 ^ 39 \<Longrightarrow> \<exists>s' m. ao_calloc A s n e = Inr (s', m)
      \<and> (\<forall>a\<in>live U. ao_load A s' a = ao_load A s a)
      \<and> (m = 0 \<and> inv s' U \<or> (\<exists>c. m = chunk2mem (fst c) \<and> good_block U (n * e) c \<and> inv s' (insert c U)
               \<and> (\<forall>k. cell_of (n * e) k \<longrightarrow> ao_load A s' (m + k) = 0)))"
    and aligned_some: "inv s U \<Longrightarrow> unat al \<le> 2 ^ 37 \<Longrightarrow> unat n < 2 ^ 38 \<Longrightarrow> \<exists>s' m. ao_memalign A s al n = Inr (s', m)
      \<and> (\<forall>a\<in>live U. ao_load A s' a = ao_load A s a)
      \<and> (m = 0 \<and> inv s' U \<or> (\<exists>c k. m = chunk2mem (fst c) \<and> good_block U n c \<and> inv s' (insert c U)
               \<and> unat al \<le> 2 ^ k \<and> 2 ^ k dvd unat m))"
begin

lemma knowledge:
  assumes "dom M \<subseteq> live U" "\<forall>a v. M a = Some v \<longrightarrow> ao_load A s a = v" "\<forall>a\<in>live U. ao_load A s' a = ao_load A s a"
  shows "M a = Some v \<Longrightarrow> ao_load A s' a = v" "dom M \<subseteq> live (insert c U)"
proof -
  show "M a = Some v \<Longrightarrow> ao_load A s' a = v" using assms by (metis domI subsetD)
  show "dom M \<subseteq> live (insert c U)" using assms(1) by (auto simp: live_def)
qed

lemma realloc_refines:
  assumes I: "inv s U" and d: "dom M \<subseteq> live U" and v: "\<forall>a v. M a = Some v \<longrightarrow> ao_load A s a = v"
    and c: "c \<in> U" "unat n < 2 ^ 39" and st: "ao_realloc A s (chunk2mem (fst c)) n = Inr (s', m)"
  shows "\<exists>G'. full_step (Realloc (chunk2mem (fst c)) n m) (Some (U, M)) G' \<and> rel s' G'"
proof -
  obtain s1 m1 where e: "ao_realloc A s (chunk2mem (fst c)) n = Inr (s1, m1)" and k: "\<forall>a\<in>live (U - {c}). ao_load A s1 a = ao_load A s a"
    and r: "m1 = 0 \<and> inv s1 U \<and> (\<forall>a\<in>data c. ao_load A s1 a = ao_load A s a)
      \<or> (\<exists>c'. m1 = chunk2mem (fst c') \<and> good_block (U - {c}) n c' \<and> inv s1 (insert c' (U - {c}))
            \<and> (\<forall>k. cell_of n k \<longrightarrow> cell_of (snd c - 8) k \<longrightarrow> ao_load A s1 (m1 + k) = ao_load A s (chunk2mem (fst c) + k)))"
    using resize_some [OF I c] by (elim exE conjE) (rule that)
  have "s1 = s'" "m1 = m" using e st by simp_all
  note k = k [unfolded this] and r = r [unfolded this]
  from r show ?thesis
  proof (elim disjE exE conjE)
    assume m: "m = 0" "inv s' U" "\<forall>a\<in>data c. ao_load A s' a = ao_load A s a"
    have "\<forall>a\<in>live U. ao_load A s' a = ao_load A s a" using k m(3) by (auto simp: live_def)
    note K = knowledge(1) [OF d v this]
    have "rel s' (Some (U, M))" unfolding rel_some using m(2) d K by blast
    then show ?thesis using full_step.realloc_none m(1) by blast
  next
    fix c' assume m: "m = chunk2mem (fst c')" and g: "good_block (U - {c}) n c'" and i: "inv s' (insert c' (U - {c}))"
      and b: "\<forall>k. cell_of n k \<longrightarrow> cell_of (snd c - 8) k \<longrightarrow> ao_load A s' (m + k) = ao_load A s (chunk2mem (fst c) + k)"
    have "rel s' (Some (insert c' (U - {c}), moved c c' n M))"
      unfolding rel_some
    proof (intro conjI allI impI)
      show "inv s' (insert c' (U - {c}))" by (rule i)
      show "dom (moved c c' n M) \<subseteq> live (insert c' (U - {c}))"
        using d by (force simp: moved_def live_def Let_def split: if_splits)
      fix a x assume a: "moved c c' n M a = Some x"
      show "ao_load A s' a = x"
      proof (cases "a \<in> data c'")
        case True
        let ?k = "a - chunk2mem (fst c')"
        have ck: "cell_of n ?k" "cell_of (snd c - 8) ?k" "M (chunk2mem (fst c) + ?k) = Some x"
          using a True by (simp_all add: moved_def Let_def split: if_splits)
        have "ao_load A s' (m + ?k) = ao_load A s (chunk2mem (fst c) + ?k)" using b ck(1,2) by blast
        then show ?thesis using v ck(3) by (simp add: m)
      next
        case False
        then have "M a = Some x" "a \<notin> data c" using a by (auto simp: moved_def Let_def split: if_splits)
        moreover from this have "a \<in> live (U - {c})" using d by (auto simp: live_def)
        ultimately show ?thesis using k v by metis
      qed
    qed
    then show ?thesis using full_step.realloc_some [OF c(1) refl g m] by blast
  qed
qed

lemma full_step_refines:
  assumes R: "rel s G" and st: "run_step A op s s'"
  shows "\<exists>G'. full_step op G G' \<and> rel s' G'"
proof (cases G)
  case None
  then show ?thesis using full_step.full_broken by (intro exI [of _ None]) (simp add: rel_def)
next
  case (Some UM)
  obtain U M where G: "G = Some (U, M)" using Some by (cases UM) simp
  have I: "inv s U" and d: "dom M \<subseteq> live U" and v: "\<forall>a v. M a = Some v \<longrightarrow> ao_load A s a = v"
    using R by (auto simp: G rel_some)
  show ?thesis
  proof (cases "full_legal op U M")
    case False
    then show ?thesis using full_step.full_illegal by (intro exI [of _ None]) (simp add: G rel_def)
  next
    case True
    show ?thesis
    proof (cases op)
      case (Basic b)
      then obtain G' where "spec_step b G G'" "rel s' G'" using step_refines [OF R, of b s'] st by (auto simp: run_step_simps)
      then show ?thesis using full_step.basic unfolding Basic by blast
    next
      case (Realloc x n m)
      then have a: "ao_realloc A s x n = Inr (s', m)" and n: "unat n < 2 ^ 39" and x: "x = 0 \<or> (\<exists>c\<in>U. x = chunk2mem (fst c))"
        using st True by (simp_all add: run_step_simps)
      show ?thesis
      proof (cases "x = 0")
        case True
        then have "impl_step (ao_malloc A) (ao_free A) (ao_load A) (ao_store A) (Malloc n m) s s'"
          using a by (simp add: resize_null impl_step_simps)
        from step_refines [OF R this] obtain G' where "spec_step (Malloc n m) G G'" "rel s' G'" by blast
        moreover from this obtain W where "G' = Some W" using n unfolding G by (auto elim: spec_step_someE)
        ultimately show ?thesis using full_step.realloc_new True Realloc G by blast
      next
        case False
        then obtain c where "c \<in> U" "x = chunk2mem (fst c)" using x by blast
        then show ?thesis using realloc_refines [OF I d v _ n] a by (simp add: Realloc G)
      qed
    next
      case (Calloc n e m)
      then have k: "\<forall>a\<in>live U. ao_load A s' a = ao_load A s a"
        and r: "m = 0 \<and> inv s' U \<or> (\<exists>c. m = chunk2mem (fst c) \<and> good_block U (n * e) c \<and> inv s' (insert c U)
               \<and> (\<forall>k. cell_of (n * e) k \<longrightarrow> ao_load A s' (m + k) = 0))"
        using zero_some [OF I, of n e] st True by (auto simp: run_step_simps)
      note K = knowledge [OF d v k]
      from r show ?thesis
      proof (elim disjE exE conjE)
        assume "m = 0" "inv s' U"
        then have "full_step op G (Some (U, M)) \<and> rel s' (Some (U, M))"
          using d K(1) full_step.calloc_none by (simp add: Calloc G rel_some)
        then show ?thesis by blast
      next
        fix c assume c: "m = chunk2mem (fst c)" "good_block U (n * e) c" "inv s' (insert c U)"
          and z: "\<forall>k. cell_of (n * e) k \<longrightarrow> ao_load A s' (m + k) = 0"
        have "ao_load A s' a = x" if "zeroed c (n * e) M a = Some x" for a x
        proof (cases "a \<in> data c \<and> cell_of (n * e) (a - chunk2mem (fst c))")
          case True
          then have "ao_load A s' (m + (a - chunk2mem (fst c))) = 0" using z by blast
          then show ?thesis using True that by (simp add: c(1) zeroed_def)
        next
          case False
          then have "M a = Some x" using that unfolding zeroed_def by (simp only: if_False)
          then show ?thesis by (rule K(1))
        qed
        moreover have "dom (zeroed c (n * e) M) \<subseteq> live (insert c U)"
          using d by (force simp: zeroed_def live_def split: if_splits)
        ultimately have "full_step op G (Some (insert c U, zeroed c (n * e) M)) \<and> rel s' (Some (insert c U, zeroed c (n * e) M))"
          using c full_step.calloc_some [OF c(2,1)] by (simp add: Calloc G rel_some)
        then show ?thesis by blast
      qed
    next
      case (Memalign al n m)
      then have k: "\<forall>a\<in>live U. ao_load A s' a = ao_load A s a"
        and r: "m = 0 \<and> inv s' U \<or> (\<exists>c k. m = chunk2mem (fst c) \<and> good_block U n c \<and> inv s' (insert c U)
               \<and> unat al \<le> 2 ^ k \<and> 2 ^ k dvd unat m)"
        using aligned_some [OF I, of al n] st True by (auto simp: run_step_simps)
      note K = knowledge [OF d v k]
      from r show ?thesis
      proof (elim disjE exE conjE)
        assume "m = 0" "inv s' U"
        then have "full_step op G (Some (U, M)) \<and> rel s' (Some (U, M))"
          using d K(1) full_step.memalign_none by (simp add: Memalign G rel_some)
        then show ?thesis by blast
      next
        fix c k assume c: "m = chunk2mem (fst c)" "good_block U n c" "inv s' (insert c U)" "unat al \<le> 2 ^ k" "2 ^ k dvd unat m"
        have "full_step op G (Some (insert c U, M)) \<and> rel s' (Some (insert c U, M))"
          using c(3) K full_step.memalign_some [OF c(2,1,4,5)] by (simp add: Memalign G rel_some)
        then show ?thesis by blast
      qed
    qed
  qed
qed

lemma runs_refine:
  assumes "runs A ops s s'" "rel s G"
  shows "\<exists>G'. full_run ops G G' \<and> rel s' G'"
  using assms
proof (induction arbitrary: G rule: runs.induct)
  case (runs_nil s)
  then show ?case using full_run.full_nil by blast
next
  case (runs_cons op s s' ops s'')
  then show ?case using full_step_refines full_run.full_cons by metis
qed

text \<open>No legal operation is refused.\<close>

lemma full_progress:
  assumes "inv s U"
  shows "c \<in> U \<Longrightarrow> unat n < 2 ^ 39 \<Longrightarrow> \<exists>s' m. run_step A (Realloc (chunk2mem (fst c)) n m) s s'"
    "unat n * unat e < 2 ^ 39 \<Longrightarrow> \<exists>s' m. run_step A (Calloc n e m) s s'"
    "unat al \<le> 2 ^ 37 \<Longrightarrow> unat n < 2 ^ 38 \<Longrightarrow> \<exists>s' m. run_step A (Memalign al n m) s s'"
  using resize_some [OF assms, of c n] zero_some [OF assms, of n e] aligned_some [OF assms, of al n]
  by (auto simp: run_step_simps)

end

section \<open>The implementation\<close>

definition dl_ops :: "'o os_ops \<Rightarrow> 'o state alloc_ops" where
  "dl_ops E = \<lparr>ao_malloc = dlmalloc E, ao_free = dlfree E, ao_realloc = dlrealloc E, ao_calloc = dlcalloc E,
     ao_memalign = dlmemalign E, ao_load = rd, ao_store = wr\<rparr>"

definition mspace_ops :: "'o os_ops \<Rightarrow> 'o state alloc_ops" where
  "mspace_ops E = \<lparr>ao_malloc = mspace_malloc E, ao_free = mspace_free E, ao_realloc = mspace_realloc E,
     ao_calloc = mspace_calloc E, ao_memalign = mspace_memalign E, ao_load = rd, ao_store = wr\<rparr>"

lemma dl_ops_simps [simp]:
  "ao_malloc (dl_ops E) = dlmalloc E" "ao_free (dl_ops E) = dlfree E" "ao_realloc (dl_ops E) = dlrealloc E"
  "ao_calloc (dl_ops E) = dlcalloc E" "ao_memalign (dl_ops E) = dlmemalign E" "ao_load (dl_ops E) = rd" "ao_store (dl_ops E) = wr"
  by (simp_all add: dl_ops_def)

lemma mspace_calloc_clone: "mspace_calloc E s n e = dlcalloc E s n e"
  unfolding mspace_calloc_def dlcalloc_def ok_magic_def by (simp add: internal_clones mspace_malloc_clone)

lemma mspace_realloc_clone: "mspace_realloc E s m n = dlrealloc E s m n"
  unfolding mspace_realloc_def dlrealloc_def internal_clones mspace_malloc_clone mspace_free_clone ..

lemma mspace_memalign_clone: "mspace_memalign E s al n = dlmemalign E s al n"
  unfolding mspace_memalign_def dlmemalign_def ok_magic_def by (simp add: mspace_malloc_clone)

lemma mspace_ops_eq: "mspace_ops E = dl_ops E"
  by (simp add: mspace_ops_def dl_ops_def fun_eq_iff mspace_malloc_clone mspace_free_clone mspace_calloc_clone
    mspace_realloc_clone mspace_memalign_clone)

lemma whole_cell: "cell_of n k \<Longrightarrow> same_bytes n k v v' \<Longrightarrow> v = v'"
proof -
  assume a: "cell_of n k" "same_bytes n k v v'"
  then have "unat k + 8 \<le> unat n" by (simp add: cell_of_def)
  then have "64 \<le> 8 * (unat n - unat k)" by linarith
  then have "take_bit (8 * (unat n - unat k)) x = x" for x :: size_t by (intro take_bit_word_eq_self) simp
  then show "v = v'" using a(2) by (simp add: same_bytes_def)
qed

lemma cell_lt: "cell_of n k \<Longrightarrow> 8 dvd unat k \<and> k < n"
  by (simp add: cell_of_def word_less_nat_alt)

lemma aligned_dvd: "k < 64 \<Longrightarrow> m AND (2 ^ k - 1) = 0 \<Longrightarrow> 2 ^ k dvd unat (m :: addr)"
  by (simp add: unat_and_mask_zero dvd_eq_mod_eq_0)

lemma sbrk_full_allocator:
  assumes E: "sbrk_like E brk start limit"
  shows "full_allocator (sbrk_inv brk start limit) (dl_ops E)"
proof (intro full_allocator.intro full_allocator_axioms.intro)
  show "block_allocator (sbrk_inv brk start limit) (ao_malloc (dl_ops E)) (ao_free (dl_ops E)) (ao_load (dl_ops E)) (ao_store (dl_ops E))"
    using sbrk_block_allocator [OF E] by simp
  show "ao_realloc (dl_ops E) s 0 n = ao_malloc (dl_ops E) s n" for s n by (simp add: dlrealloc_def)
next
  fix s :: "'a state" and U and c and n :: size_t
  assume i: "sbrk_inv brk start limit s U" and c: "c \<in> U" and n: "unat n < 2 ^ 39"
  obtain p z where cz: "c = (p, z)" by (cases c)
  obtain s' m where d: "dlrealloc E s (chunk2mem p) n = Inr (s', m)" and r: "realloc_result brk start limit s U c n s' m"
    using realloc_sbrk [OF E i c [unfolded cz] n] unfolding cz by blast
  have lv: "live (U - {c}) \<subseteq> stored start limit s (U - {c})" "data c \<subseteq> payload c"
    using data_payload [OF sbrk_geo(1) [OF i]] c by (auto simp: live_def stored_def)
  have k: "\<forall>a\<in>live (U - {c}). rd s' a = rd s a" using r lv(1) unfolding realloc_result_def by blast
  have "m = 0 \<and> sbrk_inv brk start limit s' U \<and> (\<forall>a\<in>data c. rd s' a = rd s a)
      \<or> (\<exists>c'. m = chunk2mem (fst c') \<and> good_block (U - {c}) n c' \<and> sbrk_inv brk start limit s' (insert c' (U - {c}))
            \<and> (\<forall>k. cell_of n k \<longrightarrow> cell_of (snd c - 8) k \<longrightarrow> rd s' (m + k) = rd s (chunk2mem (fst c) + k)))"
    using r unfolding realloc_result_def
  proof (elim conjE disjE exE)
    fix q y assume q: "m = chunk2mem q" "(q, y) \<notin> U - {c}" "request2size n \<le> y"
        and i': "sbrk_inv brk start limit s' (insert (q, y) (U - {c}))"
        and b: "\<forall>k. 8 dvd unat k \<longrightarrow> k < n \<longrightarrow> k < snd c - 8 \<longrightarrow> same_bytes n k (rd s' (chunk2mem q + k)) (rd s (chunk2mem (fst c) + k))"
    have "good_block (U - {c}) n (q, y)"
      by (rule good_new [OF i' q(2)]) (use request2size_facts(4) [OF n] q(3) in \<open>simp add: word_le_nat_alt\<close>)
    moreover have "rd s' (m + k) = rd s (chunk2mem (fst c) + k)" if "cell_of n k" "cell_of (snd c - 8) k" for k
      using b cell_lt [OF that(1)] cell_lt [OF that(2)] whole_cell [OF that(1)] by (simp add: q(1))
    ultimately show ?thesis using q(1) i' by (intro disjI2 exI [of _ "(q, y)"]) simp
  qed (use lv(2) in blast)
  then show "\<exists>s' m. ao_realloc (dl_ops E) s (chunk2mem (fst c)) n = Inr (s', m)
      \<and> (\<forall>a\<in>live (U - {c}). ao_load (dl_ops E) s' a = ao_load (dl_ops E) s a)
      \<and> (m = 0 \<and> sbrk_inv brk start limit s' U \<and> (\<forall>a\<in>data c. ao_load (dl_ops E) s' a = ao_load (dl_ops E) s a)
         \<or> (\<exists>c'. m = chunk2mem (fst c') \<and> good_block (U - {c}) n c' \<and> sbrk_inv brk start limit s' (insert c' (U - {c}))
               \<and> (\<forall>k. cell_of n k \<longrightarrow> cell_of (snd c - 8) k
                     \<longrightarrow> ao_load (dl_ops E) s' (m + k) = ao_load (dl_ops E) s (chunk2mem (fst c) + k))))"
    using d k by (simp add: cz)
next
  fix s :: "'a state" and U and n e :: size_t
  assume i: "sbrk_inv brk start limit s U" and n: "unat n * unat e < 2 ^ 39"
  obtain s' m where d: "dlcalloc E s n e = Inr (s', m)" and r: "malloc_result brk start limit s U (request2size (n * e)) s' m"
      and z: "m \<noteq> 0 \<longrightarrow> (\<forall>k. 8 dvd unat k \<longrightarrow> k < n * e \<longrightarrow> same_bytes (n * e) k (rd s' (m + k)) 0)"
    using calloc_sbrk [OF E i n] by blast
  have n39: "unat (n * e) < 2 ^ 39" using calloc_req_exact(2) [of n e] n by simp
  have k: "\<forall>a\<in>live U. rd s' a = rd s a" using r live_stored(1) [OF i] unfolding malloc_result_def by blast
  have "m = 0 \<and> sbrk_inv brk start limit s' U \<or> (\<exists>c. m = chunk2mem (fst c) \<and> good_block U (n * e) c
      \<and> sbrk_inv brk start limit s' (insert c U) \<and> (\<forall>k. cell_of (n * e) k \<longrightarrow> rd s' (m + k) = 0))"
    using r unfolding malloc_result_def
  proof (elim conjE disjE exE)
    fix q y assume q: "m = chunk2mem q" "m \<noteq> 0" "(q, y) \<notin> U" "request2size (n * e) \<le> y"
        and i': "sbrk_inv brk start limit s' (insert (q, y) U)"
    have "good_block U (n * e) (q, y)"
      by (rule good_new [OF i' q(3)]) (use request2size_facts(4) [OF n39] q(4) in \<open>simp add: word_le_nat_alt\<close>)
    moreover have "rd s' (m + k) = 0" if "cell_of (n * e) k" for k
      using z q(2) cell_lt [OF that] whole_cell [OF that] by blast
    ultimately show ?thesis using q(1) i' by (intro disjI2 exI [of _ "(q, y)"]) simp
  qed blast
  then show "\<exists>s' m. ao_calloc (dl_ops E) s n e = Inr (s', m) \<and> (\<forall>a\<in>live U. ao_load (dl_ops E) s' a = ao_load (dl_ops E) s a)
      \<and> (m = 0 \<and> sbrk_inv brk start limit s' U \<or> (\<exists>c. m = chunk2mem (fst c) \<and> good_block U (n * e) c
           \<and> sbrk_inv brk start limit s' (insert c U) \<and> (\<forall>k. cell_of (n * e) k \<longrightarrow> ao_load (dl_ops E) s' (m + k) = 0)))"
    using d k by simp
next
  fix s :: "'a state" and U and al n :: size_t
  assume i: "sbrk_inv brk start limit s U" and al: "unat al \<le> 2 ^ 37" and n: "unat n < 2 ^ 38"
  have n39: "unat n < 2 ^ 39" using n by simp
  obtain s' m where d: "dlmemalign E s al n = Inr (s', m)"
      and r: "m = 0 \<and> sbrk_inv brk start limit s' U \<and> maddr s' = maddr s \<and> (\<forall>a\<in>stored start limit s U. rd s' a = rd s a)
       \<or> (\<exists>k. 4 \<le> k \<and> k < 40 \<and> unat al \<le> 2 ^ k \<and> aligned_result brk start limit s U (2 ^ k) (request2size n) s' m)"
    using dlmemalign_sbrk [OF E i al n] by blast
  have "\<forall>a\<in>stored start limit s U. rd s' a = rd s a" using r unfolding aligned_result_def by blast
  then have k: "\<forall>a\<in>live U. rd s' a = rd s a" using live_stored(1) [OF i] by blast
  have "m = 0 \<and> sbrk_inv brk start limit s' U \<or> (\<exists>c k. m = chunk2mem (fst c) \<and> good_block U n c
      \<and> sbrk_inv brk start limit s' (insert c U) \<and> unat al \<le> 2 ^ k \<and> 2 ^ k dvd unat m)"
    using r unfolding aligned_result_def
  proof (elim conjE disjE exE)
    fix k q y assume q: "m = chunk2mem q" "(q, y) \<notin> U" "request2size n \<le> y" and i': "sbrk_inv brk start limit s' (insert (q, y) U)"
        and a: "k < 40" "unat al \<le> 2 ^ k" "m AND (2 ^ k - 1) = 0"
    have "good_block U n (q, y)"
      by (rule good_new [OF i' q(2)]) (use request2size_facts(4) [OF n39] q(3) in \<open>simp add: word_le_nat_alt\<close>)
    moreover have "2 ^ k dvd unat m" using aligned_dvd [OF _ a(3)] a(1) by simp
    ultimately show ?thesis using q(1) i' a(2) by (intro disjI2 exI [of _ "(q, y)"] exI [of _ k]) simp
  qed blast
  then show "\<exists>s' m. ao_memalign (dl_ops E) s al n = Inr (s', m) \<and> (\<forall>a\<in>live U. ao_load (dl_ops E) s' a = ao_load (dl_ops E) s a)
      \<and> (m = 0 \<and> sbrk_inv brk start limit s' U \<or> (\<exists>c k. m = chunk2mem (fst c) \<and> good_block U n c
           \<and> sbrk_inv brk start limit s' (insert c U) \<and> unat al \<le> 2 ^ k \<and> 2 ^ k dvd unat m))"
    using d k by simp
qed

interpretation full: full_allocator "sbrk_inv (\<lambda>x. x) 0x100000 0x500000" "dl_ops brk_os"
  by (rule sbrk_full_allocator [OF brk_os_sbrk])

interpretation full_mspace: full_allocator "sbrk_inv (\<lambda>x. x) 0x100000 0x500000" "mspace_ops brk_os"
  unfolding mspace_ops_eq by (rule sbrk_full_allocator [OF brk_os_sbrk])

end
