(* ===== verification/DL_CheckProps.thy ===== *)
theory DL_CheckProps
  imports DL_FullClient DL_Debug
begin

text \<open>
  The chunks of a well-formed heap pass the checks of the code itself: what the DEBUG build of
  src/src/dlmalloc.c asserts of chunks in use and of free chunks (\<open>do_check_inuse_chunk\<close>, \<open>do_check_free_chunk\<close>).
\<close>

section \<open>The links of free chunks\<close>

lemma ring_links:
  assumes l: "linked s u xs u" and x: "x \<in> set (u # xs)"
  shows "bk s (fd s x) = x" "fd s (bk s x) = x"
proof -
  have "bk s (fd s x) = x \<and> fd s (bk s x) = x"
  proof (cases "x = u")
    case True
    have "fd s u = hd (xs @ [u])" by (rule linked_fd_first [OF l])
    moreover have "bk s u = last (u # xs)" by (rule linked_bk_last [OF l])
    moreover have "bk s (hd (xs @ [u])) = u" using l by (cases xs) auto
    moreover have "fd s (last (u # xs)) = u" using l by (cases xs rule: rev_cases) (auto simp: linked_append)
    ultimately show ?thesis using True by simp
  next
    case False
    then obtain ys zs where xs: "xs = ys @ x # zs" using x split_list [of x xs] by auto
    have l1: "linked s u ys x" and l2: "linked s x zs u" using l by (simp_all add: xs linked_append)
    have "bk s (fd s x) = x" using l2 by (cases zs) auto
    moreover have "fd s (bk s x) = x" using l1 by (cases ys rule: rev_cases) (auto simp: linked_append)
    ultimately show ?thesis by simp
  qed
  then show "bk s (fd s x) = x" "fd s (bk s x) = x" by simp_all
qed

lemma tree_links:
  assumes "tree_in s i par slot t" "x \<in> set (nodes t)"
  shows "bk s (fd s x) = x \<and> fd s (bk s x) = x"
  using assms
proof (induction t arbitrary: par slot)
  case (Node p ch z l r)
  then have "linked s p ch p" by (simp add: node_ok_def)
  note R = ring_links [OF this]
  show ?case
  proof (cases "x \<in> set (p # ch)")
    case True
    then show ?thesis using R by simp
  next
    case False
    then show ?thesis using Node by auto
  qed
qed simp

lemma free_links:
  assumes F: "free_rep s F" and c: "(p, z) \<in> F"
  shows "bk s (fd s p) = p" "fd s (bk s p) = p"
proof -
  obtain L T where f: "free_ok s L T F" using F by (auto simp: free_rep_def)
  then consider (s) "(p, z) \<in> small_entries s L" | (t) "(p, z) \<in> tree_entries T"
    using c by (auto simp: free_ok_def)
  then consider (small) i where "i < 32" "p \<in> set (L i)" | (tree) i where "i < 32" "p \<in> set (nodes (T i))"
  proof cases
    case s
    then show ?thesis using that(1) by (auto simp: small_entries_def small_chunks_def)
  next
    case t
    then obtain i where i: "i < 32" "(p, z) \<in> entries (T i)" by (auto simp: tree_entries_def)
    then have "p \<in> fst ` entries (T i)" by force
    then show ?thesis using that(2) i(1) unfolding entries_nodes by blast
  qed
  then have "bk s (fd s p) = p \<and> fd s (bk s p) = p"
  proof cases
    case small
    then obtain xs ys where "L i = xs @ p # ys" using split_list by metis
    moreover have "smallbins_ok s L" using f by (simp add: free_ok_def small_store_def)
    ultimately show ?thesis using unlink_links(3,4) [of s L i xs p ys] small(1) by simp
  next
    case tree
    have "treebins_ok s T" using f by (simp add: free_ok_def)
    from treebins_okD(6) [OF this tree(1)] show ?thesis by (rule tree_links [OF _ tree(2)])
  qed
  then show "bk s (fd s p) = p" "fd s (bk s p) = p" by simp_all
qed

section \<open>Chunks\<close>

lemma next_is_fin:
  "chunksize s p = z \<Longrightarrow> next_chunk s p = p + z" "chunksize s p = z \<Longrightarrow> next_pinuse s p = pinuse s (p + z)"
  by (simp_all add: next_chunk_def next_pinuse_def pinuse_def chunksize_def head_size_def head_pinuse_def)

lemma any_chunk:
  assumes O: "open_heap w s U F D T H" and c: "(p, z) \<in> U \<union> F \<union> D \<union> T \<union> H"
  shows "do_check_any_chunk s p"
  using chunk2mem_aligned [OF open_chunk [OF O c]] open_heapD(8) [OF O UnI1 [OF imageI [OF c]]]
  by (simp add: do_check_any_chunk_def)

lemma check_inuse:
  assumes h: "heap s U F V K" and c: "(p, z) \<in> U"
  shows "do_check_inuse_chunk s p"
proof -
  have O: "open_heap (heap_arena s V K UNIV) s U F (dvset s) (topset s) {}" by (rule heap_enter [OF h]) blast
  note t = tags_heap [OF O]
  have cz: "chunksize s p = z" using t(1) [of "(p, z)"] c by simp
  have cw: "is_inuse s p" "\<not> is_mmapped s p" using cinuse_words [of s p] t(2) [of "(p, z)"] c by simp_all
  have "pinuse s (p + z)" using used_next(2) [OF O c] by simp
  then have n: "next_pinuse s p" using next_is_fin(2) [OF cz] by simp
  have "next_chunk s (prev_chunk s p) = p" if np: "\<not> pinuse s p"
  proof -
    have "p \<in> fst ` (U \<union> F \<union> dvset s \<union> topset s) \<union> fences (heap_arena s V K UNIV)"
      using imageI [OF c, of fst] by (simp add: image_Un)
    from pinuse_heap [OF O this] np have "p \<in> fin ` (F \<union> dvset s)" by simp
    then obtain d where d: "d \<in> F \<union> dvset s" "p = fin d" by (rule imageE)
    have "prev_foot s p = snd d" "chunksize s (fst d) = snd d" using t(1,5) [of d] d by auto
    then show ?thesis using d(2) next_is_fin(1) [of s "fst d" "snd d"] by (simp add: prev_chunk_def fin_def)
  qed
  then show ?thesis
    using any_chunk [OF O, of p z] c cw n by (auto simp: do_check_inuse_chunk_def)
qed

lemma check_free:
  assumes h: "heap s U F V K" and c: "(p, z) \<in> F \<union> dvset s"
  shows "do_check_free_chunk s p"
proof -
  have O: "open_heap (heap_arena s V K UNIV) s U F (dvset s) (topset s) {}" by (rule heap_enter [OF h]) blast
  note t = tags_heap [OF O] and D = heap_disjoint [OF O]
  have cA: "(p, z) \<in> U \<union> F \<union> dvset s \<union> topset s \<union> {}" using c by blast
  have cz: "chunksize s p = z" using t(1) [of "(p, z)"] c by auto
  have nx: "p + z \<in> fst ` U \<union> V" "\<not> pinuse s (p + z)" using free_next [OF O c] by simp_all
  have pin: "pinuse s p"
  proof -
    have "p \<in> fst ` (U \<union> F \<union> dvset s \<union> topset s) \<union> fences (heap_arena s V K UNIV)"
      using imageI [OF c, of fst] by (simp add: image_Un)
    moreover have "p \<notin> fin ` (F \<union> dvset s)"
      using layoutD(7) [OF open_heapD(3) [OF O]] imageI [OF c, of fst] by auto
    ultimately show ?thesis using pinuse_heap [OF O] by simp
  qed
  have nc: "\<not> cinuse s p" using t(3) [of "(p, z)"] c by auto
  have ni: "\<not> is_inuse s p" using nc pin free_words by (simp add: is_inuse_def cinuse_def pinuse_def)
  have nm: "\<not> is_mmapped s p"
  proof -
    have "head s p AND 3 \<noteq> 0" using pin low_parts(2) [of "head s p"] by (auto simp: pinuse_def head_pinuse_def dl_consts)
    then show ?thesis by (simp add: is_mmapped_def head_mmapped_def dl_consts)
  qed
  have g: "chunk_geo (p, z)" by (rule open_chunk [OF O cA])
  have "MIN_CHUNK_SIZE \<le> z" using size_large [OF O, of "(p, z)"] c by (auto simp: dl_consts word_le_nat_alt)
  moreover have "z AND CHUNK_ALIGN_MASK = 0" using g by (simp add: chunk_geo_def is_aligned_def)
  moreover have "is_aligned (chunk2mem p)" using chunk2mem_aligned [OF g] by simp
  moreover have "prev_foot s (p + z) = z" using t(5) [of "(p, z)"] c by simp
  moreover have "is_inuse s (p + z)"
  proof -
    have "cinuse s (p + z)" using t(2,4) nx(1) by (auto simp: image_iff)
    then show ?thesis using cinuse_words by blast
  qed
  moreover have "bk s (fd s p) = p \<and> fd s (bk s p) = p" if "p \<noteq> dv s"
    using free_links [OF open_heapD(1) [OF O], of p z] c that by (auto simp: dvset_def split: if_splits)
  ultimately show ?thesis
    using any_chunk [OF O cA] ni nm nx(2) pin
    by (simp add: do_check_free_chunk_def Let_def cz next_is_fin(2) [OF cz] chunk_plus_offset_def)
qed

end
