(* ===== verification/DL_ApiProps.thy ===== *)
theory DL_ApiProps
  imports DL_HeapProps DL_CheckProps
begin

text \<open>
  What the exported functions of src/src/dlmalloc.c promise: the refinement of the whole interface,
  reallocation, cleared and aligned allocation, and resizing on any heap.
\<close>

section \<open>The whole interface\<close>

text \<open>
  C1. Refinement of the whole interface: every run of a client of \<open>malloc\<close>, \<open>free\<close>, \<open>realloc\<close>,
  \<open>calloc\<close> and \<open>memalign\<close> that starts with the static state of the process, on a system whose break
  moves as \<open>sbrk\<close> documents, is a run of the abstract store: a reallocated block has the old
  contents up to the smaller of the two sizes, a cleared block reads 0, an aligned block is aligned.
\<close>

theorem interface_refines_store:
  assumes "sbrk_like E brk start limit" "sbrk_inv brk start limit s {}" "runs (dl_ops E) ops s s'"
  shows "\<exists>G. full_run ops (Some ({}, Map.empty)) G"
proof -
  note B = sbrk_full_allocator [OF assms(1)]
  have "block_allocator.rel (sbrk_inv brk start limit) (ao_load (dl_ops E)) s (Some ({}, Map.empty))"
    using block_allocator.rel_some [OF full_allocator.axioms(1) [OF B]] assms(2) by simp
  from full_allocator.runs_refine [OF B assms(3) this] show ?thesis by blast
qed

text \<open>A run with every kind of operation, evaluated.\<close>

definition sample_ops :: "full_op list" where
  "sample_ops = [Basic (Malloc 100 0x100010), Basic (Store 0x100010 7), Realloc 0x100010 1000 0x100010, Basic (Load 0x100010 7),
     Calloc 5 40 0x100400, Basic (Load 0x100408 0), Memalign 256 40 0x100500, Basic (Free 0x100010)]"

definition sample_trace :: "(addr \<times> addr \<times> size_t \<times> addr \<times> size_t \<times> addr \<times> addr) res" where
  "sample_trace = bindR (dlmalloc brk_os start_state 100) (\<lambda>(s1, a). bindR (dlrealloc brk_os (wr s1 0x100010 7) 0x100010 1000) (\<lambda>(s2, a2).
     bindR (dlcalloc brk_os s2 5 40) (\<lambda>(s3, b). bindR (dlmemalign brk_os s3 256 40) (\<lambda>(s4, c).
     bindR (dlfree brk_os s4 0x100010) (\<lambda>s5. Inr (a, a2, rd s2 0x100010, b, rd s3 0x100408, c, topp s5))))))"

lemma sample_trace_value: "sample_trace = Inr (0x100010, 0x100010, 7, 0x100400, 0, 0x100500, 0x100520)"
  by code_simp

lemma sample_runs: "\<exists>s. runs (dl_ops brk_os) sample_ops start_state s"
proof -
  obtain s1 s2 s3 s4 s5 where s: "dlmalloc brk_os start_state 100 = Inr (s1, 0x100010)"
      "dlrealloc brk_os (wr s1 0x100010 7) 0x100010 1000 = Inr (s2, 0x100010)" "rd s2 0x100010 = 7"
      "dlcalloc brk_os s2 5 40 = Inr (s3, 0x100400)" "rd s3 0x100408 = 0" "dlmemalign brk_os s3 256 40 = Inr (s4, 0x100500)"
      "dlfree brk_os s4 0x100010 = Inr s5"
    using sample_trace_value unfolding sample_trace_def by (auto simp: bindR_eq_Inr)
  have "runs (dl_ops brk_os) sample_ops start_state s5"
    unfolding sample_ops_def using s by (auto simp: runs_simps run_step_simps impl_step_simps)
  then show ?thesis by blast
qed

theorem interface_refines_store_witness:
  "\<exists>s. runs (dl_ops brk_os) sample_ops start_state s \<and> (\<exists>G. full_run sample_ops (Some ({}, Map.empty)) G)"
proof -
  obtain s where "runs (dl_ops brk_os) sample_ops start_state s" using sample_runs by blast
  then show ?thesis using interface_refines_store [OF brk_os_sbrk start_inv] by blast
qed

section \<open>Single calls\<close>

text \<open>
  C6. \<open>realloc\<close> of a live block to less than \<open>2 ^ 39\<close> bytes, on a system whose break moves as \<open>sbrk\<close>
  documents and on which \<open>mmap\<close> always fails (one segment, no mapped chunk to resize with
  \<open>mmap_resize\<close>): it returns, 0 with the block and all contents as they were, or a block of at least
  the new size, in the old or a new place, with the old bytes up to the smaller size; only the old
  block is gone, and the contents of all others stay.
\<close>

theorem dlrealloc_total:
  assumes "sbrk_like E brk start limit" "sbrk_inv brk start limit s U" "(p, z) \<in> U" "unat bytes < 2 ^ 39"
  shows "\<exists>s' m. dlrealloc E s (chunk2mem p) bytes = Inr (s', m) \<and> (\<forall>a\<in>stored start limit s (U - {(p, z)}). rd s' a = rd s a)
    \<and> (m = 0 \<and> sbrk_inv brk start limit s' U \<and> (\<forall>a\<in>payload (p, z). rd s' a = rd s a)
       \<or> (\<exists>q y. m = chunk2mem q \<and> (q, y) \<notin> U - {(p, z)} \<and> request2size bytes \<le> y \<and> unat y < unat (request2size bytes) + 32
             \<and> sbrk_inv brk start limit s' (insert (q, y) (U - {(p, z)}))
             \<and> (\<forall>k. 8 dvd unat k \<longrightarrow> k < bytes \<longrightarrow> k < z - 8
                  \<longrightarrow> same_bytes bytes k (rd s' (m + k)) (rd s (chunk2mem p + k)))))"
  using realloc_sbrk [OF assms] unfolding realloc_result_def by (simp only: fst_conv snd_conv) blast

theorem dlrealloc_total_witness:
  "\<exists>s p z s' m. sbrk_inv (\<lambda>x. x) 0x100000 0x500000 s {(p, z)} \<and> dlrealloc brk_os s (chunk2mem p) 1000 = Inr (s', m)
    \<and> (\<exists>q y. sbrk_inv (\<lambda>x. x) 0x100000 0x500000 s' {(q, y)})"
proof -
  obtain s :: "addr state" and p z where i: "sbrk_inv (\<lambda>x. x) 0x100000 0x500000 s {(p, z)}" by (rule live_state)
  have "unat (1000 :: size_t) < 2 ^ 39" by simp
  from dlrealloc_total [OF brk_os_sbrk i singletonI this] obtain s' m where
    d: "dlrealloc brk_os s (chunk2mem p) 1000 = Inr (s', m)" and
    "sbrk_inv (\<lambda>x. x) 0x100000 0x500000 s' {(p, z)} \<or> (\<exists>q y. sbrk_inv (\<lambda>x. x) 0x100000 0x500000 s' {(q, y)})"
    by auto
  then have "\<exists>q y. sbrk_inv (\<lambda>x. x) 0x100000 0x500000 s' {(q, y)}" by blast
  then show ?thesis using i d by blast
qed

text \<open>
  C9. \<open>calloc\<close> with \<open>n * e < 2 ^ 39\<close>, on a system whose break moves as \<open>sbrk\<close> documents and on which
  \<open>mmap\<close> always fails: it returns 0, or a new block for \<open>n * e\<close> bytes in which every byte reads 0;
  the contents of all other blocks stay. No chunk is mapped there, so that every new block is
  cleared: the branch of \<open>calloc_must_clear\<close> that skips it for fresh mappings is not reached.
\<close>

theorem dlcalloc_total:
  assumes "sbrk_like E brk start limit" "sbrk_inv brk start limit s U" "unat n * unat e < 2 ^ 39"
  shows "\<exists>s' m. dlcalloc E s n e = Inr (s', m) \<and> (\<forall>a\<in>stored start limit s U. rd s' a = rd s a)
    \<and> (m = 0 \<and> sbrk_inv brk start limit s' U
       \<or> (\<exists>p z. m = chunk2mem p \<and> (p, z) \<notin> U \<and> unat n * unat e + 8 \<le> unat z \<and> sbrk_inv brk start limit s' (insert (p, z) U)
            \<and> (\<forall>k. 8 dvd unat k \<longrightarrow> k < n * e \<longrightarrow> same_bytes (n * e) k (rd s' (m + k)) 0)))"
proof -
  have u: "unat (n * e) = unat n * unat e" "unat (n * e) < 2 ^ 39" using calloc_req_exact(2) [of n e] assms(3) by simp_all
  obtain s' m where d: "dlcalloc E s n e = Inr (s', m)" and r: "malloc_result brk start limit s U (request2size (n * e)) s' m"
      and z: "m \<noteq> 0 \<longrightarrow> (\<forall>k. 8 dvd unat k \<longrightarrow> k < n * e \<longrightarrow> same_bytes (n * e) k (rd s' (m + k)) 0)"
    using calloc_sbrk [OF assms] by blast
  have "unat n * unat e + 8 \<le> unat y" if "request2size (n * e) \<le> y" for y
    using request2size_facts(4) [OF u(2)] that u(1) by (simp add: word_le_nat_alt)
  then show ?thesis using d r z unfolding malloc_result_def by blast
qed

theorem dlcalloc_total_witness:
  "\<exists>s' m. dlcalloc brk_os start_state 5 40 = Inr (s', m) \<and> (\<exists>U. sbrk_inv (\<lambda>x. x) 0x100000 0x500000 s' U)"
proof -
  have "unat (5 :: size_t) * unat (40 :: size_t) < 2 ^ 39" by simp
  from dlcalloc_total [OF brk_os_sbrk start_inv this] show ?thesis by blast
qed

text \<open>
  C25. The size \<open>calloc\<close> asks for is the exact product, or, when the product does not fit a word,
  \<open>MAX_SIZE_T\<close>, which no source of memory serves.
\<close>

theorem calloc_req_no_wrap:
  "calloc_req n e = (if unat n * unat e < 2 ^ 64 then n * e else MAX_SIZE_T)
    \<and> (unat (calloc_req n e) = unat n * unat e \<or> calloc_req n e = MAX_SIZE_T)"
  using calloc_req_exact [of n e] by simp

text \<open>
  C8. Aligned allocation with an alignment of at most \<open>2 ^ 37\<close> and less than \<open>2 ^ 38\<close> bytes, on a
  system whose break moves as \<open>sbrk\<close> documents and on which \<open>mmap\<close> always fails (no mapped chunk is
  split): it returns 0, or a new block of at least the padded size at an address that is a multiple
  of a power of two not below the alignment asked for; what lies before the aligned spot and behind
  the block is given back, and all contents stay.
\<close>

theorem dlmemalign_total:
  assumes "sbrk_like E brk start limit" "sbrk_inv brk start limit s U" "unat alignment \<le> 2 ^ 37" "unat bytes < 2 ^ 38"
  shows "\<exists>s' m. dlmemalign E s alignment bytes = Inr (s', m) \<and> (\<forall>a\<in>stored start limit s U. rd s' a = rd s a)
    \<and> (m = 0 \<and> sbrk_inv brk start limit s' U
       \<or> (\<exists>k q y. unat alignment \<le> 2 ^ k \<and> 2 ^ k dvd unat m \<and> m = chunk2mem q \<and> (q, y) \<notin> U \<and> request2size bytes \<le> y
            \<and> unat y \<le> unat (request2size bytes) + 32 \<and> sbrk_inv brk start limit s' (insert (q, y) U)))"
proof -
  obtain s' m where d: "dlmemalign E s alignment bytes = Inr (s', m)"
      and r: "m = 0 \<and> sbrk_inv brk start limit s' U \<and> maddr s' = maddr s \<and> (\<forall>a\<in>stored start limit s U. rd s' a = rd s a)
       \<or> (\<exists>k. 4 \<le> k \<and> k < 40 \<and> unat alignment \<le> 2 ^ k \<and> aligned_result brk start limit s U (2 ^ k) (request2size bytes) s' m)"
    using dlmemalign_sbrk [OF assms] by blast
  have "2 ^ k dvd unat m" if "k < 40" "m AND (2 ^ k - 1) = 0" for k using aligned_dvd [OF _ that(2)] that(1) by simp
  then show ?thesis using d r unfolding aligned_result_def by blast
qed

theorem dlmemalign_total_witness:
  "\<exists>s' m. dlmemalign brk_os start_state 256 40 = Inr (s', m) \<and> (m = 0 \<or> (\<exists>k. 256 \<le> (2 :: nat) ^ k \<and> 2 ^ k dvd unat m))"
proof -
  have "unat (256 :: size_t) \<le> 2 ^ 37" "unat (40 :: size_t) < 2 ^ 38" by simp_all
  from dlmemalign_total [OF brk_os_sbrk start_inv this] show ?thesis by auto
qed

section \<open>Resizing on any heap\<close>

text \<open>
  C7. \<open>try_realloc_chunk\<close> of a chunk in use, on any heap, with any number of segments, never reports
  corruption: the chunk is cut, grows into the top chunk, the victim or a free neighbour, or nothing
  changes; what it keeps of its contents, and the contents of all other chunks, stay.
\<close>

theorem try_realloc_keeps_heap:
  assumes h: "heap s U F V K" and c: "(p, z) \<in> U" "own (p, z) \<inter> K = {}" and n: "is_aligned nb" "32 \<le> unat nb"
  shows "\<exists>s' r. try_realloc_chunk E s p nb can_move = Inr (s', r)
    \<and> (r = 0 \<and> s' = s \<and> z < nb
       \<or> r = p \<and> (\<exists>y F'. nb \<le> y \<and> unat y < unat nb + 32 \<and> heap s' (insert (p, y) (U - {(p, z)})) F' V K))
    \<and> (\<forall>d\<in>U. \<forall>a\<in>payload d - K. a \<notin> tail_cells p z nb \<longrightarrow> rd s' a = rd s a)"
proof -
  obtain r where r: "try_realloc_chunk E s p nb can_move = Inr r" "resized s U F V K p z nb r"
    using try_realloc_heap [OF h c n] by blast
  have "rd (fst r) a = rd s a" if "d \<in> U" "a \<in> payload d - K" "a \<notin> tail_cells p z nb" for d a
    using r(2) payload_apart(1) [OF h that(1), of a] that(2,3) unfolding resized_def by (auto simp: moves_def)
  moreover obtain s' x where "r = (s', x)" by (cases r)
  ultimately show ?thesis using r unfolding resized_def by fastforce
qed

theorem try_realloc_keeps_heap_witness:
  "\<exists>s p z s' r. try_realloc_chunk brk_os (s :: addr state) p 1008 1 = Inr (s', r) \<and> (r = 0 \<or> r = p)
    \<and> (\<exists>F. heap s {(p, z)} F {} (foreign 0x500000 s))"
proof -
  obtain s :: "addr state" and p z where i: "sbrk_inv (\<lambda>x. x) 0x100000 0x500000 s {(p, z)}" "topp s \<noteq> 0" by (rule live_state)
  then obtain F where h: "heap s {(p, z)} F {} (foreign 0x500000 s)" and o: "own (p, z) \<inter> foreign 0x500000 s = {}"
    using sbrk_invD(7) [OF i] by (auto simp: grown_def)
  have "is_aligned (1008 :: size_t)" "32 \<le> unat (1008 :: size_t)" by (simp_all add: is_aligned_iff)
  from try_realloc_keeps_heap [OF h singletonI o this, of brk_os 1] h show ?thesis by blast
qed

end
