(* ===== verification/DL_StateCheck.thy ===== *)
theory DL_StateCheck
  imports DL_CheckProps
begin

text \<open>
  The bins of a well-formed heap pass the checks of the code itself (\<open>do_check_smallbin\<close>,
  \<open>do_check_treebin\<close> in src/src/dlmalloc.c), and \<open>bin_find\<close> decides which chunks are in a bin.
  All their loops terminate.
\<close>

section \<open>Loops along a list\<close>

lemma fd_find_linked:
  assumes "linked s u xs w" "w \<notin> set xs"
  shows "fd_find_loop s x w u = Some (Inr (x \<in> set (u # xs)))"
  using assms
proof (induction xs arbitrary: u)
  case Nil
  then show ?case using fd_find_loop.simps [of s x w u] by auto
next
  case (Cons v vs)
  then show ?case using fd_find_loop.simps [of s x w u] by (auto simp: eq_commute [of v x])
qed

text \<open>The part of a chain after the tree node.\<close>

lemma check_chained:
  assumes "linked s u xs t" "t \<notin> set xs" "h \<noteq> 0" "\<forall>x\<in>set (u # xs). check_tree_node s t x h \<and> parent s x = 0"
  shows "check_tree_loop s t u h = Some True"
  using assms
proof (induction xs arbitrary: u)
  case Nil
  then show ?case using check_tree_loop.simps [of s t u h] by simp
next
  case (Cons v vs)
  then show ?case using check_tree_loop.simps [of s t u h] by auto
qed

section \<open>Trees\<close>

text \<open>What the checks of a tree ask of each chunk and of the sizes.\<close>

definition node_sound :: "'o state \<Rightarrow> addr \<Rightarrow> bool" where
  "node_sound s x \<longleftrightarrow> do_check_any_chunk s x \<and> \<not> is_inuse s x \<and> \<not> next_pinuse s x"

definition size_sound :: "u32 \<Rightarrow> size_t \<Rightarrow> bool" where
  "size_sound i z \<longleftrightarrow> i = compute_tree_index z \<and> MIN_LARGE_SIZE \<le> z \<and> minsize_for_tree_index i \<le> z
     \<and> (i = NTREEBINS - 1 \<or> z < minsize_for_tree_index (i + 1))"

lemma check_index: "tchunk_ok s i z p \<Longrightarrow> size_sound i z \<Longrightarrow> check_tree_index s p"
  by (auto simp: check_tree_index_def tchunk_ok_def size_sound_def Let_def)

lemma check_tree_ok:
  assumes t: "tree_in s i par slot (Node p ch z l r)" and o: "ordered (Node p ch z l r)"
    and n: "distinct (nodes (Node p ch z l r))" "\<forall>x\<in>set (nodes (Node p ch z l r)). node_sound s x"
    and z: "\<forall>y\<in>sizes (Node p ch z l r). size_sound i y"
    and par: "par \<noteq> 0" "par \<noteq> p" "slot = par \<or> slot = par + 32 \<or> slot = par + 40"
  shows "check_tree_index s p \<and> check_tree_loop s p p 0 = Some True"
  using assms
proof (induction "Node p ch z l r" arbitrary: p ch z l r par slot)
  case (Node p ch z l r)
  have N: "rd s slot = p" "parent s p = par" "linked s p ch p" "\<forall>q\<in>set (p # ch). tchunk_ok s i z q" "\<forall>q\<in>set ch. chained_ok s q"
    and L: "tree_in s i p (p + 32) l" and R: "tree_in s i p (p + 40) r"
    using Node.prems(1) by (simp_all add: node_ok_def)
  have p0: "p \<noteq> 0" using N(4) by (simp add: tchunk_ok_def)
  have links: "bk s (fd s x) = x \<and> fd s (bk s x) = x" if "x \<in> set (p # ch)" for x using ring_links [OF N(3) that] by simp
  have sub: "child s p 0 = rd s (p + 32)" "child s p 1 = rd s (p + 40)" by (simp_all add: child_def)
  have kid: "(rd s sl \<noteq> 0 \<longrightarrow> parent s (rd s sl) = p \<and> rd s sl \<noteq> p \<and> chunksize s (rd s sl) \<in> sizes t
        \<and> check_tree_index s (rd s sl) \<and> check_tree_loop s (rd s sl) (rd s sl) 0 = Some True)"
    if c: "(sl, t) = (p + 32, l) \<or> (sl, t) = (p + 40, r)" for sl t
  proof (cases t)
    case Tip
    then show ?thesis using c L R by auto
  next
    case t: (Node q qs y a b)
    have tr: "tree_in s i p sl t" using c L R by auto
    then have q: "rd s sl = q" "parent s q = p" "chunksize s q = y" by (simp_all add: t node_ok_def tchunk_ok_def)
    have "check_tree_index s q \<and> check_tree_loop s q q 0 = Some True"
      using c
    proof
      assume "(sl, t) = (p + 32, l)"
      then show ?thesis using Node.hyps(1) [of q qs y a b p "p + 32"] Node.prems t tr p0 by auto
    next
      assume "(sl, t) = (p + 40, r)"
      then show ?thesis using Node.hyps(2) [of q qs y a b p "p + 40"] Node.prems t tr p0 by auto
    qed
    moreover have "q \<noteq> p" using Node.prems(3) c t by auto
    ultimately show ?thesis using q t by simp
  qed
  note kl = kid [of "p + 32" l, simplified] and kr = kid [of "p + 40" r, simplified]
  have "chunksize s (rd s (p + 32)) < chunksize s (rd s (p + 40))" if "rd s (p + 32) \<noteq> 0" "rd s (p + 40) \<noteq> 0"
    using that kl kr Node.prems(2) by simp
  then have node: "check_tree_node s p p 0"
    using Node.prems(4,6,7,8) N(1,2,4) links [of p] kl kr sub
    by (auto simp: check_tree_node_def node_sound_def child_def tchunk_ok_def)
  have chain: "check_tree_node s p x p \<and> parent s x = 0" if "x \<in> set ch" for x
    using Node.prems(4) N(4,5) links [of x] that by (auto simp: check_tree_node_def node_sound_def chained_ok_def tchunk_ok_def)
  have "check_tree_loop s p p 0 = (if fd s p \<noteq> p then check_tree_loop s p (fd s p) p else Some True)"
    using check_tree_loop.simps [of s p p 0] node kl kr sub N(2) Node.prems(6) p0 by (simp add: Let_def)
  also have "\<dots> = Some True"
  proof (cases ch)
    case (Cons v vs)
    then have "linked s v vs p" "fd s p = v" "p \<notin> set vs" using N(3) Node.prems(3) by auto
    then show ?thesis using check_chained [of s v vs p p] chain p0 Cons by simp
  qed (use N(3) in simp)
  finally show ?case using check_index [of s i z p] N(4) Node.prems(5) by simp
qed

text \<open>The search of \<open>bin_find\<close> for a size.\<close>

lemma entry_size: "(x, z) \<in> entries t \<Longrightarrow> z \<in> sizes t"
  unfolding entries_sizes [symmetric] by force

lemma tree_find_ok:
  assumes "tree_in s i par slot t" "shape k t"
  shows "\<exists>q. tree_find_loop s z (rd s slot) (k z) = Some (Inr q)
    \<and> (if z \<in> sizes t then \<exists>ch. linked s q ch q \<and> q \<noteq> 0 \<and> set (q # ch) = {x. (x, z) \<in> entries t} \<and> (distinct (nodes t) \<longrightarrow> q \<notin> set ch)
       else q = 0)"
  using assms
proof (induction t arbitrary: par slot k)
  case Tip
  then show ?case using tree_find_loop.simps [of s z 0 "k z"] by simp
next
  case (Node p ch y l r)
  have N: "rd s slot = p" "p \<noteq> 0" "chunksize s p = y" "linked s p ch p"
    using Node.prems(1) by (simp_all add: node_ok_def tchunk_ok_def)
  have sh: "y \<notin> sizes l \<union> sizes r" "\<forall>x\<in>sizes l. \<not> bit (k x) 63" "\<forall>x\<in>sizes r. bit (k x) 63"
    "shape (\<lambda>x. push_bit 1 (k x)) l" "shape (\<lambda>x. push_bit 1 (k x)) r" using Node.prems(2) by simp_all
  show ?case
  proof (cases "z = y")
    case True
    have "(x, z) \<notin> entries l \<union> entries r" for x using sh(1) entry_size True by blast
    then have "set (p # ch) = {x. (x, z) \<in> entries (Node p ch y l r)}" using True by auto
    then show ?thesis using tree_find_loop.simps [of s z p "k z"] N True by auto
  next
    case False
    then have e: "{x. (x, z) \<in> entries (Node p ch y l r)} = {x. (x, z) \<in> entries l} \<union> {x. (x, z) \<in> entries r}" by auto
    have none: "{x. (x, z) \<in> entries t} = {}" if "z \<notin> sizes t" for t using that entry_size by blast
    have step: "tree_find_loop s z p (k z) = tree_find_loop s z (rd s (p + (if bit (k z) 63 then 40 else 32))) (push_bit 1 (k z))"
      using tree_find_loop.simps [of s z p "k z"] N False child_choice by (simp add: child_def)
    show ?thesis
    proof (cases "bit (k z) 63")
      case True
      then have "z \<notin> sizes l" using sh(2) by blast
      moreover from Node.IH(2) [OF _ sh(5), of p "p + 40"] Node.prems(1) obtain q where
        "tree_find_loop s z (rd s (p + 40)) (push_bit 1 (k z)) = Some (Inr q)"
        "if z \<in> sizes r then \<exists>ch. linked s q ch q \<and> q \<noteq> 0 \<and> set (q # ch) = {x. (x, z) \<in> entries r} \<and> (distinct (nodes r) \<longrightarrow> q \<notin> set ch)
         else q = 0" by auto
      ultimately show ?thesis using True step N(1) False e none [of l] by (auto split: if_splits)
    next
      case f: False
      then have "z \<notin> sizes r" using sh(3) by blast
      moreover from Node.IH(1) [OF _ sh(4), of p "p + 32"] Node.prems(1) obtain q where
        "tree_find_loop s z (rd s (p + 32)) (push_bit 1 (k z)) = Some (Inr q)"
        "if z \<in> sizes l then \<exists>ch. linked s q ch q \<and> q \<noteq> 0 \<and> set (q # ch) = {x. (x, z) \<in> entries l} \<and> (distinct (nodes l) \<longrightarrow> q \<notin> set ch)
         else q = 0" by auto
      ultimately show ?thesis using f step N(1) False e none [of r] by (auto split: if_splits)
    qed
  qed
qed

section \<open>Membership in the bins\<close>

lemma small_member:
  assumes "small_store s L" "is_small (chunksize s x)"
  shows "x \<in> set (L (unat (chunksize s x) div 8)) \<longleftrightarrow> (x, chunksize s x) \<in> small_entries s L"
proof -
  have i: "unat (chunksize s x) div 8 < 32" using small_index_of_nat [OF assms(2)] by simp
  have d: "unat (chunksize s x) div 8 = j" if "j < 32" "x \<in> set (L j)" for j
    using assms(1) that unfolding small_store_def by blast
  have "x \<in> set (L (unat (chunksize s x) div 8)) \<longleftrightarrow> x \<in> small_chunks L"
    unfolding small_chunks_def using i d by blast
  then show ?thesis unfolding small_entries_def by blast
qed

lemma tree_member:
  assumes T: "treebins_ok s T" and z: "256 \<le> unat z" "unat z < 2 ^ 40" and i: "i = unat (compute_tree_index z)"
  shows "(x, z) \<in> tree_entries T \<longleftrightarrow> (x, z) \<in> entries (T i)"
proof
  assume "(x, z) \<in> tree_entries T"
  then obtain j where j: "j < 32" "(x, z) \<in> entries (T j)" "z \<in> sizes (T j)" by (rule tree_entriesE)
  then have "i = j" using bin_sizes(3) [OF treebins_okD(4) [OF T j(1)] j(3,1)] i by simp
  then show "(x, z) \<in> entries (T i)" using j by simp
next
  assume "(x, z) \<in> entries (T i)"
  moreover have "i < 32" using tree_index_range(1) [OF z] i by simp
  ultimately show "(x, z) \<in> tree_entries T" by (rule tree_entriesI [rotated])
qed

lemma bin_find_small:
  assumes L: "small_store s L" and x: "is_small (chunksize s x)" "x \<notin> small_headers s"
  shows "bin_find s x = Inr ((x, chunksize s x) \<in> small_entries s L)"
proof -
  define i where "i = unat (chunksize s x) div 8"
  have I: "i < 32" "small_index (chunksize s x) = of_nat i" using small_index_of_nat [OF x(1)] by (simp_all add: i_def)
  let ?b = "smallbin_at s (of_nat i)"
  have ok: "smallbins_ok s L" using L by (simp add: small_store_def)
  note D = smallbins_okD [OF ok I(1)]
  have b: "x \<noteq> ?b" using x(2) I(1) by (auto simp: small_headers_def)
  have m: "(x, chunksize s x) \<in> small_entries s L \<longleftrightarrow> x \<in> set (L i)" using small_member [OF L x(1)] by (simp add: i_def)
  show ?thesis
  proof (cases "L i = []")
    case True
    then show ?thesis using m D(2) x(1) I by (simp add: bin_find_def Let_def marked_iff)
  next
    case False
    from fd_find_linked [OF D(6) [OF False] D(7)] show ?thesis
      using m D(2) x(1) I b False by (simp add: bin_find_def Let_def marked_iff)
  qed
qed

lemma bin_find_large:
  assumes T: "treebins_ok s T" and z: "256 \<le> unat (chunksize s x)" "unat (chunksize s x) < 2 ^ 40"
  shows "bin_find s x = Inr ((x, chunksize s x) \<in> tree_entries T)"
proof -
  let ?z = "chunksize s x"
  define i where "i = unat (compute_tree_index ?z)"
  have I: "i < 32" "compute_tree_index ?z = of_nat i" using tree_index_range(1) [OF z] by (simp_all add: i_def)
  have large: "\<not> is_small ?z" using z(1) by (simp add: is_small_iff)
  note D = treebins_okD(4-6) [OF T I(1)]
  have m: "(x, ?z) \<in> tree_entries T \<longleftrightarrow> (x, ?z) \<in> entries (T i)" by (rule tree_member [OF T z i_def])
  show ?thesis
  proof (cases "T i = Tip")
    case True
    then show ?thesis using m D(2) large I by (simp add: bin_find_def Let_def treemap_marked_iff)
  next
    case False
    have sh: "shape (bin_key (of_nat i)) (T i)" "distinct (nodes (T i))" using D(1) by (simp_all add: bin_ok_def)
    from tree_find_ok [OF D(3) sh(1), of ?z] obtain q where
      q: "tree_find_loop s ?z (rd s (treebin_at s (of_nat i))) (bin_key (of_nat i) ?z) = Some (Inr q)"
        "if ?z \<in> sizes (T i) then \<exists>ch. linked s q ch q \<and> q \<noteq> 0 \<and> set (q # ch) = {x. (x, ?z) \<in> entries (T i)}
           \<and> (distinct (nodes (T i)) \<longrightarrow> q \<notin> set ch) else q = 0" by blast
    have f: "bin_find s x = (if q \<noteq> 0 then run_loop (fd_find_loop s x q q) else Inr False)"
      using q(1) D(2) large I False by (simp add: bin_find_def Let_def treemap_marked_iff bin_key_def)
    show ?thesis
    proof (cases "?z \<in> sizes (T i)")
      case True
      then obtain ch where ch: "linked s q ch q" "q \<noteq> 0" "set (q # ch) = {x. (x, ?z) \<in> entries (T i)}" "q \<notin> set ch"
        using q(2) sh(2) by auto
      have "x \<in> set (q # ch) \<longleftrightarrow> (x, ?z) \<in> entries (T i)" unfolding ch(3) by simp
      then show ?thesis using f fd_find_linked [OF ch(1,4), of x] ch(2) m by simp
    next
      case n: False
      then show ?thesis using f q(2) m entry_size [of x ?z "T i"] by auto
    qed
  qed
qed

lemma bin_find_member:
  assumes F: "free_rep s F" and x: "x \<notin> small_headers s" "unat (chunksize s x) < 2 ^ 40"
  shows "bin_find s x = Inr ((x, chunksize s x) \<in> F)"
proof -
  obtain L T where f: "small_store s L" "treebins_ok s T" "F = small_entries s L \<union> tree_entries T"
    using F unfolding free_rep_def free_ok_def by blast
  show ?thesis
  proof (cases "is_small (chunksize s x)")
    case True
    have "(x, chunksize s x) \<notin> tree_entries T"
    proof
      assume "(x, chunksize s x) \<in> tree_entries T"
      then obtain i where i: "i < 32" "chunksize s x \<in> sizes (T i)" by (rule tree_entriesE)
      then show False using treebins_okD(4) [OF f(2) i(1)] True by (simp add: bin_ok_def)
    qed
    then show ?thesis using bin_find_small [OF f(1) True x(1)] f(3) by simp
  next
    case False
    have "(x, chunksize s x) \<notin> small_entries s L"
      using f(1) False unfolding small_store_def small_entries_def small_chunks_def by auto
    then show ?thesis using bin_find_large [OF f(2) _ x(2)] False f(3) by (simp add: is_small_iff not_less)
  qed
qed

section \<open>The bins of a heap without fenceposts\<close>

lemma check_small_loop:
  assumes "linked s b xs w" "b \<notin> set xs"
    and "\<forall>x\<in>set xs. do_check_free_chunk s x \<and> small_index (chunksize s x) = i \<and> chunksize s x = z
      \<and> do_check_inuse_chunk s (next_chunk s x)"
  shows "check_smallbin_loop s i b (last (b # xs)) = Some (Inr True)"
  using assms
proof (induction xs arbitrary: w rule: rev_induct)
  case Nil
  then show ?case using check_smallbin_loop.simps [of s i b b] by simp
next
  case (snoc y ys)
  then have l: "linked s b ys y" by (simp add: linked_append)
  have k: "bk s y = last (b # ys)" by (rule linked_bk_last [OF l])
  have "check_smallbin_loop s i b (bk s y) = Some (Inr True)" unfolding k by (rule snoc.IH [OF l]) (use snoc.prems(2,3) in auto)
  moreover have "bk s y = b \<or> chunksize s (bk s y) = chunksize s y"
    using k snoc.prems(3) by (cases ys rule: rev_cases) auto
  ultimately show ?case using check_smallbin_loop.simps [of s i b y] snoc.prems(2,3) by (auto simp: Let_def)
qed

lemma free_then_used:
  assumes h: "heap s U F {} K" and c: "(p, z) \<in> F"
  shows "do_check_free_chunk s p" "chunksize s p = z" "is_aligned z" "do_check_inuse_chunk s (next_chunk s p)" "unat z < 2 ^ 40"
proof -
  have O: "open_heap (heap_arena s {} K UNIV) s U F (dvset s) (topset s) {}" by (rule heap_enter [OF h]) blast
  show "do_check_free_chunk s p" by (rule check_free [OF h, of p z]) (use c in simp)
  show z: "chunksize s p = z" using tags_heap(1) [OF O, of "(p, z)"] c by simp
  show "is_aligned z" using open_chunk [OF O, of "(p, z)"] c by (simp add: chunk_geo_def)
  have "p + z \<in> fst ` U" using free_next(1) [OF O, of "(p, z)"] c by simp
  then show "do_check_inuse_chunk s (next_chunk s p)" using check_inuse [OF h] next_is_fin(1) [OF z] by force
  show "unat z < 2 ^ 40" using geo_size [OF open_geo [OF O], of "(p, z)"] c by simp
qed

lemma small_bin_checked:
  assumes h: "heap s U F {} K" and i: "i < 32"
  shows "do_check_smallbin s (of_nat i) = Inr True"
proof -
  have O: "open_heap (heap_arena s {} K UNIV) s U F (dvset s) (topset s) {}" by (rule heap_enter [OF h]) blast
  obtain L T where f: "small_store s L" "F = small_entries s L \<union> tree_entries T"
    using open_heapD(1) [OF O] unfolding free_rep_def free_ok_def by blast
  have ok: "smallbins_ok s L" using f(1) by (simp add: small_store_def)
  note D = smallbins_okD [OF ok i]
  let ?b = "smallbin_at s (of_nat i)"
  have m: "smallmap s AND push_bit (unat (of_nat i :: u32)) 1 = 0 \<longleftrightarrow> L i = []"
    using marked_iff [OF i, of s] D(2) i by (simp add: smallmap_is_marked_def idx2bit_def)
  show ?thesis
  proof (cases "L i = []")
    case True
    then show ?thesis using m by (simp add: do_check_smallbin_def Let_def)
  next
    case False
    have x: "do_check_free_chunk s x \<and> small_index (chunksize s x) = of_nat i \<and> chunksize s x = of_nat (8 * i)
      \<and> do_check_inuse_chunk s (next_chunk s x)" if "x \<in> set (L i)" for x
    proof -
      have "(x, chunksize s x) \<in> F" using f(2) that i by (auto simp: small_entries_def small_chunks_def)
      note C = free_then_used [OF h this]
      have s: "is_small (chunksize s x)" "unat (chunksize s x) div 8 = i" using f(1) i that by (auto simp: small_store_def)
      have "8 dvd unat (chunksize s x)" using C(3) by (auto simp: is_aligned_iff intro: dvd_trans [of 8 16])
      then have e: "unat (chunksize s x) = 8 * i" using s(2) by (metis dvd_mult_div_cancel)
      have "of_nat (unat (chunksize s x)) = chunksize s x" by simp
      then have "chunksize s x = of_nat (8 * i)" unfolding e by (rule sym)
      then show ?thesis using C s small_index_of_nat [OF s(1)] by simp
    qed
    have l: "linked s ?b (L i) ?b" by (rule D(6) [OF False])
    have "check_smallbin_loop s (of_nat i) ?b (bk s ?b) = Some (Inr True)"
      unfolding linked_bk_last [OF l] by (rule check_small_loop [OF l D(7)]) (use x in blast)
    moreover have "bk s ?b \<noteq> ?b" using linked_bk_last [OF l] False D(7) by (metis last_ConsR last_in_set)
    ultimately show ?thesis using m False by (simp add: do_check_smallbin_def Let_def)
  qed
qed

lemma size_soundI:
  assumes "256 \<le> unat z" "unat z < 2 ^ 40" "compute_tree_index z = i"
  shows "size_sound i z"
proof -
  note R = tree_index_range [OF assms(1,2), unfolded assms(3)]
  have "unat z < unat (minsize_for_tree_index (i + 1))" if "i \<noteq> 31"
  proof -
    have "unat i \<noteq> 31" using that by (auto simp: word_unat_eq_iff)
    moreover have "unat (i + 1) = unat i + 1" using R(1) by (simp add: unat_word_ariths)
    ultimately show ?thesis using unat_minsize [of "i + 1"] R by simp
  qed
  then show ?thesis using assms R unat_minsize [of i]
    by (auto simp: size_sound_def dl_consts word_le_nat_alt word_less_nat_alt)
qed

lemma tree_bin_checked:
  assumes h: "heap s U F {} K" and i: "i < 32" and H: "tree_headers s \<inter> fst ` F = {}"
  shows "do_check_treebin s (of_nat i) = Inr True"
proof -
  have O: "open_heap (heap_arena s {} K UNIV) s U F (dvset s) (topset s) {}" by (rule heap_enter [OF h]) blast
  obtain L T where f: "treebins_ok s T" "F = small_entries s L \<union> tree_entries T"
    using open_heapD(1) [OF O] unfolding free_rep_def free_ok_def by blast
  note D = treebins_okD(4-6) [OF f(1) i]
  let ?b = "treebin_at s (of_nat i)"
  have m: "treemap s AND push_bit (unat (of_nat i :: u32)) 1 = 0 \<longleftrightarrow> T i = Tip"
    using treemap_marked_iff [OF i, of s] D(2) i by (simp add: treemap_is_marked_def idx2bit_def)
  show ?thesis
  proof (cases "T i")
    case Tip
    then show ?thesis using m by (simp add: do_check_treebin_def Let_def)
  next
    case t: (Node p ch z l r)
    have p: "rd s ?b = p" "p \<noteq> 0" using D(3) t by (simp_all add: node_ok_def tchunk_ok_def)
    have F: "\<exists>y. (x, y) \<in> F" if "x \<in> set (nodes (T i))" for x
    proof -
      have "x \<in> fst ` entries (T i)" unfolding entries_nodes using that by simp
      then show ?thesis using f(2) tree_entriesI [OF i] by fastforce
    qed
    have "node_sound s x" if x: "x \<in> set (nodes (T i))" for x
    proof -
      obtain y where "(x, y) \<in> F" using F [OF x] by blast
      then have "do_check_free_chunk s x" by (rule free_then_used(1) [OF h])
      then show ?thesis by (simp add: do_check_free_chunk_def node_sound_def Let_def)
    qed
    moreover have "size_sound (of_nat i) y" if "y \<in> sizes (T i)" for y
      using bin_sizes [OF D(1) that i] by (intro size_soundI) auto
    moreover have "?b \<noteq> 0" "?b \<in> tree_headers s" using treebins_okD(7) [OF f(1)] i by (auto simp: tree_headers_def)
    moreover have "?b \<noteq> p" using F [of p] H t \<open>?b \<in> tree_headers s\<close> by force
    ultimately have "check_tree_index s p \<and> check_tree_loop s p p 0 = Some True"
      using D(1,3) bin_ordered [OF D(1) i] unfolding t by (intro check_tree_ok) (auto simp: bin_ok_def)
    then show ?thesis using m p t by (simp add: do_check_treebin_def Let_def do_check_tree_def)
  qed
qed

section \<open>States over a break\<close>

text \<open>No chunk starts where a bin is.\<close>

lemma start_not_header:
  assumes c: "chunk_geo c" "own c \<inter> K = {}" and K: "header_cells s \<subseteq> K"
  shows "fst c \<notin> small_headers s"
proof
  assume "fst c \<in> small_headers s"
  then have "fst c + 16 \<in> K" using K by (auto simp: header_cells_def link_cells_def)
  moreover have "fst c + 16 \<in> own c"
  proof -
    have "unat (fst c + 16) = unat (fst c) + 16" using c(1) lo_hi(1) [OF c(1)] by (simp add: chunk_geo_def unat_word_ariths lo_def hi_def)
    then show ?thesis using c(1) by (simp add: own_def lo_def hi_def chunk_geo_def)
  qed
  ultimately show False using c(2) by blast
qed

lemma sbrk_bin_find:
  assumes h: "heap s U F {} (foreign limit s)" and st: "state_cells s \<subseteq> foreign limit s" "\<forall>c\<in>U. own c \<inter> foreign limit s = {}"
    and c: "(p, z) \<in> U \<union> F \<union> dvset s \<union> topset s"
  shows "bin_find s p = Inr ((p, z) \<in> F)"
proof -
  have O: "open_heap (heap_arena s {} (foreign limit s) UNIV) s U F (dvset s) (topset s) {}" by (rule heap_enter [OF h]) blast
  have "own (p, z) \<inter> foreign limit s = {}"
    using c st(2) layoutD(8) [OF open_heapD(3) [OF O], of "(p, z)"] by auto
  then have "p \<notin> small_headers s"
    using start_not_header [OF open_chunk [OF O, of "(p, z)"], of "foreign limit s" s] open_heapD(4) [OF O] c by simp
  moreover have "chunksize s p = z" using tags_heap(1) [OF O, of "(p, z)"] c by auto
  moreover have "unat z < 2 ^ 40" using geo_size [OF open_geo [OF O], of "(p, z)"] c by auto
  ultimately show ?thesis using bin_find_member [OF open_heapD(1) [OF O], of p] by simp
qed

lemma sbrk_headers:
  assumes h: "heap s U F {} (foreign limit s)" and st: "state_cells s \<subseteq> foreign limit s"
    and b: "is_aligned (sg_base s (seg s))"
  shows "tree_headers s \<inter> fst ` F = {}"
proof -
  have O: "open_heap (heap_arena s {} (foreign limit s) UNIV) s U F (dvset s) (topset s) {}" by (rule heap_enter [OF h]) blast
  have "p \<notin> tree_headers s" if "(p, z) \<in> F" for p z
  proof
    assume "p \<in> tree_headers s"
    then have "p \<in> foreign limit s" using header_cells_state [of s] st by (auto simp: header_cells_def)
    moreover have "chunk_geo (p, z)" by (rule open_chunk [OF O]) (use that in blast)
    moreover from this have "p + 8 \<notin> foreign limit s"
      using layoutD(8) [OF open_heapD(3) [OF O], of "(p, z)"] head_own [of "(p, z)"] that by auto
    moreover from calculation(2) have "unat (p + 8) = unat p + 8" using unat_head [of "(p, z)"] by (simp add: lo_def)
    ultimately show False
      using aligned_le [of "unat (sg_base s (seg s))" "unat p"] b
      by (auto simp: foreign_def window_def chunk_geo_def is_aligned_iff)
  qed
  then show ?thesis by auto
qed

end
