(* ===== verification/DL_BulkProps.thy ===== *)
theory DL_BulkProps
  imports DL_SbrkRealloc DL_Bulk
begin

text \<open>
  Freeing an array of blocks (\<open>internal_bulk_free\<close> in src/src/dlmalloc.c): neighbours in the array
  that are neighbours in memory are joined while still in use, all others are disposed of.
\<close>

section \<open>Two neighbours in use become one\<close>

lemma join_used:
  assumes h: "heap s U F V K" and c: "(p, z) \<in> U" "(p + z, y) \<in> U" "own (p, z) \<inter> K = {}" "own (p + z, y) \<inter> K = {}"
    and w: "w = heap_arena s V K (touched s U F V \<union> own (p + z, y))"
  shows "heap (set_inuse s p (z + y)) (insert (p, z + y) (U - {(p, z), (p + z, y)})) F V K"
    "moves w s (set_inuse s p (z + y))" "own (p, z + y) \<subseteq> own (p, z) \<union> own (p + z, y)" "(p, z + y) \<notin> U"
proof -
  have O: "open_heap w s U F (dvset s) (topset s) {}" unfolding w by (rule heap_enter [OF h]) blast
  let ?U = "U - {(p + z, y)}" let ?x = "p + (z + y)"
  have cA: "(p, z) \<in> U \<union> F \<union> dvset s \<union> topset s \<union> {}" "(p + z, y) \<in> U \<union> F \<union> dvset s \<union> topset s \<union> {}" using c by blast+
  note cg = open_chunk [OF O cA(1)] open_chunk [OF O cA(2)]
  have e: "ends w = fences w \<union> fin ` topset s" by (simp add: w)
  note N1 = used_next [OF O c(1) e] and N2 = used_next [OF O c(2) e]
  have O1: "open_heap w s ?U F (dvset s) (topset s) {(p + z, y)}"
    by (rule open_used_heap [OF O c(2)]) (use c(4) N1(2) in \<open>simp_all add: w\<close>)
  have x: "?x \<noteq> p + z" using lo_hi(2,3) [OF cg(2)] by (auto simp: lo_def add.assoc)
  have ne: "(p, z) \<noteq> (p + z, y)" using lo_hi(2,3) [OF cg(1)] by (auto simp: lo_def)
  have "?x \<in> fst ` ?U \<union> fences w \<or> ?x \<in> fst ` (?U \<union> F \<union> dvset s \<union> topset s) \<union> fences w \<and> pinuse s ?x"
  proof -
    have "?x \<in> fst ` (U \<union> F \<union> dvset s \<union> topset s) \<union> fences w" "pinuse s ?x" using N2 by (simp_all add: add.assoc)
    then show ?thesis using x by force
  qed
  from swallow_heap [OF O1 _ singletonI this] c(1) ne
  have O2: "open_heap w (set_inuse s p (z + y)) (insert (p, z + y) (?U - {(p, z)})) F (dvset s) (topset s) {}"
    and m: "moves w s (set_inuse s p (z + y))" by simp_all
  have U: "?U - {(p, z)} = U - {(p, z), (p + z, y)}" by blast
  show "heap (set_inuse s p (z + y)) (insert (p, z + y) (U - {(p, z), (p + z, y)})) F V K"
    using heap_leave [OF O2 w] heapD [OF h] unfolding U by (simp add: set_inuse_sets set_inuse_fields)
  show "moves w s (set_inuse s p (z + y))" by (rule m)
  show "own (p, z + y) \<subseteq> own (p, z) \<union> own (p + z, y)" by (rule own_join [OF cg])
  show "(p, z + y) \<notin> U" using geo_fresh(2) [OF open_geo [OF O] cA] by blast
qed

section \<open>Over a break\<close>

lemma join_sbrk:
  assumes i: "sbrk_inv brk start limit s U" and c: "(p, z) \<in> U" "(p + z, y) \<in> U"
  defines "U' \<equiv> insert (p, z + y) (U - {(p, z), (p + z, y)})"
  shows "sbrk_inv brk start limit (set_inuse s p (z + y)) U' \<and> maddr (set_inuse s p (z + y)) = maddr s \<and> (p, z + y) \<notin> U
    \<and> (\<forall>a\<in>stored start limit s (U - {(p, z), (p + z, y)}). rd (set_inuse s p (z + y)) a = rd s a)"
proof -
  obtain F where h: "heap s U F {} (foreign limit s)" and t: "topp s \<noteq> 0" and o: "own (p, z) \<inter> foreign limit s = {}"
    and os: "\<forall>d\<in>U. own d \<inter> foreign limit s = {}" using i c(1) by (rule sbrk_heap)
  have o2: "own (p + z, y) \<inter> foreign limit s = {}" using os c(2) by blast
  note J = join_used [OF h c o o2 refl]
  have "\<forall>d\<in>U'. own d \<inter> foreign limit s = {}" using os J(3) o o2 unfolding U'_def by blast
  note S = sbrk_step [OF i t h J(2) _ o2 J(1) [folded U'_def] this, simplified]
  have "rd (set_inuse s p (z + y)) a = rd s a" if a: "a \<in> stored start limit s (U - {(p, z), (p + z, y)})" for a
  proof (rule S(4))
    have "a \<in> stored start limit s (U - {(p + z, y)})" using a by (auto simp: stored_def)
    from stored_other [OF i t c(2) this] show "a \<in> stored start limit s U" "a \<notin> own (p + z, y)" by simp_all
  qed
  then show ?thesis using S(1,3) J(4) by blast
qed

lemma dispose_sbrk:
  assumes i: "sbrk_inv brk start limit s U" and c: "(p, z) \<in> U"
  shows "\<exists>s'. dispose_chunk E s p z = Inr s' \<and> sbrk_inv brk start limit s' (U - {(p, z)}) \<and> maddr s' = maddr s
    \<and> (\<forall>a\<in>stored start limit s (U - {(p, z)}). rd s' a = rd s a)"
proof -
  obtain F where h: "heap s U F {} (foreign limit s)" and t: "topp s \<noteq> 0" and o: "own (p, z) \<inter> foreign limit s = {}"
    and os: "\<forall>d\<in>U. own d \<inter> foreign limit s = {}" using i c by (rule sbrk_heap)
  from dispose_chunk_heap [OF h c o refl, of E] obtain s' F' where
    s': "dispose_chunk E s p z = Inr s'" "heap s' (U - {(p, z)}) F' {} (foreign limit s)"
      "moves (heap_arena s {} (foreign limit s) (touched s U F {} \<union> own (p, z))) s s'" by blast
  have "\<forall>d\<in>U - {(p, z)}. own d \<inter> foreign limit s = {}" using os by blast
  note S = sbrk_step [OF i t h s'(3) _ o s'(2) this, simplified]
  show ?thesis using s'(1) S stored_other [OF i t c] by blast
qed

section \<open>Arrays of pointers\<close>

text \<open>An array of \<open>n\<close> cells at \<open>a\<close> in the usable part of the block \<open>A\<close>.\<close>

definition array_in :: "chunk \<Rightarrow> addr \<Rightarrow> nat \<Rightarrow> bool" where
  "array_in A a n \<longleftrightarrow> (\<exists>k. a = chunk2mem (fst A) + k \<and> 8 dvd unat k \<and> unat k + 8 * n + 8 \<le> unat (snd A))"

text \<open>The cells of an array point to chunks, or are null.\<close>

definition ptr_of :: "chunk option \<Rightarrow> addr" where
  "ptr_of x = (case x of None \<Rightarrow> 0 | Some c \<Rightarrow> chunk2mem (fst c))"

definition array_at :: "'o state \<Rightarrow> addr \<Rightarrow> chunk option list \<Rightarrow> bool" where
  "array_at s a xs \<longleftrightarrow> (\<forall>i<length xs. rd s (a + 8 * of_nat i) = ptr_of (xs ! i))"

definition array_cells :: "addr \<Rightarrow> nat \<Rightarrow> addr set" where
  "array_cells a n = (\<lambda>i. a + 8 * of_nat i) ` {..<n}"

definition somes :: "chunk option list \<Rightarrow> chunk set" where
  "somes xs = {c. Some c \<in> set xs}"

lemma somes_simps [simp]: "somes [] = {}" "somes (None # xs) = somes xs" "somes (Some c # xs) = insert c (somes xs)"
  by (auto simp: somes_def)

lemma array_at_simps: "array_at s a []" "array_at s a (x # xs) \<longleftrightarrow> rd s a = ptr_of x \<and> array_at s (a + 8) xs"
  by (auto simp: array_at_def less_Suc_eq_0_disj add.assoc algebra_simps)

lemma array_cells_simps: "array_cells a 0 = {}" "array_cells a (Suc n) = insert a (array_cells (a + 8) n)"
  by (auto simp: array_cells_def lessThan_Suc_eq_insert_0 image_image algebra_simps)

lemma array_at_cong:
  "array_at s a xs \<Longrightarrow> (\<And>b. b \<in> array_cells a (length xs) \<Longrightarrow> rd s' b = rd s b) \<Longrightarrow> array_at s' a xs"
  by (auto simp: array_at_def array_cells_def)

lemma array_cell:
  assumes A: "chunk_geo A" "array_in A a n" and i: "i < n"
  shows "a + 8 * of_nat i \<in> payload A" "unat (a + 8 * of_nat i) = unat a + 8 * i"
proof -
  obtain p z where pz: "A = (p, z)" by (cases A)
  obtain k where k: "a = chunk2mem p + k" "8 dvd unat k" "unat k + 8 * n + 8 \<le> unat z" using A(2) by (auto simp: array_in_def pz)
  have c: "chunk_geo (p, z)" using A(1) by (simp add: pz)
  have z: "unat z < 2 ^ 64" by (rule unat_lt)
  have w: "unat (8 * of_nat i :: addr) = 8 * i" using i k(3) z by (simp add: unat_word_ariths unat_of_nat)
  have ki: "unat (k + 8 * of_nat i) = unat k + 8 * i" using w i k(3) z by (simp add: unat_word_ariths)
  note C = payload_cell [OF c, of "k + 8 * of_nat i"] and C0 = payload_cell [OF c, of k]
  have "chunk2mem p + (k + 8 * of_nat i) \<in> payload (p, z) \<and> unat (chunk2mem p + (k + 8 * of_nat i)) = unat p + 16 + unat (k + 8 * of_nat i)"
    using C ki k i by auto
  moreover have "unat (chunk2mem p + k) = unat p + 16 + unat k" using C0 k i by auto
  ultimately show "a + 8 * of_nat i \<in> payload A" "unat (a + 8 * of_nat i) = unat a + 8 * i"
    using ki by (simp_all add: pz k(1) add.assoc)
qed

lemma array_step:
  assumes A: "chunk_geo A" "array_in A a (Suc n)"
  shows "a \<in> payload A" "array_in A (a + 8) n" "a \<notin> array_cells (a + 8) n" "array_cells a (Suc n) \<subseteq> payload A"
    "n = 0 \<or> a + 8 \<noteq> a + 8 * of_nat (Suc n)"
proof -
  obtain k where k: "a = chunk2mem (fst A) + k" "8 dvd unat k" "unat k + 8 * Suc n + 8 \<le> unat (snd A)" using A(2) by (auto simp: array_in_def)
  show "a \<in> payload A" using array_cell(1) [OF A, of 0] by simp
  have "unat (snd A) < 2 ^ 64" by (rule unat_lt)
  then have u: "unat (k + 8) = unat k + 8" using k(3) by (simp add: unat_word_ariths)
  then show "array_in A (a + 8) n" using k unfolding array_in_def by (intro exI [of _ "k + 8"]) (simp add: add.assoc)
  show "array_cells a (Suc n) \<subseteq> payload A" using array_cell(1) [OF A] by (auto simp: array_cells_def)
  show "a \<notin> array_cells (a + 8) n"
  proof
    assume "a \<in> array_cells (a + 8) n"
    then obtain i where i: "i < n" "a = a + 8 * of_nat (Suc i)" by (auto simp: array_cells_def algebra_simps)
    then show False using array_cell(2) [OF A, of "Suc i"] by simp
  qed
  show "n = 0 \<or> a + 8 \<noteq> a + 8 * of_nat (Suc n)"
  proof (rule ccontr)
    assume "\<not> (n = 0 \<or> a + 8 \<noteq> a + 8 * of_nat (Suc n))"
    then have e: "n \<noteq> 0" "8 * of_nat n = (0 :: addr)" by (simp_all add: algebra_simps)
    have "unat (8 * of_nat n :: addr) = 8 * n" using k(3) unat_lt [of "snd A"] by (simp add: unat_word_ariths unat_of_nat)
    then show False using e by simp
  qed
qed

section \<open>The loop\<close>

fun bulk_loop :: "'o os_ops \<Rightarrow> addr \<Rightarrow> addr \<Rightarrow> nat \<Rightarrow> 'o state \<Rightarrow> 'o state res" where
  "bulk_loop E fence a 0 s = Inr s"
| "bulk_loop E fence a (Suc n) s = bindR (bulk_free_one E fence a s) (bulk_loop E fence (a + 8) n)"

lemma bulk_fold:
  "fold (\<lambda>i r. bindR r (bulk_free_one E fence (b + 8 * of_nat i))) [j..<j + n] r
    = bindR r (bulk_loop E fence (b + 8 * of_nat j) n)"
proof (induction n arbitrary: j r)
  case 0
  show ?case by (cases r) simp_all
next
  case (Suc n)
  have "[j..<j + Suc n] = j # [Suc j..<Suc j + n]" by (simp add: upt_rec)
  then show ?case using Suc.IH [of "Suc j"] by (cases r) (simp_all add: ac_simps)
qed

text \<open>A live block passes the tests of the loop.\<close>

lemma bulk_tests:
  assumes i: "sbrk_inv brk start limit s U" and c: "(p, z) \<in> U"
  shows "ok_address s p" "ok_inuse s p" "chunksize s p = z" "next_chunk s p = p + z"
proof -
  obtain F where h: "heap s U F {} (foreign limit s)" using i c by (rule sbrk_heap)
  have O: "open_heap (heap_arena s {} (foreign limit s) UNIV) s U F (dvset s) (topset s) {}" by (rule heap_enter [OF h]) blast
  show "ok_address s p" using open_heapD(8) [OF O, of p] imageI [OF c, of fst] by (simp add: image_Un)
  show "ok_inuse s p" using sbrk_tags(1) [OF i c] by (simp add: ok_inuse_def)
  show z: "chunksize s p = z" using sbrk_geo(4) [OF i c] by simp
  then show "next_chunk s p = p + z" by (simp add: next_chunk_def chunksize_def head_size_def)
qed

text \<open>What the loop leaves: the blocks \<open>R\<close> are gone, \<open>n\<close> cells at \<open>a\<close> are null.\<close>

definition bulk_result ::
  "('o \<Rightarrow> addr) \<Rightarrow> nat \<Rightarrow> nat \<Rightarrow> 'o state \<Rightarrow> chunk set \<Rightarrow> addr \<Rightarrow> nat \<Rightarrow> 'o state \<Rightarrow> bool"
where
  "bulk_result brk start limit s U a n s' \<longleftrightarrow> sbrk_inv brk start limit s' U \<and> maddr s' = maddr s
     \<and> (\<forall>b\<in>array_cells a n. rd s' b = 0) \<and> (\<forall>b\<in>stored start limit s U - array_cells a n. rd s' b = rd s b)"

lemma bulk_result_step:
  assumes r: "bulk_result brk start limit s1 U (a + 8) n s'" and m: "maddr s1 = maddr s" "rd s1 a = 0"
    and a: "a \<notin> array_cells (a + 8) n" "a \<in> stored start limit s U"
    and st: "\<And>b. b \<in> stored start limit s U - array_cells a (Suc n) \<Longrightarrow> rd s1 b = rd s b"
  shows "bulk_result brk start limit s U a (Suc n) s'"
proof -
  have "stored start limit s1 U = stored start limit s U" by (simp add: stored_def state_cells_def m)
  then show ?thesis using r m a st unfolding bulk_result_def array_cells_simps by auto
qed

text \<open>The state before a round: the array from \<open>a\<close> on holds distinct live blocks other than its own block \<open>A\<close>.\<close>

definition bulk_ready ::
  "('o \<Rightarrow> addr) \<Rightarrow> nat \<Rightarrow> nat \<Rightarrow> chunk \<Rightarrow> 'o state \<Rightarrow> chunk set \<Rightarrow> addr \<Rightarrow> chunk option list \<Rightarrow> bool"
where
  "bulk_ready brk start limit A s U a xs \<longleftrightarrow> sbrk_inv brk start limit s U \<and> A \<in> U \<and> array_in A a (length xs)
     \<and> array_at s a xs \<and> distinct (filter (\<lambda>x. x \<noteq> None) xs) \<and> somes xs \<subseteq> U - {A}"

text \<open>A round: as many cells less one remain, and freeing what they hold gives what was to be freed.\<close>

definition bulk_next ::
  "('o \<Rightarrow> addr) \<Rightarrow> nat \<Rightarrow> nat \<Rightarrow> chunk \<Rightarrow> 'o state \<Rightarrow> chunk set \<Rightarrow> addr \<Rightarrow> chunk option list \<Rightarrow> 'o state \<Rightarrow> bool"
where
  "bulk_next brk start limit A s U a xs s2 \<longleftrightarrow> maddr s2 = maddr s \<and> rd s2 a = 0
     \<and> (\<forall>b\<in>stored start limit s (U - somes xs) - array_cells a (length xs). rd s2 b = rd s b)
     \<and> (\<exists>U2 ys. bulk_ready brk start limit A s2 U2 (a + 8) ys \<and> Suc (length ys) = length xs \<and> U2 - somes ys = U - somes xs)"

lemma bulk_nextI:
  assumes "bulk_ready brk start limit A s2 U2 (a + 8) ys" "Suc (length ys) = length xs" "U2 - somes ys = U - somes xs"
    "maddr s2 = maddr s" "rd s2 a = 0"
    "\<And>b. b \<in> stored start limit s (U - somes xs) - array_cells a (length xs) \<Longrightarrow> rd s2 b = rd s b"
  shows "bulk_next brk start limit A s U a xs s2"
  using assms unfolding bulk_next_def by blast

lemma bulk_readyD:
  assumes "bulk_ready brk start limit A s U a (x # ys)"
  shows "sbrk_inv brk start limit s U" "A \<in> U" "a \<in> payload A" "array_in A (a + 8) (length ys)" "a \<notin> array_cells (a + 8) (length ys)"
    "array_cells (a + 8) (length ys) \<subseteq> payload A" "rd s a = ptr_of x" "array_at s (a + 8) ys"
    "distinct (filter (\<lambda>x. x \<noteq> None) ys)" "somes ys \<subseteq> U - {A}" "somes (x # ys) \<subseteq> U - {A}"
    "x = Some c \<Longrightarrow> c \<in> U \<and> c \<noteq> A \<and> c \<notin> somes ys" "a \<in> stored start limit s (U - somes (x # ys))"
proof -
  have r: "sbrk_inv brk start limit s U" "A \<in> U" "array_in A a (Suc (length ys))" "array_at s a (x # ys)"
    "distinct (filter (\<lambda>x. x \<noteq> None) (x # ys))" "somes (x # ys) \<subseteq> U - {A}"
    using assms by (simp_all only: bulk_ready_def list.size add_Suc_right add_0_right)
  note S = array_step [OF sbrk_geo(1) [OF r(1,2)] r(3)]
  show "sbrk_inv brk start limit s U" "A \<in> U" "a \<in> payload A" "array_in A (a + 8) (length ys)" "a \<notin> array_cells (a + 8) (length ys)"
    by (rule r S)+
  show "array_cells (a + 8) (length ys) \<subseteq> payload A" using S(4) by (simp add: array_cells_simps)
  show "rd s a = ptr_of x" "array_at s (a + 8) ys" using r(4) by (simp_all add: array_at_simps)
  show "distinct (filter (\<lambda>x. x \<noteq> None) ys)" using r(5) by (cases x) simp_all
  show "somes ys \<subseteq> U - {A}" "somes (x # ys) \<subseteq> U - {A}" using r(6) by (cases x; simp)+
  show "x = Some c \<Longrightarrow> c \<in> U \<and> c \<noteq> A \<and> c \<notin> somes ys" using r(5,6) by (auto simp: somes_def)
  show "a \<in> stored start limit s (U - somes (x # ys))" using S(1) r(2,6) by (auto simp: stored_def)
qed

lemma maddr_wr: "maddr (wr s a v) = maddr s"
  by (simp add: wr_def)

lemma stored_wr: "stored start limit (wr s a v) U = stored start limit s U"
  by (simp add: stored_def state_cells_def wr_def)

lemma bulk_next_null:
  assumes "bulk_ready brk start limit A s U a (None # ys)"
  shows "bulk_next brk start limit A s U a (None # ys) s"
proof -
  note R = bulk_readyD [OF assms]
  have "bulk_ready brk start limit A s U (a + 8) ys" using R by (simp add: bulk_ready_def)
  then show ?thesis using R(7) unfolding bulk_next_def by (auto simp: ptr_of_def)
qed

lemma bulk_next_dispose:
  assumes r: "bulk_ready brk start limit A s U a (Some (p, z) # ys)"
  shows "\<exists>s2. dispose_chunk E (wr s a 0) p z = Inr s2 \<and> bulk_next brk start limit A s U a (Some (p, z) # ys) s2"
proof -
  note R = bulk_readyD [OF r] and c = bulk_readyD(12) [OF r refl]
  let ?s1 = "wr s a 0"
  have i1: "sbrk_inv brk start limit ?s1 U" by (rule write_sbrk [OF R(1-3)])
  obtain s2 where s2: "dispose_chunk E ?s1 p z = Inr s2" "sbrk_inv brk start limit s2 (U - {(p, z)})" "maddr s2 = maddr ?s1"
      and st: "\<forall>b\<in>stored start limit ?s1 (U - {(p, z)}). rd s2 b = rd ?s1 b"
    using dispose_sbrk [OF i1, of p z E] c by blast
  have k: "rd s2 b = rd ?s1 b" if "b \<in> payload A" for b using st that R(2) c by (auto simp: stored_def)
  have "array_at s2 (a + 8) ys" by (rule array_at_cong [OF R(8)]) (use k R(5,6) in \<open>auto simp: rd_wr\<close>)
  then have "bulk_ready brk start limit A s2 (U - {(p, z)}) (a + 8) ys"
    using s2(2) R(2,4,9,10) c unfolding bulk_ready_def by auto
  moreover have "U - {(p, z)} - somes ys = U - somes (Some (p, z) # ys)" by auto
  moreover have "rd s2 b = rd s b" if "b \<in> stored start limit s (U - somes (Some (p, z) # ys)) - array_cells a (length (Some (p, z) # ys))" for b
  proof -
    have "b \<in> stored start limit ?s1 (U - {(p, z)})" using that unfolding stored_wr by (auto simp: stored_def)
    then show ?thesis using st that by (auto simp: rd_wr array_cells_simps)
  qed
  moreover have "rd s2 a = 0" "maddr s2 = maddr s" using k [OF R(3)] s2(3) by (simp_all add: rd_wr maddr_wr)
  ultimately have "bulk_next brk start limit A s U a (Some (p, z) # ys) s2" by (elim bulk_nextI) simp_all
  then show ?thesis using s2(1) by blast
qed

text \<open>When the next cell points to the next chunk, that chunk is the next live block of the array.\<close>

lemma next_entry:
  assumes r: "bulk_ready brk start limit A s U a (Some (p, z) # ys)" and lim: "limit \<le> 2 ^ 62"
    and n: "ys \<noteq> []" "rd (wr s a 0) (a + 8) = chunk2mem (p + z)"
  obtains w ys' where "ys = Some (p + z, w) # ys'"
proof -
  note R = bulk_readyD [OF r] and c = bulk_readyD(12) [OF r refl]
  obtain y ys' where y: "ys = y # ys'" using n(1) by (cases ys) auto
  have "fin (p, z) \<in> own (p, z)" by (rule foot_own [OF sbrk_geo(1) [OF R(1)]]) (use c in blast)
  moreover have "own (p, z) \<inter> foreign limit s = {}" using R(1) c by (auto elim: sbrk_heap)
  ultimately have "unat (p + z) < limit" by (auto simp: foreign_def window_def)
  then have nz: "chunk2mem (p + z) \<noteq> 0"
    using lim by (auto simp: chunk2mem_def dl_consts word_unat_eq_iff unat_word_ariths)
  have "a \<noteq> a + 8" by simp
  then have "ptr_of y = chunk2mem (p + z)" using n(2) R(8) y by (simp add: array_at_simps rd_wr)
  then obtain d where "y = Some d" "fst d = p + z" using nz by (cases y) (auto simp: ptr_of_def chunk2mem_def)
  then show thesis using that [of "snd d" ys'] y by (cases d) simp
qed

lemma bulk_next_join:
  assumes r: "bulk_ready brk start limit A s U a (Some (p, z) # Some (p + z, w) # ys)"
  shows "bulk_next brk start limit A s U a (Some (p, z) # Some (p + z, w) # ys) (wr (set_inuse (wr s a 0) p (w + z)) (a + 8) (chunk2mem p))"
    (is "bulk_next _ _ _ _ _ _ _ ?xs ?s3")
proof -
  note R = bulk_readyD [OF r] and c = bulk_readyD(12) [OF r refl]
  let ?s1 = "wr s a 0" and ?s2 = "set_inuse (wr s a 0) p (z + w)" and ?e = "(p, z + w)" and ?d = "(p + z, w)"
  have s3: "?s3 = wr ?s2 (a + 8) (chunk2mem p)" by (simp add: add.commute)
  have d: "?d \<in> U" "?d \<noteq> A" "?d \<notin> somes ys" "(p, z) \<noteq> ?d" using R(9,10) c by (auto simp: somes_def)
  have i1: "sbrk_inv brk start limit ?s1 U" by (rule write_sbrk [OF R(1-3)])
  let ?U = "insert ?e (U - {(p, z), ?d})"
  from join_sbrk [OF i1, of p z w] c d(1) have J: "sbrk_inv brk start limit ?s2 ?U" "maddr ?s2 = maddr ?s1" "?e \<notin> U"
      "\<forall>b\<in>stored start limit ?s1 (U - {(p, z), ?d}). rd ?s2 b = rd ?s1 b" by auto
  have k: "rd ?s2 b = rd ?s1 b" if "b \<in> payload A" for b using J(4) that R(2) c d(2) by (auto simp: stored_def)
  have A3: "A \<in> ?U" using R(2) c d(2) by blast
  have S: "a + 8 \<in> payload A" "a \<noteq> a + 8" "a + 8 \<notin> array_cells (a + 8 + 8) (length ys)" "a \<notin> array_cells (a + 8 + 8) (length ys)"
      "array_cells (a + 8 + 8) (length ys) \<subseteq> payload A" "array_in A (a + 8) (Suc (length ys))"
    using array_step [OF sbrk_geo(1) [OF R(1,2)], of "a + 8" "length ys"] R(4,5,6) by (simp_all add: array_cells_simps)
  have "array_at ?s3 (a + 8 + 8) ys"
    by (rule array_at_cong [of s]) (use R(8) S k s3 in \<open>auto simp: rd_wr array_at_simps\<close>)
  then have y3: "array_at ?s3 (a + 8) (Some ?e # ys)" by (simp add: array_at_simps rd_wr ptr_of_def)
  have i3: "sbrk_inv brk start limit ?s3 ?U" unfolding s3 by (rule write_sbrk [OF J(1) A3 S(1)])
  have "distinct (filter (\<lambda>x. x \<noteq> None) (Some ?e # ys))" "somes (Some ?e # ys) \<subseteq> ?U - {A}"
    using R(2,9,10) J(3) d c by (auto simp: somes_def)
  then have "bulk_ready brk start limit A ?s3 ?U (a + 8) (Some ?e # ys)"
    using i3 A3 y3 S(6) by (simp add: bulk_ready_def)
  moreover have "?U - somes (Some ?e # ys) = U - somes ?xs" using J(3) by auto
  moreover have "rd ?s3 b = rd s b" if "b \<in> stored start limit s (U - somes ?xs) - array_cells a (length ?xs)" for b
  proof -
    have "b \<in> stored start limit ?s1 (U - {(p, z), ?d})" using that unfolding stored_wr by (auto simp: stored_def)
    moreover have "b \<noteq> a" "b \<noteq> a + 8" using that by (auto simp: array_cells_simps)
    ultimately show ?thesis using J(4) s3 by (simp add: rd_wr)
  qed
  moreover have "rd ?s3 a = 0" "maddr ?s3 = maddr s" using k [OF R(3)] S(2) J(2) s3 by (simp_all add: rd_wr maddr_wr)
  ultimately show ?thesis by (elim bulk_nextI) simp_all
qed

lemma bulk_one:
  assumes r: "bulk_ready brk start limit A s U a (x # ys)" and lim: "limit \<le> 2 ^ 62"
    and f: "fence = a + 8 * of_nat (Suc (length ys))"
  shows "\<exists>s2. bulk_free_one E fence a s = Inr s2 \<and> bulk_next brk start limit A s U a (x # ys) s2"
proof (cases x)
  case None
  have "bulk_free_one E fence a s = Inr s" using bulk_readyD(7) [OF r] by (simp add: bulk_free_one_def None ptr_of_def)
  then show ?thesis using bulk_next_null [OF r [unfolded None]] None by blast
next
  case (Some c)
  obtain p z where c: "c = (p, z)" by (cases c)
  have r': "bulk_ready brk start limit A s U a (Some (p, z) # ys)" using r by (simp add: Some c)
  note R = bulk_readyD [OF r'] and pU = bulk_readyD(12) [OF r' refl]
  let ?s1 = "wr s a 0"
  have i1: "sbrk_inv brk start limit ?s1 U" by (rule write_sbrk [OF R(1-3)])
  note T = bulk_tests [OF i1, of p z] and T0 = bulk_tests [OF R(1), of p z]
  let ?join = "a + 8 \<noteq> fence \<and> rd ?s1 (a + 8) = chunk2mem (p + z)"
  have one: "bulk_free_one E fence a s
      = (if ?join then Inr (wr (set_inuse ?s1 p (chunksize ?s1 (p + z) + z)) (a + 8) (chunk2mem p))
         else dispose_chunk E ?s1 p z)"
    using R(7) sbrk_tags(4) [OF R(1), of p z] T T0(3) pU by (simp add: bulk_free_one_def ptr_of_def mem2chunk_chunk2mem Let_def)
  show ?thesis
  proof (cases ?join)
    case False
    then show ?thesis using bulk_next_dispose [OF r', of E] one unfolding Some c by auto
  next
    case True
    then have "ys \<noteq> []" using f by auto
    from next_entry [OF r' lim this] True obtain w ys' where ys: "ys = Some (p + z, w) # ys'" by blast
    then have "(p + z, w) \<in> U" using R(10) by auto
    then have "chunksize ?s1 (p + z) = w" using sbrk_geo(4) [OF i1] by force
    then show ?thesis using one True bulk_next_join [OF r' [unfolded ys]] unfolding Some c ys by auto
  qed
qed

lemma bulk_loop_sbrk:
  assumes "bulk_ready brk start limit A s U a xs" "limit \<le> 2 ^ 62" "fence = a + 8 * of_nat (length xs)"
  shows "\<exists>s'. bulk_loop E fence a (length xs) s = Inr s' \<and> bulk_result brk start limit s (U - somes xs) a (length xs) s'"
  using assms
proof (induction "length xs" arbitrary: xs s U a)
  case 0
  then show ?case by (simp add: bulk_result_def array_cells_simps bulk_ready_def)
next
  case (Suc n)
  then obtain x zs where xs: "xs = x # zs" and n: "n = length zs" by (cases xs) auto
  note R = bulk_readyD [OF Suc.prems(1) [unfolded xs]]
  from bulk_one [OF Suc.prems(1) [unfolded xs] Suc.prems(2), of fence E] Suc.prems(3) xs obtain s2 where
    s2: "bulk_free_one E fence a s = Inr s2" "bulk_next brk start limit A s U a xs s2" by auto
  then obtain U2 ys where y: "bulk_ready brk start limit A s2 U2 (a + 8) ys" "n = length ys" "U2 - somes ys = U - somes xs"
    unfolding bulk_next_def using xs n by auto
  have "fence = a + 8 + 8 * of_nat (length ys)" using Suc.prems(3) y(2) n xs by (simp add: algebra_simps)
  from Suc.hyps(1) [OF y(2,1) Suc.prems(2) this] obtain s' where
    s': "bulk_loop E fence (a + 8) n s2 = Inr s'" "bulk_result brk start limit s2 (U - somes xs) (a + 8) n s'" using y(2,3) by auto
  have "bulk_result brk start limit s (U - somes xs) a (Suc n) s'"
    by (rule bulk_result_step [OF s'(2)]) (use s2(2) R(5,13) n xs in \<open>auto simp: bulk_next_def\<close>)
  then show ?case using s2(1) s'(1) n xs by simp
qed

lemma bulk_free_sbrk:
  assumes E: "sbrk_like E brk start limit" and r: "bulk_ready brk start limit A s U a xs" and n: "unat nelem = length xs"
  shows "\<exists>s'. internal_bulk_free E s a nelem = Inr (s', 0) \<and> bulk_result brk start limit s (U - somes xs) a (length xs) s'"
proof -
  have f: "a + 8 * nelem = a + 8 * of_nat (length xs)" unfolding n [symmetric] by simp
  from bulk_loop_sbrk [OF r sbrk_likeD(3) [OF E] f] obtain s1 where
    s1: "bulk_loop E (a + 8 * nelem) a (length xs) s = Inr s1" "bulk_result brk start limit s (U - somes xs) a (length xs) s1" by blast
  have i1: "sbrk_inv brk start limit s1 (U - somes xs)" using s1(2) by (simp add: bulk_result_def)
  have A: "A \<in> U - somes xs" using r by (auto simp: bulk_ready_def)
  then have t1: "topp s1 \<noteq> 0" using sbrk_invD(6) [OF i1] by auto
  obtain s2 where s2: "(if should_trim s1 (topsize s1) then bindR (sys_trim E s1 0) (\<lambda>(s, _). Inr s) else Inr s1) = Inr s2"
      "keeps_all brk start limit s1 (U - somes xs) s2"
    using sys_trim_sbrk [OF E i1, of 0] keeps_refl [OF i1] by (cases "should_trim s1 (topsize s1)") auto
  have "internal_bulk_free E s a nelem = Inr (s2, 0)"
    using bulk_fold [of E "a + 8 * nelem" a 0 "length xs" "Inr s"] s1(1) s2(1)
    by (simp add: internal_bulk_free_def Let_def n)
  moreover have "bulk_result brk start limit s (U - somes xs) a (length xs) s2"
  proof -
    have "array_cells a (length xs) \<subseteq> payload A"
      using r array_cell(1) [OF sbrk_geo(1) [of brk start limit s U A], of a "length xs"] by (auto simp: bulk_ready_def array_cells_def)
    then have "array_cells a (length xs) \<subseteq> stored start limit s (U - somes xs)" using A by (auto simp: stored_def)
    moreover have "stored start limit s1 (U - somes xs) = stored start limit s (U - somes xs)"
      using s1(2) by (simp add: bulk_result_def stored_def state_cells_def)
    ultimately show ?thesis using s1(2) s2(2) unfolding bulk_result_def keeps_all_def by auto
  qed
  ultimately show ?thesis by blast
qed

end
