(* ===== verification/DL_MmapProps.thy ===== *)
theory DL_MmapProps
  imports DL_SbrkProps DL_Debug
begin

text \<open>
  Directly mapped chunks of src/src/dlmalloc.c: what \<open>mmap_alloc\<close> lays out in a fresh mapping, and
  that \<open>free\<close> gives exactly this mapping back.
\<close>

section \<open>The layout of a mapping\<close>

text \<open>The cells \<open>mmap_alloc\<close> writes in a mapping of \<open>n\<close> bytes at \<open>mm\<close>.\<close>

definition mapped_at :: "'o state \<Rightarrow> addr \<Rightarrow> size_t \<Rightarrow> bool" where
  "mapped_at s mm n \<longleftrightarrow> prev_foot s mm = 0 \<and> head s mm = n - 32 \<and> head s (mm + (n - 32)) = FENCEPOST_HEAD
     \<and> head s (mm + (n - 32 + 8)) = 0 \<and> least_addr s \<le> mm"

definition map_cells :: "addr \<Rightarrow> size_t \<Rightarrow> addr set" where
  "map_cells mm n = {mm, mm + 8, mm + (n - 24), mm + (n - 16)}"

definition fresh_map :: "addr \<Rightarrow> size_t \<Rightarrow> bool" where
  "fresh_map mm n \<longleftrightarrow> is_aligned mm \<and> is_aligned n \<and> 96 \<le> unat n \<and> unat n < 2 ^ 63 \<and> unat mm + unat n \<le> 2 ^ 64"

lemma map_offsets:
  assumes "fresh_map mm n"
  shows "n - 24 \<noteq> 0" "n - 24 \<noteq> 8" "n - 16 \<noteq> 0" "n - 16 \<noteq> 8" "n - 24 \<noteq> n - 16"
    "n - 32 + 8 = n - 24" "n - 32 + 16 = n - 16" "is_aligned (n - 32)" "unat (n - 32) = unat n - 32" "unat (n - 48) = unat n - 48"
proof -
  have n: "96 \<le> unat n" "16 dvd unat n" using assms by (simp_all add: fresh_map_def is_aligned_iff)
  have u: "unat (n - 32) = unat n - 32" "unat (n - 24) = unat n - 24" "unat (n - 16) = unat n - 16" "unat (n - 48) = unat n - 48"
    using n(1) by (simp_all add: unat_sub word_le_nat_alt)
  show "unat (n - 32) = unat n - 32" "unat (n - 48) = unat n - 48" by (rule u)+
  show "n - 24 \<noteq> 0" "n - 24 \<noteq> 8" "n - 16 \<noteq> 0" "n - 16 \<noteq> 8" using u n(1) by (auto simp: word_unat_eq_iff)
  show "n - 24 \<noteq> n - 16" "n - 32 + 8 = n - 24" "n - 32 + 16 = n - 16" by simp_all
  show "is_aligned (n - 32)" using u(1) n by (simp add: is_aligned_iff)
qed

lemma mmap_alloc_maps:
  assumes m: "CALL_MMAP E n s = (s1, mm)" "mm \<noteq> MFAIL" and n: "n = mmap_align s (nb + 63)" "nb < n" "\<not> over_limit s n"
    and f: "fresh_map mm n"
  shows "\<exists>s2. mmap_alloc E s nb = (s2, chunk2mem mm) \<and> mapped_at s2 mm n \<and> footprint s2 = footprint s + n
    \<and> (\<forall>a. a \<notin> map_cells mm n \<longrightarrow> rd s2 a = rd s1 a) \<and> mflags s2 = mflags s \<and> page_size s2 = page_size s"
proof -
  note O = map_offsets [OF f]
  have al: "is_aligned mm" using f by (simp add: fresh_map_def)
  then have "is_aligned (chunk2mem mm)" by (rule is_aligned_chunk2mem [THEN iffD2])
  then have off: "align_offset (chunk2mem mm) = 0" by (simp add: align_offset_def is_aligned_def)
  have s1: "footprint s1 = footprint s" "max_footprint s1 = max_footprint s" "mflags s1 = mflags s" "page_size s1 = page_size s"
    using m(1) by (auto simp: CALL_MMAP_def split: prod.splits)
  define t where "t = set_head (set_head (set_head (set_prev_foot s1 mm 0) mm (n - 32)) (mm + (n - 32)) FENCEPOST_HEAD) (mm + (n - 32 + 8)) 0"
  define s2 where "s2 = add_footprint (if least_addr t = 0 \<or> mm < least_addr t then t\<lparr>least_addr := mm\<rparr> else t) n"
  have n': "mmap_align s (nb + SIX_SIZE_T_SIZES + CHUNK_ALIGN_MASK) = n" by (simp add: n(1) dl_consts add.commute)
  have "mmap_alloc E s nb = (s2, chunk2mem mm)"
    using m n(2,3) off unfolding mmap_alloc_def CALL_DIRECT_MMAP_def n'
    by (simp add: Let_def dl_consts chunk_plus_offset_def s2_def t_def)
  moreover have mem: "rd s2 a = rd t a" for a by (simp add: s2_def add_footprint_def Let_def rd_def)
  have rt: "rd t a = (if a = mm + (n - 16) then 0 else if a = mm + (n - 24) then FENCEPOST_HEAD else if a = mm + 8 then n - 32
      else if a = mm then 0 else rd s1 a)" for a
    using O(6,7) by (simp add: t_def set_head_def set_prev_foot_def rd_wr add.assoc)
  have "mapped_at s2 mm n"
  proof -
    have "least_addr s2 \<le> mm" by (simp add: s2_def add_footprint_def Let_def not_less)
    then show ?thesis using O unfolding mapped_at_def head_def prev_foot_def mem rt by (simp add: add.assoc)
  qed
  moreover have "footprint s2 = footprint s + n \<and> mflags s2 = mflags s \<and> page_size s2 = page_size s"
    using s1 by (simp add: s2_def add_footprint_def Let_def t_def set_head_def set_prev_foot_def wr_def)
  moreover have "rd s2 a = rd s1 a" if "a \<notin> map_cells mm n" for a
    using that by (simp add: mem rt map_cells_def)
  ultimately show ?thesis by blast
qed

section \<open>Using and freeing it\<close>

lemma mapped_chunk:
  assumes f: "fresh_map mm n" and m: "mapped_at s mm n"
  shows "is_mmapped s mm" "is_inuse s mm" "\<not> pinuse s mm" "chunksize s mm = n - 32"
    "dlmalloc_usable_size s (chunk2mem mm) = n - 48" "chunk2mem mm \<noteq> 0"
proof -
  note O = map_offsets [OF f]
  have h: "head s mm = n - 32" using m by (simp add: mapped_at_def)
  note A = aligned_low_bits [OF O(8)]
  show "is_mmapped s mm" "is_inuse s mm" "\<not> pinuse s mm" "chunksize s mm = n - 32"
    using A by (simp_all add: is_mmapped_def is_inuse_def pinuse_def chunksize_def h head_defs dl_consts)
  moreover have "unat mm + 96 \<le> 2 ^ 64" using f by (simp add: fresh_map_def)
  then show "chunk2mem mm \<noteq> 0" by (auto simp: chunk2mem_def dl_consts word_unat_eq_iff unat_word_ariths)
  ultimately show "dlmalloc_usable_size s (chunk2mem mm) = n - 48"
    by (simp add: dlmalloc_usable_size_def Let_def overhead_for_def dl_consts)
qed

lemma mapped_free:
  assumes f: "fresh_map mm n" and m: "mapped_at s mm n"
  shows "dlfree E s (chunk2mem mm) = Inr (case CALL_MUNMAP E mm n s of (t, r) \<Rightarrow>
    if r = 0 then t\<lparr>footprint := footprint t - n\<rparr> else t)"
proof -
  note C = mapped_chunk [OF assms]
  have p: "prev_foot s mm = 0" and l: "ok_address s mm" using m by (simp_all add: mapped_at_def ok_address_def)
  show ?thesis
    using C p l
    by (simp add: dlfree_def Let_def ok_inuse_def free_backward_def dl_consts split: prod.split)
qed

lemma mapped_check:
  assumes f: "fresh_map mm n" and m: "mapped_at s mm n" and n: "n AND (page_size s - 1) = 0" "288 \<le> unat n"
  shows "do_check_mmapped_chunk s mm \<longleftrightarrow> use_mmap s"
proof -
  note C = mapped_chunk [OF f m] and O = map_offsets [OF f]
  have "\<not> is_small (n - 32)" using O(9) n(2) by (simp add: is_small_iff)
  moreover have "is_aligned (chunk2mem mm)" using f by (simp add: fresh_map_def is_aligned_chunk2mem)
  ultimately show ?thesis
    using C m n(1) by (simp add: do_check_mmapped_chunk_def mapped_at_def Let_def dl_consts ok_address_def chunk_plus_offset_def)
qed

text \<open>The size of a mapping: whole pages, with room for the chunk and its trailing fenceposts.\<close>

lemma mmap_size:
  assumes p: "pow2 (page_size s)" and nb: "unat nb < 2 ^ 40"
  defines "n \<equiv> mmap_align s (nb + 63)"
  shows "nb < n" "unat nb + 63 \<le> unat n" "unat n < 2 ^ 63" "is_aligned n" "n AND (page_size s - 1) = 0"
proof -
  have u: "unat (nb + 63) = unat nb + 63" using nb by (simp add: unat_word_ariths)
  have "unat (nb + 63) < 2 ^ 63" using u nb by simp
  note R = round_to_facts [OF p this]
  have n: "n = round_to (page_size s) (nb + 63)" by (simp add: n_def mmap_align_def aligns)
  show "unat nb + 63 \<le> unat n" using R(1) u by (simp add: n)
  then show "nb < n" by (simp add: word_less_nat_alt)
  show "unat n < 2 ^ 63" using R(2) u nb by (simp add: n)
  show "is_aligned n" using R(3) by (simp add: n is_aligned_iff)
  show "n AND (page_size s - 1) = 0" by (simp add: n round_to_def and.assoc)
qed

end
