(* ===== verification/DL_EdgeProps.thy ===== *)
theory DL_EdgeProps
  imports DL_ApiProps DL_StateCheck DL_BulkProps DL_MmapProps
begin

text \<open>
  Boundary behaviour of the exported functions of src/src/dlmalloc.c: requests and alignments that
  cannot be served, parameters and limits, \<open>posix_memalign\<close>, \<open>bulk_free\<close>, directly mapped chunks, and the
  debugging checks of the code itself.
\<close>

section \<open>The checks of the code itself\<close>

text \<open>The free chunks of a state with a top chunk.\<close>

lemma free_chunks_checked:
  assumes i: "sbrk_inv brk start limit s U" and t: "topp s \<noteq> 0"
  obtains F where "heap s U F {} (foreign limit s)" "\<forall>c\<in>F. do_check_free_chunk s (fst c)"
    "\<forall>c\<in>U \<union> F \<union> dvset s \<union> topset s. chunksize s (fst c) = snd c \<and> bin_find s (fst c) = Inr (c \<in> F)"
    "\<forall>c\<in>U \<union> dvset s \<union> topset s. c \<notin> F"
proof -
  note I = sbrk_invD [OF i] and g = sbrk_invD(7) [OF i t]
  obtain F where h: "heap s U F {} (foreign limit s)" using g by (auto simp: grown_def)
  have st: "state_cells s \<subseteq> foreign limit s" by (rule state_foreign [OF g I(4)])
  have O: "open_heap (heap_arena s {} (foreign limit s) UNIV) s U F (dvset s) (topset s) {}" by (rule heap_enter [OF h]) blast
  have "bin_find s (fst c) = Inr (c \<in> F)" if "c \<in> U \<union> F \<union> dvset s \<union> topset s" for c
    using sbrk_bin_find [OF h st grownD(2) [OF g], of "fst c" "snd c"] that by simp
  moreover have "chunksize s (fst c) = snd c" if "c \<in> U \<union> F \<union> dvset s \<union> topset s" for c
    using tags_heap(1) [OF O, of c] that by auto
  moreover have "do_check_free_chunk s (fst c)" if "c \<in> F" for c
    using free_then_used(1) [OF h, of "fst c" "snd c"] that by simp
  moreover have "\<forall>c\<in>U \<union> dvset s \<union> topset s. c \<notin> F" using heap_disjoint [OF O] by blast
  ultimately show thesis using that h by blast
qed

text \<open>
  C14. In every state of the invariant the debugging checks pass: every block in use, every small and
  tree bin, every free chunk of the bins and the designated victim satisfy all assertions of the
  code, and none of the check loops runs forever. \<open>bin_find\<close> decides membership: of all chunks of the
  heap it finds exactly the chunks of the bins, and neither a block in use nor the victim nor the top
  chunk. (The invariant is that of a system whose break moves as \<open>sbrk\<close> documents: one segment, no
  mapped chunks.)
\<close>

theorem states_pass_own_checks:
  assumes "sbrk_inv brk start limit s U"
  shows "(\<forall>(p, z)\<in>U. do_check_inuse_chunk s p \<and> bin_find s p = Inr False)
    \<and> (\<forall>i<32. do_check_smallbin s (of_nat i) = Inr True \<and> do_check_treebin s (of_nat i) = Inr True)
    \<and> (dv s \<noteq> 0 \<longrightarrow> do_check_free_chunk s (dv s) \<and> chunksize s (dv s) = dvsize s \<and> MIN_CHUNK_SIZE \<le> dvsize s
         \<and> bin_find s (dv s) = Inr False)
    \<and> (topp s \<noteq> 0 \<longrightarrow> chunksize s (topp s) = topsize s \<and> bin_find s (topp s) = Inr False
         \<and> (\<exists>F. heap s U F {} (foreign limit s) \<and> (\<forall>(p, z)\<in>F. do_check_free_chunk s p \<and> chunksize s p = z)
              \<and> (\<forall>c\<in>U \<union> F \<union> dvset s \<union> topset s. bin_find s (fst c) = Inr (c \<in> F))))"
proof (cases "topp s = 0")
  case True
  then have "U = {}" "smallmap s = 0" "treemap s = 0" "dv s = 0" using sbrk_invD(6) [OF assms] by (simp_all add: fresh_state_def)
  then show ?thesis using True by (simp add: do_check_smallbin_def do_check_treebin_def Let_def)
next
  case False
  note I = sbrk_invD [OF assms] and g = sbrk_invD(7) [OF assms False]
  obtain F where h: "heap s U F {} (foreign limit s)" and f: "\<forall>c\<in>F. do_check_free_chunk s (fst c)"
      and b: "\<forall>c\<in>U \<union> F \<union> dvset s \<union> topset s. chunksize s (fst c) = snd c \<and> bin_find s (fst c) = Inr (c \<in> F)"
      and D: "\<forall>c\<in>U \<union> dvset s \<union> topset s. c \<notin> F"
    using assms False by (rule free_chunks_checked)
  have st: "state_cells s \<subseteq> foreign limit s" by (rule state_foreign [OF g I(4)])
  have O: "open_heap (heap_arena s {} (foreign limit s) UNIV) s U F (dvset s) (topset s) {}" by (rule heap_enter [OF h]) blast
  have "do_check_inuse_chunk s p \<and> bin_find s p = Inr False" if "(p, z) \<in> U" for p z
    using check_inuse [OF h that] bspec [OF b, of "(p, z)"] bspec [OF D, of "(p, z)"] that by simp
  moreover have "do_check_free_chunk s (dv s) \<and> chunksize s (dv s) = dvsize s \<and> MIN_CHUNK_SIZE \<le> dvsize s
      \<and> bin_find s (dv s) = Inr False" if "dv s \<noteq> 0"
  proof -
    have v: "(dv s, dvsize s) \<in> dvset s" using that by (simp add: dvset_def)
    moreover from this have "MIN_CHUNK_SIZE \<le> dvsize s"
      using size_large [OF O, of "(dv s, dvsize s)"] by (auto simp: dl_consts word_le_nat_alt)
    ultimately show ?thesis
      using check_free [OF h, of "dv s" "dvsize s"] bspec [OF b, of "(dv s, dvsize s)"] bspec [OF D, of "(dv s, dvsize s)"] by simp
  qed
  moreover have "chunksize s (topp s) = topsize s \<and> bin_find s (topp s) = Inr False"
  proof -
    have "(topp s, topsize s) \<in> topset s" using False by (simp add: topset_def)
    then show ?thesis using bspec [OF b, of "(topp s, topsize s)"] bspec [OF D, of "(topp s, topsize s)"] by simp
  qed
  moreover have "\<exists>F. heap s U F {} (foreign limit s) \<and> (\<forall>(p, z)\<in>F. do_check_free_chunk s p \<and> chunksize s p = z)
      \<and> (\<forall>c\<in>U \<union> F \<union> dvset s \<union> topset s. bin_find s (fst c) = Inr (c \<in> F))"
    by (rule exI [of _ F]) (use h f b in \<open>auto simp: split_beta\<close>)
  ultimately show ?thesis
    using small_bin_checked [OF h] tree_bin_checked [OF h _ sbrk_headers [OF h st grownD(4) [OF g]]] by auto
qed

theorem states_pass_own_checks_witness:
  "\<exists>s U F. sample_run = Inr (s, 0x100010, 0x100080, 0x100010) \<and> sbrk_inv (\<lambda>x. x) 0x100000 0x500000 s U
    \<and> dv s = 0x100020 \<and> do_check_free_chunk s 0x100020 \<and> bin_find s 0x100020 = Inr False
    \<and> do_check_smallbin s 3 = Inr True \<and> do_check_treebin s 3 = Inr True
    \<and> heap s U F {} (foreign 0x500000 s) \<and> (\<forall>c\<in>U \<union> F. bin_find s (fst c) = Inr (c \<in> F))"
proof -
  obtain s U where s: "sample_run = Inr (s, 0x100010, 0x100080, 0x100010)" "dv s = 0x100020" "topp s \<noteq> 0"
      "sbrk_inv (\<lambda>x. x) 0x100000 0x500000 s U" using sample_inv by blast
  note T = states_pass_own_checks [OF s(4)]
  then have "\<forall>i<32. do_check_smallbin s (of_nat i) = Inr True \<and> do_check_treebin s (of_nat i) = Inr True" by blast
  from this [rule_format, of 3] have "do_check_smallbin s 3 = Inr True \<and> do_check_treebin s 3 = Inr True" by simp
  moreover have "do_check_free_chunk s 0x100020 \<and> bin_find s 0x100020 = Inr False" using T s(2) by simp
  moreover obtain F where "heap s U F {} (foreign 0x500000 s)" "\<forall>c\<in>U \<union> F \<union> dvset s \<union> topset s. bin_find s (fst c) = Inr (c \<in> F)"
    using T s(3) by blast
  ultimately show ?thesis using s by blast
qed

section \<open>Alignments and requests that cannot be served\<close>

text \<open>
  C16. The alignment \<open>internal_memalign\<close> uses is the least power of two, at least 32, not below the
  one asked for; above \<open>2 ^ 63\<close> there is none, and the loop that looks for it never ends.
\<close>

theorem memalign_alignment_least_or_diverges:
  "if unat alignment \<le> 2 ^ 63
   then \<exists>k. 5 \<le> k \<and> k < 64 \<and> memalign_alignment alignment = Inr (2 ^ k) \<and> unat alignment \<le> 2 ^ k
     \<and> (k = 5 \<or> 2 ^ (k - 1) < unat alignment)
   else memalign_alignment alignment = Inl Diverges"
  using memalign_alignment_power [of alignment] memalign_alignment_diverges [of alignment] by simp

text \<open>
  C15. A request of \<open>MAX_REQUEST\<close> or more, and a \<open>calloc\<close> whose product does not fit a word, return 0
  without a system call for memory; at most the parameters are initialised.
\<close>

theorem huge_requests_fail:
  assumes "dvsize s \<noteq> MAX_SIZE_T"
  shows "(MAX_REQUEST \<le> bytes \<longrightarrow> dlmalloc E s bytes = bindR (ensure_initialization E s) (\<lambda>s. Inr (s, 0)))
    \<and> (2 ^ 64 \<le> unat n * unat e \<longrightarrow> dlcalloc E s n e = bindR (ensure_initialization E s) (\<lambda>s. Inr (s, 0)))"
proof -
  have max: "\<not> MAX_SIZE_T < x" "x \<le> MAX_SIZE_T" for x
    using unat_lt [of x] by (simp_all add: dl_consts word_less_nat_alt word_le_nat_alt)
  have no_mmap: "mmap_alloc E t MAX_SIZE_T = (t, 0)" for t :: "'a state"
    by (simp add: mmap_alloc_def Let_def max)
  have sys: "sys_alloc E s MAX_SIZE_T = bindR (ensure_initialization E s) (\<lambda>s. Inr (s, 0))"
    by (simp add: sys_alloc_def no_mmap Let_def max cong: if_cong)
  have top: "\<not> MAX_SIZE_T < topsize s" "\<not> MAX_SIZE_T \<le> dvsize s" using assms max(2) [of "dvsize s"] max(1) by auto
  have m: "dlmalloc E s b = bindR (ensure_initialization E s) (\<lambda>s. Inr (s, 0))" if "MAX_REQUEST \<le> b" for b
  proof -
    have "\<not> b \<le> MAX_SMALL_REQUEST" using that by (simp add: dl_consts word_le_nat_alt)
    then show ?thesis using that top sys by (simp add: dlmalloc_def Let_def)
  qed
  moreover have "dlcalloc E s n e = bindR (ensure_initialization E s) (\<lambda>s. Inr (s, 0))" if "2 ^ 64 \<le> unat n * unat e"
  proof -
    have "calloc_req n e = MAX_SIZE_T" using calloc_req_exact [of n e] that by simp
    moreover have "MAX_REQUEST \<le> MAX_SIZE_T" by (simp add: dl_consts word_le_nat_alt)
    ultimately show ?thesis using m [of MAX_SIZE_T] by (simp add: dlcalloc_def Let_def bindR_assoc)
  qed
  ultimately show ?thesis by blast
qed

theorem huge_requests_fail_witness:
  "dlmalloc brk_os start_state MAX_SIZE_T = bindR (ensure_initialization brk_os start_state) (\<lambda>s. Inr (s, 0))
    \<and> dlcalloc brk_os start_state 0x100000000 0x100000001 = bindR (ensure_initialization brk_os start_state) (\<lambda>s. Inr (s, 0))"
proof -
  have "dvsize start_state \<noteq> MAX_SIZE_T" by (simp add: start_state_def static_state_def dl_consts)
  moreover have "MAX_REQUEST \<le> MAX_SIZE_T" "(2 :: nat) ^ 64 \<le> unat (0x100000000 :: size_t) * unat (0x100000001 :: size_t)"
    by (simp_all add: dl_consts word_le_nat_alt)
  ultimately show ?thesis using huge_requests_fail by blast
qed

section \<open>Parameters and limits\<close>

text \<open>The tests of \<open>init_mparams\<close>, and the parameters they establish.\<close>

definition params_ok :: "'o state \<Rightarrow> bool" where
  "params_ok s \<longleftrightarrow> mp_magic s \<noteq> 0 \<and> page_size s \<noteq> 0 \<and> page_size s AND (page_size s - 1) = 0
     \<and> granularity s AND (granularity s - 1) = 0 \<and> page_size s \<le> granularity s"

lemma magic_nonzero: "(x OR 8) AND NOT 7 \<noteq> (0 :: size_t)"
proof
  assume "(x OR 8) AND NOT 7 = 0"
  then have "bit ((x OR 8) AND NOT 7) 3 = bit (0 :: size_t) 3" by simp
  then show False by (simp add: bit_simps)
qed

lemma ensure_params:
  assumes "mp_magic s \<noteq> 0 \<longrightarrow> params_ok s" "os_pagesize E \<noteq> 0" "os_pagesize E AND (os_pagesize E - 1) = 0"
  obtains s' where "ensure_initialization E s = Inr s'" "params_ok s'" "mp_magic s \<noteq> 0 \<longrightarrow> s' = s"
    "s' = s\<lparr>mp_magic := mp_magic s', page_size := page_size s', granularity := granularity s', mmap_threshold := mmap_threshold s',
       trim_threshold := trim_threshold s', default_mflags := default_mflags s', mflags := mflags s'\<rparr>"
    "is_global s \<or> mflags s' = mflags s"
proof (cases "mp_magic s = 0")
  case False
  then show thesis using that [of s] assms(1) by (cases s) (simp add: ensure_initialization_def)
next
  case True
  obtain s' where s': "init_mparams E s = Inr s'"
    using True assms(3) by (auto simp: init_mparams_def Let_def DEFAULT_GRANULARITY_def dl_consts)
  show thesis
  proof (rule that [of s'])
    show "ensure_initialization E s = Inr s'" using True s' by (simp add: ensure_initialization_def)
    show "params_ok s'" using s' True assms(2,3) magic_nonzero
      by (auto simp: init_mparams_def Let_def params_ok_def DEFAULT_GRANULARITY_def dl_consts split: if_splits)
    show "is_global s \<or> mflags s' = mflags s"
      using s' True assms(3) by (auto simp: init_mparams_def Let_def DEFAULT_GRANULARITY_def dl_consts is_global_def split: if_splits)
    show "s' = s\<lparr>mp_magic := mp_magic s', page_size := page_size s', granularity := granularity s', mmap_threshold := mmap_threshold s',
       trim_threshold := trim_threshold s', default_mflags := default_mflags s', mflags := mflags s'\<rparr>"
      using s' True assms(3) by (cases s) (auto simp: init_mparams_def Let_def DEFAULT_GRANULARITY_def dl_consts split: if_splits)
  qed (simp add: True)
qed

lemma pow2_test:
  assumes "g \<noteq> 0" "g \<le> (x :: size_t)"
  shows "x AND (x - 1) = 0 \<longleftrightarrow> (\<exists>k<64. x = 2 ^ k)"
proof
  have x: "x \<noteq> 0" using assms by auto
  assume "x AND (x - 1) = 0"
  then show "\<exists>k<64. x = 2 ^ k" using pow2_word [OF _ x] by blast
next
  assume "\<exists>k<64. x = 2 ^ k"
  then obtain k where x: "x = 2 ^ k" by blast
  show "x AND (x - 1) = 0" unfolding x mask_eq_exp_minus_1 [symmetric] by (rule bit_word_eqI) (auto simp: bit_simps)
qed

text \<open>
  C17. \<open>mallopt\<close> keeps the parameters sound: the granularity and the page size are powers of two and
  the granularity is not below the page size, whatever number and value are given. It answers 1 for
  the two thresholds with any value and for a granularity that is a power of two of at least the page
  size, and then stores the value (-1 stands for the largest), else 0. Of the whole state it changes
  nothing but parameters, and, when it is the first call and initialises them, the flags of the
  global state; once they are initialised it changes only the parameter named.
\<close>

theorem change_mparam_keeps_params:
  assumes "mp_magic s \<noteq> 0 \<longrightarrow> params_ok s" "os_pagesize E \<noteq> 0" "os_pagesize E AND (os_pagesize E - 1) = 0"
  shows "let val = (if v = -1 then MAX_SIZE_T else word_of_int v) in \<exists>s' r. change_mparam E s n v = Inr (s', r) \<and> params_ok s' \<and> (r = 1 \<or> r = 0)
    \<and> (r = 1 \<longleftrightarrow> n = M_TRIM_THRESHOLD \<or> n = M_MMAP_THRESHOLD \<or> n = M_GRANULARITY \<and> (page_size s' \<le> val \<and> (\<exists>k<64. val = 2 ^ k)))
    \<and> (n = M_TRIM_THRESHOLD \<longrightarrow> trim_threshold s' = val) \<and> (n = M_MMAP_THRESHOLD \<longrightarrow> mmap_threshold s' = val)
    \<and> (n = M_GRANULARITY \<and> r = 1 \<longrightarrow> granularity s' = val) \<and> (n = M_GRANULARITY \<and> v = -1 \<longrightarrow> r = 0)
    \<and> s' = s\<lparr>mp_magic := mp_magic s', page_size := page_size s', granularity := granularity s', mmap_threshold := mmap_threshold s',
         trim_threshold := trim_threshold s', default_mflags := default_mflags s', mflags := mflags s'\<rparr>
    \<and> (is_global s \<and> mp_magic s = 0 \<or> mflags s' = mflags s)
    \<and> (mp_magic s \<noteq> 0 \<longrightarrow> s' = s\<lparr>granularity := granularity s', mmap_threshold := mmap_threshold s', trim_threshold := trim_threshold s'\<rparr>
         \<and> (n \<noteq> M_TRIM_THRESHOLD \<longrightarrow> trim_threshold s' = trim_threshold s)
         \<and> (n \<noteq> M_MMAP_THRESHOLD \<longrightarrow> mmap_threshold s' = mmap_threshold s)
         \<and> (n \<noteq> M_GRANULARITY \<or> r = 0 \<longrightarrow> granularity s' = granularity s))"
proof -
  obtain s0 where s0: "ensure_initialization E s = Inr s0" "params_ok s0" "mp_magic s \<noteq> 0 \<longrightarrow> s0 = s"
      "s0 = s\<lparr>mp_magic := mp_magic s0, page_size := page_size s0, granularity := granularity s0, mmap_threshold := mmap_threshold s0,
       trim_threshold := trim_threshold s0, default_mflags := default_mflags s0, mflags := mflags s0\<rparr>"
      "is_global s \<or> mflags s0 = mflags s"
    using ensure_params [OF assms(1-3)] by blast
  define val :: size_t where "val = (if v = -1 then MAX_SIZE_T else word_of_int v)"
  have max: "MAX_SIZE_T AND (MAX_SIZE_T - 1) \<noteq> 0" by (simp add: dl_consts)
  have v: "v = -1 \<longrightarrow> val = MAX_SIZE_T" by (simp add: val_def)
  have nums: "M_TRIM_THRESHOLD \<noteq> M_MMAP_THRESHOLD" "M_GRANULARITY \<noteq> M_TRIM_THRESHOLD" "M_GRANULARITY \<noteq> M_MMAP_THRESHOLD"
    by (simp_all add: M_TRIM_THRESHOLD_def M_GRANULARITY_def M_MMAP_THRESHOLD_def)
  let ?ok = "page_size s0 \<le> val \<and> val AND (val - 1) = 0"
  have ok: "?ok \<longleftrightarrow> page_size s0 \<le> val \<and> (\<exists>k<64. val = 2 ^ k)"
    using pow2_test [of "page_size s0" val] s0(2) by (auto simp: params_ok_def)
  have c: "change_mparam E s n v = Inr (if n = M_TRIM_THRESHOLD then (s0\<lparr>trim_threshold := val\<rparr>, 1)
     else if n = M_GRANULARITY then if ?ok then (s0\<lparr>granularity := val\<rparr>, 1) else (s0, 0)
     else if n = M_MMAP_THRESHOLD then (s0\<lparr>mmap_threshold := val\<rparr>, 1) else (s0, 0))"
    unfolding change_mparam_def s0(1) bindR_simps Let_def val_def by (rule refl)
  note F = s0(3-5)
  consider "n = M_TRIM_THRESHOLD" | "n = M_MMAP_THRESHOLD" | "n = M_GRANULARITY" "?ok" | "n = M_GRANULARITY" "\<not> ?ok"
    | "n \<notin> {M_TRIM_THRESHOLD, M_GRANULARITY, M_MMAP_THRESHOLD}" by blast
  then show ?thesis
  proof cases
    case 1
    show ?thesis
      unfolding Let_def val_def [symmetric]
      by (rule exI [of _ "s0\<lparr>trim_threshold := val\<rparr>"], rule exI [of _ 1])
        (use 1 nums c s0(2) F in \<open>cases s; cases s0; auto simp: params_ok_def is_global_def\<close>)
  next
    case 2
    show ?thesis
      unfolding Let_def val_def [symmetric]
      by (rule exI [of _ "s0\<lparr>mmap_threshold := val\<rparr>"], rule exI [of _ 1])
        (use 2 nums c s0(2) F in \<open>cases s; cases s0; auto simp: params_ok_def is_global_def\<close>)
  next
    case 3
    show ?thesis
      unfolding Let_def val_def [symmetric]
      by (rule exI [of _ "s0\<lparr>granularity := val\<rparr>"], rule exI [of _ 1])
        (use 3 nums ok c v max s0(2) F in \<open>cases s; cases s0; auto simp: params_ok_def is_global_def\<close>)
  next
    case 4
    show ?thesis
      unfolding Let_def val_def [symmetric]
      by (rule exI [of _ s0], rule exI [of _ 0])
        (use 4 nums ok c s0(2) F in \<open>cases s; cases s0; auto simp: params_ok_def is_global_def\<close>)
  next
    case 5
    show ?thesis
      unfolding Let_def val_def [symmetric]
      by (rule exI [of _ s0], rule exI [of _ 0])
        (use 5 nums c s0(2) F in \<open>cases s; cases s0; auto simp: params_ok_def is_global_def\<close>)
  qed
qed

theorem change_mparam_keeps_params_witness:
  "\<exists>s r. change_mparam brk_os start_state M_GRANULARITY 65536 = Inr (s, r) \<and> params_ok s"
proof -
  have "mp_magic start_state \<noteq> 0 \<longrightarrow> params_ok start_state" by (simp add: start_state_def static_state_def)
  moreover have "os_pagesize brk_os \<noteq> 0" "os_pagesize brk_os AND (os_pagesize brk_os - 1) = 0" by (simp_all add: brk_os_def)
  ultimately show ?thesis using change_mparam_keeps_params [of start_state brk_os 65536 M_GRANULARITY] unfolding Let_def by blast
qed

text \<open>
  C40. Asking for a footprint limit of 0 removes the limit, where the comment of the code asks for the
  least one: the first assignment of the code is overwritten.
\<close>

theorem footprint_limit_zero_is_none:
  "dlmalloc_set_footprint_limit s u 0 = (s\<lparr>footprint_limit := 0\<rparr>, 0)
    \<and> dlmalloc_footprint_limit (fst (dlmalloc_set_footprint_limit s u 0)) = MAX_SIZE_T
    \<and> \<not> over_limit (fst (dlmalloc_set_footprint_limit s u 0)) n"
proof -
  have "granularity_align s 0 = 0"
    by (simp add: granularity_align_def)
  moreover have "(0 :: size_t) \<noteq> MAX_SIZE_T" by (simp add: dl_consts)
  ultimately show ?thesis
    by (simp add: dlmalloc_set_footprint_limit_def set_footprint_limit_result_def dlmalloc_footprint_limit_def over_limit_def)
qed

section \<open>posix\_memalign\<close>

text \<open>The test of the alignment: a power of two, at least 8.\<close>

lemma posix_alignment:
  "(a mod 8 = 0 \<and> a div 8 \<noteq> 0 \<and> a div 8 AND (a div 8 - 1) = 0) \<longleftrightarrow> (\<exists>k. 3 \<le> k \<and> k < 64 \<and> a = (2 :: size_t) ^ k)"
proof
  assume a: "a mod 8 = 0 \<and> a div 8 \<noteq> 0 \<and> a div 8 AND (a div 8 - 1) = 0"
  then obtain j where j: "j < 64" "a div 8 = 2 ^ j" using pow2_word [of "a div 8"] by blast
  have "unat (a div 8) = 2 ^ j" unfolding j(2) by (rule unat_exp) (use j(1) in simp)
  moreover have "unat (a div 8) = unat a div 8" by (simp add: unat_div)
  moreover have "unat (a mod 8) = 0" using a by simp
  then have "unat a mod 8 = 0" by (simp add: unat_mod)
  ultimately have u: "unat a = 2 ^ (j + 3)" by (simp add: power_add) presburger
  then have "(2 :: nat) ^ (j + 3) < 2 ^ 64" using unat_lt [of a] by simp
  then have k: "j + 3 < 64" by (rule power_less_imp_less_exp [rotated]) simp
  have "a = 2 ^ (j + 3)" unfolding word_unat_eq_iff u by (rule unat_exp [symmetric]) (use k in simp)
  then show "\<exists>k. 3 \<le> k \<and> k < 64 \<and> a = 2 ^ k" using k by (intro exI [of _ "j + 3"]) simp
next
  assume "\<exists>k. 3 \<le> k \<and> k < 64 \<and> a = 2 ^ k"
  then obtain k where k: "3 \<le> k" "k < 64" "a = 2 ^ k" by blast
  have u: "unat a = 2 ^ k" unfolding k(3) by (rule unat_exp) (use k(2) in simp)
  have e: "(2 :: nat) ^ k = 2 ^ (k - 3) * 8" using k(1) power_add [of "2 :: nat" "k - 3" 3] by simp
  have "unat (a div 8) = 2 ^ (k - 3)" by (simp add: unat_div u e)
  also have "\<dots> = unat (2 ^ (k - 3) :: size_t)" by (rule unat_exp [symmetric]) (use k(2) in simp)
  finally have d: "a div 8 = 2 ^ (k - 3)" by (simp add: word_unat_eq_iff)
  have "2 ^ (k - 3) AND (2 ^ (k - 3) - 1) = (0 :: size_t)"
    unfolding mask_eq_exp_minus_1 [symmetric] by (rule bit_word_eqI) (auto simp: bit_simps)
  moreover have "unat (a mod 8) = 0" by (simp add: unat_mod u e)
  then have "a mod 8 = 0" by (simp add: word_unat_eq_iff)
  moreover have "unat (2 ^ (k - 3) :: size_t) \<noteq> 0" by (subst unat_exp) (use k(2) in simp_all)
  then have "(2 :: size_t) ^ (k - 3) \<noteq> 0" by (metis unat_0)
  ultimately show "a mod 8 = 0 \<and> a div 8 \<noteq> 0 \<and> a div 8 AND (a div 8 - 1) = 0" unfolding d by blast
qed

lemma andThen_next: "andThen (bindR a (\<lambda>r. Inr (Next r))) f = bindR a f"
  by (cases a) simp_all

text \<open>Either source of the block.\<close>

lemma posix_block:
  assumes E: "sbrk_like E brk start limit" and i: "sbrk_inv brk start limit s U" and b: "unat bytes < 2 ^ 38"
    and k: "unat alignment = 2 ^ k" "alignment \<le> al" "unat al \<le> 2 ^ 37"
  shows "\<exists>s1 m. (if alignment = 16 then dlmalloc E s bytes else internal_memalign E s al bytes) = Inr (s1, m)
      \<and> (\<forall>a\<in>stored start limit s U. rd s1 a = rd s a) \<and> maddr s1 = maddr s
      \<and> (m = 0 \<and> sbrk_inv brk start limit s1 U
         \<or> m \<noteq> 0 \<and> (\<exists>q y. m = chunk2mem q \<and> unat alignment dvd unat m \<and> (q, y) \<notin> U \<and> request2size bytes \<le> y
               \<and> sbrk_inv brk start limit s1 (insert (q, y) U)))"
proof (cases "alignment = 16")
  case True
  have b': "unat bytes < 2 ^ 39" using b by simp
  obtain s1 m where m: "dlmalloc E s bytes = Inr (s1, m)" "malloc_result brk start limit s U (request2size bytes) s1 m"
    using dlmalloc_sbrk [OF E i b'] by blast
  have "16 dvd unat (chunk2mem q)" if "sbrk_inv brk start limit s1 (insert (q, y) U)" for q y
    using chunk2mem_aligned [OF sbrk_geo(1) [OF that, of "(q, y)"]] by (simp add: is_aligned_iff)
  then show ?thesis using m True unfolding malloc_result_def by auto
next
  case False
  obtain s1 m where m: "internal_memalign E s al bytes = Inr (s1, m)"
    and r: "m = 0 \<and> sbrk_inv brk start limit s1 U \<and> maddr s1 = maddr s \<and> (\<forall>a\<in>stored start limit s U. rd s1 a = rd s a)
       \<or> (\<exists>j. 5 \<le> j \<and> j < 40 \<and> unat al \<le> 2 ^ j \<and> aligned_result brk start limit s U (2 ^ j) (request2size bytes) s1 m)"
    using internal_memalign_sbrk [OF E i k(3) b] by blast
  from r show ?thesis
  proof
    assume "m = 0 \<and> sbrk_inv brk start limit s1 U \<and> maddr s1 = maddr s \<and> (\<forall>a\<in>stored start limit s U. rd s1 a = rd s a)"
    then show ?thesis using m False by simp
  next
    assume "\<exists>j. 5 \<le> j \<and> j < 40 \<and> unat al \<le> 2 ^ j \<and> aligned_result brk start limit s U (2 ^ j) (request2size bytes) s1 m"
    then obtain j q y where j: "j < 40" "unat al \<le> 2 ^ j" "m AND (2 ^ j - 1) = 0" "\<forall>a\<in>stored start limit s U. rd s1 a = rd s a"
          "maddr s1 = maddr s"
        and q: "m = chunk2mem q" "(q, y) \<notin> U" "request2size bytes \<le> y" "sbrk_inv brk start limit s1 (insert (q, y) U)"
      unfolding aligned_result_def by blast
    have "(2 :: nat) ^ k \<le> 2 ^ j" by (rule order_trans [OF k(2) [unfolded word_le_nat_alt k(1)] j(2)])
    then have "k \<le> j" by (rule power_le_imp_le_exp [rotated]) simp
    then have "(2 :: nat) ^ k dvd 2 ^ j" by (rule le_imp_power_dvd)
    also have "2 ^ j dvd unat m" by (rule aligned_dvd [OF _ j(3)]) (use j(1) in simp)
    finally have "unat alignment dvd unat m" using k(1) by simp
    moreover have "m \<noteq> 0" using sbrk_tags(4) [OF q(4), of q y] q(1) by simp
    ultimately show ?thesis using m False j(4,5) q by auto
  qed
qed

text \<open>The two answers of \<open>posix_memalign\<close> that need no memory.\<close>

lemma posix_invalid:
  assumes "\<not> (\<exists>k. 3 \<le> k \<and> k < 64 \<and> alignment = (2 :: size_t) ^ k)"
  shows "dlposix_memalign E s pp alignment bytes = Inr (s, EINVAL)"
proof -
  have "\<not> (alignment mod 8 = 0 \<and> alignment div 8 \<noteq> 0 \<and> alignment div 8 AND (alignment div 8 - 1) = 0)"
    unfolding posix_alignment by (rule assms)
  then have b: "(alignment mod 8 \<noteq> 0 \<or> alignment div 8 = 0 \<or> alignment div 8 AND (alignment div 8 - 1) \<noteq> 0) = True"
    by (simp only: de_Morgan_conj not_not)
  have "alignment \<noteq> 2 ^ 4" using assms by (rule contrapos_nn) (rule exI [of _ 4], simp)
  then have a: "(alignment = MALLOC_ALIGNMENT) = False" by (simp add: dl_consts)
  show ?thesis by (simp only: dlposix_memalign_def Let_def a b if_True if_False andThen_simps)
qed

lemma posix_too_large:
  assumes "3 \<le> k" "k < 64" "alignment = (2 :: size_t) ^ k" "alignment \<noteq> 16" "MAX_REQUEST - alignment < bytes"
  shows "dlposix_memalign E s pp alignment bytes = Inr (s, ENOMEM)"
proof -
  have P: "alignment mod 8 = 0 \<and> alignment div 8 \<noteq> 0 \<and> alignment div 8 AND (alignment div 8 - 1) = 0"
    unfolding posix_alignment using assms(1-3) by blast
  have "\<not> bytes \<le> MAX_REQUEST - alignment" using assms(5) by (simp add: not_le)
  then show ?thesis using P assms(4) by (simp add: dlposix_memalign_def Let_def dl_consts)
qed

lemma posix_sbrk:
  assumes E: "sbrk_like E brk start limit" and i: "sbrk_inv brk start limit s U"
    and b: "unat alignment \<le> 2 ^ 37" "unat bytes < 2 ^ 38" and pp: "pp \<in> stored start limit s U"
    and k: "3 \<le> k" "k < 64" "alignment = 2 ^ k"
  shows "\<exists>s' r. dlposix_memalign E s pp alignment bytes = Inr (s', r) \<and> (\<forall>a\<in>stored start limit s U - {pp}. rd s' a = rd s a)
    \<and> (r = ENOMEM \<and> rd s' pp = rd s pp \<and> sbrk_inv brk start limit s' U
       \<or> r = 0 \<and> (\<exists>q y. rd s' pp = chunk2mem q \<and> unat alignment dvd unat (chunk2mem q) \<and> (q, y) \<notin> U
            \<and> request2size bytes \<le> y \<and> sbrk_inv brk start limit s' (insert (q, y) U)))"
proof -
  have u: "unat alignment = 2 ^ k" unfolding k(3) by (rule unat_exp) (use k(2) in simp)
  have P: "alignment mod 8 = 0 \<and> alignment div 8 \<noteq> 0 \<and> alignment div 8 AND (alignment div 8 - 1) = 0"
    unfolding posix_alignment using k by blast
  define al where "al = (if alignment < MIN_CHUNK_SIZE then MIN_CHUNK_SIZE else alignment)"
  have al: "unat al \<le> 2 ^ 37" "alignment \<le> al"
    using b(1) by (auto simp: al_def dl_consts word_less_nat_alt word_le_nat_alt)
  have "bytes \<le> MAX_REQUEST - alignment"
    using b by (simp add: dl_consts word_le_nat_alt unat_sub)
  then have d: "dlposix_memalign E s pp alignment bytes =
      bindR (if alignment = 16 then dlmalloc E s bytes else internal_memalign E s al bytes)
        (\<lambda>(s, m). Inr (if m = 0 then (s, ENOMEM) else (wr s pp m, 0)))"
    using P by (simp add: dlposix_memalign_def Let_def al_def dl_consts andThen_next)
  note posix_block [OF E i b(2) u al(2,1)]
  then obtain s1 m where m: "(if alignment = 16 then dlmalloc E s bytes else internal_memalign E s al bytes) = Inr (s1, m)"
      "\<forall>a\<in>stored start limit s U. rd s1 a = rd s a" "maddr s1 = maddr s"
      "m = 0 \<and> sbrk_inv brk start limit s1 U
         \<or> m \<noteq> 0 \<and> (\<exists>q y. m = chunk2mem q \<and> unat alignment dvd unat m \<and> (q, y) \<notin> U \<and> request2size bytes \<le> y
               \<and> sbrk_inv brk start limit s1 (insert (q, y) U))" by blast
  from m(4) show ?thesis
  proof (elim disjE conjE exE)
    assume "m = 0" "sbrk_inv brk start limit s1 U"
    then show ?thesis using d m(1,2) pp by auto
  next
    fix q y
    assume q: "m \<noteq> 0" "m = chunk2mem q" "unat alignment dvd unat m" "(q, y) \<notin> U" "request2size bytes \<le> y"
      "sbrk_inv brk start limit s1 (insert (q, y) U)"
    have "pp \<in> stored start limit s1 (insert (q, y) U)" using pp m(3) by (auto simp: stored_def state_cells_def)
    from write_stored [OF q(6) this]
    have "sbrk_inv brk start limit (wr s1 pp m) (insert (q, y) U)" .
    then show ?thesis using d m(1,2) q by (auto simp: rd_wr)
  qed
qed

text \<open>
  C13. \<open>posix_memalign\<close>. In any state, on any system: unless the alignment is a power of two from 8
  to \<open>2 ^ 63\<close>, it returns \<open>EINVAL\<close> and nothing has changed; when it is one (other than 16, which is
  served by \<open>malloc\<close>) and the size exceeds \<open>MAX_REQUEST\<close> less the alignment, it returns \<open>ENOMEM\<close> and
  nothing has changed. On a system whose break moves as \<open>sbrk\<close> documents and on which \<open>mmap\<close> always
  fails, with a power of two from 8 to \<open>2 ^ 37\<close>, less than \<open>2 ^ 38\<close> bytes and a cell \<open>pp\<close> of the client
  (in a live block, or in memory that is neither heap nor allocator state): it returns \<open>ENOMEM\<close> and
  made no block, with the cell as it was, or 0, and the cell holds a new block, of at least the padded
  size, at a multiple of the alignment. All other contents stay.
\<close>

theorem posix_memalign_total:
  "(\<not> (\<exists>k. 3 \<le> k \<and> k < 64 \<and> alignment = 2 ^ k) \<longrightarrow> dlposix_memalign E s pp alignment bytes = Inr (s, EINVAL))
    \<and> ((\<exists>k. 3 \<le> k \<and> k < 64 \<and> alignment = 2 ^ k) \<and> alignment \<noteq> 16 \<and> MAX_REQUEST - alignment < bytes
         \<longrightarrow> dlposix_memalign E s pp alignment bytes = Inr (s, ENOMEM))
    \<and> (sbrk_like E brk start limit \<and> sbrk_inv brk start limit s U \<and> pp \<in> stored start limit s U
         \<and> (\<exists>k. 3 \<le> k \<and> k \<le> 37 \<and> alignment = 2 ^ k) \<and> unat bytes < 2 ^ 38
       \<longrightarrow> (\<exists>s' r. dlposix_memalign E s pp alignment bytes = Inr (s', r) \<and> (\<forall>a\<in>stored start limit s U - {pp}. rd s' a = rd s a)
             \<and> (r = ENOMEM \<and> rd s' pp = rd s pp \<and> sbrk_inv brk start limit s' U
                \<or> r = 0 \<and> (\<exists>q y. rd s' pp = chunk2mem q \<and> unat alignment dvd unat (chunk2mem q) \<and> (q, y) \<notin> U
                     \<and> request2size bytes \<le> y \<and> sbrk_inv brk start limit s' (insert (q, y) U)))))"
proof (intro conjI impI)
  assume "\<not> (\<exists>k. 3 \<le> k \<and> k < 64 \<and> alignment = 2 ^ k)"
  then show "dlposix_memalign E s pp alignment bytes = Inr (s, EINVAL)" by (rule posix_invalid)
next
  assume "(\<exists>k. 3 \<le> k \<and> k < 64 \<and> alignment = 2 ^ k) \<and> alignment \<noteq> 16 \<and> MAX_REQUEST - alignment < bytes"
  then show "dlposix_memalign E s pp alignment bytes = Inr (s, ENOMEM)" using posix_too_large by blast
next
  assume a: "sbrk_like E brk start limit \<and> sbrk_inv brk start limit s U \<and> pp \<in> stored start limit s U
         \<and> (\<exists>k. 3 \<le> k \<and> k \<le> 37 \<and> alignment = 2 ^ k) \<and> unat bytes < 2 ^ 38"
  then obtain k where k: "3 \<le> k" "k \<le> 37" "alignment = 2 ^ k" by blast
  then have k64: "k < 64" by simp
  have "unat alignment = 2 ^ k" unfolding k(3) by (rule unat_exp) (use k64 in simp)
  then have al: "unat alignment \<le> 2 ^ 37" using power_increasing [OF k(2), of "2 :: nat"] by simp
  have h: "sbrk_like E brk start limit" "sbrk_inv brk start limit s U" "unat bytes < 2 ^ 38" "pp \<in> stored start limit s U"
    using a by blast+
  show "\<exists>s' r. dlposix_memalign E s pp alignment bytes = Inr (s', r) \<and> (\<forall>a\<in>stored start limit s U - {pp}. rd s' a = rd s a)
             \<and> (r = ENOMEM \<and> rd s' pp = rd s pp \<and> sbrk_inv brk start limit s' U
                \<or> r = 0 \<and> (\<exists>q y. rd s' pp = chunk2mem q \<and> unat alignment dvd unat (chunk2mem q) \<and> (q, y) \<notin> U
                     \<and> request2size bytes \<le> y \<and> sbrk_inv brk start limit s' (insert (q, y) U)))"
    by (rule posix_sbrk [OF h(1,2) al h(3,4) k(1) k64 k(3)])
qed

theorem posix_memalign_total_witness:
  "\<exists>s p s' r. dlposix_memalign brk_os (s :: addr state) (chunk2mem p) 64 40 = Inr (s', r) \<and> r \<noteq> EINVAL
    \<and> dlposix_memalign brk_os s (chunk2mem p) 24 40 = Inr (s, EINVAL)
    \<and> dlposix_memalign brk_os s (chunk2mem p) 64 MAX_SIZE_T = Inr (s, ENOMEM)"
proof -
  obtain s :: "addr state" and p z where i: "sbrk_inv (\<lambda>x. x) 0x100000 0x500000 s {(p, z)}" "topp s \<noteq> 0" by (rule live_state)
  have "chunk2mem p \<in> payload (p, z)"
    using payload_cell [of p z 0] sbrk_geo(1,3) [OF i(1), of "(p, z)"] by simp
  then have pp: "chunk2mem p \<in> stored 0x100000 0x500000 s {(p, z)}" by (auto simp: stored_def)
  have b: "unat (40 :: size_t) < 2 ^ 38" "(64 :: size_t) \<noteq> 16" "MAX_REQUEST - (64 :: size_t) < MAX_SIZE_T"
    by (simp_all add: dl_consts word_less_nat_alt)
  have k: "3 \<le> (6 :: nat) \<and> (6 :: nat) \<le> 37 \<and> (64 :: size_t) = 2 ^ 6" "3 \<le> (6 :: nat) \<and> (6 :: nat) < 64 \<and> (64 :: size_t) = 2 ^ 6"
    by simp_all
  have n: "\<not> (\<exists>k. 3 \<le> k \<and> k < 64 \<and> (24 :: size_t) = 2 ^ k)"
    unfolding posix_alignment [symmetric] by simp
  note T = posix_memalign_total [of _ brk_os s "chunk2mem p" _ "\<lambda>x. x" "0x100000" "0x500000" "{(p, z)}"]
  have "ENOMEM \<noteq> EINVAL" "(0 :: int) \<noteq> EINVAL" by (simp_all add: EINVAL_def ENOMEM_def)
  then have "\<exists>s' r. dlposix_memalign brk_os s (chunk2mem p) 64 40 = Inr (s', r) \<and> r \<noteq> EINVAL"
    using T [of 64 40] brk_os_sbrk i(1) pp b(1) k(1) by blast
  moreover have "dlposix_memalign brk_os s (chunk2mem p) 24 40 = Inr (s, EINVAL)" using T [of 24 40] n by blast
  moreover have "dlposix_memalign brk_os s (chunk2mem p) 64 MAX_SIZE_T = Inr (s, ENOMEM)"
    using T [of 64 MAX_SIZE_T] b(2,3) k(2) by blast
  ultimately show ?thesis by blast
qed

section \<open>Freeing an array of blocks\<close>

text \<open>
  C5. \<open>bulk_free\<close> of an array of distinct live blocks and null pointers, which lies in a live block of
  its own, on a system whose break moves as \<open>sbrk\<close> documents and on which \<open>mmap\<close> always fails (all
  blocks in one segment): it returns, reports no block as not freed, frees exactly the blocks of the
  array, clears the array and keeps all other contents.
\<close>

theorem dlbulk_free_total:
  assumes "sbrk_like E brk start limit" "sbrk_inv brk start limit s U" "A \<in> U" "array_in A a (length xs)"
    "array_at s a xs" "distinct (filter (\<lambda>x. x \<noteq> None) xs)" "somes xs \<subseteq> U - {A}" "unat nelem = length xs"
  shows "\<exists>s'. dlbulk_free E s a nelem = Inr (s', 0) \<and> sbrk_inv brk start limit s' (U - somes xs)
    \<and> (\<forall>b\<in>array_cells a (length xs). rd s' b = 0)
    \<and> (\<forall>b\<in>stored start limit s (U - somes xs) - array_cells a (length xs). rd s' b = rd s b)"
proof -
  have "bulk_ready brk start limit A s U a xs" unfolding bulk_ready_def by (intro conjI assms)
  from bulk_free_sbrk [OF assms(1) this assms(8)] show ?thesis unfolding dlbulk_free_def bulk_result_def by blast
qed

text \<open>Two blocks, evaluated.\<close>

lemma two_values:
  "bindR (dlmalloc brk_os start_state 100) (\<lambda>(s, a). bindR (dlmalloc brk_os s 100) (\<lambda>(s, b). Inr (a, b))) = Inr (0x100010, 0x100080)"
  by code_simp

lemma two_blocks:
  obtains s p z q y where "sbrk_inv (\<lambda>x. x) 0x100000 0x500000 (s :: addr state) {(p, z), (q, y)}" "(p, z) \<noteq> (q, y)" "p = 0x100000" "q = 0x100070"
proof -
  have b: "unat (100 :: size_t) < 2 ^ 39" by simp
  obtain s1 a where 1: "dlmalloc brk_os start_state 100 = Inr (s1, a)"
      "malloc_result (\<lambda>x. x) 0x100000 0x500000 start_state {} (request2size 100) s1 a"
    using dlmalloc_sbrk [OF brk_os_sbrk start_inv b] by blast
  obtain s2 c where v2: "dlmalloc brk_os s1 100 = Inr (s2, c)" "a = 0x100010" "c = 0x100080"
    using two_values unfolding 1(1) by (auto simp: bindR_eq_Inr)
  obtain p z where p: "a = chunk2mem p" "sbrk_inv (\<lambda>x. x) 0x100000 0x500000 s1 {(p, z)}"
    using 1(2) v2(2) unfolding malloc_result_def by auto
  obtain s3 d where 3: "dlmalloc brk_os s1 100 = Inr (s3, d)"
      "malloc_result (\<lambda>x. x) 0x100000 0x500000 s1 {(p, z)} (request2size 100) s3 d"
    using dlmalloc_sbrk [OF brk_os_sbrk p(2) b] by blast
  have "s3 = s2" "d = c" using 3(1) v2(1) by simp_all
  then obtain q y where q: "c = chunk2mem q" "(q, y) \<notin> {(p, z)}" "sbrk_inv (\<lambda>x. x) 0x100000 0x500000 s2 {(q, y), (p, z)}"
    using 3(2) v2(3) unfolding malloc_result_def by auto
  have "p = 0x100000" "q = 0x100070" using p(1) q(1) v2(2,3) by (simp_all add: chunk2mem_def dl_consts algebra_simps)
  then show thesis using that [of s2 p z q y] q(2,3) by (simp add: insert_commute)
qed

theorem dlbulk_free_total_witness:
  "\<exists>s s' p z q y. rd s (chunk2mem p) = chunk2mem q \<and> sbrk_inv (\<lambda>x. x) 0x100000 0x500000 s {(p, z), (q, y)}
    \<and> dlbulk_free brk_os s (chunk2mem p) 1 = Inr (s', 0) \<and> sbrk_inv (\<lambda>x. x) 0x100000 0x500000 s' {(p, z)}"
proof -
  obtain s0 :: "addr state" and p z q y where s0: "sbrk_inv (\<lambda>x. x) 0x100000 0x500000 s0 {(p, z), (q, y)}" "(p, z) \<noteq> (q, y)"
    by (rule two_blocks)
  let ?s = "wr s0 (chunk2mem p) (chunk2mem q)" and ?xs = "[Some (q, y)]"
  have z: "chunk_geo (p, z)" "32 \<le> unat z" using sbrk_geo(1,3) [OF s0(1), of "(p, z)"] by simp_all
  have "chunk2mem p \<in> payload (p, z)" using payload_cell(1) [OF z(1), of 0] z(2) by simp
  then have i: "sbrk_inv (\<lambda>x. x) 0x100000 0x500000 ?s {(p, z), (q, y)}" by (intro write_sbrk [OF s0(1), of "(p, z)"]) simp_all
  have a: "array_in (p, z) (chunk2mem p) (length ?xs)" unfolding array_in_def using z(2) by (intro exI [of _ 0]) simp
  have "array_at ?s (chunk2mem p) ?xs" by (simp add: array_at_simps rd_wr ptr_of_def)
  moreover have "distinct (filter (\<lambda>x. x \<noteq> None) ?xs)" "somes ?xs \<subseteq> {(p, z), (q, y)} - {(p, z)}" using s0(2) by auto
  moreover have "unat (1 :: size_t) = length ?xs" by simp
  ultimately obtain s' where s': "dlbulk_free brk_os ?s (chunk2mem p) 1 = Inr (s', 0)"
      "sbrk_inv (\<lambda>x. x) 0x100000 0x500000 s' ({(p, z), (q, y)} - somes ?xs)"
    using dlbulk_free_total [OF brk_os_sbrk i insertI1 a] by blast
  have "{(p, z), (q, y)} - somes ?xs = {(p, z)}" using s0(2) by auto
  then have "sbrk_inv (\<lambda>x. x) 0x100000 0x500000 s' {(p, z)}" using s'(2) by simp
  moreover have "rd ?s (chunk2mem p) = chunk2mem q" by (simp add: rd_wr)
  ultimately show ?thesis using s'(1) i by blast
qed

text \<open>
  C22. A round of the loop of \<open>bulk_free\<close> joins neighbours: when the cell points to a live block and the
  next cell, if it is not the end of the array, to the chunk right behind it, the round makes one live
  block of the two, gives nothing back, clears the cell and leaves the pointer of the joined block in
  the next one; all other contents stay. (The blocks are those of the one segment of a system whose
  break moves as \<open>sbrk\<close> documents; no call to the system is made.)
\<close>

theorem bulk_free_one_joins_neighbours:
  assumes "sbrk_inv brk start limit s U" "A \<in> U" "array_in A a 2" "(p, z) \<in> U - {A}" "(p + z, y) \<in> U - {A}"
    "rd s a = chunk2mem p" "rd s (a + 8) = chunk2mem (p + z)" "a + 8 \<noteq> fence"
  shows "\<exists>s'. bulk_free_one E fence a s = Inr s'
    \<and> sbrk_inv brk start limit s' (insert (p, z + y) (U - {(p, z), (p + z, y)})) \<and> (p, z + y) \<notin> U
    \<and> rd s' a = 0 \<and> rd s' (a + 8) = chunk2mem p \<and> os s' = os s
    \<and> (\<forall>b\<in>stored start limit s (U - {(p, z), (p + z, y)}) - {a, a + 8}. rd s' b = rd s b)"
proof -
  note S = array_step [OF sbrk_geo(1) [OF assms(1,2)], of a 1] and S8 = array_step [OF sbrk_geo(1) [OF assms(1,2)], of "a + 8" 0]
  have "array_in A a (Suc 1)" using assms(3) by (simp add: numeral_2_eq_2)
  then have a: "a \<in> payload A" "a + 8 \<in> payload A" using S(1,2) S8(1) by simp_all
  have ne: "a \<noteq> a + 8" by simp
  let ?s1 = "wr s a 0" and ?U = "U - {(p, z), (p + z, y)}"
  have i1: "sbrk_inv brk start limit ?s1 U" by (rule write_sbrk [OF assms(1,2) a(1)])
  have c: "(p, z) \<in> U" "(p + z, y) \<in> U" "A \<in> ?U" using assms(2,4,5) by auto
  note T = bulk_tests [OF i1 c(1)] and J = join_sbrk [OF i1 c(1,2)]
  let ?s2 = "set_inuse ?s1 p (z + y)"
  have one: "bulk_free_one E fence a s = Inr (wr ?s2 (a + 8) (chunk2mem p))"
    using assms(6-8) ne T bulk_tests(3) [OF i1 c(2)] bulk_tests(3) [OF assms(1) c(1)] sbrk_tags(4) [OF assms(1) c(1)]
    by (simp add: bulk_free_one_def mem2chunk_chunk2mem Let_def rd_wr add.commute)
  have "sbrk_inv brk start limit (wr ?s2 (a + 8) (chunk2mem p)) (insert (p, z + y) ?U)"
    by (rule write_sbrk [of _ _ _ _ _ A]) (use J c(3) a(2) in auto)
  moreover have "rd ?s2 b = rd ?s1 b" if "b \<in> stored start limit s ?U" for b
    using J that by (simp add: stored_wr)
  moreover have "a \<in> stored start limit s ?U" using a(1) c(3) by (auto simp: stored_def)
  moreover have "os (wr ?s2 (a + 8) (chunk2mem p)) = os s" by (simp add: wr_def set_inuse_def set_head_def Let_def)
  ultimately show ?thesis using one J ne by (auto simp: rd_wr)
qed

text \<open>Three blocks, evaluated: the third holds the array with the addresses of the first two.\<close>

lemma malloc_live:
  assumes "sbrk_inv (\<lambda>x. x) 0x100000 0x500000 s U" "dlmalloc brk_os s 100 = Inr (s', m)" "m \<noteq> 0"
  obtains z where "(mem2chunk m, z) \<notin> U" "112 \<le> z" "sbrk_inv (\<lambda>x. x) 0x100000 0x500000 s' (insert (mem2chunk m, z) U)"
proof -
  have b: "unat (100 :: size_t) < 2 ^ 39" by simp
  have r: "request2size 100 = 112" by code_simp
  have "malloc_result (\<lambda>x. x) 0x100000 0x500000 s U 112 s' m"
    using dlmalloc_sbrk [OF brk_os_sbrk assms(1) b] assms(2) unfolding r by auto
  then show thesis using that assms(3) unfolding malloc_result_def by (auto simp: mem2chunk_chunk2mem)
qed

lemma three_values:
  "bindR (dlmalloc brk_os start_state 100) (\<lambda>(s, a). bindR (dlmalloc brk_os s 100) (\<lambda>(s, b).
     bindR (dlmalloc brk_os s 100) (\<lambda>(s, c). Inr (a, b, c)))) = Inr (0x100010, 0x100080, 0x1000f0)"
  by code_simp

lemma three_blocks:
  obtains s y w where "sbrk_inv (\<lambda>x. x) 0x100000 0x500000 (s :: addr state) {(0x1000e0, w), (0x100070, y), (0x100000, 112)}" "112 \<le> w"
proof -
  obtain s1 s2 s3 where m: "dlmalloc brk_os start_state 100 = Inr (s1, 0x100010)" "dlmalloc brk_os s1 100 = Inr (s2, 0x100080)"
      "dlmalloc brk_os s2 100 = Inr (s3, 0x1000f0)"
    using three_values by (auto simp: bindR_eq_Inr)
  have c: "mem2chunk 0x100010 = 0x100000" "mem2chunk 0x100080 = 0x100070" "mem2chunk 0x1000f0 = 0x1000e0"
    by (simp_all add: mem2chunk_def dl_consts)
  obtain z where z: "112 \<le> z" "sbrk_inv (\<lambda>x. x) 0x100000 0x500000 s1 {(0x100000, z)}"
    by (rule malloc_live [OF start_inv m(1)]) (simp_all add: c)
  obtain y where y: "sbrk_inv (\<lambda>x. x) 0x100000 0x500000 s2 {(0x100070, y), (0x100000, z)}"
    by (rule malloc_live [OF z(2) m(2)]) (simp_all add: c)
  obtain w where w: "112 \<le> w" "sbrk_inv (\<lambda>x. x) 0x100000 0x500000 s3 {(0x1000e0, w), (0x100070, y), (0x100000, z)}"
    by (rule malloc_live [OF y m(3)]) (simp_all add: c)
  have "unat z \<le> 112"
    using sbrk_apart [OF y, of "0x100000" z "0x100070" y] by simp
  then have "z = 112" using z(1) by (simp add: word_le_nat_alt word_unat_eq_iff)
  then show thesis using that [of s3 w y] w by simp
qed

theorem bulk_free_one_joins_neighbours_witness:
  "\<exists>s s' y w. sbrk_inv (\<lambda>x. x) 0x100000 0x500000 s {(0x1000e0, w), (0x100070, y), (0x100000, 112)}
    \<and> bulk_free_one brk_os 0x100100 0x1000f0 s = Inr s' \<and> rd s' 0x1000f8 = 0x100010
    \<and> sbrk_inv (\<lambda>x. x) 0x100000 0x500000 s' {(0x100000, 112 + y), (0x1000e0, w)}"
proof -
  obtain s0 :: "addr state" and y w where s0: "sbrk_inv (\<lambda>x. x) 0x100000 0x500000 s0 {(0x1000e0, w), (0x100070, y), (0x100000, 112)}"
      (is "sbrk_inv _ _ _ _ ?U") and w: "112 \<le> w" by (rule three_blocks)
  let ?A = "(0x1000e0, w)" and ?s = "wr (wr s0 0x1000f0 0x100010) 0x1000f8 0x100080"
  have g: "chunk_geo ?A" using sbrk_geo(1) [OF s0] by blast
  have A: "array_in ?A 0x1000f0 2"
    unfolding array_in_def using w by (intro exI [of _ 0]) (simp add: chunk2mem_def dl_consts word_le_nat_alt)
  have c: "0x1000f0 \<in> payload ?A" "0x1000f8 \<in> payload ?A"
    using array_cell(1) [OF g A, of 0] array_cell(1) [OF g A, of 1] by simp_all
  have i: "sbrk_inv (\<lambda>x. x) 0x100000 0x500000 ?s ?U"
    by (rule write_sbrk [OF write_sbrk [OF s0 insertI1 c(1)] insertI1 c(2)])
  have m: "(0x100000, 112) \<in> ?U - {?A}" "((0x100000 :: addr) + 112, y) \<in> ?U - {?A}" by simp_all
  have r: "rd ?s 0x1000f0 = chunk2mem 0x100000" "rd ?s (0x1000f0 + 8) = chunk2mem (0x100000 + 112)" "(0x1000f0 :: addr) + 8 \<noteq> 0x100100"
    by (simp_all add: rd_wr chunk2mem_def dl_consts)
  from bulk_free_one_joins_neighbours [OF i insertI1 A m r] obtain s' where
    s': "bulk_free_one brk_os 0x100100 0x1000f0 ?s = Inr s'" "rd s' 0x1000f8 = 0x100010"
      "sbrk_inv (\<lambda>x. x) 0x100000 0x500000 s' (insert (0x100000, 112 + y) (?U - {(0x100000, 112), (0x100070, y)}))"
    by (auto simp: chunk2mem_def dl_consts)
  have "insert (0x100000, 112 + y) (?U - {(0x100000, 112), (0x100070, y)}) = {(0x100000, 112 + y), ?A}" by auto
  then show ?thesis using i s' by metis
qed

section \<open>Directly mapped chunks\<close>

text \<open>
  C26. A directly mapped chunk: when the system maps the rounded size at an aligned address,
  \<open>mmap_alloc\<close> returns a block with room for the request, writes four cells of the mapping only and
  counts it in the footprint; \<open>free\<close> of the block unmaps exactly the mapping it came from and takes it
  off the footprint again. The debugging check of the chunk asks for \<open>use_mmap\<close>, and so fails for
  a block mapped before mapping was disabled.
\<close>

theorem mmap_alloc_free_roundtrip:
  assumes "pow2 (page_size s)" "256 \<le> unat nb" "unat nb < 2 ^ 40" "n = mmap_align s (nb + 63)" "\<not> over_limit s n"
    "CALL_MMAP E n s = (s1, mm)" "mm \<noteq> MFAIL" "is_aligned mm" "unat mm + unat n \<le> 2 ^ 64"
  shows "\<exists>s2. mmap_alloc E s nb = (s2, chunk2mem mm) \<and> nb \<le> dlmalloc_usable_size s2 (chunk2mem mm)
    \<and> (\<forall>a. a \<notin> map_cells mm n \<longrightarrow> rd s2 a = rd s1 a) \<and> footprint s2 = footprint s + n
    \<and> dlfree E s2 (chunk2mem mm)
        = Inr (case CALL_MUNMAP E mm n s2 of (t, r) \<Rightarrow> if r = 0 then t\<lparr>footprint := footprint s\<rparr> else t)
    \<and> (do_check_mmapped_chunk s2 mm \<longleftrightarrow> use_mmap s2)
    \<and> \<not> do_check_mmapped_chunk (disable_mmap s2) mm"
proof -
  note S = mmap_size [OF assms(1,3), folded assms(4)]
  have f: "fresh_map mm n" using S(2,3,4) assms(2,8,9) by (simp add: fresh_map_def)
  from mmap_alloc_maps [OF assms(6,7,4) S(1) assms(5) f] obtain s2 where
    s2: "mmap_alloc E s nb = (s2, chunk2mem mm)" "mapped_at s2 mm n" "footprint s2 = footprint s + n"
      "\<forall>a. a \<notin> map_cells mm n \<longrightarrow> rd s2 a = rd s1 a" "page_size s2 = page_size s" by blast
  have "unat (n - 48) = unat n - 48" by (rule map_offsets(10) [OF f])
  then have u: "nb \<le> dlmalloc_usable_size s2 (chunk2mem mm)"
    using mapped_chunk(5) [OF f s2(2)] S(2) by (simp add: word_le_nat_alt)
  have d: "mapped_at (disable_mmap s2) mm n" "page_size (disable_mmap s2) = page_size s2" "\<not> use_mmap (disable_mmap s2)"
    using s2(2) by (simp_all add: mapped_at_def disable_mmap_def head_def prev_foot_def rd_def use_mmap_def and.assoc)
  have n: "n AND (page_size s2 - 1) = 0" "288 \<le> unat n" using S(2,5) assms(2) s2(5) by simp_all
  have "footprint (fst (CALL_MUNMAP E mm n s2)) = footprint s + n"
    using s2(3) by (simp add: CALL_MUNMAP_def split: prod.split)
  then have "dlfree E s2 (chunk2mem mm)
        = Inr (case CALL_MUNMAP E mm n s2 of (t, r) \<Rightarrow> if r = 0 then t\<lparr>footprint := footprint s\<rparr> else t)"
    unfolding mapped_free [OF f s2(2)] by (cases "CALL_MUNMAP E mm n s2") simp
  then show ?thesis
    using s2 u mapped_check [OF f s2(2) n] mapped_check [OF f d(1)] d(2,3) n by auto
qed

definition map_os :: "addr os_ops" where
  "map_os = brk_os\<lparr>os_mmap := (\<lambda>n x m. (0x200000, x, m)), os_munmap := (\<lambda>a n x m. (0, x, m))\<rparr>"

theorem mmap_alloc_free_roundtrip_witness:
  "\<exists>s2 s3. mmap_alloc map_os (start_state\<lparr>page_size := 4096\<rparr>) 0x40010 = (s2, 0x200010)
    \<and> dlfree map_os s2 0x200010 = Inr s3 \<and> footprint s3 = 0"
proof -
  let ?s = "start_state\<lparr>page_size := 4096\<rparr>"
  have p: "pow2 (page_size ?s)" unfolding pow2_def by (rule exI [of _ 12]) simp
  have n: "0x41000 = mmap_align ?s (0x40010 + 63)" by (simp add: mmap_align_def page_align_def)
  have fp: "footprint ?s = 0" "footprint_limit ?s = 0" by (simp_all add: start_state_def static_state_def)
  have o: "\<not> over_limit ?s 0x41000" using fp by (simp add: over_limit_def)
  have m: "CALL_MMAP map_os 0x41000 ?s = (?s, 0x200000)" by (simp add: CALL_MMAP_def map_os_def)
  have b: "256 \<le> unat (0x40010 :: size_t)" "unat (0x40010 :: size_t) < 2 ^ 40" "0x200000 \<noteq> MFAIL" "is_aligned 0x200000"
    "unat (0x200000 :: addr) + unat (0x41000 :: size_t) \<le> 2 ^ 64" by (simp_all add: dl_consts is_aligned_iff)
  from mmap_alloc_free_roundtrip [OF p b(1,2) n o m b(3-5)] obtain s2 where
    s2: "mmap_alloc map_os ?s 0x40010 = (s2, chunk2mem 0x200000)"
      "dlfree map_os s2 (chunk2mem 0x200000)
        = Inr (case CALL_MUNMAP map_os 0x200000 0x41000 s2 of (t, r) \<Rightarrow> if r = 0 then t\<lparr>footprint := footprint ?s\<rparr> else t)" by blast
  have "CALL_MUNMAP map_os 0x200000 0x41000 s2 = (s2, 0)" by (simp add: CALL_MUNMAP_def map_os_def)
  then show ?thesis using s2 fp(1) by (simp add: chunk2mem_def dl_consts)
qed

end
