(* ===== verification/DL_IallocProps.thy ===== *)
theory DL_IallocProps
  imports DL_BulkProps
begin

text \<open>
  Many blocks at once (\<open>ialloc\<close> in src/src/dlmalloc.c, behind \<open>independent_calloc\<close> and
  \<open>independent_comalloc\<close>): one block of \<open>malloc\<close> is cut into blocks by writing heads into it.
\<close>

section \<open>A chunk in use is cut in two\<close>

lemma retag_used:
  assumes h: "heap s U F V K" and c: "(p, z) \<in> U" "own (p, z) \<inter> K = {}" "pinuse s p"
    and w: "w = heap_arena s V K (touched s U F V \<union> own (p, z))"
  shows "heap (set_size_and_pinuse_of_inuse_chunk s p z) U F V K"
    "moves w s (set_size_and_pinuse_of_inuse_chunk s p z)"
proof -
  have O: "open_heap w s U F (dvset s) (topset s) {}" unfolding w by (rule heap_enter [OF h]) blast
  have z: "32 \<le> unat z" using size_large [OF O, of "(p, z)"] c(1) by simp
  have e: "ends w = fences w \<union> fin ` topset s" by (simp add: w)
  have O1: "open_heap w s (U - {(p, z)}) F (dvset s) (topset s) {(p, z)}"
    by (rule open_used_heap [OF O c(1)]) (use c in \<open>simp_all add: w\<close>)
  from mark_used [OF O1 singletonI z _ refl] used_next(2) [OF O c(1) e]
  have O2: "open_heap w (set_size_and_pinuse_of_inuse_chunk s p z) (insert (p, z) (U - {(p, z)})) F (dvset s) (topset s) {}"
    and m: "moves w s (set_size_and_pinuse_of_inuse_chunk s p z)" by simp_all
  show "heap (set_size_and_pinuse_of_inuse_chunk s p z) U F V K"
    using heap_leave [OF O2 w] heapD [OF h] insert_absorb [OF c(1)] by (simp add: tag_writes_sets tag_writes_fields)
  show "moves w s (set_size_and_pinuse_of_inuse_chunk s p z)" by (rule m)
qed

definition cut_chunk :: "'o state \<Rightarrow> addr \<Rightarrow> size_t \<Rightarrow> size_t \<Rightarrow> 'o state" where
  "cut_chunk s p z n = set_size_and_pinuse_of_inuse_chunk (set_size_and_pinuse_of_inuse_chunk s p n) (p + n) (z - n)"

lemma cut_chunk_heap:
  assumes h: "heap s U F V K" and c: "(p, z) \<in> U" "own (p, z) \<inter> K = {}" "pinuse s p"
    and n: "is_aligned n" "32 \<le> unat n" "unat n + 32 \<le> unat z"
    and w: "w = heap_arena s V K (touched s U F V \<union> own (p, z))"
  shows "heap (cut_chunk s p z n) (insert (p, n) (insert (p + n, z - n) (U - {(p, z)}))) F V K" "moves w s (cut_chunk s p z n)"
proof -
  have O: "open_heap w s U F (dvset s) (topset s) {}" unfolding w by (rule heap_enter [OF h]) blast
  let ?U = "U - {(p, z)}" and ?r = "(p + n, z - n)" and ?s1 = "set_size_and_pinuse_of_inuse_chunk s p n"
  have e: "ends w = fences w \<union> fin ` topset s" by (simp add: w)
  have O1: "open_heap w s ?U F (dvset s) (topset s) {(p, z)}"
    by (rule open_used_heap [OF O c(1)]) (use c in \<open>simp_all add: w\<close>)
  have n': "16 \<le> unat n" "unat n + 16 \<le> unat z" using n by simp_all
  have cg: "chunk_geo (p, z)" by (rule open_chunk [OF O1]) blast
  note j = chunk_geo_split [OF cg n(1) n']
  have O2: "open_heap w s ?U F (dvset s) (topset s) {(p, n), ?r}" using split_heap [OF O1 singletonI n(1) n'] by simp
  have ne: "?r \<noteq> (p, n)" using n(2) by auto
  from mark_used [where p = p, OF O2 _ n(2) _ refl, unfolded two_diff(1) [OF ne]]
  have O3: "open_heap w ?s1 (insert (p, n) ?U) F (dvset s) (topset s) {?r}" and m1: "moves w s ?s1" by simp_all
  have "p + z \<noteq> p" using start_cases(6) [OF open_heapD(3) [OF O1] singletonI] by simp
  then have "pinuse ?s1 (p + n + (z - n))" using used_next(2) [OF O c(1) e]
    by (simp add: set_size_and_pinuse_of_inuse_chunk_def pinuse_def head_reads)
  from mark_used [OF O3 singletonI _ disjI2 [OF this] refl] n(3) j(5)
  have O4: "open_heap w (cut_chunk s p z n) (insert ?r (insert (p, n) ?U)) F (dvset s) (topset s) {}" and m2: "moves w ?s1 (cut_chunk s p z n)"
    by (simp_all add: cut_chunk_def)
  show "heap (cut_chunk s p z n) (insert (p, n) (insert ?r ?U)) F V K"
    using heap_leave [OF O4 w] heapD [OF h] by (simp add: cut_chunk_def tag_writes_sets tag_writes_fields insert_commute)
  show "moves w s (cut_chunk s p z n)" by (rule moves_trans [OF m1 m2])
qed

section \<open>Over a break\<close>

lemma retag_sbrk:
  assumes i: "sbrk_inv brk start limit s U" and c: "(p, z) \<in> U" "pinuse s p"
  shows "sbrk_inv brk start limit (set_size_and_pinuse_of_inuse_chunk s p z) U"
proof -
  obtain F where h: "heap s U F {} (foreign limit s)" and t: "topp s \<noteq> 0" and o: "own (p, z) \<inter> foreign limit s = {}"
    and os: "\<forall>d\<in>U. own d \<inter> foreign limit s = {}" using i c(1) by (rule sbrk_heap)
  note R = retag_used [OF h c(1) o c(2) refl]
  show ?thesis by (rule sbrk_step(1) [OF i t h R(2) _ o R(1) os]) simp
qed

lemma own_parts:
  assumes "chunk_geo (p, z)" "is_aligned n" "32 \<le> unat n" "unat n + 32 \<le> unat z"
  shows "own (p, n) \<subseteq> own (p, z)" "own (p + n, z - n) \<subseteq> own (p, z)" "own (p, n) \<inter> own (p + n, z - n) = {}"
    "chunk_geo (p, n)" "chunk_geo (p + n, z - n)" "unat (z - n) = unat z - unat n"
proof -
  have n': "16 \<le> unat n" "unat n + 16 \<le> unat z" using assms(3,4) by simp_all
  note j = chunk_geo_split [OF assms(1,2) n']
  show "own (p, n) \<subseteq> own (p, z)" by (rule own_prefix [OF assms(1,2) n'])
  show "own (p + n, z - n) \<subseteq> own (p, z)"
    by (rule own_sub) (use j(3,4) lo_hi(2) [OF j(1)] in \<open>simp_all add: lo_def\<close>)
  show "own (p, n) \<inter> own (p + n, z - n) = {}" by (rule own_disjoint) (simp add: j(3))
  show "chunk_geo (p, n)" "chunk_geo (p + n, z - n)" "unat (z - n) = unat z - unat n" by (rule j)+
qed

lemma cut_sbrk:
  assumes i: "sbrk_inv brk start limit s U" and c: "(p, z) \<in> U" "pinuse s p"
    and n: "is_aligned n" "32 \<le> unat n" "unat n + 32 \<le> unat z"
  shows "sbrk_inv brk start limit (cut_chunk s p z n) (insert (p, n) (insert (p + n, z - n) (U - {(p, z)})))"
proof -
  obtain F where h: "heap s U F {} (foreign limit s)" and t: "topp s \<noteq> 0" and o: "own (p, z) \<inter> foreign limit s = {}"
    and os: "\<forall>d\<in>U. own d \<inter> foreign limit s = {}" using i c(1) by (rule sbrk_heap)
  note R = cut_chunk_heap [OF h c(1) o c(2) n refl] and P = own_parts [OF sbrk_geo(1) [OF i c(1)] n]
  have "\<forall>d\<in>insert (p, n) (insert (p + n, z - n) (U - {(p, z)})). own d \<inter> foreign limit s = {}"
    using P(1,2) o os by blast
  from sbrk_step(1) [OF i t h R(2) _ o R(1) this] show ?thesis by simp
qed

lemma cut_rd: "a \<noteq> p + 8 \<Longrightarrow> a \<noteq> p + n + 8 \<Longrightarrow> rd (cut_chunk s p z n) a = rd s a"
  and cut_pinuse: "pinuse (cut_chunk s p z n) (p + n)"
  and cut_maddr: "maddr (cut_chunk s p z n) = maddr s"
  by (simp add: cut_chunk_def set_size_and_pinuse_of_inuse_chunk_def set_head_def rd_wr)
    (simp add: cut_chunk_def pinuse_written, simp add: cut_chunk_def set_size_and_pinuse_of_inuse_chunk_def set_head_def wr_def)

section \<open>The loop\<close>

abbreviation tag_used :: "'o state \<Rightarrow> addr \<Rightarrow> size_t \<Rightarrow> 'o state" where
  "tag_used \<equiv> set_size_and_pinuse_of_inuse_chunk"

lemma tag_used_wr: "tag_used s p z = wr s (p + 8) ((z OR PINUSE_BIT) OR CINUSE_BIT)"
  by (simp add: set_size_and_pinuse_of_inuse_chunk_def set_head_def)

lemma other_head:
  assumes "own c \<subseteq> own d" "chunk_geo c" "chunk_geo d"
  shows "fst d + 8 \<notin> payload c"
proof
  assume a: "fst d + 8 \<in> payload c"
  have "fst c + 8 \<in> own d" using assms(1) head_own [OF assms(2)] by blast
  moreover have "fst d + 8 \<in> own c" using a by (simp add: payload_def)
  ultimately have "lo c = lo d" using unat_head [OF assms(2)] unat_head [OF assms(3)] by (simp add: own_def)
  then have "fst c = fst d" by (simp add: lo_def word_unat_eq_iff)
  then show False using a by (simp add: payload_def)
qed

lemma sbrk_own:
  assumes i: "sbrk_inv brk start limit s U" and c: "c \<in> U" "d \<in> U" "c \<noteq> d"
  shows "own c \<inter> own d = {}"
proof -
  obtain F where h: "heap s U F {} (foreign limit s)" using i c(1) by (rule sbrk_heap)
  have O: "open_heap (heap_arena s {} (foreign limit s) UNIV) s U F (dvset s) (topset s) {}" by (rule heap_enter [OF h]) blast
  show ?thesis by (rule geo_own [OF open_geo [OF O]]) (use c in auto)
qed

text \<open>Nothing within a chunk in use is another chunk in use.\<close>

lemma part_new:
  assumes i: "sbrk_inv brk start limit s U" and c: "c \<in> U" and d: "own d \<subseteq> own c" "chunk_geo d"
  shows "d \<notin> U - {c}"
proof
  assume "d \<in> U - {c}"
  then have "own d \<inter> own c = {}" using sbrk_own [OF i _ c, of d] by simp
  then show False using head_own [OF d(2)] d(1) by blast
qed

text \<open>
  The state inside the loop, once the rest at \<open>p\<close> is tagged as one chunk: it is in use, and the cells
  from \<open>b\<close> on, in the block \<open>A\<close>, are for the blocks of the sizes \<open>es\<close> that are cut from it.
\<close>

definition carving ::
  "('o \<Rightarrow> addr) \<Rightarrow> nat \<Rightarrow> nat \<Rightarrow> chunk \<Rightarrow> 'o state \<Rightarrow> chunk set \<Rightarrow> addr \<Rightarrow> size_t \<Rightarrow> addr \<Rightarrow> size_t list \<Rightarrow> bool"
where
  "carving brk start limit A s U p z b es \<longleftrightarrow> sbrk_inv brk start limit (tag_used s p z) U \<and> (p, z) \<in> U \<and> A \<in> U \<and> A \<noteq> (p, z)
     \<and> array_in A b (length es) \<and> (\<forall>e\<in>set es. is_aligned e \<and> 32 \<le> unat e) \<and> sum_list (map unat es) \<le> unat z"

definition carved ::
  "('o \<Rightarrow> addr) \<Rightarrow> nat \<Rightarrow> nat \<Rightarrow> 'o state \<Rightarrow> chunk set \<Rightarrow> chunk \<Rightarrow> addr \<Rightarrow> size_t list \<Rightarrow> 'o state \<Rightarrow> chunk list \<Rightarrow> bool"
where
  "carved brk start limit s U c b es s' cs \<longleftrightarrow> sbrk_inv brk start limit s' (U - {c} \<union> set cs) \<and> maddr s' = maddr s
     \<and> list_all2 (\<lambda>e d. e \<le> snd d) es cs \<and> distinct cs \<and> (\<forall>d\<in>set cs. own d \<subseteq> own c)
     \<and> array_at s' b (map Some cs)
     \<and> (\<forall>a. a \<notin> array_cells b (length es) \<longrightarrow> a \<notin> own c \<or> (\<exists>d\<in>set cs. a \<in> payload d) \<longrightarrow> rd s' a = rd s a)"

lemma carvingD:
  assumes "carving brk start limit A s U p z b (e # es)"
  shows "sbrk_inv brk start limit (tag_used s p z) U" "(p, z) \<in> U" "A \<in> U" "A \<noteq> (p, z)" "array_in A (b + 8) (length es)"
    "b \<in> payload A" "array_cells b (length (e # es)) \<subseteq> payload A" "b \<notin> array_cells (b + 8) (length es)" "is_aligned e" "32 \<le> unat e" "\<forall>e\<in>set es. is_aligned e \<and> 32 \<le> unat e"
    "unat e + sum_list (map unat es) \<le> unat z" "payload A \<inter> own (p, z) = {}" "chunk_geo (p, z)"
    "p + 8 \<in> own (p, z)"
proof -
  have C: "sbrk_inv brk start limit (tag_used s p z) U" "(p, z) \<in> U" "A \<in> U" "A \<noteq> (p, z)" "array_in A b (Suc (length es))"
    "\<forall>e\<in>set (e # es). is_aligned e \<and> 32 \<le> unat e" "unat e + sum_list (map unat es) \<le> unat z"
    using assms by (simp_all add: carving_def)
  note S = array_step [OF sbrk_geo(1) [OF C(1,3)] C(5)]
  show "sbrk_inv brk start limit (tag_used s p z) U" "(p, z) \<in> U" "A \<in> U" "A \<noteq> (p, z)" "array_in A (b + 8) (length es)"
    "b \<in> payload A" "b \<notin> array_cells (b + 8) (length es)" "unat e + sum_list (map unat es) \<le> unat z" by (rule C S)+
  show "array_cells b (length (e # es)) \<subseteq> payload A" using S(4) by simp
  show "is_aligned e" "32 \<le> unat e" "\<forall>e\<in>set es. is_aligned e \<and> 32 \<le> unat e" using C(6) by simp_all
  show "payload A \<inter> own (p, z) = {}" using sbrk_own [OF C(1,3,2,4)] by (auto simp: payload_def)
  show g: "chunk_geo (p, z)" by (rule sbrk_geo(1) [OF C(1,2)])
  show "p + 8 \<in> own (p, z)" using head_own [OF g] by simp
qed

text \<open>The last block gets what is left.\<close>

lemma carve_last:
  assumes r: "carving brk start limit A s U p z b [e]"
  shows "carved brk start limit (tag_used s p z) U (p, z) b [e] (tag_used (wr s b (chunk2mem p)) p z) [(p, z)]"
proof -
  note C = carvingD [OF r]
  have ne: "p + 8 \<noteq> b" using C(6,13,15) by blast
  have t: "tag_used (wr s b (chunk2mem p)) p z = wr (tag_used s p z) b (chunk2mem p)"
    by (simp add: tag_used_wr wr_twice(2) [OF ne])
  have "sbrk_inv brk start limit (wr (tag_used s p z) b (chunk2mem p)) U" by (rule write_sbrk [OF C(1,3,6)])
  moreover have "insert (p, z) U = U" using C(2) by blast
  moreover have "e \<le> z" using C(12) by (simp add: word_le_nat_alt)
  ultimately show ?thesis
    by (simp add: carved_def t array_at_simps ptr_of_def rd_wr maddr_wr array_cells_simps)
qed

text \<open>One round of the loop.\<close>

lemma carve_step:
  assumes r: "carving brk start limit A s U p z b (e # e' # es)"
  defines "s1 \<equiv> tag_used (wr s b (chunk2mem p)) p e" and "U1 \<equiv> insert (p, e) (insert (p + e, z - e) (U - {(p, z)}))"
  shows "carving brk start limit A s1 U1 (p + e) (z - e) (b + 8) (e' # es)"
    "carved brk start limit (tag_used s1 (p + e) (z - e)) U1 (p + e, z - e) (b + 8) (e' # es) s' cs
      \<Longrightarrow> carved brk start limit (tag_used s p z) U (p, z) b (e # e' # es) s' ((p, e) # cs)"
    "a \<notin> own (p, z) \<Longrightarrow> a \<noteq> b \<Longrightarrow> rd s1 a = rd s a" "own (p + e, z - e) \<subseteq> own (p, z)"
proof -
  note C = carvingD [OF r]
  let ?v = "chunk2mem p" let ?x = "wr (tag_used s p z) b ?v" let ?r = "(p + e, z - e)" let ?t = "tag_used s1 (p + e) (z - e)"
  have ne: "p + 8 \<noteq> b" using C(6,13,15) by blast
  have le: "unat e + 32 \<le> unat z" using C(11,12) by simp
  note P = own_parts [OF C(14,9,10) le]
  have t: "?t = cut_chunk ?x p z e"
    by (simp add: s1_def cut_chunk_def tag_used_wr wr_twice wr_twice(2) [OF ne])
  have ix: "sbrk_inv brk start limit ?x U" by (rule write_sbrk [OF C(1,3,6)])
  have "pinuse ?x p" using pinuse_written(1) [of s p z] ne by (simp add: pinuse_def head_def rd_wr)
  from cut_sbrk [OF ix C(2) this C(9,10) le] have i1: "sbrk_inv brk start limit ?t U1" by (simp add: t U1_def)
  have hr: "p + 8 \<in> own (p, e)" "p + e + 8 \<in> own ?r" using head_own [OF P(4)] head_own [OF P(5)] by simp_all
  have "own A \<inter> own (p, z) = {}" by (rule sbrk_own [OF C(1,3,2,4)])
  then have A: "A \<noteq> ?r" using hr(2) P(2) by blast
  have nU: "?r \<notin> U - {(p, z)}" by (rule part_new [OF C(1,2) P(2,5)])
  show "carving brk start limit A s1 U1 (p + e) (z - e) (b + 8) (e' # es)"
    unfolding carving_def
  proof (intro conjI)
    show "sum_list (map unat (e' # es)) \<le> unat (z - e)" using C(12) P(6) by simp
    show "array_in A (b + 8) (length (e' # es))" by (rule C(5))
    show "\<forall>e\<in>set (e' # es). is_aligned e \<and> 32 \<le> unat e" by (rule C(11))
    show "A \<in> U1" "?r \<in> U1" using C(3,4) unfolding U1_def by blast+
  qed (rule i1 A)+
  show "a \<notin> own (p, z) \<Longrightarrow> a \<noteq> b \<Longrightarrow> rd s1 a = rd s a" using C(15) by (auto simp: s1_def tag_used_wr rd_wr)
  show "own ?r \<subseteq> own (p, z)" by (rule P(2))
  assume R: "carved brk start limit ?t U1 ?r (b + 8) (e' # es) s' cs"
  have pr: "(p, e) \<noteq> ?r" using hr P(3) by auto
  have U: "U1 - {?r} \<union> set cs = U - {(p, z)} \<union> set ((p, e) # cs)" unfolding U1_def using nU pr by auto
  have i': "sbrk_inv brk start limit s' (U - {(p, z)} \<union> set ((p, e) # cs))" using R unfolding carved_def U by blast
  have cs: "list_all2 (\<lambda>e d. e \<le> snd d) (e' # es) cs" "distinct cs" "\<forall>d\<in>set cs. own d \<subseteq> own ?r" "array_at s' (b + 8) (map Some cs)" "maddr s' = maddr s"
    and fr: "\<And>a. a \<notin> array_cells (b + 8) (length (e' # es)) \<Longrightarrow> a \<notin> own ?r \<or> (\<exists>d\<in>set cs. a \<in> payload d) \<Longrightarrow> rd s' a = rd ?t a"
    using R by (simp_all add: carved_def s1_def tag_used_wr maddr_wr)
  have pe: "(p, e) \<notin> set cs" using cs(3) hr(1) P(3) by blast
  have tr: "rd ?t a = rd (tag_used s p z) a" if "a \<noteq> b" "a \<noteq> p + 8" "a \<noteq> p + e + 8" for a
    using cut_rd [OF that(2,3), of ?x z] that(1) by (simp add: t rd_wr)
  have bo: "b \<notin> own (p, z)" using C(6,13) by blast
  have "rd s' b = rd ?t b" by (rule fr) (use C(8) bo P(2) in auto)
  then have b: "rd s' b = ?v" using cut_rd [of b p e ?x z] bo C(15) hr(2) P(2) by (auto simp: t rd_wr)
  have fr': "rd s' a = rd (tag_used s p z) a"
    if a: "a \<notin> array_cells b (length (e # e' # es))" "a \<notin> own (p, z) \<or> (\<exists>d\<in>set ((p, e) # cs). a \<in> payload d)" for a
  proof -
    have ab: "a \<noteq> b" "a \<notin> array_cells (b + 8) (length (e' # es))" using a(1) by (simp_all add: array_cells_simps)
    have "(a \<notin> own ?r \<or> (\<exists>d\<in>set cs. a \<in> payload d)) \<and> a \<noteq> p + 8 \<and> a \<noteq> p + e + 8"
    proof (cases "\<exists>d\<in>set cs. a \<in> payload d")
      case True
      then obtain d where d: "d \<in> set cs" "a \<in> payload d" by blast
      then have "a \<in> own ?r" using cs(3) by (auto simp: payload_def)
      moreover have "a \<noteq> p + e + 8" using other_head [of d ?r] cs(3) d sbrk_geo(1) [OF i', of d] P(5) by auto
      ultimately show ?thesis using d hr(1) P(3) by blast
    next
      case False
      then have "a \<notin> own (p, z) \<or> a \<in> payload (p, e)" using a(2) by auto
      then show ?thesis using hr P(1,2,3) by (auto simp: payload_def)
    qed
    then show ?thesis using fr [OF ab(2)] tr [OF ab(1)] by simp
  qed
  show "carved brk start limit (tag_used s p z) U (p, z) b (e # e' # es) s' ((p, e) # cs)"
    unfolding carved_def using i' cs pe P(1,2) b fr' by (auto simp: array_at_simps ptr_of_def tag_used_wr maddr_wr)
qed

text \<open>
  All rounds. The loop reads the sizes of the blocks as it goes; \<open>R\<close> are the cells it reads them from.
\<close>

lemma carve_loop:
  assumes "carving brk start limit A s U p z b es" "es \<noteq> []" "b = marray + 8 * of_nat i"
    and "\<And>j s'. j < length es \<Longrightarrow> \<forall>a\<in>R. rd s' a = rd s a
      \<Longrightarrow> (if element_size \<noteq> 0 then element_size else request2size (szs s' (i + j))) = es ! j"
    and "R \<inter> own (p, z) = {}" "R \<inter> array_cells b (length es) = {}"
  shows "\<exists>s' p' z' cs. fold (ialloc_split szs element_size marray) [i..<i + (length es - 1)] (s, p, z) = (s', p', z')
    \<and> carved brk start limit (tag_used s p z) U (p, z) b es
        (tag_used (wr s' (marray + 8 * of_nat (i + (length es - 1))) (chunk2mem p')) p' z') cs"
  using assms
proof (induction es arbitrary: s U p z b i)
  case (Cons e es)
  show ?case
  proof (cases es)
    case Nil
    then show ?thesis using carve_last [of brk start limit A s U p z b e] Cons.prems(1,3) by auto
  next
    case es: (Cons e' es')
    let ?s1 = "tag_used (wr s b (chunk2mem p)) p e" and ?U = "insert (p, e) (insert (p + e, z - e) (U - {(p, z)}))"
    note S = carve_step [OF Cons.prems(1) [unfolded es], folded es]
    have R: "b \<notin> R" "R \<inter> array_cells (b + 8) (length es) = {}" using Cons.prems(6) by (auto simp: array_cells_simps)
    have R1: "\<forall>a\<in>R. rd ?s1 a = rd s a" using S(3) R(1) Cons.prems(5) by blast
    have "\<forall>a\<in>R. rd (wr s b (chunk2mem p)) a = rd s a" using R(1) by (auto simp: rd_wr)
    from Cons.prems(4) [OF _ this, of 0]
    have e: "(if element_size \<noteq> 0 then element_size else request2size (szs (wr s b (chunk2mem p)) i)) = e"
      by (simp only: add_0_right nth_Cons_0 list.size zero_less_Suc)
    have "\<exists>s' p' z' cs. fold (ialloc_split szs element_size marray) [Suc i..<Suc i + (length es - 1)] (?s1, p + e, z - e) = (s', p', z')
      \<and> carved brk start limit (tag_used ?s1 (p + e) (z - e)) ?U (p + e, z - e) (b + 8) es
          (tag_used (wr s' (marray + 8 * of_nat (Suc i + (length es - 1))) (chunk2mem p')) p' z') cs"
    proof (rule Cons.IH [OF S(1) _ _ _ _ R(2)])
      show "es \<noteq> []" by (simp add: es)
      show "b + 8 = marray + 8 * of_nat (Suc i)" by (simp add: Cons.prems(3) algebra_simps)
      show "(if element_size \<noteq> 0 then element_size else request2size (szs s' (Suc i + j))) = es ! j"
        if "j < length es" "\<forall>a\<in>R. rd s' a = rd ?s1 a" for j s'
        using Cons.prems(4) [of "Suc j" s'] that R1 by (cases "element_size = 0") simp_all
      show "R \<inter> own (p + e, z - e) = {}" using S(4) Cons.prems(5) by blast
    qed
    then obtain s' p' z' cs where
      f: "fold (ialloc_split szs element_size marray) [Suc i..<Suc i + (length es - 1)] (?s1, p + e, z - e) = (s', p', z')"
      and c: "carved brk start limit (tag_used ?s1 (p + e) (z - e)) ?U (p + e, z - e) (b + 8) es
          (tag_used (wr s' (marray + 8 * of_nat (Suc i + (length es - 1))) (chunk2mem p')) p' z') cs" by blast
    have n: "i + (length (e # es) - 1) = Suc i + (length es - 1)" by (simp add: es)
    have u: "[i..<i + (length (e # es) - 1)] = i # [Suc i..<Suc i + (length es - 1)]" by (simp add: es upt_rec)
    have "ialloc_split szs element_size marray i (s, p, z) = (?s1, p + e, z - e)"
      by (simp only: ialloc_split_def Let_def chunk_plus_offset_def Cons.prems(3) [symmetric] e prod.case)
    then have "fold (ialloc_split szs element_size marray) (i # [Suc i..<Suc i + (length es - 1)]) (s, p, z) = (s', p', z')"
      by (simp only: fold.simps o_apply f)
    then show ?thesis using S(2) [OF c] unfolding u unfolding n by blast
  qed
qed simp

section \<open>Sizes and zeros\<close>

lemma request2size_back:
  assumes "is_aligned x" "32 \<le> unat x" "unat x < 2 ^ 39"
  shows "request2size (x - 8) = x"
proof -
  have u: "unat (x - 8) = unat x - 8" using assms(2) by (simp add: unat_sub word_le_nat_alt)
  have "16 dvd unat x" using assms(1) by (simp add: is_aligned_iff)
  then obtain k where k: "unat x = 16 * k" by blast
  then have "unat x - 8 + 23 = 15 + k * 16" using assms(2) by simp
  then have m: "(unat x - 8 + 23) mod 16 = 15" by (simp only: mod_mult_self1) simp
  have "\<not> unat x - 8 < 23" using assms(2) by linarith
  then have "unat (request2size (x - 8)) = unat x"
    using request2size_unat [of "x - 8"] u m assms(2,3) by simp
  then show ?thesis by (simp add: word_unat_eq_iff)
qed

lemma fold_add_words: "fold (\<lambda>i c. c + f i) xs (a :: size_t) = a + sum_list (map f xs)"
  by (induction xs arbitrary: a) (simp_all add: add.assoc)

lemma unat_sum_words:
  "sum_list (map unat xs) < 2 ^ 64 \<Longrightarrow> unat (sum_list xs :: size_t) = sum_list (map unat xs)"
  by (induction xs) (simp_all add: unat_word_ariths)

lemma zero_cells:
  assumes c: "own c \<subseteq> own (p, C)" "chunk_geo c" "chunk_geo (p, C)" and k: "8 dvd unat k" "unat k + 8 < unat (snd c)"
    and n: "unat C \<le> unat n + 8" "8 dvd unat n"
  shows "rd (memset0 s (chunk2mem p) n) (chunk2mem (fst c) + k) = 0"
proof -
  obtain q y where q: "c = (q, y)" by (cases c)
  have "q + 8 \<in> own (p, C)" "q + y \<in> own (p, C)" using c(1) head_own [OF c(2)] foot_own [OF c(2)] by (auto simp: q)
  then have "unat p \<le> unat q" "unat q + unat y < unat p + unat C + 8"
    using unat_head [OF c(2)] lo_hi(3) [OF c(2)] by (simp_all add: own_def lo_def hi_def q)
  moreover have "16 dvd unat p" "16 dvd unat q" "16 dvd unat y" "16 dvd unat C"
    using c(2,3) by (simp_all add: chunk_geo_def is_aligned_iff q)
  ultimately have b: "unat p \<le> unat q" "unat q + unat y \<le> unat p + unat C" "8 dvd unat q - unat p" by presburger+
  have uk: "unat (q + k) = unat q + unat k" using unat_in_chunk [of q y k] c(2) k(2) by (simp add: q)
  have e: "chunk2mem (fst c) + k = chunk2mem p + (q + k - p)" by (simp add: q chunk2mem_def)
  have o: "unat (q + k - p) = (unat q - unat p) + unat k" using b(1) uk by (simp add: unat_sub word_le_nat_alt)
  have d: "8 dvd unat (q + k - p)" unfolding o using b(3) k(1) by (rule dvd_add)
  have l: "unat (q + k - p) < unat n" unfolding o using b(1,2) k(2) n(1) by (simp add: q)
  then have "unat (q + k - p) + 8 \<le> unat n" using d n(2) by presburger
  then have "unat (n - (q + k - p)) \<ge> 8" using l by (simp add: unat_sub word_le_nat_alt)
  then have "8 \<le> n - (q + k - p)" by (simp add: word_le_nat_alt)
  moreover have "(q + k - p) AND 7 = 0" using d by (simp add: low_eight)
  ultimately show ?thesis using l by (simp add: e memset0_def rd_def word_less_nat_alt)
qed

section \<open>The aggregate chunk\<close>

text \<open>What the loop has cut off is new, and holds what was there before.\<close>

lemma carved_new:
  assumes r: "carving brk start limit A s U p z b es" "es \<noteq> []" and c: "carved brk start limit (tag_used s p z) U (p, z) b es s' cs"
    and d: "d \<in> set cs"
  shows "d \<notin> U - {(p, z)}" "chunk_geo d" "own d \<subseteq> own (p, z)" "a \<in> payload d \<Longrightarrow> rd s' a = rd s a"
proof -
  obtain e es' where es: "es = e # es'" using r(2) by (cases es) auto
  note C = carvingD [OF r(1) [unfolded es]]
  have i: "sbrk_inv brk start limit s' (U - {(p, z)} \<union> set cs)" and o: "own d \<subseteq> own (p, z)"
    and fr: "\<And>a. a \<notin> array_cells b (length es) \<Longrightarrow> a \<in> payload d \<Longrightarrow> rd s' a = rd (tag_used s p z) a"
    using c d unfolding carved_def by blast+
  show g: "chunk_geo d" by (rule sbrk_geo(1) [OF i]) (use d in blast)
  show "own d \<subseteq> own (p, z)" by (rule o)
  show "d \<notin> U - {(p, z)}" by (rule part_new [OF C(1,2) o g])
  assume a: "a \<in> payload d"
  then have "a \<in> own (p, z)" using o by (auto simp: payload_def)
  then have "a \<notin> array_cells b (length es)" using C(7,13) unfolding es by blast
  moreover have "a \<noteq> p + 8" using other_head [OF o g C(14)] a by auto
  ultimately show "rd s' a = rd s a" using fr [OF _ a] by (simp add: tag_used_wr rd_wr)
qed

definition zero_block :: "'o state \<Rightarrow> chunk \<Rightarrow> bool" where
  "zero_block s c \<longleftrightarrow> (\<forall>k. 8 dvd unat k \<longrightarrow> unat k + 8 < unat (snd c) \<longrightarrow> rd s (chunk2mem (fst c) + k) = 0)"

text \<open>
  The blocks \<open>cs\<close> are new, of the sizes \<open>es\<close> at least; the array at \<open>m\<close> points to them. The array is \<open>chunks\<close>, or
  if that is null one more new block. What was stored elsewhere stays.
\<close>

definition blocks_result ::
  "('o \<Rightarrow> addr) \<Rightarrow> nat \<Rightarrow> nat \<Rightarrow> 'o state \<Rightarrow> chunk set \<Rightarrow> addr \<Rightarrow> size_t list \<Rightarrow> bool \<Rightarrow> 'o state \<Rightarrow> addr \<Rightarrow> chunk list \<Rightarrow> bool"
where
  "blocks_result brk start limit s U chunks es zero s' m cs \<longleftrightarrow>
     list_all2 (\<lambda>e c. e \<le> snd c) es cs \<and> distinct cs \<and> set cs \<inter> U = {} \<and> array_at s' m (map Some cs)
     \<and> (if chunks = 0
         then \<exists>A. A \<notin> U \<union> set cs \<and> m = chunk2mem (fst A) \<and> array_in A m (length es) \<and> sbrk_inv brk start limit s' (insert A (U \<union> set cs))
         else m = chunks \<and> sbrk_inv brk start limit s' (U \<union> set cs))
     \<and> (zero \<longrightarrow> (\<forall>c\<in>set cs. zero_block s' c)) \<and> maddr s' = maddr s
     \<and> (\<forall>a\<in>stored start limit s U. chunks = 0 \<or> a \<notin> array_cells chunks (length es) \<longrightarrow> rd s' a = rd s a)"

text \<open>The cells of the array, if it is given, are not those the sizes are read from.\<close>

definition place_ok :: "chunk set \<Rightarrow> addr \<Rightarrow> nat \<Rightarrow> addr set \<Rightarrow> bool" where
  "place_ok U chunks n R \<longleftrightarrow> chunks = 0 \<or> (\<exists>A\<in>U. array_in A chunks n) \<and> R \<inter> array_cells chunks n = {}"

lemma zero_payload:
  assumes "chunk_geo c" "8 dvd unat k" "unat k + 8 < unat (snd c)"
  shows "chunk2mem (fst c) + k \<in> payload c"
  using payload_cell(1) [of "fst c" "snd c" k] assms by simp

text \<open>The chunk \<open>(p, z)\<close> has just been allocated and, if asked for, cleared.\<close>

definition fresh_block ::
  "('o \<Rightarrow> addr) \<Rightarrow> nat \<Rightarrow> nat \<Rightarrow> 'o state \<Rightarrow> chunk set \<Rightarrow> addr \<Rightarrow> size_t \<Rightarrow> size_t list \<Rightarrow> size_t \<Rightarrow> bool"
where
  "fresh_block brk start limit s U p z es contents \<longleftrightarrow> sbrk_inv brk start limit s (insert (p, z) U) \<and> (p, z) \<notin> U \<and> pinuse s p
     \<and> es \<noteq> [] \<and> (\<forall>e\<in>set es. is_aligned e \<and> 32 \<le> unat e) \<and> unat contents = sum_list (map unat es) \<and> is_aligned contents
     \<and> 32 \<le> unat contents"

lemma fresh_blockD:
  assumes "fresh_block brk start limit s U p z es contents"
  shows "sbrk_inv brk start limit s (insert (p, z) U)" "(p, z) \<notin> U" "pinuse s p" "es \<noteq> []" "\<forall>e\<in>set es. is_aligned e \<and> 32 \<le> unat e"
    "unat contents = sum_list (map unat es)" "is_aligned contents" "32 \<le> unat contents" "insert (p, z) U - {(p, z)} = U"
    "a \<in> stored start limit s U \<Longrightarrow> a \<notin> own (p, z)" "chunk_geo (p, z)"
proof -
  show f: "sbrk_inv brk start limit s (insert (p, z) U)" "(p, z) \<notin> U" "pinuse s p" "es \<noteq> []" "\<forall>e\<in>set es. is_aligned e \<and> 32 \<le> unat e"
    "unat contents = sum_list (map unat es)" "is_aligned contents" "32 \<le> unat contents"
    using assms by (simp_all add: fresh_block_def)
  show U: "insert (p, z) U - {(p, z)} = U" using f(2) by blast
  have c: "(p, z) \<in> insert (p, z) U" by blast
  obtain F where t: "topp s \<noteq> 0" using f(1) c by (rule sbrk_heap)
  show "a \<in> stored start limit s U \<Longrightarrow> a \<notin> own (p, z)" using stored_other(1) [OF f(1) t c] unfolding U by blast
  show "chunk_geo (p, z)" by (rule sbrk_geo(1) [OF f(1) c])
qed

text \<open>The sizes the loop finds are \<open>es\<close> as long as the cells \<open>R\<close> stay.\<close>

definition reads_sizes :: "addr set \<Rightarrow> 'o state \<Rightarrow> size_t \<Rightarrow> ('o state \<Rightarrow> nat \<Rightarrow> size_t) \<Rightarrow> size_t list \<Rightarrow> bool" where
  "reads_sizes R s element_size szs es \<longleftrightarrow> (\<forall>j s'. j < length es \<longrightarrow> (\<forall>a\<in>R. rd s' a = rd s a)
     \<longrightarrow> (if element_size \<noteq> 0 then element_size else request2size (szs s' j)) = es ! j)"

lemma reads_sizesD:
  "reads_sizes R s element_size szs es \<Longrightarrow> j < length es \<Longrightarrow> \<forall>a\<in>R. rd s' a = rd s a
    \<Longrightarrow> (if element_size \<noteq> 0 then element_size else request2size (szs s' j)) = es ! j"
  unfolding reads_sizes_def by blast

text \<open>The array is given: the whole chunk is for the blocks.\<close>

lemma carve_given:
  assumes f: "fresh_block brk start limit s U p z es contents" and z: "unat contents \<le> unat z"
    and A: "A \<in> U" "array_in A chunks (length es)" "R \<inter> array_cells chunks (length es) = {}" "R \<subseteq> stored start limit s U" "chunks \<noteq> 0"
    and sz: "reads_sizes R s element_size szs es"
    and zb: "zero \<longrightarrow> (\<forall>c. chunk_geo c \<and> own c \<subseteq> own (p, z) \<longrightarrow> zero_block s c)"
  shows "\<exists>s' p' z' cs. fold (ialloc_split szs element_size chunks) [0..<length es - 1] (s, p, z) = (s', p', z')
    \<and> blocks_result brk start limit s U chunks es zero
        (tag_used (wr s' (chunks + 8 * of_nat (length es - 1)) (chunk2mem p')) p' z') chunks cs"
proof -
  note F = fresh_blockD [OF f]
  have r: "carving brk start limit A s (insert (p, z) U) p z chunks es"
    unfolding carving_def using F(2,3,5,6) z A(1,2) retag_sbrk [OF F(1)] by auto
  have R: "R \<inter> own (p, z) = {}" using A(4) F(10) by blast
  have "\<exists>s' p' z' cs. fold (ialloc_split szs element_size chunks) [0..<0 + (length es - 1)] (s, p, z) = (s', p', z')
    \<and> carved brk start limit (tag_used s p z) (insert (p, z) U) (p, z) chunks es
        (tag_used (wr s' (chunks + 8 * of_nat (0 + (length es - 1))) (chunk2mem p')) p' z') cs"
    by (rule carve_loop [OF r F(4) _ _ R A(3)]) (use reads_sizesD [OF sz] in simp_all)
  then obtain s' p' z' cs where l: "fold (ialloc_split szs element_size chunks) [0..<length es - 1] (s, p, z) = (s', p', z')"
    and c: "carved brk start limit (tag_used s p z) (insert (p, z) U) (p, z) chunks es
        (tag_used (wr s' (chunks + 8 * of_nat (length es - 1)) (chunk2mem p')) p' z') cs" (is "carved _ _ _ _ _ _ _ _ ?s' _") by auto
  note N = carved_new [OF r F(4) c]
  have "zero_block ?s' d" if "zero" "d \<in> set cs" for d
    using zb N(2-4) [OF that(2)] zero_payload that(1) unfolding zero_block_def by metis
  moreover have "rd ?s' a = rd s a" if "a \<in> stored start limit s U" "a \<notin> array_cells chunks (length es)" for a
  proof -
    have "rd ?s' a = rd (tag_used s p z) a" using c that F(10) [OF that(1)] unfolding carved_def by blast
    moreover have "a \<noteq> p + 8" using F(10) [OF that(1)] head_own [OF F(11)] by auto
    ultimately show ?thesis by (simp add: tag_used_wr rd_wr)
  qed
  ultimately have "blocks_result brk start limit s U chunks es zero ?s' chunks cs"
    using c N(1) A(5) unfolding blocks_result_def carved_def F(9) by (auto simp: tag_used_wr maddr_wr)
  then show ?thesis using l by blast
qed

text \<open>The array is the end of the chunk.\<close>

lemma carve_own:
  fixes p z contents
  defines "q \<equiv> p + contents" and "y \<equiv> z - contents"
  assumes f: "fresh_block brk start limit s U p z es contents"
    and y: "unat contents + 32 \<le> unat z" "unat contents + 8 * length es + 8 \<le> unat z"
    and R: "R \<subseteq> stored start limit s U"
    and sz: "reads_sizes R s element_size szs es"
    and zb: "zero \<longrightarrow> (\<forall>c. chunk_geo c \<and> own c \<subseteq> own (p, contents) \<longrightarrow> zero_block s c)"
  shows "\<exists>s' p' z' cs. fold (ialloc_split szs element_size (chunk2mem q)) [0..<length es - 1] (tag_used s q y, p, contents) = (s', p', z')
    \<and> blocks_result brk start limit s U 0 es zero
        (tag_used (wr s' (chunk2mem q + 8 * of_nat (length es - 1)) (chunk2mem p')) p' z') (chunk2mem q) cs"
proof -
  note F = fresh_blockD [OF f]
  let ?s = "tag_used s q y" and ?X = "(q, y)" and ?U = "insert (p, contents) (insert (q, y) U)" and ?m = "chunk2mem q"
  note P = own_parts [OF F(11,7,8) y(1), folded q_def y_def]
  have h: "q + 8 \<in> own ?X" "p + 8 \<in> own (p, contents)" using head_own [OF P(5)] head_own [OF P(4)] by simp_all
  have ne: "p + 8 \<noteq> q + 8" using h P(3) by auto
  have cut: "tag_used ?s p contents = cut_chunk s p z contents"
    by (simp add: cut_chunk_def q_def [symmetric] y_def [symmetric] tag_used_wr wr_twice(2) [OF ne])
  have i: "sbrk_inv brk start limit (tag_used ?s p contents) ?U"
    using cut_sbrk [OF F(1) insertI1 F(3,7,8) y(1), folded q_def y_def] unfolding cut F(9) .
  have ai: "array_in ?X ?m (length es)" using y(2) P(6) unfolding array_in_def by (intro exI [of _ 0]) simp
  have X: "?X \<noteq> (p, contents)" using h P(3) by auto
  have r: "carving brk start limit ?X ?s ?U p contents ?m es"
    unfolding carving_def using i F(5,6) ai X by simp
  have st: "rd ?s a = rd s a" if "a \<notin> own (p, z)" for a using that h(1) P(2) by (auto simp: tag_used_wr rd_wr)
  have Ro: "R \<inter> own (p, z) = {}" using R F(10) by blast
  have sR: "\<forall>a\<in>R. rd ?s a = rd s a"
  proof
    fix a assume "a \<in> R"
    then have "a \<notin> own (p, z)" using Ro by blast
    then show "rd ?s a = rd s a" by (rule st)
  qed
  obtain e es' where es: "es = e # es'" using F(4) by (cases es) auto
  have ac: "array_cells ?m (length es) \<subseteq> own (p, z)"
    using carvingD(7) [OF r [unfolded es]] P(2) unfolding es payload_def by blast
  have "\<exists>s' p' z' cs. fold (ialloc_split szs element_size ?m) [0..<0 + (length es - 1)] (?s, p, contents) = (s', p', z')
    \<and> carved brk start limit (tag_used ?s p contents) ?U (p, contents) ?m es
        (tag_used (wr s' (?m + 8 * of_nat (0 + (length es - 1))) (chunk2mem p')) p' z') cs"
  proof (rule carve_loop [OF r F(4)])
    show "(if element_size \<noteq> 0 then element_size else request2size (szs s' (0 + j))) = es ! j"
      if "j < length es" "\<forall>a\<in>R. rd s' a = rd ?s a" for j s'
      unfolding add_0_left by (rule reads_sizesD [OF sz that(1)]) (use that(2) sR in simp)
    show "R \<inter> own (p, contents) = {}" "R \<inter> array_cells ?m (length es) = {}" using Ro P(1) ac by blast+
  qed simp
  then obtain s' p' z' cs where l: "fold (ialloc_split szs element_size ?m) [0..<length es - 1] (?s, p, contents) = (s', p', z')"
    and c: "carved brk start limit (tag_used ?s p contents) ?U (p, contents) ?m es
        (tag_used (wr s' (?m + 8 * of_nat (length es - 1)) (chunk2mem p')) p' z') cs" (is "carved _ _ _ _ _ _ _ _ ?s' _") by auto
  note N = carved_new [OF r F(4) c]
  have nU: "(p, contents) \<notin> U" "?X \<notin> U"
    using part_new [OF F(1) insertI1 P(1,4)] part_new [OF F(1) insertI1 P(2,5)] unfolding F(9) by blast+
  have U: "?U - {(p, contents)} = insert ?X U" using X nU by auto
  have "zero_block ?s' d" if "zero" "d \<in> set cs" for d
    unfolding zero_block_def
  proof (intro allI impI)
    fix k :: addr assume k: "8 dvd unat k" "unat k + 8 < unat (snd d)"
    note d = N(2-4) [OF that(2)]
    have a: "chunk2mem (fst d) + k \<in> payload d" by (rule zero_payload [OF d(1) k])
    then have n: "chunk2mem (fst d) + k \<noteq> q + 8" using d(2) h(1) P(3) by (auto simp: payload_def)
    have "zero_block s d" using zb that(1) d(1,2) by blast
    then have "rd s (chunk2mem (fst d) + k) = 0" using k by (simp add: zero_block_def)
    moreover have "rd ?s (chunk2mem (fst d) + k) = rd s (chunk2mem (fst d) + k)" using n by (simp add: tag_used_wr rd_wr)
    ultimately show "rd ?s' (chunk2mem (fst d) + k) = 0" using d(3) [OF a] by simp
  qed
  moreover have "rd ?s' a = rd s a" if "a \<in> stored start limit s U" for a
  proof -
    have a: "a \<notin> own (p, z)" by (rule F(10) [OF that])
    then have "rd ?s' a = rd (tag_used ?s p contents) a" using c ac P(1) unfolding carved_def by blast
    moreover have "a \<noteq> p + 8" using a h(2) P(1) by auto
    ultimately show ?thesis using st [OF a] by (simp add: tag_used_wr rd_wr)
  qed
  moreover have "?X \<notin> U \<union> set cs" "set cs \<inter> U = {}" using nU N(1) unfolding U by blast+
  ultimately have "blocks_result brk start limit s U 0 es zero ?s' ?m cs"
    using c ai unfolding blocks_result_def carved_def U by (auto simp: tag_used_wr maddr_wr)
  then show ?thesis using l by blast
qed

text \<open>Clearing first.\<close>

definition cleared :: "'o state \<Rightarrow> u32 \<Rightarrow> addr \<Rightarrow> size_t \<Rightarrow> 'o state" where
  "cleared s opts p n = (if opts AND 2 \<noteq> 0 then memset0 s (chunk2mem p) n else s)"

lemma cleared_block:
  assumes f: "fresh_block brk start limit s U p z es contents" and n: "unat n + 8 \<le> unat z"
  shows "fresh_block brk start limit (cleared s opts p n) U p z es contents" "maddr (cleared s opts p n) = maddr s"
    "a \<in> stored start limit s U \<Longrightarrow> rd (cleared s opts p n) a = rd s a" "chunksize (cleared s opts p n) p = chunksize s p"
proof -
  note F = fresh_blockD [OF f]
  let ?s = "cleared s opts p n"
  have ch: "changes_mem (payload (p, z)) s ?s"
    using memset_changes [OF F(11) n, of s] by (simp add: cleared_def changes_mem_def)
  have i: "sbrk_inv brk start limit ?s (insert (p, z) U)" by (rule client_sbrk [OF F(1) ch payload_in_stored]) simp
  show "fresh_block brk start limit ?s U p z es contents"
    unfolding fresh_block_def pinuse_client [OF ch F(11) subset_refl] using i F by blast
  show "maddr ?s = maddr s" by (simp add: cleared_def memset0_def)
  show "a \<in> stored start limit s U \<Longrightarrow> rd ?s a = rd s a"
    by (rule changes_memD [OF ch]) (use F(10) in \<open>auto simp: payload_def\<close>)
  have "p + 8 \<notin> payload (p, z)" by (simp add: payload_def)
  then show "chunksize ?s p = chunksize s p" using changes_memD [OF ch] by (simp add: chunksize_def head_def)
qed

lemma blocks_result_after:
  assumes "blocks_result brk start limit s1 U chunks es zero s' m cs" "maddr s1 = maddr s" "\<And>a. a \<in> stored start limit s U \<Longrightarrow> rd s1 a = rd s a"
  shows "blocks_result brk start limit s U chunks es zero s' m cs"
proof -
  have "stored start limit s1 U = stored start limit s U" using assms(2) by (simp add: stored_def state_cells_def)
  then show ?thesis using assms unfolding blocks_result_def by metis
qed

lemma blocks_result_nonzero:
  assumes r: "blocks_result brk start limit s U chunks es zero s' m cs"
  shows "m \<noteq> 0"
proof (cases "chunks = 0")
  case True
  then have "\<exists>A. m = chunk2mem (fst A) \<and> sbrk_inv brk start limit s' (insert A (U \<union> set cs))"
    using r unfolding blocks_result_def by simp blast
  then obtain A where A: "m = chunk2mem (fst A)" "sbrk_inv brk start limit s' (insert A (U \<union> set cs))" by blast
  have "chunk_geo A" by (rule sbrk_geo(1) [OF A(2) insertI1])
  then show ?thesis using chunk2mem_nonzero A(1) by simp
qed (use r in \<open>simp add: blocks_result_def\<close>)

lemma ialloc_carve_sbrk:
  assumes f: "fresh_block brk start limit s U p z es contents" and n: "unat n_elements = length es"
    and ar: "16 dvd unat array_size" "unat contents + unat array_size \<le> unat z"
      "if chunks = 0 then 32 \<le> unat array_size \<and> 8 * length es + 8 \<le> unat array_size else array_size = 0"
    and pl: "place_ok U chunks (length es) R" "R \<subseteq> stored start limit s U"
    and sz: "reads_sizes R s element_size szs es"
  shows "\<exists>s' m cs. ialloc_carve s (chunk2mem p) n_elements szs opts chunks array_size element_size contents = (s', m)
    \<and> blocks_result brk start limit s U chunks es (opts AND 2 \<noteq> 0) s' m cs"
proof -
  note F = fresh_blockD [OF f]
  let ?n = "z - 8 - array_size" let ?s = "cleared s opts p ?n"
  have z: "chunksize s p = z" using sbrk_geo(4) [OF F(1), of "(p, z)"] by simp
  have un: "unat ?n = unat z - 8 - unat array_size" using ar(2) F(8) by (simp add: unat_sub word_le_nat_alt)
  have n8: "unat ?n + 8 \<le> unat z" "unat contents \<le> unat ?n + 8" using un ar(2) F(8) by linarith+
  have z16: "16 dvd unat z" using F(11) by (simp add: chunk_geo_def is_aligned_iff)
  obtain k l where kl: "unat z = 16 * k" "unat array_size = 16 * l" using z16 ar(1) by blast
  have "8 dvd 16 * k - 8 - 16 * l" by (intro dvd_diff_nat) simp_all
  then have dn: "8 dvd unat ?n" unfolding un kl .
  note B = cleared_block [where opts = opts, OF f n8(1)]
  have R: "R \<subseteq> stored start limit ?s U" using pl(2) B(2) by (simp add: stored_def state_cells_def)
  have "rd ?s a = rd s a" if "a \<in> R" for a using B(3) pl(2) that by blast
  then have sz': "reads_sizes R ?s element_size szs es" using sz by (simp add: reads_sizes_def)
  have zb: "opts AND 2 \<noteq> 0 \<longrightarrow> (\<forall>c. chunk_geo c \<and> own c \<subseteq> own (p, C) \<longrightarrow> zero_block ?s c)"
    if "chunk_geo (p, C)" "unat C \<le> unat ?n + 8" for C
    using zero_cells [OF _ _ that(1) _ _ that(2) dn] by (auto simp: zero_block_def cleared_def)
  have cl: "(if opts AND 2 \<noteq> 0 then memset0 s (chunk2mem p) (z - SIZE_T_SIZE - array_size) else s) = ?s"
    by (simp add: cleared_def dl_consts)
  have lo: "unat n_elements - 1 = length es - 1" by (simp add: n)
  show ?thesis
  proof (cases "chunks = 0")
    case True
    let ?q = "p + contents" and ?y = "z - contents"
    have y: "unat contents + 32 \<le> unat z" "unat contents + 8 * length es + 8 \<le> unat z" using ar(2,3) True by simp_all
    have cg: "chunk_geo (p, contents)" by (rule own_parts(4) [OF F(11,7,8) y(1)])
    from carve_own [OF B(1) y R sz' zb [OF cg n8(2)]] obtain s' p' z' cs where
      l: "fold (ialloc_split szs element_size (chunk2mem ?q)) [0..<length es - 1] (tag_used ?s ?q ?y, p, contents) = (s', p', z')"
      and r: "blocks_result brk start limit ?s U 0 es (opts AND 2 \<noteq> 0)
        (tag_used (wr s' (chunk2mem ?q + 8 * of_nat (length es - 1)) (chunk2mem p')) p' z') (chunk2mem ?q) cs" by blast
    have "ialloc_carve s (chunk2mem p) n_elements szs opts chunks array_size element_size contents
      = (tag_used (wr s' (chunk2mem ?q + 8 * of_nat (length es - 1)) (chunk2mem p')) p' z', chunk2mem ?q)"
      unfolding ialloc_carve_def mem2chunk_chunk2mem z lo Let_def chunk_plus_offset_def if_P [OF True] cl prod.case l ..
    then show ?thesis using blocks_result_after [OF r B(2,3)] True by blast
  next
    case False
    then obtain A where A: "A \<in> U" "array_in A chunks (length es)" "R \<inter> array_cells chunks (length es) = {}"
      using pl(1) by (auto simp: place_ok_def)
    have a0: "array_size = 0" using ar(3) False by simp
    have "unat contents \<le> unat z" "unat z \<le> unat ?n + 8" using ar(2) F(8) un by (simp_all add: a0)
    from carve_given [OF B(1) this(1) A R False sz' zb [OF F(11) this(2)]] obtain s' p' z' cs where
      l: "fold (ialloc_split szs element_size chunks) [0..<length es - 1] (?s, p, z) = (s', p', z')"
      and r: "blocks_result brk start limit ?s U chunks es (opts AND 2 \<noteq> 0)
        (tag_used (wr s' (chunks + 8 * of_nat (length es - 1)) (chunk2mem p')) p' z') chunks cs" by blast
    have "ialloc_carve s (chunk2mem p) n_elements szs opts chunks array_size element_size contents
      = (tag_used (wr s' (chunks + 8 * of_nat (length es - 1)) (chunk2mem p')) p' z', chunks)"
      unfolding ialloc_carve_def mem2chunk_chunk2mem z lo Let_def chunk_plus_offset_def if_not_P [OF False] cl prod.case l ..
    then show ?thesis using blocks_result_after [OF r B(2,3)] by blast
  qed
qed

section \<open>ialloc\<close>

lemma ialloc_sizes_eq:
  assumes n: "unat n_elements = n" "0 < n" and k: "\<forall>j<n. szs s j = ks j" "opts AND 1 \<noteq> 0 \<longrightarrow> (\<forall>j<n. ks j = ks 0)"
    and es: "es = map (\<lambda>j. request2size (ks j)) [0..<n]"
  obtains x where "ialloc_sizes s n_elements szs opts = (x, sum_list es)"
    "\<And>s' j. szs s' j = ks j \<Longrightarrow> j < n \<Longrightarrow> (if x \<noteq> 0 then x else request2size (szs s' j)) = es ! j"
proof (cases "opts AND 1 \<noteq> 0")
  case True
  let ?x = "request2size (ks 0)"
  have k0: "ks j = ks 0" if "j < n" for j using k(2) True that by blast
  have j: "es ! j = ?x" if "j < n" for j using that k0 [OF that] by (simp add: es)
  have "length es = n" by (simp add: es)
  then have "es = replicate n ?x" by (intro nth_equalityI) (simp_all add: j)
  then have "sum_list es = of_nat n * ?x" by (simp add: sum_list_replicate)
  moreover have "of_nat n = n_elements" unfolding n(1) [symmetric] by simp
  ultimately have s: "sum_list es = n_elements * ?x" by simp
  have "ialloc_sizes s n_elements szs opts = (?x, sum_list es)" using True s k(1) n(2) by (simp add: ialloc_sizes_def Let_def)
  moreover have "(if ?x \<noteq> 0 then ?x else request2size (szs s' j)) = es ! j" if "szs s' j = ks j" "j < n" for s' j
    using j [OF that(2)] that k0 [OF that(2)] by (cases "?x = 0") auto
  ultimately show thesis by (rule that)
next
  case False
  have "map (\<lambda>i. request2size (szs s i)) [0..<n] = es" unfolding es by (rule map_cong) (use k(1) in auto)
  then have "ialloc_sizes s n_elements szs opts = (0, sum_list es)"
    using False by (simp add: ialloc_sizes_def fold_add_words n(1))
  then show thesis by (rule that) (simp add: es)
qed

text \<open>The sizes of the parts add up.\<close>

lemma aligned_sum: "\<forall>e\<in>set es. is_aligned e \<Longrightarrow> 16 dvd sum_list (map unat es)"
  by (induction es) (simp_all add: is_aligned_iff)

lemma ialloc_total:
  assumes b: "(\<Sum>j<n. unat (ks j) + 40) + 64 < 2 ^ 39" and n: "unat n_elements = n" "0 < n"
    and es: "es = map (\<lambda>j. request2size (ks j)) [0..<n]" and a: "array_size = (if chunks \<noteq> 0 then 0 else request2size (n_elements * 8))"
  shows "length es = n" "es \<noteq> []" "\<forall>e\<in>set es. is_aligned e \<and> 32 \<le> unat e" "unat (sum_list es) = sum_list (map unat es)"
    "is_aligned (sum_list es)" "32 \<le> unat (sum_list es)" "16 dvd unat array_size"
    "if chunks = 0 then 32 \<le> unat array_size \<and> 8 * n + 8 \<le> unat array_size else array_size = 0"
    "unat (sum_list es + array_size) = unat (sum_list es) + unat array_size"
    "request2size (sum_list es + array_size - 8) = sum_list es + array_size" "unat (sum_list es + array_size - 8) < 2 ^ 39"
proof -
  have k: "unat (ks j) < 2 ^ 39" if "j < n" for j
    using member_le_sum [of j "{..<n}" "\<lambda>j. unat (ks j) + 40"] b that by simp
  show l: "length es = n" and e0: "es \<noteq> []" using n(2) by (simp_all add: es)
  show ea: "\<forall>e\<in>set es. is_aligned e \<and> 32 \<le> unat e" using request2size_facts(1,2) k by (auto simp: es)
  have S: "sum_list (map unat es) = (\<Sum>j<n. unat (request2size (ks j)))"
    by (simp add: es comp_def sum_list_sum_nth atLeast0LessThan)
  have "(\<Sum>j<n. unat (request2size (ks j)) + 8) \<le> (\<Sum>j<n. unat (ks j) + 40)"
    by (rule sum_mono) (use request2size_upper k in force)
  then have T: "sum_list (map unat es) + 8 * n + 64 < 2 ^ 39" using b by (simp add: S sum.distrib)
  then show u: "unat (sum_list es) = sum_list (map unat es)" by (intro unat_sum_words) simp
  have "16 dvd sum_list (map unat es)" by (rule aligned_sum) (use ea in blast)
  then show al: "is_aligned (sum_list es)" by (simp add: is_aligned_iff u)
  have "unat (hd es) \<le> sum_list (map unat es)" "hd es \<in> set es" using e0 by (cases es; simp)+
  then show g: "32 \<le> unat (sum_list es)" using ea u by fastforce
  have n8: "unat (n_elements * 8) = 8 * n" using T n(1) by (simp add: unat_word_ariths)
  have n39: "unat (n_elements * 8) < 2 ^ 39" using T n8 by simp
  note A = request2size_facts [OF n39] and Au = request2size_upper [OF n39]
  show ad: "16 dvd unat array_size" using A(1) by (simp add: a is_aligned_iff)
  show "if chunks = 0 then 32 \<le> unat array_size \<and> 8 * n + 8 \<le> unat array_size else array_size = 0"
    using A(2,4) n8 by (simp add: a)
  have le: "unat array_size \<le> 8 * n + 32" using Au n8 by (simp add: a)
  then show t: "unat (sum_list es + array_size) = unat (sum_list es) + unat array_size"
    using T u by (subst unat_add_lem [THEN iffD1]) simp_all
  have lt: "unat (sum_list es + array_size) < 2 ^ 39" using le t T u by simp
  have "is_aligned (sum_list es + array_size)" using al ad unfolding is_aligned_iff t by (rule dvd_add)
  then show "request2size (sum_list es + array_size - 8) = sum_list es + array_size"
    using g t lt by (intro request2size_back) simp_all
  show "unat (sum_list es + array_size - 8) < 2 ^ 39" using g t lt by (simp add: unat_sub word_le_nat_alt)
qed

text \<open>Turning direct mapping off and on again.\<close>

lemma mmap_flag:
  "same_heap brk s (disable_mmap s)" "same_heap brk s (enable_mmap s)"
  "mp_magic (disable_mmap s) = mp_magic s" "granularity (disable_mmap s) = granularity s" "page_size (disable_mmap s) = page_size s"
  "mp_magic (enable_mmap s) = mp_magic s" "granularity (enable_mmap s) = granularity s" "page_size (enable_mmap s) = page_size s"
  by (simp_all add: same_heap_def disable_mmap_def enable_mmap_def)

definition ialloc_result ::
  "('o \<Rightarrow> addr) \<Rightarrow> nat \<Rightarrow> nat \<Rightarrow> 'o state \<Rightarrow> chunk set \<Rightarrow> addr \<Rightarrow> size_t list \<Rightarrow> bool \<Rightarrow> 'o state \<Rightarrow> addr \<Rightarrow> bool"
where
  "ialloc_result brk start limit s U chunks es zero s' m \<longleftrightarrow>
     m = 0 \<and> sbrk_inv brk start limit s' U \<and> maddr s' = maddr s \<and> (\<forall>a\<in>stored start limit s U. rd s' a = rd s a)
     \<or> m \<noteq> 0 \<and> (\<exists>cs. blocks_result brk start limit s U chunks es zero s' m cs)"

lemma ialloc_sbrk:
  fixes s :: "'o state"
  assumes E: "sbrk_like E brk start limit" and i: "sbrk_inv brk start limit s U"
    and n: "unat n_elements = n" "0 < n" and b: "(\<Sum>j<n. unat (ks j) + 40) + 64 < 2 ^ 39"
    and k: "\<And>s' j. \<forall>a\<in>R. rd s' a = rd s a \<Longrightarrow> j < n \<Longrightarrow> szs s' j = ks j" "opts AND 1 \<noteq> 0 \<longrightarrow> (\<forall>j<n. ks j = ks 0)"
    and pl: "place_ok U chunks n R" "R \<subseteq> stored start limit s U"
  shows "\<exists>s' m. ialloc E s n_elements szs opts chunks = Inr (s', m)
    \<and> ialloc_result brk start limit s U chunks (map (\<lambda>j. request2size (ks j)) [0..<n]) (opts AND 2 \<noteq> 0) s' m"
proof -
  obtain s1 where en: "ensure_initialization E s = Inr s1" and sh: "same_heap brk s s1"
      and p: "pow2 (granularity s1)" "pow2 (page_size s1)"
    using ensure_sbrk [OF E sbrk_invD(3) [OF i]] by blast
  let ?es = "map (\<lambda>j. request2size (ks j)) [0..<n]" let ?ar = "if chunks \<noteq> 0 then 0 else request2size (n_elements * 8)"
  let ?c = "sum_list ?es" let ?s2 = "disable_mmap s1"
  note T = ialloc_total [where chunks = chunks, OF b n refl refl]
  have i1: "sbrk_inv brk start limit s1 U" by (rule sbrk_inv_same [OF sh _ i]) (use p in blast)
  have i2: "sbrk_inv brk start limit ?s2 U"
    by (rule sbrk_inv_same [OF mmap_flag(1) _ i1]) (use p in \<open>simp add: mmap_flag\<close>)
  have e1: "rd s1 a = rd s a" "maddr s1 = maddr s" "rd ?s2 a = rd s a" "maddr ?s2 = maddr s" for a
    using same_heap_rd(1) [OF sh] sh by (simp_all add: same_heap_def disable_mmap_def rd_def)
  have k1: "\<forall>j<n. szs s1 j = ks j" using k(1) e1(1) by blast
  obtain x where sz: "ialloc_sizes s1 n_elements szs opts = (x, ?c)"
    and rs: "\<And>s' j. szs s' j = ks j \<Longrightarrow> j < n \<Longrightarrow> (if x \<noteq> 0 then x else request2size (szs s' j)) = ?es ! j"
    by (rule ialloc_sizes_eq [where szs = szs and s = s1 and ks = ks, OF n k1 k(2) refl]) blast
  obtain s3 m where d: "dlmalloc E ?s2 (?c + ?ar - 8) = Inr (s3, m)" and mr: "malloc_result brk start limit ?s2 U (?c + ?ar) s3 m"
    using dlmalloc_sbrk [OF E i2 T(11)] unfolding T(10) by blast
  let ?s4 = "if use_mmap s1 then enable_mmap s3 else s3"
  have sh4: "same_heap brk s3 ?s4" using mmap_flag(2) [of brk s3] by (simp add: same_heap_def)
  have p4: "mp_magic ?s4 = mp_magic s3" "granularity ?s4 = granularity s3" "page_size ?s4 = page_size s3" by (simp_all add: mmap_flag)
  have i4: "sbrk_inv brk start limit ?s4 W" if "sbrk_inv brk start limit s3 W" for W
    by (rule sbrk_inv_same [OF sh4 _ that]) (use sbrk_invD(3) [OF that] in \<open>simp only: p4\<close>)
  have st: "stored start limit ?s2 U = stored start limit s U" by (simp add: stored_def state_cells_def e1)
  have e4: "rd ?s4 a = rd s a" if "a \<in> stored start limit s U" for a
    using mr that e1(3) same_heap_rd(1) [OF sh4] unfolding malloc_result_def st by simp
  have m4: "maddr ?s4 = maddr s" using mr sh4 e1(4) by (simp add: malloc_result_def same_heap_def)
  have al: "ialloc E s n_elements szs opts chunks
    = (if m = 0 then Inr (?s4, 0) else Inr (ialloc_carve ?s4 m n_elements szs opts chunks ?ar x ?c))"
  proof -
    have "n_elements \<noteq> 0" using n by auto
    then show ?thesis
      unfolding ialloc_def en bindR_simps Let_def sz prod.case internal_clones by (simp add: d dl_consts)
  qed
  show ?thesis
  proof (cases "m = 0")
    case True
    then have "sbrk_inv brk start limit s3 U" using mr by (auto simp: malloc_result_def)
    then show ?thesis using al True i4 e4 m4 unfolding ialloc_result_def by auto
  next
    case False
    then obtain p z where m: "m = chunk2mem p" "(p, z) \<notin> U" "pinuse s3 p" "?c + ?ar \<le> z"
        and i3: "sbrk_inv brk start limit s3 (insert (p, z) U)" using mr unfolding malloc_result_def by blast
    have "pinuse ?s4 p" using m(3) same_heap_rd(1) [OF sh4] by (simp add: pinuse_def head_def)
    then have f: "fresh_block brk start limit ?s4 U p z ?es ?c"
      unfolding fresh_block_def using i4 [OF i3] m(2) T(2-6) by blast
    have "unat ?c + unat ?ar \<le> unat z" using m(4) unfolding word_le_nat_alt T(9) .
    moreover have "R \<subseteq> stored start limit ?s4 U" using pl(2) m4 by (simp add: stored_def state_cells_def)
    moreover have "reads_sizes R ?s4 x szs ?es"
      unfolding reads_sizes_def T(1)
    proof (intro allI impI)
      fix j and s' :: "'o state" assume j: "j < n" "\<forall>a\<in>R. rd s' a = rd ?s4 a"
      have "\<forall>a\<in>R. rd s' a = rd s a" using j(2) e4 pl(2) by auto
      from rs [OF k(1) [OF this j(1)] j(1)] show "(if x \<noteq> 0 then x else request2size (szs s' j)) = ?es ! j" .
    qed
    ultimately obtain s' m' cs where c: "ialloc_carve ?s4 (chunk2mem p) n_elements szs opts chunks ?ar x ?c = (s', m')"
      and r: "blocks_result brk start limit ?s4 U chunks ?es (opts AND 2 \<noteq> 0) s' m' cs"
      using ialloc_carve_sbrk [OF f _ T(7) _ _ _, of n_elements chunks R x szs opts] pl(1) T(1,8) n(1) by metis
    have "m' \<noteq> 0" by (rule blocks_result_nonzero [OF r])
    moreover have "blocks_result brk start limit s U chunks ?es (opts AND 2 \<noteq> 0) s' m' cs"
      by (rule blocks_result_after [OF r m4 e4])
    ultimately show ?thesis using al False c m(1) unfolding ialloc_result_def by auto
  qed
qed

section \<open>independent\_calloc and independent\_comalloc\<close>

lemma independent_calloc_sbrk:
  assumes E: "sbrk_like E brk start limit" and i: "sbrk_inv brk start limit s U" and n: "0 < unat n_elements"
    and b: "unat n_elements * (unat elem_size + 40) + 64 < 2 ^ 39"
    and pl: "chunks = 0 \<or> (\<exists>A\<in>U. array_in A chunks (unat n_elements))"
  shows "\<exists>s' m. dlindependent_calloc E s n_elements elem_size chunks = Inr (s', m)
    \<and> ialloc_result brk start limit s U chunks (replicate (unat n_elements) (request2size elem_size)) True s' m"
proof -
  have r: "map (\<lambda>j. request2size elem_size) [0..<k] = replicate k (request2size elem_size)" for k
    by (simp add: map_replicate_const)
  have "(3 :: u32) AND 2 \<noteq> 0" by simp
  then show ?thesis
    using ialloc_sbrk [OF E i refl n, of "\<lambda>_. elem_size" "{}" "\<lambda>_ _. elem_size" 3 chunks] b pl
    by (simp add: dlindependent_calloc_def Let_def r place_ok_def)
qed

text \<open>The array of the sizes is in memory the client has stored to, apart from the array of the pointers.\<close>

definition sizes_at :: "'o state \<Rightarrow> addr \<Rightarrow> size_t list \<Rightarrow> bool" where
  "sizes_at s a ks \<longleftrightarrow> (\<forall>j<length ks. rd s (a + 8 * of_nat j) = ks ! j)"

lemma independent_comalloc_sbrk:
  assumes E: "sbrk_like E brk start limit" and i: "sbrk_inv brk start limit s U" and n: "unat n_elements = length ks" "ks \<noteq> []"
    and b: "sum_list (map (\<lambda>k. unat k + 40) ks) + 64 < 2 ^ 39"
    and z: "sizes_at s sz ks" "array_cells sz (length ks) \<subseteq> stored start limit s U"
    and pl: "place_ok U chunks (length ks) (array_cells sz (length ks))"
  shows "\<exists>s' m. dlindependent_comalloc E s n_elements sz chunks = Inr (s', m)
    \<and> ialloc_result brk start limit s U chunks (map request2size ks) False s' m"
proof -
  have m: "map (\<lambda>j. request2size (ks ! j)) [0..<length ks] = map request2size ks"
    by (rule nth_equalityI) simp_all
  have "(\<Sum>j<length ks. unat (ks ! j) + 40) = sum_list (map (\<lambda>k. unat k + 40) ks)"
    by (simp add: sum_list_sum_nth atLeast0LessThan)
  then have b': "(\<Sum>j<length ks. unat (ks ! j) + 40) + 64 < 2 ^ 39" using b by simp
  have k: "rd s' (sz + 8 * of_nat j) = ks ! j"
    if "\<forall>a\<in>array_cells sz (length ks). rd s' a = rd s a" "j < length ks" for s' :: "'b state" and j
  proof -
    have "sz + 8 * of_nat j \<in> array_cells sz (length ks)" using that(2) by (auto simp: array_cells_def)
    then show ?thesis using that z(1) by (simp add: sizes_at_def)
  qed
  have n0: "0 < length ks" using n(2) by simp
  from ialloc_sbrk [where szs = "\<lambda>s i. rd s (sz + 8 * of_nat i)" and opts = 0, OF E i n(1) n0 b' k _ pl z(2)]
  show ?thesis by (simp add: dlindependent_comalloc_def m)
qed

end
