(* ===== verification/DL_ManyProps.thy ===== *)
theory DL_ManyProps
  imports DL_EdgeProps DL_IallocProps
begin

text \<open>
  Properties of the functions of src/src/dlmalloc.c that allocate many blocks at once,
  \<open>independent_calloc\<close> and \<open>independent_comalloc\<close>, and of their use together with \<open>bulk_free\<close>.
\<close>

section \<open>Reading the results\<close>

lemma array_at_nth: "array_at s a (map Some cs) \<longleftrightarrow> (\<forall>i<length cs. rd s (a + 8 * of_nat i) = chunk2mem (fst (cs ! i)))"
  by (simp add: array_at_def ptr_of_def)

text \<open>The array is a new block.\<close>

lemma own_array_result:
  assumes "ialloc_result brk start limit s U 0 es zero s' m"
  shows "maddr s' = maddr s \<and> (\<forall>a\<in>stored start limit s U. rd s' a = rd s a)
    \<and> (m = 0 \<and> sbrk_inv brk start limit s' U
       \<or> m \<noteq> 0 \<and> (\<exists>A cs. m = chunk2mem (fst A) \<and> length cs = length es \<and> distinct (A # cs) \<and> set (A # cs) \<inter> U = {}
            \<and> sbrk_inv brk start limit s' (set (A # cs) \<union> U) \<and> array_in A m (length es)
            \<and> (\<forall>i<length es. rd s' (m + 8 * of_nat i) = chunk2mem (fst (cs ! i)) \<and> es ! i \<le> snd (cs ! i)
                 \<and> (zero \<longrightarrow> zero_block s' (cs ! i)))))"
proof (cases "m = 0")
  case True
  then show ?thesis using assms by (simp add: ialloc_result_def)
next
  case False
  then obtain cs where r: "blocks_result brk start limit s U 0 es zero s' m cs" using assms by (auto simp: ialloc_result_def)
  then obtain A where A: "A \<notin> U \<union> set cs" "m = chunk2mem (fst A)" "array_in A m (length es)"
      "sbrk_inv brk start limit s' (insert A (U \<union> set cs))"
    unfolding blocks_result_def if_P [OF refl] by blast
  have cs: "list_all2 (\<lambda>e c. e \<le> snd c) es cs" "distinct cs" "set cs \<inter> U = {}" "array_at s' m (map Some cs)"
      "zero \<longrightarrow> (\<forall>c\<in>set cs. zero_block s' c)" "maddr s' = maddr s" "\<forall>a\<in>stored start limit s U. rd s' a = rd s a"
    using r unfolding blocks_result_def by blast+
  note l = list_all2_lengthD [OF cs(1)] list_all2_nthD [OF cs(1)]
  have U: "set (A # cs) \<union> U = insert A (U \<union> set cs)" by auto
  have i: "sbrk_inv brk start limit s' (set (A # cs) \<union> U)" unfolding U by (rule A(4))
  have d: "length cs = length es" "distinct (A # cs)" "set (A # cs) \<inter> U = {}" using A(1) cs(2,3) l(1) by auto
  have e: "\<forall>i<length es. rd s' (m + 8 * of_nat i) = chunk2mem (fst (cs ! i)) \<and> es ! i \<le> snd (cs ! i)
      \<and> (zero \<longrightarrow> zero_block s' (cs ! i))"
    using cs(4,5) l unfolding array_at_nth by simp
  show ?thesis by (intro conjI disjI2 exI [of _ A] exI [of _ cs] cs(6,7) False A(2,3) i d e)
qed

text \<open>The array is the client's.\<close>

lemma given_array_result:
  assumes "ialloc_result brk start limit s U chunks es zero s' m" "chunks \<noteq> 0"
  shows "(\<forall>a\<in>stored start limit s U - array_cells chunks (length es). rd s' a = rd s a)
    \<and> (m = 0 \<and> sbrk_inv brk start limit s' U
       \<or> m = chunks \<and> (\<exists>cs. length cs = length es \<and> distinct cs \<and> set cs \<inter> U = {} \<and> sbrk_inv brk start limit s' (set cs \<union> U)
            \<and> (\<forall>i<length es. rd s' (chunks + 8 * of_nat i) = chunk2mem (fst (cs ! i)) \<and> es ! i \<le> snd (cs ! i))))"
proof (cases "m = 0")
  case True
  then show ?thesis using assms by (simp add: ialloc_result_def)
next
  case False
  then obtain cs where r: "blocks_result brk start limit s U chunks es zero s' m cs" using assms by (auto simp: ialloc_result_def)
  have cs: "list_all2 (\<lambda>e c. e \<le> snd c) es cs" "distinct cs" "set cs \<inter> U = {}" "array_at s' m (map Some cs)"
      "m = chunks" "sbrk_inv brk start limit s' (U \<union> set cs)"
      "\<forall>a\<in>stored start limit s U - array_cells chunks (length es). rd s' a = rd s a"
    using r assms(2) unfolding blocks_result_def by (simp_all only: if_False) blast+
  note l = list_all2_lengthD [OF cs(1)] list_all2_nthD [OF cs(1)]
  have "\<forall>i<length es. rd s' (chunks + 8 * of_nat i) = chunk2mem (fst (cs ! i)) \<and> es ! i \<le> snd (cs ! i)"
    using cs(4,5) l unfolding array_at_nth by simp
  then show ?thesis using cs(5)
    by (intro conjI disjI2 exI [of _ cs] cs(2,3,7) l(1) [symmetric]) (simp_all add: cs(6) Un_commute)
qed

section \<open>Properties\<close>

text \<open>
  C10. \<open>independent_calloc\<close> with no array given, of at least one element and with
  \<open>n * (e + 40) + 64 < 2 ^ 39\<close>, on a system whose break moves as \<open>sbrk\<close> documents and on which \<open>mmap\<close>
  always fails (one segment): it returns 0 with everything kept, or the address of a new block that
  holds an array of pointers to as many new, distinct blocks as asked for, each with room for an
  element, in which every byte reads 0. (Without the bound it does not hold: the code does not check
  its sum.)
\<close>

theorem dlindependent_calloc_total:
  assumes "sbrk_like E brk start limit" "sbrk_inv brk start limit s U" "0 < unat n_elements"
    "unat n_elements * (unat elem_size + 40) + 64 < 2 ^ 39"
  shows "\<exists>s' m. dlindependent_calloc E s n_elements elem_size 0 = Inr (s', m) \<and> (\<forall>a\<in>stored start limit s U. rd s' a = rd s a)
    \<and> (m = 0 \<and> sbrk_inv brk start limit s' U
       \<or> (\<exists>A cs. m = chunk2mem (fst A) \<and> length cs = unat n_elements \<and> distinct (A # cs) \<and> set (A # cs) \<inter> U = {}
            \<and> sbrk_inv brk start limit s' (set (A # cs) \<union> U) \<and> array_in A m (unat n_elements)
            \<and> (\<forall>i<unat n_elements. rd s' (m + 8 * of_nat i) = chunk2mem (fst (cs ! i))
                 \<and> unat elem_size + 8 \<le> unat (snd (cs ! i)) \<and> zero_block s' (cs ! i))))"
proof -
  let ?n = "unat n_elements" and ?e = "request2size elem_size"
  obtain s' m where d: "dlindependent_calloc E s n_elements elem_size 0 = Inr (s', m)"
    and r: "ialloc_result brk start limit s U 0 (replicate ?n ?e) True s' m"
    using independent_calloc_sbrk [OF assms, of 0] by blast
  have "unat elem_size < 2 ^ 39" using assms(3,4) by (cases ?n) simp_all
  then have e: "unat elem_size + 8 \<le> unat ?e" by (rule request2size_facts(4))
  have sz: "unat elem_size + 8 \<le> unat y" if "replicate ?n ?e ! i \<le> y" "i < ?n" for i y
    using that e by (simp add: word_le_nat_alt)
  show ?thesis using d own_array_result [OF r] sz unfolding length_replicate by metis
qed

text \<open>Three blocks of 100 bytes, evaluated.\<close>

lemma three_value:
  "(case dlindependent_calloc brk_os start_state 3 100 0 of Inr (s, a) \<Rightarrow> a | _ \<Rightarrow> 0) = 0x100160"
  by code_simp

lemma three_bounds: "0 < unat (3 :: size_t)" "unat (3 :: size_t) * (unat (100 :: size_t) + 40) + 64 < 2 ^ 39"
  by simp_all

theorem dlindependent_calloc_total_witness:
  "\<exists>s' A cs. dlindependent_calloc brk_os start_state 3 100 0 = Inr (s', chunk2mem (fst A)) \<and> length cs = 3 \<and> distinct (A # cs)
    \<and> sbrk_inv (\<lambda>x. x) 0x100000 0x500000 s' (set (A # cs)) \<and> zero_block s' (cs ! 0)"
proof -
  from dlindependent_calloc_total [OF brk_os_sbrk start_inv three_bounds] obtain s' m where
    d: "dlindependent_calloc brk_os start_state 3 100 0 = Inr (s', m)"
    and r: "m = 0 \<or> (\<exists>A cs. m = chunk2mem (fst A) \<and> length cs = unat (3 :: size_t) \<and> distinct (A # cs)
        \<and> sbrk_inv (\<lambda>x. x) 0x100000 0x500000 s' (set (A # cs) \<union> {})
        \<and> (\<forall>i<unat (3 :: size_t). zero_block s' (cs ! i)))" by blast
  have "m \<noteq> 0" using three_value unfolding d by simp
  with r obtain A cs where A: "m = chunk2mem (fst A)" "length cs = unat (3 :: size_t)" "distinct (A # cs)"
      "sbrk_inv (\<lambda>x. x) 0x100000 0x500000 s' (set (A # cs) \<union> {})" "\<forall>i<unat (3 :: size_t). zero_block s' (cs ! i)" by blast
  have "length cs = 3" "zero_block s' (cs ! 0)" using A(2,5) by simp_all
  then show ?thesis using d A(1,3,4) unfolding Un_empty_right by blast
qed

text \<open>
  C11. \<open>independent_comalloc\<close> with an array of the client in a live block, which the array of sizes does
  not overlap, and sizes that sum to less than \<open>2 ^ 39\<close> with 40 bytes for each and 64 more, on a system
  whose break moves as \<open>sbrk\<close> documents and on which \<open>mmap\<close> always fails (one segment): it returns 0
  with everything kept, or the array, which then points to new, distinct blocks with room for the
  sizes that were asked for.
\<close>

theorem dlindependent_comalloc_total:
  assumes "sbrk_like E brk start limit" "sbrk_inv brk start limit s U" "unat n_elements = length ks" "ks \<noteq> []"
    "sum_list (map (\<lambda>k. unat k + 40) ks) + 64 < 2 ^ 39"
    "sizes_at s sz ks" "array_cells sz (length ks) \<subseteq> stored start limit s U"
    "A \<in> U" "array_in A chunks (length ks)" "chunks \<noteq> 0" "array_cells sz (length ks) \<inter> array_cells chunks (length ks) = {}"
  shows "\<exists>s' m. dlindependent_comalloc E s n_elements sz chunks = Inr (s', m)
    \<and> (\<forall>a\<in>stored start limit s U - array_cells chunks (length ks). rd s' a = rd s a)
    \<and> (m = 0 \<and> sbrk_inv brk start limit s' U
       \<or> m = chunks \<and> (\<exists>cs. length cs = length ks \<and> distinct cs \<and> set cs \<inter> U = {} \<and> sbrk_inv brk start limit s' (set cs \<union> U)
            \<and> (\<forall>i<length ks. rd s' (chunks + 8 * of_nat i) = chunk2mem (fst (cs ! i))
                 \<and> unat (ks ! i) + 8 \<le> unat (snd (cs ! i)))))"
proof -
  have "place_ok U chunks (length ks) (array_cells sz (length ks))" using assms(8-11) by (auto simp: place_ok_def)
  from independent_comalloc_sbrk [OF assms(1-7) this] obtain s' m where
    d: "dlindependent_comalloc E s n_elements sz chunks = Inr (s', m)"
    and r: "ialloc_result brk start limit s U chunks (map request2size ks) False s' m" by blast
  have sz: "unat (ks ! i) + 8 \<le> unat y" if "map request2size ks ! i \<le> y" "i < length ks" for i y
  proof -
    have "unat (ks ! i) + 40 \<le> sum_list (map (\<lambda>k. unat k + 40) ks)"
      using member_le_sum_list [of "unat (ks ! i) + 40" "map (\<lambda>k. unat k + 40) ks"] that(2) by simp
    then have "unat (ks ! i) < 2 ^ 39" using assms(5) by simp
    from request2size_facts(4) [OF this] that show ?thesis by (simp add: word_le_nat_alt)
  qed
  show ?thesis using d given_array_result [OF r assms(10)] sz unfolding length_map by metis
qed

theorem dlindependent_comalloc_total_witness:
  "\<exists>s p z q y. sbrk_inv (\<lambda>x. x) 0x100000 0x500000 s {(p, z), (q, y)} \<and> sizes_at s (chunk2mem q) [40, 100]
    \<and> (\<exists>s' m. dlindependent_comalloc brk_os s 2 (chunk2mem q) (chunk2mem p) = Inr (s', m) \<and> (m = 0 \<or> m = chunk2mem p))"
proof -
  obtain s0 :: "addr state" and p z q y where s0: "sbrk_inv (\<lambda>x. x) 0x100000 0x500000 s0 {(p, z), (q, y)}" "(p, z) \<noteq> (q, y)"
    by (rule two_blocks)
  let ?c = "chunk2mem p" and ?a = "chunk2mem q" and ?ks = "[40, 100] :: size_t list"
  let ?s = "wr (wr s0 ?a 40) (?a + 8) 100"
  have g: "chunk_geo (p, z)" "32 \<le> unat z" "chunk_geo (q, y)" "32 \<le> unat y"
    using sbrk_geo(1,3) [OF s0(1), of "(p, z)"] sbrk_geo(1,3) [OF s0(1), of "(q, y)"] by simp_all
  have ai: "array_in (p, z) ?c (length ?ks)" "array_in (q, y) ?a (length ?ks)"
    unfolding array_in_def using g(2,4) by (intro exI [of _ 0], simp)+
  have ac: "array_cells ?c (length ?ks) \<subseteq> payload (p, z)" "array_cells ?a (length ?ks) \<subseteq> payload (q, y)"
    using array_cell(1) [OF g(1) ai(1)] array_cell(1) [OF g(3) ai(2)] by (auto simp: array_cells_def)
  have a: "?a \<in> payload (q, y)" "?a + 8 \<in> payload (q, y)" using ac(2) by (simp_all add: array_cells_simps)
  have i: "sbrk_inv (\<lambda>x. x) 0x100000 0x500000 ?s {(p, z), (q, y)}"
    by (intro write_sbrk [where c = "(q, y)"] s0(1) a) simp_all
  have "sizes_at ?s ?a ?ks" by (simp add: sizes_at_def rd_wr less_Suc_eq_0_disj)
  moreover have "array_cells ?a (length ?ks) \<subseteq> stored 0x100000 0x500000 ?s {(p, z), (q, y)}"
    using ac(2) by (auto simp: stored_def)
  moreover have "?c \<noteq> 0" using chunk2mem_nonzero [OF g(1)] by simp
  moreover have "array_cells ?a (length ?ks) \<inter> array_cells ?c (length ?ks) = {}"
    using ac sbrk_geo(2) [OF s0(1), of "(p, z)" "(q, y)"] s0(2) by blast
  moreover have "unat (2 :: size_t) = length ?ks" "?ks \<noteq> []" "sum_list (map (\<lambda>k. unat k + 40) ?ks) + 64 < 2 ^ 39" by simp_all
  ultimately have "\<exists>s' m. dlindependent_comalloc brk_os ?s 2 ?a ?c = Inr (s', m) \<and> (m = 0 \<or> m = ?c)"
    using dlindependent_comalloc_total [OF brk_os_sbrk i _ _ _ _ _ insertI1 ai(1)] by blast
  then show ?thesis using i \<open>sizes_at ?s ?a ?ks\<close> by blast
qed

text \<open>
  C12. Blocks made together can be freed together, with \<open>n * (e + 40) + 64 < 2 ^ 39\<close>, on a system whose
  break moves as \<open>sbrk\<close> documents and on which \<open>mmap\<close> always fails (one segment): \<open>independent_calloc\<close>
  returns 0, or else \<open>bulk_free\<close> of the array it returns and \<open>free\<close> of the array itself give back the
  live blocks there were before, with their contents.
\<close>

theorem independent_calloc_bulk_free:
  assumes "sbrk_like E brk start limit" "sbrk_inv brk start limit s U" "0 < unat n_elements"
    "unat n_elements * (unat elem_size + 40) + 64 < 2 ^ 39"
  shows "\<exists>s1 m. dlindependent_calloc E s n_elements elem_size 0 = Inr (s1, m)
    \<and> (m = 0 \<or> (\<exists>s2 s3. dlbulk_free E s1 m n_elements = Inr (s2, 0) \<and> dlfree E s2 m = Inr s3
          \<and> sbrk_inv brk start limit s3 U \<and> (\<forall>a\<in>stored start limit s U. rd s3 a = rd s a)))"
proof -
  let ?n = "unat n_elements"
  obtain s1 m where d: "dlindependent_calloc E s n_elements elem_size 0 = Inr (s1, m)"
    and r: "ialloc_result brk start limit s U 0 (replicate ?n (request2size elem_size)) True s1 m"
    using independent_calloc_sbrk [OF assms, of 0] by blast
  show ?thesis
  proof (cases "m = 0")
    case False
    with own_array_result [OF r] obtain A cs where ma: "maddr s1 = maddr s" and st: "\<forall>a\<in>stored start limit s U. rd s1 a = rd s a"
      and A: "m = chunk2mem (fst A)" "length cs = ?n" "distinct (A # cs)" "set (A # cs) \<inter> U = {}"
        "sbrk_inv brk start limit s1 (set (A # cs) \<union> U)" "array_in A m ?n"
        "\<forall>i<?n. rd s1 (m + 8 * of_nat i) = chunk2mem (fst (cs ! i))" unfolding length_replicate by blast
    have so: "somes (map Some cs) = set cs" by (auto simp: somes_def)
    have fl: "filter (\<lambda>x. x \<noteq> None) (map Some cs) = map Some cs" by (simp add: filter_map comp_def)
    have "bulk_ready brk start limit A s1 (set (A # cs) \<union> U) m (map Some cs)"
      unfolding bulk_ready_def so fl using A by (auto simp: array_at_nth distinct_map)
    from bulk_free_sbrk [OF assms(1) this, of n_elements] A(2) obtain s2 where
      f: "internal_bulk_free E s1 m n_elements = Inr (s2, 0)"
        "bulk_result brk start limit s1 (set (A # cs) \<union> U - set cs) m ?n s2" unfolding so by auto
    have U: "set (A # cs) \<union> U - set cs = insert A U" "insert A U - {A} = U" using A(3,4) by auto
    have i2: "sbrk_inv brk start limit s2 (insert A U)" "maddr s2 = maddr s1"
        "\<forall>b\<in>stored start limit s1 (insert A U) - array_cells m ?n. rd s2 b = rd s1 b"
      using f(2) unfolding bulk_result_def U by blast+
    obtain p z where pz: "A = (p, z)" by (cases A)
    from dlfree_sbrk [OF assms(1) i2(1) [unfolded pz] insertI1] obtain s3 where
      s3: "dlfree E s2 m = Inr s3" "sbrk_inv brk start limit s3 U" "\<forall>a\<in>stored start limit s2 U. rd s3 a = rd s2 a"
      using U(2) unfolding A(1) pz by auto
    have "rd s3 a = rd s a" if a: "a \<in> stored start limit s U" for a
    proof -
      have e: "stored start limit s1 W = stored start limit s W" "stored start limit s2 W = stored start limit s W" for W
        by (simp_all add: stored_def state_cells_def ma i2(2))
      have A1: "A \<in> set (A # cs) \<union> U" by simp
      obtain F where t: "topp s1 \<noteq> 0" using A(5) A1 by (rule sbrk_heap)
      have "a \<in> stored start limit s1 (set (A # cs) \<union> U - {A})" using a A(3,4) unfolding e by (auto simp: stored_def)
      then have "a \<notin> own A" by (rule stored_other(1) [OF A(5) t A1])
      moreover have "array_cells m ?n \<subseteq> payload A"
        using array_cell(1) [OF sbrk_geo(1) [OF A(5) A1] A(6)] by (auto simp: array_cells_def)
      ultimately have "a \<notin> array_cells m ?n" by (auto simp: payload_def)
      moreover have "a \<in> stored start limit s (insert A U)" using a by (auto simp: stored_def)
      ultimately show ?thesis using st i2(3) s3(3) a unfolding e by simp
    qed
    then show ?thesis using d f(1) s3(1,2) unfolding dlbulk_free_def by blast
  qed (use d in blast)
qed

theorem independent_calloc_bulk_free_witness:
  "\<exists>s1 s2 s3. dlindependent_calloc brk_os start_state 3 100 0 = Inr (s1, 0x100160) \<and> dlbulk_free brk_os s1 0x100160 3 = Inr (s2, 0)
    \<and> dlfree brk_os s2 0x100160 = Inr s3 \<and> sbrk_inv (\<lambda>x. x) 0x100000 0x500000 s3 {}"
proof -
  from independent_calloc_bulk_free [OF brk_os_sbrk start_inv three_bounds] obtain s1 m where
    d: "dlindependent_calloc brk_os start_state 3 100 0 = Inr (s1, m)"
    and r: "m = 0 \<or> (\<exists>s2 s3. dlbulk_free brk_os s1 m 3 = Inr (s2, 0) \<and> dlfree brk_os s2 m = Inr s3
      \<and> sbrk_inv (\<lambda>x. x) 0x100000 0x500000 s3 {})" by blast
  have "m = 0x100160" using three_value unfolding d by simp
  then show ?thesis using d r by auto
qed

section \<open>Sizes that overflow\<close>

text \<open>
  C39. The product of \<open>independent_calloc\<close> is not checked for overflow, as that of \<open>calloc\<close> is: for 3 elements of
  0x5555555555555558 bytes, \<open>ialloc\<close> asks for 32 bytes in all. It then returns an array whose second block is far
  beyond the memory of the process, where the loop has written a head; \<open>calloc\<close> returns 0.
\<close>

theorem independent_calloc_overflow:
  "ialloc_sizes s 3 (\<lambda>_ _. 0x5555555555555558) 3 = (0x5555555555555560, 32)
   \<and> (case dlindependent_calloc brk_os start_state 3 0x5555555555555558 0 of
        Inr (t, m) \<Rightarrow> m = 0x100030 \<and> os t = 0x101000 \<and> rd t m = 0x100010 \<and> rd t (m + 8) = 0x5555555555655570
          \<and> head t 0x5555555555655560 = 0x5555555555555563
      | Inl _ \<Rightarrow> False)
   \<and> (case dlcalloc brk_os start_state 3 0x5555555555555558 of Inr (t, m) \<Rightarrow> m = 0 | Inl _ \<Rightarrow> False)"
proof (intro conjI)
  show "ialloc_sizes s 3 (\<lambda>_ _. 0x5555555555555558) 3 = (0x5555555555555560, 32)"
    by (simp add: ialloc_sizes_def request2size_def pad_request_def dl_consts Let_def)
  show "case dlindependent_calloc brk_os start_state 3 0x5555555555555558 0 of
        Inr (t, m) \<Rightarrow> m = 0x100030 \<and> os t = 0x101000 \<and> rd t m = 0x100010 \<and> rd t (m + 8) = 0x5555555555655570
          \<and> head t 0x5555555555655560 = 0x5555555555555563
      | Inl _ \<Rightarrow> False" by code_simp
  show "case dlcalloc brk_os start_state 3 0x5555555555555558 of Inr (t, m) \<Rightarrow> m = 0 | Inl _ \<Rightarrow> False" by code_simp
qed

end
