(* ===== verification/Spec2Isabelle.thy ===== *)
theory Spec2Isabelle imports DL_MallocProps DL_Stats DL_Debug DL_Locks DL_BinProps DL_ResizeProps DL_EdgeProps DL_ManyProps begin

text \<open>
  A verification of the memory allocator dlmalloc, version 2.8.6, as it stands in
  src/src/dlmalloc.c of the repository (the C code the Rust port was made from).

  \<^bold>\<open>The program.\<close> A space (\<open>malloc_state\<close>) manages segments of memory got from the system. A segment is
  tiled by chunks with boundary tags. A chunk is in use, or free: then it is in one of 32 small bins
  (circular lists, one size each), in one of 32 tree bins (bitwise tries of size ranges), or it is
  the designated victim \<open>dv\<close> or the \<open>top\<close> chunk at the end of the newest segment. \<open>malloc\<close> takes the
  best fit from the bins, the victim or the top, else calls \<open>sys_alloc\<close>; \<open>free\<close> merges a chunk with its
  free neighbours and may give memory back with \<open>sys_trim\<close>. \<open>realloc\<close>, \<open>memalign\<close>, the bulk functions
  and the mspace functions are built on the same parts.

  \<^bold>\<open>The configuration\<close> is the default one of a 64-bit gcc target: \<open>sizeof(size_t) = 8\<close>, alignment 16, no
  footers, no locks, not \<open>INSECURE\<close>, \<open>HAVE_MORECORE\<close>, \<open>HAVE_MMAP\<close> and \<open>MORECORE_CONTIGUOUS\<close> as set by the file for such
  a target. Where the file has two variants of one function for the target (\<open>compute_tree_index\<close>,
  \<open>compute_bit2idx\<close>, the spin locks) both are modelled.

  \<^bold>\<open>State.\<close> \<open>DL_State\<close> has the record \<open>state\<close>: memory as a function from addresses (64-bit words) to
  64-bit cells, the scalar fields of \<open>malloc_state\<close> with their names in C (\<open>topp\<close> for \<open>top\<close>), the
  fields of \<open>malloc_params\<close> (\<open>mp_magic\<close> for its \<open>magic\<close>), and the state of the operating system, which is
  opaque. The bin headers and the first segment record are cells at the address \<open>maddr\<close> of the
  \<open>malloc_state\<close>, as the code treats a small-bin header as a chunk. The system calls are a parameter
  \<open>os_ops\<close>. A function that may abort or not return has the result type \<open>fault + 'a\<close>, with one
  constructor for each kind of abort, and \<open>Diverges\<close>; \<open>flow\<close> renders early returns. Loops are
  \<open>partial_function (option)\<close> without fuel, so that a loop without an end is the value \<open>None\<close>. All
  definitions compute: \<open>code_simp\<close> runs whole call sequences.

  \<^bold>\<open>The model,\<close> in the order of the code: \<open>DL_Sizes\<close> (size, alignment and head macros), \<open>DL_Bits\<close> (bin indices
  and bin maps), \<open>DL_State\<close> (fields and accessors), \<open>DL_SmallBins\<close>, \<open>DL_TreeBins\<close> (list and tree macros, the
  searches of \<open>tmalloc_small\<close> and \<open>tmalloc_large\<close>), \<open>DL_Segments\<close> (\<open>segment_holding\<close>, \<open>init_top\<close>, \<open>init_bins\<close>,
  \<open>prepend_alloc\<close>, \<open>add_segment\<close>), \<open>DL_System\<close> (parameters, \<open>mmap_alloc\<close>, \<open>mmap_resize\<close>, \<open>sys_alloc\<close>, \<open>sys_trim\<close>),
  \<open>DL_Malloc\<close> (\<open>malloc\<close>, \<open>free\<close>, \<open>calloc\<close> and \<open>dispose_chunk\<close>), \<open>DL_Realloc\<close>, \<open>DL_Bulk\<close> (\<open>ialloc\<close>, \<open>internal_bulk_free\<close>,
  \<open>internal_inspect_all\<close>), \<open>DL_Api\<close> (limits, usable size, mspaces), \<open>DL_Stats\<close>, \<open>DL_Debug\<close> (the \<open>do_check\<close> functions
  as predicates) and \<open>DL_Locks\<close>.
\<close>

text \<open>
  \<^bold>\<open>The theorems,\<close> from the parts to the whole.

  Words and bins: \<open>request2size\<close> is the least valid chunk size; the two variants of the tree index agree
  below 1 TiB; bin maps find the next marked bin. \<open>DL_TreeRep\<close>, \<open>DL_TreeDel\<close>, \<open>DL_TreeUnlink\<close> relate memory to an
  abstract trie (\<open>tree_in\<close>) and refine insertion and removal to functions on it; \<open>DL_TreeSearch\<close> shows that
  the searches find the best fit. \<open>DL_FreeStore\<close> puts small and tree bins together: the locale
  \<open>chunk_store\<close> states the interface of a set of free chunks, and is interpreted on the tree bins and on
  the pair \<open>insert_chunk\<close>, \<open>unlink_chunk\<close>; \<open>DL_BinProps\<close> has the resulting properties.

  The heap: \<open>DL_Layout\<close> describes chunks that tile memory (\<open>geo\<close>) and their boundary tags (\<open>tags\<close>), with a
  set of holes that are between two owners while an operation is under way; lemmas open a chunk to a hole,
  join or split holes, and fill a hole with a chunk. \<open>DL_Heap\<close> adds the bins, the victim and the top chunk:
  \<open>heap s U F V K\<close> says that \<open>U\<close> are the chunks in use, \<open>F\<close> those in bins, \<open>V\<close> the fenceposts at the ends of
  older segments and \<open>K\<close> the cells that are not for chunks. It holds for any number of segments.
  \<open>DL_FreeProps\<close>, \<open>DL_MallocProps\<close>, \<open>DL_ResizeProps\<close>, \<open>DL_ReallocProps\<close> and \<open>DL_AlignProps\<close> show that \<open>free\<close>, \<open>malloc\<close> from
  memory at hand, \<open>try_realloc_chunk\<close> and the splits of \<open>internal_memalign\<close> keep it, never report corruption
  and terminate, and which cells they write. \<open>DL_CheckProps\<close> and \<open>DL_StateCheck\<close> show that the checks of the
  DEBUG build accept such heaps.

  The allocator with its system: \<open>sbrk_like E brk start limit\<close> states the documented behaviour of a
  system whose break moves as \<open>sbrk\<close> says and where mapping fails: moving the break returns
  the old one or fails and changes nothing, new memory starts at the old break, everything else is left alone. Nothing is
  assumed about when it fails. That mapping fails is one behaviour \<open>mmap\<close> may have, not the documented one: the
  theorems that assume \<open>sbrk_like\<close> hold for processes with one segment and no mapped chunks, and their
  texts say so; those about \<open>heap\<close> and about the bins hold on any system. \<open>sbrk_inv\<close> is the invariant of the process, from the static
  state on; \<open>DL_SbrkProps\<close> to \<open>DL_SbrkRealloc\<close> show for each exported operation that it returns, keeps the
  invariant, and does what its documentation says to the live blocks and their contents; \<open>top_trimmed\<close> says what
  \<open>sys_trim\<close> gives back, also to a system that always takes it (\<open>shrinks\<close>). \<open>DL_BulkProps\<close> does so for \<open>bulk_free\<close>,
  \<open>DL_IallocProps\<close> for \<open>ialloc\<close>, whose loop is followed on the state in which the rest of the chunk is tagged as one block.

  The contract: \<open>DL_Client\<close> and \<open>DL_FullClient\<close> define an abstract store of live blocks and their contents,
  with the steps a client may observe, and the locales \<open>block_allocator\<close> and its extension
  \<open>full_allocator\<close>: the laws of the operations, and inside them the proof that every run of an
  implementation is a run of the store. They are interpreted on the global functions and on the
  mspace functions, which, as clones in the code, are modelled with the helpers of the global ones. \<open>DL_HeapProps\<close>, \<open>DL_ApiProps\<close>, \<open>DL_EdgeProps\<close> and \<open>DL_ManyProps\<close> hold the resulting properties and
  their witnesses, which evaluate concrete runs. \<open>DL_MmapProps\<close> treats directly mapped chunks by themselves.
  \<open>DL_Locks\<close> has the spin locks as steps of interleaved threads: the plain one excludes, and some thread
  gets it in every run in which a waiting thread takes two steps while it is free; the recursive one
  does not exclude.

  \<^bold>\<open>Bounds.\<close> Chunks of one heap are below 1 TiB in sum, since the index of the gcc variant is wrong for some
  larger sizes; requests are below \<open>2 ^ 39\<close> (aligned ones \<open>2 ^ 38\<close>, alignments up to \<open>2 ^ 37\<close>) so that padded
  requests stay within; the window of the break is at most \<open>2 ^ 39\<close> bytes below \<open>2 ^ 62\<close>; granularity and page size are powers of two
  from 16 to \<open>2 ^ 30\<close>. Requests beyond \<open>MAX_REQUEST\<close> and products that overflow have their own property.

  \<^bold>\<open>What is not proved.\<close> The branches of \<open>sys_alloc\<close> that add a second segment (\<open>add_segment\<close>, \<open>prepend_alloc\<close>,
  mapped segments) and the release of whole segments are modelled, and the heap invariant covers their
  result, but that they establish it is not shown; nor are \<open>mmap_resize\<close>, the statistics
  and the creation and destruction of mspaces. The traversal in \<open>do_check_malloc_state\<close> is modelled; the
  properties cover its bin, victim and chunk checks.

  \<^bold>\<open>Not modelled.\<close> Locks other than the spin locks (calls of libraries), footers and fork handlers (off by default), the emulations of
  \<open>mmap\<close> for Win32 and of \<open>MORECORE\<close> for macOS, the printing in \<open>malloc_stats\<close>, and \<open>PROCEED_ON_ERROR\<close>, which is off. The Rust
  port, its platform layers and its tests are other programs of the repository.
\<close>

end
